(* ===== verification/Prelude.thy ===== *)
theory Prelude
  imports Main "HOL-Library.Word"
begin

text \<open>
  Shared prelude of the development: the machine integer types of the C++ sources, the result
  codes of \<^verbatim>\<open>src/common/result.h\<close>, and the generic lemmas on words, lists and linked free lists
  that the component theories use.
\<close>

unbundle bit_operations_syntax

section \<open>Machine integers\<close>

type_synonym u8 = "8 word"
type_synonym u16 = "16 word"
type_synonym u32 = "32 word"
type_synonym u64 = "64 word"
type_synonym u128 = "128 word"

named_theorems bounds_simps \<open>range facts of the fixed-width integers\<close>

section \<open>Result codes\<close>

text \<open>The enumeration \<^verbatim>\<open>common::result_e\<close> (alias \<^verbatim>\<open>eResult\<close>), with all its enumerators.\<close>

datatype (plugins only: code size) eResult =
    success
  | errorAllocatingMemory
  | errorAllocatingKernelInterface
  | errorBalancerUpdate
  | errorInitEal
  | errorInitBarrier
  | errorInitMempool
  | errorInitEthernetDevice
  | errorInitQueue
  | errorInitRing
  | errorCreateThread
  | errorOpenFile
  | errorSocket
  | errorBind
  | errorListen
  | errorConnect
  | invalidId
  | invalidCoreId
  | invalidSocketId
  | invalidConfigurationFile
  | invalidPrefix
  | invalidValueId
  | invalidPortId
  | invalidPortsCount
  | invalidInterfaceName
  | invalidCoresCount
  | invalidCount
  | invalidCounterId
  | invalidWorkerPortId
  | invalidNeighbor
  | invalidNexthop
  | invalidLogicalPortId
  | invalidVlanId
  | invalidVrfId
  | invalidFlow
  | invalidDecapId
  | invalidInterfaceId
  | invalidNat64statefulId
  | invalidNat64statelessId
  | invalidNat64statelessTranslationId
  | invalidAclId
  | invalidType
  | invalidArguments
  | invalidPhysicalPortName
  | invalidRing
  | isFull
  | isEmpty
  | unsupported
  | unsupportedDevice
  | alreadyExist
  | invalidMulticastIPv6Address
  | dataplaneIsBroken
  | invalidJson
  | missingRequiredOption
  | invalidTun64Id
  | errorInitSharedMemory

section \<open>Words read as natural numbers\<close>

lemma unat_and_mask: "unat (w AND mask n) = unat w mod 2 ^ n" for w :: "'a::len word"
  by (simp flip: take_bit_eq_mask take_bit_eq_mod add: unsigned_take_bit_eq)

lemma unat_drop_bit: "unat (drop_bit n w) = unat w div 2 ^ n" for w :: "'a::len word"
  by (simp only: unat_drop_bit_eq) (simp add: drop_bit_eq_div)

lemma mod_plus_div_le: "0 < m \<Longrightarrow> a mod m + a div m \<le> (a :: nat)"
proof -
  assume "0 < m"
  then have "a div m \<le> m * (a div m)" by simp
  then have "a mod m + a div m \<le> a mod m + m * (a div m)" by (rule add_left_mono)
  also have "\<dots> = a" by (rule mod_mult_div_eq)
  finally show ?thesis .
qed

lemma unat_fold: "unat ((w AND mask n) + drop_bit n w) = unat w mod 2 ^ n + unat w div 2 ^ n"
  for w :: "'a::len word"
proof -
  have "unat w mod 2 ^ n + unat w div 2 ^ n \<le> unat w"
    by (rule mod_plus_div_le) simp
  also have "unat w < 2 ^ LENGTH('a)" by simp
  finally show ?thesis
    by (simp add: unat_word_ariths unat_and_mask unat_drop_bit)
qed

lemma fold_residue: "(a mod 2 ^ n + a div 2 ^ n) mod (2 ^ n - 1) = a mod (2 ^ n - 1 :: nat)"
proof -
  have "a = a mod 2 ^ n + 2 ^ n * (a div 2 ^ n)" by (simp add: mod_mult_div_eq)
  also have "\<dots> = a mod 2 ^ n + a div 2 ^ n + (2 ^ n - 1) * (a div 2 ^ n)"
    by (simp add: diff_mult_distrib)
  finally have "a mod (2 ^ n - 1) =
      (a mod 2 ^ n + a div 2 ^ n + (2 ^ n - 1) * (a div 2 ^ n)) mod (2 ^ n - 1)"
    by (rule arg_cong)
  then show ?thesis by (simp only: mod_mult_self2)
qed

lemma fold_residue_dvd: "m dvd (2 ^ n - 1 :: nat) \<Longrightarrow> (a mod 2 ^ n + a div 2 ^ n) mod m = a mod m"
  using arg_cong [OF fold_residue [of a n], of "\<lambda>x. x mod m"] by (simp only: mod_mod_cancel)

lemma unat_ucast_up: "LENGTH('a) \<le> LENGTH('b) \<Longrightarrow> unat (ucast w :: 'b::len word) = unat w"
  for w :: "'a::len word"
proof -
  assume "LENGTH('a) \<le> LENGTH('b)"
  then have "unat w < 2 ^ LENGTH('b)"
    by (intro less_le_trans [OF unsigned_less power_increasing]) simp_all
  then show ?thesis by (simp add: unsigned_ucast_eq take_bit_nat_eq_self)
qed

lemma mod_add_cancel_right:
  fixes a b c m :: nat
  assumes "(a + c) mod m = (b + c) mod m" and "0 < m"
  shows "a mod m = b mod m"
proof -
  have "(x + c + (m - 1) * c) mod m = x mod m" for x
  proof -
    have "x + c + (m - 1) * c = x + m * c" using assms(2) by (cases m) simp_all
    then show ?thesis by (simp only: mod_mult_self2)
  qed
  moreover have "(a + c + (m - 1) * c) mod m = (b + c + (m - 1) * c) mod m"
    by (rule mod_add_cong [OF assms(1) refl])
  ultimately show ?thesis by simp
qed

lemma mod_add_cancel_iff:
  fixes a b c m :: nat
  assumes "0 < m"
  shows "(a + c) mod m = (b + c) mod m \<longleftrightarrow> a mod m = b mod m"
  using mod_add_cancel_right [OF _ assms] mod_add_cong [OF _ refl] by blast

lemma fold_eq_0_iff: "a mod 2 ^ n + a div 2 ^ n = 0 \<longleftrightarrow> a = (0 :: nat)"
  by (metis add_is_0 div_0 mod_0 mod_mult_div_eq mult_0_right)

lemma fold_once_bound:
  fixes b m :: nat
  assumes "b \<le> 2 * (m - 1)" and "0 < m"
  shows "b mod m + b div m \<le> m - 1"
proof (cases "b < m")
  case False
  then have "b div m = 1" "b mod m = b - m"
    using assms by (auto intro!: div_nat_eqI simp: le_mod_geq)
  then show ?thesis using assms False by linarith
qed (use assms in simp)

lemma unat_of_nat_small: "n < 2 ^ LENGTH('a) \<Longrightarrow> unat (of_nat n :: 'a::len word) = n"
  by (simp add: unat_of_nat)

section \<open>Aligned ranges of words\<close>

lemma unat_take_bit: "unat (take_bit n w) = unat w mod 2 ^ n" for w :: "'a::len word"
  by (simp only: take_bit_eq_mask unat_and_mask)

lemma nat_block_iff:
  fixes b i k :: nat
  assumes "b mod k = 0" and "0 < k"
  shows "b \<le> i \<and> i < b + k \<longleftrightarrow> i div k = b div k"
proof -
  have b: "b = k * (b div k)" using assms(1) by auto
  show ?thesis
  proof
    assume "b \<le> i \<and> i < b + k"
    then show "i div k = b div k" using b by (intro div_nat_eqI) (simp_all add: mult.commute)
  next
    assume e: "i div k = b div k"
    have "i = k * (i div k) + i mod k" by simp
    moreover have "i mod k < k" using assms(2) by simp
    ultimately show "b \<le> i \<and> i < b + k" using b e by (metis le_add1 nat_add_left_cancel_less)
  qed
qed

text \<open>
  The \<open>2 ^ k\<close> words from an aligned one upwards are those with the same upper bits, and none of the
  additions wraps around.
\<close>

lemma aligned_plus:
  fixes b :: "'a::len word"
  assumes "take_bit k b = 0" and "k \<le> LENGTH('a)" and "j < 2 ^ k"
  shows "unat (b + of_nat j) = unat b + j"
proof -
  have m: "unat b mod 2 ^ k = 0" using assms(1) unat_take_bit [of k b] by simp
  have "(2 :: nat) ^ LENGTH('a) = 2 ^ k * 2 ^ (LENGTH('a) - k)"
    using assms(2) by (simp flip: power_add)
  moreover have "unat b < 2 ^ LENGTH('a)" by simp
  ultimately have "unat b div 2 ^ k < 2 ^ (LENGTH('a) - k)"
    by (metis less_mult_imp_div_less mult.commute)
  then have "2 ^ k * (unat b div 2 ^ k + 1) \<le> 2 ^ k * (2 :: nat) ^ (LENGTH('a) - k)"
    by (intro mult_le_mono2) simp
  then have "unat b + 2 ^ k \<le> 2 ^ LENGTH('a)"
    using m \<open>2 ^ LENGTH('a) = 2 ^ k * 2 ^ (LENGTH('a) - k)\<close> by (auto simp: algebra_simps)
  with assms(3) have lt: "unat b + j < 2 ^ LENGTH('a)" by linarith
  then have "unat (of_nat j :: 'a word) = j" by (intro unat_of_nat_small) linarith
  then show ?thesis using lt by (simp add: unat_word_ariths)
qed

lemma aligned_range:
  fixes b x :: "'a::len word"
  assumes "take_bit k b = 0" and "k \<le> LENGTH('a)"
  shows "(\<exists>j < 2 ^ k. x = b + of_nat j) \<longleftrightarrow> drop_bit k x = drop_bit k b"
proof -
  have m: "unat b mod 2 ^ k = 0" using assms(1) unat_take_bit [of k b] by simp
  have "drop_bit k x = drop_bit k b \<longleftrightarrow> unat x div 2 ^ k = unat b div 2 ^ k"
    by (simp add: word_unat_eq_iff unat_drop_bit)
  also have "\<dots> \<longleftrightarrow> unat b \<le> unat x \<and> unat x < unat b + 2 ^ k"
    using nat_block_iff [OF m] by simp
  also have "\<dots> \<longleftrightarrow> (\<exists>j < 2 ^ k. unat x = unat b + j)"
    by (metis add_less_cancel_left le_Suc_ex le_add1)
  also have "\<dots> \<longleftrightarrow> (\<exists>j < 2 ^ k. x = b + of_nat j)"
    using aligned_plus [OF assms] by (metis word_unat_eq_iff)
  finally show ?thesis by simp
qed

lemma drop_bit_eq_iff_bits: "drop_bit k a = drop_bit k b \<longleftrightarrow> (\<forall>n \<ge> k. bit a n = bit b n)"
  for a b :: "'a::len word"
proof
  assume e: "drop_bit k a = drop_bit k b"
  show "\<forall>n \<ge> k. bit a n = bit b n"
  proof safe
    fix n assume "k \<le> n"
    then have "n = k + (n - k)" by simp
    then show "bit a n \<Longrightarrow> bit b n" "bit b n \<Longrightarrow> bit a n" using e by (metis bit_drop_bit_eq comp_apply)+
  qed
qed (auto intro!: bit_word_eqI simp: bit_drop_bit_eq)

lemma card_words_below: "card {i. i < n} = unat n" for n :: "'a::len word"
proof -
  have "unat ` {i. i < n} = {..<unat n}"
  proof safe
    fix k assume k: "k < unat n"
    then have e: "unat (of_nat k :: 'a word) = k"
      using unsigned_less [of n, where ?'a = nat] by (intro unat_of_nat_small) linarith
    then show "k \<in> unat ` {i. i < n}"
      using k by (intro image_eqI [of _ _ "of_nat k"]) (simp_all add: word_less_nat_alt)
  qed (simp add: word_less_nat_alt)
  moreover have "inj_on unat {i. i < n}" by (simp add: inj_on_def word_unat_eq_iff)
  ultimately show ?thesis by (metis card_image card_lessThan)
qed

lemma ones32: "(0xFFFFFFFF :: u32) = - 1" and ones64: "(0xFFFFFFFFFFFFFFFF :: u64) = - 1"
  by simp_all

lemma bit_test: "drop_bit n w AND 1 \<noteq> 0 \<longleftrightarrow> bit w n" for w :: "'a::len word"
  by (simp add: and.commute [of "drop_bit n w" 1] one_and_eq bit_iff_odd_drop_bit odd_iff_mod_2_eq_one)

lemma ucast_32_64_32 [simp]: "ucast (ucast (w :: u32) :: u64) = w"
  by (rule bit_word_eqI) (simp add: bit_ucast_iff)

section \<open>Number of bits\<close>

text \<open>\<^verbatim>\<open>__builtin_popcount\<close>.\<close>

definition popcount :: "u32 \<Rightarrow> nat" where
  "popcount w = length (filter (bit w) [0..<32])"

lemma popcount_card: "popcount w = card {n. bit w n}"
proof -
  have "bit w n \<Longrightarrow> n < 32" for n using bit_imp_le_length [of w n] by simp
  then have "{n. bit w n} = set (filter (bit w) [0..<32])" by auto
  then show ?thesis using distinct_card [of "filter (bit w) [0..<32]"] unfolding popcount_def by simp
qed

lemma popcount_eq_1: "popcount w = 1 \<longleftrightarrow> (\<exists>k < 32. w = 2 ^ k)"
proof
  assume "popcount w = 1"
  then obtain k where k: "{n. bit w n} = {k}" by (auto simp: popcount_card card_1_singleton_iff)
  then have "bit w k" by blast
  then have "k < 32" using bit_imp_le_length [of w k] by simp
  moreover have "w = 2 ^ k"
    using k \<open>k < 32\<close> by (intro bit_word_eqI) (auto simp: bit_exp_iff)
  ultimately show "\<exists>k < 32. w = 2 ^ k" by blast
next
  assume "\<exists>k < 32. w = 2 ^ k"
  then obtain k where k: "k < 32" "w = 2 ^ k" by blast
  then have "{n. bit w n} = {k}" by (auto simp: bit_exp_iff)
  then show "popcount w = 1" by (simp add: popcount_card)
qed

lemma popcount_minus_1: "k < 32 \<Longrightarrow> popcount (2 ^ k - 1) = k"
proof -
  assume "k < 32"
  then have "{n. bit (mask k :: u32) n} = {..<k}" by (auto simp: bit_mask_iff)
  then show ?thesis by (simp add: popcount_card mask_eq_exp_minus_1 [symmetric])
qed

section \<open>Loops that double a size\<close>

text \<open>
  The number of doublings after which a word is zero.  It bounds the loops that retry with twice the
  size: once the size has wrapped around to zero, the allocation is refused.
\<close>

definition doublings :: "'a::len word \<Rightarrow> nat" where
  "doublings w = (LEAST n. push_bit n w = 0)"

lemma doublings_le: "doublings w \<le> LENGTH('a)" for w :: "'a::len word"
  unfolding doublings_def by (rule Least_le) (simp add: bit_eq_iff bit_push_bit_iff)

lemma doublings_times_2:
  fixes w :: "'a::len word"
  assumes "w \<noteq> 0"
  shows "doublings (w * 2) < doublings w"
proof -
  have ex: "push_bit (doublings w) w = 0"
    unfolding doublings_def by (rule LeastI [of _ "LENGTH('a)"]) (simp add: bit_eq_iff bit_push_bit_iff)
  with assms have pos: "doublings w \<noteq> 0" by (metis push_bit_0_id id_apply)
  have "push_bit (doublings w - 1) (w * 2) = push_bit (Suc (doublings w - 1)) w"
    by (simp only: push_bit_Suc)
  also have "\<dots> = push_bit (doublings w) w" using pos by simp
  finally have "doublings (w * 2) \<le> doublings w - 1"
    using ex unfolding doublings_def [of "w * 2"] by (intro Least_le) simp
  with pos show ?thesis by simp
qed

section \<open>Byte order\<close>

text \<open>\<^verbatim>\<open>rte_be_to_cpu_32\<close> on the little-endian machines the code is written for.\<close>

definition be_to_cpu_32 :: "u32 \<Rightarrow> u32" where
  "be_to_cpu_32 w =
     push_bit 24 (w AND 0xFF) OR push_bit 16 (drop_bit 8 w AND 0xFF) OR
     push_bit 8 (drop_bit 16 w AND 0xFF) OR drop_bit 24 w"

section \<open>Tables updated range by range\<close>

text \<open>
  The contract of a table that maps points to values and whose updates overwrite the points they
  cover: forwarding tables, prefix stores and flat arrays all promise it.
\<close>

locale override_table =
  fixes inv :: "'t \<Rightarrow> bool"
    and ok :: "'u \<Rightarrow> bool"
    and step :: "'u \<Rightarrow> 't \<Rightarrow> 't"
    and val :: "'t \<Rightarrow> 'a \<Rightarrow> 'v"
    and covers :: "'u \<Rightarrow> 'a \<Rightarrow> bool"
    and new :: "'u \<Rightarrow> 'v"
  assumes inv_step: "inv t \<Longrightarrow> ok u \<Longrightarrow> inv (step u t)"
    and val_step: "inv t \<Longrightarrow> ok u \<Longrightarrow> val (step u t) a = (if covers u a then new u else val t a)"
begin

lemma inv_steps: "inv t \<Longrightarrow> list_all ok us \<Longrightarrow> inv (fold step us t)"
  by (induction us arbitrary: t) (auto simp: inv_step)

text \<open>The last update that covers a point decides its value.\<close>

lemma val_steps:
  assumes "inv t" and "list_all ok us"
  shows "val (fold step us t) a = (case List.find (\<lambda>u. covers u a) (rev us) of Some u \<Rightarrow> new u | None \<Rightarrow> val t a)"
  using assms(2)
proof (induction us rule: rev_induct)
  case (snoc u us)
  then show ?case using val_step [OF inv_steps [OF assms(1), of us], of u a] by simp
qed simp

end

section \<open>Maps of bounded capacity\<close>

text \<open>
  The contract of the hash tables: an update may be refused for lack of space, in which case nothing
  changes, and a removal reports whether the key was there.
\<close>

datatype ('k, 'v) map_op = Put 'k 'v | Del 'k

fun map_run :: "('s \<Rightarrow> 'k \<Rightarrow> 'v \<Rightarrow> bool \<times> 's) \<Rightarrow> ('s \<Rightarrow> 'k \<Rightarrow> bool \<times> 's) \<Rightarrow> 's \<Rightarrow> ('k, 'v) map_op list \<Rightarrow> bool list \<times> 's" where
  "map_run put del s [] = ([], s)"
| "map_run put del s (op # ops) =
     (let (ok, s) = (case op of Put k v \<Rightarrow> put s k v | Del k \<Rightarrow> del s k);
          (oks, s) = map_run put del s ops
      in (ok # oks, s))"

text \<open>What a list of operations with their results does to the map.\<close>

fun map_effect :: "('k \<rightharpoonup> 'v) \<Rightarrow> (('k, 'v) map_op \<times> bool) list \<Rightarrow> 'k \<rightharpoonup> 'v" where
  "map_effect m [] = m"
| "map_effect m ((op, ok) # rest) =
     map_effect (if ok then (case op of Put k v \<Rightarrow> m(k \<mapsto> v) | Del k \<Rightarrow> m(k := None)) else m) rest"

locale put_map =
  fixes inv :: "'s \<Rightarrow> bool"
    and get :: "'s \<Rightarrow> 'k \<Rightarrow> 'w option"
    and put :: "'s \<Rightarrow> 'k \<Rightarrow> 'v \<Rightarrow> bool \<times> 's"
    and stored :: "'v \<Rightarrow> 'w"
  assumes put_law: "inv s \<Longrightarrow> put s k v = (ok, s') \<Longrightarrow> inv s' \<and> get s' = (if ok then (get s)(k \<mapsto> stored v) else get s)"
begin

text \<open>A table that is filled from a list; the flag tells whether every insertion was accepted.\<close>

lemma fill_effect:
  assumes "inv s" and "fold (\<lambda>(k, v) (ok, s). let (ok', s) = put s k v in (ok \<and> ok', s)) kvs (ok, s) = (ok', s')"
  shows "inv s' \<and> (ok' \<longrightarrow> ok \<and> get s' = get s ++ (map_option stored \<circ> map_of (rev kvs)))"
  using assms
proof (induction kvs arbitrary: ok s)
  case (Cons kv kvs)
  obtain k v where kv: "kv = (k, v)" by force
  obtain ok1 s1 where p: "put s k v = (ok1, s1)" by force
  from put_law [OF Cons.prems(1) p] Cons.IH [of s1 "ok \<and> ok1"] Cons.prems(2) show ?case
    by (auto simp: kv p map_add_upd_left map_add_assoc [symmetric] fun_eq_iff map_add_def split: option.splits)
qed simp

end

locale bounded_map = put_map inv get put "\<lambda>v. v"
  for inv :: "'s \<Rightarrow> bool" and get :: "'s \<Rightarrow> 'k \<Rightarrow> 'v option" and put :: "'s \<Rightarrow> 'k \<Rightarrow> 'v \<Rightarrow> bool \<times> 's" +
  fixes del :: "'s \<Rightarrow> 'k \<Rightarrow> bool \<times> 's"
  assumes del_law: "inv s \<Longrightarrow> del s k = (ok, s') \<Longrightarrow> inv s' \<and> ok = (get s k \<noteq> None) \<and> get s' = (get s)(k := None)"
begin

lemma del_effect: "inv s \<Longrightarrow> del s k = (ok, s') \<Longrightarrow> get s' = (if ok then (get s)(k := None) else get s)"
  using del_law [of s k ok s'] fun_upd_idem [of "get s" k None] by auto

lemma run_effect:
  "inv s \<Longrightarrow> map_run put del s ops = (oks, s') \<Longrightarrow> inv s' \<and> get s' = map_effect (get s) (zip ops oks)"
proof (induction ops arbitrary: s oks)
  case (Cons op ops)
  obtain ok s1 where step: "(case op of Put k v \<Rightarrow> put s k v | Del k \<Rightarrow> del s k) = (ok, s1)" by fastforce
  obtain oks1 where rest: "map_run put del s1 ops = (oks1, s')" and oks: "oks = ok # oks1"
    using Cons.prems(2) step by (auto simp: split: prod.splits)
  have "inv s1" and "get s1 = (if ok then (case op of Put k v \<Rightarrow> (get s)(k \<mapsto> v) | Del k \<Rightarrow> (get s)(k := None)) else get s)"
    using step put_law [OF Cons.prems(1), of _ _ ok s1] del_law [OF Cons.prems(1), of _ ok s1]
      del_effect [OF Cons.prems(1), of _ ok s1]
    by (auto split: map_op.splits)
  then show ?case using Cons.IH [OF _ rest] by (simp add: oks)
qed simp

end

end
