(* ===== verification/Checksum.thy ===== *)
theory Checksum
  imports Prelude
begin

text \<open>
  The one's-complement checksum arithmetic of \<^verbatim>\<open>src/dataplane/checksum.h\<close>: the 32-bit-at-a-time sum
  \<^verbatim>\<open>csum_calc\<close>, the 16-bit end-around-carry additions and subtractions, and the incremental updates
  that NAT64 and tun64 apply to the TCP, UDP and ICMP checksums when the pseudo header changes.
  A header is represented by the checksum field the function reads and writes.  The specification is
  the residue modulo 65535 of the sum of the 16-bit halves, with the two representations of zero
  (0 and 65535) told apart by \<open>ocsum\<close>.
\<close>

section \<open>Definitions\<close>


text \<open>The \<^verbatim>\<open>while (len--)\<close> loop of \<^verbatim>\<open>csum_calc\<close>; \<open>buf\<close> holds the \<^verbatim>\<open>len\<close> words read.\<close>

fun csum_loop :: "u32 list \<Rightarrow> u64 \<Rightarrow> u64" where
  "csum_loop [] acc = acc"
| "csum_loop (w # ws) acc = csum_loop ws (acc + ucast w)"

definition fold32 :: "u64 \<Rightarrow> u64" where
  "fold32 acc = (acc AND 0xffffffff) + drop_bit 32 acc"

definition fold16 :: "u64 \<Rightarrow> u64" where
  "fold16 acc = (acc AND 0xffff) + drop_bit 16 acc"

definition csum_calc :: "u32 list \<Rightarrow> u16" where
  "csum_calc buf = ucast (fold16 (fold16 (fold32 (fold32 (csum_loop buf 0)))))"

definition csum_plus :: "u16 \<Rightarrow> u16 \<Rightarrow> u16" where
  "csum_plus val0 val1 =
     (let s = val0 + val1 in if s < val0 then s + 1 else s)"

definition csum_minus :: "u16 \<Rightarrow> u16 \<Rightarrow> u16" where
  "csum_minus val0 val1 =
     (let s = val0 - val1 in if s > val0 then s - 1 else s)"

definition fold16_u32 :: "u32 \<Rightarrow> u32" where
  "fold16_u32 s = (s AND 0xffff) + drop_bit 16 s"

definition csum_plus5 :: "u16 \<Rightarrow> u16 \<Rightarrow> u16 \<Rightarrow> u16 \<Rightarrow> u16 \<Rightarrow> u16" where
  "csum_plus5 val0 val1 val2 val3 val4 =
     (let s = ucast val0 + ucast val1 + ucast val2 + ucast val3 + ucast val4 :: u32;
          s = fold16_u32 s;
          s = fold16_u32 s
      in ucast s)"

definition csum_minus5 :: "u16 \<Rightarrow> u16 \<Rightarrow> u16 \<Rightarrow> u16 \<Rightarrow> u16 \<Rightarrow> u16" where
  "csum_minus5 val0 val1 val2 val3 val4 =
     (let s = ucast val1 + ucast val2 + ucast val3 + ucast val4 :: u32;
          s = fold16_u32 s;
          s = fold16_u32 s
      in csum_minus val0 (ucast s))"

definition yanet_tcp_checksum_v6_to_v4 :: "u16 \<Rightarrow> u16 \<Rightarrow> u16 \<Rightarrow> u16" where
  "yanet_tcp_checksum_v6_to_v4 cksum checksum6 checksum4 =
     (let csum = NOT cksum;
          csum = csum_minus csum checksum6;
          csum = csum_plus csum checksum4
      in NOT csum)"

definition yanet_udp_checksum_v6_to_v4 :: "u16 \<Rightarrow> u16 \<Rightarrow> u16 \<Rightarrow> u16" where
  "yanet_udp_checksum_v6_to_v4 dgram_cksum checksum6 checksum4 =
     (let csum = NOT dgram_cksum;
          csum = csum_minus csum checksum6;
          csum = csum_plus csum checksum4;
          csum = NOT csum
      in if csum \<noteq> 0 then csum else 0xffff)"

definition yanet_checksum :: "u32 list \<Rightarrow> nat \<Rightarrow> u16" where
  "yanet_checksum pointer len = csum_calc (take (len div 4) pointer)"

definition yanet_icmp_checksum_v6_to_v4 :: "u16 \<Rightarrow> u16 \<Rightarrow> u16 \<Rightarrow> u16" where
  "yanet_icmp_checksum_v6_to_v4 checksum checksum6 checksum4 =
     (let csum = NOT checksum;
          csum = csum_minus csum checksum6;
          csum = csum_plus csum checksum4
      in NOT csum)"

definition yanet_tcp_checksum_v4_to_v6 :: "u16 \<Rightarrow> u16 \<Rightarrow> u16 \<Rightarrow> u16" where
  "yanet_tcp_checksum_v4_to_v6 cksum checksum4 checksum6 =
     (let csum = NOT cksum;
          csum = csum_minus csum checksum4;
          csum = csum_plus csum checksum6
      in NOT csum)"

definition yanet_udp_checksum_v4_to_v6 :: "u16 \<Rightarrow> u16 \<Rightarrow> u16 \<Rightarrow> u16" where
  "yanet_udp_checksum_v4_to_v6 dgram_cksum checksum4 checksum6 =
     (let csum = NOT dgram_cksum;
          csum = csum_minus csum checksum4;
          csum = csum_plus csum checksum6;
          csum = NOT csum
      in if csum \<noteq> 0 then csum else 0xffff)"

definition yanet_icmp_checksum_v4_to_v6 :: "u16 \<Rightarrow> u16 \<Rightarrow> u16 \<Rightarrow> u16" where
  "yanet_icmp_checksum_v4_to_v6 checksum checksum4 checksum6 =
     (let csum = NOT checksum;
          csum = csum_minus csum checksum4;
          csum = csum_plus csum checksum6
      in NOT csum)"

section \<open>Specification\<close>

text \<open>\<open>ocsum n\<close> is the 16-bit one's-complement representation of \<open>n\<close>: only 0 itself is sent to 0.\<close>

definition ocsum :: "nat \<Rightarrow> nat" where
  "ocsum n = (if n = 0 then 0 else if n mod 65535 = 0 then 65535 else n mod 65535)"

definition half_sum :: "u32 list \<Rightarrow> nat" where
  "half_sum buf = (\<Sum>w\<leftarrow>buf. unat w mod 2 ^ 16 + unat w div 2 ^ 16)"

text \<open>
  A checksum field is valid for data whose 16-bit words add up to \<open>covered\<close> when the total vanishes
  modulo 65535.
\<close>

definition checksum_valid :: "u16 \<Rightarrow> nat \<Rightarrow> bool" where
  "checksum_valid cksum covered = ((unat cksum + covered) mod 65535 = 0)"

section \<open>Folding\<close>

lemma ocsum_cong: "a mod 65535 = b mod 65535 \<Longrightarrow> (a = 0) = (b = 0) \<Longrightarrow> ocsum a = ocsum b"
  by (simp add: ocsum_def)

lemma ocsum_small [simp]: "n \<le> 65535 \<Longrightarrow> ocsum n = n"
  by (cases "n = 65535") (simp_all add: ocsum_def)

lemma ocsum_le [simp]: "ocsum n \<le> 65535"
  by (simp add: ocsum_def mod_le_divisor)

lemma ocsum_eq_0_iff [simp]: "ocsum n = 0 \<longleftrightarrow> n = 0"
  by (simp add: ocsum_def)

lemma ocsum_mod: "ocsum n mod 65535 = n mod 65535"
  by (simp add: ocsum_def)

lemma ocsum_add: "ocsum (ocsum a + b) = ocsum (a + b)"
  by (rule ocsum_cong) (simp_all add: mod_add_left_eq [symmetric, of "ocsum a"] ocsum_mod mod_add_left_eq)

lemma ocsum_fold16: "ocsum (a mod 65536 + a div 65536) = ocsum a"
  using fold_residue_dvd [of 65535 16 a] fold_eq_0_iff [of a 16] by (intro ocsum_cong) simp_all

lemma ocsum_fold32: "ocsum (a mod 4294967296 + a div 4294967296) = ocsum a"
  using fold_residue_dvd [of 65535 32 a] fold_eq_0_iff [of a 32] by (intro ocsum_cong) simp_all

lemma unat_fold32: "unat (fold32 acc) = unat acc mod 4294967296 + unat acc div 4294967296"
  using unat_fold [of acc 32] by (simp add: fold32_def mask_eq_exp_minus_1)

lemma unat_fold16: "unat (fold16 acc) = unat acc mod 65536 + unat acc div 65536"
  using unat_fold [of acc 16] by (simp add: fold16_def mask_eq_exp_minus_1)

lemma unat_fold16_u32: "unat (fold16_u32 s) = unat s mod 65536 + unat s div 65536"
  using unat_fold [of s 16] by (simp add: fold16_u32_def mask_eq_exp_minus_1)

lemma unat_csum_loop:
  "unat acc + (\<Sum>w\<leftarrow>ws. unat w) < 2 ^ 64 \<Longrightarrow> unat (csum_loop ws acc) = unat acc + (\<Sum>w\<leftarrow>ws. unat w)"
proof (induction ws arbitrary: acc)
  case Nil
  then show ?case by simp
next
  case (Cons w ws)
  then have "unat (acc + ucast w) = unat acc + unat w"
    by (simp add: unat_word_ariths unat_ucast_up)
  with Cons show ?case by (simp add: add.assoc)
qed

lemma sum_unat_bound: "(\<Sum>w\<leftarrow>ws. unat (w :: u32)) \<le> length ws * (2 ^ 32 - 1)"
proof (induction ws)
  case (Cons w ws)
  have "unat w \<le> 2 ^ 32 - 1" using unsigned_less [of w, where ?'a = nat] by simp
  with Cons show ?case by simp
qed simp

lemma ocsum_half_sum: "ocsum (half_sum buf + a) = ocsum ((\<Sum>w\<leftarrow>buf. unat w) + a)"
proof (induction buf arbitrary: a)
  case Nil
  then show ?case by (simp add: half_sum_def)
next
  case (Cons w ws)
  have "ocsum (half_sum (w # ws) + a) = ocsum (half_sum ws + (unat w mod 65536 + unat w div 65536 + a))"
    by (simp add: half_sum_def ac_simps)
  also have "\<dots> = ocsum (ocsum (unat w mod 65536 + unat w div 65536) + ((\<Sum>w\<leftarrow>ws. unat w) + a))"
    by (simp only: Cons.IH ocsum_add) (simp add: ac_simps)
  also have "\<dots> = ocsum (unat w + ((\<Sum>w\<leftarrow>ws. unat w) + a))"
    by (simp only: ocsum_fold16 ocsum_add)
  finally show ?case by (simp add: ac_simps)
qed

lemma fold_once_16: "b \<le> 131070 \<Longrightarrow> b mod 65536 + b div 65536 = ocsum b"
  using fold_once_bound [of b 65536] ocsum_fold16 [of b] by simp

lemma fold_twice_16:
  assumes "a \<le> 4294967295"
  shows "(a mod 65536 + a div 65536) mod 65536 + (a mod 65536 + a div 65536) div 65536 = ocsum a"
proof -
  have "a div 65536 \<le> 65535" using div_le_mono [OF assms, of 65536] by simp
  moreover have "a mod 65536 \<le> 65535" using mod_less_divisor [of 65536 a] by simp
  ultimately show ?thesis by (simp only: fold_once_16 ocsum_fold16)
qed

lemma fold32_twice_bound:
  fixes a :: nat
  assumes "a < 18446744073709551616"
  defines "b \<equiv> a mod 4294967296 + a div 4294967296"
  shows "b mod 4294967296 + b div 4294967296 \<le> 4294967295"
proof -
  have "a div 4294967296 \<le> 4294967295" using assms by (simp add: less_mult_imp_div_less)
  moreover have "a mod 4294967296 \<le> 4294967295" using mod_less_divisor [of 4294967296 a] by simp
  ultimately have "b \<le> 2 * (4294967296 - 1)" unfolding b_def by simp
  from fold_once_bound [OF this] show ?thesis by simp
qed

lemma unat_csum_calc:
  assumes "length buf < 2 ^ 32"
  shows "unat (csum_calc buf) = ocsum (half_sum buf)"
proof -
  define s where "s = csum_loop buf 0"
  have "length buf * (2 ^ 32 - 1) \<le> (2 ^ 32 - 1) * (2 ^ 32 - 1)"
    using assms by (intro mult_le_mono1) simp
  then have "(\<Sum>w\<leftarrow>buf. unat w) < 2 ^ 64"
    using sum_unat_bound [of buf] by simp
  then have s: "unat s = (\<Sum>w\<leftarrow>buf. unat w)"
    using unat_csum_loop [of 0 buf] by (simp add: s_def)
  have "unat (fold32 (fold32 s)) \<le> 4294967295"
    using fold32_twice_bound [of "unat s"] unsigned_less [of s, where ?'a = nat]
    by (simp add: unat_fold32)
  then have "unat (fold16 (fold16 (fold32 (fold32 s)))) = ocsum (unat (fold32 (fold32 s)))"
    by (simp only: unat_fold16 fold_twice_16)
  also have "\<dots> = ocsum (unat s)"
    by (simp only: unat_fold32 ocsum_fold32)
  also have "\<dots> = ocsum (half_sum buf)"
    using ocsum_half_sum [of buf 0] s by simp
  finally show ?thesis
    using ocsum_le [of "half_sum buf"]
    by (simp add: csum_calc_def s_def [symmetric] unsigned_ucast_eq take_bit_eq_mod del: ocsum_le)
qed


lemma unat_csum_plus: "unat (csum_plus val0 val1) = ocsum (unat val0 + unat val1)"
proof -
  have b: "unat val0 \<le> 65535" "unat val1 \<le> 65535"
    using unsigned_less [of val0, where ?'a = nat] unsigned_less [of val1, where ?'a = nat] by simp_all
  show ?thesis
  proof (cases "unat val0 + unat val1 < 65536")
    case True
    then show ?thesis
      by (simp add: csum_plus_def word_less_nat_alt unat_word_ariths)
  next
    case False
    then have "(unat val0 + unat val1) mod 65536 = unat val0 + unat val1 - 65536"
      using b by (simp add: le_mod_geq)
    then have u: "unat (val0 + val1) = unat val0 + unat val1 - 65536"
      by (simp add: unat_word_ariths)
    then have "val0 + val1 < val0" using False b by (simp add: word_less_nat_alt)
    then have "unat (csum_plus val0 val1) = unat val0 + unat val1 - 65535"
      using u False b by (simp add: csum_plus_def unat_word_ariths)
    also have "\<dots> = ocsum (unat val0 + unat val1)"
      using False b fold_once_16 [of "unat val0 + unat val1"] by (simp add: div_nat_eqI le_mod_geq)
    finally show ?thesis .
  qed
qed

lemma unat_csum_minus:
  "unat (csum_minus val0 val1) =
     (if unat val1 \<le> unat val0 then unat val0 - unat val1 else unat val0 + 65535 - unat val1)"
proof -
  have b: "unat val0 \<le> 65535" "unat val1 \<le> 65535"
    using unsigned_less [of val0, where ?'a = nat] unsigned_less [of val1, where ?'a = nat] by simp_all
  show ?thesis
  proof (cases "unat val1 \<le> unat val0")
    case True
    then have "unat (val0 - val1) = unat val0 - unat val1"
      by (simp add: unat_sub word_le_nat_alt)
    then show ?thesis using True by (auto simp: csum_minus_def Let_def word_less_nat_alt)
  next
    case False
    then have u: "unat (val0 - val1) = unat val0 + 65536 - unat val1"
      by (simp add: unat_sub_if_size word_size)
    then have "val0 < val0 - val1" using False b by (simp add: word_less_nat_alt)
    moreover have "unat (val0 - val1 - 1) = unat val0 + 65535 - unat val1"
    proof -
      have "val0 - val1 \<noteq> 0" using False by auto
      from unat_minus_one [OF this] show ?thesis using u b by simp
    qed
    ultimately show ?thesis using False by (simp add: csum_minus_def)
  qed
qed

lemma csum_minus_residue:
  "(unat (csum_minus val0 val1) + unat val1) mod 65535 = unat val0 mod 65535"
  using unsigned_less [of val1, where ?'a = nat] by (auto simp: unat_csum_minus)

lemma csum_update_residue:
  assumes "unat old_inv mod 65535 = (unat old + rest) mod 65535"
  shows "unat (csum_plus (csum_minus old_inv old) new) mod 65535 = (unat new + rest) mod 65535"
proof -
  have "(unat (csum_minus old_inv old) + unat old) mod 65535 = (rest + unat old) mod 65535"
    using assms csum_minus_residue [of old_inv old] by (simp add: add.commute)
  then have "unat (csum_minus old_inv old) mod 65535 = rest mod 65535"
    by (rule mod_add_cancel_right) simp
  then have "(unat (csum_minus old_inv old) + unat new) mod 65535 = (rest + unat new) mod 65535"
    by (rule mod_add_cong [OF _ refl])
  then show ?thesis by (simp only: unat_csum_plus ocsum_mod add.commute [of "unat new"])
qed


lemma unat_csum_plus5:
  "unat (csum_plus5 val0 val1 val2 val3 val4) =
     ocsum (unat val0 + unat val1 + unat val2 + unat val3 + unat val4)"
proof -
  have b: "unat v \<le> 65535" for v :: u16
    using unsigned_less [of v, where ?'a = nat] by simp
  define s :: u32 where "s = ucast val0 + ucast val1 + ucast val2 + ucast val3 + ucast val4"
  have s: "unat s = unat val0 + unat val1 + unat val2 + unat val3 + unat val4"
    using b [of val0] b [of val1] b [of val2] b [of val3] b [of val4]
    by (simp add: s_def unat_word_ariths unat_ucast_up)
  have "unat (fold16_u32 (fold16_u32 s)) = ocsum (unat s)"
    using unsigned_less [of s, where ?'a = nat] by (simp add: unat_fold16_u32 fold_twice_16)
  moreover have "ocsum (unat s) < 65536"
    using ocsum_le [of "unat s"] by (simp del: ocsum_le)
  ultimately show ?thesis
    by (simp add: csum_plus5_def s_def [symmetric] s unsigned_ucast_eq take_bit_eq_mod)
qed

lemma csum_minus5_residue:
  "(unat (csum_minus5 val0 val1 val2 val3 val4) + (unat val1 + unat val2 + unat val3 + unat val4)) mod 65535 =
     unat val0 mod 65535"
proof -
  have plus: "csum_minus5 val0 val1 val2 val3 val4 = csum_minus val0 (csum_plus5 0 val1 val2 val3 val4)"
    by (simp add: csum_minus5_def csum_plus5_def)
  have "(unat (csum_minus val0 (csum_plus5 0 val1 val2 val3 val4)) +
      ocsum (unat val1 + unat val2 + unat val3 + unat val4)) mod 65535 = unat val0 mod 65535"
    using csum_minus_residue [of val0 "csum_plus5 0 val1 val2 val3 val4"] by (simp add: unat_csum_plus5)
  then show ?thesis
    unfolding plus by (rule trans [OF mod_add_cong [OF refl ocsum_mod [symmetric]]])
qed


lemma unat_NOT_u16: "unat (NOT w) = 65535 - unat w" for w :: u16
proof -
  have "unat w \<le> 65535" using unsigned_less [of w, where ?'a = nat] by simp
  moreover have "unat (-1 :: u16) = 65535" by (simp add: unsigned_minus_1_eq_mask mask_eq_exp_minus_1)
  moreover have "NOT w = - 1 - w" by (simp add: not_eq_complement)
  ultimately show ?thesis using unat_sub [of w "-1"] by (simp only: word_le_nat_alt)
qed

lemma checksum_valid_NOT: "checksum_valid cksum covered \<longleftrightarrow> unat (NOT cksum) mod 65535 = covered mod 65535"
proof -
  have b: "unat cksum \<le> 65535" using unsigned_less [of cksum, where ?'a = nat] by simp
  have "(65535 - unat cksum) mod 65535 = covered mod 65535 \<longleftrightarrow>
      (65535 - unat cksum + unat cksum) mod 65535 = (covered + unat cksum) mod 65535"
    by (simp only: mod_add_cancel_iff zero_less_numeral)
  then show ?thesis using b by (auto simp: checksum_valid_def unat_NOT_u16 add.commute)
qed

lemma tcp_update_valid:
  assumes "checksum_valid cksum (unat old + rest)"
  shows "checksum_valid (NOT (csum_plus (csum_minus (NOT cksum) old) new)) (unat new + rest)"
  using assms csum_update_residue [of "NOT cksum" old rest new] by (simp add: checksum_valid_NOT)

lemma checksum_valid_udp_zero: "checksum_valid (if c \<noteq> 0 then c else 0xffff) n \<longleftrightarrow> checksum_valid c n"
  by (simp add: checksum_valid_def)

lemma mod_eq_bounded: "x mod m = y mod m \<Longrightarrow> x \<le> m \<Longrightarrow> 0 < y \<Longrightarrow> y < m \<Longrightarrow> x = (y :: nat)"
  by (cases "x = m") simp_all

lemmas checksum_update_defs =
  yanet_tcp_checksum_v6_to_v4_def yanet_udp_checksum_v6_to_v4_def yanet_icmp_checksum_v6_to_v4_def
  yanet_tcp_checksum_v4_to_v6_def yanet_udp_checksum_v4_to_v6_def yanet_icmp_checksum_v4_to_v6_def

section \<open>Properties\<close>

text \<open>
  C15: the 32-bit-at-a-time checksum loop of \<^verbatim>\<open>csum_calc\<close>, with its four folds, computes exactly
  the 16-bit one's-complement sum of the 16-bit halves of the buffer (the length is a 32-bit unsigned
  integer), so that neither the 64-bit accumulator nor the folds ever lose a carry.
\<close>

theorem csum_calc_correct:
  assumes "length buf < 2 ^ 32"
  shows "unat (csum_calc buf) = ocsum (half_sum buf)"
  using assms by (rule unat_csum_calc)

theorem csum_calc_correct_witness:
  "length [0xffff0001, 0xfffffffe, 0x12345678 :: u32] < 2 ^ 32 \<and>
   unat (csum_calc [0xffff0001, 0xfffffffe, 0x12345678]) = ocsum (half_sum [0xffff0001, 0xfffffffe, 0x12345678])"
  using csum_calc_correct [of "[0xffff0001, 0xfffffffe, 0x12345678]"] by simp

text \<open>
  C14: every incremental checksum update of the NAT64 translation is sound.  If the transport
  checksum of the packet is valid for the old pseudo header sum together with the rest of the
  segment, then the updated field is valid for the new pseudo header sum with the same rest, for TCP,
  UDP and ICMP and in both directions.
\<close>

theorem checksum_update_sound:
  assumes "checksum_valid cksum (unat old + rest)"
  shows "checksum_valid (yanet_tcp_checksum_v6_to_v4 cksum old new) (unat new + rest) \<and>
    checksum_valid (yanet_udp_checksum_v6_to_v4 cksum old new) (unat new + rest) \<and>
    checksum_valid (yanet_icmp_checksum_v6_to_v4 cksum old new) (unat new + rest) \<and>
    checksum_valid (yanet_tcp_checksum_v4_to_v6 cksum old new) (unat new + rest) \<and>
    checksum_valid (yanet_udp_checksum_v4_to_v6 cksum old new) (unat new + rest) \<and>
    checksum_valid (yanet_icmp_checksum_v4_to_v6 cksum old new) (unat new + rest)"
  using tcp_update_valid [OF assms]
  by (simp only: checksum_update_defs Let_def checksum_valid_udp_zero simp_thms)

theorem checksum_update_sound_witness:
  "checksum_valid (0xfffc :: u16) (unat (1 :: u16) + 2) \<and>
   checksum_valid (yanet_udp_checksum_v6_to_v4 0xfffc 1 0xffff) (unat (0xffff :: u16) + 2)"
  using checksum_update_sound [of "0xfffc" 1 2 "0xffff"] by (simp add: checksum_valid_def)

text \<open>
  A translated UDP datagram never carries the checksum 0, which in UDP means that no checksum
  was computed; and the UDP update differs from the TCP one only there.
\<close>

lemma udp_checksum_never_zero:
  "yanet_udp_checksum_v6_to_v4 c old new \<noteq> 0 \<and> yanet_udp_checksum_v4_to_v6 c old new \<noteq> 0 \<and>
   (yanet_udp_checksum_v6_to_v4 c old new =
      (if yanet_tcp_checksum_v6_to_v4 c old new = 0 then 0xffff else yanet_tcp_checksum_v6_to_v4 c old new))"
  by (simp add: checksum_update_defs Let_def)

text \<open>
  Translating a TCP checksum from IPv6 to IPv4 and back with the same pseudo header sums gives
  the original field, unless it was one of the two representations of zero.
\<close>

lemma tcp_checksum_round_trip:
  assumes "c \<noteq> 0" and "c \<noteq> 0xffff"
  shows "yanet_tcp_checksum_v4_to_v6 (yanet_tcp_checksum_v6_to_v4 c checksum6 checksum4) checksum4 checksum6 = c"
    (is "?c' = c")
proof -
  define rest where "rest = (65535 - unat c) + (65535 - unat checksum6)"
  have b: "unat v \<le> 65535" for v :: u16
    using unsigned_less [of v, where ?'a = nat] by simp
  have sums: "unat c + (unat checksum6 + rest) = 2 * 65535"
    using b [of c] b [of checksum6] by (simp add: rest_def)
  have "checksum_valid c (unat checksum6 + rest)"
    unfolding checksum_valid_def sums by simp
  from tcp_update_valid [OF tcp_update_valid [OF this]]
  have "checksum_valid ?c' (unat checksum6 + rest)"
    by (simp only: checksum_update_defs Let_def)
  then have "(unat ?c' + (unat checksum6 + rest)) mod 65535 = (unat c + (unat checksum6 + rest)) mod 65535"
    unfolding checksum_valid_def sums by simp
  then have m: "unat ?c' mod 65535 = unat c mod 65535"
    by (simp only: mod_add_cancel_iff zero_less_numeral)
  have "unat c \<noteq> 0" "unat c \<noteq> 65535"
    using assms word_unat_eq_iff [of c "0xffff"] by (simp_all add: unat_eq_zero)
  then have "0 < unat c" "unat c < 65535" using b [of c] by simp_all
  with m b [of ?c'] have "unat ?c' = unat c" by (rule mod_eq_bounded)
  then show ?thesis by (simp only: word_unat_eq_iff)
qed

end
