(* ===== verification/Address.thy ===== *)
theory Address
  imports Prelude
begin

text \<open>
  The address and prefix classes of \<^verbatim>\<open>src/common/type.h\<close>: \<^verbatim>\<open>ipv4_address_t\<close> (a 32-bit integer in
  host order), \<^verbatim>\<open>ipv6_address_t\<close> (an array of 16 bytes), the variant \<^verbatim>\<open>ip_address_t\<close> and the prefixes.
  The bit numbered 0 is the most significant one.  The reads of 32 and 64 bits at a byte offset are
  the big-endian words \<open>be_word\<close>.  A shift whose count reaches the width of the shifted type is
  undefined behaviour in C++ and has the value \<open>None\<close>.
\<close>

section \<open>IPv4\<close>

type_synonym ipv4_address_t = u32

definition ipv4_applyMask :: "ipv4_address_t \<Rightarrow> u8 \<Rightarrow> ipv4_address_t" where
  "ipv4_applyMask address msk =
     (if msk = 0 \<or> msk > 32 then 0 else address AND push_bit (32 - unat msk) 0xFFFFFFFF)"

definition ipv4_splitNetwork :: "ipv4_address_t \<Rightarrow> u8 \<Rightarrow> ipv4_address_t \<times> ipv4_address_t" where
  "ipv4_splitNetwork address msk =
     (if msk \<ge> 32 then (address, address)
      else (address, address OR push_bit (32 - unat msk - 1) 1))"

definition ipv4_set_bit :: "ipv4_address_t \<Rightarrow> nat \<Rightarrow> bool \<Rightarrow> ipv4_address_t" where
  "ipv4_set_bit address index b =
     (let address = address OR push_bit (31 - index) (of_bool b);
          address = address AND NOT (push_bit (31 - index) (of_bool (\<not> b)))
      in address)"

definition ipv4_get_bit :: "ipv4_address_t \<Rightarrow> nat \<Rightarrow> bool" where
  "ipv4_get_bit address index = ((drop_bit (31 - index) address AND 1) \<noteq> 0)"

section \<open>IPv6\<close>

type_synonym ipv6_address_t = "u8 list"

text \<open>The type invariant of \<^verbatim>\<open>std::array<uint8_t, 16>\<close>.\<close>

definition ipv6_wf :: "ipv6_address_t \<Rightarrow> bool" where
  "ipv6_wf address = (length address = 16)"

text \<open>\<^verbatim>\<open>be32toh\<close> and \<^verbatim>\<open>be64toh\<close> of the bytes in memory order, and \<^verbatim>\<open>htobe64\<close> stored to memory.\<close>

definition be_word :: "u8 list \<Rightarrow> 'a::len word" where
  "be_word bs = foldl (\<lambda>acc b. push_bit 8 acc OR ucast b) 0 bs"

definition htobe64 :: "u64 \<Rightarrow> u8 list" where
  "htobe64 w = map (\<lambda>i. ucast (drop_bit (8 * (7 - i)) w)) [0..<8]"

definition htobe32 :: "u32 \<Rightarrow> u8 list" where
  "htobe32 w = map (\<lambda>i. ucast (drop_bit (8 * (3 - i)) w)) [0..<4]"

definition ipv6_zero :: ipv6_address_t where
  "ipv6_zero = replicate 16 0"

definition ipv6_of_64 :: "u64 \<Rightarrow> u64 \<Rightarrow> ipv6_address_t" where
  "ipv6_of_64 address0 address64 = htobe64 address0 @ htobe64 address64"

definition ipv6_of_128 :: "u128 \<Rightarrow> ipv6_address_t" where
  "ipv6_of_128 address = ipv6_of_64 (ucast (drop_bit 64 address)) (ucast address)"

definition getAddress64 :: "ipv6_address_t \<Rightarrow> nat \<Rightarrow> u64" where
  "getAddress64 address offset =
     (if offset mod 8 \<noteq> 0 \<or> offset > 128 - 64 then 0
      else be_word (take 8 (drop (offset div 8) address)))"

definition getAddress32 :: "ipv6_address_t \<Rightarrow> nat \<Rightarrow> u32" where
  "getAddress32 address offset =
     (if offset mod 8 \<noteq> 0 \<or> offset > 128 - 32 then 0
      else be_word (take 4 (drop (offset div 8) address)))"

definition getAddress128 :: "ipv6_address_t \<Rightarrow> u128" where
  "getAddress128 address = push_bit 64 (ucast (getAddress64 address 0)) + ucast (getAddress64 address 64)"

definition ipv6_plus :: "ipv6_address_t \<Rightarrow> u32 \<Rightarrow> ipv6_address_t" where
  "ipv6_plus address val = take 12 address @ htobe32 (be_word (drop 12 address) + val)"

definition ipv6_applyMask :: "ipv6_address_t \<Rightarrow> u8 \<Rightarrow> ipv6_address_t" where
  "ipv6_applyMask address msk =
     (if msk = 0 \<or> msk > 128 then ipv6_zero
      else let address0 = getAddress64 address 0;
               address64 = getAddress64 address 64
           in if msk > 64
              then ipv6_of_64 address0 (address64 AND push_bit (128 - unat msk) 0xFFFFFFFFFFFFFFFF)
              else ipv6_of_64 (address0 AND push_bit (64 - unat msk) 0xFFFFFFFFFFFFFFFF) 0)"

definition get_mapped_ipv4_address :: "ipv6_address_t \<Rightarrow> ipv4_address_t" where
  "get_mapped_ipv4_address address = getAddress32 address 96"

definition ipv6_set_bit :: "ipv6_address_t \<Rightarrow> nat \<Rightarrow> bool \<Rightarrow> ipv6_address_t" where
  "ipv6_set_bit address index b =
     (let byte = address ! (index div 8);
          byte = byte OR push_bit (7 - index mod 8) (of_bool b);
          byte = byte AND NOT (push_bit (7 - index mod 8) (of_bool (\<not> b)))
      in address[index div 8 := byte])"

definition ipv6_get_bit :: "ipv6_address_t \<Rightarrow> nat \<Rightarrow> bool" where
  "ipv6_get_bit address index =
     ((drop_bit (31 - index mod 32) (getAddress32 address ((index div 32) * 32)) AND 1) \<noteq> 0)"

definition is_multicast :: "ipv6_address_t \<Rightarrow> bool" where
  "is_multicast address = ((address ! 0 AND 0xff) = 0xff)"

section \<open>The variant types and the prefixes\<close>

datatype ip_address_t = ipv4_address ipv4_address_t | ipv6_address ipv6_address_t

record 'a prefix_t =
  prefix_address :: 'a
  prefix_mask :: u8

type_synonym ipv4_prefix_t = "ipv4_address_t prefix_t"
type_synonym ipv6_prefix_t = "ipv6_address_t prefix_t"

datatype ip_prefix_t = ipv4_prefix ipv4_prefix_t | ipv6_prefix ipv6_prefix_t

definition ipv4_isValid :: "ipv4_prefix_t \<Rightarrow> bool" where
  "ipv4_isValid p = (prefix_mask p \<le> 32 \<and> ipv4_applyMask (prefix_address p) (prefix_mask p) = prefix_address p)"

definition ipv4_subnetOf :: "ipv4_prefix_t \<Rightarrow> ipv4_prefix_t \<Rightarrow> bool" where
  "ipv4_subnetOf p other =
     (if prefix_mask p < prefix_mask other then False else ipv4_applyMask (prefix_address p) (prefix_mask other) = prefix_address other)"

definition ipv4_subnetFor :: "ipv4_prefix_t \<Rightarrow> ipv4_address_t \<Rightarrow> bool" where
  "ipv4_subnetFor p other = (ipv4_applyMask other (prefix_mask p) = ipv4_applyMask (prefix_address p) (prefix_mask p))"

definition ipv4_prefix_splitNetwork :: "ipv4_prefix_t \<Rightarrow> ipv4_prefix_t \<times> ipv4_prefix_t" where
  "ipv4_prefix_splitNetwork p =
     (if prefix_mask p \<ge> 32 then (p, p)
      else (\<lparr>prefix_address = prefix_address p, prefix_mask = prefix_mask p + 1\<rparr>,
            \<lparr>prefix_address = prefix_address p OR push_bit (32 - unat (prefix_mask p) - 1) 1, prefix_mask = prefix_mask p + 1\<rparr>))"

text \<open>
  \<^verbatim>\<open>getAddressMask64\<close> of \<^verbatim>\<open>ipv6_prefix_t\<close>; the count of its shift, \<^verbatim>\<open>64 + offset - mask\<close>, is checked
  against the width of \<^verbatim>\<open>uint64_t\<close>.
\<close>

definition getAddressMask64 :: "ipv6_prefix_t \<Rightarrow> nat \<Rightarrow> u64 option" where
  "getAddressMask64 p offset =
     (if offset > 128 - 64 then Some 0
      else if unat (prefix_mask p) \<ge> 64 + offset then Some 0xFFFFFFFFFFFFFFFF
      else if unat (prefix_mask p) = offset then Some 0
      else if 64 + offset - unat (prefix_mask p) \<ge> 64 then None
      else Some (push_bit (64 + offset - unat (prefix_mask p)) 0xFFFFFFFFFFFFFFFF))"

definition ipv6_isValid :: "ipv6_prefix_t \<Rightarrow> bool option" where
  "ipv6_isValid p =
     (if prefix_mask p > 128 then Some False
      else case getAddressMask64 p 0 of
             None \<Rightarrow> None
           | Some m0 \<Rightarrow>
               (if (getAddress64 (prefix_address p) 0 AND m0) \<noteq> getAddress64 (prefix_address p) 0 then Some False
                else case getAddressMask64 p 64 of
                       None \<Rightarrow> None
                     | Some m64 \<Rightarrow>
                         Some (\<not> (getAddress64 (prefix_address p) 64 AND m64) \<noteq> getAddress64 (prefix_address p) 64)))"

definition ipv6_subnetFor :: "ipv6_prefix_t \<Rightarrow> ipv6_address_t \<Rightarrow> bool" where
  "ipv6_subnetFor p other = (ipv6_applyMask other (prefix_mask p) = ipv6_applyMask (prefix_address p) (prefix_mask p))"

definition ipv6_subnetOf :: "ipv6_prefix_t \<Rightarrow> ipv6_prefix_t \<Rightarrow> bool" where
  "ipv6_subnetOf p other =
     (if prefix_mask p < prefix_mask other then False else ipv6_applyMask (prefix_address p) (prefix_mask other) = prefix_address other)"

definition ip_subnetFor :: "ip_prefix_t \<Rightarrow> ip_address_t \<Rightarrow> bool" where
  "ip_subnetFor p other =
     (case (p, other) of
        (ipv4_prefix p4, ipv4_address a) \<Rightarrow> ipv4_subnetFor p4 a
      | (ipv6_prefix p6, ipv6_address a) \<Rightarrow> ipv6_subnetFor p6 a
      | _ \<Rightarrow> False)"

definition ip_applyMask :: "ip_address_t \<Rightarrow> u8 \<Rightarrow> ip_address_t" where
  "ip_applyMask a msk =
     (case a of
        ipv4_address a4 \<Rightarrow> ipv4_address (ipv4_applyMask a4 msk)
      | ipv6_address a6 \<Rightarrow> ipv6_address (ipv6_applyMask a6 msk))"

definition is_host :: "ip_prefix_t \<Rightarrow> bool" where
  "is_host p = (case p of ipv4_prefix p4 \<Rightarrow> prefix_mask p4 = 32 | ipv6_prefix p6 \<Rightarrow> prefix_mask p6 = 128)"

section \<open>Bits of IPv4 addresses\<close>

lemma and_one_nonzero: "(w AND 1 \<noteq> 0) = bit w 0" for w :: "'a::len word"
  by (simp add: and_one_eq odd_iff_mod_2_eq_one bit_0)

lemma ipv4_get_bit_bit: "ipv4_get_bit a i = bit a (31 - i)"
  by (simp add: ipv4_get_bit_def and_one_nonzero bit_drop_bit_eq)

lemma ipv4_eqI:
  assumes "\<And>i. i < 32 \<Longrightarrow> ipv4_get_bit a i = ipv4_get_bit b i"
  shows "a = b"
proof (rule bit_word_eqI)
  fix n assume "n < LENGTH(32)"
  then show "bit a n = bit b n" using assms [of "31 - n"] by (simp add: ipv4_get_bit_bit)
qed

lemma bit_push_ones: "bit (push_bit k (- 1 :: 'a::len word)) n = (k \<le> n \<and> n < LENGTH('a))"
  by (auto simp: bit_not_iff bit_mask_iff)

lemma ipv4_get_bit_applyMask:
  assumes "msk \<le> 32" and "i < 32"
  shows "ipv4_get_bit (ipv4_applyMask a msk) i = (i < unat msk \<and> ipv4_get_bit a i)"
proof -
  have "unat msk \<le> 32" "msk = 0 \<longleftrightarrow> unat msk = 0"
    using assms(1) by (simp_all add: word_le_nat_alt unat_eq_zero)
  then show ?thesis
    using assms by (auto simp: ipv4_applyMask_def ipv4_get_bit_bit bit_and_iff ones32 bit_not_iff bit_mask_iff)
qed

lemma ipv4_get_set_bit:
  assumes "i < 32" and "j < 32"
  shows "ipv4_get_bit (ipv4_set_bit a i b) j = (if i = j then b else ipv4_get_bit a j)"
  using assms
  by (auto simp: ipv4_get_bit_bit ipv4_set_bit_def Let_def bit_and_iff bit_or_iff bit_not_iff
      bit_push_bit_iff bit_1_iff)

lemma ipv4_applyMask_eq_iff:
  assumes "msk \<le> 32"
  shows "ipv4_applyMask a msk = ipv4_applyMask b msk \<longleftrightarrow>
    (\<forall>i < unat msk. ipv4_get_bit a i = ipv4_get_bit b i)"
proof -
  have "unat msk \<le> 32" using assms by (simp add: word_le_nat_alt)
  then show ?thesis
    using ipv4_get_bit_applyMask [OF assms] ipv4_eqI [of "ipv4_applyMask a msk" "ipv4_applyMask b msk"]
    by (metis less_le_trans)
qed

section \<open>Bits of IPv6 addresses\<close>

lemma be_word_snoc: "be_word (bs @ [b]) = push_bit 8 (be_word bs) OR (ucast b :: 'a::len word)"
  by (simp add: be_word_def)

lemma bit_be_word:
  "n < 8 * length bs \<Longrightarrow> n < LENGTH('a::len) \<Longrightarrow>
   bit (be_word bs :: 'a word) n = bit (bs ! (length bs - 1 - n div 8)) (n mod 8)"
proof (induction bs arbitrary: n rule: rev_induct)
  case (snoc b bs)
  show ?case
  proof (cases "n < 8")
    case True
    then show ?thesis
      using snoc.prems by (simp add: be_word_snoc bit_or_iff bit_push_bit_iff bit_ucast_iff nth_append)
  next
    case False
    then have "bit b n = False" using bit_imp_le_length [of b n] by auto
    with False show ?thesis
      using snoc.prems snoc.IH [of "n - 8"]
      by (simp add: be_word_snoc bit_or_iff bit_push_bit_iff bit_ucast_iff nth_append
          le_div_geq le_mod_geq less_diff_conv2)
  qed
qed simp

text \<open>A bit index as byte number \<open>k\<close> and bit \<open>r\<close> of the byte.\<close>

lemma bit_index_cases:
  assumes "i < (n :: nat) * 8"
  obtains k r where "i = 8 * k + r" "k < n" "r < 8"
proof
  show "i = 8 * (i div 8) + i mod 8" by simp
  show "i div 8 < n" using assms by (simp add: less_mult_imp_div_less)
qed simp

lemma byte_div_mod [simp]: "r < 8 \<Longrightarrow> (8 * k + r) div 8 = k" "r < 8 \<Longrightarrow> (8 * k + r) mod 8 = (r :: nat)"
  by simp_all

lemma bit_in_byte [simp]: "7 - r < (8 :: nat)"
  by simp

lemma bit_be_word_byte:
  assumes "k < length bs" and "r < 8" and "8 * k + r < LENGTH('a::len)"
  shows "bit (be_word bs :: 'a word) (8 * k + r) = bit (bs ! (length bs - 1 - k)) r"
  using bit_be_word [of "8 * k + r" bs, where ?'a = 'a] assms by simp

lemma ipv6_get_bit_byte:
  assumes "ipv6_wf a" and "k < 16" and "r < 8"
  shows "ipv6_get_bit a (8 * k + r) = bit (a ! k) (7 - r)"
proof -
  define q b where "q = k div 4" and "b = k mod 4"
  have k: "k = 4 * q + b" "b < 4" "q < 4" using assms(2) by (auto simp: q_def b_def)
  have i: "8 * k + r = 32 * q + (8 * b + r)" using k by simp
  have lt: "8 * b + r < 32" using k assms by simp
  then have "(8 * k + r) div 32 = q" "(8 * k + r) mod 32 = 8 * b + r"
    unfolding i by simp_all
  moreover have "31 - (8 * b + r) = 8 * (3 - b) + (7 - r)" using k assms by simp
  moreover have "bit (be_word (take 4 (drop (4 * q) a)) :: u32) (8 * (3 - b) + (7 - r)) =
      bit (take 4 (drop (4 * q) a) ! (4 - 1 - (3 - b))) (7 - r)"
  proof -
    have "length (take 4 (drop (4 * q) a)) = 4" using assms k by (simp add: ipv6_wf_def)
    moreover have "3 - b < 4" "7 - r < 8" "8 * (3 - b) + (7 - r) < LENGTH(32)" using k by simp_all
    ultimately show ?thesis using bit_be_word_byte by metis
  qed
  moreover have "4 - 1 - (3 - b) = b" using k by simp
  moreover have "getAddress32 a (q * 32) = be_word (take 4 (drop (4 * q) a))"
  proof -
    have "q * 32 mod 8 = 0" "q * 32 div 8 = 4 * q" by (simp_all add: mult.commute div_mult2_eq [of _ 8 4, simplified])
    with k(3) show ?thesis by (simp add: getAddress32_def)
  qed
  moreover have "take 4 (drop (4 * q) a) ! b = a ! (4 * q + b)"
    using assms(1) k by (simp add: ipv6_wf_def)
  ultimately show ?thesis
    by (simp only: ipv6_get_bit_def and_one_nonzero bit_drop_bit_eq o_def k(1) [symmetric] add_0_right)
qed

lemma getAddress64_byte:
  assumes "ipv6_wf a" and "k < 8" and "r < 8" and "off = 0 \<or> off = 8"
  shows "bit (getAddress64 a (8 * off)) (8 * (7 - k) + (7 - r)) = bit (a ! (off + k)) (7 - r)"
proof -
  have "length (take 8 (drop off a)) = 8" using assms by (auto simp: ipv6_wf_def)
  then show ?thesis
    using bit_be_word_byte [of "7 - k" "take 8 (drop off a)" "7 - r", where ?'a = 64] assms
    by (auto simp: getAddress64_def ipv6_wf_def)
qed

lemma bit_getAddress64:
  assumes "ipv6_wf a" and "i < 64"
  shows "bit (getAddress64 a 0) (63 - i) = ipv6_get_bit a i"
    and "bit (getAddress64 a 64) (63 - i) = ipv6_get_bit a (64 + i)"
proof -
  from assms(2) obtain k r where i: "i = 8 * k + r" "k < 8" "r < 8"
    using bit_index_cases [of i 8] by auto
  then have e: "63 - i = 8 * (7 - k) + (7 - r)" "64 + i = 8 * (8 + k) + r" by simp_all
  show "bit (getAddress64 a 0) (63 - i) = ipv6_get_bit a i"
    unfolding e unfolding i(1) using getAddress64_byte [of a k r 0] ipv6_get_bit_byte [of a k r] assms(1) i(2,3)
    by simp
  show "bit (getAddress64 a 64) (63 - i) = ipv6_get_bit a (64 + i)"
    unfolding e using getAddress64_byte [of a k r 8] ipv6_get_bit_byte [of a "8 + k" r] assms(1) i(2,3)
    by (simp add: add.assoc del: diff_add_assoc diff_add_assoc2 mult_Suc_right)
qed

lemma htobe64_nth: "k < 8 \<Longrightarrow> htobe64 w ! k = ucast (drop_bit (8 * (7 - k)) w)"
  by (simp add: htobe64_def)

lemma length_htobe [simp]: "length (htobe64 w) = 8" "length (htobe32 v) = 4"
  by (simp_all add: htobe64_def htobe32_def)

lemma ipv6_wf_of_64 [simp]: "ipv6_wf (ipv6_of_64 x y)"
  by (simp add: ipv6_wf_def ipv6_of_64_def)

lemma ipv6_of_64_nth:
  "k < 8 \<Longrightarrow> ipv6_of_64 x y ! k = ucast (drop_bit (8 * (7 - k)) x)"
  "k < 8 \<Longrightarrow> ipv6_of_64 x y ! (8 + k) = ucast (drop_bit (8 * (7 - k)) y)"
  by (simp_all add: ipv6_of_64_def nth_append htobe64_nth)

lemma ipv6_get_bit_of_64:
  assumes "i < 64"
  shows "ipv6_get_bit (ipv6_of_64 x y) i = bit x (63 - i)"
    and "ipv6_get_bit (ipv6_of_64 x y) (64 + i) = bit y (63 - i)"
proof -
  from assms obtain k r where i: "i = 8 * k + r" "k < 8" "r < 8"
    using bit_index_cases [of i 8] by auto
  then have e: "63 - i = 8 * (7 - k) + (7 - r)" "64 + i = 8 * (8 + k) + r" by simp_all
  show "ipv6_get_bit (ipv6_of_64 x y) i = bit x (63 - i)"
    unfolding e unfolding i(1) using i(2,3) ipv6_get_bit_byte [of "ipv6_of_64 x y" k r]
    by (simp add: ipv6_of_64_nth bit_ucast_iff bit_drop_bit_eq)
  show "ipv6_get_bit (ipv6_of_64 x y) (64 + i) = bit y (63 - i)"
    unfolding e using i(2,3) ipv6_get_bit_byte [of "ipv6_of_64 x y" "8 + k" r]
    by (simp add: ipv6_of_64_nth bit_ucast_iff bit_drop_bit_eq)
qed

lemma ipv6_eqI:
  assumes "ipv6_wf a" and "ipv6_wf b" and "\<And>i. i < 128 \<Longrightarrow> ipv6_get_bit a i = ipv6_get_bit b i"
  shows "a = b"
proof (rule nth_equalityI)
  show "length a = length b" using assms by (simp add: ipv6_wf_def)
next
  fix k assume "k < length a"
  then have k: "k < 16" using assms(1) by (simp add: ipv6_wf_def)
  show "a ! k = b ! k"
  proof (rule bit_word_eqI)
    fix n assume "n < LENGTH(8)"
    then show "bit (a ! k) n = bit (b ! k) n"
      using assms k ipv6_get_bit_byte [of a k "7 - n"] ipv6_get_bit_byte [of b k "7 - n"] by simp
  qed
qed

lemma ipv6_split_index:
  assumes "i < (128 :: nat)"
  obtains "i < 64" | j where "i = 64 + j" "j < 64"
  using that(1) that(2) [of "i - 64"] assms by (cases "i < 64") simp_all

lemma ipv6_wf_zero [simp]: "ipv6_wf ipv6_zero"
  by (simp add: ipv6_wf_def ipv6_zero_def)

lemma ipv6_get_bit_zero: "i < 128 \<Longrightarrow> \<not> ipv6_get_bit ipv6_zero i"
proof -
  assume "i < 128"
  then obtain k r where "i = 8 * k + r" "k < 16" "r < 8" using bit_index_cases [of i 16] by auto
  then show ?thesis by (simp add: ipv6_get_bit_byte) (simp add: ipv6_zero_def)
qed

lemma ipv6_wf_applyMask [simp]: "ipv6_wf (ipv6_applyMask a msk)"
  by (simp add: ipv6_applyMask_def Let_def)

lemma ipv6_get_bit_applyMask:
  assumes "ipv6_wf a" and "msk \<le> 128" and "i < 128"
  shows "ipv6_get_bit (ipv6_applyMask a msk) i = (i < unat msk \<and> ipv6_get_bit a i)"
proof -
  have m: "unat msk \<le> 128" "msk = 0 \<longleftrightarrow> unat msk = 0" "msk > 64 \<longleftrightarrow> unat msk > 64" "\<not> msk > 128"
    using assms(2) by (simp_all add: word_le_nat_alt word_less_nat_alt unat_eq_zero)
  note bits = bit_and_iff ones64 bit_not_iff bit_mask_iff
  from assms(3) show ?thesis
  proof (cases rule: ipv6_split_index)
    case 1
    then show ?thesis
      using m assms by (auto simp: ipv6_applyMask_def Let_def ipv6_get_bit_of_64 bit_getAddress64 bits ipv6_get_bit_zero)
  next
    case (2 j)
    then show ?thesis
      using m assms by (auto simp: ipv6_applyMask_def Let_def ipv6_get_bit_of_64 bit_getAddress64 bits ipv6_get_bit_zero)
  qed
qed

lemma ipv6_applyMask_eq_iff:
  assumes "ipv6_wf a" and "ipv6_wf b" and "msk \<le> 128"
  shows "ipv6_applyMask a msk = ipv6_applyMask b msk \<longleftrightarrow>
    (\<forall>i < unat msk. ipv6_get_bit a i = ipv6_get_bit b i)"
proof -
  have "unat msk \<le> 128" using assms by (simp add: word_le_nat_alt)
  then show ?thesis
    using ipv6_get_bit_applyMask assms ipv6_eqI [of "ipv6_applyMask a msk" "ipv6_applyMask b msk"]
    by (metis ipv6_wf_applyMask less_le_trans)
qed

lemma ipv6_wf_set_bit: "ipv6_wf a \<Longrightarrow> ipv6_wf (ipv6_set_bit a i b)"
  by (simp add: ipv6_wf_def ipv6_set_bit_def Let_def)

lemma ipv6_get_set_bit:
  assumes "ipv6_wf a" and "i < 128" and "j < 128"
  shows "ipv6_get_bit (ipv6_set_bit a i b) j = (if i = j then b else ipv6_get_bit a j)"
proof -
  from assms obtain k r where i: "i = 8 * k + r" "k < 16" "r < 8"
    using bit_index_cases [of i 16] by auto
  from assms obtain k' r' where j: "j = 8 * k' + r'" "k' < 16" "r' < 8"
    using bit_index_cases [of j 16] by auto
  have len: "length a = 16" using assms(1) by (simp add: ipv6_wf_def)
  have ij: "i = j \<longleftrightarrow> k = k' \<and> r = r'"
    using i j by (metis byte_div_mod)
  have "ipv6_get_bit (ipv6_set_bit a i b) j = bit (ipv6_set_bit a i b ! k') (7 - r')"
    using ipv6_get_bit_byte [OF ipv6_wf_set_bit [OF assms(1)]] j by simp
  also have "\<dots> = (if k = k' \<and> r = r' then b else bit (a ! k') (7 - r'))"
    using i j len
    by (auto simp: ipv6_set_bit_def Let_def nth_list_update bit_and_iff bit_or_iff bit_not_iff
        bit_push_bit_iff bit_1_iff)
  also have "bit (a ! k') (7 - r') = ipv6_get_bit a j"
    using ipv6_get_bit_byte [OF assms(1)] j by simp
  finally show ?thesis using ij by simp
qed

section \<open>The addresses as bit strings\<close>

text \<open>
  The interface of the addresses that the prefix trees rely on: \<^verbatim>\<open>get_bit\<close> and \<^verbatim>\<open>set_bit\<close> read and
  write single bits, the default-constructed address is all zeros, and an address is determined by
  its bits.
\<close>

locale bit_address =
  fixes width :: nat
    and valid :: "'k \<Rightarrow> bool"
    and zero :: 'k
    and get_bit :: "'k \<Rightarrow> nat \<Rightarrow> bool"
    and set_bit :: "'k \<Rightarrow> nat \<Rightarrow> bool \<Rightarrow> 'k"
  assumes valid_zero: "valid zero"
    and get_bit_zero: "i < width \<Longrightarrow> \<not> get_bit zero i"
    and valid_set_bit: "valid a \<Longrightarrow> i < width \<Longrightarrow> valid (set_bit a i b)"
    and get_set_bit: "valid a \<Longrightarrow> i < width \<Longrightarrow> j < width \<Longrightarrow>
      get_bit (set_bit a i b) j = (if i = j then b else get_bit a j)"
    and bits_eqI: "valid a \<Longrightarrow> valid a' \<Longrightarrow> (\<And>i. i < width \<Longrightarrow> get_bit a i = get_bit a' i) \<Longrightarrow> a = a'"
begin

lemma set_bit_restore:
  assumes "valid a" and "i < width" and "\<not> get_bit a i"
  shows "set_bit (set_bit a i True) i False = a"
  using assms by (intro bits_eqI) (auto simp: valid_set_bit get_set_bit)

end

interpretation ipv4_bits: bit_address 32 "\<lambda>_. True" 0 ipv4_get_bit ipv4_set_bit
  by unfold_locales (simp_all add: ipv4_get_set_bit ipv4_eqI, simp add: ipv4_get_bit_bit)

interpretation ipv6_bits: bit_address 128 ipv6_wf ipv6_zero ipv6_get_bit ipv6_set_bit
  by unfold_locales (simp_all add: ipv6_get_bit_zero ipv6_wf_set_bit ipv6_get_set_bit ipv6_eqI)

section \<open>Conversions\<close>

lemma bit_getAddress128:
  assumes "ipv6_wf a" and "i < 128"
  shows "bit (getAddress128 a) (127 - i) = ipv6_get_bit a i"
proof -
  have or_eq: "getAddress128 a = push_bit 64 (ucast (getAddress64 a 0)) OR ucast (getAddress64 a 64)"
    unfolding getAddress128_def
    by (rule disjunctive_add) (auto simp: bit_push_bit_iff bit_ucast_iff dest: bit_imp_le_length)
  from assms(2) show ?thesis
  proof (cases rule: ipv6_split_index)
    case 1
    then have "\<not> bit (getAddress64 a 64) (127 - i)" "127 - i - 64 = 63 - i" "64 \<le> 127 - i"
      "127 - i < 128" "63 - i < 128"
      using bit_imp_le_length [of "getAddress64 a 64" "127 - i"] by auto
    then show ?thesis
      using 1 assms bit_getAddress64(1) [OF assms(1) 1]
      by (simp add: or_eq bit_or_iff bit_push_bit_iff bit_ucast_iff)
  next
    case (2 j)
    then have "\<not> 64 \<le> 63 - j" "63 - j < 128" by simp_all
    with 2 show ?thesis
      using assms bit_getAddress64(2) [OF assms(1) 2(2)]
      by (simp add: or_eq bit_or_iff bit_push_bit_iff bit_ucast_iff)
  qed
qed

lemma ipv6_get_bit_of_128:
  assumes "i < 128"
  shows "ipv6_get_bit (ipv6_of_128 w) i = bit w (127 - i)"
  using assms
proof (cases rule: ipv6_split_index)
  case 1
  then have "64 + (63 - i) = 127 - i" "63 - i < 64" by simp_all
  then show ?thesis
    using 1 by (simp add: ipv6_of_128_def ipv6_get_bit_of_64 bit_ucast_iff bit_drop_bit_eq)
next
  case (2 j)
  then show ?thesis
    by (simp add: ipv6_of_128_def ipv6_get_bit_of_64 bit_ucast_iff bit_drop_bit_eq less_imp_diff_less)
qed

lemma ipv6_wf_of_128 [simp]: "ipv6_wf (ipv6_of_128 w)"
  by (simp add: ipv6_of_128_def)

lemma getAddress64_of_64: "getAddress64 (ipv6_of_64 x y) 0 = x" "getAddress64 (ipv6_of_64 x y) 64 = y"
proof -
  show "getAddress64 (ipv6_of_64 x y) 0 = x"
  proof (rule bit_word_eqI)
    fix n assume "n < LENGTH(64)"
    then show "bit (getAddress64 (ipv6_of_64 x y) 0) n = bit x n"
      using bit_getAddress64(1) [of "ipv6_of_64 x y" "63 - n"] ipv6_get_bit_of_64(1) [of "63 - n" x y] by simp
  qed
  show "getAddress64 (ipv6_of_64 x y) 64 = y"
  proof (rule bit_word_eqI)
    fix n assume "n < LENGTH(64)"
    then show "bit (getAddress64 (ipv6_of_64 x y) 64) n = bit y n"
      using bit_getAddress64(2) [of "ipv6_of_64 x y" "63 - n"] ipv6_get_bit_of_64(2) [of "63 - n" x y] by simp
  qed
qed

lemma getAddress64_zero [simp]: "getAddress64 ipv6_zero 0 = 0"
proof (rule bit_word_eqI)
  fix n assume "n < LENGTH(64)"
  then show "bit (getAddress64 ipv6_zero 0) n = bit 0 n"
    using bit_getAddress64(1) [of ipv6_zero "63 - n"] ipv6_get_bit_zero [of "63 - n"] by simp
qed

lemma ipv6_of_getAddress64: "ipv6_wf a \<Longrightarrow> ipv6_of_64 (getAddress64 a 0) (getAddress64 a 64) = a"
proof (rule ipv6_eqI)
  fix i :: nat assume "ipv6_wf a" "i < 128"
  then show "ipv6_get_bit (ipv6_of_64 (getAddress64 a 0) (getAddress64 a 64)) i = ipv6_get_bit a i"
    by (elim ipv6_split_index) (simp_all add: ipv6_get_bit_of_64 bit_getAddress64)
qed simp_all

lemma ipv6_of_64_eq_iff:
  assumes "ipv6_wf a"
  shows "ipv6_of_64 x y = a \<longleftrightarrow> x = getAddress64 a 0 \<and> y = getAddress64 a 64"
  using ipv6_of_getAddress64 [OF assms] getAddress64_of_64 by metis

section \<open>Properties\<close>

text \<open>
  \<^verbatim>\<open>applyMask\<close> keeps exactly the network bits, for IPv4 and for IPv6 and for every mask up to the
  width of the address: the bit \<open>i\<close> of the result is the bit of the address when \<open>i < mask\<close> and 0
  otherwise.
\<close>

lemma applyMask_keeps_network_bits:
  assumes "m4 \<le> 32" and "ipv6_wf a6" and "m6 \<le> 128"
  shows "(\<forall>i < 32. ipv4_get_bit (ipv4_applyMask a4 m4) i = (i < unat m4 \<and> ipv4_get_bit a4 i)) \<and>
    ipv6_wf (ipv6_applyMask a6 m6) \<and>
    (\<forall>i < 128. ipv6_get_bit (ipv6_applyMask a6 m6) i = (i < unat m6 \<and> ipv6_get_bit a6 i))"
  using assms by (simp add: ipv4_get_bit_applyMask ipv6_get_bit_applyMask)

text \<open>
  \<^verbatim>\<open>subnetFor\<close> decides membership in the network: it answers true exactly when the address and
  the prefix have the same version and agree on the first \<^verbatim>\<open>mask\<close> bits.
\<close>

lemma subnetFor_correct:
  assumes "prefix_mask p4 \<le> 32" and "prefix_mask p6 \<le> 128" and "ipv6_wf (prefix_address p6)" and "ipv6_wf b6"
  shows "ip_subnetFor (ipv4_prefix p4) (ipv4_address b4) =
      (\<forall>i < unat (prefix_mask p4). ipv4_get_bit b4 i = ipv4_get_bit (prefix_address p4) i) \<and>
    ip_subnetFor (ipv6_prefix p6) (ipv6_address b6) =
      (\<forall>i < unat (prefix_mask p6). ipv6_get_bit b6 i = ipv6_get_bit (prefix_address p6) i) \<and>
    \<not> ip_subnetFor (ipv4_prefix p4) (ipv6_address b6) \<and>
    \<not> ip_subnetFor (ipv6_prefix p6) (ipv4_address b4)"
  using assms
  by (simp add: ip_subnetFor_def ipv4_subnetFor_def ipv6_subnetFor_def
      ipv4_applyMask_eq_iff ipv6_applyMask_eq_iff)

text \<open>
  C32: the conversions between the byte array of an IPv6 address and the 128-bit integer are inverse
  to each other.
\<close>

theorem ipv6_uint128_round_trip:
  "getAddress128 (ipv6_of_128 w) = w \<and> (ipv6_wf a \<longrightarrow> ipv6_of_128 (getAddress128 a) = a)"
proof
  show "getAddress128 (ipv6_of_128 w) = w"
  proof (rule bit_word_eqI)
    fix n assume "n < LENGTH(128)"
    then show "bit (getAddress128 (ipv6_of_128 w)) n = bit w n"
      using bit_getAddress128 [of "ipv6_of_128 w" "127 - n"] ipv6_get_bit_of_128 [of "127 - n" w] by simp
  qed
  show "ipv6_wf a \<longrightarrow> ipv6_of_128 (getAddress128 a) = a"
    by (auto intro!: ipv6_eqI simp: ipv6_get_bit_of_128 bit_getAddress128)
qed

theorem ipv6_uint128_round_trip_witness:
  "ipv6_wf (ipv6_of_64 1 2) \<and> ipv6_of_128 (getAddress128 (ipv6_of_64 1 2)) = ipv6_of_64 1 2"
  using ipv6_uint128_round_trip [of 0 "ipv6_of_64 1 2"] by simp

text \<open>
  Splitting an IPv4 network shorter than /32 yields two networks, one bit longer, that
  partition it: an address belongs to the network exactly when it belongs to one of the halves, and it
  never belongs to both.
\<close>

lemma splitNetwork_partitions:
  assumes "prefix_mask p < 32" and "ipv4_isValid p" and "ipv4_prefix_splitNetwork p = (l, r)"
  shows "ipv4_subnetFor p a = (ipv4_subnetFor l a \<or> ipv4_subnetFor r a) \<and>
    \<not> (ipv4_subnetFor l a \<and> ipv4_subnetFor r a) \<and>
    prefix_mask l = prefix_mask p + 1 \<and> prefix_mask r = prefix_mask p + 1"
proof -
  let ?n = "unat (prefix_mask p)" and ?x = "prefix_address p"
  have n: "?n < 32" using assms(1) by (simp add: word_less_nat_alt)
  then have n1: "unat (prefix_mask p + 1) = ?n + 1"
    by (simp add: unat_word_ariths)
  then have m1: "prefix_mask p + 1 \<le> 32" "prefix_mask p \<le> 32"
    using n by (simp_all add: word_le_nat_alt)
  have l: "l = \<lparr>prefix_address = ?x, prefix_mask = prefix_mask p + 1\<rparr>"
    and r: "r = \<lparr>prefix_address = ?x OR push_bit (32 - ?n - 1) 1, prefix_mask = prefix_mask p + 1\<rparr>"
    using assms(1,3) by (simp_all add: ipv4_prefix_splitNetwork_def not_le [symmetric])
  have "ipv4_applyMask ?x (prefix_mask p) = ?x" using assms(2) by (simp add: ipv4_isValid_def)
  with ipv4_get_bit_applyMask [OF m1(2) n, of ?x] have zero: "\<not> ipv4_get_bit ?x ?n" by simp
  have bits: "ipv4_get_bit (?x OR push_bit (32 - ?n - 1) 1) i = (if i = ?n then True else ipv4_get_bit ?x i)"
    if "i \<le> ?n" for i
    using that n by (auto simp: ipv4_get_bit_bit bit_or_iff bit_push_bit_iff bit_1_iff bit_exp_iff)
  have P: "ipv4_subnetFor p a = (\<forall>i < ?n. ipv4_get_bit a i = ipv4_get_bit ?x i)"
    using m1 by (simp add: ipv4_subnetFor_def ipv4_applyMask_eq_iff)
  have L: "ipv4_subnetFor l a = (ipv4_subnetFor p a \<and> \<not> ipv4_get_bit a ?n)"
    using m1 n1 zero unfolding P by (simp add: l ipv4_subnetFor_def ipv4_applyMask_eq_iff All_less_Suc conj_commute)
  have R: "ipv4_subnetFor r a = (ipv4_subnetFor p a \<and> ipv4_get_bit a ?n)"
    using m1 n1 bits unfolding P
    by (simp add: r ipv4_subnetFor_def ipv4_applyMask_eq_iff All_less_Suc conj_commute cong: conj_cong)
  have "prefix_mask l = prefix_mask p + 1" "prefix_mask r = prefix_mask p + 1"
    by (simp_all add: l r)
  then show ?thesis unfolding L R by blast
qed

text \<open>
  C40: \<^verbatim>\<open>ipv6_prefix_t::isValid\<close> is a correct test for masks of at least 64 bits, but for every shorter
  mask whose upper half is well-formed it shifts a 64-bit integer by 64 or more positions, which is
  undefined behaviour (\<open>None\<close>).
\<close>

theorem ipv6_isValid_shift:
  assumes "ipv6_wf (prefix_address p)" and "prefix_mask p \<le> 128"
  shows "ipv6_isValid p =
    (if 64 \<le> prefix_mask p
     then Some (ipv6_applyMask (prefix_address p) (prefix_mask p) = prefix_address p)
     else if getAddress64 (ipv6_applyMask (prefix_address p) (prefix_mask p)) 0 = getAddress64 (prefix_address p) 0
     then None else Some False)"
proof -
  let ?a = "prefix_address p" and ?m = "unat (prefix_mask p)"
  have m: "?m \<le> 128" "prefix_mask p = 0 \<longleftrightarrow> ?m = 0" "\<not> prefix_mask p > 128"
    "prefix_mask p > 64 \<longleftrightarrow> ?m > 64" "64 \<le> prefix_mask p \<longleftrightarrow> 64 \<le> ?m"
    using assms(2) by (simp_all add: word_le_nat_alt word_less_nat_alt unat_eq_zero)
  consider "?m < 64" | "?m = 64" | "64 < ?m" "?m < 128" | "?m = 128" using m(1) by linarith
  then show ?thesis
  proof cases
    case 1
    then show ?thesis
      using m by (auto simp: ipv6_isValid_def getAddressMask64_def ipv6_applyMask_def Let_def getAddress64_of_64)
  qed (use m assms(1) in \<open>auto simp: ipv6_isValid_def getAddressMask64_def ipv6_applyMask_def Let_def
        ipv6_of_64_eq_iff ones64\<close>)
qed

theorem ipv6_isValid_shift_witness:
  "let p = \<lparr>prefix_address = ipv6_of_64 0x20010db800000000 0, prefix_mask = 32\<rparr>
   in ipv6_wf (prefix_address p) \<and> prefix_mask p \<le> 128 \<and> ipv6_isValid p = None"
proof -
  have "getAddress64 (ipv6_applyMask (ipv6_of_64 0x20010db800000000 0) 32) 0 =
      getAddress64 (ipv6_of_64 0x20010db800000000 0) 0" by code_simp
  then show ?thesis
    using ipv6_isValid_shift [of "\<lparr>prefix_address = ipv6_of_64 0x20010db800000000 0, prefix_mask = 32\<rparr>"]
    unfolding Let_def by simp
qed

end
