(* ===== verification/Btree.thy ===== *)
theory Btree
  imports Address
begin

text \<open>
  The binary prefix tree \<^verbatim>\<open>common::btree\<close> of \<^verbatim>\<open>src/common/btree.h\<close>.  A \<^verbatim>\<open>node_t*\<close> is a value of type
  \<open>'v node\<close>, with \<^verbatim>\<open>nullptr\<close> as one of its constructors; \<^verbatim>\<open>nexts[0]\<close> and \<^verbatim>\<open>nexts[1]\<close> are the two subtrees.
  The key class is the parameter of the template: its \<^verbatim>\<open>get_bit\<close> and \<^verbatim>\<open>set_bit\<close> are arguments of the
  definitions, and the laws they obey are those of the locale \<open>bit_address\<close>.  A \<^verbatim>\<open>result\<close> or \<^verbatim>\<open>key\<close>
  passed by reference is threaded through, and a sequence of calls of a callback is the list of its
  arguments.
\<close>

section \<open>Nodes\<close>

datatype 'v node =
    is_null: nullptr
  | node_t (node_value: "'v option") (nexts0: "'v node") (nexts1: "'v node")

definition new_node :: "'v node" where
  "new_node = node_t None nullptr nullptr"

text \<open>
  The recursion of \<^verbatim>\<open>node_t::insert\<close> starts at bit 0 and ends at \<^verbatim>\<open>key_bits\<close>; it is the only one that
  does not follow existing nodes, so that its end is the test \<open>key_bits \<le> key_bits_current\<close>.
\<close>

function node_insert :: "('k \<Rightarrow> nat \<Rightarrow> bool) \<Rightarrow> 'k \<Rightarrow> nat \<Rightarrow> nat \<Rightarrow> 'v \<Rightarrow> 'v node \<Rightarrow> 'v node" where
  "node_insert get_bit key key_bits key_bits_current v nullptr = nullptr"
| "node_insert get_bit key key_bits key_bits_current v (node_t val next0 next1) =
     (if key_bits \<le> key_bits_current then node_t (Some v) next0 next1
      else if get_bit key key_bits_current
      then node_t val next0
             (node_insert get_bit key key_bits (key_bits_current + 1) v
                (if is_null next1 then new_node else next1))
      else node_t val
             (node_insert get_bit key key_bits (key_bits_current + 1) v
                (if is_null next0 then new_node else next0))
             next1)"
  by pat_completeness auto
termination
  by (relation "measure (\<lambda>(get_bit, key, key_bits, key_bits_current, v, n). key_bits - key_bits_current)") auto

fun node_is_empty :: "'v node \<Rightarrow> bool" where
  "node_is_empty (node_t None nullptr nullptr) = True"
| "node_is_empty _ = False"

definition delete_if_empty :: "'v node \<Rightarrow> 'v node" where
  "delete_if_empty n = (if node_is_empty n then nullptr else n)"

fun node_remove :: "('k \<Rightarrow> nat \<Rightarrow> bool) \<Rightarrow> 'k \<Rightarrow> nat \<Rightarrow> nat \<Rightarrow> 'v node \<Rightarrow> 'v node" where
  "node_remove get_bit key key_bits key_bits_current nullptr = nullptr"
| "node_remove get_bit key key_bits key_bits_current (node_t val next0 next1) =
     (if key_bits_current = key_bits then node_t None next0 next1
      else if get_bit key key_bits_current
      then if is_null next1 then node_t val next0 next1
           else node_t val next0 (delete_if_empty (node_remove get_bit key key_bits (key_bits_current + 1) next1))
      else if is_null next0 then node_t val next0 next1
           else node_t val (delete_if_empty (node_remove get_bit key key_bits (key_bits_current + 1) next0)) next1)"

fun node_get :: "('k \<Rightarrow> nat \<Rightarrow> bool) \<Rightarrow> 'k \<Rightarrow> nat \<Rightarrow> nat \<Rightarrow> 'v node \<Rightarrow> 'v option \<Rightarrow> 'v option" where
  "node_get get_bit key key_bits key_bits_current nullptr result = result"
| "node_get get_bit key key_bits key_bits_current (node_t val next0 next1) result =
     (if key_bits_current = key_bits then val
      else let next = (if get_bit key key_bits_current then next1 else next0)
           in if is_null next then result
              else node_get get_bit key key_bits (key_bits_current + 1) next result)"

fun node_get_all_top ::
  "('k \<Rightarrow> nat \<Rightarrow> bool \<Rightarrow> 'k) \<Rightarrow> 'k \<Rightarrow> nat \<Rightarrow> 'v node \<Rightarrow> ('k \<times> nat) list \<Rightarrow> 'k \<times> ('k \<times> nat) list" where
  "node_get_all_top set_b key key_bits_current nullptr result = (key, result)"
| "node_get_all_top set_b key key_bits_current (node_t val next0 next1) result =
     (if val \<noteq> None then (key, result @ [(key, key_bits_current)])
      else let (key, result) =
                 (if is_null next0 then (key, result)
                  else node_get_all_top set_b key (key_bits_current + 1) next0 result)
           in if is_null next1 then (key, result)
              else let key = set_b key key_bits_current True;
                       (key, result) = node_get_all_top set_b key (key_bits_current + 1) next1 result
                   in (set_b key key_bits_current False, result))"

fun node_lookup ::
  "('k \<Rightarrow> nat \<Rightarrow> bool) \<Rightarrow> 'k \<Rightarrow> nat \<Rightarrow> nat \<Rightarrow> 'v node \<Rightarrow> ('v \<times> nat) option \<Rightarrow> ('v \<times> nat) option" where
  "node_lookup get_bit key key_bits key_bits_current nullptr result = result"
| "node_lookup get_bit key key_bits key_bits_current (node_t val next0 next1) result =
     (let result = (case val of Some v \<Rightarrow> Some (v, key_bits_current) | None \<Rightarrow> result)
      in if key_bits_current = key_bits then result
         else let next = (if get_bit key key_bits_current then next1 else next0)
              in if is_null next then result
                 else node_lookup get_bit key key_bits (key_bits_current + 1) next result)"

fun node_lookup_all :: "('k \<Rightarrow> nat \<Rightarrow> bool) \<Rightarrow> 'k \<Rightarrow> nat \<Rightarrow> nat \<Rightarrow> 'v node \<Rightarrow> ('v \<times> nat) list" where
  "node_lookup_all get_bit key key_bits key_bits_current nullptr = []"
| "node_lookup_all get_bit key key_bits key_bits_current (node_t val next0 next1) =
     (case val of Some v \<Rightarrow> [(v, key_bits_current)] | None \<Rightarrow> []) @
     (if key_bits_current = key_bits then []
      else let next = (if get_bit key key_bits_current then next1 else next0)
           in if is_null next then []
              else node_lookup_all get_bit key key_bits (key_bits_current + 1) next)"

text \<open>\<open>callback_value key bits val alt\<close>: the callback on \<^verbatim>\<open>value\<close>, or else on \<^verbatim>\<open>value_prev\<close>.\<close>

definition callback_value :: "'k \<Rightarrow> nat \<Rightarrow> 'v option \<Rightarrow> 'v option \<Rightarrow> ('k \<times> nat \<times> 'v) list" where
  "callback_value key bits val alt =
     (case val of Some v \<Rightarrow> [(key, bits, v)]
      | None \<Rightarrow> (case alt of Some v \<Rightarrow> [(key, bits, v)] | None \<Rightarrow> []))"

text \<open>
  In \<^verbatim>\<open>node_t::lookup_deep\<close> the branches \<^verbatim>\<open>key_bits_current == key_bits\<close> and \<^verbatim>\<open>key_bits_current > key_bits\<close>
  differ only in the use of \<^verbatim>\<open>value_prev\<close>.
\<close>

fun node_lookup_deep ::
  "('k \<Rightarrow> nat \<Rightarrow> bool) \<Rightarrow> ('k \<Rightarrow> nat \<Rightarrow> bool \<Rightarrow> 'k) \<Rightarrow> 'k \<Rightarrow> nat \<Rightarrow> nat \<Rightarrow> 'v node \<Rightarrow> 'v option \<Rightarrow>
     'k \<times> ('k \<times> nat \<times> 'v) list" where
  "node_lookup_deep get_bit set_b key key_bits key_bits_current nullptr value_prev = (key, [])"
| "node_lookup_deep get_bit set_b key key_bits key_bits_current (node_t val next0 next1) value_prev =
     (if key_bits_current \<ge> key_bits
      then let here = callback_value key key_bits_current val
                        (if key_bits_current = key_bits then value_prev else None);
               (key, calls0) =
                 (if is_null next0 then (key, [])
                  else node_lookup_deep get_bit set_b key key_bits (key_bits_current + 1) next0 None);
               (key, calls1) =
                 (if is_null next1 then (key, [])
                  else let key = set_b key key_bits_current True;
                           (key, calls) = node_lookup_deep get_bit set_b key key_bits (key_bits_current + 1) next1 None
                       in (set_b key key_bits_current False, calls))
           in (key, here @ calls0 @ calls1)
      else let next = (if get_bit key key_bits_current then next1 else next0)
           in if is_null next then (key, callback_value key key_bits val value_prev)
              else node_lookup_deep get_bit set_b key key_bits (key_bits_current + 1) next
                     (if val \<noteq> None then val else value_prev))"

section \<open>The tree\<close>

text \<open>The state of a \<^verbatim>\<open>btree\<close> is its \<^verbatim>\<open>root\<close> pointer.\<close>

definition btree_insert :: "('k \<Rightarrow> nat \<Rightarrow> bool) \<Rightarrow> 'v node \<Rightarrow> 'k \<Rightarrow> nat \<Rightarrow> 'v \<Rightarrow> 'v node" where
  "btree_insert get_bit root key key_bits v =
     (let root = (if is_null root then new_node else root)
      in node_insert get_bit key key_bits 0 v root)"

definition btree_remove :: "('k \<Rightarrow> nat \<Rightarrow> bool) \<Rightarrow> 'v node \<Rightarrow> 'k \<Rightarrow> nat \<Rightarrow> 'v node" where
  "btree_remove get_bit root key key_bits =
     (if is_null root then root else node_remove get_bit key key_bits 0 root)"

definition btree_clear :: "'v node \<Rightarrow> 'v node" where
  "btree_clear root = (if is_null root then root else nullptr)"

definition btree_get :: "('k \<Rightarrow> nat \<Rightarrow> bool) \<Rightarrow> 'v node \<Rightarrow> 'k \<Rightarrow> nat \<Rightarrow> 'v option" where
  "btree_get get_bit root key key_bits =
     (if is_null root then None else node_get get_bit key key_bits 0 root None)"

definition btree_get_all_top :: "'k \<Rightarrow> ('k \<Rightarrow> nat \<Rightarrow> bool \<Rightarrow> 'k) \<Rightarrow> 'v node \<Rightarrow> ('k \<times> nat) list" where
  "btree_get_all_top zero set_b root =
     (if is_null root then [] else snd (node_get_all_top set_b zero 0 root []))"

definition btree_lookup :: "('k \<Rightarrow> nat \<Rightarrow> bool) \<Rightarrow> 'v node \<Rightarrow> 'k \<Rightarrow> nat \<Rightarrow> ('v \<times> nat) option" where
  "btree_lookup get_bit root key key_bits =
     (if is_null root then None else node_lookup get_bit key key_bits 0 root None)"

definition btree_lookup_all :: "('k \<Rightarrow> nat \<Rightarrow> bool) \<Rightarrow> 'v node \<Rightarrow> 'k \<Rightarrow> nat \<Rightarrow> ('v \<times> nat) list" where
  "btree_lookup_all get_bit root key key_bits =
     (if is_null root then [] else node_lookup_all get_bit key key_bits 0 root)"

definition btree_lookup_deep ::
  "('k \<Rightarrow> nat \<Rightarrow> bool) \<Rightarrow> ('k \<Rightarrow> nat \<Rightarrow> bool \<Rightarrow> 'k) \<Rightarrow> 'v node \<Rightarrow> 'k \<Rightarrow> nat \<Rightarrow> ('k \<times> nat \<times> 'v) list" where
  "btree_lookup_deep get_bit set_b root key key_bits =
     (if is_null root then [] else snd (node_lookup_deep get_bit set_b key key_bits 0 root None))"

section \<open>Nodes read along a path of bits\<close>

definition key_path :: "('k \<Rightarrow> nat \<Rightarrow> bool) \<Rightarrow> 'k \<Rightarrow> nat \<Rightarrow> nat \<Rightarrow> bool list" where
  "key_path get_bit key i j = map (get_bit key) [i..<j]"

fun path_get :: "bool list \<Rightarrow> 'v node \<Rightarrow> 'v option" where
  "path_get bs nullptr = None"
| "path_get [] (node_t val next0 next1) = val"
| "path_get (b # bs) (node_t val next0 next1) = path_get bs (if b then next1 else next0)"

lemma key_path_refl [simp]: "key_path gb key i i = []"
  by (simp add: key_path_def)

lemma key_path_Cons: "i < j \<Longrightarrow> key_path gb key i j = gb key i # key_path gb key (Suc i) j"
  by (simp add: key_path_def upt_conv_Cons)

lemma key_path_eq_iff:
  "key_path gb k 0 n = key_path gb k' 0 n' \<longleftrightarrow> n = n' \<and> (\<forall>i < n. gb k i = gb k' i)"
proof
  assume e: "key_path gb k 0 n = key_path gb k' 0 n'"
  then have "length (key_path gb k 0 n) = length (key_path gb k' 0 n')" by simp
  then have "n = n'" by (simp add: key_path_def)
  moreover from this e have "\<forall>i < n. gb k i = gb k' i" by (auto simp: key_path_def)
  ultimately show "n = n' \<and> (\<forall>i < n. gb k i = gb k' i)" by simp
qed (simp add: key_path_def)

lemma path_get_new_node [simp]: "path_get bs new_node = None"
  by (cases bs) (simp_all add: new_node_def)

lemma path_get_leaf [simp]: "path_get bs (node_t None nullptr nullptr) = None"
  by (cases bs) simp_all

lemma path_get_null_or_new: "path_get bs (if is_null n then new_node else n) = path_get bs n"
  by (cases n) simp_all

lemma is_null_new_node [simp]: "\<not> is_null new_node"
  by (simp add: new_node_def)

lemma is_null_iff: "is_null n \<longleftrightarrow> n = nullptr"
  by (cases n) simp_all

lemma node_get_path:
  "cur \<le> key_bits \<Longrightarrow> node_get gb key key_bits cur n None = path_get (key_path gb key cur key_bits) n"
proof (induction n arbitrary: cur)
  case (node_t val a b)
  then show ?case
    by (cases "cur = key_bits"; cases "gb key cur") (simp_all add: key_path_Cons Let_def is_null_iff)
qed simp

lemma path_get_node_insert:
  "\<not> is_null n \<Longrightarrow> cur \<le> key_bits \<Longrightarrow>
   path_get bs (node_insert gb key key_bits cur v n) =
     (if bs = key_path gb key cur key_bits then Some v else path_get bs n)"
proof (induction gb key key_bits cur v n arbitrary: bs rule: node_insert.induct)
  case (2 gb key key_bits cur v val next0 next1)
  show ?case
  proof (cases "key_bits \<le> cur")
    case True
    with 2 show ?thesis by (cases bs) auto
  next
    case False
    then show ?thesis
      using 2 by (cases bs; cases "gb key cur") (simp_all add: key_path_Cons path_get_null_or_new)
  qed
qed simp

lemma path_get_delete_if_empty [simp]: "path_get bs (delete_if_empty n) = path_get bs n"
  by (cases n rule: node_is_empty.cases; cases bs) (simp_all add: delete_if_empty_def)

lemma path_get_node_remove:
  "cur \<le> key_bits \<Longrightarrow>
   path_get bs (node_remove gb key key_bits cur n) =
     (if bs = key_path gb key cur key_bits then None else path_get bs n)"
proof (induction n arbitrary: cur bs)
  case (node_t val a b)
  then show ?case
    by (cases "cur = key_bits"; cases bs) (auto simp: key_path_Cons is_null_iff)
qed simp

section \<open>The shape invariant\<close>

text \<open>
  Below the root every node has a value or a child, and no path is longer than the addresses.
\<close>

fun no_empty_nodes :: "'v node \<Rightarrow> bool" where
  "no_empty_nodes nullptr = True"
| "no_empty_nodes (node_t val next0 next1) =
     (no_empty_nodes next0 \<and> no_empty_nodes next1 \<and> \<not> node_is_empty next0 \<and> \<not> node_is_empty next1)"

fun node_height :: "'v node \<Rightarrow> nat" where
  "node_height nullptr = 0"
| "node_height (node_t val next0 next1) = Suc (max (node_height next0) (node_height next1))"

definition btree_inv :: "nat \<Rightarrow> 'v node \<Rightarrow> bool" where
  "btree_inv width root = (no_empty_nodes root \<and> node_height root \<le> Suc width)"

lemma node_is_empty_iff: "node_is_empty n \<longleftrightarrow> n = node_t None nullptr nullptr"
  by (cases n rule: node_is_empty.cases) simp_all

lemma node_insert_not_null: "\<not> is_null n \<Longrightarrow> \<not> is_null (node_insert gb key key_bits cur v n)"
  by (cases n) simp_all

lemma node_insert_not_empty: "\<not> is_null n \<Longrightarrow> \<not> node_is_empty (node_insert gb key key_bits cur v n)"
proof (cases n)
  case (node_t val a b)
  have "\<not> is_null (node_insert gb key key_bits (cur + 1) v (if is_null m then new_node else m))" for m
    by (rule node_insert_not_null) simp
  then have "node_insert gb key key_bits (cur + 1) v (if is_null m then new_node else m) \<noteq> nullptr" for m
    unfolding is_null_iff [symmetric] .
  then show ?thesis
    unfolding node_t node_insert.simps by (cases "key_bits \<le> cur"; cases "gb key cur") (simp_all add: node_is_empty_iff)
qed simp

lemma no_empty_node_insert:
  "\<not> is_null n \<Longrightarrow> no_empty_nodes n \<Longrightarrow> no_empty_nodes (node_insert gb key key_bits cur v n)"
proof (induction gb key key_bits cur v n rule: node_insert.induct)
  case (2 gb key key_bits cur v val next0 next1)
  have "no_empty_nodes new_node" by (simp add: new_node_def)
  with 2 show ?case by (cases "gb key cur") (auto simp: node_insert_not_empty split: if_split_asm)
qed simp

lemma no_empty_delete_if_empty:
  "no_empty_nodes n \<Longrightarrow> no_empty_nodes (delete_if_empty n) \<and> \<not> node_is_empty (delete_if_empty n)"
  by (simp add: delete_if_empty_def)

lemma no_empty_node_remove: "no_empty_nodes n \<Longrightarrow> no_empty_nodes (node_remove gb key key_bits cur n)"
  by (induction n arbitrary: cur) (auto simp: no_empty_delete_if_empty)

lemma height_node_insert:
  "cur \<le> key_bits \<Longrightarrow> key_bits \<le> width \<Longrightarrow> node_height n \<le> Suc width - cur \<Longrightarrow>
   node_height (node_insert gb key key_bits cur v n) \<le> Suc width - cur"
proof (induction gb key key_bits cur v n rule: node_insert.induct)
  case (2 gb key key_bits cur v val next0 next1)
  show ?case
  proof (cases "key_bits \<le> cur")
    case False
    then have s: "Suc width - cur = Suc (Suc width - (cur + 1))" using 2 by simp
    have "node_height (if is_null m then new_node else m) \<le> Suc width - (cur + 1)"
      if "node_height m \<le> Suc width - (cur + 1)" for m :: "'a node"
      using that False 2(4) by (auto simp: new_node_def)
    with 2 False show ?thesis unfolding s by auto
  qed (use 2 in simp)
qed simp

lemma height_delete_if_empty: "node_height (delete_if_empty n) \<le> node_height n"
  by (simp add: delete_if_empty_def)

lemma height_node_remove: "node_height (node_remove gb key key_bits cur n) \<le> node_height n"
proof (induction n arbitrary: cur)
  case (node_t val a b)
  have "node_height (delete_if_empty (node_remove gb key key_bits (cur + 1) a)) \<le> node_height a"
    "node_height (delete_if_empty (node_remove gb key key_bits (cur + 1) b)) \<le> node_height b"
    using node_t order_trans [OF height_delete_if_empty] by blast+
  then show ?case by (auto simp: le_max_iff_disj)
qed simp

lemma btree_inv_insert:
  "btree_inv width root \<Longrightarrow> key_bits \<le> width \<Longrightarrow> btree_inv width (btree_insert gb root key key_bits v)"
  using height_node_insert [of 0 key_bits width "if is_null root then new_node else root" gb key v]
    no_empty_node_insert [of "if is_null root then new_node else root" gb key key_bits 0 v]
  by (auto simp: btree_inv_def btree_insert_def new_node_def)

lemma btree_inv_remove: "btree_inv width root \<Longrightarrow> btree_inv width (btree_remove gb root key key_bits)"
  using height_node_remove [of gb key key_bits 0 root] no_empty_node_remove [of root gb key key_bits 0]
  by (auto simp: btree_inv_def btree_remove_def)

section \<open>Point access\<close>

lemma btree_get_path: "btree_get gb root key key_bits = path_get (key_path gb key 0 key_bits) root"
  by (simp add: btree_get_def node_get_path is_null_iff)

lemma path_get_btree_insert:
  "path_get bs (btree_insert gb root key key_bits v) =
     (if bs = key_path gb key 0 key_bits then Some v else path_get bs root)"
  unfolding btree_insert_def Let_def
  by (subst path_get_node_insert) (simp_all add: path_get_null_or_new)

lemma path_get_btree_remove:
  "path_get bs (btree_remove gb root key key_bits) =
     (if bs = key_path gb key 0 key_bits then None else path_get bs root)"
  by (simp add: btree_remove_def path_get_node_remove is_null_iff)

lemma path_get_btree_clear [simp]: "path_get bs (btree_clear root) = None"
  by (simp add: btree_clear_def is_null_iff)

section \<open>Longest prefix match\<close>

lemma node_get_step:
  "cur < m \<Longrightarrow> node_get gb key m cur (node_t val a b) None =
     node_get gb key m (Suc cur) (if gb key cur then b else a) None"
  by (cases "gb key cur") (simp_all add: Let_def is_null_iff)

lemma fold_ignore [simp]: "fold (\<lambda>m r. r) ms r = r"
  by (induction ms) auto

lemma fold_some_cong: "(\<And>m. m \<in> set ms \<Longrightarrow> f m = g m) \<Longrightarrow>
   fold (\<lambda>m r. case f m of Some v \<Rightarrow> Some (v, m) | None \<Rightarrow> r) ms r =
   fold (\<lambda>m r. case g m of Some v \<Rightarrow> Some (v, m) | None \<Rightarrow> r) ms r"
  by (induction ms arbitrary: r) auto

lemma map_filter_some_cong: "(\<And>m. m \<in> set ms \<Longrightarrow> f m = g m) \<Longrightarrow> List.map_filter f ms = List.map_filter g ms"
  by (induction ms) (auto simp: map_filter_simps split: option.splits)

lemma node_lookup_fold:
  "cur \<le> key_bits \<Longrightarrow> node_lookup gb key key_bits cur n r =
     fold (\<lambda>m r. case node_get gb key m cur n None of Some v \<Rightarrow> Some (v, m) | None \<Rightarrow> r) [cur..<Suc key_bits] r"
proof (induction n arbitrary: cur r)
  case nullptr
  then show ?case by simp
next
  case (node_t val a b)
  show ?case
  proof (cases "cur = key_bits")
    case False
    let ?next = "if gb key cur then b else a"
    let ?here = "case val of Some v \<Rightarrow> Some (v, cur) | None \<Rightarrow> r"
    have "node_lookup gb key key_bits cur (node_t val a b) r = node_lookup gb key key_bits (Suc cur) ?next ?here"
      using False by (cases "gb key cur") (simp_all add: Let_def is_null_iff)
    also have "\<dots> = fold (\<lambda>m r. case node_get gb key m (Suc cur) ?next None of Some v \<Rightarrow> Some (v, m) | None \<Rightarrow> r)
        [Suc cur..<Suc key_bits] ?here"
      using node_t False by (cases "gb key cur") simp_all
    also have "\<dots> = fold (\<lambda>m r. case node_get gb key m cur (node_t val a b) None of Some v \<Rightarrow> Some (v, m) | None \<Rightarrow> r)
        [Suc cur..<Suc key_bits] ?here"
      by (rule fold_some_cong [symmetric], rule node_get_step) auto
    also have "\<dots> = fold (\<lambda>m r. case node_get gb key m cur (node_t val a b) None of Some v \<Rightarrow> Some (v, m) | None \<Rightarrow> r)
        (cur # [Suc cur..<Suc key_bits]) r"
      by (simp only: fold_simps node_get.simps if_True simp_thms)
    also have "cur # [Suc cur..<Suc key_bits] = [cur..<Suc key_bits]"
      using node_t.prems by (simp add: upt_conv_Cons)
    finally show ?thesis .
  qed simp
qed

lemma fold_last_Some:
  "fold (\<lambda>m r. case f m of Some v \<Rightarrow> Some (v, m) | None \<Rightarrow> r) [0..<Suc n] None = Some (v, m) \<longleftrightarrow>
     m \<le> n \<and> f m = Some v \<and> (\<forall>m'. m < m' \<and> m' \<le> n \<longrightarrow> f m' = None)"
proof (induction n)
  case 0
  then show ?case by (auto split: option.splits)
next
  case (Suc n)
  have "fold (\<lambda>m r. case f m of Some v \<Rightarrow> Some (v, m) | None \<Rightarrow> r) [0..<Suc (Suc n)] None =
      (case f (Suc n) of Some v \<Rightarrow> Some (v, Suc n)
       | None \<Rightarrow> fold (\<lambda>m r. case f m of Some v \<Rightarrow> Some (v, m) | None \<Rightarrow> r) [0..<Suc n] None)"
    by (subst upt_Suc_append) (simp_all del: upt_Suc)
  then show ?case
    using Suc.IH by (auto simp: le_Suc_eq simp del: upt_Suc split: option.splits)
qed

lemma fold_last_None:
  "fold (\<lambda>m r. case f m of Some v \<Rightarrow> Some (v, m) | None \<Rightarrow> r) [0..<Suc n] None = None \<longleftrightarrow> (\<forall>m \<le> n. f m = None)"
proof (induction n)
  case (Suc n)
  have "fold (\<lambda>m r. case f m of Some v \<Rightarrow> Some (v, m) | None \<Rightarrow> r) [0..<Suc (Suc n)] None =
      (case f (Suc n) of Some v \<Rightarrow> Some (v, Suc n)
       | None \<Rightarrow> fold (\<lambda>m r. case f m of Some v \<Rightarrow> Some (v, m) | None \<Rightarrow> r) [0..<Suc n] None)"
    by (subst upt_Suc_append) (simp_all del: upt_Suc)
  then show ?case
    using Suc.IH by (auto simp: le_Suc_eq simp del: upt_Suc split: option.splits)
qed (auto split: option.splits)

lemma btree_lookup_fold:
  "btree_lookup gb root key n =
     fold (\<lambda>m r. case btree_get gb root key m of Some v \<Rightarrow> Some (v, m) | None \<Rightarrow> r) [0..<Suc n] None"
proof (cases root)
  case nullptr
  then show ?thesis by (simp add: btree_lookup_def btree_get_def del: upt_Suc)
next
  case (node_t val a b)
  then show ?thesis by (simp only: btree_lookup_def btree_get_def node.disc if_False node_lookup_fold le0)
qed

lemma node_lookup_all_eq:
  "cur \<le> key_bits \<Longrightarrow> node_lookup_all gb key key_bits cur n =
     List.map_filter (\<lambda>m. map_option (\<lambda>v. (v, m)) (node_get gb key m cur n None)) [cur..<Suc key_bits]"
proof (induction n arbitrary: cur)
  case nullptr
  then show ?case by (simp add: map_filter_def)
next
  case (node_t val a b)
  show ?case
  proof (cases "cur = key_bits")
    case False
    let ?next = "if gb key cur then b else a"
    let ?here = "case val of Some v \<Rightarrow> [(v, cur)] | None \<Rightarrow> []"
    let ?f = "\<lambda>n cur m. map_option (\<lambda>v. (v, m)) (node_get gb key m cur n None)"
    have "node_lookup_all gb key key_bits cur (node_t val a b) =
        ?here @ node_lookup_all gb key key_bits (Suc cur) ?next"
      using False by (cases "gb key cur") (simp_all add: Let_def is_null_iff)
    also have "node_lookup_all gb key key_bits (Suc cur) ?next =
        List.map_filter (?f ?next (Suc cur)) [Suc cur..<Suc key_bits]"
      using node_t False by (cases "gb key cur") simp_all
    also have "\<dots> = List.map_filter (?f (node_t val a b) cur) [Suc cur..<Suc key_bits]"
      by (rule map_filter_some_cong, subst node_get_step) auto
    also have "?here @ \<dots> = List.map_filter (?f (node_t val a b) cur) (cur # [Suc cur..<Suc key_bits])"
      by (cases val) (simp_all only: map_filter_simps node_get.simps if_True simp_thms option.simps append.simps)
    also have "cur # [Suc cur..<Suc key_bits] = [cur..<Suc key_bits]"
      using node_t.prems by (simp add: upt_conv_Cons)
    finally show ?thesis .
  qed (auto simp: map_filter_simps split: option.splits)
qed

lemma btree_lookup_all_eq:
  "btree_lookup_all gb root key n =
     List.map_filter (\<lambda>m. map_option (\<lambda>v. (v, m)) (btree_get gb root key m)) [0..<Suc n]"
proof (cases root)
  case nullptr
  then show ?thesis by (simp add: btree_lookup_all_def btree_get_def map_filter_def)
next
  case (node_t val a b)
  then show ?thesis by (simp only: btree_lookup_all_def btree_get_def node.disc if_False node_lookup_all_eq le0)
qed

section \<open>Enumeration\<close>

context bit_address
begin

definition agree :: "'k \<Rightarrow> 'k \<Rightarrow> nat \<Rightarrow> bool" where
  "agree k k' n = (\<forall>i < n. get_bit k i = get_bit k' i)"

definition zero_from :: "'k \<Rightarrow> nat \<Rightarrow> bool" where
  "zero_from k m = (\<forall>i. m \<le> i \<and> i < width \<longrightarrow> \<not> get_bit k i)"

text \<open>
  \<open>entry key cur n k m v\<close>: the subtree \<open>n\<close>, reached after \<open>cur\<close> bits of \<open>key\<close>, holds the value \<open>v\<close> for
  the canonical prefix \<open>k/m\<close>.
\<close>

definition entry :: "'k \<Rightarrow> nat \<Rightarrow> 'v node \<Rightarrow> 'k \<Rightarrow> nat \<Rightarrow> 'v \<Rightarrow> bool" where
  "entry key cur n k m v =
     (valid k \<and> cur \<le> m \<and> m \<le> width \<and> agree k key cur \<and> zero_from k m \<and>
      path_get (key_path get_bit k cur m) n = Some v)"

lemma entry_null [simp]: "\<not> entry key cur nullptr k m v"
  by (simp add: entry_def)

lemma agree_zero_eq:
  assumes "valid k" and "valid key" and "agree k key cur" and "zero_from k cur" and "zero_from key cur"
  shows "k = key"
proof (rule bits_eqI)
  fix i assume "i < width"
  then show "get_bit k i = get_bit key i"
    using assms by (cases "i < cur") (auto simp: agree_def zero_from_def)
qed (use assms in auto)

lemma entry_here:
  assumes "valid key" and "zero_from key cur" and "cur \<le> width"
  shows "entry key cur (node_t val a b) k cur v \<longleftrightarrow> k = key \<and> val = Some v"
  using assms agree_zero_eq [of k key cur] by (auto simp: entry_def agree_def)

lemma agree_Suc: "agree k key (Suc n) \<longleftrightarrow> agree k key n \<and> get_bit k n = get_bit key n"
  by (auto simp: agree_def less_Suc_eq)

lemma agree_set_bit: "valid key \<Longrightarrow> cur < width \<Longrightarrow> agree k (set_bit key cur b) cur \<longleftrightarrow> agree k key cur"
  by (auto simp: agree_def get_set_bit)

lemma entry_below:
  assumes "valid key" and "zero_from key cur" and "cur < width" and "m \<noteq> cur"
  shows "entry key cur (node_t val a b) k m v \<longleftrightarrow>
    entry key (Suc cur) a k m v \<or> entry (set_bit key cur True) (Suc cur) b k m v"
proof (cases "cur < m")
  case True
  moreover have "\<not> get_bit key cur" using assms by (simp add: zero_from_def)
  moreover have "get_bit (set_bit key cur True) cur" using assms by (simp add: get_set_bit)
  ultimately show ?thesis
    using assms by (cases "get_bit k cur") (auto simp: entry_def key_path_Cons agree_Suc agree_set_bit)
qed (use assms in \<open>auto simp: entry_def\<close>)

lemma zero_from_Suc: "zero_from key cur \<Longrightarrow> zero_from key (Suc cur)"
  by (simp add: zero_from_def)

lemma zero_from_set_bit: "valid key \<Longrightarrow> cur < width \<Longrightarrow> zero_from key cur \<Longrightarrow> zero_from (set_bit key cur b) (Suc cur)"
  by (auto simp: zero_from_def get_set_bit)

lemma restore: "valid key \<Longrightarrow> cur < width \<Longrightarrow> zero_from key cur \<Longrightarrow> set_bit (set_bit key cur True) cur False = key"
  by (rule set_bit_restore) (simp_all add: zero_from_def)

text \<open>
  From the prefix downwards \<^verbatim>\<open>lookup_deep\<close> reports the value at the node itself and then every entry
  of the two subtrees, and it restores the key.
\<close>

lemma lookup_deep_from:
  assumes "valid key" and "zero_from key cur" and "cur \<le> width" and "node_height n \<le> Suc width - cur"
    and "key_bits \<le> cur"
  shows "\<exists>xs. node_lookup_deep get_bit set_bit key key_bits cur n value_prev =
      (key, (if is_null n then [] else
         callback_value key cur (node_value n) (if cur = key_bits then value_prev else None)) @ xs) \<and>
    (\<forall>k m v. (k, m, v) \<in> set xs \<longleftrightarrow> m \<noteq> cur \<and> entry key cur n k m v)"
  using assms
proof (induction n arbitrary: key cur value_prev)
  case nullptr
  then show ?case by simp
next
  case (node_t val a b)
  show ?case
  proof (cases "cur < width")
    case False
    then have "a = nullptr" "b = nullptr" using node_t.prems by (auto elim: node_height.elims)
    moreover have "entry key cur (node_t val a b) k m v \<Longrightarrow> m = cur" for k m v
      using False by (simp add: entry_def)
    ultimately show ?thesis using node_t.prems(5) by auto
  next
    case True
    define key1 where "key1 = set_bit key cur True"
    have h: "node_height a \<le> Suc width - Suc cur" "node_height b \<le> Suc width - Suc cur"
      using node_t.prems by auto
    have all: "(k, m, v) \<in> set ((if is_null c then [] else callback_value key' (Suc cur) (node_value c) None) @ xs) \<longleftrightarrow>
        entry key' (Suc cur) c k m v"
      if "valid key'" "zero_from key' (Suc cur)"
        "\<forall>k m v. (k, m, v) \<in> set xs \<longleftrightarrow> m \<noteq> Suc cur \<and> entry key' (Suc cur) c k m v" for c :: "'a node" and key' xs k m v
      using that True entry_here [of key' "Suc cur"]
      by (cases c; cases "m = Suc cur") (auto simp: callback_value_def entry_here split: option.splits)
    have k0: "valid key" "zero_from key (Suc cur)" using node_t.prems zero_from_Suc by auto
    have k1: "valid key1" "zero_from key1 (Suc cur)" "set_bit key1 cur False = key"
      using True node_t.prems by (auto simp: key1_def valid_set_bit zero_from_set_bit restore)
    have lt: "Suc cur \<le> width" "key_bits \<le> Suc cur" "Suc cur \<noteq> key_bits" using True node_t.prems(5) by auto
    from node_t.IH(1) [OF k0 lt(1) h(1) lt(2), of None, unfolded if_not_P [OF lt(3)]] obtain ys0
      where y0: "node_lookup_deep get_bit set_bit key key_bits (Suc cur) a None =
          (key, (if is_null a then [] else callback_value key (Suc cur) (node_value a) None) @ ys0)"
        "\<forall>k m v. (k, m, v) \<in> set ys0 \<longleftrightarrow> m \<noteq> Suc cur \<and> entry key (Suc cur) a k m v"
      by blast
    obtain xs0 where a: "node_lookup_deep get_bit set_bit key key_bits (Suc cur) a None = (key, xs0)"
        "\<And>k m v. (k, m, v) \<in> set xs0 \<longleftrightarrow> entry key (Suc cur) a k m v"
      by (rule that [OF y0(1) all [OF k0 y0(2)]])
    from node_t.IH(2) [OF k1(1,2) lt(1) h(2) lt(2), of None, unfolded if_not_P [OF lt(3)]] obtain ys1
      where y1: "node_lookup_deep get_bit set_bit key1 key_bits (Suc cur) b None =
          (key1, (if is_null b then [] else callback_value key1 (Suc cur) (node_value b) None) @ ys1)"
        "\<forall>k m v. (k, m, v) \<in> set ys1 \<longleftrightarrow> m \<noteq> Suc cur \<and> entry key1 (Suc cur) b k m v"
      by blast
    obtain xs1 where b: "node_lookup_deep get_bit set_bit key1 key_bits (Suc cur) b None = (key1, xs1)"
        "\<And>k m v. (k, m, v) \<in> set xs1 \<longleftrightarrow> entry key1 (Suc cur) b k m v"
      by (rule that [OF y1(1) all [OF k1(1,2) y1(2)]])
    have "node_lookup_deep get_bit set_bit key key_bits cur (node_t val a b) value_prev =
        (key, callback_value key cur val (if cur = key_bits then value_prev else None) @ xs0 @ xs1)"
      using a(1) b(1) k1(3) node_t.prems(5) by (auto simp: key1_def [symmetric] Let_def is_null_iff)
    moreover have "m \<noteq> cur \<and> entry key cur (node_t val a b) k m v \<longleftrightarrow>
        entry key (Suc cur) a k m v \<or> entry key1 (Suc cur) b k m v" for k m v
      using entry_below [of key cur m val a b k v] True node_t.prems
      by (cases "m = cur") (auto simp: key1_def entry_def [of _ "Suc cur"])
    ultimately show ?thesis using a(2) b(2) by (intro exI [of _ "xs0 @ xs1"]) (simp del: node_lookup_deep.simps)
  qed
qed

lemma lookup_deep_node:
  assumes "valid key" and "zero_from key key_bits" and "cur \<le> key_bits" and "key_bits \<le> width"
    and "node_height n \<le> Suc width - cur" and "\<not> is_null n"
  shows "\<exists>xs. node_lookup_deep get_bit set_bit key key_bits cur n (map_option fst r) = (key, xs) \<and>
    (\<forall>k m v. (k, m, v) \<in> set xs \<longleftrightarrow>
       (k = key \<and> m = key_bits \<and> map_option fst (node_lookup get_bit key key_bits cur n r) = Some v) \<or>
       (key_bits < m \<and> agree k key key_bits \<and> entry key cur n k m v))"
  using assms
proof (induction n arbitrary: cur r)
  case (node_t val a b)
  show ?case
  proof (cases "cur = key_bits")
    case True
    obtain xs where xs: "node_lookup_deep get_bit set_bit key key_bits cur (node_t val a b) (map_option fst r) =
        (key, callback_value key cur val (map_option fst r) @ xs)"
      "\<And>k m v. (k, m, v) \<in> set xs \<longleftrightarrow> m \<noteq> cur \<and> entry key cur (node_t val a b) k m v"
      using lookup_deep_from [of key cur "node_t val a b" key_bits "map_option fst r"] node_t.prems True by auto
    have "(k, m, v) \<in> set (callback_value key cur val (map_option fst r)) \<longleftrightarrow>
        k = key \<and> m = key_bits \<and> map_option fst (node_lookup get_bit key key_bits cur (node_t val a b) r) = Some v" for k m v
      using True by (cases val) (auto simp: callback_value_def split: option.splits)
    moreover have "m \<noteq> cur \<and> entry key cur (node_t val a b) k m v \<longleftrightarrow>
        key_bits < m \<and> agree k key key_bits \<and> entry key cur (node_t val a b) k m v" for k m v
      using True by (auto simp: entry_def)
    ultimately show ?thesis
      using xs by (intro exI conjI) (auto simp del: node_lookup_deep.simps node_lookup.simps)
  next
    case False
    let ?next = "if get_bit key cur then b else a"
    let ?r = "case val of Some v \<Rightarrow> Some (v, cur) | None \<Rightarrow> r"
    have e: "agree k key key_bits \<and> entry key cur (node_t val a b) k m v \<longleftrightarrow>
        agree k key key_bits \<and> entry key (Suc cur) ?next k m v" if "key_bits < m" for k m v
      using that False node_t.prems(3)
      by (auto simp: entry_def key_path_Cons agree_def)
    have prev: "(if val \<noteq> None then val else map_option fst r) = map_option fst ?r"
      by (cases val) auto
    show ?thesis
    proof (cases "is_null ?next")
      case True
      then have "node_lookup_deep get_bit set_bit key key_bits cur (node_t val a b) (map_option fst r) =
          (key, callback_value key key_bits val (map_option fst r))"
        "node_lookup get_bit key key_bits cur (node_t val a b) r = ?r"
        using False node_t.prems(3) by (auto simp: Let_def)
      moreover have "?next = nullptr" using True by (simp only: is_null_iff)
      ultimately show ?thesis
        using e by (auto simp: callback_value_def simp del: node_lookup_deep.simps node_lookup.simps split: option.splits)
    next
      case nnull: False
      have "node_lookup_deep get_bit set_bit key key_bits cur (node_t val a b) (map_option fst r) =
          node_lookup_deep get_bit set_bit key key_bits (Suc cur) ?next (map_option fst ?r)"
        "node_lookup get_bit key key_bits cur (node_t val a b) r =
          node_lookup get_bit key key_bits (Suc cur) ?next ?r"
        using False nnull node_t.prems(3) prev by (auto simp: Let_def)
      moreover have "\<exists>xs. node_lookup_deep get_bit set_bit key key_bits (Suc cur) ?next (map_option fst ?r) = (key, xs) \<and>
          (\<forall>k m v. (k, m, v) \<in> set xs \<longleftrightarrow>
             (k = key \<and> m = key_bits \<and> map_option fst (node_lookup get_bit key key_bits (Suc cur) ?next ?r) = Some v) \<or>
             (key_bits < m \<and> agree k key key_bits \<and> entry key (Suc cur) ?next k m v))"
        using node_t.IH [of "Suc cur" ?r] node_t.prems False nnull by (cases "get_bit key cur") auto
      ultimately show ?thesis using e by (simp only: conj_assoc [symmetric] cong: conj_cong)
    qed
  qed
qed simp

text \<open>\<^verbatim>\<open>get_all_top\<close> reports the entries that no shorter entry covers.\<close>

definition top_entry :: "'k \<Rightarrow> nat \<Rightarrow> 'v node \<Rightarrow> 'k \<Rightarrow> nat \<Rightarrow> bool" where
  "top_entry key cur n k m =
     ((\<exists>v. entry key cur n k m v) \<and>
      (\<forall>m'. cur \<le> m' \<and> m' < m \<longrightarrow> path_get (key_path get_bit k cur m') n = None))"

lemma top_entry_null [simp]: "\<not> top_entry key cur nullptr k m"
  by (simp add: top_entry_def)

lemma top_entry_here:
  assumes "valid key" and "zero_from key cur" and "cur \<le> width"
  shows "top_entry key cur (node_t (Some v) a b) k m \<longleftrightarrow> k = key \<and> m = cur"
proof (cases "m = cur")
  case True
  then show ?thesis by (auto simp: top_entry_def entry_here [OF assms])
next
  case False
  have "path_get (key_path get_bit k cur cur) (node_t (Some v) a b) = Some v" by simp
  then show ?thesis using False by (force simp: top_entry_def entry_def)
qed

lemma top_entry_below:
  assumes "valid key" and "zero_from key cur" and "cur < width"
  shows "top_entry key cur (node_t None a b) k m \<longleftrightarrow>
    top_entry key (Suc cur) a k m \<or> top_entry (set_bit key cur True) (Suc cur) b k m"
proof (cases "cur < m")
  case False
  then show ?thesis by (auto simp: top_entry_def entry_def)
next
  case True
  let ?c = "if get_bit k cur then b else a"
  have "(\<forall>m'. cur \<le> m' \<and> m' < m \<longrightarrow> path_get (key_path get_bit k cur m') (node_t None a b) = None) \<longleftrightarrow>
      (\<forall>m'. Suc cur \<le> m' \<and> m' < m \<longrightarrow> path_get (key_path get_bit k (Suc cur) m') ?c = None)"
    (is "(\<forall>m'. ?P m') = (\<forall>m'. ?Q m')")
  proof (rule iff_allI)
    fix m'
    consider "m' < cur" | "m' = cur" | "cur < m'" by linarith
    then show "?P m' = ?Q m'"
    proof cases
      case 3
      then have "path_get (key_path get_bit k cur m') (node_t None a b) = path_get (key_path get_bit k (Suc cur) m') ?c"
        by (simp only: key_path_Cons path_get.simps)
      with 3 show ?thesis by (simp add: Suc_le_eq less_imp_le)
    qed simp_all
  qed
  moreover have "(\<exists>v. entry key (Suc cur) a k m v) \<Longrightarrow> \<not> get_bit k cur"
    "(\<exists>v. entry (set_bit key cur True) (Suc cur) b k m v) \<Longrightarrow> get_bit k cur"
    using assms by (auto simp: entry_def agree_Suc zero_from_def get_set_bit)
  ultimately show ?thesis
    using entry_below [OF assms, of m None a b k] True by (auto simp: top_entry_def)
qed

lemma get_all_top_node:
  assumes "valid key" and "zero_from key cur" and "cur \<le> width" and "node_height n \<le> Suc width - cur"
  shows "\<exists>xs. node_get_all_top set_bit key cur n result = (key, result @ xs) \<and>
    (\<forall>k m. (k, m) \<in> set xs \<longleftrightarrow> top_entry key cur n k m)"
  using assms
proof (induction n arbitrary: key cur result)
  case nullptr
  then show ?case by simp
next
  case (node_t val a b)
  show ?case
  proof (cases val)
    case (Some v)
    then show ?thesis using top_entry_here [of key cur v a b] node_t.prems by simp
  next
    case None
    show ?thesis
    proof (cases "cur < width")
      case False
      then have "a = nullptr" "b = nullptr" using node_t.prems by (auto elim: node_height.elims)
      moreover from this None have "\<not> top_entry key cur (node_t val a b) k m" for k m
        using False by (auto simp: top_entry_def entry_def)
      ultimately show ?thesis using None by simp
    next
      case True
      define key1 where "key1 = set_bit key cur True"
      have h: "node_height a \<le> Suc width - Suc cur" "node_height b \<le> Suc width - Suc cur"
        and lt: "Suc cur \<le> width"
        and k0: "valid key" "zero_from key (Suc cur)"
        and k1: "valid key1" "zero_from key1 (Suc cur)" "set_bit key1 cur False = key"
        using True node_t.prems by (auto simp: key1_def valid_set_bit zero_from_set_bit restore zero_from_Suc)
      from node_t.IH(1) [OF k0 lt h(1)] obtain xs0
        where a: "node_get_all_top set_bit key (Suc cur) a result = (key, result @ xs0)"
          "\<forall>k m. (k, m) \<in> set xs0 \<longleftrightarrow> top_entry key (Suc cur) a k m" by blast
      from node_t.IH(2) [OF k1(1,2) lt h(2)] obtain xs1
        where b: "node_get_all_top set_bit key1 (Suc cur) b (result @ xs0) = (key1, (result @ xs0) @ xs1)"
          "\<forall>k m. (k, m) \<in> set xs1 \<longleftrightarrow> top_entry key1 (Suc cur) b k m" by blast
      have "node_get_all_top set_bit key cur (node_t val a b) result = (key, result @ xs0 @ xs1)"
        using a(1) b(1) k1(3) None by (auto simp: key1_def [symmetric] is_null_iff)
      then show ?thesis
        using a(2) b(2) None top_entry_below [OF node_t.prems(1,2) True, of a b]
        by (intro exI [of _ "xs0 @ xs1"]) (simp add: key1_def del: node_get_all_top.simps)
    qed
  qed
qed

lemma btree_get_all_top_iff:
  assumes "btree_inv width root"
  shows "(k, m) \<in> set (btree_get_all_top zero set_bit root) \<longleftrightarrow>
    valid k \<and> m \<le> width \<and> zero_from k m \<and> btree_get get_bit root k m \<noteq> None \<and>
    (\<forall>m' < m. btree_get get_bit root k m' = None)"
proof -
  have "zero_from zero 0" by (simp add: zero_from_def get_bit_zero)
  with assms get_all_top_node [of zero 0 root "[]"] valid_zero
  have "(k, m) \<in> set (btree_get_all_top zero set_bit root) \<longleftrightarrow> top_entry zero 0 root k m"
    by (auto simp: btree_get_all_top_def btree_inv_def is_null_iff)
  then show ?thesis
    by (auto simp: top_entry_def entry_def btree_get_path agree_def)
qed

lemma btree_lookup_deep_iff:
  assumes "btree_inv width root" and "valid key" and "zero_from key key_bits" and "key_bits \<le> width"
  shows "(k, m, v) \<in> set (btree_lookup_deep get_bit set_bit root key key_bits) \<longleftrightarrow>
    (k = key \<and> m = key_bits \<and> map_option fst (btree_lookup get_bit root key key_bits) = Some v) \<or>
    (key_bits < m \<and> m \<le> width \<and> valid k \<and> agree k key key_bits \<and> zero_from k m \<and>
     btree_get get_bit root k m = Some v)"
proof (cases "is_null root")
  case True
  then show ?thesis by (simp add: btree_lookup_deep_def btree_lookup_def btree_get_def)
next
  case False
  with lookup_deep_node [of key key_bits 0 root None] assms
  have "(k, m, v) \<in> set (btree_lookup_deep get_bit set_bit root key key_bits) \<longleftrightarrow>
      (k = key \<and> m = key_bits \<and> map_option fst (node_lookup get_bit key key_bits 0 root None) = Some v) \<or>
      (key_bits < m \<and> agree k key key_bits \<and> entry key 0 root k m v)"
    by (auto simp: btree_lookup_deep_def btree_inv_def)
  with False show ?thesis
    by (auto simp: btree_lookup_def entry_def btree_get_path agree_def)
qed

end

end
