(* ===== verification/BtreeIp.thy ===== *)
theory BtreeIp
  imports Btree
begin

text \<open>
  The specialisation \<^verbatim>\<open>btree<ip_address_t, value_T>\<close> of \<^verbatim>\<open>src/common/btree.h\<close>: one tree per IP version,
  selected by the variant of the prefix.  The contract of a store of prefixes is the locale
  \<open>prefix_store\<close>, interpreted here on the tree; the theorems relate longest prefix match,
  \<^verbatim>\<open>get_all_top\<close> and \<^verbatim>\<open>lookup_deep\<close> to point access.
\<close>

section \<open>Definitions\<close>

record 'v btree_ip =
  btree_v4 :: "'v node"
  btree_v6 :: "'v node"

definition btree_ip_empty :: "'v btree_ip" where
  "btree_ip_empty = \<lparr>btree_v4 = nullptr, btree_v6 = nullptr\<rparr>"

text \<open>The constructor \<^verbatim>\<open>ip_prefix_t(address, mask)\<close>.\<close>

definition ip_prefix_of :: "ip_address_t \<Rightarrow> u8 \<Rightarrow> ip_prefix_t" where
  "ip_prefix_of a msk =
     (case a of
        ipv4_address a4 \<Rightarrow> ipv4_prefix \<lparr>prefix_address = a4, prefix_mask = msk\<rparr>
      | ipv6_address a6 \<Rightarrow> ipv6_prefix \<lparr>prefix_address = a6, prefix_mask = msk\<rparr>)"

definition ip_insert :: "'v btree_ip \<Rightarrow> ip_prefix_t \<Rightarrow> 'v \<Rightarrow> 'v btree_ip" where
  "ip_insert t p v =
     (case p of
        ipv4_prefix p4 \<Rightarrow>
          t\<lparr>btree_v4 := btree_insert ipv4_get_bit (btree_v4 t) (prefix_address p4) (unat (prefix_mask p4)) v\<rparr>
      | ipv6_prefix p6 \<Rightarrow>
          t\<lparr>btree_v6 := btree_insert ipv6_get_bit (btree_v6 t) (prefix_address p6) (unat (prefix_mask p6)) v\<rparr>)"

definition ip_remove :: "'v btree_ip \<Rightarrow> ip_prefix_t \<Rightarrow> 'v btree_ip" where
  "ip_remove t p =
     (case p of
        ipv4_prefix p4 \<Rightarrow>
          t\<lparr>btree_v4 := btree_remove ipv4_get_bit (btree_v4 t) (prefix_address p4) (unat (prefix_mask p4))\<rparr>
      | ipv6_prefix p6 \<Rightarrow>
          t\<lparr>btree_v6 := btree_remove ipv6_get_bit (btree_v6 t) (prefix_address p6) (unat (prefix_mask p6))\<rparr>)"

definition ip_clear :: "'v btree_ip \<Rightarrow> 'v btree_ip" where
  "ip_clear t = t\<lparr>btree_v4 := btree_clear (btree_v4 t), btree_v6 := btree_clear (btree_v6 t)\<rparr>"

definition ip_get :: "'v btree_ip \<Rightarrow> ip_prefix_t \<Rightarrow> 'v option" where
  "ip_get t p =
     (case p of
        ipv4_prefix p4 \<Rightarrow> btree_get ipv4_get_bit (btree_v4 t) (prefix_address p4) (unat (prefix_mask p4))
      | ipv6_prefix p6 \<Rightarrow> btree_get ipv6_get_bit (btree_v6 t) (prefix_address p6) (unat (prefix_mask p6)))"

definition ip_get_all_top :: "'v btree_ip \<Rightarrow> ip_prefix_t list" where
  "ip_get_all_top t =
     map (\<lambda>(a, m). ip_prefix_of (ipv4_address a) (of_nat m)) (btree_get_all_top 0 ipv4_set_bit (btree_v4 t)) @
     map (\<lambda>(a, m). ip_prefix_of (ipv6_address a) (of_nat m)) (btree_get_all_top ipv6_zero ipv6_set_bit (btree_v6 t))"

definition ip_lookup_address :: "'v btree_ip \<Rightarrow> ip_address_t \<Rightarrow> ('v \<times> nat) option" where
  "ip_lookup_address t a =
     (case a of
        ipv4_address a4 \<Rightarrow> btree_lookup ipv4_get_bit (btree_v4 t) a4 32
      | ipv6_address a6 \<Rightarrow> btree_lookup ipv6_get_bit (btree_v6 t) a6 128)"

definition ip_lookup :: "'v btree_ip \<Rightarrow> ip_prefix_t \<Rightarrow> ('v \<times> nat) option" where
  "ip_lookup t p =
     (case p of
        ipv4_prefix p4 \<Rightarrow> btree_lookup ipv4_get_bit (btree_v4 t) (prefix_address p4) (unat (prefix_mask p4))
      | ipv6_prefix p6 \<Rightarrow> btree_lookup ipv6_get_bit (btree_v6 t) (prefix_address p6) (unat (prefix_mask p6)))"

definition ip_lookup_all :: "'v btree_ip \<Rightarrow> ip_prefix_t \<Rightarrow> ('v \<times> nat) list" where
  "ip_lookup_all t p =
     (case p of
        ipv4_prefix p4 \<Rightarrow> btree_lookup_all ipv4_get_bit (btree_v4 t) (prefix_address p4) (unat (prefix_mask p4))
      | ipv6_prefix p6 \<Rightarrow> btree_lookup_all ipv6_get_bit (btree_v6 t) (prefix_address p6) (unat (prefix_mask p6)))"

definition ip_lookup_deep :: "'v btree_ip \<Rightarrow> ip_prefix_t \<Rightarrow> (ip_prefix_t \<times> 'v) list" where
  "ip_lookup_deep t p =
     (case p of
        ipv4_prefix p4 \<Rightarrow>
          map (\<lambda>(a, m, v). (ip_prefix_of (ipv4_address a) (of_nat m), v))
            (btree_lookup_deep ipv4_get_bit ipv4_set_bit (btree_v4 t) (prefix_address p4) (unat (prefix_mask p4)))
      | ipv6_prefix p6 \<Rightarrow>
          map (\<lambda>(a, m, v). (ip_prefix_of (ipv6_address a) (of_nat m), v))
            (btree_lookup_deep ipv6_get_bit ipv6_set_bit (btree_v6 t) (prefix_address p6) (unat (prefix_mask p6))))"

section \<open>Specification\<close>

text \<open>The network of a prefix is its mask and the bits before it.\<close>

definition same_network :: "ip_prefix_t \<Rightarrow> ip_prefix_t \<Rightarrow> bool" where
  "same_network p q =
     (case (p, q) of
        (ipv4_prefix p4, ipv4_prefix q4) \<Rightarrow> prefix_mask p4 = prefix_mask q4 \<and>
          (\<forall>i < unat (prefix_mask p4). ipv4_get_bit (prefix_address p4) i = ipv4_get_bit (prefix_address q4) i)
      | (ipv6_prefix p6, ipv6_prefix q6) \<Rightarrow> prefix_mask p6 = prefix_mask q6 \<and>
          (\<forall>i < unat (prefix_mask p6). ipv6_get_bit (prefix_address p6) i = ipv6_get_bit (prefix_address q6) i)
      | _ \<Rightarrow> False)"

definition ip_width :: "ip_address_t \<Rightarrow> u8" where
  "ip_width a = (case a of ipv4_address _ \<Rightarrow> 32 | ipv6_address _ \<Rightarrow> 128)"

text \<open>A canonical prefix has a mask within the width of its address and no host bits.\<close>

definition ip_mask_ok :: "ip_prefix_t \<Rightarrow> bool" where
  "ip_mask_ok p = (case p of ipv4_prefix p4 \<Rightarrow> prefix_mask p4 \<le> 32 | ipv6_prefix p6 \<Rightarrow> prefix_mask p6 \<le> 128)"

definition ip_canonical :: "ip_prefix_t \<Rightarrow> bool" where
  "ip_canonical p =
     (case p of
        ipv4_prefix p4 \<Rightarrow> ipv4_isValid p4
      | ipv6_prefix p6 \<Rightarrow> ipv6_wf (prefix_address p6) \<and> prefix_mask p6 \<le> 128 \<and>
          ipv6_applyMask (prefix_address p6) (prefix_mask p6) = prefix_address p6)"

definition ip_subnetOf :: "ip_prefix_t \<Rightarrow> ip_prefix_t \<Rightarrow> bool" where
  "ip_subnetOf p q =
     (case (p, q) of
        (ipv4_prefix p4, ipv4_prefix q4) \<Rightarrow> ipv4_subnetOf p4 q4
      | (ipv6_prefix p6, ipv6_prefix q6) \<Rightarrow> ipv6_subnetOf p6 q6
      | _ \<Rightarrow> False)"

definition ip_inv :: "'v btree_ip \<Rightarrow> bool" where
  "ip_inv t = (btree_inv 32 (btree_v4 t) \<and> btree_inv 128 (btree_v6 t))"

section \<open>The store contract\<close>

locale prefix_store =
  fixes eqv :: "'p \<Rightarrow> 'p \<Rightarrow> bool"
    and ok :: "'p \<Rightarrow> bool"
    and inv :: "'t \<Rightarrow> bool"
    and empty :: 't
    and insert :: "'t \<Rightarrow> 'p \<Rightarrow> 'v \<Rightarrow> 't"
    and remove :: "'t \<Rightarrow> 'p \<Rightarrow> 't"
    and get :: "'t \<Rightarrow> 'p \<Rightarrow> 'v option"
  assumes get_empty: "get empty q = None"
    and get_insert: "get (insert t p v) q = (if eqv p q then Some v else get t q)"
    and get_remove: "get (remove t p) q = (if eqv p q then None else get t q)"
    and inv_empty: "inv empty"
    and inv_insert: "inv t \<Longrightarrow> ok p \<Longrightarrow> inv (insert t p v)"
    and inv_remove: "inv t \<Longrightarrow> inv (remove t p)"
begin

text \<open>A store filled from a list of updates: \<open>Some\<close> is an insertion and \<open>None\<close> a removal.\<close>

definition update :: "'p \<times> 'v option \<Rightarrow> 't \<Rightarrow> 't" where
  "update u t = (case u of (p, Some v) \<Rightarrow> insert t p v | (p, None) \<Rightarrow> remove t p)"

lemma get_update: "get (update u t) q = (if eqv (fst u) q then snd u else get t q)"
  by (cases u; cases "snd u") (auto simp: update_def get_insert get_remove)

lemma get_updates:
  "get (fold update us t) q =
     (case List.find (\<lambda>u. eqv (fst u) q) (rev us) of Some u \<Rightarrow> snd u | None \<Rightarrow> get t q)"
proof (induction us rule: rev_induct)
  case (snoc u us)
  then show ?case by (simp add: get_update)
qed simp

lemma inv_updates: "inv t \<Longrightarrow> (\<forall>u \<in> set us. ok (fst u)) \<Longrightarrow> inv (fold update us t)"
proof (induction us arbitrary: t)
  case (Cons u us)
  have "inv (update u t)"
    using Cons.prems inv_insert inv_remove by (cases u; cases "snd u") (auto simp: update_def)
  with Cons show ?case by simp
qed simp

end

lemma ip_get_insert: "ip_get (ip_insert t p v) q = (if same_network p q then Some v else ip_get t q)"
  by (cases p; cases q)
    (auto simp: ip_get_def ip_insert_def same_network_def btree_get_path path_get_btree_insert key_path_eq_iff
      word_unat_eq_iff)

lemma ip_get_remove: "ip_get (ip_remove t p) q = (if same_network p q then None else ip_get t q)"
  by (cases p; cases q)
    (auto simp: ip_get_def ip_remove_def same_network_def btree_get_path path_get_btree_remove key_path_eq_iff
      word_unat_eq_iff)

lemma ip_inv_insert: "ip_inv t \<Longrightarrow> ip_mask_ok p \<Longrightarrow> ip_inv (ip_insert t p v)"
  by (cases p) (simp_all add: ip_inv_def ip_insert_def ip_mask_ok_def btree_inv_insert word_le_nat_alt)

lemma ip_inv_remove: "ip_inv t \<Longrightarrow> ip_inv (ip_remove t p)"
  by (cases p) (simp_all add: ip_inv_def ip_remove_def btree_inv_remove)

lemma ip_empty: "ip_get btree_ip_empty q = None" "ip_inv btree_ip_empty"
  by (cases q) (simp_all add: ip_get_def btree_ip_empty_def btree_get_def ip_inv_def btree_inv_def)

interpretation ip_store: prefix_store same_network ip_mask_ok ip_inv btree_ip_empty ip_insert ip_remove ip_get
  by unfold_locales (simp_all add: ip_get_insert ip_get_remove ip_inv_insert ip_inv_remove ip_empty)

section \<open>Canonical prefixes as bit strings\<close>

lemma ipv4_zero_from_iff: "msk \<le> 32 \<Longrightarrow> ipv4_bits.zero_from a (unat msk) \<longleftrightarrow> ipv4_applyMask a msk = a"
proof
  assume m: "msk \<le> 32"
  { assume "ipv4_bits.zero_from a (unat msk)"
    then show "ipv4_applyMask a msk = a"
      using ipv4_get_bit_applyMask [OF m] by (intro ipv4_eqI) (auto simp: ipv4_bits.zero_from_def not_less) }
  { assume "ipv4_applyMask a msk = a"
    then show "ipv4_bits.zero_from a (unat msk)"
      using ipv4_get_bit_applyMask [OF m, of _ a] unfolding ipv4_bits.zero_from_def by (metis not_le) }
qed

lemma ipv6_zero_from_iff:
  "msk \<le> 128 \<Longrightarrow> ipv6_wf a \<Longrightarrow> ipv6_bits.zero_from a (unat msk) \<longleftrightarrow> ipv6_applyMask a msk = a"
proof
  assume m: "msk \<le> 128" and wf: "ipv6_wf a"
  { assume "ipv6_bits.zero_from a (unat msk)"
    then show "ipv6_applyMask a msk = a"
      using ipv6_get_bit_applyMask [OF wf m] wf by (intro ipv6_eqI) (auto simp: ipv6_bits.zero_from_def not_less) }
  { assume "ipv6_applyMask a msk = a"
    then show "ipv6_bits.zero_from a (unat msk)"
      using ipv6_get_bit_applyMask [OF wf m] unfolding ipv6_bits.zero_from_def by (metis not_le) }
qed

lemma canonical_v4: "ip_canonical (ipv4_prefix p) \<longleftrightarrow>
    prefix_mask p \<le> 32 \<and> ipv4_bits.zero_from (prefix_address p) (unat (prefix_mask p))"
  by (auto simp: ip_canonical_def ipv4_isValid_def ipv4_zero_from_iff)

lemma canonical_v6: "ip_canonical (ipv6_prefix p) \<longleftrightarrow>
    prefix_mask p \<le> 128 \<and> ipv6_wf (prefix_address p) \<and>
    ipv6_bits.zero_from (prefix_address p) (unat (prefix_mask p))"
  by (auto simp: ip_canonical_def ipv6_zero_from_iff)

lemma subnetOf_v4:
  assumes "ip_canonical (ipv4_prefix q)"
  shows "ip_subnetOf (ipv4_prefix p) (ipv4_prefix q) \<longleftrightarrow>
    unat (prefix_mask q) \<le> unat (prefix_mask p) \<and>
    ipv4_bits.agree (prefix_address p) (prefix_address q) (unat (prefix_mask q))"
proof -
  have "prefix_address q = ipv4_applyMask (prefix_address q) (prefix_mask q)" "prefix_mask q \<le> 32"
    using assms by (simp_all add: ip_canonical_def ipv4_isValid_def)
  then have "ipv4_applyMask (prefix_address p) (prefix_mask q) = prefix_address q \<longleftrightarrow>
      ipv4_bits.agree (prefix_address p) (prefix_address q) (unat (prefix_mask q))"
    using ipv4_applyMask_eq_iff [of "prefix_mask q" "prefix_address p" "prefix_address q"]
    by (simp add: ipv4_bits.agree_def)
  then show ?thesis
    by (auto simp: ip_subnetOf_def ipv4_subnetOf_def word_less_nat_alt word_le_nat_alt)
qed

lemma subnetOf_v6:
  assumes "ip_canonical (ipv6_prefix q)" and "ipv6_wf (prefix_address p)"
  shows "ip_subnetOf (ipv6_prefix p) (ipv6_prefix q) \<longleftrightarrow>
    unat (prefix_mask q) \<le> unat (prefix_mask p) \<and>
    ipv6_bits.agree (prefix_address p) (prefix_address q) (unat (prefix_mask q))"
proof -
  have q: "prefix_address q = ipv6_applyMask (prefix_address q) (prefix_mask q)" "prefix_mask q \<le> 128"
    "ipv6_wf (prefix_address q)"
    using assms by (simp_all add: ip_canonical_def)
  then have "ipv6_applyMask (prefix_address p) (prefix_mask q) = prefix_address q \<longleftrightarrow>
      ipv6_bits.agree (prefix_address p) (prefix_address q) (unat (prefix_mask q))"
    using ipv6_applyMask_eq_iff [of "prefix_address p" "prefix_address q" "prefix_mask q"] assms(2)
    by (simp add: ipv6_bits.agree_def)
  then show ?thesis
    by (auto simp: ip_subnetOf_def ipv6_subnetOf_def word_less_nat_alt word_le_nat_alt)
qed

lemma u8_of_nat_inv: "m \<le> 128 \<Longrightarrow> unat (of_nat m :: u8) = m"
  by (simp add: unat_of_nat_small)

lemma u8_ex_nat: "(\<exists>m :: u8. n = unat m \<and> m \<le> w \<and> P (unat m)) \<longleftrightarrow> n \<le> unat w \<and> P n"
proof
  assume "n \<le> unat w \<and> P n"
  moreover from this have "n < 2 ^ LENGTH(8)" using unsigned_less [of w, where ?'a = nat] by simp
  then have "unat (of_nat n :: u8) = n" by (rule unat_of_nat_small)
  ultimately show "\<exists>m :: u8. n = unat m \<and> m \<le> w \<and> P (unat m)"
    by (metis word_le_nat_alt)
qed (auto simp: word_le_nat_alt)

lemma u8_all_nat: "(\<forall>m' :: u8. m < m' \<and> m' \<le> w \<longrightarrow> P (unat m')) \<longleftrightarrow> (\<forall>n. unat m < n \<and> n \<le> unat w \<longrightarrow> P n)"
proof
  assume a: "\<forall>m' :: u8. m < m' \<and> m' \<le> w \<longrightarrow> P (unat m')"
  show "\<forall>n. unat m < n \<and> n \<le> unat w \<longrightarrow> P n"
  proof safe
    fix n assume n: "unat m < n" "n \<le> unat w"
    then have "n < 2 ^ LENGTH(8)" using unsigned_less [of w, where ?'a = nat] by simp
    then have "unat (of_nat n :: u8) = n" by (rule unat_of_nat_small)
    then show "P n" using a n by (metis word_le_nat_alt word_less_nat_alt)
  qed
qed (auto simp: word_le_nat_alt word_less_nat_alt)

lemma u8_all_less: "(\<forall>m' < m :: u8. P (unat m')) \<longleftrightarrow> (\<forall>n < unat m. P n)"
proof
  assume a: "\<forall>m' < m. P (unat m')"
  show "\<forall>n < unat m. P n"
  proof safe
    fix n assume n: "n < unat m"
    then have "n < 2 ^ LENGTH(8)" using unsigned_less [of m, where ?'a = nat] by simp
    then have "unat (of_nat n :: u8) = n" by (rule unat_of_nat_small)
    then show "P n" using a n by (metis word_less_nat_alt)
  qed
qed (auto simp: word_less_nat_alt)

lemma btree_lookup_Some_iff:
  "btree_lookup gb root key w = Some (v, n) \<longleftrightarrow>
     n \<le> w \<and> btree_get gb root key n = Some v \<and> (\<forall>n'. n < n' \<and> n' \<le> w \<longrightarrow> btree_get gb root key n' = None)"
  unfolding btree_lookup_fold fold_last_Some ..

lemma ip_get_prefix_of:
  "ip_get t (ip_prefix_of (ipv4_address a4) m) = btree_get ipv4_get_bit (btree_v4 t) a4 (unat m)"
  "ip_get t (ip_prefix_of (ipv6_address a6) m) = btree_get ipv6_get_bit (btree_v6 t) a6 (unat m)"
  by (simp_all add: ip_get_def ip_prefix_of_def)

lemma ip_canonical_eqI_v4:
  assumes "ip_canonical (ipv4_prefix p)" and "ip_canonical (ipv4_prefix q)"
    and "prefix_mask p = prefix_mask q"
    and "ipv4_bits.agree (prefix_address p) (prefix_address q) (unat (prefix_mask q))"
  shows "p = q"
  using assms ipv4_bits.agree_zero_eq [of "prefix_address p" "prefix_address q"]
  by (auto simp: canonical_v4)

lemma ip_canonical_eqI_v6:
  assumes "ip_canonical (ipv6_prefix p)" and "ip_canonical (ipv6_prefix q)"
    and "prefix_mask p = prefix_mask q"
    and "ipv6_bits.agree (prefix_address p) (prefix_address q) (unat (prefix_mask q))"
  shows "p = q"
  using assms ipv6_bits.agree_zero_eq [of "prefix_address p" "prefix_address q"]
  by (auto simp: canonical_v6)

lemma mem_map_v4:
  assumes "\<And>k m v. (k, m, v) \<in> set xs \<Longrightarrow> m \<le> 32"
  shows "(q, v) \<in> set (map (\<lambda>(a, m, v). (ip_prefix_of (ipv4_address a) (of_nat m), v)) xs) \<longleftrightarrow>
    (\<exists>p. q = ipv4_prefix p \<and> (prefix_address p, unat (prefix_mask p), v) \<in> set xs)"
proof
  assume "(q, v) \<in> set (map (\<lambda>(a, m, v). (ip_prefix_of (ipv4_address a) (of_nat m), v)) xs)"
  then obtain a m where am: "(a, m, v) \<in> set xs" "q = ip_prefix_of (ipv4_address a) (of_nat m)" by auto
  moreover have "unat (of_nat m :: u8) = m" using assms [OF am(1)] by (intro u8_of_nat_inv) simp
  ultimately show "\<exists>p. q = ipv4_prefix p \<and> (prefix_address p, unat (prefix_mask p), v) \<in> set xs"
    by (simp add: ip_prefix_of_def)
next
  assume "\<exists>p. q = ipv4_prefix p \<and> (prefix_address p, unat (prefix_mask p), v) \<in> set xs"
  then show "(q, v) \<in> set (map (\<lambda>(a, m, v). (ip_prefix_of (ipv4_address a) (of_nat m), v)) xs)"
    by (force simp: ip_prefix_of_def image_iff)
qed

lemma mem_map_v6:
  assumes "\<And>k m v. (k, m, v) \<in> set xs \<Longrightarrow> m \<le> 128"
  shows "(q, v) \<in> set (map (\<lambda>(a, m, v). (ip_prefix_of (ipv6_address a) (of_nat m), v)) xs) \<longleftrightarrow>
    (\<exists>p. q = ipv6_prefix p \<and> (prefix_address p, unat (prefix_mask p), v) \<in> set xs)"
proof
  assume "(q, v) \<in> set (map (\<lambda>(a, m, v). (ip_prefix_of (ipv6_address a) (of_nat m), v)) xs)"
  then obtain a m where am: "(a, m, v) \<in> set xs" "q = ip_prefix_of (ipv6_address a) (of_nat m)" by auto
  moreover have "unat (of_nat m :: u8) = m" using assms [OF am(1)] by (rule u8_of_nat_inv)
  ultimately show "\<exists>p. q = ipv6_prefix p \<and> (prefix_address p, unat (prefix_mask p), v) \<in> set xs"
    by (simp add: ip_prefix_of_def)
next
  assume "\<exists>p. q = ipv6_prefix p \<and> (prefix_address p, unat (prefix_mask p), v) \<in> set xs"
  then show "(q, v) \<in> set (map (\<lambda>(a, m, v). (ip_prefix_of (ipv6_address a) (of_nat m), v)) xs)"
    by (force simp: ip_prefix_of_def image_iff)
qed

lemma deep_v4:
  assumes "ip_inv t" and "ip_canonical (ipv4_prefix p)"
  shows "(ipv4_prefix q, v) \<in> set (ip_lookup_deep t (ipv4_prefix p)) \<longleftrightarrow> ip_canonical (ipv4_prefix q) \<and>
    (if q = p then map_option fst (ip_lookup t (ipv4_prefix p)) = Some v
     else ip_subnetOf (ipv4_prefix q) (ipv4_prefix p) \<and> ip_get t (ipv4_prefix q) = Some v)"
proof -
  let ?a = "prefix_address p" and ?m = "unat (prefix_mask p)"
  have p: "btree_inv 32 (btree_v4 t)" "ipv4_bits.zero_from ?a ?m" "?m \<le> 32"
    using assms by (simp_all add: ip_inv_def canonical_v4 word_le_nat_alt)
  note iff = ipv4_bits.btree_lookup_deep_iff [OF p(1) TrueI p(2,3)]
  have "(ipv4_prefix q, v) \<in> set (ip_lookup_deep t (ipv4_prefix p)) \<longleftrightarrow>
      (prefix_address q, unat (prefix_mask q), v) \<in> set (btree_lookup_deep ipv4_get_bit ipv4_set_bit (btree_v4 t) ?a ?m)"
    unfolding ip_lookup_deep_def ip_prefix_t.case
    by (subst mem_map_v4) (use p(3) iff in \<open>auto\<close>)
  also have "\<dots> \<longleftrightarrow> (q = p \<and> map_option fst (ip_lookup t (ipv4_prefix p)) = Some v) \<or>
      (?m < unat (prefix_mask q) \<and> ip_canonical (ipv4_prefix q) \<and>
       ipv4_bits.agree (prefix_address q) ?a ?m \<and> ip_get t (ipv4_prefix q) = Some v)"
    unfolding iff
    by (cases p; cases q) (auto simp: ip_lookup_def ip_get_def canonical_v4 word_le_nat_alt word_unat_eq_iff)
  also have "\<dots> \<longleftrightarrow> ip_canonical (ipv4_prefix q) \<and>
    (if q = p then map_option fst (ip_lookup t (ipv4_prefix p)) = Some v
     else ip_subnetOf (ipv4_prefix q) (ipv4_prefix p) \<and> ip_get t (ipv4_prefix q) = Some v)"
    using assms(2) ip_canonical_eqI_v4 [of q p] unfolding subnetOf_v4 [OF assms(2)]
    by (auto simp: word_unat_eq_iff le_less)
  finally show ?thesis .
qed

lemma deep_v6:
  assumes "ip_inv t" and "ip_canonical (ipv6_prefix p)"
  shows "(ipv6_prefix q, v) \<in> set (ip_lookup_deep t (ipv6_prefix p)) \<longleftrightarrow> ip_canonical (ipv6_prefix q) \<and>
    (if q = p then map_option fst (ip_lookup t (ipv6_prefix p)) = Some v
     else ip_subnetOf (ipv6_prefix q) (ipv6_prefix p) \<and> ip_get t (ipv6_prefix q) = Some v)"
proof -
  let ?a = "prefix_address p" and ?m = "unat (prefix_mask p)"
  have p: "btree_inv 128 (btree_v6 t)" "ipv6_wf ?a" "ipv6_bits.zero_from ?a ?m" "?m \<le> 128"
    using assms by (simp_all add: ip_inv_def canonical_v6 word_le_nat_alt)
  note iff = ipv6_bits.btree_lookup_deep_iff [OF p]
  have "(ipv6_prefix q, v) \<in> set (ip_lookup_deep t (ipv6_prefix p)) \<longleftrightarrow>
      (prefix_address q, unat (prefix_mask q), v) \<in> set (btree_lookup_deep ipv6_get_bit ipv6_set_bit (btree_v6 t) ?a ?m)"
    unfolding ip_lookup_deep_def ip_prefix_t.case
    by (subst mem_map_v6) (use p(4) iff in \<open>auto\<close>)
  also have "\<dots> \<longleftrightarrow> (q = p \<and> map_option fst (ip_lookup t (ipv6_prefix p)) = Some v) \<or>
      (?m < unat (prefix_mask q) \<and> ip_canonical (ipv6_prefix q) \<and>
       ipv6_bits.agree (prefix_address q) ?a ?m \<and> ip_get t (ipv6_prefix q) = Some v)"
    unfolding iff
    by (cases p; cases q) (auto simp: ip_lookup_def ip_get_def canonical_v6 word_le_nat_alt word_unat_eq_iff)
  also have "\<dots> \<longleftrightarrow> ip_canonical (ipv6_prefix q) \<and>
    (if q = p then map_option fst (ip_lookup t (ipv6_prefix p)) = Some v
     else ip_subnetOf (ipv6_prefix q) (ipv6_prefix p) \<and> ip_get t (ipv6_prefix q) = Some v)"
  proof (cases "ip_canonical (ipv6_prefix q)")
    case True
    then have "ipv6_wf (prefix_address q)" by (simp add: canonical_v6)
    then show ?thesis
      using True ip_canonical_eqI_v6 [OF True assms(2)] subnetOf_v6 [OF assms(2), of q]
      by (auto simp: word_unat_eq_iff le_less)
  qed (use assms(2) in auto)
  finally show ?thesis .
qed

lemma top_v4:
  assumes "ip_inv t"
  shows "ipv4_prefix q \<in> set (ip_get_all_top t) \<longleftrightarrow> ip_canonical (ipv4_prefix q) \<and>
    ip_get t (ipv4_prefix q) \<noteq> None \<and>
    (\<forall>m < prefix_mask q. ip_get t (ip_prefix_of (ipv4_address (prefix_address q)) m) = None)"
proof -
  note iff = ipv4_bits.btree_get_all_top_iff [of "btree_v4 t"]
  have inv: "btree_inv 32 (btree_v4 t)" using assms by (simp add: ip_inv_def)
  have "ipv4_prefix q \<in> set (ip_get_all_top t) \<longleftrightarrow>
      (prefix_address q, unat (prefix_mask q)) \<in> set (btree_get_all_top 0 ipv4_set_bit (btree_v4 t))"
  proof
    assume "ipv4_prefix q \<in> set (ip_get_all_top t)"
    then obtain a m where am: "(a, m) \<in> set (btree_get_all_top 0 ipv4_set_bit (btree_v4 t))"
        "ipv4_prefix q = ip_prefix_of (ipv4_address a) (of_nat m)"
      by (auto simp: ip_get_all_top_def ip_prefix_of_def)
    moreover have "unat (of_nat m :: u8) = m" using iff [OF inv] am(1) by (intro u8_of_nat_inv) simp
    ultimately show "(prefix_address q, unat (prefix_mask q)) \<in> set (btree_get_all_top 0 ipv4_set_bit (btree_v4 t))"
      by (simp add: ip_prefix_of_def)
  qed (force simp: ip_get_all_top_def ip_prefix_of_def image_iff)
  also have "\<dots> \<longleftrightarrow> ip_canonical (ipv4_prefix q) \<and> ip_get t (ipv4_prefix q) \<noteq> None \<and>
      (\<forall>m < unat (prefix_mask q). btree_get ipv4_get_bit (btree_v4 t) (prefix_address q) m = None)"
    unfolding iff [OF inv] by (auto simp: canonical_v4 ip_get_def word_le_nat_alt)
  also have "(\<forall>m < unat (prefix_mask q). btree_get ipv4_get_bit (btree_v4 t) (prefix_address q) m = None) \<longleftrightarrow>
      (\<forall>m < prefix_mask q. ip_get t (ip_prefix_of (ipv4_address (prefix_address q)) m) = None)"
    unfolding ip_get_prefix_of by (rule u8_all_less [symmetric])
  finally show ?thesis .
qed

lemma top_v6:
  assumes "ip_inv t"
  shows "ipv6_prefix q \<in> set (ip_get_all_top t) \<longleftrightarrow> ip_canonical (ipv6_prefix q) \<and>
    ip_get t (ipv6_prefix q) \<noteq> None \<and>
    (\<forall>m < prefix_mask q. ip_get t (ip_prefix_of (ipv6_address (prefix_address q)) m) = None)"
proof -
  note iff = ipv6_bits.btree_get_all_top_iff [of "btree_v6 t"]
  have inv: "btree_inv 128 (btree_v6 t)" using assms by (simp add: ip_inv_def)
  have "ipv6_prefix q \<in> set (ip_get_all_top t) \<longleftrightarrow>
      (prefix_address q, unat (prefix_mask q)) \<in> set (btree_get_all_top ipv6_zero ipv6_set_bit (btree_v6 t))"
  proof
    assume "ipv6_prefix q \<in> set (ip_get_all_top t)"
    then obtain a m where am: "(a, m) \<in> set (btree_get_all_top ipv6_zero ipv6_set_bit (btree_v6 t))"
        "ipv6_prefix q = ip_prefix_of (ipv6_address a) (of_nat m)"
      by (auto simp: ip_get_all_top_def ip_prefix_of_def)
    moreover have "unat (of_nat m :: u8) = m" using iff [OF inv] am(1) by (intro u8_of_nat_inv) simp
    ultimately show "(prefix_address q, unat (prefix_mask q)) \<in> set (btree_get_all_top ipv6_zero ipv6_set_bit (btree_v6 t))"
      by (simp add: ip_prefix_of_def)
  qed (force simp: ip_get_all_top_def ip_prefix_of_def image_iff)
  also have "\<dots> \<longleftrightarrow> ip_canonical (ipv6_prefix q) \<and> ip_get t (ipv6_prefix q) \<noteq> None \<and>
      (\<forall>m < unat (prefix_mask q). btree_get ipv6_get_bit (btree_v6 t) (prefix_address q) m = None)"
    unfolding iff [OF inv] by (auto simp: canonical_v6 ip_get_def word_le_nat_alt)
  also have "(\<forall>m < unat (prefix_mask q). btree_get ipv6_get_bit (btree_v6 t) (prefix_address q) m = None) \<longleftrightarrow>
      (\<forall>m < prefix_mask q. ip_get t (ip_prefix_of (ipv6_address (prefix_address q)) m) = None)"
    unfolding ip_get_prefix_of by (rule u8_all_less [symmetric])
  finally show ?thesis .
qed

lemma fold_last_map_filter:
  "fold (\<lambda>m r. case f m of Some v \<Rightarrow> Some (v, m) | None \<Rightarrow> r) ms None =
     (if List.map_filter (\<lambda>m. map_option (\<lambda>v. (v, m)) (f m)) ms = [] then None
      else Some (last (List.map_filter (\<lambda>m. map_option (\<lambda>v. (v, m)) (f m)) ms)))"
  by (induction ms rule: rev_induct)
    (auto simp: map_filter_simps map_filter_def Let_def split: option.splits)

lemma deep_mixed:
  "(ipv6_prefix q6, v) \<notin> set (ip_lookup_deep t (ipv4_prefix p4))"
  "(ipv4_prefix q4, v) \<notin> set (ip_lookup_deep t (ipv6_prefix p6))"
  by (auto simp: ip_lookup_deep_def ip_prefix_of_def)

section \<open>Properties\<close>

text \<open>One update of the tree: an insertion or, for \<open>None\<close>, a removal.\<close>

definition ip_update :: "ip_prefix_t \<times> 'v option \<Rightarrow> 'v btree_ip \<Rightarrow> 'v btree_ip" where
  "ip_update u t = (case u of (p, Some v) \<Rightarrow> ip_insert t p v | (p, None) \<Rightarrow> ip_remove t p)"

lemma ip_update_eq: "ip_update = ip_store.update"
  by (intro ext) (simp add: ip_update_def ip_store.update_def)


text \<open>
  C30: every sequence of updates with masks within the width of the addresses keeps the shape
  invariant: no path is longer than an address, and every node below a root holds a value or has a
  child, so that removals free all the nodes they make useless.
\<close>

theorem btree_shape_invariant:
  assumes "\<forall>u \<in> set us. ip_mask_ok (fst u)"
  shows "ip_inv (fold ip_update us btree_ip_empty)"
  using ip_store.inv_updates [of btree_ip_empty us] assms by (simp add: ip_update_eq ip_empty)

theorem btree_shape_invariant_witness:
  "let p = ipv4_prefix \<lparr>prefix_address = 0x0A000000, prefix_mask = 4\<rparr>; us = [(p, Some (1 :: nat)), (p, None)]
   in (\<forall>u \<in> set us. ip_mask_ok (fst u)) \<and> ip_inv (fold ip_update us btree_ip_empty)"
  using btree_shape_invariant [of "[(ipv4_prefix \<lparr>prefix_address = 0x0A000000, prefix_mask = 4\<rparr>, Some (1 :: nat)),
    (ipv4_prefix \<lparr>prefix_address = 0x0A000000, prefix_mask = 4\<rparr>, None)]"]
  by (simp add: ip_mask_ok_def)

text \<open>
  C1: \<^verbatim>\<open>lookup\<close> of an address is longest prefix match: it returns the value stored for the longest
  prefix of the address that is in the tree together with the length of that prefix, and nothing
  exactly when no prefix of the address is in the tree.
\<close>

theorem btree_lookup_longest_prefix:
  "(ip_lookup_address t a = Some (v, n) \<longleftrightarrow>
     (\<exists>m. n = unat m \<and> m \<le> ip_width a \<and> ip_get t (ip_prefix_of a m) = Some v \<and>
       (\<forall>m'. m < m' \<and> m' \<le> ip_width a \<longrightarrow> ip_get t (ip_prefix_of a m') = None))) \<and>
   (ip_lookup_address t a = None \<longleftrightarrow> (\<forall>m \<le> ip_width a. ip_get t (ip_prefix_of a m) = None))"
proof -
  define G where "G = (\<lambda>n. case a of ipv4_address a4 \<Rightarrow> btree_get ipv4_get_bit (btree_v4 t) a4 n
    | ipv6_address a6 \<Rightarrow> btree_get ipv6_get_bit (btree_v6 t) a6 n)"
  have G: "ip_get t (ip_prefix_of a m) = G (unat m)" for m
    by (cases a) (simp_all add: ip_get_prefix_of G_def)
  have L: "ip_lookup_address t a =
      fold (\<lambda>m r. case G m of Some v \<Rightarrow> Some (v, m) | None \<Rightarrow> r) [0..<Suc (unat (ip_width a))] None"
    by (cases a) (simp_all add: ip_lookup_address_def btree_lookup_fold ip_width_def G_def del: upt_Suc)
  have "(\<forall>m \<le> ip_width a. G (unat m) = None) \<longleftrightarrow> (\<forall>n \<le> unat (ip_width a). G n = None)"
  proof
    assume h: "\<forall>m \<le> ip_width a. G (unat m) = None"
    show "\<forall>n \<le> unat (ip_width a). G n = None"
    proof safe
      fix n assume "n \<le> unat (ip_width a)"
      then show "G n = None" using u8_ex_nat [of n "ip_width a" "\<lambda>_. True"] h by auto
    qed
  qed (simp add: word_le_nat_alt)
  then show ?thesis
    unfolding G L fold_last_Some fold_last_None u8_all_nat [where P = "\<lambda>n. G n = None"]
    using u8_ex_nat [of n "ip_width a" "\<lambda>n. G n = Some v \<and> (\<forall>n'. n < n' \<and> n' \<le> unat (ip_width a) \<longrightarrow> G n' = None)"]
    by simp
qed

theorem btree_lookup_longest_prefix_witness:
  "let t = fold ip_update [(ip_prefix_of (ipv4_address 0x80000000) 1, Some (7 :: nat)),
         (ip_prefix_of (ipv4_address 0xC0000000) 2, Some 8)] btree_ip_empty
   in ip_lookup_address t (ipv4_address 0xA0000001) = Some (7, 1) \<and>
      (\<exists>m. (1 :: nat) = unat m \<and> m \<le> ip_width (ipv4_address 0xA0000001) \<and>
         ip_get t (ip_prefix_of (ipv4_address 0xA0000001) m) = Some 7 \<and>
         (\<forall>m'. m < m' \<and> m' \<le> ip_width (ipv4_address 0xA0000001) \<longrightarrow>
            ip_get t (ip_prefix_of (ipv4_address 0xA0000001) m') = None))"
proof -
  let ?t = "fold ip_update [(ip_prefix_of (ipv4_address 0x80000000) 1, Some (7 :: nat)),
         (ip_prefix_of (ipv4_address 0xC0000000) 2, Some 8)] btree_ip_empty"
  have "ip_lookup_address ?t (ipv4_address 0xA0000001) = Some (7, 1)" by code_simp
  then show ?thesis
    unfolding Let_def using btree_lookup_longest_prefix [of ?t "ipv4_address 0xA0000001" 7 1] by simp
qed

text \<open>
  \<^verbatim>\<open>lookup_all\<close> calls back on every stored prefix of the argument, from the shortest to the
  longest, and \<^verbatim>\<open>lookup\<close> returns the last of them.
\<close>

lemma btree_lookup_all_covers:
  "btree_lookup_all gb root key n =
     List.map_filter (\<lambda>m. map_option (\<lambda>v. (v, m)) (btree_get gb root key m)) [0..<Suc n] \<and>
   btree_lookup gb root key n =
     (if btree_lookup_all gb root key n = [] then None else Some (last (btree_lookup_all gb root key n)))"
  unfolding btree_lookup_all_eq btree_lookup_fold fold_last_map_filter by simp

text \<open>
  C17: \<^verbatim>\<open>lookup_deep\<close> of a prefix without host bits calls back on exactly these pairs: the prefix itself
  with the value its longest stored prefix has, and every stored prefix strictly inside it with its
  own value.
\<close>

theorem btree_lookup_deep_exact:
  assumes "ip_inv t" and "ip_canonical p"
  shows "(q, v) \<in> set (ip_lookup_deep t p) \<longleftrightarrow> ip_canonical q \<and>
    (if q = p then map_option fst (ip_lookup t p) = Some v
     else ip_subnetOf q p \<and> ip_get t q = Some v)"
proof (cases p)
  case (ipv4_prefix p4)
  then show ?thesis
    using deep_v4 [of t p4] deep_mixed(1) [of _ v t p4] assms by (cases q) (simp_all add: ip_subnetOf_def)
next
  case (ipv6_prefix p6)
  then show ?thesis
    using deep_v6 [of t p6] deep_mixed(2) [of _ v t p6] assms by (cases q) (simp_all add: ip_subnetOf_def)
qed

theorem btree_lookup_deep_exact_witness:
  "let p = ip_prefix_of (ipv4_address 0x80000000) 1; q = ip_prefix_of (ipv4_address 0xC0000000) 2;
       t = fold ip_update [(p, Some (7 :: nat)), (q, Some 8)] btree_ip_empty
   in ip_inv t \<and> ip_canonical p \<and> (q, 8) \<in> set (ip_lookup_deep t p)"
proof -
  let ?p = "ip_prefix_of (ipv4_address 0x80000000) 1" and ?q = "ip_prefix_of (ipv4_address 0xC0000000) 2"
  let ?t = "fold ip_update [(?p, Some (7 :: nat)), (?q, Some 8)] btree_ip_empty"
  have "ip_inv ?t" by (simp add: ip_update_def ip_inv_insert ip_empty ip_mask_ok_def ip_prefix_of_def)
  moreover have "ip_canonical ?p" "ip_canonical ?q" "ip_subnetOf ?q ?p" "?p \<noteq> ?q" by code_simp+
  moreover have "ip_get ?t ?q = Some 8" by code_simp
  ultimately show ?thesis
    unfolding Let_def using btree_lookup_deep_exact [of ?t ?p ?q 8] by simp
qed

text \<open>The address of a prefix (\<^verbatim>\<open>ip_prefix_t::address\<close>) and its mask.\<close>

definition ip_prefix_address :: "ip_prefix_t \<Rightarrow> ip_address_t" where
  "ip_prefix_address p =
     (case p of ipv4_prefix p4 \<Rightarrow> ipv4_address (prefix_address p4) | ipv6_prefix p6 \<Rightarrow> ipv6_address (prefix_address p6))"

definition ip_prefix_mask :: "ip_prefix_t \<Rightarrow> u8" where
  "ip_prefix_mask p = (case p of ipv4_prefix p4 \<Rightarrow> prefix_mask p4 | ipv6_prefix p6 \<Rightarrow> prefix_mask p6)"

text \<open>
  C18: \<^verbatim>\<open>get_all_top\<close> returns exactly the stored prefixes, in canonical form, that no shorter stored
  prefix covers.
\<close>

theorem btree_get_all_top_exact:
  assumes "ip_inv t"
  shows "q \<in> set (ip_get_all_top t) \<longleftrightarrow> ip_canonical q \<and> ip_get t q \<noteq> None \<and>
    (\<forall>m < ip_prefix_mask q. ip_get t (ip_prefix_of (ip_prefix_address q) m) = None)"
  using top_v4 [OF assms] top_v6 [OF assms]
  by (cases q) (simp_all add: ip_prefix_mask_def ip_prefix_address_def)

theorem btree_get_all_top_exact_witness:
  "let p = ip_prefix_of (ipv4_address 0x80000000) 1; q = ip_prefix_of (ipv4_address 0xC0000000) 2;
       t = fold ip_update [(p, Some (7 :: nat)), (q, Some 8)] btree_ip_empty
   in ip_inv t \<and> q \<notin> set (ip_get_all_top t)"
proof -
  let ?p = "ip_prefix_of (ipv4_address 0x80000000) 1" and ?q = "ip_prefix_of (ipv4_address 0xC0000000) 2"
  let ?t = "fold ip_update [(?p, Some (7 :: nat)), (?q, Some 8)] btree_ip_empty"
  have "ip_inv ?t" by (simp add: ip_update_def ip_inv_insert ip_empty ip_mask_ok_def ip_prefix_of_def)
  moreover have lt: "1 < ip_prefix_mask ?q" and some: "ip_get ?t (ip_prefix_of (ip_prefix_address ?q) 1) \<noteq> None"
    by code_simp+
  moreover have "?q \<notin> set (ip_get_all_top ?t)"
  proof
    assume "?q \<in> set (ip_get_all_top ?t)"
    from btree_get_all_top_exact [OF \<open>ip_inv ?t\<close>, THEN iffD1, OF this, THEN conjunct2, THEN conjunct2,
        THEN spec, THEN mp, OF lt] some
    show False by contradiction
  qed
  ultimately show ?thesis unfolding Let_def by (simp only: simp_thms)
qed

end
