(* ===== verification/Lpm4.thy ===== *)
theory Lpm4
  imports Prelude
begin

text \<open>
  The IPv4 forwarding table \<^verbatim>\<open>lpm4_24bit_8bit_atomic\<close> of \<^verbatim>\<open>src/dataplane/lpm.h\<close>: a root chunk indexed by
  the upper 24 bits of the address, whose entries are empty, valid or refer to one of a pool of
  extended chunks indexed by the last octet.  Unused chunks form a free list linked through their
  entry 0, headed by \<^verbatim>\<open>stats.free_chunk_cache\<close>.  The pointer \<^verbatim>\<open>needWait\<close> is a field of the state, holding
  the value the code writes through it.  An array is a function of its index; the loops over a range
  of entries are folds over the list of their counters.
\<close>

section \<open>Data\<close>

text \<open>\<^verbatim>\<open>tEntry\<close>: 8 bits of flags and 24 bits that the union names \<^verbatim>\<open>valueId\<close> and \<^verbatim>\<open>extendedChunkId\<close>.\<close>

record tEntry =
  flags :: u8
  valueId :: "24 word"

definition atomic :: "tEntry \<Rightarrow> u32" where
  "atomic e = push_bit 8 (ucast (valueId e)) OR ucast (flags e)"

abbreviation extendedChunkId :: "tEntry \<Rightarrow> u32" where
  "extendedChunkId e \<equiv> ucast (valueId e)"

definition zero_entry :: tEntry where
  "zero_entry = \<lparr>flags = 0, valueId = 0\<rparr>"

definition lpmValueIdInvalid :: u32 where
  "lpmValueIdInvalid = 0xFFFFFFFF"

definition flagExtended :: u8 where "flagExtended = push_bit 0 1"
definition flagValid :: u8 where "flagValid = push_bit 1 1"
definition flagExtendedChunkOccupied :: u8 where "flagExtendedChunkOccupied = push_bit 7 1"

record stats_t =
  extended_chunks_count :: u64
  extended_chunks_size :: u64
  max_used_chunk_id :: u32
  free_chunk_cache :: tEntry

type_synonym tChunk8 = "u8 \<Rightarrow> tEntry"
type_synonym tChunk24 = "u32 \<Rightarrow> tEntry"

record lpm4 =
  stats :: stats_t
  rootChunk :: tChunk24
  extendedChunks :: "u32 \<Rightarrow> tChunk8"
  needWait :: bool

definition stats_clear :: "stats_t \<Rightarrow> stats_t" where
  "stats_clear s = s\<lparr>extended_chunks_count := 0, max_used_chunk_id := 0,
     free_chunk_cache := (free_chunk_cache s)\<lparr>flags := 0\<rparr>\<rparr>"

section \<open>Chunks and entries\<close>

definition occupied_chunk :: tChunk8 where
  "occupied_chunk =
     (let chunk = (\<lambda>_. zero_entry)
      in chunk(0 := (chunk 0)\<lparr>flags := flags (chunk 0) OR flagExtendedChunkOccupied\<rparr>))"

definition newExtendedChunk :: "lpm4 \<Rightarrow> (lpm4 \<times> u32) option" where
  "newExtendedChunk t =
     (let s = stats t in
      if flags (free_chunk_cache s) AND flagExtended \<noteq> 0 then
        let chunk_id = extendedChunkId (free_chunk_cache s);
            chunk = extendedChunks t chunk_id;
            s = s\<lparr>free_chunk_cache := \<lparr>flags = flags (chunk 0), valueId = valueId (chunk 0)\<rparr>\<rparr>
        in Some (t\<lparr>extendedChunks := (extendedChunks t)(chunk_id := occupied_chunk),
                   stats := s\<lparr>extended_chunks_count := extended_chunks_count s + 1\<rparr>\<rparr>, chunk_id)
      else if ucast (max_used_chunk_id s) < extended_chunks_size s then
        let chunk_id = max_used_chunk_id s
        in Some (t\<lparr>extendedChunks := (extendedChunks t)(chunk_id := occupied_chunk),
                   stats := s\<lparr>max_used_chunk_id := max_used_chunk_id s + 1,
                              extended_chunks_count := extended_chunks_count s + 1\<rparr>\<rparr>, chunk_id)
      else None)"

definition freeExtendedChunk :: "lpm4 \<Rightarrow> u32 \<Rightarrow> lpm4" where
  "freeExtendedChunk t chunk_id =
     (let s = stats t;
          chunk = extendedChunks t chunk_id;
          chunk = chunk(0 := \<lparr>flags = flags (free_chunk_cache s), valueId = valueId (free_chunk_cache s)\<rparr>)
      in t\<lparr>extendedChunks := (extendedChunks t)(chunk_id := chunk),
           stats := s\<lparr>free_chunk_cache := \<lparr>flags = flagExtended, valueId = ucast chunk_id\<rparr>,
                      extended_chunks_count := extended_chunks_count s - 1\<rparr>\<rparr>)"

definition updateEntry :: "tEntry \<Rightarrow> u8 \<Rightarrow> u32 \<Rightarrow> tEntry" where
  "updateEntry entry fl val =
     \<lparr>flags = (fl AND NOT flagExtendedChunkOccupied) OR (flags entry AND flagExtendedChunkOccupied),
      valueId = ucast val\<rparr>"

definition updateAllEntries :: "tChunk8 \<Rightarrow> tEntry \<Rightarrow> tChunk8" where
  "updateAllEntries chunk entry =
     (let flag = flags (chunk 0) AND flagExtendedChunkOccupied;
          newEntry = entry\<lparr>flags := flags entry AND NOT flagExtendedChunkOccupied\<rparr>;
          chunk = (\<lambda>_. newEntry)
      in chunk(0 := (chunk 0)\<lparr>flags := flags (chunk 0) OR flag\<rparr>))"

section \<open>Insertion and removal\<close>

definition set_chunk_entry :: "u8 \<Rightarrow> u8 \<Rightarrow> u32 \<Rightarrow> tChunk8 \<Rightarrow> tChunk8" where
  "set_chunk_entry entry_i fl val chunk = chunk(entry_i := updateEntry (chunk entry_i) fl val)"

definition insertStep2 :: "u32 \<Rightarrow> u8 \<Rightarrow> u32 \<Rightarrow> tChunk8 \<Rightarrow> eResult \<times> tChunk8" where
  "insertStep2 ipAddress msk val chunk =
     (success, fold (\<lambda>mask_i. set_chunk_entry (ucast (ipAddress AND 0xFF) + of_nat mask_i) flagValid val)
        [0..<2 ^ (8 - unat msk)] chunk)"

definition removeStep2 :: "u32 \<Rightarrow> u8 \<Rightarrow> tChunk8 \<Rightarrow> eResult \<times> tChunk8" where
  "removeStep2 ipAddress msk chunk =
     (success, fold (\<lambda>mask_i. set_chunk_entry (ucast (ipAddress AND 0xFF) + of_nat mask_i) 0 0)
        [0..<2 ^ (8 - unat msk)] chunk)"

text \<open>The body of the loops over root entries: an extended entry gives its chunk back.\<close>

definition set_root_entry :: "u32 \<Rightarrow> u8 \<Rightarrow> u32 \<Rightarrow> lpm4 \<Rightarrow> lpm4" where
  "set_root_entry entry_i fl val t =
     (let entry = rootChunk t entry_i;
          t' = t\<lparr>rootChunk := (rootChunk t)(entry_i := updateEntry entry fl val)\<rparr>
      in if flags entry AND flagExtended \<noteq> 0
         then (freeExtendedChunk t' (extendedChunkId entry))\<lparr>needWait := True\<rparr>
         else t')"

text \<open>The scan of an extended chunk before it is merged into its root entry.\<close>

definition chunk_all :: "(tEntry \<Rightarrow> bool) \<Rightarrow> tChunk8 \<Rightarrow> bool" where
  "chunk_all P chunk = list_all (\<lambda>i. P (chunk (of_nat i))) [0..<256]"

definition insertStep1 :: "u32 \<Rightarrow> u8 \<Rightarrow> u32 \<Rightarrow> lpm4 \<Rightarrow> eResult \<times> lpm4" where
  "insertStep1 ipAddress msk val t =
     (if msk > 24 then
        let entry_i = drop_bit 8 ipAddress;
            entry = rootChunk t entry_i
        in if flags entry AND flagExtended \<noteq> 0 then
             let chunk_id = extendedChunkId entry;
                 (result, chunk) = insertStep2 ipAddress (msk - 24) val (extendedChunks t chunk_id);
                 t = t\<lparr>extendedChunks := (extendedChunks t)(chunk_id := chunk)\<rparr>
             in if result \<noteq> success then (result, t)
                else if chunk_all (\<lambda>e. flags e AND flagValid \<noteq> 0 \<and> ucast (valueId e) = val) chunk
                then let t = t\<lparr>rootChunk := (rootChunk t)(entry_i := updateEntry entry flagValid val)\<rparr>
                     in (success, (freeExtendedChunk t chunk_id)\<lparr>needWait := True\<rparr>)
                else (success, t)
           else if flags entry AND flagValid \<noteq> 0 \<and> ucast (valueId entry) = val then (success, t)
           else case newExtendedChunk t of
                  None \<Rightarrow> (isFull, t)
                | Some (t, chunk_id) \<Rightarrow>
                    let chunk = updateAllEntries (extendedChunks t chunk_id) entry;
                        (result, chunk) = insertStep2 ipAddress (msk - 24) val chunk;
                        t = t\<lparr>extendedChunks := (extendedChunks t)(chunk_id := chunk)\<rparr>
                    in if result \<noteq> success then (result, freeExtendedChunk t chunk_id)
                       else (success,
                             t\<lparr>rootChunk := (rootChunk t)(entry_i := updateEntry entry flagExtended chunk_id)\<rparr>)
      else (success, fold (\<lambda>mask_i. set_root_entry (drop_bit 8 ipAddress + of_nat mask_i) flagValid val)
              [0..<2 ^ (24 - unat msk)] t))"

definition removeStep1 :: "u32 \<Rightarrow> u8 \<Rightarrow> lpm4 \<Rightarrow> eResult \<times> lpm4" where
  "removeStep1 ipAddress msk t =
     (if msk > 24 then
        let entry_i = drop_bit 8 ipAddress;
            entry = rootChunk t entry_i
        in if flags entry AND flagExtended \<noteq> 0 then
             let chunk_id = extendedChunkId entry;
                 (result, chunk) = removeStep2 ipAddress (msk - 24) (extendedChunks t chunk_id);
                 t = t\<lparr>extendedChunks := (extendedChunks t)(chunk_id := chunk)\<rparr>
             in if result \<noteq> success then (result, t)
                else if chunk_all (\<lambda>e. flags e AND (flagExtended OR flagValid) = 0) chunk
                then let t = t\<lparr>rootChunk := (rootChunk t)(entry_i := updateEntry entry 0 0)\<rparr>
                     in (success, (freeExtendedChunk t chunk_id)\<lparr>needWait := True\<rparr>)
                else (success, t)
           else if flags entry AND flagValid \<noteq> 0 then
             (case newExtendedChunk t of
                None \<Rightarrow> (isFull, t)
              | Some (t, chunk_id) \<Rightarrow>
                  let chunk = updateAllEntries (extendedChunks t chunk_id) entry;
                      (result, chunk) = removeStep2 ipAddress (msk - 24) chunk;
                      t = t\<lparr>extendedChunks := (extendedChunks t)(chunk_id := chunk)\<rparr>
                  in if result \<noteq> success then (result, freeExtendedChunk t chunk_id)
                     else (success,
                           t\<lparr>rootChunk := (rootChunk t)(entry_i := updateEntry entry flagExtended chunk_id)\<rparr>))
           else (success, t)
      else (success, fold (\<lambda>mask_i. set_root_entry (drop_bit 8 ipAddress + of_nat mask_i) 0 0)
              [0..<2 ^ (24 - unat msk)] t))"

definition lpm4_insert :: "lpm4 \<Rightarrow> u32 \<Rightarrow> u8 \<Rightarrow> u32 \<Rightarrow> eResult \<times> lpm4" where
  "lpm4_insert t ipAddress msk val =
     (if msk > 32 \<or> val AND 0xFF000000 \<noteq> 0 then (invalidArguments, t)
      else insertStep1 ipAddress msk val (t\<lparr>needWait := False\<rparr>))"

definition lpm4_remove :: "lpm4 \<Rightarrow> u32 \<Rightarrow> u8 \<Rightarrow> eResult \<times> lpm4" where
  "lpm4_remove t ipAddress msk =
     (if msk > 32 then (invalidArguments, t) else removeStep1 ipAddress msk (t\<lparr>needWait := False\<rparr>))"

definition lpm4_clear :: "lpm4 \<Rightarrow> lpm4" where
  "lpm4_clear t = t\<lparr>rootChunk := (\<lambda>i. if i < 0x1000000 then zero_entry else rootChunk t i)\<rparr>"

section \<open>Lookup\<close>

text \<open>The body of the loop of \<^verbatim>\<open>lookup\<close> for one address, in network byte order.\<close>

definition lookup_one :: "lpm4 \<Rightarrow> u32 \<Rightarrow> u32" where
  "lookup_one t ipAddress =
     (let entry = rootChunk t (drop_bit 8 (be_to_cpu_32 ipAddress))
      in if flags entry AND flagValid \<noteq> 0 then drop_bit 8 (atomic entry)
         else if flags entry AND flagExtended \<noteq> 0
         then let entry = extendedChunks t (drop_bit 8 (atomic entry)) (ucast (drop_bit 24 ipAddress))
              in if flags entry AND flagValid \<noteq> 0 then drop_bit 8 (atomic entry) else lpmValueIdInvalid
         else lpmValueIdInvalid)"

definition lpm4_lookup_burst :: "lpm4 \<Rightarrow> u32 list \<Rightarrow> u32 list" where
  "lpm4_lookup_burst t ipAddresses = map (lookup_one t) ipAddresses"

definition lpm4_lookup :: "lpm4 \<Rightarrow> u32 \<Rightarrow> bool \<times> u32" where
  "lpm4_lookup t ipAddress =
     (let lvalueId = hd (lpm4_lookup_burst t [ipAddress])
      in (lvalueId \<noteq> lpmValueIdInvalid, lvalueId))"

section \<open>Flags\<close>

definition is_ext :: "tEntry \<Rightarrow> bool" where "is_ext e = bit (flags e) 0"
definition is_val :: "tEntry \<Rightarrow> bool" where "is_val e = bit (flags e) 1"

lemma tEntry_eta [simp]: "\<lparr>flags = flags e, valueId = valueId e\<rparr> = e"
  by simp

lemma flag_tests:
  "flags e AND flagExtended \<noteq> 0 \<longleftrightarrow> is_ext e"
  "flags e AND flagValid \<noteq> 0 \<longleftrightarrow> is_val e"
  "flags e AND (flagExtended OR flagValid) = 0 \<longleftrightarrow> \<not> is_ext e \<and> \<not> is_val e"
proof -
  have E: "(flags e AND flagExtended = 0) \<longleftrightarrow> \<not> is_ext e"
    using and_exp_eq_0_iff_not_bit [of "flags e" 0] by (simp add: flagExtended_def is_ext_def)
  have V: "(flags e AND flagValid = 0) \<longleftrightarrow> \<not> is_val e"
    using and_exp_eq_0_iff_not_bit [of "flags e" 1] by (simp add: flagValid_def is_val_def push_bit_eq_mult)
  have "flags e AND (flagExtended OR flagValid) = (flags e AND flagExtended) OR (flags e AND flagValid)"
    by (rule bit.conj_disj_distrib)
  then show "flags e AND (flagExtended OR flagValid) = 0 \<longleftrightarrow> \<not> is_ext e \<and> \<not> is_val e"
    using E V by (simp add: or_eq_0_iff)
  show "flags e AND flagExtended \<noteq> 0 \<longleftrightarrow> is_ext e" "flags e AND flagValid \<noteq> 0 \<longleftrightarrow> is_val e"
    using E V by simp_all
qed

lemma flag_bits [simp]:
  "bit flagExtended n \<longleftrightarrow> n = 0" "bit flagValid n \<longleftrightarrow> n = 1" "bit flagExtendedChunkOccupied n \<longleftrightarrow> n = 7"
  unfolding flagExtended_def flagValid_def flagExtendedChunkOccupied_def bit_push_bit_iff bit_1_iff by auto

lemma updateEntry_sel [simp]:
  "is_ext (updateEntry e fl v) = bit fl 0" "is_val (updateEntry e fl v) = bit fl 1"
  "valueId (updateEntry e fl v) = ucast v"
  by (auto simp: updateEntry_def is_ext_def is_val_def bit_or_iff bit_and_iff bit_not_iff)

lemma zero_entry_sel [simp]: "\<not> is_ext zero_entry" "\<not> is_val zero_entry"
  by (simp_all add: zero_entry_def is_ext_def is_val_def)

lemma updateAllEntries_sel [simp]:
  "is_ext (updateAllEntries chunk e i) = is_ext e" "is_val (updateAllEntries chunk e i) = is_val e"
  "valueId (updateAllEntries chunk e i) = valueId e"
  by (auto simp: updateAllEntries_def Let_def is_ext_def is_val_def bit_or_iff bit_and_iff bit_not_iff)

lemma chunk_id_round_trip: "i < 0x1000000 \<Longrightarrow> ucast (ucast i :: 24 word) = i" for i :: u32
proof (rule bit_word_eqI)
  fix n assume i: "i < 0x1000000" and n: "n < LENGTH(32)"
  have "\<not> bit i n" if "24 \<le> n"
  proof -
    have "unat i < 2 ^ 24" using i by (simp add: word_less_nat_alt)
    also have "(2 :: nat) ^ 24 \<le> 2 ^ n" using that by (rule power_increasing) simp
    finally have "unat i div 2 ^ n = 0" by simp
    then have "unat (drop_bit n i) = 0" by (simp only: unat_drop_bit)
    then have "drop_bit n i = 0" by (simp add: unat_eq_zero)
    then have "\<not> bit (drop_bit n i) 0" by simp
    then show ?thesis by (simp add: bit_drop_bit_eq)
  qed
  then show "bit (ucast (ucast i :: 24 word) :: u32) n = bit i n"
    using n by (cases "24 \<le> n") (auto simp: bit_ucast_iff)
qed

lemma atomic_value: "drop_bit 8 (atomic e) = ucast (valueId e)"
proof (rule bit_word_eqI)
  fix n assume "n < LENGTH(32)"
  moreover have "\<not> bit (flags e) (8 + n)" using bit_imp_le_length [of "flags e" "8 + n"] by auto
  moreover have "bit (valueId e) n \<Longrightarrow> n < 24" using bit_imp_le_length [of "valueId e" n] by simp
  ultimately show "bit (drop_bit 8 (atomic e)) n = bit (ucast (valueId e) :: u32) n"
    by (auto simp: atomic_def bit_drop_bit_eq bit_or_iff bit_push_bit_iff bit_ucast_iff)
qed

lemma byte_mask: "w AND 0xFF = take_bit 8 w" for w :: u32
  by (simp add: take_bit_eq_mask mask_eq_exp_minus_1)

lemma bit_be_to_cpu_32:
  assumes "k < 4" and "r < 8"
  shows "bit (be_to_cpu_32 w) (8 * k + r) = bit w (8 * (3 - k) + r)"
proof -
  have out: "\<not> bit w (24 + (8 * k + r))" if "k > 0"
    using that bit_imp_le_length [of w "24 + (8 * k + r)"] by auto
  note bits = be_to_cpu_32_def byte_mask bit_or_iff bit_push_bit_iff bit_take_bit_iff bit_drop_bit_eq comp_apply
  consider "k = 0" | "k = 1" | "k = 2" | "k = 3" using assms(1) by linarith
  then show ?thesis
    unfolding bits using assms(2) out by cases simp_all
qed

lemma be_to_cpu_32_involutive: "be_to_cpu_32 (be_to_cpu_32 w) = w"
proof (rule bit_word_eqI)
  fix n assume "n < LENGTH(32)"
  then have n: "n div 8 < 4" "n mod 8 < 8" "n = 8 * (n div 8) + n mod 8" by auto
  then show "bit (be_to_cpu_32 (be_to_cpu_32 w)) n = bit w n"
    using bit_be_to_cpu_32 [of "n div 8" "n mod 8"] bit_be_to_cpu_32 [of "3 - n div 8" "n mod 8"] by simp
qed

lemma be_last_octet: "ucast (drop_bit 24 w) = (ucast (be_to_cpu_32 w) :: u8)"
proof (rule bit_word_eqI)
  fix n assume "n < LENGTH(8)"
  then show "bit (ucast (drop_bit 24 w) :: u8) n = bit (ucast (be_to_cpu_32 w) :: u8) n"
    using bit_be_to_cpu_32 [of 0 n w] by (simp add: bit_ucast_iff bit_drop_bit_eq)
qed

section \<open>The abstract table and the invariant\<close>

definition entry_val :: "tEntry \<Rightarrow> u32 option" where
  "entry_val e = (if is_val e then Some (ucast (valueId e)) else None)"

text \<open>The value the table holds for an address in host byte order.\<close>

definition lpm4_value :: "lpm4 \<Rightarrow> u32 \<Rightarrow> u32 option" where
  "lpm4_value t a =
     (let e = rootChunk t (drop_bit 8 a)
      in if is_val e then Some (ucast (valueId e))
         else if is_ext e then entry_val (extendedChunks t (extendedChunkId e) (ucast a)) else None)"

lemma lookup_one_value:
  "lookup_one t ip = (case lpm4_value t (be_to_cpu_32 ip) of Some v \<Rightarrow> v | None \<Rightarrow> lpmValueIdInvalid)"
  by (simp add: lookup_one_def lpm4_value_def Let_def flag_tests atomic_value be_last_octet entry_val_def)

fun free_chain :: "(u32 \<Rightarrow> tChunk8) \<Rightarrow> tEntry \<Rightarrow> u32 list \<Rightarrow> bool" where
  "free_chain ext e [] = (\<not> is_ext e)"
| "free_chain ext e (i # is) = (is_ext e \<and> extendedChunkId e = i \<and> free_chain ext (ext i 0) is)"

definition ext_idx :: "lpm4 \<Rightarrow> u32 set" where
  "ext_idx t = {i. i < 0x1000000 \<and> is_ext (rootChunk t i)}"

definition used :: "lpm4 \<Rightarrow> u32 set" where
  "used t = (\<lambda>i. extendedChunkId (rootChunk t i)) ` ext_idx t"

text \<open>
  Every chunk number below \<^verbatim>\<open>max_used_chunk_id\<close> is either referenced by exactly one root entry or on
  the free list, \<^verbatim>\<open>extended_chunks_count\<close> counts the referenced ones, and entries of extended chunks
  never refer to further chunks.
\<close>

definition lpm4_inv_with :: "u32 list \<Rightarrow> lpm4 \<Rightarrow> bool" where
  "lpm4_inv_with fl t =
     (free_chain (extendedChunks t) (free_chunk_cache (stats t)) fl \<and> distinct fl \<and>
      inj_on (\<lambda>i. extendedChunkId (rootChunk t i)) (ext_idx t) \<and>
      used t \<inter> set fl = {} \<and> used t \<union> set fl = {i. i < max_used_chunk_id (stats t)} \<and>
      unat (max_used_chunk_id (stats t)) \<le> unat (extended_chunks_size (stats t)) \<and>
      unat (max_used_chunk_id (stats t)) \<le> 2 ^ 24 \<and>
      extended_chunks_count (stats t) = of_nat (card (ext_idx t)) \<and>
      (\<forall>i \<in> used t. \<forall>j. \<not> is_ext (extendedChunks t i j)) \<and>
      (\<forall>i \<in> ext_idx t. \<not> is_val (rootChunk t i)))"

definition lpm4_inv :: "lpm4 \<Rightarrow> bool" where
  "lpm4_inv t = (\<exists>fl. lpm4_inv_with fl t)"

lemma free_chain_cong: "(\<And>i. i \<in> set fl \<Longrightarrow> ext' i 0 = ext i 0) \<Longrightarrow> free_chain ext' e fl = free_chain ext e fl"
  by (induction fl arbitrary: e) auto

lemma root_index: "drop_bit 8 a < (0x1000000 :: u32)"
proof -
  have "unat (drop_bit 8 a) < 2 ^ 24"
    using unsigned_less [of a, where ?'a = nat] by (simp add: unat_drop_bit less_mult_imp_div_less)
  then show ?thesis by (simp add: word_less_nat_alt)
qed

lemma inv_id_less: "lpm4_inv_with fl t \<Longrightarrow> i \<in> used t \<union> set fl \<Longrightarrow> i < 0x1000000"
proof -
  assume inv: "lpm4_inv_with fl t" and "i \<in> used t \<union> set fl"
  then have "i < max_used_chunk_id (stats t)" by (auto simp: lpm4_inv_with_def)
  moreover have "unat (max_used_chunk_id (stats t)) \<le> 2 ^ 24" using inv by (simp add: lpm4_inv_with_def)
  ultimately show ?thesis by (simp add: word_less_nat_alt)
qed

lemma inv_needWait [simp]: "lpm4_inv_with fl (t\<lparr>needWait := b\<rparr>) = lpm4_inv_with fl t"
  by (simp add: lpm4_inv_with_def used_def ext_idx_def)

lemma value_needWait [simp]: "lpm4_value (t\<lparr>needWait := b\<rparr>) = lpm4_value t"
  by (simp add: lpm4_value_def fun_eq_iff Let_def)

lemma finite_ext_idx [simp]: "finite (ext_idx t)"
  by simp

text \<open>The four ways in which the operations change the structure.\<close>

lemma release_chunk:
  assumes inv: "lpm4_inv_with fl t" and i: "i \<in> ext_idx t" and e': "\<not> is_ext e'"
  defines "cid \<equiv> extendedChunkId (rootChunk t i)"
  defines "t' \<equiv> freeExtendedChunk (t\<lparr>rootChunk := (rootChunk t)(i := e')\<rparr>) cid"
  shows "lpm4_inv_with (cid # fl) t'"
    and "lpm4_value t' a = (if drop_bit 8 a = i then entry_val e' else lpm4_value t a)"
proof -
  have cid: "cid \<in> used t" using i by (auto simp: used_def cid_def)
  have lt: "cid < 0x1000000" using inv_id_less [OF inv] cid by blast
  have nfl: "cid \<notin> set fl" using inv cid by (auto simp: lpm4_inv_with_def)
  have inj: "inj_on (\<lambda>i. extendedChunkId (rootChunk t i)) (ext_idx t)" using inv by (simp add: lpm4_inv_with_def)
  have idx: "ext_idx t' = ext_idx t - {i}"
    using e' by (auto simp: ext_idx_def t'_def freeExtendedChunk_def Let_def)
  have root: "rootChunk t' = (rootChunk t)(i := e')"
    by (simp add: t'_def freeExtendedChunk_def Let_def)
  have ext: "extendedChunks t' j = extendedChunks t j" if "j \<noteq> cid" for j
    using that by (simp add: t'_def freeExtendedChunk_def Let_def)
  have used: "used t' = used t - {cid}"
  proof -
    have "used t' = (\<lambda>i. extendedChunkId (rootChunk t i)) ` (ext_idx t - {i})"
      by (auto simp: used_def idx root)
    also have "\<dots> = used t - (\<lambda>i. extendedChunkId (rootChunk t i)) ` {i}"
      unfolding used_def using inj i by (intro inj_on_image_set_diff) auto
    finally show ?thesis by (simp add: cid_def)
  qed
  have inj': "inj_on (\<lambda>i. extendedChunkId (rootChunk t' i)) (ext_idx t')"
  proof -
    have "inj_on (\<lambda>i. extendedChunkId (rootChunk t i)) (ext_idx t - {i})"
      using inj by (rule inj_on_subset) auto
    then show ?thesis by (auto simp: idx root inj_on_def)
  qed
  have chain: "free_chain (extendedChunks t') (free_chunk_cache (stats t')) (cid # fl)"
  proof -
    have "free_chain (extendedChunks t') (free_chunk_cache (stats t)) fl =
        free_chain (extendedChunks t) (free_chunk_cache (stats t)) fl"
      using nfl ext by (intro free_chain_cong) metis
    then have "free_chain (extendedChunks t') (free_chunk_cache (stats t)) fl"
      using inv by (simp add: lpm4_inv_with_def)
    then show ?thesis
      using chunk_id_round_trip [OF lt] by (simp add: t'_def freeExtendedChunk_def Let_def is_ext_def)
  qed
  have count: "extended_chunks_count (stats t') = of_nat (card (ext_idx t'))"
  proof -
    have "card (ext_idx t) = Suc (card (ext_idx t'))"
      unfolding idx by (simp only: card_Suc_Diff1 [OF finite_ext_idx i])
    moreover have "extended_chunks_count (stats t') = extended_chunks_count (stats t) - 1"
      by (simp add: t'_def freeExtendedChunk_def Let_def)
    moreover have "extended_chunks_count (stats t) = of_nat (card (ext_idx t))"
      using inv by (simp add: lpm4_inv_with_def)
    ultimately show ?thesis by simp
  qed
  show "lpm4_inv_with (cid # fl) t'"
    unfolding lpm4_inv_with_def
  proof (intro conjI)
    show "used t' \<union> set (cid # fl) = {i. i < max_used_chunk_id (stats t')}"
      using inv cid used by (auto simp: lpm4_inv_with_def t'_def freeExtendedChunk_def Let_def)
    show "\<forall>i \<in> used t'. \<forall>j. \<not> is_ext (extendedChunks t' i j)"
      using inv ext unfolding used by (auto simp: lpm4_inv_with_def)
    show "\<forall>i \<in> ext_idx t'. \<not> is_val (rootChunk t' i)"
      using inv unfolding idx root by (auto simp: lpm4_inv_with_def)
    show "used t' \<inter> set (cid # fl) = {}" using inv used by (auto simp: lpm4_inv_with_def)
  qed (use inv nfl chain inj' count in \<open>auto simp: lpm4_inv_with_def t'_def freeExtendedChunk_def Let_def\<close>)
  have other: "extendedChunkId (rootChunk t (drop_bit 8 a)) \<noteq> cid" if "drop_bit 8 a \<noteq> i" "is_ext (rootChunk t (drop_bit 8 a))"
    using that inj i root_index [of a] by (auto simp: cid_def inj_on_def ext_idx_def)
  show "lpm4_value t' a = (if drop_bit 8 a = i then entry_val e' else lpm4_value t a)"
    using e' other by (auto simp: lpm4_value_def root ext entry_val_def Let_def)
qed

text \<open>When the free list is empty and some root entry is not extended, a chunk number is left.\<close>

lemma max_used_less:
  assumes "lpm4_inv_with [] t" and "i < 0x1000000" and "\<not> is_ext (rootChunk t i)"
  shows "unat (max_used_chunk_id (stats t)) < 2 ^ 24"
proof -
  have "unat (max_used_chunk_id (stats t)) = card (used t)"
    using assms(1) card_words_below [of "max_used_chunk_id (stats t)"] by (simp add: lpm4_inv_with_def)
  also have "\<dots> \<le> card (ext_idx t)" unfolding used_def by (rule card_image_le) simp
  also have "\<dots> < card {i :: u32. i < 0x1000000}"
    using assms(2,3) by (intro psubset_card_mono) (auto simp: ext_idx_def)
  also have "\<dots> = 2 ^ 24" by (simp add: card_words_below)
  finally show ?thesis .
qed

lemma acquire_chunk_new:
  assumes inv: "lpm4_inv_with fl t" and new: "newExtendedChunk t = Some (t1, cid)"
    and i: "i < 0x1000000" "\<not> is_ext (rootChunk t i)"
  shows "\<exists>fl'. free_chain (extendedChunks t1) (free_chunk_cache (stats t1)) fl' \<and> distinct fl' \<and>
      cid \<notin> set fl' \<and> cid \<notin> used t \<and> cid < 0x1000000 \<and> used t \<inter> set fl' = {} \<and>
      insert cid (used t \<union> set fl') = {i. i < max_used_chunk_id (stats t1)} \<and>
      unat (max_used_chunk_id (stats t1)) \<le> unat (extended_chunks_size (stats t1)) \<and>
      unat (max_used_chunk_id (stats t1)) \<le> 2 ^ 24"
    and "rootChunk t1 = rootChunk t" and "\<And>j. j \<noteq> cid \<Longrightarrow> extendedChunks t1 j = extendedChunks t j"
    and "extended_chunks_size (stats t1) = extended_chunks_size (stats t)"
    and "extended_chunks_count (stats t1) = extended_chunks_count (stats t) + 1"
proof -
  let ?c = "free_chunk_cache (stats t)"
  show "rootChunk t1 = rootChunk t" "\<And>j. j \<noteq> cid \<Longrightarrow> extendedChunks t1 j = extendedChunks t j"
    "extended_chunks_size (stats t1) = extended_chunks_size (stats t)"
    "extended_chunks_count (stats t1) = extended_chunks_count (stats t) + 1"
    using new by (auto simp: newExtendedChunk_def Let_def split: if_splits)
  have chain: "free_chain (extendedChunks t) ?c fl" and dist: "distinct fl"
    and disj: "used t \<inter> set fl = {}" and un: "used t \<union> set fl = {i. i < max_used_chunk_id (stats t)}"
    and le: "unat (max_used_chunk_id (stats t)) \<le> unat (extended_chunks_size (stats t))"
    and sz: "unat (max_used_chunk_id (stats t)) \<le> 2 ^ 24"
    using inv by (auto simp: lpm4_inv_with_def)
  show "\<exists>fl'. free_chain (extendedChunks t1) (free_chunk_cache (stats t1)) fl' \<and> distinct fl' \<and>
      cid \<notin> set fl' \<and> cid \<notin> used t \<and> cid < 0x1000000 \<and> used t \<inter> set fl' = {} \<and>
      insert cid (used t \<union> set fl') = {i. i < max_used_chunk_id (stats t1)} \<and>
      unat (max_used_chunk_id (stats t1)) \<le> unat (extended_chunks_size (stats t1)) \<and>
      unat (max_used_chunk_id (stats t1)) \<le> 2 ^ 24"
  proof (cases "is_ext ?c")
    case True
    then obtain fl' where fl: "fl = cid # fl'"
      using chain new by (cases fl) (auto simp: newExtendedChunk_def Let_def flag_tests)
    have t1: "t1 = t\<lparr>extendedChunks := (extendedChunks t)(cid := occupied_chunk),
        stats := (stats t)\<lparr>free_chunk_cache := extendedChunks t cid 0,
          extended_chunks_count := extended_chunks_count (stats t) + 1\<rparr>\<rparr>"
      using True new by (auto simp: newExtendedChunk_def Let_def flag_tests)
    have "free_chain (extendedChunks t1) (extendedChunks t cid 0) fl'"
      using chain dist unfolding fl t1
      by (subst free_chain_cong [where ext = "extendedChunks t"]) auto
    moreover have "cid < 0x1000000" using inv_id_less [OF inv, of cid] fl by auto
    ultimately show ?thesis
      using dist disj un le sz unfolding fl by (intro exI [of _ fl']) (auto simp: t1)
  next
    case False
    then have fl: "fl = []" using chain by (cases fl) auto
    have lt: "ucast (max_used_chunk_id (stats t)) < extended_chunks_size (stats t)"
      and cid: "cid = max_used_chunk_id (stats t)"
      and m1: "max_used_chunk_id (stats t1) = max_used_chunk_id (stats t) + 1"
      and c1: "free_chunk_cache (stats t1) = ?c" "extended_chunks_size (stats t1) = extended_chunks_size (stats t)"
      using False new by (auto simp: newExtendedChunk_def Let_def flag_tests split: if_splits)
    have "unat (max_used_chunk_id (stats t)) < unat (extended_chunks_size (stats t))"
      using lt by (simp add: word_less_nat_alt unat_ucast_up)
    moreover have lt24: "unat (max_used_chunk_id (stats t)) < 2 ^ 24"
      using max_used_less inv i unfolding fl by blast
    moreover from this have "unat (max_used_chunk_id (stats t) + 1) = unat (max_used_chunk_id (stats t)) + 1"
      by (simp add: unat_word_ariths)
    moreover have "insert cid (used t) = {i. i < max_used_chunk_id (stats t) + 1}"
    proof -
      have "i < max_used_chunk_id (stats t) + 1 \<longleftrightarrow> i = max_used_chunk_id (stats t) \<or> i < max_used_chunk_id (stats t)" for i
        using calculation(3) by (simp only: word_less_nat_alt word_unat_eq_iff) linarith
      then show ?thesis using un fl unfolding cid by auto
    qed
    ultimately show ?thesis
      using False un fl unfolding cid c1 m1
      by (intro exI [of _ "[]"]) (auto simp: word_less_nat_alt)
  qed
qed

lemma acquire_chunk:
  assumes inv: "lpm4_inv_with fl t" and new: "newExtendedChunk t = Some (t1, cid)"
    and i: "i < 0x1000000" "\<not> is_ext (rootChunk t i)"
    and e': "is_ext e'" "\<not> is_val e'" "extendedChunkId e' = cid" and chunk: "\<And>j. \<not> is_ext (chunk j)"
  defines "t' \<equiv> t1\<lparr>extendedChunks := (extendedChunks t1)(cid := chunk), rootChunk := (rootChunk t1)(i := e')\<rparr>"
  shows "lpm4_inv t'"
    and "lpm4_value t' a = (if drop_bit 8 a = i then entry_val (chunk (ucast a)) else lpm4_value t a)"
proof -
  note new' = acquire_chunk_new [OF inv new i]
  from new'(1) obtain fl' where fl': "free_chain (extendedChunks t1) (free_chunk_cache (stats t1)) fl'" "distinct fl'"
      "cid \<notin> set fl'" "cid \<notin> used t" "cid < 0x1000000" "used t \<inter> set fl' = {}"
      "insert cid (used t \<union> set fl') = {i. i < max_used_chunk_id (stats t1)}"
      "unat (max_used_chunk_id (stats t1)) \<le> unat (extended_chunks_size (stats t1))"
      "unat (max_used_chunk_id (stats t1)) \<le> 2 ^ 24" by blast
  have inj: "inj_on (\<lambda>i. extendedChunkId (rootChunk t i)) (ext_idx t)" using inv by (simp add: lpm4_inv_with_def)
  have root: "rootChunk t' = (rootChunk t)(i := e')" by (simp add: t'_def new'(2))
  have ext: "extendedChunks t' j = extendedChunks t j" if "j \<noteq> cid" for j using that new'(3) by (simp add: t'_def)
  have nidx: "i \<notin> ext_idx t" using i by (simp add: ext_idx_def)
  have idx: "ext_idx t' = insert i (ext_idx t)" using i e' by (auto simp: ext_idx_def root)
  have used: "used t' = insert cid (used t)"
    using nidx e'(3) by (auto simp: used_def idx root image_iff)
  have "lpm4_inv_with fl' t'"
    unfolding lpm4_inv_with_def
  proof (intro conjI)
    have "free_chain (extendedChunks t') (free_chunk_cache (stats t1)) fl' =
        free_chain (extendedChunks t1) (free_chunk_cache (stats t1)) fl'"
      using fl'(3) by (intro free_chain_cong) (auto simp: t'_def)
    then show "free_chain (extendedChunks t') (free_chunk_cache (stats t')) fl'"
      using fl'(1) by (simp add: t'_def)
    show "inj_on (\<lambda>i. extendedChunkId (rootChunk t' i)) (ext_idx t')"
    proof -
      have "extendedChunkId (rootChunk t' j) = extendedChunkId (rootChunk t j)" if "j \<in> ext_idx t" for j
        using that nidx by (auto simp: root)
      then have "inj_on (\<lambda>j. extendedChunkId (rootChunk t' j)) (ext_idx t)"
        "(\<lambda>j. extendedChunkId (rootChunk t' j)) ` ext_idx t = used t"
        using inj by (simp_all add: used_def cong: inj_on_cong)
      then show ?thesis using nidx fl'(4) e'(3) unfolding idx by (simp add: root)
    qed
    show "extended_chunks_count (stats t') = of_nat (card (ext_idx t'))"
      using inv nidx new'(5) unfolding idx by (simp add: lpm4_inv_with_def t'_def)
    show "\<forall>i \<in> used t'. \<forall>j. \<not> is_ext (extendedChunks t' i j)"
      using inv ext chunk unfolding used by (auto simp: lpm4_inv_with_def t'_def)
    show "\<forall>i \<in> ext_idx t'. \<not> is_val (rootChunk t' i)"
      using inv e' unfolding idx root by (auto simp: lpm4_inv_with_def)
    show "used t' \<union> set fl' = {i. i < max_used_chunk_id (stats t')}"
      using fl'(7) unfolding used by (simp add: t'_def)
    show "used t' \<inter> set fl' = {}" using fl'(3,6) unfolding used by auto
  qed (use fl' in \<open>auto simp: t'_def\<close>)
  then show "lpm4_inv t'" by (auto simp: lpm4_inv_def)
  have other: "extendedChunkId (rootChunk t (drop_bit 8 a)) \<noteq> cid" if "is_ext (rootChunk t (drop_bit 8 a))"
    using that fl'(4) root_index [of a] by (auto simp: used_def ext_idx_def)
  have "extendedChunks t' cid = chunk" by (simp add: t'_def)
  then show "lpm4_value t' a = (if drop_bit 8 a = i then entry_val (chunk (ucast a)) else lpm4_value t a)"
    using e' other ext by (auto simp: lpm4_value_def root entry_val_def Let_def)
qed

lemma modify_chunk:
  assumes inv: "lpm4_inv_with fl t" and i: "i \<in> ext_idx t" and chunk: "\<And>j. \<not> is_ext (chunk j)"
  defines "cid \<equiv> extendedChunkId (rootChunk t i)"
  defines "t' \<equiv> t\<lparr>extendedChunks := (extendedChunks t)(cid := chunk)\<rparr>"
  shows "lpm4_inv_with fl t'"
    and "lpm4_value t' a = (if drop_bit 8 a = i then entry_val (chunk (ucast a)) else lpm4_value t a)"
proof -
  have cid: "cid \<in> used t" using i by (auto simp: used_def cid_def)
  then have nfl: "cid \<notin> set fl" using inv by (auto simp: lpm4_inv_with_def)
  have inj: "inj_on (\<lambda>i. extendedChunkId (rootChunk t i)) (ext_idx t)" using inv by (simp add: lpm4_inv_with_def)
  have idx: "ext_idx t' = ext_idx t" and used: "used t' = used t" by (auto simp: ext_idx_def used_def t'_def)
  have "free_chain (extendedChunks t') (free_chunk_cache (stats t)) fl =
      free_chain (extendedChunks t) (free_chunk_cache (stats t)) fl"
    using nfl by (intro free_chain_cong) (auto simp: t'_def)
  then show "lpm4_inv_with fl t'"
    using inv chunk by (auto simp: lpm4_inv_with_def idx used) (auto simp: t'_def split: if_splits)
  have other: "extendedChunkId (rootChunk t (drop_bit 8 a)) \<noteq> cid" if "drop_bit 8 a \<noteq> i" "is_ext (rootChunk t (drop_bit 8 a))"
    using that inj i root_index [of a] by (auto simp: cid_def inj_on_def ext_idx_def)
  have "is_ext (rootChunk t i)" "\<not> is_val (rootChunk t i)" using inv i by (auto simp: lpm4_inv_with_def ext_idx_def)
  then show "lpm4_value t' a = (if drop_bit 8 a = i then entry_val (chunk (ucast a)) else lpm4_value t a)"
    using other by (auto simp: lpm4_value_def t'_def cid_def Let_def)
qed

lemma modify_root:
  assumes inv: "lpm4_inv_with fl t" and i: "\<not> is_ext (rootChunk t i)" and e': "\<not> is_ext e'"
  defines "t' \<equiv> t\<lparr>rootChunk := (rootChunk t)(i := e')\<rparr>"
  shows "lpm4_inv_with fl t'"
    and "lpm4_value t' a = (if drop_bit 8 a = i then entry_val e' else lpm4_value t a)"
proof -
  have idx: "ext_idx t' = ext_idx t" using i e' by (auto simp: ext_idx_def t'_def)
  have nidx: "i \<notin> ext_idx t" using i by (simp add: ext_idx_def)
  have same: "rootChunk t' j = rootChunk t j" if "j \<in> ext_idx t" for j using that nidx by (auto simp: t'_def)
  have used: "used t' = used t" using same by (auto simp: used_def idx image_iff)
  have "inj_on (\<lambda>i. extendedChunkId (rootChunk t' i)) (ext_idx t)"
    using inv same by (auto simp: lpm4_inv_with_def inj_on_def)
  then show "lpm4_inv_with fl t'"
    using inv same by (auto simp: lpm4_inv_with_def idx used) (auto simp: t'_def)
  show "lpm4_value t' a = (if drop_bit 8 a = i then entry_val e' else lpm4_value t a)"
    using e' by (auto simp: lpm4_value_def t'_def entry_val_def Let_def)
qed

section \<open>Prefixes\<close>

definition prefix_match :: "u32 \<Rightarrow> u8 \<Rightarrow> u32 \<Rightarrow> bool" where
  "prefix_match ip msk a = (drop_bit (32 - unat msk) a = drop_bit (32 - unat msk) ip)"

definition host_bits_zero :: "u32 \<Rightarrow> u8 \<Rightarrow> bool" where
  "host_bits_zero ip msk = (take_bit (32 - unat msk) ip = 0)"

lemma root_index_iff: "i < (0x1000000 :: u32) \<longleftrightarrow> drop_bit 24 i = 0"
proof -
  have "drop_bit 24 i = 0 \<longleftrightarrow> unat (drop_bit 24 i) = 0" by (simp only: unat_eq_zero)
  also have "\<dots> \<longleftrightarrow> unat i < 2 ^ 24" by (simp add: unat_drop_bit div_eq_0_iff)
  also have "\<dots> \<longleftrightarrow> i < 0x1000000" by (simp add: word_less_nat_alt)
  finally show ?thesis ..
qed

lemma root_range:
  assumes "host_bits_zero ip msk" and "msk \<le> 24"
  shows "(\<exists>j < 2 ^ (24 - unat msk). drop_bit 8 a = drop_bit 8 ip + of_nat j) \<longleftrightarrow> prefix_match ip msk a"
    and "j < 2 ^ (24 - unat msk) \<Longrightarrow> drop_bit 8 ip + of_nat j < (0x1000000 :: u32)"
proof -
  define k where "k = 24 - unat msk"
  have m: "unat msk \<le> 24" using assms(2) by (simp add: word_le_nat_alt)
  then have k: "k \<le> 24" "32 - unat msk = 8 + k" by (auto simp: k_def)
  have al: "take_bit k (drop_bit 8 ip) = 0"
  proof (rule bit_word_eqI)
    fix n assume "n < LENGTH(32)"
    have "\<not> bit (take_bit (8 + k) ip) (8 + n)" using assms(1) k by (simp add: host_bits_zero_def)
    then show "bit (take_bit k (drop_bit 8 ip)) n = bit 0 n"
      by (auto simp: bit_take_bit_iff bit_drop_bit_eq)
  qed
  have range: "(\<exists>j < 2 ^ k. x = drop_bit 8 ip + of_nat j) \<longleftrightarrow> drop_bit k x = drop_bit k (drop_bit 8 ip)" for x
    using aligned_range [OF al, of x] k by simp
  show "(\<exists>j < 2 ^ (24 - unat msk). drop_bit 8 a = drop_bit 8 ip + of_nat j) \<longleftrightarrow> prefix_match ip msk a"
    unfolding prefix_match_def k k_def [symmetric] range
    by (simp add: drop_bit_drop_bit add.commute)
  assume "j < 2 ^ (24 - unat msk)"
  then have "drop_bit k (drop_bit 8 ip + of_nat j) = drop_bit k (drop_bit 8 ip)"
    using range [of "drop_bit 8 ip + of_nat j"] unfolding k_def by blast
  then have "drop_bit (24 - k) (drop_bit k (drop_bit 8 ip + of_nat j)) = drop_bit (24 - k) (drop_bit k (drop_bit 8 ip))"
    by simp
  then show "drop_bit 8 ip + of_nat j < (0x1000000 :: u32)"
    using k(1) root_index [of ip] by (simp add: drop_bit_drop_bit root_index_iff)
qed

lemma chunk_range:
  assumes "host_bits_zero ip msk" and "msk > 24" and "msk \<le> 32"
  shows "drop_bit 8 a = drop_bit 8 ip \<and>
      (\<exists>j < 2 ^ (8 - unat (msk - 24)). (ucast a :: u8) = ucast (ip AND 0xFF) + of_nat j) \<longleftrightarrow> prefix_match ip msk a"
proof -
  define k where "k = 32 - unat msk"
  have m: "24 < unat msk" "unat msk \<le> 32" using assms by (simp_all add: word_le_nat_alt word_less_nat_alt)
  have "unat (msk - 24) = unat msk - 24" using m by (simp add: unat_sub word_le_nat_alt)
  then have k: "k < 8" "8 - unat (msk - 24) = k" using m by (auto simp: k_def)
  have b: "ucast (ip AND 0xFF) = (ucast ip :: u8)"
    by (rule bit_word_eqI) (auto simp: byte_mask bit_ucast_iff bit_take_bit_iff)
  have al: "take_bit k (ucast ip :: u8) = 0"
  proof (rule bit_word_eqI)
    fix n assume "n < LENGTH(8)"
    have "\<not> bit (take_bit k ip) n" using assms(1) by (simp add: host_bits_zero_def k_def)
    then show "bit (take_bit k (ucast ip :: u8)) n = bit 0 n"
      by (auto simp: bit_take_bit_iff bit_ucast_iff)
  qed
  have "(\<exists>j < 2 ^ k. (ucast a :: u8) = ucast ip + of_nat j) \<longleftrightarrow> drop_bit k (ucast a :: u8) = drop_bit k (ucast ip)"
    using aligned_range [OF al, of "ucast a"] k by simp
  also have "\<dots> \<longleftrightarrow> (\<forall>n. k \<le> n \<and> n < 8 \<longrightarrow> bit a n = bit ip n)"
    by (auto simp: drop_bit_eq_iff_bits bit_ucast_iff)
  finally have "drop_bit 8 a = drop_bit 8 ip \<and> (\<exists>j < 2 ^ k. (ucast a :: u8) = ucast ip + of_nat j) \<longleftrightarrow>
      (\<forall>n \<ge> 8. bit a n = bit ip n) \<and> (\<forall>n. k \<le> n \<and> n < 8 \<longrightarrow> bit a n = bit ip n)"
    by (simp add: drop_bit_eq_iff_bits)
  also have "\<dots> \<longleftrightarrow> (\<forall>n \<ge> k. bit a n = bit ip n)"
    using k(1) by (meson less_le_trans less_imp_le not_le)
  finally show ?thesis
    unfolding b k(2) prefix_match_def k_def [symmetric] drop_bit_eq_iff_bits .
qed

section \<open>Loops\<close>

lemma set_root_entry_spec:
  assumes "lpm4_inv t" and "i < 0x1000000" and "\<not> bit fl 0"
  shows "lpm4_inv (set_root_entry i fl v t)"
    and "lpm4_value (set_root_entry i fl v t) a =
      (if drop_bit 8 a = i then if bit fl 1 then Some (ucast (ucast v :: 24 word)) else None else lpm4_value t a)"
proof -
  obtain flist where inv: "lpm4_inv_with flist t" using assms(1) by (auto simp: lpm4_inv_def)
  let ?e' = "updateEntry (rootChunk t i) fl v"
  have e': "\<not> is_ext ?e'" and val: "entry_val ?e' = (if bit fl 1 then Some (ucast (ucast v :: 24 word)) else None)"
    using assms(3) by (simp_all add: entry_val_def)
  have "lpm4_inv (set_root_entry i fl v t) \<and>
      lpm4_value (set_root_entry i fl v t) a = (if drop_bit 8 a = i then entry_val ?e' else lpm4_value t a)"
  proof (cases "is_ext (rootChunk t i)")
    case True
    then have "i \<in> ext_idx t" using assms(2) by (simp add: ext_idx_def)
    from release_chunk [OF inv this e'] True show ?thesis
      unfolding set_root_entry_def by (auto simp: Let_def flag_tests lpm4_inv_def)
  next
    case False
    from modify_root [OF inv this e'] False show ?thesis
      unfolding set_root_entry_def by (auto simp: Let_def flag_tests lpm4_inv_def)
  qed
  then show "lpm4_inv (set_root_entry i fl v t)"
    "lpm4_value (set_root_entry i fl v t) a =
      (if drop_bit 8 a = i then if bit fl 1 then Some (ucast (ucast v :: 24 word)) else None else lpm4_value t a)"
    unfolding val by simp_all
qed

lemma fold_set_root_entry:
  assumes "\<And>j. j \<in> set js \<Longrightarrow> f j < 0x1000000" and "\<not> bit fl 0" and "lpm4_inv t"
  shows "lpm4_inv (fold (\<lambda>j. set_root_entry (f j) fl v) js t) \<and>
    lpm4_value (fold (\<lambda>j. set_root_entry (f j) fl v) js t) a =
      (if \<exists>j \<in> set js. drop_bit 8 a = f j then if bit fl 1 then Some (ucast (ucast v :: 24 word)) else None
       else lpm4_value t a)"
  using assms
proof (induction js arbitrary: t)
  case (Cons j js)
  then show ?case using set_root_entry_spec [of t "f j" fl v] by auto
qed simp

lemma fold_set_chunk_entry:
  "is_ext (fold (\<lambda>j. set_chunk_entry (f j) fl v) js chunk i) = (if \<exists>j \<in> set js. i = f j then bit fl 0 else is_ext (chunk i))"
  "entry_val (fold (\<lambda>j. set_chunk_entry (f j) fl v) js chunk i) =
     (if \<exists>j \<in> set js. i = f j then if bit fl 1 then Some (ucast (ucast v :: 24 word)) else None else entry_val (chunk i))"
  by (induction js arbitrary: chunk) (auto simp: set_chunk_entry_def entry_val_def)

section \<open>Updates of a prefix\<close>

definition new_val :: "u8 \<Rightarrow> u32 \<Rightarrow> u32 option" where
  "new_val fl v = (if bit fl 1 then Some (ucast (ucast v :: 24 word)) else None)"

definition chunk_update :: "u32 \<Rightarrow> u8 \<Rightarrow> u8 \<Rightarrow> u32 \<Rightarrow> tChunk8 \<Rightarrow> tChunk8" where
  "chunk_update ip msk fl v chunk =
     fold (\<lambda>mask_i. set_chunk_entry (ucast (ip AND 0xFF) + of_nat mask_i) fl v) [0..<2 ^ (8 - unat (msk - 24))] chunk"

lemma chunk_all_iff: "chunk_all P chunk \<longleftrightarrow> (\<forall>i. P (chunk i))"
proof
  assume all: "chunk_all P chunk"
  show "\<forall>i. P (chunk i)"
  proof
    fix i :: u8
    have "unat i < 256" using unsigned_less [of i, where ?'a = nat] by simp
    then have "unat i \<in> set [0..<256]" by (simp only: set_upt atLeastLessThan_iff le0 simp_thms)
    with all have "P (chunk (of_nat (unat i)))" unfolding chunk_all_def list_all_iff by (rule bspec)
    then show "P (chunk i)" by simp
  qed
qed (simp add: chunk_all_def list_all_iff)

lemma chunk_update_ext: "\<not> bit fl 0 \<Longrightarrow> (\<And>j. \<not> is_ext (chunk j)) \<Longrightarrow> \<not> is_ext (chunk_update ip msk fl v chunk i)"
  by (simp add: chunk_update_def fold_set_chunk_entry)

lemma chunk_update_value:
  assumes "host_bits_zero ip msk" and "msk > 24" and "msk \<le> 32" and "drop_bit 8 a = drop_bit 8 ip"
  shows "entry_val (chunk_update ip msk fl v chunk (ucast a)) =
    (if prefix_match ip msk a then new_val fl v else entry_val (chunk (ucast a)))"
proof -
  have "(\<exists>j \<in> set [0..<2 ^ (8 - unat (msk - 24))]. (ucast a :: u8) = ucast (ip AND 0xFF) + of_nat j) \<longleftrightarrow>
      prefix_match ip msk a"
    using chunk_range [OF assms(1,2,3), of a] assms(4) by auto
  then show ?thesis by (simp only: chunk_update_def fold_set_chunk_entry(2) new_val_def)
qed

lemma update_extended:
  fixes v :: u32
  assumes inv: "lpm4_inv_with flist t" and p: "host_bits_zero ip msk" "msk > 24" "msk \<le> 32"
    and e: "is_ext (rootChunk t (drop_bit 8 ip))" and fl: "\<not> bit fl 0"
  defines "cid \<equiv> extendedChunkId (rootChunk t (drop_bit 8 ip))"
  defines "t' \<equiv> t\<lparr>extendedChunks := (extendedChunks t)(cid := chunk_update ip msk fl v (extendedChunks t cid))\<rparr>"
  shows "lpm4_inv_with flist t'"
    and "lpm4_value t' a = (if prefix_match ip msk a then new_val fl v else lpm4_value t a)"
proof -
  let ?i = "drop_bit 8 ip"
  have i: "?i \<in> ext_idx t" using e root_index by (simp add: ext_idx_def)
  then have "cid \<in> used t" by (auto simp: used_def cid_def)
  then have noext: "\<not> is_ext (extendedChunks t cid j)" for j using inv by (auto simp: lpm4_inv_with_def)
  note mc = modify_chunk [OF inv i, of "chunk_update ip msk fl v (extendedChunks t cid)",
      OF chunk_update_ext [OF fl noext], folded cid_def, folded t'_def]
  show "lpm4_inv_with flist t'" by (rule mc(1))
  have "\<not> is_val (rootChunk t ?i)" using inv i by (auto simp: lpm4_inv_with_def)
  then have here: "lpm4_value t a = entry_val (extendedChunks t cid (ucast a))" if "drop_bit 8 a = ?i"
    using that e by (simp add: lpm4_value_def Let_def cid_def)
  have "\<not> prefix_match ip msk a" if "drop_bit 8 a \<noteq> ?i" using chunk_range [OF p, of a] that by blast
  then show "lpm4_value t' a = (if prefix_match ip msk a then new_val fl v else lpm4_value t a)"
    unfolding mc(2) using here chunk_update_value [OF p] by auto
qed

lemma update_new_chunk:
  fixes v :: u32
  assumes inv: "lpm4_inv_with flist t" and p: "host_bits_zero ip msk" "msk > 24" "msk \<le> 32"
    and e: "\<not> is_ext (rootChunk t (drop_bit 8 ip))" and fl: "\<not> bit fl 0"
    and new: "newExtendedChunk t = Some (t1, cid)"
  defines "entry \<equiv> rootChunk t (drop_bit 8 ip)"
  defines "t' \<equiv> t1\<lparr>extendedChunks := (extendedChunks t1)(cid :=
        chunk_update ip msk fl v (updateAllEntries (extendedChunks t1 cid) entry)),
      rootChunk := (rootChunk t1)(drop_bit 8 ip := updateEntry entry flagExtended cid)\<rparr>"
  shows "lpm4_inv t'"
    and "lpm4_value t' a = (if prefix_match ip msk a then new_val fl v else lpm4_value t a)"
proof -
  let ?i = "drop_bit 8 ip"
  let ?c = "updateAllEntries (extendedChunks t1 cid) entry"
  have "cid < 0x1000000" using acquire_chunk_new(1) [OF inv new root_index e] by blast
  then have eid: "extendedChunkId (updateEntry entry flagExtended cid) = cid"
    using chunk_id_round_trip by simp
  have noext: "\<not> is_ext (?c j)" for j using e by (simp add: entry_def)
  have ne: "is_ext (updateEntry entry flagExtended cid)" "\<not> is_val (updateEntry entry flagExtended cid)" by simp_all
  note ac = acquire_chunk [OF inv new root_index e ne eid, of "chunk_update ip msk fl v ?c",
      OF chunk_update_ext [OF fl noext], folded t'_def]
  show "lpm4_inv t'" by (rule ac(1))
  have here: "lpm4_value t a = entry_val (?c (ucast a))" if "drop_bit 8 a = ?i"
    using that e by (simp add: lpm4_value_def Let_def entry_val_def entry_def)
  have "\<not> prefix_match ip msk a" if "drop_bit 8 a \<noteq> ?i" using chunk_range [OF p, of a] that by blast
  then show "lpm4_value t' a = (if prefix_match ip msk a then new_val fl v else lpm4_value t a)"
    unfolding ac(2) using here chunk_update_value [OF p] by auto
qed

lemma merge_chunk:
  assumes inv: "lpm4_inv_with flist t" and e: "is_ext (rootChunk t (drop_bit 8 ip))" and e': "\<not> is_ext e'"
    and all: "\<And>j. entry_val (extendedChunks t (extendedChunkId (rootChunk t (drop_bit 8 ip))) j) = entry_val e'"
  defines "t' \<equiv> freeExtendedChunk (t\<lparr>rootChunk := (rootChunk t)(drop_bit 8 ip := e')\<rparr>)
      (extendedChunkId (rootChunk t (drop_bit 8 ip)))"
  shows "lpm4_inv t'" and "lpm4_value t' a = lpm4_value t a"
proof -
  have i: "drop_bit 8 ip \<in> ext_idx t" using e root_index by (simp add: ext_idx_def)
  note rc = release_chunk [OF inv i e', folded t'_def]
  show "lpm4_inv t'" using rc(1) by (auto simp: lpm4_inv_def)
  have "\<not> is_val (rootChunk t (drop_bit 8 ip))" using inv i by (auto simp: lpm4_inv_with_def)
  then show "lpm4_value t' a = lpm4_value t a"
    unfolding rc(2) using all e by (simp add: lpm4_value_def Let_def)
qed

lemma newExtendedChunk_None:
  assumes "lpm4_inv_with flist t" and "newExtendedChunk t = None"
  shows "extended_chunks_count (stats t) = extended_chunks_size (stats t)"
proof -
  have "\<not> is_ext (free_chunk_cache (stats t))"
    and full: "\<not> ucast (max_used_chunk_id (stats t)) < extended_chunks_size (stats t)"
    using assms(2) by (auto simp: newExtendedChunk_def Let_def flag_tests split: if_splits)
  then have "flist = []" using assms(1) by (cases flist) (auto simp: lpm4_inv_with_def)
  then have used: "used t = {i. i < max_used_chunk_id (stats t)}" using assms(1) by (auto simp: lpm4_inv_with_def)
  have "card (ext_idx t) = card (used t)"
    unfolding used_def using assms(1) by (intro card_image [symmetric]) (simp add: lpm4_inv_with_def)
  also have "\<dots> = unat (max_used_chunk_id (stats t))"
    unfolding used by (rule card_words_below)
  also have "\<dots> = unat (extended_chunks_size (stats t))"
    using full assms(1) by (simp add: word_less_nat_alt unat_ucast_up lpm4_inv_with_def)
  finally show ?thesis using assms(1) by (simp add: lpm4_inv_with_def)
qed

section \<open>The operations\<close>

text \<open>
  The outcome of an update: on success the table maps the addresses of the prefix to the new value
  and keeps all others; the only other outcome is \<^verbatim>\<open>isFull\<close>, with the table as it was and every chunk
  in use.
\<close>

definition update_outcome :: "lpm4 \<Rightarrow> u32 \<Rightarrow> u8 \<Rightarrow> u32 option \<Rightarrow> eResult \<times> lpm4 \<Rightarrow> bool" where
  "update_outcome t ip msk new out =
     (case out of (r, t') \<Rightarrow> lpm4_inv t' \<and>
        ((r = success \<and> (\<forall>a. lpm4_value t' a = (if prefix_match ip msk a then new else lpm4_value t a))) \<or>
         (r = isFull \<and> t' = t \<and> msk > 24 \<and> extended_chunks_count (stats t) = extended_chunks_size (stats t))))"

lemma step2_eq:
  "insertStep2 ip (msk - 24) v chunk = (success, chunk_update ip msk flagValid v chunk)"
  "removeStep2 ip (msk - 24) chunk = (success, chunk_update ip msk 0 0 chunk)"
  by (simp_all add: insertStep2_def removeStep2_def chunk_update_def)

lemma fold_root_outcome:
  assumes "lpm4_inv t" and "host_bits_zero ip msk" and "msk \<le> 24" and "\<not> bit fl 0"
  shows "update_outcome t ip msk (new_val fl v)
    (success, fold (\<lambda>mask_i. set_root_entry (drop_bit 8 ip + of_nat mask_i) fl v) [0..<2 ^ (24 - unat msk)] t)"
proof -
  let ?js = "[0..<2 ^ (24 - unat msk)]"
  let ?t = "fold (\<lambda>mask_i. set_root_entry (drop_bit 8 ip + of_nat mask_i) fl v) ?js t"
  have R: "(\<exists>j \<in> set ?js. drop_bit 8 a = drop_bit 8 ip + of_nat j) \<longleftrightarrow> prefix_match ip msk a" for a
    using root_range(1) [OF assms(2,3), of a] by auto
  have "drop_bit 8 ip + of_nat j < (0x1000000 :: u32)" if "j \<in> set ?js" for j
    using root_range(2) [OF assms(2,3), of j] that by simp
  from fold_set_root_entry [of ?js "\<lambda>j. drop_bit 8 ip + of_nat j", OF this assms(4,1)]
  have "lpm4_inv ?t" "lpm4_value ?t a = (if prefix_match ip msk a then new_val fl v else lpm4_value t a)" for a
    unfolding R new_val_def by blast+
  then show ?thesis by (simp add: update_outcome_def)
qed

lemma insertStep1_outcome:
  assumes "lpm4_inv t" and "host_bits_zero ip msk" and "msk \<le> 32" and "v < 0x1000000"
  shows "update_outcome t ip msk (Some v) (insertStep1 ip msk v t)"
proof -
  obtain flist where inv: "lpm4_inv_with flist t" using assms(1) by (auto simp: lpm4_inv_def)
  have nv: "new_val flagValid v = Some v" using chunk_id_round_trip [OF assms(4)] by (simp add: new_val_def)
  have fl: "\<not> bit flagValid 0" by simp
  let ?e = "rootChunk t (drop_bit 8 ip)"
  consider "msk \<le> 24" | "msk > 24" "is_ext ?e" | "msk > 24" "\<not> is_ext ?e" "is_val ?e \<and> ucast (valueId ?e) = v"
    | "msk > 24" "\<not> is_ext ?e" "\<not> (is_val ?e \<and> ucast (valueId ?e) = v)" by force
  then show ?thesis
  proof cases
    case 1
    then have "\<not> msk > 24" by simp
    with fold_root_outcome [OF assms(1,2) 1 fl, of v] show ?thesis by (simp only: insertStep1_def nv if_False)
  next
    case 2
    let ?cid = "extendedChunkId ?e"
    let ?t = "t\<lparr>extendedChunks := (extendedChunks t)(?cid := chunk_update ip msk flagValid v (extendedChunks t ?cid))\<rparr>"
    note up = update_extended [OF inv assms(2) 2(1) assms(3) 2(2) fl, where v = v]
    show ?thesis
    proof (cases "\<forall>j. is_val (extendedChunks ?t ?cid j) \<and> ucast (valueId (extendedChunks ?t ?cid j)) = v")
      case True
      then have "entry_val (extendedChunks ?t ?cid j) = entry_val (updateEntry ?e flagValid v)" for j
        using nv by (auto simp: entry_val_def new_val_def)
      then show ?thesis
        using merge_chunk [OF up(1), of ip "updateEntry ?e flagValid v"] up(2) nv True 2
        by (auto simp: insertStep1_def Let_def flag_tests step2_eq chunk_all_iff update_outcome_def lpm4_inv_def)
    next
      case False
      then show ?thesis
        using up nv 2
        by (auto simp: insertStep1_def Let_def flag_tests step2_eq chunk_all_iff update_outcome_def lpm4_inv_def)
    qed
  next
    case 3
    have "lpm4_value t a = Some v" if "prefix_match ip msk a" for a
      using that chunk_range [OF assms(2) 3(1) assms(3), of a] 3 by (auto simp: lpm4_value_def Let_def)
    then show ?thesis
      using 3 assms(1) by (auto simp: insertStep1_def Let_def flag_tests update_outcome_def)
  next
    case 4
    show ?thesis
    proof (cases "newExtendedChunk t")
      case None
      then show ?thesis
        using 4 assms(1) newExtendedChunk_None [OF inv None]
        by (auto simp: insertStep1_def Let_def flag_tests update_outcome_def)
    next
      case (Some r)
      obtain t1 cid where r: "r = (t1, cid)" by force
      note up = update_new_chunk [OF inv assms(2) 4(1) assms(3) 4(2) fl Some [unfolded r], where v = v]
      show ?thesis
        using up 4 Some nv unfolding r
        by (auto simp: insertStep1_def Let_def flag_tests step2_eq update_outcome_def)
    qed
  qed
qed

lemma removeStep1_outcome:
  assumes "lpm4_inv t" and "host_bits_zero ip msk" and "msk \<le> 32"
  shows "update_outcome t ip msk None (removeStep1 ip msk t)"
proof -
  obtain flist where inv: "lpm4_inv_with flist t" using assms(1) by (auto simp: lpm4_inv_def)
  have nv: "new_val 0 0 = None" by (simp add: new_val_def)
  have fl: "\<not> bit (0 :: u8) 0" by simp
  let ?e = "rootChunk t (drop_bit 8 ip)"
  consider "msk \<le> 24" | "msk > 24" "is_ext ?e" | "msk > 24" "\<not> is_ext ?e" "is_val ?e"
    | "msk > 24" "\<not> is_ext ?e" "\<not> is_val ?e" by force
  then show ?thesis
  proof cases
    case 1
    then have "\<not> msk > 24" by simp
    with fold_root_outcome [OF assms(1,2) 1 fl, of 0] show ?thesis by (simp only: removeStep1_def nv if_False)
  next
    case 2
    let ?cid = "extendedChunkId ?e"
    let ?t = "t\<lparr>extendedChunks := (extendedChunks t)(?cid := chunk_update ip msk 0 0 (extendedChunks t ?cid))\<rparr>"
    note up = update_extended [OF inv assms(2) 2(1) assms(3) 2(2) fl, where v = 0]
    show ?thesis
    proof (cases "\<forall>j. \<not> is_ext (extendedChunks ?t ?cid j) \<and> \<not> is_val (extendedChunks ?t ?cid j)")
      case True
      then have "entry_val (extendedChunks ?t ?cid j) = entry_val (updateEntry ?e 0 0)" for j
        by (simp add: entry_val_def)
      then show ?thesis
        using merge_chunk [OF up(1), of ip "updateEntry ?e 0 0"] up(2) nv True 2
        by (auto simp: removeStep1_def Let_def flag_tests step2_eq chunk_all_iff update_outcome_def lpm4_inv_def)
    next
      case False
      then show ?thesis
        using up nv 2
        by (auto simp: removeStep1_def Let_def flag_tests step2_eq chunk_all_iff update_outcome_def lpm4_inv_def)
    qed
  next
    case 3
    show ?thesis
    proof (cases "newExtendedChunk t")
      case None
      then show ?thesis
        using 3 assms(1) newExtendedChunk_None [OF inv None]
        by (auto simp: removeStep1_def Let_def flag_tests update_outcome_def)
    next
      case (Some r)
      obtain t1 cid where r: "r = (t1, cid)" by force
      note up = update_new_chunk [OF inv assms(2) 3(1) assms(3) 3(2) fl Some [unfolded r], where v = 0]
      show ?thesis
        using up 3 Some nv unfolding r
        by (auto simp: removeStep1_def Let_def flag_tests step2_eq update_outcome_def)
    qed
  next
    case 4
    have "lpm4_value t a = None" if "prefix_match ip msk a" for a
      using that chunk_range [OF assms(2) 4(1) assms(3), of a] 4 by (auto simp: lpm4_value_def Let_def)
    then show ?thesis
      using 4 assms(1) by (auto simp: removeStep1_def Let_def flag_tests update_outcome_def)
  qed
qed

lemma value_fits: "v AND 0xFF000000 = 0 \<longleftrightarrow> v < 0x1000000" for v :: u32
proof -
  have "v AND 0xFF000000 = push_bit 24 (drop_bit 24 v)"
  proof (rule bit_word_eqI)
    fix n assume n: "n < LENGTH(32)"
    have "(0xFF000000 :: u32) = push_bit 24 (mask 8)" by (simp add: mask_eq_exp_minus_1)
    then have "bit (v AND 0xFF000000) n \<longleftrightarrow> bit v n \<and> bit (push_bit 24 (mask 8 :: u32)) n" by (simp only: bit_and_iff)
    also have "\<dots> \<longleftrightarrow> bit v n \<and> 24 \<le> n"
      using n by (auto simp only: bit_push_bit_iff bit_mask_iff) auto
    also have "\<dots> \<longleftrightarrow> bit (push_bit 24 (drop_bit 24 v)) n"
      using n by (auto simp: bit_push_bit_iff bit_drop_bit_eq)
    finally show "bit (v AND 0xFF000000) n = bit (push_bit 24 (drop_bit 24 v)) n" .
  qed
  also have "\<dots> = 0 \<longleftrightarrow> drop_bit 24 v = 0"
  proof
    assume e: "push_bit 24 (drop_bit 24 v) = 0"
    show "drop_bit 24 v = 0"
    proof (rule bit_word_eqI)
      fix n
      have "\<not> bit (push_bit 24 (drop_bit 24 v)) (24 + n)" unfolding e by simp
      then show "bit (drop_bit 24 v) n = bit 0 n"
        by (auto simp: bit_push_bit_iff bit_drop_bit_eq dest: bit_imp_le_length)
    qed
  qed simp
  finally show ?thesis by (simp add: root_index_iff)
qed

lemma outcome_needWait: "update_outcome (t\<lparr>needWait := b\<rparr>) ip msk new out \<Longrightarrow> lpm4_inv (snd out) \<and>
    (fst out = success \<and> (\<forall>a. lpm4_value (snd out) a = (if prefix_match ip msk a then new else lpm4_value t a)) \<or>
     fst out = isFull \<and> (\<forall>a. lpm4_value (snd out) a = lpm4_value t a) \<and> msk > 24 \<and>
       extended_chunks_count (stats t) = extended_chunks_size (stats t))"
  by (cases out) (auto simp: update_outcome_def)

lemma insert_outcome:
  assumes "lpm4_inv t" and "host_bits_zero ip msk" and "msk \<le> 32" and "v < 0x1000000"
  shows "update_outcome (t\<lparr>needWait := False\<rparr>) ip msk (Some v) (lpm4_insert t ip msk v)"
  using insertStep1_outcome [OF _ assms(2,3,4), of "t\<lparr>needWait := False\<rparr>"] assms value_fits [of v]
  by (auto simp: lpm4_insert_def lpm4_inv_def)

lemma remove_outcome:
  assumes "lpm4_inv t" and "host_bits_zero ip msk" and "msk \<le> 32"
  shows "update_outcome (t\<lparr>needWait := False\<rparr>) ip msk None (lpm4_remove t ip msk)"
  using removeStep1_outcome [OF _ assms(2,3), of "t\<lparr>needWait := False\<rparr>"] assms
  by (auto simp: lpm4_remove_def lpm4_inv_def)

section \<open>Properties\<close>

text \<open>A freshly constructed table over a pool of chunks with arbitrary contents.\<close>

definition lpm4_fresh :: "u64 \<Rightarrow> (u32 \<Rightarrow> tChunk8) \<Rightarrow> lpm4" where
  "lpm4_fresh sz pool =
     \<lparr>stats = \<lparr>extended_chunks_count = 0, extended_chunks_size = sz, max_used_chunk_id = 0,
        free_chunk_cache = zero_entry\<rparr>,
      rootChunk = (\<lambda>_. zero_entry), extendedChunks = pool, needWait = False\<rparr>"

lemma cleared_inv:
  assumes "\<And>i. i < 0x1000000 \<Longrightarrow> \<not> is_ext (rootChunk t i)" and "max_used_chunk_id (stats t) = 0"
    and "\<not> is_ext (free_chunk_cache (stats t))" and "extended_chunks_count (stats t) = 0"
  shows "lpm4_inv t"
proof -
  have "ext_idx t = {}" using assms(1) by (auto simp: ext_idx_def)
  moreover from this have "used t = {}" by (simp add: used_def)
  ultimately show ?thesis
    unfolding lpm4_inv_def using assms by (intro exI [of _ "[]"]) (simp add: lpm4_inv_with_def)
qed

lemma lpm4_fresh_inv: "lpm4_inv (lpm4_fresh sz pool)" "lpm4_value (lpm4_fresh sz pool) a = None"
  by (rule cleared_inv) (simp_all add: lpm4_fresh_def lpm4_value_def Let_def)

lemma lookup_value:
  "lpm4_lookup t ip = (lpm4_value t (be_to_cpu_32 ip) \<noteq> None,
     case lpm4_value t (be_to_cpu_32 ip) of Some v \<Rightarrow> v | None \<Rightarrow> lpmValueIdInvalid)"
proof -
  have "(ucast w :: u32) \<noteq> lpmValueIdInvalid" for w :: "24 word"
  proof
    assume "ucast w = lpmValueIdInvalid"
    then have "unat (ucast w :: u32) = unat lpmValueIdInvalid" by simp
    then show False using unsigned_less [of w, where ?'a = nat] by (simp add: unat_ucast_up lpmValueIdInvalid_def)
  qed
  moreover have "lpm4_value t a = Some v \<Longrightarrow> \<exists>w :: 24 word. v = ucast w" for a v
    by (auto simp: lpm4_value_def Let_def entry_val_def split: if_splits)
  ultimately have "lpm4_value t a \<noteq> Some lpmValueIdInvalid" for a by metis
  then show ?thesis
    by (auto simp: lpm4_lookup_def lpm4_lookup_burst_def lookup_one_value split: option.splits)
qed

text \<open>
  Inserting a prefix without host bits.  When \<^verbatim>\<open>insert\<close> succeeds, looking up an address (in network
  byte order) of the prefix finds the inserted value and every other address finds what it found
  before; the only other outcome is \<^verbatim>\<open>isFull\<close>, for a mask longer than 24 when all extended chunks are in
  use, and then no lookup changes.  The structural invariant is kept in both cases.
\<close>

lemma lpm4_insert_correct:
  assumes "lpm4_inv t" and "host_bits_zero ip msk" and "msk \<le> 32" and "v < 0x1000000"
    and "lpm4_insert t ip msk v = (r, t')"
  shows "lpm4_inv t' \<and>
    ((r = success \<and> (\<forall>a. lpm4_lookup t' a =
        (if prefix_match ip msk (be_to_cpu_32 a) then (True, v) else lpm4_lookup t a))) \<or>
     (r = isFull \<and> (\<forall>a. lpm4_lookup t' a = lpm4_lookup t a) \<and> msk > 24 \<and>
       extended_chunks_count (stats t) = extended_chunks_size (stats t)))"
  using outcome_needWait [OF insert_outcome [OF assms(1-4)]] unfolding assms(5)
  by (auto simp: lookup_value)

text \<open>
  Removing a prefix without host bits.  When \<^verbatim>\<open>remove\<close> succeeds, the addresses of the prefix find
  nothing and all others find what they found before; it fails only with \<^verbatim>\<open>isFull\<close>, when a chunk would
  be needed and none is free, without changing any lookup.
\<close>

lemma lpm4_remove_correct:
  assumes "lpm4_inv t" and "host_bits_zero ip msk" and "msk \<le> 32" and "lpm4_remove t ip msk = (r, t')"
  shows "lpm4_inv t' \<and>
    ((r = success \<and> (\<forall>a. lpm4_lookup t' a =
        (if prefix_match ip msk (be_to_cpu_32 a) then (False, lpmValueIdInvalid) else lpm4_lookup t a))) \<or>
     (r = isFull \<and> (\<forall>a. lpm4_lookup t' a = lpm4_lookup t a) \<and> msk > 24 \<and>
       extended_chunks_count (stats t) = extended_chunks_size (stats t)))"
  using outcome_needWait [OF remove_outcome [OF assms(1-3)]] unfolding assms(4)
  by (auto simp: lookup_value)

text \<open>
  \<^verbatim>\<open>clear\<close> of the table followed by \<^verbatim>\<open>clear\<close> of its statistics, as the updater calls them, establishes
  the invariant whatever the state was, and empties every lookup.
\<close>

lemma lpm4_clear_empties:
  "let t' = (lpm4_clear t)\<lparr>stats := stats_clear (stats t)\<rparr>
   in lpm4_inv t' \<and> lpm4_lookup t' a = (False, lpmValueIdInvalid) \<and>
      extended_chunks_count (stats t') = 0 \<and> extended_chunks_size (stats t') = extended_chunks_size (stats t)"
proof -
  let ?t = "(lpm4_clear t)\<lparr>stats := stats_clear (stats t)\<rparr>"
  have "lpm4_inv ?t"
    by (rule cleared_inv) (simp_all add: lpm4_clear_def stats_clear_def is_ext_def zero_entry_def)
  moreover have "lpm4_value ?t b = None" for b
    using root_index [of b] by (simp add: lpm4_value_def lpm4_clear_def Let_def)
  ultimately show ?thesis by (simp add: lookup_value Let_def stats_clear_def)
qed

end
