(* ===== verification/LpmUpdater.thy ===== *)
theory LpmUpdater
  imports Lpm4
begin

text \<open>
  \<^verbatim>\<open>lpm4_24bit_8bit_atomic::copy\<close> of \<^verbatim>\<open>src/dataplane/lpm.h\<close>, which renumbers the extended chunks of a table
  into a new pool, and the class \<^verbatim>\<open>updater_lpm\<close> of \<^verbatim>\<open>src/dataplane/updater.h\<close>, which owns a table and
  resizes its pool around the updates.  The allocator is a parameter: \<open>alloc size\<close> is the new pool of
  chunks, with arbitrary contents, or \<open>None\<close> when \<^verbatim>\<open>Allocate\<close> returns a null pointer, a case for which the
  updater has a branch although \<^verbatim>\<open>create_unique\<close> (theory \<open>MemoryManager\<close>) does not produce it.
\<close>

section \<open>Copy\<close>

text \<open>The state of the loop of \<^verbatim>\<open>copy_root_chunk\<close>: the table, \<^verbatim>\<open>remap_chunks\<close> and \<^verbatim>\<open>nexts\<close>.\<close>

type_synonym copy_state = "lpm4 \<times> (u32 \<Rightarrow> u32) \<times> (u32 \<times> u32) list"

definition set_chunk_value :: "lpm4 \<Rightarrow> u32 \<Rightarrow> u32 \<Rightarrow> lpm4" where
  "set_chunk_value t i chunk_id =
     t\<lparr>rootChunk := (rootChunk t)(i := (rootChunk t i)\<lparr>valueId := ucast chunk_id\<rparr>)\<rparr>"

fun copy_loop :: "u32 list \<Rightarrow> copy_state \<Rightarrow> eResult \<times> copy_state" where
  "copy_loop [] st = (success, st)"
| "copy_loop (i # is) (t, remap_chunks, nexts) =
     (if flags (rootChunk t i) AND flagExtended \<noteq> 0 then
        let from = extendedChunkId (rootChunk t i);
            chunk_id = remap_chunks from
        in if chunk_id = 0 then
             (case newExtendedChunk t of
                None \<Rightarrow> (isFull, (t, remap_chunks, nexts))
              | Some (t, chunk_id) \<Rightarrow>
                  copy_loop is (set_chunk_value t i chunk_id, remap_chunks(from := chunk_id), nexts @ [(from, chunk_id)]))
           else copy_loop is (set_chunk_value t i chunk_id, remap_chunks, nexts)
      else copy_loop is (t, remap_chunks, nexts))"

definition copy_extended_chunk :: "lpm4 \<Rightarrow> u32 \<Rightarrow> u32 \<Rightarrow> lpm4 \<Rightarrow> lpm4" where
  "copy_extended_chunk second from_chunk_id chunk_id t =
     t\<lparr>extendedChunks := (extendedChunks t)(chunk_id := extendedChunks second from_chunk_id)\<rparr>"

definition root_indices :: "u32 list" where
  "root_indices = map of_nat [0..<2 ^ 24]"

definition copy_root_chunk :: "lpm4 \<Rightarrow> (u32 \<Rightarrow> u32) \<Rightarrow> lpm4 \<Rightarrow> eResult \<times> lpm4" where
  "copy_root_chunk t remap_chunks second =
     (let t = t\<lparr>rootChunk := (\<lambda>i. if i < 0x1000000 then rootChunk second i else rootChunk t i)\<rparr>;
          (result, (t, remap_chunks, nexts)) = copy_loop root_indices (t, remap_chunks, [])
      in if result \<noteq> success then (result, t)
         else (success, fold (\<lambda>(next_from_chunk_id, next_chunk_id).
                 copy_extended_chunk second next_from_chunk_id next_chunk_id) nexts t))"

definition lpm4_copy :: "lpm4 \<Rightarrow> lpm4 \<Rightarrow> eResult \<times> lpm4" where
  "lpm4_copy t second = copy_root_chunk t (\<lambda>_. 0) second"

section \<open>The updater\<close>

definition extended_chunks_size_min :: u64 where
  "extended_chunks_size_min = 32"

text \<open>\<^verbatim>\<open>stats_\<close> and \<^verbatim>\<open>*pointer_\<close> together are a table; a null \<^verbatim>\<open>pointer_\<close> is \<open>None\<close>.\<close>

type_synonym allocator = "u64 \<Rightarrow> (u32 \<Rightarrow> tChunk8) option"

definition NeedToGrow :: "stats_t \<Rightarrow> bool" where
  "NeedToGrow s = (extended_chunks_size s - extended_chunks_count s < extended_chunks_size_min)"

definition GrowSize :: "stats_t \<Rightarrow> u64" where
  "GrowSize s = extended_chunks_size s * 2"

definition ShrinkSize :: "stats_t \<Rightarrow> u64" where
  "ShrinkSize s = extended_chunks_size s div 2"

definition NeedToShrink :: "stats_t \<Rightarrow> bool" where
  "NeedToShrink s = (ShrinkSize s > max extended_chunks_size_min (GrowSize s))"

definition Resize :: "allocator \<Rightarrow> u64 \<Rightarrow> lpm4 \<Rightarrow> eResult \<times> lpm4" where
  "Resize alloc sz t =
     (case alloc sz of
        None \<Rightarrow> (errorAllocatingMemory, t)
      | Some pool \<Rightarrow>
          let next = lpm4_fresh sz pool;
              (_, next) = lpm4_copy next t
          in (success, next))"

definition updater_init :: "allocator \<Rightarrow> eResult \<times> lpm4 option" where
  "updater_init alloc =
     (let default_chunks_size = 2 * extended_chunks_size_min
      in case alloc default_chunks_size of
           None \<Rightarrow> (errorAllocatingMemory, None)
         | Some pool \<Rightarrow> (success, Some (lpm4_fresh default_chunks_size pool)))"

definition updater_insert :: "allocator \<Rightarrow> lpm4 \<Rightarrow> u32 \<Rightarrow> u8 \<Rightarrow> u32 \<Rightarrow> eResult \<times> lpm4" where
  "updater_insert alloc t ip_address msk value_id =
     (let (result, t) = (if NeedToGrow (stats t) then Resize alloc (GrowSize (stats t)) t else (success, t))
      in if result \<noteq> success then (result, t)
         else lpm4_insert t ip_address msk value_id)"

definition updater_remove :: "allocator \<Rightarrow> lpm4 \<Rightarrow> u32 \<Rightarrow> u8 \<Rightarrow> eResult \<times> lpm4" where
  "updater_remove alloc t ip_address msk =
     (let (result, t) = (if NeedToGrow (stats t) then Resize alloc (GrowSize (stats t)) t else (success, t))
      in if result \<noteq> success then (result, t)
         else let (result, t) = lpm4_remove t ip_address msk
              in if result \<noteq> success then (result, t)
                 else if NeedToShrink (stats t)
                 then let (result', t) = Resize alloc (ShrinkSize (stats t)) t
                      in if result' \<noteq> success then (result', t) else (result, t)
                 else (result, t))"

definition updater_clear :: "allocator \<Rightarrow> lpm4 option \<Rightarrow> lpm4 option" where
  "updater_clear alloc p =
     (case p of
        None \<Rightarrow> None
      | Some t \<Rightarrow>
          let t = lpm4_clear t;
              t = t\<lparr>stats := stats_clear (stats t)\<rparr>
          in if NeedToShrink (stats t) then Some (snd (Resize alloc (2 * extended_chunks_size_min) t)) else Some t)"

section \<open>Correctness of the copy\<close>

definition ext_below :: "lpm4 \<Rightarrow> nat \<Rightarrow> u32 set" where
  "ext_below s n = {i \<in> ext_idx s. unat i < n}"

text \<open>
  The loop invariant after the first \<open>n\<close> root entries: the chunks met so far have received the
  numbers 0, 1, 2, ... in this order, and the root entries refer to their new numbers.
\<close>

definition copy_inv :: "lpm4 \<Rightarrow> u64 \<Rightarrow> nat \<Rightarrow> copy_state \<Rightarrow> bool" where
  "copy_inv s sz n st =
     (case st of (t, remap_chunks, nexts) \<Rightarrow>
        distinct (map fst nexts) \<and>
        set (map fst nexts) = (\<lambda>i. extendedChunkId (rootChunk s i)) ` ext_below s n \<and>
        map snd nexts = map of_nat [0..<length nexts] \<and>
        extended_chunks_count (stats t) = of_nat (length nexts) \<and>
        max_used_chunk_id (stats t) = of_nat (length nexts) \<and>
        extended_chunks_size (stats t) = sz \<and> \<not> is_ext (free_chunk_cache (stats t)) \<and>
        (\<forall>i < 0x1000000. rootChunk t i =
           (if i \<in> ext_below s n
            then (rootChunk s i)\<lparr>valueId := ucast (the (map_of nexts (extendedChunkId (rootChunk s i))))\<rparr>
            else rootChunk s i)) \<and>
        (\<forall>f. f \<notin> set (map fst nexts) \<longrightarrow> remap_chunks f = 0))"

lemma ext_below_Suc:
  assumes "n < 2 ^ 24"
  shows "ext_below s (Suc n) = (if is_ext (rootChunk s (of_nat n)) then insert (of_nat n) (ext_below s n) else ext_below s n)"
    and "(of_nat n :: u32) \<notin> ext_below s n" and "(of_nat n :: u32) < 0x1000000"
proof -
  have u: "unat (of_nat n :: u32) = n" using assms by (intro unat_of_nat_small) simp
  then show "(of_nat n :: u32) \<notin> ext_below s n" and lt: "(of_nat n :: u32) < 0x1000000"
    using assms by (simp_all add: ext_below_def word_less_nat_alt)
  have "unat i < Suc n \<longleftrightarrow> i = of_nat n \<or> unat i < n" for i :: u32
    using u by (metis less_Suc_eq word_unat_eq_iff)
  then show "ext_below s (Suc n) = (if is_ext (rootChunk s (of_nat n)) then insert (of_nat n) (ext_below s n) else ext_below s n)"
    using lt by (auto simp: ext_below_def ext_idx_def)
qed

lemma copy_inv_length:
  assumes "lpm4_inv s" and "copy_inv s sz n (t, remap, nexts)"
  shows "length nexts = card (ext_below s n)"
proof -
  obtain fl where "lpm4_inv_with fl s" using assms(1) by (auto simp: lpm4_inv_def)
  then have "inj_on (\<lambda>i. extendedChunkId (rootChunk s i)) (ext_below s n)"
    unfolding lpm4_inv_with_def ext_below_def by (auto intro: inj_on_subset)
  then have "card (ext_below s n) = card (set (map fst nexts))"
    using assms(2) by (simp add: copy_inv_def card_image)
  also have "\<dots> = length nexts" using assms(2) distinct_card [of "map fst nexts"] by (simp add: copy_inv_def)
  finally show ?thesis ..
qed

lemma card_ext_le: "card (ext_idx s) \<le> 2 ^ 24"
proof -
  have "card (ext_idx s) \<le> card {i :: u32. i < 0x1000000}" by (rule card_mono) (auto simp: ext_idx_def)
  then show ?thesis by (simp add: card_words_below)
qed

lemma copy_step:
  assumes s: "lpm4_inv s" and J: "copy_inv s sz n (t, remap, nexts)" and n: "n < 2 ^ 24"
    and room: "card (ext_idx s) \<le> unat sz" and e: "is_ext (rootChunk s (of_nat n))"
  defines "f \<equiv> extendedChunkId (rootChunk s (of_nat n))"
  obtains t1 where "newExtendedChunk t = Some (t1, of_nat (length nexts))" and "remap f = 0"
    and "copy_inv s sz (Suc n) (set_chunk_value t1 (of_nat n) (of_nat (length nexts)),
      remap(f := of_nat (length nexts)), nexts @ [(f, of_nat (length nexts))])"
proof -
  note sB = ext_below_Suc(1,2) [OF n, of s] ext_below_Suc(3) [OF n]
  let ?k = "length nexts" and ?i = "of_nat n :: u32"
  have E: "ext_below s (Suc n) = insert ?i (ext_below s n)" using sB(1) e by simp
  obtain fl where inv: "lpm4_inv_with fl s" using s by (auto simp: lpm4_inv_def)
  have inj: "inj_on (\<lambda>i. extendedChunkId (rootChunk s i)) (ext_idx s)" using inv by (simp add: lpm4_inv_with_def)
  have i: "?i \<in> ext_idx s" using e sB(3) by (simp add: ext_idx_def)
  have fnew: "f \<notin> set (map fst nexts)"
    using J inj i sB(2) by (auto simp: copy_inv_def f_def ext_below_def dest: inj_onD)
  have "card (ext_below s (Suc n)) \<le> card (ext_idx s)"
    by (rule card_mono) (auto simp: ext_below_def)
  then have k: "?k < card (ext_idx s)"
    using copy_inv_length [OF s J] sB(2) unfolding E by simp
  then have k24: "?k < 2 ^ 24" using card_ext_le [of s] by linarith
  then have uk: "unat (of_nat ?k :: u32) = ?k" by (intro unat_of_nat_small) simp
  define t1 where "t1 = t\<lparr>extendedChunks := (extendedChunks t)(of_nat ?k := occupied_chunk),
      stats := (stats t)\<lparr>max_used_chunk_id := of_nat ?k + 1, extended_chunks_count := of_nat ?k + 1\<rparr>\<rparr>"
  have "ucast (of_nat ?k :: u32) < sz" using k room uk by (simp add: word_less_nat_alt unat_ucast_up)
  then have new: "newExtendedChunk t = Some (t1, of_nat ?k)"
    using J by (simp add: copy_inv_def newExtendedChunk_def Let_def flag_tests t1_def)
  have rem: "remap f = 0" using J fnew by (simp add: copy_inv_def)
  have root: "rootChunk (set_chunk_value t1 ?i (of_nat ?k)) j =
      (if j \<in> insert ?i (ext_below s n)
       then (rootChunk s j)\<lparr>valueId := ucast (the (map_of (nexts @ [(f, of_nat ?k)]) (extendedChunkId (rootChunk s j))))\<rparr>
       else rootChunk s j)" if "j < 0x1000000" for j
  proof (cases "j = ?i")
    case True
    have "map_of nexts f = None" using fnew by (simp add: map_of_eq_None_iff)
    then show ?thesis
      using True that J sB(2) by (simp add: copy_inv_def set_chunk_value_def t1_def f_def map_of_append map_add_def)
  next
    case False
    have "extendedChunkId (rootChunk s j) \<noteq> f" if "j \<in> ext_below s n"
      using that J fnew by (auto simp: copy_inv_def)
    then show ?thesis
      using False that J by (auto simp: copy_inv_def set_chunk_value_def t1_def map_add_def split: option.split)
  qed
  have "copy_inv s sz (Suc n) (set_chunk_value t1 ?i (of_nat ?k), remap(f := of_nat ?k), nexts @ [(f, of_nat ?k)])"
    unfolding copy_inv_def prod.case E
  proof (intro conjI)
    show "\<forall>j < 0x1000000. rootChunk (set_chunk_value t1 ?i (of_nat ?k)) j =
      (if j \<in> insert ?i (ext_below s n)
       then (rootChunk s j)\<lparr>valueId := ucast (the (map_of (nexts @ [(f, of_nat ?k)]) (extendedChunkId (rootChunk s j))))\<rparr>
       else rootChunk s j)" using root by blast
  qed (use J fnew in \<open>auto simp: copy_inv_def set_chunk_value_def t1_def f_def\<close>)
  with new rem show thesis by (rule that)
qed

lemma copy_skip:
  assumes "copy_inv s sz n (t, remap, nexts)" and "n < 2 ^ 24" and "\<not> is_ext (rootChunk s (of_nat n))"
  shows "copy_inv s sz (Suc n) (t, remap, nexts)"
  using assms ext_below_Suc(1) [OF assms(2), of s] by (simp add: copy_inv_def)

lemma copy_root_flags:
  assumes "copy_inv s sz n (t, remap, nexts)" and "n < 2 ^ 24"
  shows "rootChunk t (of_nat n) = rootChunk s (of_nat n)"
  using assms ext_below_Suc(2,3) [OF assms(2)] by (simp add: copy_inv_def)

lemma copy_loop_inv:
  assumes "lpm4_inv s" and "card (ext_idx s) \<le> unat sz" and N: "N \<le> 2 ^ 24" and "copy_inv s sz n st" and "n \<le> N"
  shows "\<exists>st'. copy_loop (map of_nat [n..<N]) st = (success, st') \<and> copy_inv s sz N st'"
  using assms(4,5)
proof (induction "N - n" arbitrary: n st)
  case 0
  then show ?case by simp
next
  case (Suc m)
  then have nN: "n < N" and n: "n < 2 ^ 24" using N by simp_all
  obtain t remap nexts where st: "st = (t, remap, nexts)" by (cases st)
  have split: "map of_nat [n..<N] = (of_nat n :: u32) # map of_nat [Suc n..<N]"
    using nN by (simp add: upt_conv_Cons)
  have root: "rootChunk t (of_nat n) = rootChunk s (of_nat n)"
    using copy_root_flags Suc.prems(1) n unfolding st by blast
  have IH: "copy_inv s sz (Suc n) st2 \<Longrightarrow>
      \<exists>st'. copy_loop (map of_nat [Suc n..<N]) st2 = (success, st') \<and> copy_inv s sz N st'" for st2
    using Suc(1) [of "Suc n" st2] Suc(2) nN by simp
  show ?case
  proof (cases "is_ext (rootChunk s (of_nat n))")
    case False
    then show ?thesis
      using IH [of st] copy_skip [OF Suc.prems(1) [unfolded st] n False] root
      unfolding split st by (simp add: flag_tests)
  next
    case True
    show ?thesis
      by (rule copy_step [OF assms(1) Suc.prems(1) [unfolded st] n assms(2) True])
        (use IH root True in \<open>simp add: split st flag_tests Let_def\<close>)
  qed
qed

lemma fold_copy_chunks:
  fixes s t :: lpm4
  assumes "distinct (map snd nexts)"
  defines "t' \<equiv> fold (\<lambda>(f, c). copy_extended_chunk s f c) nexts t"
  shows "stats t' = stats t" and "rootChunk t' = rootChunk t"
    and "(f, c) \<in> set nexts \<Longrightarrow> extendedChunks t' c = extendedChunks s f"
proof -
  show "stats t' = stats t" "rootChunk t' = rootChunk t"
    unfolding t'_def by (induction nexts arbitrary: t) (auto simp: copy_extended_chunk_def)
  have keep: "c \<notin> snd ` set xs \<Longrightarrow>
      extendedChunks (fold (\<lambda>(f, c). copy_extended_chunk s f c) xs u) c = extendedChunks u c" for xs u c
    by (induction xs arbitrary: u) (auto simp: copy_extended_chunk_def)
  show "(f, c) \<in> set nexts \<Longrightarrow> extendedChunks t' c = extendedChunks s f"
    unfolding t'_def using assms(1)
  proof (induction nexts arbitrary: t)
    case (Cons p ps)
    have "extendedChunks (copy_extended_chunk s f c u) c = extendedChunks s f" for u
      by (simp add: copy_extended_chunk_def)
    with Cons show ?case using keep [of c ps] by (cases "p = (f, c)") auto
  qed simp
qed

lemma words_below: "n \<le> 2 ^ 24 \<Longrightarrow> of_nat ` {0..<n} = {i :: u32. i < of_nat n}" "n \<le> 2 ^ 24 \<Longrightarrow> distinct (map of_nat [0..<n] :: u32 list)"
proof -
  assume n: "n \<le> 2 ^ 24"
  have u: "k \<le> n \<Longrightarrow> unat (of_nat k :: u32) = k" for k using n by (intro unat_of_nat_small) simp
  show "of_nat ` {0..<n} = {i :: u32. i < of_nat n}"
  proof safe
    fix i :: u32 assume "i < of_nat n"
    then have "unat i < n" using u [of n] by (simp add: word_less_nat_alt)
    then show "i \<in> of_nat ` {0..<n}" by (intro image_eqI [of _ _ "unat i"]) simp_all
  next
    fix k assume "k \<in> {0..<n}"
    then show "(of_nat k :: u32) < of_nat n" using u [of k] u [of n] by (simp add: word_less_nat_alt)
  qed
  have "inj_on (of_nat :: nat \<Rightarrow> u32) {0..<n}" using u by (metis atLeastLessThan_iff inj_on_inverseI less_imp_le)
  then show "distinct (map of_nat [0..<n] :: u32 list)" by (simp add: distinct_map)
qed

lemma copy_final:
  assumes s: "lpm4_inv s" and J: "copy_inv s sz (2 ^ 24) (t, remap, nexts)" and room: "card (ext_idx s) \<le> unat sz"
  defines "t' \<equiv> fold (\<lambda>(f, c). copy_extended_chunk s f c) nexts t"
  shows "lpm4_inv t'" and "lpm4_value t' a = lpm4_value s a"
    and "extended_chunks_count (stats t') = extended_chunks_count (stats s)" and "extended_chunks_size (stats t') = sz"
proof -
  obtain fl where inv: "lpm4_inv_with fl s" using s by (auto simp: lpm4_inv_def)
  have inj: "inj_on (\<lambda>i. extendedChunkId (rootChunk s i)) (ext_idx s)" using inv by (simp add: lpm4_inv_with_def)
  have all: "ext_below s (2 ^ 24) = ext_idx s" by (auto simp: ext_below_def ext_idx_def word_less_nat_alt)
  define k where "k = length nexts"
  have k: "k = card (ext_idx s)" using copy_inv_length [OF s J] all by (simp add: k_def)
  have k24: "k \<le> 2 ^ 24" using card_ext_le [of s] k by simp
  have snds: "map snd nexts = map of_nat [0..<k]" using J by (simp add: copy_inv_def k_def)
  have dist: "distinct (map snd nexts)" "distinct (map fst nexts)"
    using words_below(2) [OF k24] snds J by (simp_all add: copy_inv_def)
  note fc = fold_copy_chunks [OF dist(1), where s = s and t = t, folded t'_def]
  define g where "g i = the (map_of nexts (extendedChunkId (rootChunk s i)))" for i
  have dom: "extendedChunkId (rootChunk s i) \<in> set (map fst nexts)" if "i \<in> ext_idx s" for i
    using that J all by (auto simp: copy_inv_def)
  have mem: "(extendedChunkId (rootChunk s i), g i) \<in> set nexts" if i: "i \<in> ext_idx s" for i
  proof -
    obtain c where "map_of nexts (extendedChunkId (rootChunk s i)) = Some c"
      using dom [OF i] by (metis map_of_eq_None_iff not_None_eq set_map)
    then show ?thesis by (auto simp: g_def dest: map_of_SomeD)
  qed
  have g: "g i < of_nat k" "g i < 0x1000000" if i: "i \<in> ext_idx s" for i
  proof -
    have "g i \<in> set (map snd nexts)" using mem [OF i] by force
    then show "g i < of_nat k" using snds words_below(1) [OF k24] by auto
    then have "unat (g i) < unat (of_nat k :: u32)" by (simp add: word_less_nat_alt)
    moreover have "unat (of_nat k :: u32) = k" using k24 by (intro unat_of_nat_small) simp
    ultimately show "g i < 0x1000000" using k24 by (simp add: word_less_nat_alt)
  qed
  have root: "rootChunk t' i = (if i \<in> ext_idx s then (rootChunk s i)\<lparr>valueId := ucast (g i)\<rparr> else rootChunk s i)"
    if "i < 0x1000000" for i using that J fc(2) all by (simp add: copy_inv_def g_def)
  have idx: "ext_idx t' = ext_idx s" using root by (auto simp: ext_idx_def is_ext_def split: if_splits)
  have lt: "i \<in> ext_idx s \<Longrightarrow> i < 0x1000000" for i by (simp add: ext_idx_def)
  have eid: "extendedChunkId (rootChunk t' i) = g i" if "i \<in> ext_idx s" for i
    using that root [OF lt [OF that]] chunk_id_round_trip [OF g(2) [OF that]] by simp
  have chunk: "extendedChunks t' (g i) = extendedChunks s (extendedChunkId (rootChunk s i))" if "i \<in> ext_idx s" for i
    using fc(3) [OF mem [OF that]] .
  have injg: "inj_on g (ext_idx s)"
  proof (rule inj_onI)
    fix i j assume ij: "i \<in> ext_idx s" "j \<in> ext_idx s" "g i = g j"
    then have "extendedChunkId (rootChunk s i) = extendedChunkId (rootChunk s j)"
      using mem [OF ij(1)] mem [OF ij(2)] dist(1) by (metis distinct_map inj_on_eq_iff prod.inject snd_conv)
    then show "i = j" using inj ij by (auto dest: inj_onD)
  qed
  have used: "used t' = {i. i < of_nat k}"
  proof -
    have "used t' = g ` ext_idx s" using eid by (simp add: used_def idx)
    moreover have "g ` ext_idx s \<subseteq> {i. i < of_nat k}" using g(1) by auto
    moreover have "card (g ` ext_idx s) = card {i :: u32. i < of_nat k}"
    proof -
      have "unat (of_nat k :: u32) = k" using k24 by (intro unat_of_nat_small) simp
      then show ?thesis using card_image [OF injg] k by (simp add: card_words_below)
    qed
    ultimately show ?thesis by (metis card_subset_eq finite)
  qed
  have st: "extended_chunks_count (stats t') = of_nat k" "max_used_chunk_id (stats t') = of_nat k"
    "extended_chunks_size (stats t') = sz" "\<not> is_ext (free_chunk_cache (stats t'))"
    using J fc(1) by (simp_all add: copy_inv_def k_def)
  have uk: "unat (of_nat k :: u32) = k" using k24 by (intro unat_of_nat_small) simp
  have noext: "\<not> is_ext (extendedChunks s c j)" if "c \<in> used s" for c j using that inv by (auto simp: lpm4_inv_with_def)
  have "lpm4_inv_with [] t'"
    unfolding lpm4_inv_with_def idx
  proof (intro conjI)
    show "inj_on (\<lambda>i. extendedChunkId (rootChunk t' i)) (ext_idx s)" using injg eid by (simp cong: inj_on_cong)
    show "\<forall>c \<in> used t'. \<forall>j. \<not> is_ext (extendedChunks t' c j)"
      using chunk noext eid by (auto simp: used_def idx)
    show "\<forall>i \<in> ext_idx s. \<not> is_val (rootChunk t' i)"
      using inv root lt by (auto simp: lpm4_inv_with_def is_val_def)
  qed (use st used k room k24 uk in \<open>auto simp: word_less_nat_alt\<close>)
  then show "lpm4_inv t'" by (auto simp: lpm4_inv_def)
  show "extended_chunks_size (stats t') = sz" by (rule st(3))
  show "extended_chunks_count (stats t') = extended_chunks_count (stats s)"
    using st(1) k inv by (simp add: lpm4_inv_with_def)
  show "lpm4_value t' a = lpm4_value s a"
  proof (cases "drop_bit 8 a \<in> ext_idx s")
    case True
    then have "is_ext (rootChunk s (drop_bit 8 a))" "\<not> is_val (rootChunk s (drop_bit 8 a))"
      "is_ext (rootChunk t' (drop_bit 8 a))" "\<not> is_val (rootChunk t' (drop_bit 8 a))"
      using inv root [OF root_index] by (auto simp: lpm4_inv_with_def ext_idx_def is_ext_def is_val_def)
    then show ?thesis using eid [OF True] chunk [OF True] by (simp add: lpm4_value_def Let_def)
  next
    case False
    then have "\<not> is_ext (rootChunk s (drop_bit 8 a))" using root_index [of a] by (simp add: ext_idx_def)
    then show ?thesis using False root [OF root_index, of a] by (simp add: lpm4_value_def Let_def)
  qed
qed

lemma copy_inv_start:
  assumes "extended_chunks_count (stats t) = 0" and "extended_chunks_size (stats t) = sz"
    and "max_used_chunk_id (stats t) = 0" and "\<not> is_ext (free_chunk_cache (stats t))"
  shows "copy_inv s sz 0 (t\<lparr>rootChunk := (\<lambda>i. if i < 0x1000000 then rootChunk s i else rootChunk t i)\<rparr>, \<lambda>_. 0, [])"
  using assms by (simp add: copy_inv_def ext_below_def)

lemma copy_correct:
  assumes "lpm4_inv s" and "card (ext_idx s) \<le> unat sz"
    and "extended_chunks_count (stats t) = 0" and "extended_chunks_size (stats t) = sz"
    and "max_used_chunk_id (stats t) = 0" and "\<not> is_ext (free_chunk_cache (stats t))"
  shows "\<exists>t'. lpm4_copy t s = (success, t') \<and> lpm4_inv t' \<and> (\<forall>a. lpm4_value t' a = lpm4_value s a) \<and>
    extended_chunks_count (stats t') = extended_chunks_count (stats s) \<and> extended_chunks_size (stats t') = sz"
proof -
  have "0 \<le> (2 :: nat) ^ 24" by simp
  from copy_loop_inv [OF assms(1,2) order_refl copy_inv_start [OF assms(3-6), of s] this]
  obtain st' where st': "copy_loop root_indices
      (t\<lparr>rootChunk := (\<lambda>i. if i < 0x1000000 then rootChunk s i else rootChunk t i)\<rparr>, \<lambda>_. 0, []) = (success, st')"
    "copy_inv s sz (2 ^ 24) st'" unfolding root_indices_def by blast
  obtain t2 remap nexts where e: "st' = (t2, remap, nexts)" by (cases st')
  have J: "copy_inv s sz (2 ^ 24) (t2, remap, nexts)" using st'(2) unfolding e .
  from st'(1) have "lpm4_copy t s = (success, fold (\<lambda>(f, c). copy_extended_chunk s f c) nexts t2)"
    unfolding e by (simp add: lpm4_copy_def copy_root_chunk_def)
  with copy_final [OF assms(1) J assms(2)] show ?thesis by simp
qed

section \<open>Sizes\<close>

lemma count_facts:
  assumes "lpm4_inv t"
  shows "unat (extended_chunks_count (stats t)) = card (ext_idx t)"
    and "card (ext_idx t) \<le> unat (extended_chunks_size (stats t))"
proof -
  obtain fl where inv: "lpm4_inv_with fl t" using assms by (auto simp: lpm4_inv_def)
  have "unat (of_nat (card (ext_idx t)) :: u64) = card (ext_idx t)"
    using card_ext_le [of t] by (intro unat_of_nat_small) simp
  then show "unat (extended_chunks_count (stats t)) = card (ext_idx t)" using inv by (simp add: lpm4_inv_with_def)
  have "card (ext_idx t) = card (used t)"
    unfolding used_def using inv by (intro card_image [symmetric]) (simp add: lpm4_inv_with_def)
  also have "\<dots> \<le> card {i. i < max_used_chunk_id (stats t)}"
    using inv by (intro card_mono) (auto simp: lpm4_inv_with_def)
  also have "\<dots> \<le> unat (extended_chunks_size (stats t))"
    using inv by (simp add: card_words_below lpm4_inv_with_def)
  finally show "card (ext_idx t) \<le> unat (extended_chunks_size (stats t))" .
qed

definition updater_inv :: "lpm4 \<Rightarrow> bool" where
  "updater_inv t = (lpm4_inv t \<and> 64 \<le> unat (extended_chunks_size (stats t)) \<and>
     unat (extended_chunks_size (stats t)) \<le> 2 ^ 26)"

lemma NeedToGrow_iff:
  assumes "lpm4_inv t"
  shows "NeedToGrow (stats t) \<longleftrightarrow> unat (extended_chunks_size (stats t)) < card (ext_idx t) + 32"
proof -
  have "unat (extended_chunks_size (stats t) - extended_chunks_count (stats t)) =
      unat (extended_chunks_size (stats t)) - card (ext_idx t)"
    using count_facts [OF assms] by (simp add: unat_sub word_le_nat_alt)
  then show ?thesis
    using count_facts [OF assms] by (auto simp: NeedToGrow_def extended_chunks_size_min_def word_less_nat_alt)
qed

lemma unat_GrowSize:
  assumes "unat (extended_chunks_size s) < 2 ^ 63"
  shows "unat (GrowSize s) = 2 * unat (extended_chunks_size s)"
  using assms by (simp add: GrowSize_def unat_word_ariths)

lemma never_shrinks:
  assumes "unat (extended_chunks_size s) < 2 ^ 63"
  shows "\<not> NeedToShrink s"
proof -
  have "ShrinkSize s \<le> GrowSize s"
    using unat_GrowSize [OF assms] by (simp add: ShrinkSize_def word_le_nat_alt unat_div)
  then show ?thesis by (auto simp: NeedToShrink_def)
qed

text \<open>Growing keeps every value and leaves room for the next update.\<close>

lemma grow_correct:
  assumes "updater_inv t"
    and "(if NeedToGrow (stats t) then Resize alloc (GrowSize (stats t)) t else (success, t)) = (r, t')"
  shows "r = success \<and> updater_inv t' \<and> (\<forall>a. lpm4_value t' a = lpm4_value t a) \<and>
      extended_chunks_count (stats t') \<noteq> extended_chunks_size (stats t') \<or>
    r = errorAllocatingMemory \<and> t' = t \<and> NeedToGrow (stats t) \<and> alloc (GrowSize (stats t)) = None"
proof (cases "NeedToGrow (stats t)")
  case False
  then show ?thesis
    using assms NeedToGrow_iff [of t] count_facts [of t] by (auto simp: updater_inv_def word_unat_eq_iff)
next
  case True
  show ?thesis
  proof (cases "alloc (GrowSize (stats t))")
    case None
    then show ?thesis using True assms by (simp add: Resize_def)
  next
    case (Some pool)
    have inv: "lpm4_inv t" using assms by (simp add: updater_inv_def)
    let ?sz = "unat (extended_chunks_size (stats t))"
    have lt: "?sz < card (ext_idx t) + 32" using True NeedToGrow_iff [OF inv] by simp
    then have sz: "?sz < 2 ^ 24 + 32" using card_ext_le [of t] by linarith
    then have g: "unat (GrowSize (stats t)) = 2 * ?sz" by (intro unat_GrowSize) simp
    have room: "card (ext_idx t) \<le> unat (GrowSize (stats t))" using count_facts [OF inv] g by simp
    obtain t2 where t2: "lpm4_copy (lpm4_fresh (GrowSize (stats t)) pool) t = (success, t2)" "lpm4_inv t2"
        "\<forall>a. lpm4_value t2 a = lpm4_value t a" "extended_chunks_count (stats t2) = extended_chunks_count (stats t)"
        "extended_chunks_size (stats t2) = GrowSize (stats t)"
      using copy_correct [OF inv room, of "lpm4_fresh (GrowSize (stats t)) pool"] by (auto simp: lpm4_fresh_def)
    have "(r, t') = (success, t2)" using assms(2) True Some t2(1) by (simp add: Resize_def)
    moreover have "updater_inv t2" using t2 g sz assms(1) by (simp add: updater_inv_def)
    moreover have "extended_chunks_count (stats t2) \<noteq> extended_chunks_size (stats t2)"
      using t2(4,5) g count_facts [OF inv] assms(1) by (auto simp: updater_inv_def word_unat_eq_iff)
    ultimately show ?thesis using t2(3) by simp
  qed
qed

lemma size_free [simp]: "extended_chunks_size (stats (freeExtendedChunk t c)) = extended_chunks_size (stats t)"
  by (simp add: freeExtendedChunk_def Let_def)

lemma size_new: "newExtendedChunk t = Some (t', c) \<Longrightarrow> extended_chunks_size (stats t') = extended_chunks_size (stats t)"
  by (auto simp: newExtendedChunk_def Let_def split: if_splits)

lemma size_fold_root [simp]:
  "extended_chunks_size (stats (fold (\<lambda>j. set_root_entry (f j) fl v) js t)) = extended_chunks_size (stats t)"
  by (induction js arbitrary: t) (simp_all add: set_root_entry_def Let_def)

lemma size_insert: "extended_chunks_size (stats (snd (lpm4_insert t ip msk v))) = extended_chunks_size (stats t)"
  by (auto simp: lpm4_insert_def insertStep1_def insertStep2_def Let_def dest: size_new split: option.splits)

lemma size_remove: "extended_chunks_size (stats (snd (lpm4_remove t ip msk))) = extended_chunks_size (stats t)"
  by (auto simp: lpm4_remove_def removeStep1_def removeStep2_def Let_def dest: size_new split: option.splits)

lemma updater_insert_outcome:
  assumes "updater_inv t" and "host_bits_zero ip msk" and "msk \<le> 32" and "v < 0x1000000"
    and out: "updater_insert alloc t ip msk v = (r, t')"
  shows "r = success \<and> updater_inv t' \<and>
      (\<forall>a. lpm4_value t' a = (if prefix_match ip msk a then Some v else lpm4_value t a)) \<or>
    r = errorAllocatingMemory \<and> t' = t \<and> NeedToGrow (stats t) \<and> alloc (GrowSize (stats t)) = None"
proof -
  obtain r1 t1 where g: "(if NeedToGrow (stats t) then Resize alloc (GrowSize (stats t)) t else (success, t)) = (r1, t1)"
    by force
  from grow_correct [OF assms(1) g] show ?thesis
  proof
    assume a: "r1 = success \<and> updater_inv t1 \<and> (\<forall>a. lpm4_value t1 a = lpm4_value t a) \<and>
      extended_chunks_count (stats t1) \<noteq> extended_chunks_size (stats t1)"
    then have o: "lpm4_insert t1 ip msk v = (r, t')" using out g by (simp add: updater_insert_def)
    have "lpm4_inv t1" using a by (simp add: updater_inv_def)
    from outcome_needWait [OF insert_outcome [OF this assms(2-4)]] a o size_insert [of t1 ip msk v]
    show ?thesis by (auto simp: updater_inv_def)
  qed (use out g in \<open>auto simp: updater_insert_def\<close>)
qed

lemma updater_remove_outcome:
  assumes "updater_inv t" and "host_bits_zero ip msk" and "msk \<le> 32"
    and out: "updater_remove alloc t ip msk = (r, t')"
  shows "r = success \<and> updater_inv t' \<and>
      (\<forall>a. lpm4_value t' a = (if prefix_match ip msk a then None else lpm4_value t a)) \<or>
    r = errorAllocatingMemory \<and> t' = t \<and> NeedToGrow (stats t) \<and> alloc (GrowSize (stats t)) = None"
proof -
  obtain r1 t1 where g: "(if NeedToGrow (stats t) then Resize alloc (GrowSize (stats t)) t else (success, t)) = (r1, t1)"
    by force
  from grow_correct [OF assms(1) g] show ?thesis
  proof
    assume a: "r1 = success \<and> updater_inv t1 \<and> (\<forall>a. lpm4_value t1 a = lpm4_value t a) \<and>
      extended_chunks_count (stats t1) \<noteq> extended_chunks_size (stats t1)"
    obtain r2 t2 where o: "lpm4_remove t1 ip msk = (r2, t2)" by force
    have "lpm4_inv t1" using a by (simp add: updater_inv_def)
    from outcome_needWait [OF remove_outcome [OF this assms(2,3)]] a o size_remove [of t1 ip msk]
    have t2: "r2 = success" "updater_inv t2"
      "\<forall>a. lpm4_value t2 a = (if prefix_match ip msk a then None else lpm4_value t a)"
      by (auto simp: updater_inv_def)
    have "\<not> NeedToShrink (stats t2)" using t2(2) by (intro never_shrinks) (simp add: updater_inv_def)
    then have "(r, t') = (success, t2)" using out g a o t2(1) by (simp add: updater_remove_def)
    with t2 show ?thesis by simp
  qed (use out g in \<open>auto simp: updater_remove_def\<close>)
qed

section \<open>The forwarding table contract\<close>

datatype fib_update = fib_insert u32 u8 u32 | fib_remove u32 u8

fun fib_step :: "allocator \<Rightarrow> fib_update \<Rightarrow> lpm4 \<Rightarrow> lpm4" where
  "fib_step alloc (fib_insert ip msk v) t = snd (updater_insert alloc t ip msk v)"
| "fib_step alloc (fib_remove ip msk) t = snd (updater_remove alloc t ip msk)"

fun fib_ok :: "fib_update \<Rightarrow> bool" where
  "fib_ok (fib_insert ip msk v) = (host_bits_zero ip msk \<and> msk \<le> 32 \<and> v < 0x1000000)"
| "fib_ok (fib_remove ip msk) = (host_bits_zero ip msk \<and> msk \<le> 32)"

fun fib_covers :: "fib_update \<Rightarrow> u32 \<Rightarrow> bool" where
  "fib_covers (fib_insert ip msk v) a = prefix_match ip msk a"
| "fib_covers (fib_remove ip msk) a = prefix_match ip msk a"

fun fib_value :: "fib_update \<Rightarrow> u32 option" where
  "fib_value (fib_insert ip msk v) = Some v"
| "fib_value (fib_remove ip msk) = None"

lemma fib_step_correct:
  assumes "updater_inv t" and "fib_ok u"
  shows "updater_inv (fib_step (\<lambda>sz. Some (pool sz)) u t) \<and>
    lpm4_value (fib_step (\<lambda>sz. Some (pool sz)) u t) a = (if fib_covers u a then fib_value u else lpm4_value t a)"
proof (cases u)
  case (fib_insert ip msk v)
  then show ?thesis
    using assms updater_insert_outcome [of t ip msk v "\<lambda>sz. Some (pool sz)"]
    by (cases "updater_insert (\<lambda>sz. Some (pool sz)) t ip msk v") auto
next
  case (fib_remove ip msk)
  then show ?thesis
    using assms updater_remove_outcome [of t ip msk "\<lambda>sz. Some (pool sz)"]
    by (cases "updater_remove (\<lambda>sz. Some (pool sz)) t ip msk") auto
qed

interpretation lpm4_fib: override_table updater_inv fib_ok "fib_step (\<lambda>sz. Some (pool sz))" lpm4_value fib_covers fib_value
  for pool
  by unfold_locales (simp_all add: fib_step_correct)

section \<open>Properties\<close>

text \<open>The tables \<^verbatim>\<open>init\<close> produces satisfy the invariant of the updater.\<close>

lemma init_inv: "updater_init alloc = (success, Some t) \<Longrightarrow> updater_inv t \<and> lpm4_value t a = None"
  by (auto simp: updater_init_def extended_chunks_size_min_def updater_inv_def lpm4_fresh_inv Let_def split: option.splits)
    (simp_all add: lpm4_fresh_def)

text \<open>
  C2: when the allocator never fails, a forwarding table that the updater has initialised and then
  changed by any sequence of insertions and removals of prefixes without host bits answers the lookup
  of every address with the value of the last update that covers the address, and with no value if
  that was a removal or none covers it; growing the pool of chunks on the way is invisible.
\<close>

theorem updater_lookup_after_updates:
  assumes "updater_init (\<lambda>sz. Some (pool sz)) = (success, Some t)" and "list_all fib_ok us"
  shows "lpm4_lookup (fold (fib_step (\<lambda>sz. Some (pool sz))) us t) a =
    (case List.find (\<lambda>u. fib_covers u (be_to_cpu_32 a)) (rev us) of
       Some (fib_insert ip msk v) \<Rightarrow> (True, v)
     | _ \<Rightarrow> (False, lpmValueIdInvalid))"
proof -
  have t: "updater_inv t" "lpm4_value t b = None" for b using init_inv [OF assms(1)] by auto
  show ?thesis
    unfolding lookup_value lpm4_fib.val_steps [OF t(1) assms(2)] t(2)
    by (auto split: option.split fib_update.split)
qed

theorem updater_lookup_after_updates_witness:
  "let alloc = (\<lambda>sz. Some (\<lambda>_ _. zero_entry)); us = [fib_insert 0x0A000000 8 5, fib_insert 0x0A000080 25 6, fib_remove 0x0A000000 16]
   in list_all fib_ok us \<and> (\<exists>t. updater_init alloc = (success, Some t) \<and>
        lpm4_lookup (fold (fib_step alloc) us t) 0x0100010A = (True, 5) \<and>
        lpm4_lookup (fold (fib_step alloc) us t) 0x8100000A = (False, lpmValueIdInvalid))"
proof -
  let ?alloc = "\<lambda>sz :: u64. Some (\<lambda>(_ :: u32) (_ :: u8). zero_entry)"
  let ?us = "[fib_insert 0x0A000000 8 5, fib_insert 0x0A000080 25 6, fib_remove 0x0A000000 16]"
  obtain t where t: "updater_init ?alloc = (success, Some t)" by (simp add: updater_init_def Let_def)
  have ok: "list_all fib_ok ?us" by code_simp
  have f: "List.find (\<lambda>u. fib_covers u (be_to_cpu_32 0x0100010A)) (rev ?us) = Some (fib_insert 0x0A000000 8 5)"
    "List.find (\<lambda>u. fib_covers u (be_to_cpu_32 0x8100000A)) (rev ?us) = Some (fib_remove 0x0A000000 16)"
    by code_simp+
  show ?thesis
    unfolding Let_def
  proof (intro conjI exI)
    show "lpm4_lookup (fold (fib_step ?alloc) ?us t) 0x0100010A = (True, 5)"
      unfolding updater_lookup_after_updates [OF t ok] f by simp
    show "lpm4_lookup (fold (fib_step ?alloc) ?us t) 0x8100000A = (False, lpmValueIdInvalid)"
      unfolding updater_lookup_after_updates [OF t ok] f by simp
  qed (rule ok t)+
qed

text \<open>
  C24: an insertion through the updater never fails for lack of chunks.  It either succeeds with the
  new value on the prefix and nothing else changed, or the table had to grow, the allocation failed
  and the table is untouched.
\<close>

theorem updater_insert_never_full:
  assumes "updater_inv t" and "host_bits_zero ip msk" and "msk \<le> 32" and "v < 0x1000000"
    and "updater_insert alloc t ip msk v = (r, t')"
  shows "r = success \<and> updater_inv t' \<and>
      (\<forall>a. lpm4_lookup t' a = (if prefix_match ip msk (be_to_cpu_32 a) then (True, v) else lpm4_lookup t a)) \<or>
    r = errorAllocatingMemory \<and> t' = t \<and> NeedToGrow (stats t) \<and> alloc (GrowSize (stats t)) = None"
  using updater_insert_outcome [OF assms] by (auto simp: lookup_value)

theorem updater_insert_never_full_witness:
  "let t = lpm4_fresh 64 (\<lambda>_ _. zero_entry); (r, t') = updater_insert (\<lambda>_. None) t 0x0A000000 24 7
   in updater_inv t \<and> host_bits_zero 0x0A000000 24 \<and> r = success \<and> lpm4_lookup t' 0x0500000A = (True, 7)"
proof -
  let ?t = "lpm4_fresh 64 (\<lambda>_ _. zero_entry)"
  have inv: "updater_inv ?t" by (simp add: updater_inv_def lpm4_fresh_inv) (simp add: lpm4_fresh_def)
  have h: "host_bits_zero 0x0A000000 24" "prefix_match 0x0A000000 24 (be_to_cpu_32 0x0500000A)"
    "\<not> NeedToGrow (stats ?t)" by code_simp+
  obtain r t' where rt: "updater_insert (\<lambda>_. None) ?t 0x0A000000 24 7 = (r, t')" by force
  show ?thesis
    using updater_insert_never_full [OF inv h(1) _ _ rt] h rt inv by simp
qed

text \<open>
  Copying a table into a fresh pool that is large enough succeeds, keeps the answer of every
  lookup and the number of chunks in use, and establishes the invariant with the new pool size.
\<close>

lemma lpm4_copy_keeps_lookups:
  assumes "lpm4_inv s" and "extended_chunks_count (stats s) \<le> sz"
  shows "\<exists>t'. lpm4_copy (lpm4_fresh sz pool) s = (success, t') \<and> lpm4_inv t' \<and>
    (\<forall>a. lpm4_lookup t' a = lpm4_lookup s a) \<and>
    extended_chunks_count (stats t') = extended_chunks_count (stats s) \<and> extended_chunks_size (stats t') = sz"
proof -
  have "card (ext_idx s) \<le> unat sz" using assms(2) count_facts(1) [OF assms(1)] by (simp add: word_le_nat_alt)
  from copy_correct [OF assms(1) this, of "lpm4_fresh sz pool"] show ?thesis
    by (auto simp: lpm4_fresh_def lookup_value)
qed

text \<open>
  The condition \<^verbatim>\<open>NeedToShrink\<close> compares half the size with the maximum of the minimal size and
  twice the size, so that it is false for every pool of fewer than \<open>2 ^ 63\<close> chunks: the pool is never
  shrunk, neither after a removal nor by \<^verbatim>\<open>clear\<close>.
\<close>

lemma updater_never_shrinks:
  assumes "extended_chunks_size (stats t) < 0x8000000000000000"
  shows "\<not> NeedToShrink (stats t) \<and>
    updater_clear alloc (Some t) = Some ((lpm4_clear t)\<lparr>stats := stats_clear (stats t)\<rparr>)"
proof -
  have "unat (extended_chunks_size (stats t)) < 2 ^ 63" using assms by (simp add: word_less_nat_alt)
  then have "\<not> NeedToShrink (stats t)" "\<not> NeedToShrink (stats_clear (stats t))"
    by (simp_all add: never_shrinks stats_clear_def)
  then show ?thesis by (simp add: updater_clear_def Let_def lpm4_clear_def)
qed

end
