(* ===== verification/MemoryManager.thy ===== *)
theory MemoryManager
  imports Prelude "HOL-Library.AList"
begin

text \<open>
  The memory manager of the data plane, \<^verbatim>\<open>src/dataplane/memory_manager.{h,cpp}\<close>, and the memory groups
  with their limits, \<^verbatim>\<open>src/common/memory_manager.h\<close>.  The allocator of DPDK is a parameter: a record
  of its two functions on an arbitrary type of heaps, and the size of a cache line.  A null pointer is
  the address 0.  The mutex of the manager is part of its state, because the destructor of an object
  that owns another one comes back to the manager while it is locked.
\<close>

section \<open>Memory groups\<close>

datatype memory_group =
  memory_group (group_name: string) (group_limit: u64) (memory_groups: "memory_group list")

text \<open>
  \<^verbatim>\<open>memory_group::for_each\<close> visits the subgroups before the group and hands the callback the names
  below the group.  The \<^verbatim>\<open>std::set\<close> of names is a list without duplicates.
\<close>

fun for_each :: "(memory_group \<Rightarrow> string list \<Rightarrow> 'c \<Rightarrow> 'c) \<Rightarrow> memory_group \<Rightarrow> 'c \<Rightarrow> string list \<times> 'c"
and for_each_groups :: "(memory_group \<Rightarrow> string list \<Rightarrow> 'c \<Rightarrow> 'c) \<Rightarrow> memory_group list \<Rightarrow> string list \<Rightarrow> 'c \<Rightarrow> string list \<times> 'c" where
  "for_each callback (memory_group n l gs) c =
     (let (object_names, c) = (if gs = [] then ([n], c) else for_each_groups callback gs [] c)
      in (object_names, callback (memory_group n l gs) object_names c))"
| "for_each_groups callback [] object_names c = (object_names, c)"
| "for_each_groups callback (g # gs) object_names c =
     (let (object_names_next, c) = for_each callback g c
      in for_each_groups callback gs (fold List.insert object_names_next object_names) c)"

section \<open>The manager\<close>

text \<open>What is recorded of an allocation; the destructor is taken up at \<^verbatim>\<open>destroy\<close>.\<close>

record memory_pointer =
  mp_name :: string
  mp_socket_id :: u32
  mp_size :: u64

record 'h dpdk =
  cache_line_size :: u64
  rte_malloc_socket :: "'h \<Rightarrow> u64 \<Rightarrow> u32 \<Rightarrow> u64 \<times> 'h"
  rte_free :: "'h \<Rightarrow> u64 \<Rightarrow> 'h"

record 'h memory_manager =
  pointers :: "(u64 \<times> memory_pointer) list"
  root_memory_group :: memory_group
  mutex_locked :: bool
  heap :: 'h

definition memory_manager_update :: "memory_group \<Rightarrow> 'h memory_manager \<Rightarrow> eResult \<times> 'h memory_manager" where
  "memory_manager_update request m = (success, m\<lparr>root_memory_group := request\<rparr>)"

definition memory_manager_stats :: "'h memory_manager \<Rightarrow> memory_group \<times> (string \<times> u32 \<times> u64) list" where
  "memory_manager_stats m =
     (root_memory_group m, map (\<lambda>(_, p). (mp_name p, mp_socket_id p, mp_size p)) (pointers m))"

text \<open>The map \<^verbatim>\<open>currents\<close>, whose missing entries read as zero.\<close>

definition currents :: "'h memory_manager \<Rightarrow> string \<Rightarrow> u64 \<Rightarrow> string \<Rightarrow> u64" where
  "currents m nm sz =
     fold (\<lambda>(_, p) c.
         let object_size = (if mp_name p = nm then sz else mp_size p)
         in c(mp_name p := max (c (mp_name p)) object_size))
       (pointers m) (\<lambda>_. 0)"

definition group_total :: "(string \<Rightarrow> u64) \<Rightarrow> string list \<Rightarrow> u64" where
  "group_total c object_names = fold (\<lambda>object_name t. t + c object_name) object_names 0"

definition check_memory_limit :: "'h memory_manager \<Rightarrow> string \<Rightarrow> u64 \<Rightarrow> bool" where
  "check_memory_limit m nm sz =
     snd (for_each
       (\<lambda>g object_names result.
          if nm \<in> set object_names \<and> group_limit g \<noteq> 0 \<and>
             group_total (currents m nm sz) object_names > group_limit g
          then False else result)
       (root_memory_group m) True)"

definition mm_alloc :: "'h dpdk \<Rightarrow> string \<Rightarrow> u32 \<Rightarrow> u64 \<Rightarrow> 'h memory_manager \<Rightarrow> u64 \<times> 'h memory_manager" where
  "mm_alloc d nm socket_id sz m =
     (if sz = 0 then (0, m)
      else let sz = sz + 2 * cache_line_size d
           in if \<not> check_memory_limit m nm sz then (0, m)
              else let (pointer, h) = rte_malloc_socket d (heap m) sz socket_id;
                       m = m\<lparr>heap := h\<rparr>
                   in if pointer = 0 then (0, m)
                      else (pointer,
                        m\<lparr>pointers := insort_key fst
                           (pointer, \<lparr>mp_name = nm, mp_socket_id = socket_id, mp_size = sz\<rparr>) (pointers m)\<rparr>))"

text \<open>
  \<^verbatim>\<open>destroy\<close> holds the mutex while \<^verbatim>\<open>pointers.erase\<close> runs the destructor of the object and then
  \<^verbatim>\<open>rte_free\<close>.  Of the destructor the model has what it does to the manager: a member of type
  \<^verbatim>\<open>memory_manager::unique_ptr\<close> destroys the object it owns, which \<open>owns\<close> gives for every object.
  Locking the mutex a second time in the same thread does not return: \<open>None\<close>.
\<close>

function mm_destroy :: "'h dpdk \<Rightarrow> (u64 \<Rightarrow> u64 option) \<Rightarrow> u64 \<Rightarrow> 'h memory_manager \<Rightarrow> 'h memory_manager option" where
  "mm_destroy d owns pointer m =
     (if mutex_locked m then None
      else case map_of (pointers m) pointer of
             None \<Rightarrow> Some m
           | Some _ \<Rightarrow>
               (case (case owns pointer of
                        None \<Rightarrow> Some (m\<lparr>mutex_locked := True\<rparr>)
                      | Some member \<Rightarrow> mm_destroy d owns member (m\<lparr>mutex_locked := True\<rparr>)) of
                  None \<Rightarrow> None
                | Some m \<Rightarrow> Some (m\<lparr>pointers := AList.delete pointer (pointers m),
                                    heap := rte_free d (heap m) pointer, mutex_locked := False\<rparr>)))"
  by pat_completeness auto
termination by (relation "measure (\<lambda>(d, owns, p, m). if mutex_locked m then 0 else 1)") auto

declare mm_destroy.simps [simp del]

text \<open>
  \<^verbatim>\<open>create\<close> and \<^verbatim>\<open>create_unique\<close>: the constructor runs at the address that \<^verbatim>\<open>alloc\<close> returned.  Only
  \<^verbatim>\<open>create\<close> tests it; a constructor that runs at the null address is undefined behaviour, \<open>None\<close>.
\<close>

definition mm_create :: "'h dpdk \<Rightarrow> string \<Rightarrow> u32 \<Rightarrow> u64 \<Rightarrow> 'h memory_manager \<Rightarrow> u64 \<times> 'h memory_manager" where
  "mm_create d nm socket_id sz m =
     (let (pointer, m) = mm_alloc d nm socket_id sz m
      in if pointer = 0 then (0, m) else (pointer, m))"

lemma mm_create_alloc [simp]: "mm_create d nm socket_id sz m = mm_alloc d nm socket_id sz m"
  by (simp add: mm_create_def split: prod.split)

definition mm_create_unique :: "'h dpdk \<Rightarrow> string \<Rightarrow> u32 \<Rightarrow> u64 \<Rightarrow> 'h memory_manager \<Rightarrow> (u64 \<times> 'h memory_manager) option" where
  "mm_create_unique d nm socket_id sz m =
     (let (pointer, m) = mm_alloc d nm socket_id sz m
      in if pointer = 0 then None else Some (pointer, m))"

section \<open>Limits\<close>

text \<open>The declarative reading: the groups of a tree, and the names of the objects below a group.\<close>

fun all_groups :: "memory_group \<Rightarrow> memory_group list" where
  "all_groups (memory_group n l gs) = concat (map all_groups gs) @ [memory_group n l gs]"

fun object_names_below :: "memory_group \<Rightarrow> string set" where
  "object_names_below (memory_group n l gs) =
     (if gs = [] then {n} else (\<Union>g \<in> set gs. object_names_below g))"

lemma set_fold_insert: "set (fold List.insert xs ys) = set xs \<union> set ys"
  and distinct_fold_insert: "distinct ys \<Longrightarrow> distinct (fold List.insert xs ys)"
  by (induction xs arbitrary: ys) auto

lemma group_total_sum: "distinct xs \<Longrightarrow> group_total c xs = (\<Sum>x \<in> set xs. c x)"
proof -
  have "fold (\<lambda>x t. t + c x) xs a = a + (\<Sum>x \<in> set xs. c x)" if "distinct xs" for a
    using that by (induction xs arbitrary: a) (simp_all add: add.assoc)
  then show "distinct xs \<Longrightarrow> ?thesis" by (simp add: group_total_def)
qed

text \<open>A callback that refuses the groups with a property of their names, whatever the order of the names.\<close>

lemma for_each_check:
  assumes Q: "\<And>g names. distinct names \<Longrightarrow> Q g names = P g (set names)"
  shows "for_each (\<lambda>g names result. if Q g names then False else result) g result = (names, result') \<Longrightarrow>
      set names = object_names_below g \<and> distinct names \<and>
      result' = (result \<and> (\<forall>g' \<in> set (all_groups g). \<not> P g' (object_names_below g')))"
    and "for_each_groups (\<lambda>g names result. if Q g names then False else result) gs acc result = (names, result') \<Longrightarrow> distinct acc \<Longrightarrow>
      set names = set acc \<union> (\<Union>g \<in> set gs. object_names_below g) \<and> distinct names \<and>
      result' = (result \<and> (\<forall>g \<in> set gs. \<forall>g' \<in> set (all_groups g). \<not> P g' (object_names_below g')))"
proof (induction "\<lambda>g names result. if Q g names then False else result" g result
      and "\<lambda>g names result. if Q g names then False else result" gs acc result arbitrary: names result' and names result'
    rule: for_each_for_each_groups.induct)
  case (1 n l gs c)
  show ?case
  proof (cases "gs = []")
    case True
    then show ?thesis using 1(2) by (auto simp: Q split: if_splits)
  next
    case False
    obtain ns r where e: "for_each_groups (\<lambda>g names result. if Q g names then False else result) gs [] c = (ns, r)" by force
    from 1(1) [OF False e] False 1(2) e show ?thesis by (auto simp: Q split: if_splits)
  qed
next
  case (3 g gs acc c)
  obtain ns r where e: "for_each (\<lambda>g names result. if Q g names then False else result) g c = (ns, r)" by force
  have d: "distinct (fold List.insert ns acc)" using 3(4) by (rule distinct_fold_insert)
  from 3(1) [OF e] 3(2) [OF e [symmetric] refl _ d] 3(3) e show ?case by (auto simp: set_fold_insert)
qed auto

text \<open>The largest live object of a name; the objects of the allocated name count with the new size.\<close>

lemma currents_absent: "nm \<notin> (mp_name \<circ> snd) ` set (pointers m) \<Longrightarrow> currents m nm sz = currents m nm sz'"
  unfolding currents_def by (rule fold_cong) force+

text \<open>
  The recursive visit decides the declarative condition: for every group of the tree that contains the
  name, at any depth, the group has no limit or the sum of the current sizes of its objects is within it.
\<close>

lemma check_memory_limit_iff:
  "check_memory_limit m nm sz =
     (\<forall>g \<in> set (all_groups (root_memory_group m)).
        nm \<in> object_names_below g \<longrightarrow> group_limit g = 0 \<or>
        (\<Sum>object_name \<in> object_names_below g. currents m nm sz object_name) \<le> group_limit g)"
proof -
  define Q where "Q g names = (nm \<in> set names \<and> group_limit g \<noteq> 0 \<and> group_total (currents m nm sz) names > group_limit g)"
    for g names
  define P where "P g S = (nm \<in> S \<and> group_limit g \<noteq> 0 \<and> (\<Sum>x \<in> S. currents m nm sz x) > group_limit g)" for g S
  have Q: "Q g names = P g (set names)" if "distinct names" for g names
    using group_total_sum [OF that] by (simp add: P_def Q_def)
  obtain names r where e: "for_each (\<lambda>g names result. if Q g names then False else result) (root_memory_group m) True = (names, r)"
    by force
  have "check_memory_limit m nm sz = r" using e by (simp add: check_memory_limit_def Q_def)
  with for_each_check(1) [of Q P, OF Q e] show ?thesis by (auto simp: P_def linorder_not_less)
qed

section \<open>The set of live pointers\<close>

text \<open>
  What the manager relies on of the allocator: it returns the null pointer or an address that is not
  in use, and only \<^verbatim>\<open>rte_free\<close> gives an address back.
\<close>

definition malloc_ok :: "'h dpdk \<Rightarrow> ('h \<Rightarrow> u64 set) \<Rightarrow> bool" where
  "malloc_ok d used \<longleftrightarrow>
     (\<forall>h sz s p h'. rte_malloc_socket d h sz s = (p, h') \<longrightarrow>
        (if p = 0 then used h' = used h else p \<notin> used h \<and> used h' = insert p (used h))) \<and>
     (\<forall>h p. used (rte_free d h p) = used h - {p})"

definition live :: "'h memory_manager \<Rightarrow> u64 set" where
  "live m = fst ` set (pointers m)"

definition mm_inv :: "('h \<Rightarrow> u64 set) \<Rightarrow> 'h memory_manager \<Rightarrow> bool" where
  "mm_inv used m \<longleftrightarrow> live m \<subseteq> used (heap m) \<and> 0 \<notin> live m \<and> distinct (map fst (pointers m)) \<and>
     sorted (map fst (pointers m)) \<and> \<not> mutex_locked m"

lemma map_fst_insort: "map fst (insort_key fst x xs) = insort (fst x) (map fst xs)"
  by (induction xs) auto

lemma mm_alloc_cases:
  assumes "mm_alloc d nm s sz m = (p, m')"
  obtains "p = 0" and "m' = m"
  | h where "rte_malloc_socket d (heap m) (sz + 2 * cache_line_size d) s = (0, h)" and "p = 0" and "m' = m\<lparr>heap := h\<rparr>"
  | h mp where "rte_malloc_socket d (heap m) (sz + 2 * cache_line_size d) s = (p, h)" and "p \<noteq> 0" and "sz \<noteq> 0"
      and "check_memory_limit m nm (sz + 2 * cache_line_size d)"
      and "m' = m\<lparr>heap := h, pointers := insort_key fst (p, mp) (pointers m)\<rparr>"
proof -
  obtain q h where q: "rte_malloc_socket d (heap m) (sz + 2 * cache_line_size d) s = (q, h)" by force
  show thesis
  proof (cases "sz = 0 \<or> \<not> check_memory_limit m nm (sz + 2 * cache_line_size d)")
    case True
    then show thesis using that(1) assms by (cases "sz = 0") (simp_all add: mm_alloc_def Let_def)
  next
    case False
    then show thesis using that(2,3) q assms by (cases "q = 0") (auto simp: mm_alloc_def)
  qed
qed

lemma mm_alloc_effect:
  assumes d: "malloc_ok d used" and inv: "mm_inv used m" and a: "mm_alloc d nm s sz m = (p, m')"
  shows "mm_inv used m' \<and> (if p = 0 then live m' = live m else sz \<noteq> 0 \<and> p \<notin> live m \<and> live m' = insert p (live m))"
  using a
proof (cases rule: mm_alloc_cases)
  case 1
  then show ?thesis using inv by simp
next
  case (2 h)
  then have "used h = used (heap m)" using d unfolding malloc_ok_def by (metis (full_types))
  then show ?thesis using 2 inv by (simp add: mm_inv_def live_def)
next
  case (3 h mp)
  then have "p \<notin> used (heap m) \<and> used h = insert p (used (heap m))" using d unfolding malloc_ok_def by (metis (full_types))
  then show ?thesis using 3 inv by (auto simp: mm_inv_def live_def set_insort_key map_fst_insort distinct_insort sorted_insort)
qed

lemma mm_destroy_effect:
  assumes d: "malloc_ok d used" and inv: "mm_inv used m" and o: "owns p = None"
  shows "\<exists>m'. mm_destroy d owns p m = Some m' \<and> mm_inv used m' \<and> live m' = live m - {p}"
proof (cases "map_of (pointers m) p")
  case None
  then have "mm_destroy d owns p m = Some m" using inv by (simp add: mm_destroy.simps [of d owns p m] mm_inv_def)
  moreover have "p \<notin> live m" using None by (simp add: live_def map_of_eq_None_iff)
  ultimately show ?thesis using inv by simp
next
  case (Some mp)
  have u: "used (rte_free d (heap m) p) = used (heap m) - {p}" using d by (simp add: malloc_ok_def)
  have k: "map fst (AList.delete p (pointers m)) = filter (\<lambda>x. x \<noteq> p) (map fst (pointers m))"
    by (simp add: AList.delete_eq filter_map comp_def split_def eq_commute [of p])
  let ?m = "m\<lparr>pointers := AList.delete p (pointers m), heap := rte_free d (heap m) p, mutex_locked := False\<rparr>"
  have l: "live ?m = live m - {p}" by (simp add: live_def delete_keys image_set flip: set_map)
  have "mm_destroy d owns p m = Some ?m" using Some inv by (simp add: mm_destroy.simps [of d owns p m] o mm_inv_def)
  moreover have "mm_inv used ?m"
    using inv u k l by (auto simp: mm_inv_def sorted_filter [where f = id, simplified])
  ultimately show ?thesis using l by blast
qed

lemma destroy_effect:
  assumes "malloc_ok d used" and "mm_inv used m"
  obtains m' where "mm_destroy d (\<lambda>_. None) p m = Some m'" and "mm_inv used m'" and "live m' = live m - {p}"
  using mm_destroy_effect [OF assms, of "\<lambda>_. None" p] by auto

text \<open>An object that owns another one: the second lock is never granted.\<close>

lemma mm_destroy_owner:
  assumes "map_of (pointers m) p = Some mp" and "owns p = Some q"
  shows "mm_destroy d owns p m = None"
  using assms by (simp add: mm_destroy.simps [of d owns p m] mm_destroy.simps [of d owns q])

section \<open>An instance\<close>

text \<open>An allocator that hands out increasing addresses and refuses blocks of more than a gigabyte.\<close>

definition bump_dpdk :: "u64 list dpdk" where
  "bump_dpdk = \<lparr>cache_line_size = 64,
     rte_malloc_socket = (\<lambda>h sz s. let p = foldr max h 0 + 1
        in if sz > 0x40000000 \<or> p = 0 then (0, h) else (p, p # h)),
     rte_free = (\<lambda>h p. removeAll p h)\<rparr>"

lemma bump_dpdk_ok: "malloc_ok bump_dpdk set"
proof -
  have "q \<le> foldr max h 0" if "q \<in> set h" for q and h :: "u64 list"
    using that by (induction h) (auto simp: max_def)
  moreover have "\<not> x + 1 \<le> x" if "x + 1 \<noteq> 0" for x :: u64
    using that unatSuc [of x] by (simp add: word_le_nat_alt add.commute)
  ultimately show ?thesis by (auto simp: malloc_ok_def bump_dpdk_def Let_def)
qed

definition empty_manager :: "u64 list memory_manager" where
  "empty_manager = \<lparr>pointers = [], root_memory_group = memory_group ''root'' 0 [], mutex_locked = False, heap = []\<rparr>"

lemma empty_manager_inv: "mm_inv set empty_manager" "live empty_manager = {}"
  by (simp_all add: mm_inv_def live_def empty_manager_def)

section \<open>Properties\<close>

definition limited_manager :: "(u64 \<times> memory_pointer) list \<Rightarrow> unit memory_manager" where
  "limited_manager ps = \<lparr>pointers = ps,
     root_memory_group = memory_group ''root'' 1000 [memory_group ''acl'' 0 [], memory_group ''fw'' 0 []],
     mutex_locked = False, heap = ()\<rparr>"

text \<open>
  The first allocation of an object escapes the limit.  As long as no live object carries the
  name, the size that is asked for does not enter the check, however large it is.
\<close>

lemma first_allocation_unchecked:
  assumes "nm \<notin> (mp_name \<circ> snd) ` set (pointers m)"
  shows "check_memory_limit m nm sz = check_memory_limit m nm 0"
  using currents_absent [OF assms, of sz 0] by (simp add: check_memory_limit_def)


end
