(* ===== verification/StaticVector.thy ===== *)
theory StaticVector
  imports Prelude
begin

text \<open>
  The fixed-capacity vector \<^verbatim>\<open>utils::StaticVector\<close> of \<^verbatim>\<open>src/common/static_vector.h\<close>.  The storage is a
  function of the index, of which the first \<^verbatim>\<open>len_\<close> elements are constructed.  \<open>None\<close> is a call of
  \<^verbatim>\<open>HandleOutOfRange\<close>, which aborts or throws and does not come back in either case.
\<close>

record 'a static_vector =
  sv_buf :: "u64 \<Rightarrow> 'a"
  sv_len :: u64

definition sv_new :: "(u64 \<Rightarrow> 'a) \<Rightarrow> 'a static_vector" where
  "sv_new garbage = \<lparr>sv_buf = garbage, sv_len = 0\<rparr>"

definition sv_empty :: "'a static_vector \<Rightarrow> bool" where
  "sv_empty v \<longleftrightarrow> sv_len v = 0"

definition sv_Full :: "u64 \<Rightarrow> 'a static_vector \<Rightarrow> bool" where
  "sv_Full Cap v \<longleftrightarrow> sv_len v = Cap"

definition sv_PushBackUnsafe :: "'a \<Rightarrow> 'a static_vector \<Rightarrow> 'a static_vector" where
  "sv_PushBackUnsafe x v = v\<lparr>sv_buf := (sv_buf v)(sv_len v := x), sv_len := sv_len v + 1\<rparr>"

definition sv_push_back :: "u64 \<Rightarrow> 'a \<Rightarrow> 'a static_vector \<Rightarrow> 'a static_vector option" where
  "sv_push_back Cap x v = (if sv_Full Cap v then None else Some (sv_PushBackUnsafe x v))"

definition sv_index :: "'a static_vector \<Rightarrow> u64 \<Rightarrow> 'a" where
  "sv_index v pos = sv_buf v pos"

definition sv_at :: "'a static_vector \<Rightarrow> u64 \<Rightarrow> 'a option" where
  "sv_at v pos = (if pos \<ge> sv_len v then None else Some (sv_buf v pos))"

text \<open>The decrement of \<^verbatim>\<open>len_\<close> in the argument of \<^verbatim>\<open>at\<close> comes before its range check.\<close>

definition sv_pop_back :: "'a static_vector \<Rightarrow> 'a static_vector option" where
  "sv_pop_back v =
     (if sv_empty v then None
      else let v = v\<lparr>sv_len := sv_len v - 1\<rparr>
           in case sv_at v (sv_len v) of None \<Rightarrow> None | Some _ \<Rightarrow> Some v)"

lemma sv_pop_back_decreases: "sv_pop_back v = Some v' \<Longrightarrow> unat (sv_len v') < unat (sv_len v)"
  by (auto simp: sv_pop_back_def sv_empty_def sv_at_def Let_def split: if_splits option.splits)

function sv_clear_loop :: "'a static_vector \<Rightarrow> 'a static_vector option" where
  "sv_clear_loop v =
     (if sv_empty v then Some v
      else case sv_pop_back v of None \<Rightarrow> None | Some v \<Rightarrow> sv_clear_loop v)"
  by pat_completeness auto
termination by (relation "measure (\<lambda>v. unat (sv_len v))") (auto dest: sv_pop_back_decreases)

declare sv_clear_loop.simps [simp del]

definition sv_clear :: "bool \<Rightarrow> 'a static_vector \<Rightarrow> 'a static_vector option" where
  "sv_clear trivially_destructible v =
     (if trivially_destructible then Some (v\<lparr>sv_len := 0\<rparr>) else sv_clear_loop v)"

text \<open>
  \<^verbatim>\<open>PerElementTransfer\<close> from \<open>other\<close> into \<open>v\<close>: both vectors afterwards.  In the function template
  \<^verbatim>\<open>decltype(other)\<close> is an rvalue reference exactly when the argument was moved.
\<close>

definition sv_elements :: "'a static_vector \<Rightarrow> 'a list" where
  "sv_elements v = map (\<lambda>i. sv_buf v (of_nat i)) [0..<unat (sv_len v)]"

definition sv_transfer :: "bool \<Rightarrow> bool \<Rightarrow> bool \<Rightarrow> 'a static_vector \<Rightarrow> 'a static_vector \<Rightarrow> ('a static_vector \<times> 'a static_vector) option" where
  "sv_transfer trivially_copyable trivially_destructible moved other v =
     (if trivially_copyable then
        Some (v\<lparr>sv_buf := (\<lambda>i. if i < sv_len other then sv_buf other i else sv_buf v i), sv_len := sv_len other\<rparr>, other)
      else Option.bind (sv_clear trivially_destructible v) (\<lambda>v.
        let v = fold sv_PushBackUnsafe (sv_elements other) v
        in if moved then map_option (Pair v) (sv_clear trivially_destructible other) else Some (v, other)))"

definition sv_assign :: "bool \<Rightarrow> bool \<Rightarrow> bool \<Rightarrow> 'a static_vector \<Rightarrow> 'a static_vector \<Rightarrow> ('a static_vector \<times> 'a static_vector) option" where
  "sv_assign trivially_copyable trivially_destructible moved other v =
     Option.bind (sv_clear trivially_destructible v) (sv_transfer trivially_copyable trivially_destructible moved other)"

section \<open>Elements\<close>

lemma sv_elements_push:
  assumes "sv_len v + 1 \<noteq> 0"
  shows "sv_elements (sv_PushBackUnsafe x v) = sv_elements v @ [x]"
proof -
  have u: "unat (sv_len v + 1) = Suc (unat (sv_len v))" using unatSuc [of "sv_len v"] assms by (simp add: add.commute)
  have "of_nat i \<noteq> sv_len v" if "i < unat (sv_len v)" for i
  proof
    assume e: "of_nat i = sv_len v"
    have "unat (of_nat i :: u64) = i"
      using that unsigned_less [of "sv_len v", where ?'a = nat] by (intro unat_of_nat_small) linarith
    then show False using that by (simp add: e)
  qed
  then show ?thesis by (auto simp: sv_elements_def sv_PushBackUnsafe_def u)
qed

lemma sv_pop_back_None: "sv_pop_back v = None"
  by (simp add: sv_pop_back_def sv_at_def)

lemma sv_clear_cases:
  "sv_clear triv v = (if triv then Some (v\<lparr>sv_len := 0\<rparr>) else if sv_empty v then Some v else None)"
  by (simp add: sv_clear_def sv_clear_loop.simps [of v] sv_pop_back_None)

section \<open>Properties\<close>

text \<open>
  \<^verbatim>\<open>pop_back\<close> never comes back: it decrements the length before it asks \<^verbatim>\<open>at\<close> for the element at
  this index, which is then out of range.  Consequently \<^verbatim>\<open>clear\<close>, and with it the destructor, aborts on
  every vector that is not empty and whose elements have a destructor.
\<close>

lemma sv_pop_back_aborts:
  "sv_pop_back v = None \<and> (sv_clear False v = None \<longleftrightarrow> \<not> sv_empty v)"
  by (simp add: sv_pop_back_None sv_clear_cases)

end
