(* ===== verification/VrfLpm.thy ===== *)
theory VrfLpm
  imports LpmUpdater MemoryManager StaticVector
begin

text \<open>
  One IPv4 forwarding table per routing instance (VRF): the class \<^verbatim>\<open>updater_vrf_lpm\<close> of
  \<^verbatim>\<open>src/dataplane/updater.h\<close>, which creates the table of a VRF at its first route, and the class
  \<^verbatim>\<open>VrfLookuper\<close> of \<^verbatim>\<open>src/dataplane/vrf.h\<close>, with which the workers look up a burst of packets.  A result
  \<open>None\<close> is a call that does not come back: a null pointer is dereferenced, a vector aborts, or the
  mutex of the memory manager is locked twice.
\<close>

section \<open>The updater of all VRFs\<close>

abbreviation VRF_MAX :: nat where
  "VRF_MAX \<equiv> 64"

text \<open>
  An entry of \<^verbatim>\<open>updaters_\<close> that is not null: the address of the \<^verbatim>\<open>updater_lpm\<close> and its \<^verbatim>\<open>pointer_\<close>.
  What \<^verbatim>\<open>Allocate\<close> returns for a VRF (0 is a null pointer), and what the tables allocate, are arguments.
\<close>

type_synonym vrf_slot = "(u64 \<times> lpm4 option) option"

type_synonym vrf_updater = "vrf_slot static_vector"

record vrf_env =
  new_updater :: "u16 \<Rightarrow> u64"
  table_alloc :: allocator

fun emplace_nulls :: "nat \<Rightarrow> vrf_updater \<Rightarrow> vrf_updater option" where
  "emplace_nulls 0 v = Some v"
| "emplace_nulls (Suc n) v = Option.bind (sv_push_back (of_nat VRF_MAX) None v) (emplace_nulls n)"

definition vrf_init :: "vrf_updater \<Rightarrow> (eResult \<times> vrf_updater) option" where
  "vrf_init v = map_option (Pair success) (emplace_nulls VRF_MAX v)"

definition set_slot :: "u16 \<Rightarrow> vrf_slot \<Rightarrow> vrf_updater \<Rightarrow> vrf_updater" where
  "set_slot vrf slot v = v\<lparr>sv_buf := (sv_buf v)(ucast vrf := slot)\<rparr>"

text \<open>\<^verbatim>\<open>updaters_[vrf]->insert\<close>; with a null \<^verbatim>\<open>pointer_\<close> it calls a member of a null pointer.\<close>

definition slot_insert :: "allocator \<Rightarrow> u16 \<Rightarrow> u32 \<Rightarrow> u8 \<Rightarrow> u32 \<Rightarrow> vrf_updater \<Rightarrow> (eResult \<times> vrf_updater) option" where
  "slot_insert alloc vrf ip_address msk value_id v =
     (case sv_index v (ucast vrf) of
        Some (p, Some t) \<Rightarrow>
          (let (result, t) = updater_insert alloc t ip_address msk value_id
           in Some (result, set_slot vrf (Some (p, Some t)) v))
      | _ \<Rightarrow> None)"

definition vrf_insert :: "vrf_env \<Rightarrow> u16 \<Rightarrow> u32 \<Rightarrow> u8 \<Rightarrow> u32 \<Rightarrow> vrf_updater \<Rightarrow> (eResult \<times> vrf_updater) option" where
  "vrf_insert A vrf ip_address msk value_id v =
     (if unat vrf \<ge> VRF_MAX then Some (invalidId, v)
      else if sv_index v (ucast vrf) = None then
        (if new_updater A vrf = 0 then Some (errorAllocatingMemory, v)
         else let (result, pointer) = updater_init (table_alloc A);
                  v = set_slot vrf (Some (new_updater A vrf, pointer)) v
              in if result \<noteq> success then Some (result, v)
                 else slot_insert (table_alloc A) vrf ip_address msk value_id v)
      else slot_insert (table_alloc A) vrf ip_address msk value_id v)"

definition vrf_remove :: "vrf_env \<Rightarrow> u16 \<Rightarrow> u32 \<Rightarrow> u8 \<Rightarrow> vrf_updater \<Rightarrow> (eResult \<times> vrf_updater) option" where
  "vrf_remove A vrf ip_address msk v =
     (if unat vrf \<ge> VRF_MAX then Some (invalidId, v)
      else case sv_index v (ucast vrf) of
             None \<Rightarrow> Some (success, v)
           | Some (p, None) \<Rightarrow> None
           | Some (p, Some t) \<Rightarrow>
               (let (result, t) = updater_remove (table_alloc A) t ip_address msk
                in Some (result, set_slot vrf (Some (p, Some t)) v)))"

text \<open>
  \<^verbatim>\<open>clear\<close>: each updater that exists is cleared and then destroyed by the assignment of a null pointer.
  The destructor of \<^verbatim>\<open>updater_lpm\<close> destroys the table it owns; \<open>table_address p\<close> is the address of the
  table of the updater at \<open>p\<close>.
\<close>

definition slot_owns :: "(u64 \<Rightarrow> u64) \<Rightarrow> vrf_updater \<Rightarrow> u64 \<Rightarrow> u64 option" where
  "slot_owns table_address v p =
     (if \<exists>i \<in> {0..<VRF_MAX}. case sv_index v (of_nat i) of Some (q, Some _) \<Rightarrow> q = p | _ \<Rightarrow> False
      then Some (table_address p) else None)"

fun vrf_clear_loop :: "'h dpdk \<Rightarrow> allocator \<Rightarrow> (u64 \<Rightarrow> u64) \<Rightarrow> nat list \<Rightarrow> vrf_updater \<times> 'h memory_manager \<Rightarrow>
  (vrf_updater \<times> 'h memory_manager) option" where
  "vrf_clear_loop d alloc table_address [] (v, m) = Some (v, m)"
| "vrf_clear_loop d alloc table_address (i # is) (v, m) =
     (case sv_index v (of_nat i) of
        None \<Rightarrow> vrf_clear_loop d alloc table_address is (v, m)
      | Some (p, pointer) \<Rightarrow>
          let v = set_slot (of_nat i) (Some (p, updater_clear alloc pointer)) v
          in case mm_destroy d (slot_owns table_address v) p m of
               None \<Rightarrow> None
             | Some m \<Rightarrow> vrf_clear_loop d alloc table_address is (set_slot (of_nat i) None v, m))"

definition vrf_clear :: "'h dpdk \<Rightarrow> allocator \<Rightarrow> (u64 \<Rightarrow> u64) \<Rightarrow> vrf_updater \<times> 'h memory_manager \<Rightarrow>
  (vrf_updater \<times> 'h memory_manager) option" where
  "vrf_clear d alloc table_address vm = vrf_clear_loop d alloc table_address [0..<VRF_MAX] vm"

definition GetLpms :: "vrf_updater \<Rightarrow> lpm4 option list" where
  "GetLpms v = map (\<lambda>i. case sv_index v (of_nat i) of None \<Rightarrow> None | Some (_, pointer) \<Rightarrow> pointer) [0..<VRF_MAX]"

section \<open>The lookup of the workers\<close>

definition lookuper_Update :: "lpm4 option list \<Rightarrow> lpm4 option list \<Rightarrow> lpm4 option list" where
  "lookuper_Update lpms own = map (\<lambda>i. lpms ! i) [0..<length own]"

definition lookuper_Lookup :: "lpm4 option list \<Rightarrow> (u32 \<times> u16) list \<Rightarrow> u32 list" where
  "lookuper_Lookup own packets =
     map (\<lambda>(ipAddress, vrf).
         if unat vrf < VRF_MAX then
           (case own ! unat vrf of
              Some t \<Rightarrow> hd (lpm4_lookup_burst t [ipAddress])
            | None \<Rightarrow> lpmValueIdInvalid)
         else lpmValueIdInvalid)
       packets"

section \<open>The VRFs as one table\<close>

definition vrf_value :: "vrf_updater \<Rightarrow> u16 \<times> u32 \<Rightarrow> u32 option" where
  "vrf_value v q =
     (case sv_index v (ucast (fst q)) of
        Some (_, Some t) \<Rightarrow> if unat (fst q) < VRF_MAX then lpm4_value t (snd q) else None
      | _ \<Rightarrow> None)"

definition slot_ok :: "vrf_slot \<Rightarrow> bool" where
  "slot_ok slot = (case slot of None \<Rightarrow> True | Some (_, None) \<Rightarrow> False | Some (_, Some t) \<Rightarrow> updater_inv t)"

definition vrf_inv :: "vrf_updater \<Rightarrow> bool" where
  "vrf_inv v \<longleftrightarrow> (\<forall>vrf :: u16. unat vrf < VRF_MAX \<longrightarrow> slot_ok (sv_index v (ucast vrf)))"

definition vrf_good :: "vrf_env \<Rightarrow> bool" where
  "vrf_good A \<longleftrightarrow> (\<forall>vrf. new_updater A vrf \<noteq> 0) \<and> (\<forall>sz. table_alloc A sz \<noteq> None)"

fun vrf_step :: "vrf_env \<Rightarrow> u16 \<times> fib_update \<Rightarrow> vrf_updater \<Rightarrow> (eResult \<times> vrf_updater) option" where
  "vrf_step A (vrf, fib_insert ip msk val) v = vrf_insert A vrf ip msk val v"
| "vrf_step A (vrf, fib_remove ip msk) v = vrf_remove A vrf ip msk v"

definition vrf_apply :: "vrf_env \<Rightarrow> u16 \<times> fib_update \<Rightarrow> vrf_updater \<Rightarrow> vrf_updater" where
  "vrf_apply A op v = (case vrf_step A op v of Some (_, v') \<Rightarrow> v' | None \<Rightarrow> v)"

definition vrf_ok :: "u16 \<times> fib_update \<Rightarrow> bool" where
  "vrf_ok op \<longleftrightarrow> unat (fst op) < VRF_MAX \<and> fib_ok (snd op)"

definition vrf_covers :: "u16 \<times> fib_update \<Rightarrow> u16 \<times> u32 \<Rightarrow> bool" where
  "vrf_covers op q \<longleftrightarrow> fst op = fst q \<and> fib_covers (snd op) (snd q)"

lemma slot_index_eq: "(ucast a :: u64) = ucast b \<longleftrightarrow> a = b" for a b :: u16
  using unat_ucast_up [of a, where ?'b = 64] unat_ucast_up [of b, where ?'b = 64] by (auto simp: word_unat_eq_iff)

lemma sv_index_set [simp]: "sv_index (set_slot a slot v) (ucast b) = (if a = b then slot else sv_index v (ucast b))"
  by (auto simp: sv_index_def set_slot_def slot_index_eq)

lemma init_good:
  assumes "vrf_good A"
  obtains t where "updater_init (table_alloc A) = (success, Some t)" and "updater_inv t" and "\<And>a. lpm4_value t a = None"
proof -
  obtain pool where "table_alloc A (2 * extended_chunks_size_min) = Some pool"
    using assms unfolding vrf_good_def by (metis option.exhaust)
  then obtain t where t: "updater_init (table_alloc A) = (success, Some t)" by (simp add: updater_init_def)
  with init_inv [OF t] that show thesis by blast
qed

lemma slot_insert_effect:
  assumes "vrf_good A" and "unat vrf < VRF_MAX" and "sv_index v (ucast vrf) = Some (p, Some t)" and "updater_inv t"
    and "fib_ok (fib_insert ip msk val)"
  shows "\<exists>t'. slot_insert (table_alloc A) vrf ip msk val v = Some (success, set_slot vrf (Some (p, Some t')) v) \<and>
    updater_inv t' \<and> (\<forall>a. lpm4_value t' a = (if prefix_match ip msk a then Some val else lpm4_value t a))"
proof -
  obtain r t' where u: "updater_insert (table_alloc A) t ip msk val = (r, t')" by force
  have "table_alloc A sz \<noteq> None" for sz using assms(1) by (simp add: vrf_good_def)
  with updater_insert_outcome [OF assms(4) _ _ _ u] assms(5)
  have "r = success \<and> updater_inv t' \<and> (\<forall>a. lpm4_value t' a = (if prefix_match ip msk a then Some val else lpm4_value t a))"
    by auto
  then show ?thesis using u assms(3) by (auto simp: slot_insert_def)
qed

lemma set_slot_law:
  assumes "vrf_inv v" and "unat vrf < VRF_MAX" and "updater_inv t'"
    and "\<And>a. lpm4_value t' a = (if fib_covers u a then fib_value u else vrf_value v (vrf, a))"
  shows "vrf_inv (set_slot vrf (Some (p, Some t')) v) \<and>
    vrf_value (set_slot vrf (Some (p, Some t')) v) q = (if vrf_covers (vrf, u) q then fib_value u else vrf_value v q)"
  using assms by (cases q) (auto simp: vrf_inv_def slot_ok_def vrf_value_def vrf_covers_def)

lemma set_slot_twice [simp]: "set_slot vrf x (set_slot vrf y v) = set_slot vrf x v"
  by (simp add: set_slot_def)

lemma vrf_step_law:
  assumes A: "vrf_good A" and inv: "vrf_inv v" and ok: "vrf_ok op"
  shows "\<exists>v'. vrf_step A op v = Some (success, v') \<and> vrf_inv v' \<and>
    (\<forall>q. vrf_value v' q = (if vrf_covers op q then fib_value (snd op) else vrf_value v q))"
proof -
  obtain vrf u where op: "op = (vrf, u)" by force
  have vrf: "unat vrf < VRF_MAX" and u: "fib_ok u" using ok by (simp_all add: vrf_ok_def op)
  have slot: "slot_ok (sv_index v (ucast vrf))" using inv vrf by (simp add: vrf_inv_def)
  have good: "table_alloc A sz \<noteq> None" for sz using A by (simp add: vrf_good_def)
  show ?thesis
  proof (cases u)
    case (fib_insert ip msk val)
    show ?thesis
    proof (cases "sv_index v (ucast vrf)")
      case None
      obtain t where t: "updater_init (table_alloc A) = (success, Some t)" "updater_inv t" "\<And>a. lpm4_value t a = None"
        using init_good [OF A] by blast
      let ?v = "set_slot vrf (Some (new_updater A vrf, Some t)) v"
      obtain t' where t': "slot_insert (table_alloc A) vrf ip msk val ?v = Some (success, set_slot vrf (Some (new_updater A vrf, Some t')) v)"
          "updater_inv t'" "\<forall>a. lpm4_value t' a = (if prefix_match ip msk a then Some val else lpm4_value t a)"
        using slot_insert_effect [OF A vrf, of ?v "new_updater A vrf" t ip msk val] t(2) u fib_insert by auto
      have "vrf_step A op v = Some (success, set_slot vrf (Some (new_updater A vrf, Some t')) v)"
        using None t(1) t'(1) vrf A by (simp add: op fib_insert vrf_insert_def vrf_good_def)
      moreover have "lpm4_value t' a = (if fib_covers u a then fib_value u else vrf_value v (vrf, a))" for a
        using t'(3) t(3) None by (simp add: fib_insert vrf_value_def)
      ultimately show ?thesis using set_slot_law [OF inv vrf t'(2)] by (auto simp: op)
    next
      case (Some slot')
      then obtain p t where pt: "sv_index v (ucast vrf) = Some (p, Some t)" "updater_inv t"
        using slot by (auto simp: slot_ok_def split: prod.splits option.splits)
      obtain t' where t': "slot_insert (table_alloc A) vrf ip msk val v = Some (success, set_slot vrf (Some (p, Some t')) v)"
          "updater_inv t'" "\<forall>a. lpm4_value t' a = (if prefix_match ip msk a then Some val else lpm4_value t a)"
        using slot_insert_effect [OF A vrf pt, of ip msk val] u fib_insert by auto
      have "vrf_step A op v = Some (success, set_slot vrf (Some (p, Some t')) v)"
        using pt(1) t'(1) vrf by (simp add: op fib_insert vrf_insert_def)
      moreover have "lpm4_value t' a = (if fib_covers u a then fib_value u else vrf_value v (vrf, a))" for a
        using t'(3) pt(1) vrf by (simp add: fib_insert vrf_value_def)
      ultimately show ?thesis using set_slot_law [OF inv vrf t'(2)] by (auto simp: op)
    qed
  next
    case (fib_remove ip msk)
    show ?thesis
    proof (cases "sv_index v (ucast vrf)")
      case None
      then have "vrf_value v (vrf, a) = None" for a by (simp add: vrf_value_def)
      then show ?thesis using None vrf inv by (auto simp: op fib_remove vrf_remove_def vrf_covers_def)
    next
      case (Some slot')
      then obtain p t where pt: "sv_index v (ucast vrf) = Some (p, Some t)" "updater_inv t"
        using slot by (auto simp: slot_ok_def split: prod.splits option.splits)
      obtain r t' where r: "updater_remove (table_alloc A) t ip msk = (r, t')" by force
      have t': "r = success" "updater_inv t'" "\<forall>a. lpm4_value t' a = (if prefix_match ip msk a then None else lpm4_value t a)"
        using updater_remove_outcome [OF pt(2) _ _ r] u good by (auto simp: fib_remove)
      have "vrf_step A op v = Some (success, set_slot vrf (Some (p, Some t')) v)"
        using pt(1) r t'(1) vrf by (simp add: op fib_remove vrf_remove_def)
      moreover have "lpm4_value t' a = (if fib_covers u a then fib_value u else vrf_value v (vrf, a))" for a
        using t'(3) pt(1) vrf by (simp add: fib_remove vrf_value_def)
      ultimately show ?thesis using set_slot_law [OF inv vrf t'(2)] by (auto simp: op)
    qed
  qed
qed

interpretation vrf_fib: override_table "\<lambda>v. vrf_good A \<and> vrf_inv v" vrf_ok "vrf_apply A" vrf_value vrf_covers "fib_value \<circ> snd"
  for A
proof
  fix v op q assume "vrf_good A \<and> vrf_inv v" "vrf_ok op"
  then obtain v' where v': "vrf_step A op v = Some (success, v')" "vrf_inv v'"
      "\<forall>q. vrf_value v' q = (if vrf_covers op q then fib_value (snd op) else vrf_value v q)"
    using vrf_step_law by blast
  show "vrf_good A \<and> vrf_inv (vrf_apply A op v)" using \<open>vrf_good A \<and> vrf_inv v\<close> v' by (simp add: vrf_apply_def)
  show "vrf_value (vrf_apply A op v) q = (if vrf_covers op q then (fib_value \<circ> snd) op else vrf_value v q)"
    using v'(1) spec [OF v'(3), of q] by (simp add: vrf_apply_def)
qed

lemma emplace_nulls_ok:
  assumes "unat (sv_len v) + n \<le> VRF_MAX" and "\<And>i. i < sv_len v \<Longrightarrow> sv_buf v i = None"
  shows "\<exists>v'. emplace_nulls n v = Some v' \<and> unat (sv_len v') = unat (sv_len v) + n \<and> (\<forall>i < sv_len v'. sv_buf v' i = None)"
  using assms
proof (induction n arbitrary: v)
  case (Suc n)
  have len: "unat (sv_len v + 1) = Suc (unat (sv_len v))"
    using Suc.prems(1) by (simp add: unat_word_ariths)
  have "sv_len v \<noteq> of_nat VRF_MAX" using Suc.prems(1) by auto
  then have push: "sv_push_back (of_nat VRF_MAX) None v = Some (sv_PushBackUnsafe None v)"
    by (simp add: sv_push_back_def sv_Full_def)
  have "i < sv_len v \<or> i = sv_len v" if "i < sv_len v + 1" for i
    using that len by (auto simp: word_less_nat_alt word_unat_eq_iff)
  with Suc.IH [of "sv_PushBackUnsafe None v"] Suc.prems len push show ?case
    by (fastforce simp: sv_PushBackUnsafe_def)
qed auto

lemma vrf_init_ok:
  assumes "vrf_init (sv_new g) = Some (r, v)"
  shows "vrf_inv v" and "vrf_value v q = None"
proof -
  obtain v' where v': "emplace_nulls VRF_MAX (sv_new g) = Some v'" "unat (sv_len v') = VRF_MAX" "\<forall>i < sv_len v'. sv_buf v' i = None"
    using emplace_nulls_ok [of "sv_new g" VRF_MAX] by (auto simp: sv_new_def)
  then have "v = v'" using assms by (simp add: vrf_init_def)
  moreover have "(ucast vrf :: u64) < sv_len v'" if "unat vrf < VRF_MAX" for vrf :: u16
    using that v'(2) by (simp add: word_less_nat_alt unat_ucast_up)
  ultimately have null: "sv_index v (ucast vrf) = None" if "unat vrf < VRF_MAX" for vrf :: u16
    using that v'(3) by (simp add: sv_index_def)
  show "vrf_inv v" using null by (simp add: vrf_inv_def slot_ok_def)
  show "vrf_value v q = None" using null [of "fst q"] by (auto simp: vrf_value_def split: option.splits)
qed

lemma Lookup_value:
  assumes "vrf_inv v" and "length own = VRF_MAX"
  shows "lookuper_Lookup (lookuper_Update (GetLpms v) own) packets =
    map (\<lambda>(ip, vrf). case vrf_value v (vrf, be_to_cpu_32 ip) of Some val \<Rightarrow> val | None \<Rightarrow> lpmValueIdInvalid) packets"
proof -
  have "(of_nat (unat vrf) :: u64) = ucast vrf" for vrf :: u16
    using unsigned_less [of vrf, where ?'a = nat] by (simp add: word_unat_eq_iff unat_ucast_up unat_of_nat_small)
  then show ?thesis
    using assms(2) by (auto simp: lookuper_Lookup_def lookuper_Update_def GetLpms_def vrf_value_def
        lpm4_lookup_burst_def lookup_one_value split: option.split)
qed

lemma slot_number: "i < VRF_MAX \<Longrightarrow> (ucast (of_nat i :: u16) :: u64) = of_nat i" "i < VRF_MAX \<Longrightarrow> unat (of_nat i :: u16) = i"
  by (simp_all add: word_unat_eq_iff unat_ucast_up unat_of_nat_small)

lemma sv_index_set_number: "i < VRF_MAX \<Longrightarrow> sv_index (set_slot (of_nat i) slot v) (of_nat i) = slot"
  using sv_index_set [of "of_nat i" slot v "of_nat i"] by (simp only: slot_number if_True refl)

lemma vrf_clear_loop_blocks:
  assumes "vrf_inv v" and "list_all (\<lambda>j. j < VRF_MAX) is" and "\<exists>i \<in> set is. sv_index v (of_nat i) \<noteq> None"
    and "\<forall>j < VRF_MAX. case sv_index v (of_nat j) of None \<Rightarrow> True | Some (q, _) \<Rightarrow> q \<in> live m"
  shows "vrf_clear_loop d alloc table_address is (v, m) = None"
  using assms(2,3)
proof (induction "is")
  case (Cons i "is")
  show ?case
  proof (cases "sv_index v (of_nat i)")
    case None
    then show ?thesis using Cons by auto
  next
    case (Some slot)
    have i: "i < VRF_MAX" using Cons.prems(1) by simp
    have "slot_ok (sv_index v (of_nat i))" using assms(1) [unfolded vrf_inv_def, rule_format, of "of_nat i"] slot_number [OF i] i by simp
    then obtain p t where pt: "sv_index v (of_nat i) = Some (p, Some t)"
      using Some by (auto simp: slot_ok_def split: prod.splits option.splits)
    have "p \<in> live m" using assms(4) i pt by (metis (no_types, lifting) case_prod_conv option.simps(5))
    then obtain mp where mp: "map_of (pointers m) p = Some mp"
      by (metis live_def map_of_eq_None_iff option.exhaust)
    have "updater_clear alloc (Some t) \<noteq> None" by (simp add: updater_clear_def Let_def)
    then obtain t' where t': "updater_clear alloc (Some t) = Some t'" by blast
    let ?v = "set_slot (of_nat i) (Some (p, Some t')) v"
    have "slot_owns table_address ?v p = Some (table_address p)"
      unfolding slot_owns_def using i sv_index_set_number [OF i, of "Some (p, Some t')" v] by (auto intro!: bexI [of _ i])
    from mm_destroy_owner [where owns = "slot_owns table_address ?v" and d = d, OF mp this] show ?thesis by (simp add: pt t')
  qed
qed simp

section \<open>Properties\<close>


definition vrf_example_env :: vrf_env where
  "vrf_example_env = \<lparr>new_updater = (\<lambda>_. 64), table_alloc = (\<lambda>_. Some (\<lambda>_ _. zero_entry))\<rparr>"


text \<open>
  C34: \<^verbatim>\<open>clear\<close> never returns once a VRF has a table.  The memory manager holds its mutex while it runs
  the destructor of the updater, and this destructor destroys the table through the same manager,
  which locks the mutex again.
\<close>

theorem vrf_clear_blocks:
  assumes "vrf_inv v" and "i < VRF_MAX" and "sv_index v (of_nat i) = Some (p, pointer)"
    and "\<forall>j < VRF_MAX. case sv_index v (of_nat j) of None \<Rightarrow> True | Some (q, _) \<Rightarrow> q \<in> live m"
  shows "vrf_clear d alloc table_address (v, m) = None"
  unfolding vrf_clear_def by (rule vrf_clear_loop_blocks) (use assms in \<open>auto simp: list_all_iff intro!: bexI [of _ i]\<close>)

definition vrf_example_updater :: vrf_updater where
  "vrf_example_updater = \<lparr>sv_buf = (\<lambda>_. None)(0 := Some (64, Some (lpm4_fresh 64 (\<lambda>_ _. zero_entry)))), sv_len = 64\<rparr>"

theorem vrf_clear_blocks_witness:
  "let m = empty_manager\<lparr>pointers := [(64, \<lparr>mp_name = ''vrf'', mp_socket_id = 0, mp_size = 128\<rparr>),
      (4096, \<lparr>mp_name = ''vrf.vrf0'', mp_socket_id = 0, mp_size = 8192\<rparr>)]\<rparr>
   in vrf_inv vrf_example_updater \<and> vrf_clear bump_dpdk (\<lambda>_. None) (\<lambda>_. 4096) (vrf_example_updater, m) = None"
proof -
  have "updater_inv (lpm4_fresh 64 (\<lambda>_ _. zero_entry))" by (simp add: updater_inv_def lpm4_fresh_inv) (simp add: lpm4_fresh_def)
  then have inv: "vrf_inv vrf_example_updater" by (simp add: vrf_inv_def slot_ok_def vrf_example_updater_def sv_index_def)
  have slots: "sv_index vrf_example_updater (of_nat j) = (if (of_nat j :: u64) = 0 then
      Some (64, Some (lpm4_fresh 64 (\<lambda>_ _. zero_entry))) else None)" for j
    by (simp add: vrf_example_updater_def sv_index_def)
  show ?thesis
    unfolding Let_def
    by (intro conjI inv vrf_clear_blocks [OF inv, of 0 64 "Some (lpm4_fresh 64 (\<lambda>_ _. zero_entry))"])
      (use slots [of 0] in \<open>simp_all add: slots live_def\<close>)
qed

end
