(* ===== verification/HashtableMod.thy ===== *)
theory HashtableMod
  imports Prelude
begin

text \<open>
  The bucketed hash table \<^verbatim>\<open>hashtable_mod_dynamic\<close> of \<^verbatim>\<open>src/dataplane/hashtable.h\<close> (the neighbour table).
  The low bits of the hash select a chunk of \<^verbatim>\<open>chunk_size\<close> pairs, the following bits the pair where
  probing inside the chunk starts.  The hash function and \<^verbatim>\<open>chunk_size\<close> are template parameters and
  arguments of the definitions; a pointer to a value is the position of the pair.
\<close>

section \<open>Data\<close>

record ('k, 'v) chunk_t =
  valid_mask :: u64
  pairs :: "u32 \<Rightarrow> 'k \<times> 'v"

record ('k, 'v) htable =
  total_mask :: u32
  total_shift :: u32
  chunks :: "u32 \<Rightarrow> ('k, 'v) chunk_t"

definition is_valid :: "('k, 'v) chunk_t \<Rightarrow> u32 \<Rightarrow> bool" where
  "is_valid chunk pair_index = (drop_bit (unat pair_index) (valid_mask chunk) AND 1 \<noteq> 0)"

definition is_equal :: "('k, 'v) chunk_t \<Rightarrow> u32 \<Rightarrow> 'k \<Rightarrow> bool" where
  "is_equal chunk pair_index key = (fst (pairs chunk pair_index) = key)"

definition is_valid_and_equal :: "('k, 'v) chunk_t \<Rightarrow> u32 \<Rightarrow> 'k \<Rightarrow> bool" where
  "is_valid_and_equal chunk pair_index key = (is_valid chunk pair_index \<and> is_equal chunk pair_index key)"

definition valid_mask_full :: "u32 \<Rightarrow> u32" where
  "valid_mask_full chunk_size = drop_bit (unat (32 - chunk_size)) 0xFFFFFFFF"

section \<open>Operations\<close>

definition probe :: "u32 \<Rightarrow> ('k, 'v) htable \<Rightarrow> u32 \<Rightarrow> nat \<Rightarrow> u32" where
  "probe chunk_size t hash try_i = (drop_bit (unat (total_shift t)) hash + of_nat try_i) AND (chunk_size - 1)"

text \<open>The collision loop of \<^verbatim>\<open>lookup\<close> and \<^verbatim>\<open>remove\<close>, with its local copy of the mask.\<close>

fun check_collision :: "u32 \<Rightarrow> ('k, 'v) htable \<Rightarrow> u32 \<Rightarrow> ('k, 'v) chunk_t \<Rightarrow> 'k \<Rightarrow> u32 \<Rightarrow> nat list \<Rightarrow> u32 option" where
  "check_collision chunk_size t hash chunk key vmask [] = None"
| "check_collision chunk_size t hash chunk key vmask (try_i # tries) =
     (if vmask = 0 then None
      else let pair_index = probe chunk_size t hash try_i
           in if is_valid_and_equal chunk pair_index key then Some pair_index
              else check_collision chunk_size t hash chunk key
                     (vmask AND (0xFFFFFFFF XOR push_bit (unat pair_index) 1)) tries)"

definition find_pair :: "u32 \<Rightarrow> ('k, 'v) htable \<Rightarrow> u32 \<Rightarrow> ('k, 'v) chunk_t \<Rightarrow> 'k \<Rightarrow> u32 option" where
  "find_pair chunk_size t hash chunk key =
     (let pair_index = drop_bit (unat (total_shift t)) hash AND (chunk_size - 1)
      in if is_valid_and_equal chunk pair_index key then Some pair_index
         else if chunk_size = 1 then None
         else check_collision chunk_size t hash chunk key (ucast (valid_mask chunk)) [1..<unat chunk_size])"

definition ht_lookup :: "('k \<Rightarrow> u32) \<Rightarrow> u32 \<Rightarrow> ('k, 'v) htable \<Rightarrow> 'k \<Rightarrow> u32 \<times> (u32 \<times> u32) option" where
  "ht_lookup calculate_hash chunk_size t key =
     (let hash = calculate_hash key;
          chunk_id = hash AND total_mask t
      in (hash, map_option (\<lambda>pair_index. (chunk_id, pair_index))
                  (find_pair chunk_size t hash (chunks t chunk_id) key)))"

definition store_pair :: "('k, 'v) chunk_t \<Rightarrow> u32 \<Rightarrow> 'k \<Rightarrow> 'v \<Rightarrow> ('k, 'v) chunk_t" where
  "store_pair chunk pair_index key val =
     chunk\<lparr>pairs := (pairs chunk)(pair_index := (key, val)),
           valid_mask := valid_mask chunk OR ucast (push_bit (unat pair_index) 1 :: u32)\<rparr>"

fun insert_collision :: "u32 \<Rightarrow> ('k, 'v) htable \<Rightarrow> u32 \<Rightarrow> ('k, 'v) chunk_t \<Rightarrow> 'k \<Rightarrow> 'v \<Rightarrow> nat list \<Rightarrow> ('k, 'v) chunk_t option" where
  "insert_collision chunk_size t hash chunk key val [] = None"
| "insert_collision chunk_size t hash chunk key val (try_i # tries) =
     (let pair_index = probe chunk_size t hash try_i
      in if \<not> is_valid chunk pair_index then Some (store_pair chunk pair_index key val)
         else insert_collision chunk_size t hash chunk key val tries)"

definition ht_insert :: "u32 \<Rightarrow> ('k, 'v) htable \<Rightarrow> u32 \<Rightarrow> 'k \<Rightarrow> 'v \<Rightarrow> bool \<times> ('k, 'v) htable" where
  "ht_insert chunk_size t hash key val =
     (let chunk_id = hash AND total_mask t;
          chunk = chunks t chunk_id;
          pair_index = drop_bit (unat (total_shift t)) hash AND (chunk_size - 1)
      in if \<not> is_valid chunk pair_index
         then (True, t\<lparr>chunks := (chunks t)(chunk_id := store_pair chunk pair_index key val)\<rparr>)
         else if chunk_size = 1 then (False, t)
         else if valid_mask chunk = ucast (valid_mask_full chunk_size) then (False, t)
         else case insert_collision chunk_size t hash chunk key val [1..<unat chunk_size] of
                None \<Rightarrow> (False, t)
              | Some chunk \<Rightarrow> (True, t\<lparr>chunks := (chunks t)(chunk_id := chunk)\<rparr>))"

definition set_value :: "('k, 'v) htable \<Rightarrow> u32 \<times> u32 \<Rightarrow> 'v \<Rightarrow> ('k, 'v) htable" where
  "set_value t ptr val =
     (let chunk = chunks t (fst ptr);
          chunk = chunk\<lparr>pairs := (pairs chunk)(snd ptr := (fst (pairs chunk (snd ptr)), val))\<rparr>
      in t\<lparr>chunks := (chunks t)(fst ptr := chunk)\<rparr>)"

definition ht_insert_or_update :: "('k \<Rightarrow> u32) \<Rightarrow> u32 \<Rightarrow> ('k, 'v) htable \<Rightarrow> 'k \<Rightarrow> 'v \<Rightarrow> bool \<times> ('k, 'v) htable" where
  "ht_insert_or_update calculate_hash chunk_size t key val =
     (let (hash, ht_value) = ht_lookup calculate_hash chunk_size t key
      in case ht_value of
           Some ptr \<Rightarrow> (True, set_value t ptr val)
         | None \<Rightarrow> ht_insert chunk_size t hash key val)"

definition ht_remove :: "('k \<Rightarrow> u32) \<Rightarrow> u32 \<Rightarrow> ('k, 'v) htable \<Rightarrow> 'k \<Rightarrow> bool \<times> ('k, 'v) htable" where
  "ht_remove calculate_hash chunk_size t key =
     (let hash = calculate_hash key;
          chunk_id = hash AND total_mask t;
          chunk = chunks t chunk_id
      in case find_pair chunk_size t hash chunk key of
           Some pair_index \<Rightarrow>
             (True, t\<lparr>chunks := (chunks t)(chunk_id :=
                chunk\<lparr>valid_mask := valid_mask chunk XOR ucast (push_bit (unat pair_index) 1 :: u32)\<rparr>)\<rparr>)
         | None \<Rightarrow> (False, t))"

definition ht_clear :: "('k, 'v) htable \<Rightarrow> ('k, 'v) htable" where
  "ht_clear t = t\<lparr>chunks := (\<lambda>i. if i \<le> total_mask t then (chunks t i)\<lparr>valid_mask := 0\<rparr> else chunks t i)\<rparr>"

text \<open>\<^verbatim>\<open>updater::update_pointer\<close>: the mask and shift of a table of \<^verbatim>\<open>total_size\<close> pairs.\<close>

definition update_pointer :: "u32 \<Rightarrow> u32 \<Rightarrow> ('k, 'v) htable \<Rightarrow> ('k, 'v) htable" where
  "update_pointer chunk_size total_size t =
     t\<lparr>total_mask := total_size div chunk_size - 1,
       total_shift := of_nat (popcount (total_size div chunk_size - 1))\<rparr>"

definition ht_calculate_sizeof_ok :: "u32 \<Rightarrow> u32 \<Rightarrow> bool" where
  "ht_calculate_sizeof_ok chunk_size total_size =
     (total_size div chunk_size \<noteq> 0 \<and> popcount total_size = 1)"

section \<open>Iteration\<close>

text \<open>An iterator is its index; \<^verbatim>\<open>range_t\<close> clips both ends to the table.\<close>

definition it_is_valid :: "u32 \<Rightarrow> ('k, 'v) htable \<Rightarrow> u32 \<Rightarrow> bool" where
  "it_is_valid chunk_size t index =
     (valid_mask (chunks t (index div chunk_size)) AND ucast (push_bit (unat (index mod chunk_size)) 1 :: u32) \<noteq> 0)"

definition it_unset_valid :: "u32 \<Rightarrow> ('k, 'v) htable \<Rightarrow> u32 \<Rightarrow> ('k, 'v) htable" where
  "it_unset_valid chunk_size t index =
     (let chunk = chunks t (index div chunk_size);
          chunk = chunk\<lparr>valid_mask := valid_mask chunk AND ucast (0xFFFFFFFF XOR (push_bit (unat (index mod chunk_size)) 1 :: u32))\<rparr>
      in t\<lparr>chunks := (chunks t)(index div chunk_size := chunk)\<rparr>)"

definition range_begin :: "u32 \<Rightarrow> u32 \<Rightarrow> u32 \<Rightarrow> u32" where
  "range_begin total_size offset step = min offset total_size"

definition range_end :: "u32 \<Rightarrow> u32 \<Rightarrow> u32 \<Rightarrow> u32" where
  "range_end total_size offset step = min (offset + step) total_size"

text \<open>The offset for the next call of \<^verbatim>\<open>range\<close> or \<^verbatim>\<open>gc\<close>.\<close>

definition next_offset :: "u32 \<Rightarrow> u32 \<Rightarrow> u32 \<Rightarrow> u32" where
  "next_offset total_size offset step =
     (let offset = offset + step in if offset \<ge> total_size then 0 else offset)"

section \<open>Probing\<close>

text \<open>\<^verbatim>\<open>chunk_size\<close> is a power of two of at most 32.\<close>

definition chunk_size_ok :: "u32 \<Rightarrow> bool" where
  "chunk_size_ok chunk_size = (chunk_size \<in> {1, 2, 4, 8, 16, 32})"

lemma chunk_size_cases:
  assumes "chunk_size_ok cs"
  obtains k where "k \<le> 5" "unat cs = 2 ^ k" "cs - 1 = mask k"
proof -
  have "\<exists>k \<in> {0, 1, 2, 3, 4, 5}. cs = 2 ^ k" using assms by (auto simp: chunk_size_ok_def)
  then obtain k :: nat where k: "k \<in> {0, 1, 2, 3, 4, 5}" and cs: "cs = 2 ^ k" ..
  have "unat cs = 2 ^ k" using k by (auto simp: cs)
  moreover have "cs - 1 = mask k" by (simp add: cs mask_eq_exp_minus_1)
  moreover have "k \<le> 5" using k by auto
  ultimately show thesis using that by blast
qed

lemma unat_probe:
  assumes "chunk_size_ok cs"
  shows "unat (probe cs t hash j) = (unat (drop_bit (unat (total_shift t)) hash) + j) mod unat cs"
proof -
  obtain k where k: "k \<le> 5" "unat cs = 2 ^ k" "cs - 1 = mask k" using chunk_size_cases [OF assms] .
  let ?x = "drop_bit (unat (total_shift t)) hash"
  have "unat (?x + of_nat j) mod 2 ^ k = (unat ?x + j) mod 2 ^ LENGTH(32) mod 2 ^ k"
    by (simp add: unat_word_ariths unat_of_nat mod_add_right_eq)
  also have "\<dots> = (unat ?x + j) mod 2 ^ k"
    using k(1) by (intro mod_mod_cancel le_imp_power_dvd) simp
  finally show ?thesis by (simp add: probe_def k unat_and_mask)
qed

lemma probe_zero: "drop_bit (unat (total_shift t)) hash AND (cs - 1) = probe cs t hash 0"
  by (simp add: probe_def)

lemma chunk_size_pos: "chunk_size_ok cs \<Longrightarrow> 0 < unat cs" "chunk_size_ok cs \<Longrightarrow> unat cs \<le> 32"
  by (auto simp: chunk_size_ok_def)

lemma probe_less: "chunk_size_ok cs \<Longrightarrow> probe cs t hash j < cs"
  using chunk_size_pos [of cs] by (simp add: word_less_nat_alt unat_probe)

text \<open>The probe sequence visits every pair of the chunk exactly once.\<close>

lemma mod_window:
  fixes x n i :: nat
  assumes "0 < n" and "i < n"
  shows "\<exists>j < n. (x + j) mod n = i"
proof -
  have "(x + (i + n - x mod n) mod n) mod n = (x mod n + (i + n - x mod n)) mod n"
    by (simp add: mod_simps)
  also have "x mod n + (i + n - x mod n) = i + n" using mod_less_divisor [OF assms(1), of x] by linarith
  finally show ?thesis using assms by (intro exI [of _ "(i + n - x mod n) mod n"]) simp
qed

lemma probe_all:
  assumes "chunk_size_ok cs"
  shows "probe cs t hash ` {0..<unat cs} = {i. i < cs}" and "distinct (map (probe cs t hash) [0..<unat cs])"
proof -
  let ?x = "unat (drop_bit (unat (total_shift t)) hash)"
  show img: "probe cs t hash ` {0..<unat cs} = {i. i < cs}"
  proof safe
    fix i assume "i < cs"
    then have "unat i < unat cs" by (simp add: word_less_nat_alt)
    from mod_window [OF chunk_size_pos(1) [OF assms] this, of ?x] obtain j where "j < unat cs" "(?x + j) mod unat cs = unat i"
      by blast
    then have "i = probe cs t hash j" using unat_probe [OF assms, of t hash j] by (simp add: word_unat_eq_iff)
    with \<open>j < unat cs\<close> show "i \<in> probe cs t hash ` {0..<unat cs}" by auto
  qed (rule probe_less [OF assms])
  have "card (probe cs t hash ` {0..<unat cs}) = unat cs" unfolding img by (rule card_words_below)
  then show "distinct (map (probe cs t hash) [0..<unat cs])"
    by (simp add: card_distinct)
qed

section \<open>The loops as searches\<close>

lemma is_valid_iff: "is_valid chunk i = bit (valid_mask chunk) (unat i)"
  by (simp add: is_valid_def bit_test)

text \<open>
  The copy of the valid mask only ends the loop early: it is zero only when no valid pair is left to
  probe.
\<close>

lemma check_collision_find:
  assumes "chunk_size_ok cs" and "distinct (map (probe cs t hash) js)"
    and "\<forall>j \<in> set js. bit vmask (unat (probe cs t hash j)) = is_valid chunk (probe cs t hash j)"
  shows "check_collision cs t hash chunk key vmask js
    = find (\<lambda>i. is_valid_and_equal chunk i key) (map (probe cs t hash) js)"
  using assms(2, 3)
proof (induction js arbitrary: vmask)
  case (Cons j js)
  let ?p = "probe cs t hash"
  let ?vmask = "vmask AND (0xFFFFFFFF XOR push_bit (unat (?p j)) 1)"
  show ?case
  proof (cases "vmask = 0")
    case True
    then have "\<forall>i \<in> set (map ?p (j # js)). \<not> is_valid_and_equal chunk i key"
      using Cons.prems(2) by (auto simp: is_valid_and_equal_def)
    then have "find (\<lambda>i. is_valid_and_equal chunk i key) (map ?p (j # js)) = None"
      by (simp only: find_None_iff) blast
    with True show ?thesis by simp
  next
    case False
    have "bit ?vmask (unat (?p i)) = is_valid chunk (?p i)" if "i \<in> set js" for i
    proof -
      have "unat (?p i) < 32" using probe_less [OF assms(1), of t hash i] chunk_size_pos(2) [OF assms(1)]
        by (simp add: word_less_nat_alt)
      moreover have "unat (?p i) \<noteq> unat (?p j)" using Cons.prems(1) imageI [OF that, of ?p] by (auto simp flip: word_unat_eq_iff)
      ultimately have "bit (0xFFFFFFFF XOR push_bit (unat (?p j)) 1 :: u32) (unat (?p i))"
        by (simp add: bit_xor_iff bit_push_bit_iff bit_1_iff ones32 bit_not_iff bit_exp_iff)
      then show ?thesis using Cons.prems(2) that by (simp add: bit_and_iff)
    qed
    with Cons False show ?thesis by (simp add: Let_def)
  qed
qed simp

lemma find_pair_find:
  assumes "chunk_size_ok cs"
  shows "find_pair cs t hash chunk key
    = find (\<lambda>i. is_valid_and_equal chunk i key) (map (probe cs t hash) [0..<unat cs])"
proof -
  have split: "[0..<unat cs] = 0 # [1..<unat cs]" using chunk_size_pos(1) [OF assms] by (simp add: upt_conv_Cons)
  have "bit (ucast (valid_mask chunk) :: u32) (unat (probe cs t hash j)) = is_valid chunk (probe cs t hash j)" for j
    using probe_less [OF assms, of t hash j] chunk_size_pos(2) [OF assms]
    by (simp add: is_valid_iff bit_ucast_iff word_less_nat_alt)
  moreover have "distinct (map (probe cs t hash) [1..<unat cs])"
    using probe_all(2) [OF assms, of t hash] unfolding split by simp
  ultimately have "check_collision cs t hash chunk key (ucast (valid_mask chunk)) [1..<unat cs]
      = find (\<lambda>i. is_valid_and_equal chunk i key) (map (probe cs t hash) [1..<unat cs])"
    by (intro check_collision_find [OF assms]) simp_all
  then show ?thesis unfolding split by (simp add: find_pair_def probe_zero Let_def)
qed

lemma insert_collision_find:
  "insert_collision cs t hash chunk key val js
    = map_option (\<lambda>i. store_pair chunk i key val) (find (\<lambda>i. \<not> is_valid chunk i) (map (probe cs t hash) js))"
  by (induction js) (simp_all add: Let_def)

text \<open>No valid bit lies beyond the pairs of a chunk, so that the full mask means that all are used.\<close>

definition mask_ok :: "u32 \<Rightarrow> ('k, 'v) chunk_t \<Rightarrow> bool" where
  "mask_ok cs chunk = (take_bit (unat cs) (valid_mask chunk) = valid_mask chunk)"

lemma mask_ok_bit: "mask_ok cs chunk \<Longrightarrow> bit (valid_mask chunk) n \<Longrightarrow> n < unat cs"
  unfolding mask_ok_def by (metis bit_take_bit_iff)

lemma mask_okI: "(\<And>n. bit (valid_mask chunk) n \<Longrightarrow> n < unat cs) \<Longrightarrow> mask_ok cs chunk"
  unfolding mask_ok_def by (rule bit_word_eqI) (auto simp: bit_take_bit_iff)

lemma full_iff:
  assumes "chunk_size_ok cs" and "mask_ok cs chunk"
  shows "valid_mask chunk = ucast (valid_mask_full cs) \<longleftrightarrow> (\<forall>i < cs. is_valid chunk i)"
proof -
  have "unat (32 - cs) = 32 - unat cs" using assms(1) by (auto simp: chunk_size_ok_def)
  then have bits: "bit (ucast (valid_mask_full cs) :: u64) n \<longleftrightarrow> n < unat cs" for n
    using chunk_size_pos [OF assms(1)] by (auto simp: valid_mask_full_def bit_ucast_iff bit_drop_bit_eq ones32 bit_mask_iff)
  show ?thesis
  proof
    assume "valid_mask chunk = ucast (valid_mask_full cs)"
    then show "\<forall>i < cs. is_valid chunk i" by (simp add: is_valid_iff bits word_less_nat_alt)
  next
    assume all: "\<forall>i < cs. is_valid chunk i"
    show "valid_mask chunk = ucast (valid_mask_full cs)"
    proof (rule bit_word_eqI)
      fix n
      have "bit (valid_mask chunk) n" if "n < unat cs"
      proof -
        have "unat (of_nat n :: u32) = n" using that chunk_size_pos(2) [OF assms(1)] by (intro unat_of_nat_small) simp
        then show ?thesis using all that by (auto simp: is_valid_iff word_less_nat_alt dest: spec [of _ "of_nat n"])
      qed
      then show "bit (valid_mask chunk) n = bit (ucast (valid_mask_full cs) :: u64) n"
        using mask_ok_bit [OF assms(2)] by (auto simp: bits)
    qed
  qed
qed

section \<open>The table as a map\<close>

definition ht_get :: "('k \<Rightarrow> u32) \<Rightarrow> u32 \<Rightarrow> ('k, 'v) htable \<Rightarrow> 'k \<Rightarrow> 'v option" where
  "ht_get calculate_hash cs t key =
     map_option (\<lambda>(chunk_id, pair_index). snd (pairs (chunks t chunk_id) pair_index))
       (snd (ht_lookup calculate_hash cs t key))"

text \<open>
  The invariant: a valid pair lies in the chunk of its key, a key is stored once, and the masks have
  no bit beyond the chunk.
\<close>

definition chunk_ok :: "('k \<Rightarrow> u32) \<Rightarrow> u32 \<Rightarrow> u32 \<Rightarrow> u32 \<Rightarrow> ('k, 'v) chunk_t \<Rightarrow> bool" where
  "chunk_ok calculate_hash cs tmask c chunk =
     (mask_ok cs chunk \<and>
      (\<forall>i < cs. is_valid chunk i \<longrightarrow> calculate_hash (fst (pairs chunk i)) AND tmask = c) \<and>
      (\<forall>i < cs. \<forall>j < cs. is_valid chunk i \<longrightarrow> is_valid chunk j \<longrightarrow>
        fst (pairs chunk i) = fst (pairs chunk j) \<longrightarrow> i = j))"

definition ht_inv :: "('k \<Rightarrow> u32) \<Rightarrow> u32 \<Rightarrow> ('k, 'v) htable \<Rightarrow> bool" where
  "ht_inv calculate_hash cs t =
     (chunk_size_ok cs \<and> (\<forall>c \<le> total_mask t. chunk_ok calculate_hash cs (total_mask t) c (chunks t c)))"

lemma chunk_ok_uniq:
  "chunk_ok h cs tmask c chunk \<Longrightarrow> i < cs \<Longrightarrow> j < cs \<Longrightarrow> is_valid chunk i \<Longrightarrow> is_valid chunk j
    \<Longrightarrow> fst (pairs chunk i) = fst (pairs chunk j) \<Longrightarrow> i = j"
  by (simp add: chunk_ok_def)

lemma home_le: "calculate_hash key AND total_mask t \<le> (total_mask t :: u32)"
  by (simp add: word_and_le1)

lemma find_pair_Some:
  assumes "ht_inv calculate_hash cs t" and "c \<le> total_mask t"
  shows "find_pair cs t hash (chunks t c) key = Some i
    \<longleftrightarrow> i < cs \<and> is_valid (chunks t c) i \<and> fst (pairs (chunks t c) i) = key"
proof -
  have cs: "chunk_size_ok cs" using assms(1) by (simp add: ht_inv_def)
  let ?P = "\<lambda>i. is_valid_and_equal (chunks t c) i key"
  have sound: "i < cs \<and> ?P i" if "find_pair cs t hash (chunks t c) key = Some i" for i
    using that probe_all(1) [OF cs, of t hash]
    by (auto simp: find_pair_find [OF cs] find_Some_iff probe_less [OF cs])
  have complete: "find_pair cs t hash (chunks t c) key \<noteq> None" if "i < cs" "?P i"
  proof -
    have "i \<in> set (map (probe cs t hash) [0..<unat cs])" using probe_all(1) [OF cs, of t hash] that(1) by simp
    then show ?thesis using that(2) by (auto simp only: find_pair_find [OF cs] find_None_iff)
  qed
  have uniq: "j = i" if "i < cs" "?P i" "j < cs" "?P j" for j
    using that assms unfolding ht_inv_def chunk_ok_def is_valid_and_equal_def is_equal_def by blast
  show ?thesis
    using sound complete uniq unfolding is_valid_and_equal_def is_equal_def by (metis not_None_eq)
qed

lemma ht_get_Some:
  assumes "ht_inv h cs t"
  shows "ht_get h cs t key = Some v \<longleftrightarrow>
    (\<exists>i < cs. is_valid (chunks t (h key AND total_mask t)) i \<and> pairs (chunks t (h key AND total_mask t)) i = (key, v))"
  by (auto simp: ht_get_def ht_lookup_def Let_def find_pair_Some [OF assms home_le] prod_eq_iff)

lemma ht_get_None:
  assumes "ht_inv h cs t"
  shows "ht_get h cs t key = None \<longleftrightarrow>
    (\<forall>i < cs. is_valid (chunks t (h key AND total_mask t)) i \<longrightarrow> fst (pairs (chunks t (h key AND total_mask t)) i) \<noteq> key)"
proof -
  have "ht_get h cs t key = None \<longleftrightarrow> find_pair cs t (h key) (chunks t (h key AND total_mask t)) key = None"
    by (simp add: ht_get_def ht_lookup_def Let_def)
  also have "\<dots> \<longleftrightarrow> (\<forall>i. find_pair cs t (h key) (chunks t (h key AND total_mask t)) key \<noteq> Some i)" by simp
  finally show ?thesis by (auto simp: find_pair_Some [OF assms home_le])
qed

text \<open>Keys are distinct, so a valid pair of the chunk is what a look-up of its key finds.\<close>

lemma ht_get_pair:
  assumes "ht_inv h cs t" and "c \<le> total_mask t" and "i < cs" and "is_valid (chunks t c) i"
  shows "ht_get h cs t (fst (pairs (chunks t c) i)) = Some (snd (pairs (chunks t c) i))"
proof -
  have "h (fst (pairs (chunks t c) i)) AND total_mask t = c" using assms by (simp add: ht_inv_def chunk_ok_def)
  then show ?thesis using assms by (auto simp: ht_get_Some)
qed

lemma ht_inv_chunk:
  assumes "ht_inv h cs t" and "chunk_ok h cs (total_mask t) c chunk"
  shows "ht_inv h cs (t\<lparr>chunks := (chunks t)(c := chunk)\<rparr>)"
  using assms by (simp add: ht_inv_def)

lemma bit_pair_mask: "bit (ucast (2 ^ i :: u32) :: u64) n \<longleftrightarrow> n = i \<and> i < 32"
  by (auto simp: bit_ucast_iff bit_exp_iff)

lemma is_valid_store:
  assumes "chunk_size_ok cs" and "i < cs" and "j < cs"
  shows "is_valid (store_pair chunk i key val) j \<longleftrightarrow> j = i \<or> is_valid chunk j"
  using assms chunk_size_pos(2) [OF assms(1)]
  by (auto simp: is_valid_iff store_pair_def bit_or_iff bit_pair_mask word_less_nat_alt word_unat_eq_iff)

lemma store_pair_ok:
  assumes "chunk_size_ok cs" and "i < cs" and "chunk_ok h cs tmask c chunk" and "h key AND tmask = c"
    and "\<not> is_valid chunk i" and new: "\<forall>j < cs. is_valid chunk j \<longrightarrow> fst (pairs chunk j) \<noteq> key"
  shows "chunk_ok h cs tmask c (store_pair chunk i key val)"
proof -
  have pairs: "pairs (store_pair chunk i key val) = (pairs chunk)(i := (key, val))" by (simp add: store_pair_def)
  have "mask_ok cs (store_pair chunk i key val)"
  proof (rule mask_okI)
    fix n assume "bit (valid_mask (store_pair chunk i key val)) n"
    then have "bit (valid_mask chunk) n \<or> n = unat i"
      by (auto simp: store_pair_def bit_or_iff bit_pair_mask)
    then show "n < unat cs" using assms(2, 3) by (auto simp: chunk_ok_def word_less_nat_alt dest: mask_ok_bit)
  qed
  then show ?thesis
    using assms by (auto simp: chunk_ok_def pairs is_valid_store [OF assms(1, 2)])
qed

section \<open>Correctness of the operations\<close>

lemma option_eqI: "(\<And>v. a = Some v \<longleftrightarrow> b = Some v) \<Longrightarrow> a = b"
  by (metis option.exhaust)

lemma ht_insert_find:
  assumes "chunk_size_ok cs" and "mask_ok cs (chunks t (hash AND total_mask t))"
  shows "ht_insert cs t hash key val =
    (let c = hash AND total_mask t
     in case find (\<lambda>i. \<not> is_valid (chunks t c) i) (map (probe cs t hash) [0..<unat cs]) of
          None \<Rightarrow> (False, t)
        | Some i \<Rightarrow> (True, t\<lparr>chunks := (chunks t)(c := store_pair (chunks t c) i key val)\<rparr>))"
proof -
  let ?chunk = "chunks t (hash AND total_mask t)"
  have split: "[0..<unat cs] = 0 # [1..<unat cs]" using chunk_size_pos(1) [OF assms(1)] by (simp add: upt_conv_Cons)
  have "find (\<lambda>i. \<not> is_valid ?chunk i) (map (probe cs t hash) [0..<unat cs]) = None"
    if "valid_mask ?chunk = ucast (valid_mask_full cs)"
    using that probe_less [OF assms(1)] by (auto simp: full_iff [OF assms] find_None_iff)
  then show ?thesis
    unfolding ht_insert_def probe_zero split
    by (auto simp: Let_def insert_collision_find split: option.splits)
qed

lemma ht_insert_cases:
  assumes "ht_inv h cs t"
  obtains i where "i < cs" "\<not> is_valid (chunks t (hash AND total_mask t)) i"
      "ht_insert cs t hash key val = (True, t\<lparr>chunks := (chunks t)(hash AND total_mask t :=
         store_pair (chunks t (hash AND total_mask t)) i key val)\<rparr>)"
    | "\<forall>i < cs. is_valid (chunks t (hash AND total_mask t)) i" "ht_insert cs t hash key val = (False, t)"
proof -
  let ?c = "hash AND total_mask t"
  have cs: "chunk_size_ok cs" using assms by (simp add: ht_inv_def)
  have "?c \<le> total_mask t" by (rule word_and_le1)
  then have ok: "mask_ok cs (chunks t ?c)" using assms by (simp add: ht_inv_def chunk_ok_def)
  show thesis
  proof (cases "find (\<lambda>i. \<not> is_valid (chunks t ?c) i) (map (probe cs t hash) [0..<unat cs])")
    case None
    then have "\<not> (\<exists>i \<in> probe cs t hash ` {0..<unat cs}. \<not> is_valid (chunks t ?c) i)"
      by (auto simp: find_None_iff)
    then show thesis using None that(2) by (simp add: probe_all(1) [OF cs] ht_insert_find [OF cs ok])
  next
    case (Some i)
    then have "i < cs" "\<not> is_valid (chunks t ?c) i" by (auto simp: find_Some_iff probe_less [OF cs])
    then show thesis using Some by (intro that(1)) (simp_all add: ht_insert_find [OF cs ok] Let_def)
  qed
qed

lemma ht_get_store:
  fixes h :: "'k \<Rightarrow> u32" and t :: "('k, 'v) htable" and val :: 'v
  assumes inv: "ht_inv h cs t" and "i < cs" and free: "\<not> is_valid (chunks t (h key AND total_mask t)) i"
    and new: "ht_get h cs t key = None"
  defines "t' \<equiv> t\<lparr>chunks := (chunks t)(h key AND total_mask t := store_pair (chunks t (h key AND total_mask t)) i key val)\<rparr>"
  shows "ht_inv h cs t'" and "ht_get h cs t' = (ht_get h cs t)(key \<mapsto> val)"
proof -
  let ?c = "h key AND total_mask t"
  have cs: "chunk_size_ok cs" using inv by (simp add: ht_inv_def)
  have "chunk_ok h cs (total_mask t) ?c (chunks t ?c)" using inv home_le [of h key t] by (simp add: ht_inv_def)
  then show inv': "ht_inv h cs t'"
    unfolding t'_def using new
    by (intro ht_inv_chunk [OF inv] store_pair_ok [OF cs \<open>i < cs\<close> _ _ free]) (simp_all add: ht_get_None [OF inv])
  have pairs: "pairs (store_pair (chunks t ?c) i key val) = (pairs (chunks t ?c))(i := (key, val))"
    by (simp add: store_pair_def)
  have "ht_get h cs t' k = Some v \<longleftrightarrow> ((ht_get h cs t)(key \<mapsto> val)) k = Some v" for k v
  proof (cases "k = key")
    case True
    have "ht_get h cs t' key = Some val"
      using \<open>i < cs\<close> unfolding ht_get_Some [OF inv'] by (auto simp: t'_def pairs is_valid_store [OF cs \<open>i < cs\<close>])
    with True show ?thesis by simp
  next
    case False
    then show ?thesis using \<open>i < cs\<close> free unfolding fun_upd_other [OF False] ht_get_Some [OF inv'] ht_get_Some [OF inv]
      by (auto simp: t'_def pairs is_valid_store [OF cs \<open>i < cs\<close>])
  qed
  then show "ht_get h cs t' = (ht_get h cs t)(key \<mapsto> val)" by (intro ext option_eqI)
qed

lemma ht_get_set_value:
  fixes h :: "'k \<Rightarrow> u32" and t :: "('k, 'v) htable" and val :: 'v
  assumes inv: "ht_inv h cs t" and "i < cs" and "is_valid (chunks t (h key AND total_mask t)) i"
    and "fst (pairs (chunks t (h key AND total_mask t)) i) = key"
  defines "t' \<equiv> set_value t (h key AND total_mask t, i) val"
  shows "ht_inv h cs t'" and "ht_get h cs t' = (ht_get h cs t)(key \<mapsto> val)"
proof -
  let ?c = "h key AND total_mask t"
  let ?chunk = "chunks t ?c"
  have cs: "chunk_size_ok cs" using inv by (simp add: ht_inv_def)
  have ok: "chunk_ok h cs (total_mask t) ?c ?chunk" using inv home_le [of h key t] by (simp add: ht_inv_def)
  let ?chunk' = "?chunk\<lparr>pairs := (pairs ?chunk)(i := (key, val))\<rparr>"
  have t': "t' = t\<lparr>chunks := (chunks t)(?c := ?chunk')\<rparr>" by (simp add: t'_def set_value_def Let_def assms(4))
  have fst_pairs: "fst (pairs ?chunk' j) = fst (pairs ?chunk j)" for j using assms(4) by simp
  have same: "is_valid ?chunk' = is_valid ?chunk" "valid_mask ?chunk' = valid_mask ?chunk"
    by (simp_all add: fun_eq_iff is_valid_def)
  have "chunk_ok h cs (total_mask t) ?c ?chunk'"
    using ok unfolding chunk_ok_def mask_ok_def same fst_pairs .
  then show inv': "ht_inv h cs t'" unfolding t' by (rule ht_inv_chunk [OF inv])
  have uniq: "j = i" if "j < cs" "is_valid ?chunk j" "fst (pairs ?chunk j) = key" for j
    using chunk_ok_uniq [OF ok that(1) assms(2) that(2) assms(3)] that(3) assms(4) by simp
  have "ht_get h cs t' k = Some v \<longleftrightarrow> ((ht_get h cs t)(key \<mapsto> val)) k = Some v" for k v
  proof (cases "k = key")
    case True
    have "ht_get h cs t' key = Some val"
      using assms(2, 3) unfolding ht_get_Some [OF inv'] by (auto simp: t' is_valid_def)
    with True show ?thesis by simp
  next
    case False
    then have "pairs ?chunk' j = (k, v) \<longleftrightarrow> pairs ?chunk j = (k, v)" for j using assms(4) by auto
    then show ?thesis unfolding fun_upd_other [OF False] ht_get_Some [OF inv'] ht_get_Some [OF inv]
      by (cases "h k AND total_mask t = ?c") (simp_all add: t' is_valid_def)
  qed
  then show "ht_get h cs t' = (ht_get h cs t)(key \<mapsto> val)" by (intro ext option_eqI)
qed

text \<open>Clearing a valid bit, as \<^verbatim>\<open>remove\<close> and the iterator's \<^verbatim>\<open>unset_valid\<close> do.\<close>

lemma ht_get_unset:
  fixes h :: "'k \<Rightarrow> u32" and t :: "('k, 'v) htable"
  assumes inv: "ht_inv h cs t" and "c \<le> total_mask t" and "i < cs"
    and mask: "\<And>n. bit m n \<longleftrightarrow> bit (valid_mask (chunks t c)) n \<and> n \<noteq> unat i"
  defines "t' \<equiv> t\<lparr>chunks := (chunks t)(c := (chunks t c)\<lparr>valid_mask := m\<rparr>)\<rparr>"
  shows "ht_inv h cs t'"
    and "ht_get h cs t' = (if is_valid (chunks t c) i then (ht_get h cs t)(fst (pairs (chunks t c) i) := None)
                           else ht_get h cs t)"
proof -
  let ?chunk = "chunks t c"
  let ?chunk' = "?chunk\<lparr>valid_mask := m\<rparr>"
  let ?key = "fst (pairs ?chunk i)"
  have valid: "is_valid ?chunk' j \<longleftrightarrow> is_valid ?chunk j \<and> j \<noteq> i" for j
    by (simp add: is_valid_iff mask word_unat_eq_iff)
  have ok: "chunk_ok h cs (total_mask t) c ?chunk" using inv assms(2) by (simp add: ht_inv_def)
  moreover have "mask_ok cs ?chunk'"
    using ok by (intro mask_okI) (auto simp: chunk_ok_def mask dest: mask_ok_bit)
  ultimately have "chunk_ok h cs (total_mask t) c ?chunk'" by (simp add: chunk_ok_def valid)
  then show inv': "ht_inv h cs t'" unfolding t'_def by (rule ht_inv_chunk [OF inv])
  have home: "h ?key AND total_mask t = c" and uniq: "\<forall>j < cs. is_valid ?chunk j \<longrightarrow> fst (pairs ?chunk j) = ?key \<longrightarrow> j = i"
    if "is_valid ?chunk i"
    using that ok \<open>i < cs\<close> by (auto simp: chunk_ok_def)
  have "ht_get h cs t' k = Some v \<longleftrightarrow> ht_get h cs t k = Some v \<and> \<not> (is_valid ?chunk i \<and> k = ?key)" for k v
  proof (cases "h k AND total_mask t = c")
    case True
    have "pairs ?chunk j = (k, v) \<Longrightarrow> is_valid ?chunk j \<Longrightarrow> j < cs \<Longrightarrow> j \<noteq> i \<longleftrightarrow> \<not> (is_valid ?chunk i \<and> k = ?key)" for j
      using uniq by (metis fst_conv)
    then show ?thesis unfolding ht_get_Some [OF inv'] ht_get_Some [OF inv] using True
      by (auto simp: t'_def valid)
  next
    case False
    then show ?thesis unfolding ht_get_Some [OF inv'] ht_get_Some [OF inv] using home by (auto simp: t'_def)
  qed
  then show "ht_get h cs t' = (if is_valid ?chunk i then (ht_get h cs t)(?key := None) else ht_get h cs t)"
    by (intro ext option_eqI) simp
qed

lemma ht_lookup_None: "snd (ht_lookup h cs t key) = None \<longleftrightarrow> ht_get h cs t key = None"
  by (simp add: ht_get_def)

lemma ht_lookup_hash: "fst (ht_lookup h cs t key) = h key"
  by (simp add: ht_lookup_def Let_def)

lemma ht_insert_or_update_absent:
  "ht_get h cs t key = None \<Longrightarrow> ht_insert_or_update h cs t key val = ht_insert cs t (h key) key val"
  by (simp add: ht_insert_or_update_def ht_get_def ht_lookup_def Let_def)

lemma ht_insert_or_update_present:
  assumes "ht_inv h cs t" and "ht_get h cs t key \<noteq> None"
  obtains i where "i < cs" "is_valid (chunks t (h key AND total_mask t)) i"
    "fst (pairs (chunks t (h key AND total_mask t)) i) = key"
    "ht_insert_or_update h cs t key val = (True, set_value t (h key AND total_mask t, i) val)"
proof -
  obtain i where i: "find_pair cs t (h key) (chunks t (h key AND total_mask t)) key = Some i"
    using assms(2) by (auto simp: ht_get_def ht_lookup_def Let_def)
  then show thesis using that [of i] i [unfolded find_pair_Some [OF assms(1) home_le]]
    by (simp add: ht_insert_or_update_def ht_lookup_def Let_def)
qed

lemma ht_insert_or_update_effect:
  assumes "ht_inv calculate_hash chunk_size t"
    and "ht_insert_or_update calculate_hash chunk_size t key val = (ok, t')"
  shows "ht_inv calculate_hash chunk_size t' \<and>
    (if ok then ht_get calculate_hash chunk_size t' = (ht_get calculate_hash chunk_size t)(key \<mapsto> val)
     else t' = t \<and> ht_get calculate_hash chunk_size t key = None \<and>
          (\<forall>i. i < chunk_size \<longrightarrow> is_valid (chunks t (calculate_hash key AND total_mask t)) i))"
proof (cases "ht_get calculate_hash chunk_size t key")
  case None
  from ht_insert_cases [OF assms(1), of "calculate_hash key" key val] show ?thesis
  proof cases
    case (1 i)
    then show ?thesis using ht_get_store [OF assms(1) 1(1, 2) None, of val] assms(2) None
      by (auto simp: ht_insert_or_update_absent)
  next
    case 2
    then show ?thesis using assms None by (simp add: ht_insert_or_update_absent)
  qed
next
  case (Some v)
  obtain i where "i < chunk_size" "is_valid (chunks t (calculate_hash key AND total_mask t)) i"
    "fst (pairs (chunks t (calculate_hash key AND total_mask t)) i) = key"
    and eq: "ht_insert_or_update calculate_hash chunk_size t key val
        = (True, set_value t (calculate_hash key AND total_mask t, i) val)"
    using ht_insert_or_update_present [OF assms(1)] Some by (metis option.simps(3))
  from ht_get_set_value [OF assms(1) this(1-3), of val] show ?thesis using assms(2) by (simp add: eq)
qed

lemma ht_clear_get:
  assumes "chunk_size_ok cs"
  shows "ht_inv h cs (ht_clear t)" and "ht_get h cs (ht_clear t) key = None"
proof -
  have none: "\<not> is_valid (chunks (ht_clear t) c) i" if "c \<le> total_mask t" for c i
    using that by (simp add: ht_clear_def is_valid_def)
  have tm: "total_mask (ht_clear t) = total_mask t" by (simp add: ht_clear_def)
  have "mask_ok cs (chunks (ht_clear t) c)" if "c \<le> total_mask t" for c
    using that by (simp add: mask_ok_def ht_clear_def)
  then show inv: "ht_inv h cs (ht_clear t)" using assms by (simp add: ht_inv_def chunk_ok_def none tm)
  show "ht_get h cs (ht_clear t) key = None"
    unfolding ht_get_None [OF inv] tm using none [OF home_le [of h key t]] by simp
qed

definition example_table :: "(u32, u32) htable" where
  "example_table = ht_clear (update_pointer 2 4 \<lparr>total_mask = 0, total_shift = 0,
     chunks = (\<lambda>_. \<lparr>valid_mask = 3, pairs = (\<lambda>_. (0, 0))\<rparr>)\<rparr>)"

definition example_hash :: "u32 \<Rightarrow> u32" where
  "example_hash key = key"

lemma ht_remove_eq:
  assumes inv: "ht_inv h cs t" and "ht_remove h cs t key = (ok, t')"
  shows "ht_inv h cs t'" and "ok \<longleftrightarrow> ht_get h cs t key \<noteq> None"
    and "ht_get h cs t' = (ht_get h cs t)(key := None)"
proof -
  let ?c = "h key AND total_mask t"
  have "ht_inv h cs t' \<and> (ok \<longleftrightarrow> ht_get h cs t key \<noteq> None) \<and> ht_get h cs t' = (ht_get h cs t)(key := None)"
  proof (cases "find_pair cs t (h key) (chunks t ?c) key")
    case None
    then have none: "ht_get h cs t key = None" by (simp add: ht_get_def ht_lookup_def Let_def)
    then have "(ht_get h cs t)(key := None) = ht_get h cs t" by (rule fun_upd_idem)
    with None none assms show ?thesis by (simp add: ht_remove_def Let_def)
  next
    case (Some i)
    let ?m = "valid_mask (chunks t ?c) XOR ucast (push_bit (unat i) 1 :: u32)"
    have i: "i < cs" "is_valid (chunks t ?c) i" "fst (pairs (chunks t ?c) i) = key"
      using Some by (simp_all add: find_pair_Some [OF inv home_le])
    have "unat i < 32" using i(1) inv chunk_size_pos(2) [of cs] by (simp add: ht_inv_def word_less_nat_alt)
    then have "bit ?m n \<longleftrightarrow> bit (valid_mask (chunks t ?c)) n \<and> n \<noteq> unat i" for n
      using i(2) by (auto simp: bit_xor_iff bit_pair_mask is_valid_iff)
    from ht_get_unset [OF inv home_le [of h key t] i(1) this] i assms(2) Some
    show ?thesis by (auto simp: ht_remove_def Let_def ht_get_def ht_lookup_def)
  qed
  then show "ht_inv h cs t'" and "ok \<longleftrightarrow> ht_get h cs t key \<noteq> None"
    and "ht_get h cs t' = (ht_get h cs t)(key := None)" by simp_all
qed

interpretation neighbor_map: bounded_map "ht_inv h cs" "ht_get h cs" "ht_insert_or_update h cs" "ht_remove h cs"
  for h :: "'k \<Rightarrow> u32" and cs :: u32
proof
  fix s s' :: "('k, 'v) htable" and k :: 'k and v :: 'v and ok :: bool
  assume inv: "ht_inv h cs s"
  show "ht_inv h cs s' \<and> ht_get h cs s' = (if ok then (ht_get h cs s)(k \<mapsto> v) else ht_get h cs s)"
    if "ht_insert_or_update h cs s k v = (ok, s')"
    using ht_insert_or_update_effect [OF inv that] by (auto split: if_splits)
  show "ht_inv h cs s' \<and> ok = (ht_get h cs s k \<noteq> None) \<and> ht_get h cs s' = (ht_get h cs s)(k := None)"
    if "ht_remove h cs s k = (ok, s')"
    using ht_remove_eq [OF inv that] by blast
qed

text \<open>
  C12: after \<^verbatim>\<open>clear\<close> and any sequence of \<^verbatim>\<open>insert_or_update\<close> and \<^verbatim>\<open>remove\<close> calls the table is the map
  that the successful calls describe, and its invariant holds.
\<close>

theorem ht_operations_correct:
  assumes "chunk_size_ok chunk_size"
    and "map_run (ht_insert_or_update calculate_hash chunk_size) (ht_remove calculate_hash chunk_size) (ht_clear t) ops
        = (oks, t')"
  shows "ht_inv calculate_hash chunk_size t' \<and>
    ht_get calculate_hash chunk_size t' = map_effect (\<lambda>key. None) (zip ops oks)"
proof -
  have "ht_get calculate_hash chunk_size (ht_clear t) = (\<lambda>key. None)"
    by (rule ext) (rule ht_clear_get(2) [OF assms(1)])
  then show ?thesis
    using neighbor_map.run_effect [OF ht_clear_get(1) [OF assms(1)] assms(2)] by simp
qed

definition example_ops :: "(u32, u32) map_op list" where
  "example_ops = [Put 1 10, Put 3 30, Put 5 50, Del 1, Put 5 55]"

theorem ht_operations_correct_witness:
  "let (oks, t) = map_run (ht_insert_or_update example_hash 2) (ht_remove example_hash 2) (ht_clear example_table) example_ops
   in oks = [True, True, False, True, True] \<and> ht_get example_hash 2 t = [3 \<mapsto> 30, 5 \<mapsto> 55]"
proof -
  let ?run = "map_run (ht_insert_or_update example_hash 2) (ht_remove example_hash 2) (ht_clear example_table) example_ops"
  obtain t where r: "?run = ([True, True, False, True, True], t)"
  proof -
    have "fst ?run = [True, True, False, True, True]" by code_simp
    then show thesis using that by (metis prod.collapse)
  qed
  have "chunk_size_ok 2" by (simp add: chunk_size_ok_def)
  moreover have "map_effect (\<lambda>key. None) (zip example_ops [True, True, False, True, True]) = [3 \<mapsto> 30, 5 \<mapsto> 55]"
    by (simp add: example_ops_def fun_eq_iff)
  ultimately show ?thesis using ht_operations_correct [OF _ r] unfolding r by simp
qed

end
