(* ===== verification/HashtableSpinlock.thy ===== *)
theory HashtableSpinlock
  imports HashtableMod
begin

text \<open>
  The table of connection states \<^verbatim>\<open>hashtable_mod_spinlock_dynamic\<close> of \<^verbatim>\<open>src/dataplane/hashtable.h\<close>, shared by
  the workers and the garbage collector: every chunk has a spin lock, a mask of 32 valid bits and its
  pairs.  The bodies of the operations are shown to refine those of \<^verbatim>\<open>hashtable_mod_dynamic\<close>; taking a
  lock that is held does not return, which is \<open>None\<close>.
\<close>

section \<open>Data and operations\<close>

record ('k, 'v) sl_chunk =
  locker :: bool
  sl_valid_mask :: u32
  sl_pairs :: "u32 \<Rightarrow> 'k \<times> 'v"

record ('k, 'v) sl_table =
  sl_total_mask :: u32
  sl_total_shift :: u32
  sl_chunks :: "u32 \<Rightarrow> ('k, 'v) sl_chunk"

definition sl_update_chunk :: "u32 \<Rightarrow> (('k, 'v) sl_chunk \<Rightarrow> ('k, 'v) sl_chunk) \<Rightarrow> ('k, 'v) sl_table \<Rightarrow> ('k, 'v) sl_table" where
  "sl_update_chunk c f t = t\<lparr>sl_chunks := (sl_chunks t)(c := f (sl_chunks t c))\<rparr>"

definition sl_lock :: "u32 \<Rightarrow> ('k, 'v) sl_table \<Rightarrow> ('k, 'v) sl_table option" where
  "sl_lock c t = (if locker (sl_chunks t c) then None else Some (sl_update_chunk c (locker_update (\<lambda>_. True)) t))"

definition sl_unlock :: "u32 \<Rightarrow> ('k, 'v) sl_table \<Rightarrow> ('k, 'v) sl_table" where
  "sl_unlock c t = sl_update_chunk c (locker_update (\<lambda>_. False)) t"

definition sl_is_valid :: "('k, 'v) sl_chunk \<Rightarrow> u32 \<Rightarrow> bool" where
  "sl_is_valid chunk pair_index = (drop_bit (unat pair_index) (sl_valid_mask chunk) AND 1 \<noteq> 0)"

definition sl_is_equal :: "('k, 'v) sl_chunk \<Rightarrow> u32 \<Rightarrow> 'k \<Rightarrow> bool" where
  "sl_is_equal chunk pair_index key = (fst (sl_pairs chunk pair_index) = key)"

definition sl_is_valid_and_equal :: "('k, 'v) sl_chunk \<Rightarrow> u32 \<Rightarrow> 'k \<Rightarrow> bool" where
  "sl_is_valid_and_equal chunk pair_index key = (sl_is_valid chunk pair_index \<and> sl_is_equal chunk pair_index key)"

definition sl_valid_mask_full :: "u32 \<Rightarrow> u32" where
  "sl_valid_mask_full chunk_size = drop_bit (unat (32 - chunk_size)) 0xFFFFFFFF"

definition sl_probe :: "u32 \<Rightarrow> ('k, 'v) sl_table \<Rightarrow> u32 \<Rightarrow> nat \<Rightarrow> u32" where
  "sl_probe chunk_size t hash try_i = (drop_bit (unat (sl_total_shift t)) hash + of_nat try_i) AND (chunk_size - 1)"

fun sl_check_collision :: "u32 \<Rightarrow> ('k, 'v) sl_table \<Rightarrow> u32 \<Rightarrow> ('k, 'v) sl_chunk \<Rightarrow> 'k \<Rightarrow> u32 \<Rightarrow> nat list \<Rightarrow> u32 option" where
  "sl_check_collision chunk_size t hash chunk key vmask [] = None"
| "sl_check_collision chunk_size t hash chunk key vmask (try_i # tries) =
     (if vmask = 0 then None
      else let pair_index = sl_probe chunk_size t hash try_i
           in if sl_is_valid_and_equal chunk pair_index key then Some pair_index
              else sl_check_collision chunk_size t hash chunk key
                     (vmask AND (0xFFFFFFFF XOR push_bit (unat pair_index) 1)) tries)"

definition sl_find_pair :: "u32 \<Rightarrow> ('k, 'v) sl_table \<Rightarrow> u32 \<Rightarrow> ('k, 'v) sl_chunk \<Rightarrow> 'k \<Rightarrow> u32 option" where
  "sl_find_pair chunk_size t hash chunk key =
     (let pair_index = drop_bit (unat (sl_total_shift t)) hash AND (chunk_size - 1)
      in if sl_is_valid_and_equal chunk pair_index key then Some pair_index
         else if chunk_size = 1 then None
         else sl_check_collision chunk_size t hash chunk key (sl_valid_mask chunk) [1..<unat chunk_size])"

text \<open>\<^verbatim>\<open>lookup\<close> returns the hash, the pointer to the value, and the lock it leaves held.\<close>

definition sl_lookup :: "('k \<Rightarrow> u32) \<Rightarrow> u32 \<Rightarrow> ('k, 'v) sl_table \<Rightarrow> 'k \<Rightarrow> (u32 \<times> u32 option \<times> u32 \<times> ('k, 'v) sl_table) option" where
  "sl_lookup calculate_hash chunk_size t key =
     (let hash = calculate_hash key;
          chunk_id = hash AND sl_total_mask t
      in map_option (\<lambda>t. (hash, sl_find_pair chunk_size t hash (sl_chunks t chunk_id) key, chunk_id, t))
           (sl_lock chunk_id t))"

definition sl_store_pair :: "u32 \<Rightarrow> 'k \<Rightarrow> 'v \<Rightarrow> ('k, 'v) sl_chunk \<Rightarrow> ('k, 'v) sl_chunk" where
  "sl_store_pair pair_index key val chunk =
     chunk\<lparr>sl_pairs := (sl_pairs chunk)(pair_index := (key, val)),
           sl_valid_mask := sl_valid_mask chunk OR push_bit (unat pair_index) 1\<rparr>"

fun sl_insert_collision :: "u32 \<Rightarrow> ('k, 'v) sl_table \<Rightarrow> u32 \<Rightarrow> ('k, 'v) sl_chunk \<Rightarrow> 'k \<Rightarrow> 'v \<Rightarrow> nat list \<Rightarrow> ('k, 'v) sl_chunk option" where
  "sl_insert_collision chunk_size t hash chunk key val [] = None"
| "sl_insert_collision chunk_size t hash chunk key val (try_i # tries) =
     (let pair_index = sl_probe chunk_size t hash try_i
      in if \<not> sl_is_valid chunk pair_index then Some (sl_store_pair pair_index key val chunk)
         else sl_insert_collision chunk_size t hash chunk key val tries)"

definition sl_insert :: "u32 \<Rightarrow> ('k, 'v) sl_table \<Rightarrow> u32 \<Rightarrow> 'k \<Rightarrow> 'v \<Rightarrow> bool \<times> ('k, 'v) sl_table" where
  "sl_insert chunk_size t hash key val =
     (let chunk_id = hash AND sl_total_mask t;
          chunk = sl_chunks t chunk_id;
          pair_index = drop_bit (unat (sl_total_shift t)) hash AND (chunk_size - 1)
      in if \<not> sl_is_valid chunk pair_index
         then (True, sl_update_chunk chunk_id (sl_store_pair pair_index key val) t)
         else if chunk_size = 1 then (False, t)
         else if sl_valid_mask chunk = sl_valid_mask_full chunk_size then (False, t)
         else case sl_insert_collision chunk_size t hash chunk key val [1..<unat chunk_size] of
                None \<Rightarrow> (False, t)
              | Some chunk \<Rightarrow> (True, sl_update_chunk chunk_id (\<lambda>_. chunk) t))"

text \<open>\<^verbatim>\<open>*ht_value = value\<close> through the pointer that \<^verbatim>\<open>lookup\<close> returned.\<close>

definition sl_set_value :: "u32 \<Rightarrow> u32 \<Rightarrow> 'v \<Rightarrow> ('k, 'v) sl_table \<Rightarrow> ('k, 'v) sl_table" where
  "sl_set_value chunk_id pair_index val t =
     sl_update_chunk chunk_id (\<lambda>chunk. chunk\<lparr>sl_pairs :=
       (sl_pairs chunk)(pair_index := (fst (sl_pairs chunk pair_index), val))\<rparr>) t"

text \<open>The part of \<^verbatim>\<open>insert_or_update\<close> and of \<^verbatim>\<open>remove\<close> that writes, under the lock.\<close>

definition sl_write_value :: "u32 \<Rightarrow> u32 \<Rightarrow> u32 option \<Rightarrow> 'k \<Rightarrow> 'v \<Rightarrow> ('k, 'v) sl_table \<Rightarrow> bool \<times> ('k, 'v) sl_table" where
  "sl_write_value chunk_size hash ht_value key val t =
     (case ht_value of
        Some pair_index \<Rightarrow> (True, sl_set_value (hash AND sl_total_mask t) pair_index val t)
      | None \<Rightarrow> sl_insert chunk_size t hash key val)"

definition sl_flip_valid :: "u32 \<Rightarrow> u32 option \<Rightarrow> ('k, 'v) sl_table \<Rightarrow> bool \<times> ('k, 'v) sl_table" where
  "sl_flip_valid chunk_id pair_index t =
     (case pair_index of
        Some pair_index \<Rightarrow> (True, sl_update_chunk chunk_id
          (\<lambda>chunk. chunk\<lparr>sl_valid_mask := sl_valid_mask chunk XOR push_bit (unat pair_index) 1\<rparr>) t)
      | None \<Rightarrow> (False, t))"

definition sl_insert_or_update :: "('k \<Rightarrow> u32) \<Rightarrow> u32 \<Rightarrow> ('k, 'v) sl_table \<Rightarrow> 'k \<Rightarrow> 'v \<Rightarrow> (bool \<times> ('k, 'v) sl_table) option" where
  "sl_insert_or_update calculate_hash chunk_size t key val =
     map_option (\<lambda>(hash, ht_value, chunk_id, t).
         let (result, t) = sl_write_value chunk_size hash ht_value key val t
         in (result, sl_unlock chunk_id t))
       (sl_lookup calculate_hash chunk_size t key)"

definition sl_remove :: "('k \<Rightarrow> u32) \<Rightarrow> u32 \<Rightarrow> ('k, 'v) sl_table \<Rightarrow> 'k \<Rightarrow> ('k, 'v) sl_table option" where
  "sl_remove calculate_hash chunk_size t key =
     (let hash = calculate_hash key;
          chunk_id = hash AND sl_total_mask t
      in map_option (\<lambda>t.
             sl_unlock chunk_id (snd (sl_flip_valid chunk_id (sl_find_pair chunk_size t hash (sl_chunks t chunk_id) key) t)))
           (sl_lock chunk_id t))"

definition sl_clear :: "('k, 'v) sl_table \<Rightarrow> ('k, 'v) sl_table" where
  "sl_clear t = t\<lparr>sl_chunks := (\<lambda>i. if i \<le> sl_total_mask t then (sl_chunks t i)\<lparr>sl_valid_mask := 0\<rparr> else sl_chunks t i)\<rparr>"

definition sl_update_pointer :: "u32 \<Rightarrow> u32 \<Rightarrow> ('k, 'v) sl_table \<Rightarrow> ('k, 'v) sl_table" where
  "sl_update_pointer chunk_size total_size t =
     t\<lparr>sl_total_mask := total_size div chunk_size - 1,
       sl_total_shift := of_nat (popcount (total_size div chunk_size - 1))\<rparr>"

text \<open>The iterator of the garbage collector, given by its index.\<close>

definition sl_it_is_valid :: "u32 \<Rightarrow> ('k, 'v) sl_table \<Rightarrow> u32 \<Rightarrow> bool" where
  "sl_it_is_valid chunk_size t index =
     (sl_valid_mask (sl_chunks t (index div chunk_size)) AND push_bit (unat (index mod chunk_size)) 1 \<noteq> 0)"

definition sl_it_unset_valid :: "u32 \<Rightarrow> ('k, 'v) sl_table \<Rightarrow> u32 \<Rightarrow> ('k, 'v) sl_table" where
  "sl_it_unset_valid chunk_size t index =
     sl_update_chunk (index div chunk_size) (\<lambda>chunk. chunk\<lparr>sl_valid_mask :=
       sl_valid_mask chunk AND (0xFFFFFFFF XOR push_bit (unat (index mod chunk_size)) 1)\<rparr>) t"

definition sl_it_pair :: "u32 \<Rightarrow> ('k, 'v) sl_table \<Rightarrow> u32 \<Rightarrow> 'k \<times> 'v" where
  "sl_it_pair chunk_size t index = sl_pairs (sl_chunks t (index div chunk_size)) (index mod chunk_size)"

section \<open>Refinement to the table without locks\<close>

definition abs_chunk :: "('k, 'v) sl_chunk \<Rightarrow> ('k, 'v) chunk_t" where
  "abs_chunk chunk = \<lparr>valid_mask = ucast (sl_valid_mask chunk), pairs = sl_pairs chunk\<rparr>"

definition abs_table :: "('k, 'v) sl_table \<Rightarrow> ('k, 'v) htable" where
  "abs_table t = \<lparr>total_mask = sl_total_mask t, total_shift = sl_total_shift t, chunks = abs_chunk \<circ> sl_chunks t\<rparr>"

lemma abs_table_sel [simp]:
  "total_mask (abs_table t) = sl_total_mask t" "total_shift (abs_table t) = sl_total_shift t"
  "chunks (abs_table t) c = abs_chunk (sl_chunks t c)"
  by (simp_all add: abs_table_def)

lemma abs_chunk_sel [simp]:
  "valid_mask (abs_chunk chunk) = ucast (sl_valid_mask chunk)" "pairs (abs_chunk chunk) = sl_pairs chunk"
  by (simp_all add: abs_chunk_def)

lemma sl_update_chunk_sel [simp]:
  "sl_total_mask (sl_update_chunk c f t) = sl_total_mask t" "sl_total_shift (sl_update_chunk c f t) = sl_total_shift t"
  "sl_chunks (sl_update_chunk c f t) d = (if d = c then f (sl_chunks t c) else sl_chunks t d)"
  by (simp_all add: sl_update_chunk_def)

lemma abs_update_chunk:
  "abs_table (sl_update_chunk c f t) = (abs_table t)\<lparr>chunks := (chunks (abs_table t))(c := abs_chunk (f (sl_chunks t c)))\<rparr>"
  by (simp add: abs_table_def sl_update_chunk_def fun_eq_iff)

lemma abs_locker [simp]: "abs_chunk (chunk\<lparr>locker := b\<rparr>) = abs_chunk chunk"
  by (simp add: abs_chunk_def)

lemma abs_lock: "sl_lock c t = Some t' \<Longrightarrow> abs_table t' = abs_table t"
  by (auto simp: sl_lock_def abs_update_chunk split: if_splits) (simp add: abs_table_def fun_upd_idem)

lemma abs_unlock [simp]: "abs_table (sl_unlock c t) = abs_table t"
  by (simp add: sl_unlock_def abs_update_chunk) (simp add: abs_table_def fun_upd_idem)

lemma sl_is_valid_abs: "sl_is_valid chunk i = is_valid (abs_chunk chunk) i"
  by (auto simp: sl_is_valid_def bit_test is_valid_iff bit_ucast_iff dest: bit_imp_le_length)

lemma sl_probe_abs: "sl_probe cs t hash j = probe cs (abs_table t) hash j"
  by (simp add: sl_probe_def probe_def)

lemma sl_is_valid_and_equal_abs: "sl_is_valid_and_equal chunk i key = is_valid_and_equal (abs_chunk chunk) i key"
  by (simp add: sl_is_valid_and_equal_def is_valid_and_equal_def sl_is_valid_abs sl_is_equal_def is_equal_def)

lemma sl_check_collision_abs:
  "sl_check_collision cs t hash chunk key vmask js = check_collision cs (abs_table t) hash (abs_chunk chunk) key vmask js"
  by (induction js arbitrary: vmask) (simp_all add: Let_def sl_probe_abs sl_is_valid_and_equal_abs)

lemma sl_find_pair_abs: "sl_find_pair cs t hash chunk key = find_pair cs (abs_table t) hash (abs_chunk chunk) key"
  by (simp add: sl_find_pair_def find_pair_def sl_check_collision_abs sl_is_valid_and_equal_abs Let_def)

lemma ucast_xor: "(ucast (a XOR b :: u32) :: u64) = ucast a XOR ucast b"
  and ucast_and: "(ucast (a AND b :: u32) :: u64) = ucast a AND ucast b"
  and ucast_or: "(ucast (a OR b :: u32) :: u64) = ucast a OR ucast b"
  by (rule bit_word_eqI; auto simp: bit_ucast_iff bit_xor_iff bit_and_iff bit_or_iff dest: bit_imp_le_length)+

lemma abs_store_pair: "abs_chunk (sl_store_pair i key val chunk) = store_pair (abs_chunk chunk) i key val"
  by (simp add: abs_chunk_def store_pair_def sl_store_pair_def ucast_or)

lemma sl_insert_collision_abs:
  "map_option abs_chunk (sl_insert_collision cs t hash chunk key val js)
    = insert_collision cs (abs_table t) hash (abs_chunk chunk) key val js"
  by (induction js) (simp_all add: Let_def sl_probe_abs sl_is_valid_abs abs_store_pair)

lemma ucast_u64_eq_iff: "(ucast (a :: u32) :: u64) = ucast b \<longleftrightarrow> a = b"
  by (metis ucast_32_64_32)

lemma sl_insert_abs:
  "map_prod (\<lambda>b. b) abs_table (sl_insert cs t hash key val) = ht_insert cs (abs_table t) hash key val"
proof -
  let ?chunk = "sl_chunks t (hash AND sl_total_mask t)"
  have full: "valid_mask (abs_chunk ?chunk) = ucast (valid_mask_full cs) \<longleftrightarrow> sl_valid_mask ?chunk = sl_valid_mask_full cs"
    by (simp add: ucast_u64_eq_iff sl_valid_mask_full_def valid_mask_full_def)
  show ?thesis
    unfolding sl_insert_def ht_insert_def Let_def abs_table_sel full sl_is_valid_abs
      sl_insert_collision_abs [symmetric]
    by (auto simp: abs_update_chunk abs_store_pair fun_eq_iff split: option.splits)
qed

lemma sl_set_value_abs: "abs_table (sl_set_value c i val t) = set_value (abs_table t) (c, i) val"
  by (simp add: sl_set_value_def abs_update_chunk set_value_def Let_def) (simp add: abs_chunk_def)

lemma sl_write_value_abs:
  assumes "sl_find_pair cs t (h key) (sl_chunks t (h key AND sl_total_mask t)) key = r"
  shows "map_prod (\<lambda>b. b) abs_table (sl_write_value cs (h key) r key val t) = ht_insert_or_update h cs (abs_table t) key val"
proof -
  have "ht_insert_or_update h cs (abs_table t) key val =
      (case r of Some i \<Rightarrow> (True, set_value (abs_table t) (h key AND sl_total_mask t, i) val)
               | None \<Rightarrow> ht_insert cs (abs_table t) (h key) key val)"
    using assms by (auto simp: ht_insert_or_update_def ht_lookup_def Let_def sl_find_pair_abs split: option.splits)
  then show ?thesis
    by (simp add: sl_write_value_def sl_set_value_abs sl_insert_abs [symmetric] split: option.splits)
qed

lemma sl_flip_valid_abs:
  assumes "sl_find_pair cs t (h key) (sl_chunks t (h key AND sl_total_mask t)) key = r"
  shows "map_prod (\<lambda>b. b) abs_table (sl_flip_valid (h key AND sl_total_mask t) r t) = ht_remove h cs (abs_table t) key"
proof -
  have "find_pair cs (abs_table t) (h key) (abs_chunk (sl_chunks t (h key AND sl_total_mask t))) key = r"
    using assms by (simp add: sl_find_pair_abs)
  then show ?thesis
    by (cases r) (simp_all add: sl_flip_valid_def ht_remove_def Let_def abs_update_chunk, simp add: abs_chunk_def ucast_xor)
qed

lemma sl_it_unset_valid_abs: "abs_table (sl_it_unset_valid cs t index) = it_unset_valid cs (abs_table t) index"
  by (simp add: sl_it_unset_valid_def it_unset_valid_def Let_def abs_update_chunk) (simp add: abs_chunk_def ucast_and)

lemma sl_it_is_valid_abs: "sl_it_is_valid cs t index = it_is_valid cs (abs_table t) index"
proof -
  have "w = 0 \<longleftrightarrow> (ucast w :: u64) = 0" for w :: u32 using ucast_u64_eq_iff [of w 0] by simp
  then show ?thesis unfolding sl_it_is_valid_def it_is_valid_def by (simp add: ucast_and)
qed

text \<open>The bodies leave the locks alone.\<close>

lemma sl_insert_collision_locker: "sl_insert_collision cs t hash chunk key val js = Some chunk' \<Longrightarrow> locker chunk' = locker chunk"
  by (induction js) (auto simp: Let_def sl_store_pair_def split: if_splits)

lemma sl_write_value_locker: "locker (sl_chunks (snd (sl_write_value cs hash r key val t)) c) = locker (sl_chunks t c)"
  by (auto simp: sl_write_value_def sl_insert_def sl_set_value_def sl_store_pair_def Let_def
      sl_insert_collision_locker split: option.splits)

lemma sl_flip_valid_locker: "locker (sl_chunks (snd (sl_flip_valid d r t)) c) = locker (sl_chunks t c)"
  by (auto simp: sl_flip_valid_def split: option.splits)

lemma sl_it_unset_valid_locker: "locker (sl_chunks (sl_it_unset_valid cs t index) c) = locker (sl_chunks t c)"
  by (simp add: sl_it_unset_valid_def)

lemma total_mask_ops [simp]:
  "sl_total_mask (snd (sl_write_value cs hash r key val t)) = sl_total_mask t"
  "sl_total_mask (snd (sl_flip_valid d r t)) = sl_total_mask t"
  "sl_total_mask (sl_it_unset_valid cs t index) = sl_total_mask t"
  "sl_total_mask (sl_unlock d t) = sl_total_mask t"
  by (auto simp: sl_write_value_def sl_insert_def sl_set_value_def sl_flip_valid_def sl_it_unset_valid_def sl_unlock_def
      Let_def split: option.splits)

text \<open>Taking the lock, and releasing it after a body that leaves the locks alone.\<close>

lemma sl_lock_facts:
  assumes "sl_lock c t = Some t1"
  shows "\<not> locker (sl_chunks t c)" "sl_total_mask t1 = sl_total_mask t" "abs_table t1 = abs_table t"
    "(\<And>d. locker (sl_chunks t' d) = locker (sl_chunks t1 d)) \<Longrightarrow>
      (\<lambda>d. locker (sl_chunks (sl_unlock c t') d)) = (\<lambda>d. locker (sl_chunks t d))"
proof -
  show free: "\<not> locker (sl_chunks t c)" using assms by (auto simp: sl_lock_def split: if_splits)
  have t1: "t1 = sl_update_chunk c (locker_update (\<lambda>_. True)) t" using assms by (auto simp: sl_lock_def split: if_splits)
  show "sl_total_mask t1 = sl_total_mask t" by (simp add: t1)
  show "abs_table t1 = abs_table t" by (rule abs_lock [OF assms])
  show "(\<lambda>d. locker (sl_chunks (sl_unlock c t') d)) = (\<lambda>d. locker (sl_chunks t d))"
    if "\<And>d. locker (sl_chunks t' d) = locker (sl_chunks t1 d)"
    using that free by (auto simp: fun_eq_iff t1 sl_unlock_def)
qed

lemma sl_lock_None: "sl_lock c t = None \<longleftrightarrow> locker (sl_chunks t c)"
  by (simp add: sl_lock_def)

lemma sl_insert_or_update_refines:
  "case sl_insert_or_update calculate_hash chunk_size t key val of
      None \<Rightarrow> locker (sl_chunks t (calculate_hash key AND sl_total_mask t))
    | Some (ok, t') \<Rightarrow> \<not> locker (sl_chunks t (calculate_hash key AND sl_total_mask t))
        \<and> (ok, abs_table t') = ht_insert_or_update calculate_hash chunk_size (abs_table t) key val
        \<and> (\<lambda>c. locker (sl_chunks t' c)) = (\<lambda>c. locker (sl_chunks t c))"
proof (cases "sl_lock (calculate_hash key AND sl_total_mask t) t")
  case None
  then show ?thesis using sl_lock_None [THEN iffD1, OF None] by (simp add: sl_insert_or_update_def sl_lookup_def Let_def)
next
  case (Some t1)
  let ?c = "calculate_hash key AND sl_total_mask t"
  let ?w = "sl_write_value chunk_size (calculate_hash key) (sl_find_pair chunk_size t1 (calculate_hash key) (sl_chunks t1 ?c) key) key val t1"
  note lock = sl_lock_facts [OF Some]
  have "map_prod (\<lambda>b. b) abs_table ?w = ht_insert_or_update calculate_hash chunk_size (abs_table t) key val"
    using sl_write_value_abs [of chunk_size t1 calculate_hash key, OF refl, of val] unfolding lock(2, 3) .
  moreover have "sl_insert_or_update calculate_hash chunk_size t key val = Some (fst ?w, sl_unlock ?c (snd ?w))"
    using Some by (simp add: sl_insert_or_update_def sl_lookup_def Let_def split_beta)
  ultimately show ?thesis
    using lock(1) lock(4) [of "snd ?w", OF sl_write_value_locker] by (simp add: map_prod_def split_beta)
qed

lemma sl_remove_refines:
  "case sl_remove calculate_hash chunk_size t key of
      None \<Rightarrow> locker (sl_chunks t (calculate_hash key AND sl_total_mask t))
    | Some t' \<Rightarrow> \<not> locker (sl_chunks t (calculate_hash key AND sl_total_mask t))
        \<and> abs_table t' = snd (ht_remove calculate_hash chunk_size (abs_table t) key)
        \<and> (\<lambda>c. locker (sl_chunks t' c)) = (\<lambda>c. locker (sl_chunks t c))"
proof (cases "sl_lock (calculate_hash key AND sl_total_mask t) t")
  case None
  then show ?thesis using sl_lock_None [THEN iffD1, OF None] by (simp add: sl_remove_def Let_def)
next
  case (Some t1)
  let ?c = "calculate_hash key AND sl_total_mask t"
  let ?f = "sl_flip_valid ?c (sl_find_pair chunk_size t1 (calculate_hash key) (sl_chunks t1 ?c) key) t1"
  note lock = sl_lock_facts [OF Some]
  have "map_prod (\<lambda>b. b) abs_table ?f = ht_remove calculate_hash chunk_size (abs_table t) key"
    using sl_flip_valid_abs [of chunk_size t1 calculate_hash key, OF refl] unfolding lock(2, 3) .
  then have "snd (ht_remove calculate_hash chunk_size (abs_table t) key) = abs_table (snd ?f)"
    by (metis snd_map_prod)
  moreover have "sl_remove calculate_hash chunk_size t key = Some (sl_unlock ?c (snd ?f))"
    using Some by (simp add: sl_remove_def Let_def)
  ultimately show ?thesis using lock(1) lock(4) [of "snd ?f", OF sl_flip_valid_locker] by simp
qed

text \<open>
  C20: run alone, \<^verbatim>\<open>insert_or_update\<close> and \<^verbatim>\<open>remove\<close> of the locked table have exactly the effect of those of
  the table without locks, and both release the lock they took; with the lock of the chunk held by
  another thread they wait.
\<close>

theorem spinlock_table_refines:
  "(case sl_insert_or_update calculate_hash chunk_size t key val of
      None \<Rightarrow> locker (sl_chunks t (calculate_hash key AND sl_total_mask t))
    | Some (ok, t') \<Rightarrow> \<not> locker (sl_chunks t (calculate_hash key AND sl_total_mask t))
        \<and> (ok, abs_table t') = ht_insert_or_update calculate_hash chunk_size (abs_table t) key val
        \<and> (\<lambda>c. locker (sl_chunks t' c)) = (\<lambda>c. locker (sl_chunks t c)))
   \<and> (case sl_remove calculate_hash chunk_size t key of
      None \<Rightarrow> locker (sl_chunks t (calculate_hash key AND sl_total_mask t))
    | Some t' \<Rightarrow> \<not> locker (sl_chunks t (calculate_hash key AND sl_total_mask t))
        \<and> abs_table t' = snd (ht_remove calculate_hash chunk_size (abs_table t) key)
        \<and> (\<lambda>c. locker (sl_chunks t' c)) = (\<lambda>c. locker (sl_chunks t c)))"
  by (rule conjI [OF sl_insert_or_update_refines sl_remove_refines])

end
