(* ===== verification/HashtableConcurrent.thy ===== *)
theory HashtableConcurrent
  imports HashtableSpinlock
begin

text \<open>
  Workers and the garbage collector use \<^verbatim>\<open>hashtable_mod_spinlock_dynamic\<close> at the same time.  A call is cut
  into the steps at which other threads can run: entering, taking the lock of the chunk, searching,
  writing and unlocking.  The step relation interleaves any number of threads.
\<close>

section \<open>Calls and steps\<close>

text \<open>\<^verbatim>\<open>insert_or_update\<close>, \<^verbatim>\<open>remove\<close>, and the collector's \<^verbatim>\<open>lock\<close>, \<^verbatim>\<open>unset_valid\<close>, \<^verbatim>\<open>unlock\<close> on an iterator.\<close>

datatype ('k, 'v) call = Upsert 'k 'v | Remove 'k | Evict u32

datatype ('k, 'v) pc =
    Idle
  | Entering "('k, 'v) call"
  | Holding "('k, 'v) call"
  | Searched "('k, 'v) call" "u32 option"
  | Leaving "('k, 'v) call"

record ('k, 'v) config =
  shared :: "('k, 'v) sl_table"
  threads :: "nat \<Rightarrow> ('k, 'v) pc"
  log :: "(('k, 'v) map_op \<times> bool) list"

fun call_chunk :: "('k \<Rightarrow> u32) \<Rightarrow> u32 \<Rightarrow> ('k, 'v) sl_table \<Rightarrow> ('k, 'v) call \<Rightarrow> u32" where
  "call_chunk h cs t (Upsert key val) = h key AND sl_total_mask t"
| "call_chunk h cs t (Remove key) = h key AND sl_total_mask t"
| "call_chunk h cs t (Evict index) = index div cs"

fun call_search :: "('k \<Rightarrow> u32) \<Rightarrow> u32 \<Rightarrow> ('k, 'v) sl_table \<Rightarrow> ('k, 'v) call \<Rightarrow> u32 option" where
  "call_search h cs t (Upsert key val) = sl_find_pair cs t (h key) (sl_chunks t (h key AND sl_total_mask t)) key"
| "call_search h cs t (Remove key) = sl_find_pair cs t (h key) (sl_chunks t (h key AND sl_total_mask t)) key"
| "call_search h cs t (Evict index) = None"

fun call_write :: "('k \<Rightarrow> u32) \<Rightarrow> u32 \<Rightarrow> ('k, 'v) sl_table \<Rightarrow> ('k, 'v) call \<Rightarrow> u32 option \<Rightarrow> bool \<times> ('k, 'v) sl_table" where
  "call_write h cs t (Upsert key val) r = sl_write_value cs (h key) r key val t"
| "call_write h cs t (Remove key) r = sl_flip_valid (h key AND sl_total_mask t) r t"
| "call_write h cs t (Evict index) r = (sl_it_is_valid cs t index, sl_it_unset_valid cs t index)"

text \<open>What the call means for the map.\<close>

fun call_op :: "u32 \<Rightarrow> ('k, 'v) sl_table \<Rightarrow> ('k, 'v) call \<Rightarrow> ('k, 'v) map_op" where
  "call_op cs t (Upsert key val) = Put key val"
| "call_op cs t (Remove key) = Del key"
| "call_op cs t (Evict index) = Del (fst (sl_it_pair cs t index))"

text \<open>The collector only iterates over the pairs of the table.\<close>

fun call_ok :: "u32 \<Rightarrow> ('k, 'v) sl_table \<Rightarrow> ('k, 'v) call \<Rightarrow> bool" where
  "call_ok cs t (Evict index) = (index div cs \<le> sl_total_mask t)"
| "call_ok cs t _ = True"

inductive thread_step :: "('k \<Rightarrow> u32) \<Rightarrow> u32 \<Rightarrow> nat \<Rightarrow> ('k, 'v) config \<Rightarrow> ('k, 'v) config \<Rightarrow> bool" for h cs i where
  enter: "threads s i = Idle \<Longrightarrow> call_ok cs (shared s) call \<Longrightarrow>
    thread_step h cs i s (s\<lparr>threads := (threads s)(i := Entering call)\<rparr>)"
| acquire: "threads s i = Entering call \<Longrightarrow> sl_lock (call_chunk h cs (shared s) call) (shared s) = Some t \<Longrightarrow>
    thread_step h cs i s (s\<lparr>shared := t, threads := (threads s)(i := Holding call)\<rparr>)"
| search: "threads s i = Holding call \<Longrightarrow>
    thread_step h cs i s (s\<lparr>threads := (threads s)(i := Searched call (call_search h cs (shared s) call))\<rparr>)"
| modify: "threads s i = Searched call r \<Longrightarrow> call_write h cs (shared s) call r = (ok, t) \<Longrightarrow>
    thread_step h cs i s (s\<lparr>shared := t, threads := (threads s)(i := Leaving call),
                     log := log s @ [(call_op cs (shared s) call, ok)]\<rparr>)"
| leave: "threads s i = Leaving call \<Longrightarrow>
    thread_step h cs i s (s\<lparr>shared := sl_unlock (call_chunk h cs (shared s) call) (shared s), threads := (threads s)(i := Idle)\<rparr>)"

inductive_cases thread_stepE: "thread_step h cs i s s'"

inductive reachable :: "('k \<Rightarrow> u32) \<Rightarrow> u32 \<Rightarrow> ('k, 'v) config \<Rightarrow> ('k, 'v) config \<Rightarrow> bool" for h cs s0 where
  start: "reachable h cs s0 s0"
| more: "reachable h cs s0 s \<Longrightarrow> thread_step h cs i s s' \<Longrightarrow> reachable h cs s0 s'"

section \<open>Serialisability\<close>

text \<open>The call whose chunk a thread has locked.\<close>

fun owned :: "('k, 'v) pc \<Rightarrow> ('k, 'v) call option" where
  "owned (Holding call) = Some call"
| "owned (Searched call r) = Some call"
| "owned (Leaving call) = Some call"
| "owned _ = None"

definition owns :: "('k \<Rightarrow> u32) \<Rightarrow> u32 \<Rightarrow> ('k, 'v) config \<Rightarrow> nat \<Rightarrow> u32 \<Rightarrow> bool" where
  "owns h cs s i c = (\<exists>call. owned (threads s i) = Some call \<and> call_chunk h cs (shared s) call = c)"

fun pc_ok :: "('k \<Rightarrow> u32) \<Rightarrow> u32 \<Rightarrow> ('k, 'v) sl_table \<Rightarrow> ('k, 'v) pc \<Rightarrow> bool" where
  "pc_ok h cs t Idle = True"
| "pc_ok h cs t (Entering call) = call_ok cs t call"
| "pc_ok h cs t (Holding call) = call_ok cs t call"
| "pc_ok h cs t (Searched call r) = (call_ok cs t call \<and> r = call_search h cs t call)"
| "pc_ok h cs t (Leaving call) = call_ok cs t call"

definition conc_inv :: "('k \<Rightarrow> u32) \<Rightarrow> u32 \<Rightarrow> ('k \<rightharpoonup> 'v) \<Rightarrow> ('k, 'v) config \<Rightarrow> bool" where
  "conc_inv h cs m s =
     (ht_inv h cs (abs_table (shared s)) \<and>
      (\<forall>i. pc_ok h cs (shared s) (threads s i)) \<and>
      (\<forall>c. locker (sl_chunks (shared s) c) \<longleftrightarrow> (\<exists>i. owns h cs s i c)) \<and>
      (\<forall>i j c. owns h cs s i c \<longrightarrow> owns h cs s j c \<longrightarrow> i = j) \<and>
      ht_get h cs (abs_table (shared s)) = map_effect m (log s))"

text \<open>A call touches no chunk but its own.\<close>

lemma call_write_frame:
  assumes "call_write h cs t call r = (ok, t')"
  shows "sl_total_mask t' = sl_total_mask t" "sl_total_shift t' = sl_total_shift t"
    "d \<noteq> call_chunk h cs t call \<Longrightarrow> sl_chunks t' d = sl_chunks t d"
    "locker (sl_chunks t' d) = locker (sl_chunks t d)"
proof -
  have "sl_total_mask t' = sl_total_mask t \<and> sl_total_shift t' = sl_total_shift t \<and>
    (d \<noteq> call_chunk h cs t call \<longrightarrow> sl_chunks t' d = sl_chunks t d) \<and> locker (sl_chunks t' d) = locker (sl_chunks t d)"
  proof (cases call)
    case (Upsert key val)
    with assms have "t' = snd (sl_write_value cs (h key) r key val t)" by simp
    with Upsert show ?thesis by (auto simp: sl_write_value_locker)
        (auto simp: sl_write_value_def sl_insert_def sl_set_value_def Let_def split: option.splits)
  next
    case (Remove key)
    with assms have "t' = snd (sl_flip_valid (h key AND sl_total_mask t) r t)" by simp
    with Remove show ?thesis by (auto simp: sl_flip_valid_def split: option.splits)
  next
    case (Evict index)
    with assms show ?thesis by (auto simp: sl_it_unset_valid_def split: if_splits)
  qed
  then show "sl_total_mask t' = sl_total_mask t" "sl_total_shift t' = sl_total_shift t"
    "d \<noteq> call_chunk h cs t call \<Longrightarrow> sl_chunks t' d = sl_chunks t d"
    "locker (sl_chunks t' d) = locker (sl_chunks t d)" by simp_all
qed

lemma call_search_cong:
  assumes "sl_total_mask t' = sl_total_mask t" "sl_total_shift t' = sl_total_shift t"
    and "abs_chunk (sl_chunks t' (call_chunk h cs t call)) = abs_chunk (sl_chunks t (call_chunk h cs t call))"
  shows "call_search h cs t' call = call_search h cs t call"
proof -
  have "find_pair cs (abs_table t') hash chunk key = find_pair cs (abs_table t) hash chunk key" for hash chunk key
  proof -
    have p: "probe cs (abs_table t') hash = probe cs (abs_table t) hash"
      using assms(2) by (simp add: probe_def fun_eq_iff)
    have "check_collision cs (abs_table t') hash chunk key vm js = check_collision cs (abs_table t) hash chunk key vm js"
      for vm js by (induction js arbitrary: vm) (simp_all add: p Let_def)
    then show ?thesis using assms(2) by (simp add: find_pair_def Let_def)
  qed
  then show ?thesis using assms by (cases call) (simp_all add: sl_find_pair_abs)
qed

lemma call_cong:
  assumes "sl_total_mask t' = sl_total_mask t"
  shows "call_chunk h cs t' call = call_chunk h cs t call" "call_ok cs t' call = call_ok cs t call"
  using assms by (cases call; simp)+

lemma pc_ok_cong:
  assumes "sl_total_mask t' = sl_total_mask t" "sl_total_shift t' = sl_total_shift t"
    and "\<And>call. owned p = Some call \<Longrightarrow>
      abs_chunk (sl_chunks t' (call_chunk h cs t call)) = abs_chunk (sl_chunks t (call_chunk h cs t call))"
  shows "pc_ok h cs t p \<Longrightarrow> pc_ok h cs t' p"
  using assms(3) call_search_cong [OF assms(1, 2)] by (cases p) (simp_all add: call_cong [OF assms(1)])

text \<open>A change of the shared table and of one thread.\<close>

definition conc_update :: "nat \<Rightarrow> ('k, 'v) sl_table \<Rightarrow> ('k, 'v) pc \<Rightarrow> (('k, 'v) map_op \<times> bool) list \<Rightarrow> ('k, 'v) config \<Rightarrow> ('k, 'v) config" where
  "conc_update i t p l s = s\<lparr>shared := t, threads := (threads s)(i := p), log := l\<rparr>"

lemma owns_update:
  assumes "sl_total_mask t = sl_total_mask (shared s)"
  shows "owns h cs (conc_update i t p l s) j c \<longleftrightarrow>
    (if j = i then \<exists>call. owned p = Some call \<and> call_chunk h cs (shared s) call = c else owns h cs s j c)"
  by (simp add: owns_def conc_update_def call_cong [OF assms])

lemma conc_inv_update:
  assumes inv: "conc_inv h cs m s"
    and same: "sl_total_mask t = sl_total_mask (shared s)" "sl_total_shift t = sl_total_shift (shared s)"
    and ht: "ht_inv h cs (abs_table t)" "ht_get h cs (abs_table t) = map_effect m l"
    and pc: "pc_ok h cs t p"
    and frame: "\<And>j d. j \<noteq> i \<Longrightarrow> owns h cs s j d \<Longrightarrow> abs_chunk (sl_chunks t d) = abs_chunk (sl_chunks (shared s) d)"
    and locks: "\<And>c. locker (sl_chunks t c) \<longleftrightarrow> (\<exists>j. owns h cs (conc_update i t p l s) j c)"
    and excl: "\<And>j call. owned p = Some call \<Longrightarrow> j \<noteq> i \<Longrightarrow> \<not> owns h cs s j (call_chunk h cs (shared s) call)"
  shows "conc_inv h cs m (conc_update i t p l s)"
proof -
  have "pc_ok h cs t (threads (conc_update i t p l s) j)" for j
  proof (cases "j = i")
    case False
    have "pc_ok h cs t (threads s j)"
    proof (rule pc_ok_cong [OF same])
      show "pc_ok h cs (shared s) (threads s j)" using inv by (simp add: conc_inv_def)
    qed (rule frame [OF False], simp add: owns_def)
    with False show ?thesis by (simp add: conc_update_def)
  qed (simp add: conc_update_def pc)
  moreover have "j = k" if "owns h cs (conc_update i t p l s) j c" "owns h cs (conc_update i t p l s) k c" for j k c
    using that excl inv unfolding owns_update [OF same(1)] conc_inv_def by (metis (full_types))
  ultimately show ?thesis using ht locks by (simp add: conc_inv_def) (simp add: conc_update_def)
qed

lemma map_effect_append: "map_effect m (l @ l') = map_effect (map_effect m l) l'"
  by (induction m l rule: map_effect.induct) simp_all

text \<open>The collector's \<^verbatim>\<open>unset_valid\<close> on a pair of the table removes exactly the key stored there.\<close>

lemma ucast_pair_mask: "i < 32 \<Longrightarrow> (ucast (2 ^ i :: u32) :: u64) = 2 ^ i"
  by (rule bit_word_eqI) (simp add: bit_pair_mask bit_exp_iff)

lemma it_is_valid_iff:
  assumes "chunk_size_ok cs"
  shows "it_is_valid cs t index = is_valid (chunks t (index div cs)) (index mod cs)"
proof -
  have "unat (index mod cs) < unat cs" using chunk_size_pos(1) [OF assms] by (simp add: unat_mod)
  then have "unat (index mod cs) < 32" using chunk_size_pos(2) [OF assms] by simp
  then show ?thesis by (simp add: it_is_valid_def is_valid_iff ucast_pair_mask and_exp_eq_0_iff_not_bit)
qed

lemma mod_less_cs: "chunk_size_ok cs \<Longrightarrow> index mod cs < cs"
  using chunk_size_pos(1) [of cs] by (simp add: word_less_nat_alt unat_mod)

lemma it_unset_valid_correct:
  assumes inv: "ht_inv h cs t" and "index div cs \<le> total_mask t"
  shows "ht_inv h cs (it_unset_valid cs t index)"
    and "ht_get h cs (it_unset_valid cs t index) =
      (if it_is_valid cs t index then (ht_get h cs t)(fst (pairs (chunks t (index div cs)) (index mod cs)) := None)
       else ht_get h cs t)"
proof -
  have cs: "chunk_size_ok cs" using inv by (simp add: ht_inv_def)
  let ?i = "index mod cs"
  have i: "?i < cs" by (rule mod_less_cs [OF cs])
  then have i32: "unat ?i < 32" using chunk_size_pos(2) [OF cs] by (simp add: word_less_nat_alt)
  let ?m = "valid_mask (chunks t (index div cs)) AND ucast (0xFFFFFFFF XOR push_bit (unat ?i) 1 :: u32)"
  have ok: "mask_ok cs (chunks t (index div cs))" using inv assms(2) by (simp add: ht_inv_def chunk_ok_def)
  have "bit ?m n \<longleftrightarrow> bit (valid_mask (chunks t (index div cs))) n \<and> n \<noteq> unat ?i" for n
    using mask_ok_bit [OF ok, of n] chunk_size_pos(2) [OF cs] i32
    by (auto simp: bit_and_iff bit_ucast_iff bit_xor_iff ones32 bit_exp_iff bit_not_iff)
  note unset = ht_get_unset [OF inv assms(2) i this]
  have eq: "it_unset_valid cs t index = t\<lparr>chunks := (chunks t)(index div cs := (chunks t (index div cs))\<lparr>valid_mask := ?m\<rparr>)\<rparr>"
    by (simp add: it_unset_valid_def Let_def)
  from unset eq it_is_valid_iff [OF cs, of t index] show "ht_inv h cs (it_unset_valid cs t index)"
    and "ht_get h cs (it_unset_valid cs t index) =
      (if it_is_valid cs t index then (ht_get h cs t)(fst (pairs (chunks t (index div cs)) ?i) := None) else ht_get h cs t)"
    by simp_all
qed

lemma call_write_correct:
  assumes inv: "ht_inv h cs (abs_table t)" and "call_ok cs t call"
    and "call_write h cs t call (call_search h cs t call) = (ok, t')"
  shows "ht_inv h cs (abs_table t') \<and>
    map_effect (ht_get h cs (abs_table t)) [(call_op cs t call, ok)] = ht_get h cs (abs_table t')"
proof (cases call)
  case (Upsert key val)
  with assms(3) have "ht_insert_or_update h cs (abs_table t) key val = (ok, abs_table t')"
    using sl_write_value_abs [of cs t h key, OF refl, of val] by simp
  from neighbor_map.put_law [OF inv this] Upsert show ?thesis by auto
next
  case (Remove key)
  with assms(3) have r: "ht_remove h cs (abs_table t) key = (ok, abs_table t')"
    using sl_flip_valid_abs [of cs t h key, OF refl] by simp
  from neighbor_map.del_law [OF inv r] neighbor_map.del_effect [OF inv r] Remove show ?thesis by auto
next
  case (Evict index)
  with assms it_unset_valid_correct [OF inv, of index] show ?thesis
    by (auto simp: sl_it_unset_valid_abs sl_it_is_valid_abs sl_it_pair_def)
qed

lemma conc_inv_step:
  assumes inv: "conc_inv h cs m s" and "thread_step h cs i s s'"
  shows "conc_inv h cs m s'"
  using assms(2)
proof cases
  case (enter call)
  have "owns h cs (conc_update i (shared s) (Entering call) (log s) s) = owns h cs s"
    unfolding fun_eq_iff owns_update [OF refl] using enter(2) by (simp add: owns_def)
  then have "conc_inv h cs m (conc_update i (shared s) (Entering call) (log s) s)"
    using inv enter by (intro conc_inv_update) (auto simp: conc_inv_def)
  then show ?thesis using enter by (simp add: conc_update_def)
next
  case (acquire call t)
  have free: "\<not> locker (sl_chunks (shared s) (call_chunk h cs (shared s) call))"
    and t: "t = sl_update_chunk (call_chunk h cs (shared s) call) (locker_update (\<lambda>_. True)) (shared s)"
    using acquire(3) by (auto simp: sl_lock_def split: if_splits)
  have nobody: "\<not> owns h cs s j (call_chunk h cs (shared s) call)" for j
    using inv free by (auto simp: conc_inv_def)
  have "\<not> owns h cs s i c" for c using acquire(2) by (simp add: owns_def)
  then have locks: "locker (sl_chunks t c) \<longleftrightarrow> (\<exists>j. owns h cs (conc_update i t (Holding call) (log s) s) j c)" for c
    using inv by (auto simp: conc_inv_def owns_update t split: if_splits) metis
  have "pc_ok h cs (shared s) (Entering call)" using inv acquire(2) by (metis conc_inv_def)
  moreover have tm: "sl_total_mask t = sl_total_mask (shared s)" by (simp add: t)
  ultimately have "pc_ok h cs t (Holding call)" by (simp add: call_cong(2) [OF tm])
  then have "conc_inv h cs m (conc_update i t (Holding call) (log s) s)"
    using inv nobody locks abs_lock [OF acquire(3)]
    by (intro conc_inv_update [OF inv]) (auto simp: t conc_inv_def)
  then show ?thesis using acquire by (simp add: conc_update_def)
next
  case (search call)
  let ?p = "Searched call (call_search h cs (shared s) call)"
  have "pc_ok h cs (shared s) (Holding call)" using inv search(2) by (metis conc_inv_def)
  moreover have "owns h cs (conc_update i (shared s) ?p (log s) s) = owns h cs s"
    unfolding fun_eq_iff owns_update [OF refl] using search(2) by (simp add: owns_def)
  moreover have "\<not> owns h cs s j (call_chunk h cs (shared s) call)" if "j \<noteq> i" for j
    using inv search(2) that by (auto simp: conc_inv_def owns_def)
  ultimately have "conc_inv h cs m (conc_update i (shared s) ?p (log s) s)"
    using inv by (intro conc_inv_update) (auto simp: conc_inv_def)
  then show ?thesis using search by (simp add: conc_update_def)
next
  case (modify call r ok t)
  let ?l = "log s @ [(call_op cs (shared s) call, ok)]"
  note frame = call_write_frame [OF modify(3)]
  have pc: "call_ok cs (shared s) call" "r = call_search h cs (shared s) call"
    using inv modify(2) by (metis conc_inv_def pc_ok.simps(4))+
  have ht: "ht_inv h cs (abs_table (shared s))" and get: "map_effect m (log s) = ht_get h cs (abs_table (shared s))"
    using inv by (simp_all add: conc_inv_def)
  have effect: "ht_inv h cs (abs_table t)" "ht_get h cs (abs_table t) = map_effect m ?l"
    using call_write_correct [OF ht pc(1), of ok t] modify(3) unfolding map_effect_append get pc(2) by simp_all
  have others: "\<not> owns h cs s j (call_chunk h cs (shared s) call)" if "j \<noteq> i" for j
    using inv modify(2) that by (auto simp: conc_inv_def owns_def)
  have owns: "owns h cs (conc_update i t (Leaving call) ?l s) = owns h cs s"
    unfolding fun_eq_iff owns_update [OF frame(1)] using modify(2) by (simp add: owns_def)
  have "conc_inv h cs m (conc_update i t (Leaving call) ?l s)"
  proof (rule conc_inv_update [OF inv frame(1, 2) effect])
    show "pc_ok h cs t (Leaving call)" using pc(1) by (simp add: call_cong [OF frame(1)])
    show "abs_chunk (sl_chunks t d) = abs_chunk (sl_chunks (shared s) d)" if "j \<noteq> i" "owns h cs s j d" for j d
      using frame(3) [of d] others [OF that(1)] that(2) by metis
    show "locker (sl_chunks t c) \<longleftrightarrow> (\<exists>j. owns h cs (conc_update i t (Leaving call) ?l s) j c)" for c
      using inv by (simp add: conc_inv_def owns frame(4))
  qed (use others in auto)
  then show ?thesis using modify by (simp add: conc_update_def)
next
  case (leave call)
  let ?c = "call_chunk h cs (shared s) call"
  have owner: "owns h cs s i d \<longleftrightarrow> d = ?c" for d using leave(2) by (auto simp: owns_def)
  have "locker (sl_chunks (sl_unlock ?c (shared s)) d) \<longleftrightarrow> (\<exists>j. owns h cs (conc_update i (sl_unlock ?c (shared s)) Idle (log s) s) j d)" for d
    using inv owner unfolding conc_inv_def by (auto simp: owns_update sl_unlock_def) metis+
  moreover have "sl_total_shift (sl_unlock ?c (shared s)) = sl_total_shift (shared s)"
    and "abs_chunk (sl_chunks (sl_unlock ?c (shared s)) d) = abs_chunk (sl_chunks (shared s) d)" for d
    by (simp_all add: sl_unlock_def)
  ultimately have "conc_inv h cs m (conc_update i (sl_unlock ?c (shared s)) Idle (log s) s)"
    using inv by (intro conc_inv_update [OF inv]) (auto simp: conc_inv_def)
  then show ?thesis using leave by (simp add: conc_update_def)
qed

lemma conc_inv_reachable: "reachable h cs s0 s \<Longrightarrow> conc_inv h cs m s0 \<Longrightarrow> conc_inv h cs m s"
  by (induction rule: reachable.induct) (auto intro: conc_inv_step)

definition quiet :: "('k \<Rightarrow> u32) \<Rightarrow> u32 \<Rightarrow> ('k, 'v) config \<Rightarrow> bool" where
  "quiet h cs s = (ht_inv h cs (abs_table (shared s)) \<and> (\<forall>i. threads s i = Idle) \<and>
     (\<forall>c. \<not> locker (sl_chunks (shared s) c)) \<and> log s = [])"

lemma quiet_inv: "quiet h cs s \<Longrightarrow> conc_inv h cs (ht_get h cs (abs_table (shared s))) s"
  by (simp add: quiet_def conc_inv_def owns_def)

text \<open>
  C5: however the threads interleave, the shared table is at every moment the map that results from
  running the logged calls one after the other, its invariant holds, and no two threads are inside
  the same chunk.
\<close>

theorem concurrent_calls_serialise:
  assumes "quiet calculate_hash chunk_size s0" and "reachable calculate_hash chunk_size s0 s"
  shows "ht_get calculate_hash chunk_size (abs_table (shared s))
      = map_effect (ht_get calculate_hash chunk_size (abs_table (shared s0))) (log s)
    \<and> ht_inv calculate_hash chunk_size (abs_table (shared s))
    \<and> (\<forall>i j c. owns calculate_hash chunk_size s i c \<and> owns calculate_hash chunk_size s j c \<longrightarrow> i = j)"
  using conc_inv_reachable [OF assms(2) quiet_inv [OF assms(1)]] unfolding conc_inv_def by blast

definition example_shared :: "(u32, u32) sl_table" where
  "example_shared = sl_clear (sl_update_pointer 2 4 \<lparr>sl_total_mask = 0, sl_total_shift = 0,
     sl_chunks = (\<lambda>_. \<lparr>locker = False, sl_valid_mask = 3, sl_pairs = (\<lambda>_. (0, 0))\<rparr>)\<rparr>)"

definition example_start :: "(u32, u32) config" where
  "example_start = \<lparr>shared = example_shared, threads = (\<lambda>_. Idle), log = []\<rparr>"

lemma abs_clear: "abs_table (sl_clear t) = ht_clear (abs_table t)"
  by (auto simp: abs_table_def sl_clear_def ht_clear_def abs_chunk_def fun_eq_iff)

lemma example_quiet: "quiet example_hash 2 example_start"
proof -
  have "ht_inv example_hash 2 (abs_table example_shared)"
    unfolding example_shared_def abs_clear by (rule ht_clear_get) (simp add: chunk_size_ok_def)
  moreover have "\<not> locker (sl_chunks example_shared c)" for c
    by (simp add: example_shared_def sl_clear_def sl_update_pointer_def)
  ultimately show ?thesis by (simp add: quiet_def example_start_def)
qed

lemma example_empty: "ht_get example_hash 2 (abs_table (shared example_start)) = (\<lambda>_. None)"
  by (rule ext) (simp add: example_start_def example_shared_def abs_clear ht_clear_get(2) chunk_size_ok_def)

text \<open>Thread 1 enters a removal while thread 0 inserts a key of the same chunk.\<close>

lemma example_reachable: "\<exists>s. reachable example_hash 2 example_start s \<and> log s = [(Put 5 50, True)] \<and> threads s 1 = Entering (Remove 5)"
proof -
  let ?s1 = "example_start\<lparr>threads := (\<lambda>_. Idle)(0 := Entering (Upsert 5 50))\<rparr>"
  let ?s2 = "?s1\<lparr>threads := (threads ?s1)(1 := Entering (Remove 5))\<rparr>"
  have "thread_step example_hash 2 0 example_start ?s1"
    using thread_step.enter [of example_start 0 2 "Upsert 5 50" example_hash] by (simp add: example_start_def)
  then have r1: "reachable example_hash 2 example_start ?s1" by (rule reachable.more [OF reachable.start])
  have "thread_step example_hash 2 1 ?s1 ?s2" by (rule thread_step.enter) simp_all
  with r1 have r2: "reachable example_hash 2 example_start ?s2" by (rule reachable.more)
  let ?c = "call_chunk example_hash 2 (shared ?s2) (Upsert 5 50)"
  have "\<not> locker (sl_chunks (shared ?s2) ?c)" using example_quiet by (simp add: quiet_def)
  then obtain t where t: "sl_lock ?c (shared ?s2) = Some t" by (simp add: sl_lock_def)
  let ?s3 = "?s2\<lparr>shared := t, threads := (threads ?s2)(0 := Holding (Upsert 5 50))\<rparr>"
  have "thread_step example_hash 2 0 ?s2 ?s3" by (rule thread_step.acquire [OF _ t]) simp
  with r2 have r3: "reachable example_hash 2 example_start ?s3" by (rule reachable.more)
  let ?r = "call_search example_hash 2 (shared ?s3) (Upsert 5 50)"
  let ?s4 = "?s3\<lparr>threads := (threads ?s3)(0 := Searched (Upsert 5 50) ?r)\<rparr>"
  have "thread_step example_hash 2 0 ?s3 ?s4" by (rule thread_step.search) simp
  with r3 have r4: "reachable example_hash 2 example_start ?s4" by (rule reachable.more)
  obtain ok t' where w: "call_write example_hash 2 (shared ?s4) (Upsert 5 50) ?r = (ok, t')" by fastforce
  have "map_prod (\<lambda>b. b) abs_table (call_write example_hash 2 t (Upsert 5 50) ?r)
      = ht_insert_or_update example_hash 2 (abs_table example_shared) 5 50"
    using sl_write_value_abs [of 2 t example_hash 5, OF refl, of 50] abs_lock [OF t] by (simp add: example_start_def)
  moreover have "fst (ht_insert_or_update example_hash 2 (abs_table example_shared) 5 50)" by code_simp
  ultimately have "fst (map_prod (\<lambda>b. b) abs_table (call_write example_hash 2 t (Upsert 5 50) ?r))" by simp
  then have ok: "ok = True" using w by simp
  let ?s5 = "?s4\<lparr>shared := t', threads := (threads ?s4)(0 := Leaving (Upsert 5 50)),
      log := log ?s4 @ [(call_op 2 (shared ?s4) (Upsert 5 50), ok)]\<rparr>"
  have "thread_step example_hash 2 0 ?s4 ?s5" by (rule thread_step.modify [OF _ w]) simp
  with r4 have "reachable example_hash 2 example_start ?s5" by (rule reachable.more)
  moreover have "log ?s5 = [(Put 5 50, True)]" by (simp add: ok example_start_def)
  moreover have "threads ?s5 1 = Entering (Remove 5)" by simp
  ultimately show ?thesis by blast
qed

theorem concurrent_calls_serialise_witness:
  "\<exists>s. reachable example_hash 2 example_start s \<and> log s = [(Put 5 50, True)] \<and> ht_get example_hash 2 (abs_table (shared s)) = [5 \<mapsto> 50]"
proof -
  obtain s where r: "reachable example_hash 2 example_start s" "log s = [(Put 5 50, True)]"
    using example_reachable by blast
  with concurrent_calls_serialise [OF example_quiet r(1)] show ?thesis
    by (intro exI [of _ s]) (simp add: example_empty)
qed

text \<open>How much of its call a thread has left.\<close>

fun remaining :: "('k, 'v) pc \<Rightarrow> nat" where
  "remaining Idle = 0"
| "remaining (Entering call) = 4"
| "remaining (Holding call) = 3"
| "remaining (Searched call r) = 2"
| "remaining (Leaving call) = 1"

lemma owner_steps:
  assumes "owned (threads s i) = Some call"
  shows "\<exists>s'. thread_step h cs i s s' \<and> remaining (threads s' i) < remaining (threads s i) \<and> (\<forall>j. j \<noteq> i \<longrightarrow> threads s' j = threads s j)"
proof (cases "threads s i")
  case (Holding call)
  then show ?thesis using thread_step.search [OF Holding, of h cs] by (intro exI conjI) (assumption | simp)+
next
  case (Searched call r)
  obtain ok t where "call_write h cs (shared s) call r = (ok, t)" by fastforce
  from thread_step.modify [OF Searched this] Searched show ?thesis by (intro exI conjI) (assumption | simp)+
next
  case (Leaving call)
  then show ?thesis using thread_step.leave [OF Leaving, of h cs] by (intro exI conjI) (assumption | simp)+
qed (use assms in simp_all)

text \<open>
  C21: the table never deadlocks: whenever some thread has not finished its call, some thread can
  take a step that brings it closer to the end of its own call.
\<close>

theorem concurrent_calls_progress:
  assumes "quiet calculate_hash chunk_size s0" and "reachable calculate_hash chunk_size s0 s"
    and "threads s i \<noteq> Idle"
  shows "\<exists>j s'. thread_step calculate_hash chunk_size j s s' \<and> remaining (threads s' j) < remaining (threads s j)
    \<and> (\<forall>k. k \<noteq> j \<longrightarrow> threads s' k = threads s k)"
proof (cases "owned (threads s i)")
  case (Some call)
  from owner_steps [OF this, of calculate_hash chunk_size] show ?thesis by blast
next
  case None
  then obtain call where entering: "threads s i = Entering call" using assms(3) by (cases "threads s i") auto
  let ?c = "call_chunk calculate_hash chunk_size (shared s) call"
  show ?thesis
  proof (cases "locker (sl_chunks (shared s) ?c)")
    case True
    then obtain j where "owns calculate_hash chunk_size s j ?c"
      using conc_inv_reachable [OF assms(2) quiet_inv [OF assms(1)]] by (auto simp: conc_inv_def)
    then obtain call' where "owned (threads s j) = Some call'" by (auto simp: owns_def)
    from owner_steps [OF this, of calculate_hash chunk_size] show ?thesis by blast
  next
    case False
    then obtain t where "sl_lock ?c (shared s) = Some t" by (simp add: sl_lock_def)
    from thread_step.acquire [OF entering this] entering show ?thesis by (intro exI conjI) (assumption | simp)+
  qed
qed

theorem concurrent_calls_progress_witness:
  "\<exists>s j s'. reachable example_hash 2 example_start s \<and> threads s 1 = Entering (Remove 5)
    \<and> thread_step example_hash 2 j s s' \<and> remaining (threads s' j) < remaining (threads s j)"
proof -
  obtain s where r: "reachable example_hash 2 example_start s" "threads s 1 = Entering (Remove 5)"
    using example_reachable by blast
  then have "threads s 1 \<noteq> Idle" by simp
  from concurrent_calls_progress [OF example_quiet r(1) this] r show ?thesis by blast
qed

end
