(* ===== verification/Generation.thy ===== *)
theory Generation
  imports Prelude
begin

text \<open>
  The double buffer \<^verbatim>\<open>generation_manager\<close> of \<^verbatim>\<open>src/common/generation.h\<close>: readers see the current
  generation, writers change the next one, and a switch exchanges them.  The queue of requests
  replays on the old generation what was already applied to the new one.  A request is a function
  that returns a result and the changed generation; mutexes and the wait for readers have no effect
  on the data and are left out.
\<close>

section \<open>State and operations\<close>

record ('a, 'r) generation_manager =
  gen_id :: u32
  generations :: "u32 \<Rightarrow> 'a"
  requests :: "('a \<Rightarrow> 'r \<times> 'a) list"

definition gen_current :: "('a, 'r) generation_manager \<Rightarrow> 'a" where
  "gen_current g = generations g (gen_id g)"

definition gen_next :: "('a, 'r) generation_manager \<Rightarrow> 'a" where
  "gen_next g = generations g (gen_id g XOR 1)"

text \<open>A write through the reference that \<^verbatim>\<open>next()\<close> returns.\<close>

definition set_next :: "'a \<Rightarrow> ('a, 'r) generation_manager \<Rightarrow> ('a, 'r) generation_manager" where
  "set_next x g = g\<lparr>generations := (generations g)(gen_id g XOR 1 := x)\<rparr>"

definition switch_generation_without_gc :: "('a, 'r) generation_manager \<Rightarrow> ('a, 'r) generation_manager" where
  "switch_generation_without_gc g = g\<lparr>gen_id := gen_id g XOR 1\<rparr>"

text \<open>\<^verbatim>\<open>init\<close> is the value-initialised object that replaces the old generation.\<close>

definition switch_generation :: "'a \<Rightarrow> ('a, 'r) generation_manager \<Rightarrow> ('a, 'r) generation_manager" where
  "switch_generation init g = set_next init (switch_generation_without_gc g)"

definition gen_fill :: "('a \<Rightarrow> 'a) \<Rightarrow> ('a, 'r) generation_manager \<Rightarrow> ('a, 'r) generation_manager" where
  "gen_fill f g =
     (let g = set_next (f (gen_next g)) g;
          g = switch_generation_without_gc g
      in set_next (f (gen_next g)) g)"

definition gen_update :: "('a \<Rightarrow> 'r \<times> 'a) \<Rightarrow> ('a, 'r) generation_manager \<Rightarrow> 'r \<times> ('a, 'r) generation_manager" where
  "gen_update f g =
     (let (result, x) = f (gen_next g);
          g = set_next x g
      in (result, g\<lparr>requests := requests g @ [f]\<rparr>))"

definition apply_request :: "('a \<Rightarrow> 'r \<times> 'a) \<Rightarrow> ('a, 'r) generation_manager \<Rightarrow> ('a, 'r) generation_manager" where
  "apply_request f g = set_next (snd (f (gen_next g))) g"

definition switch_generation_with_update :: "('a, 'r) generation_manager \<Rightarrow> ('a, 'r) generation_manager" where
  "switch_generation_with_update g =
     (if length (requests g) \<noteq> 0
      then let g = switch_generation_without_gc g;
               g = fold apply_request (requests g) g
           in g\<lparr>requests := []\<rparr>
      else g)"

section \<open>The two generations stay in step\<close>

lemma xor_one_one [simp]: "(i XOR 1) XOR 1 = (i :: u32)"
  by (simp add: xor.assoc)

lemma xor_one_neq [simp]: "i XOR 1 \<noteq> (i :: u32)" "i \<noteq> i XOR (1 :: u32)"
proof -
  have "bit (i XOR 1) 0 \<noteq> bit i 0" by (simp add: bit_xor_iff bit_1_iff)
  then show "i XOR 1 \<noteq> i" "i \<noteq> i XOR 1" by force+
qed

lemma current_set_next [simp]: "gen_current (set_next x g) = gen_current g"
  and next_set_next [simp]: "gen_next (set_next x g) = x"
  and requests_set_next [simp]: "requests (set_next x g) = requests g"
  by (simp_all add: gen_current_def gen_next_def set_next_def)

lemma current_switch [simp]: "gen_current (switch_generation_without_gc g) = gen_next g"
  and next_switch [simp]: "gen_next (switch_generation_without_gc g) = gen_current g"
  and requests_switch [simp]: "requests (switch_generation_without_gc g) = requests g"
  by (simp_all add: gen_current_def gen_next_def switch_generation_without_gc_def)

lemma gen_requests_upd [simp]:
  "gen_current (g\<lparr>requests := rs\<rparr>) = gen_current g" "gen_next (g\<lparr>requests := rs\<rparr>) = gen_next g"
  by (simp_all add: gen_current_def gen_next_def)

lemma current_switch_generation [simp]:
  "gen_current (switch_generation init g) = gen_next g" "gen_next (switch_generation init g) = init"
  by (simp_all add: switch_generation_def)

definition replay :: "('a \<Rightarrow> 'r \<times> 'a) list \<Rightarrow> 'a \<Rightarrow> 'a" where
  "replay rs = fold (\<lambda>f. snd \<circ> f) rs"

lemma replay_append [simp]: "replay (rs @ [f]) x = snd (f (replay rs x))" "replay [] x = x"
  by (simp_all add: replay_def)

lemma apply_requests:
  "gen_current (fold apply_request rs g) = gen_current g"
  "gen_next (fold apply_request rs g) = replay rs (gen_next g)"
  "requests (fold apply_request rs g) = requests g"
  by (induction rs arbitrary: g) (simp_all add: apply_request_def replay_def)

text \<open>The invariant: the next generation is the current one with the queued requests applied.\<close>

definition gen_inv :: "('a, 'r) generation_manager \<Rightarrow> bool" where
  "gen_inv g \<longleftrightarrow> gen_next g = replay (requests g) (gen_current g)"

text \<open>A reader-visible history: updates and switches in any order.\<close>

datatype ('a, 'r) gen_op = Update "'a \<Rightarrow> 'r \<times> 'a" | Switch

fun gen_step :: "('a, 'r) gen_op \<Rightarrow> ('a, 'r) generation_manager \<Rightarrow> ('a, 'r) generation_manager" where
  "gen_step (Update f) g = snd (gen_update f g)"
| "gen_step Switch g = switch_generation_with_update g"

fun updates_of :: "('a, 'r) gen_op list \<Rightarrow> ('a \<Rightarrow> 'r \<times> 'a) list" where
  "updates_of [] = []"
| "updates_of (Update f # ops) = f # updates_of ops"
| "updates_of (Switch # ops) = updates_of ops"

lemma updates_of_append: "updates_of (xs @ ys) = updates_of xs @ updates_of ys"
  by (induction xs rule: updates_of.induct) simp_all

text \<open>The operations up to the last switch.\<close>

definition committed :: "('a, 'r) gen_op list \<Rightarrow> ('a, 'r) gen_op list" where
  "committed ops = rev (dropWhile (\<lambda>op. op \<noteq> Switch) (rev ops))"

lemma committed_snoc: "committed (ops @ [Switch]) = ops @ [Switch]" "committed (ops @ [Update f]) = committed ops"
  by (simp_all add: committed_def)

lemma gen_update_eq:
  "gen_current (snd (gen_update f g)) = gen_current g"
  "gen_next (snd (gen_update f g)) = snd (f (gen_next g))"
  "requests (snd (gen_update f g)) = requests g @ [f]"
  by (simp_all add: gen_update_def Let_def split: prod.splits)

lemma switch_with_update_eq:
  assumes "gen_inv g"
  shows "gen_current (switch_generation_with_update g) = gen_next g"
    "gen_next (switch_generation_with_update g) = gen_next g"
    "requests (switch_generation_with_update g) = []"
  using assms by (auto simp: switch_generation_with_update_def Let_def apply_requests gen_inv_def)

lemma gen_inv_update: "gen_inv g \<Longrightarrow> gen_inv (snd (gen_update f g))"
  by (simp add: gen_inv_def gen_update_eq)

lemma gen_inv_switch: "gen_inv g \<Longrightarrow> gen_inv (switch_generation_with_update g)"
  by (simp add: gen_inv_def [of "switch_generation_with_update g"] switch_with_update_eq)

lemma gen_run:
  assumes "gen_current g = x" "gen_next g = x" "requests g = []"
  shows "gen_inv (fold gen_step ops g) \<and> gen_current (fold gen_step ops g) = replay (updates_of (committed ops)) x
    \<and> gen_next (fold gen_step ops g) = replay (updates_of ops) x"
proof (induction ops rule: rev_induct)
  case Nil
  then show ?case using assms by (simp add: gen_inv_def committed_def)
next
  case (snoc op ops)
  then show ?case
    by (cases op) (auto simp: gen_inv_update gen_inv_switch committed_snoc updates_of_append gen_update_eq switch_with_update_eq)
qed

text \<open>
  C19: from a manager filled on both sides, readers see exactly the updates made before the last
  switch, the next generation has all of them, and the two differ by the queued requests, whatever
  the order of updates and switches.
\<close>

theorem generation_updates_in_step:
  assumes "generations g (gen_id g) = x" and "generations g (gen_id g XOR 1) = x" and "requests g = []"
  shows "let g' = fold gen_step ops (gen_fill f g)
    in gen_current g' = replay (updates_of (committed ops)) (f x)
     \<and> gen_next g' = replay (updates_of ops) (f x)
     \<and> gen_next g' = replay (requests g') (gen_current g')"
proof -
  have filled: "gen_current (gen_fill f g) = f x" "gen_next (gen_fill f g) = f x" "requests (gen_fill f g) = []"
    using assms by (simp_all add: gen_fill_def Let_def flip: gen_current_def gen_next_def)
  show ?thesis using gen_run [OF filled, of ops] unfolding gen_inv_def Let_def by blast
qed

definition example_history :: "(nat, bool) gen_op list" where
  "example_history = [Update (\<lambda>x. (True, x + 1)), Update (\<lambda>x. (False, 2 * x)), Switch, Update (\<lambda>x. (True, x + 5))]"

theorem generation_updates_in_step_witness:
  "let g = \<lparr>gen_id = 0, generations = (\<lambda>i. 3 :: nat), requests = [] :: (nat \<Rightarrow> bool \<times> nat) list\<rparr>;
       g' = fold gen_step example_history (gen_fill (\<lambda>x. x + 7) g)
   in gen_current g' = 22 \<and> gen_next g' = 27"
  using generation_updates_in_step
    [of "\<lparr>gen_id = 0, generations = (\<lambda>i. 3 :: nat), requests = [] :: (nat \<Rightarrow> bool \<times> nat) list\<rparr>" 3
      example_history "\<lambda>x. x + 7"]
  by (simp add: Let_def example_history_def committed_def replay_def)

end
