(* ===== verification/HashtableGc.thy ===== *)
theory HashtableGc
  imports HashtableMod Generation
begin

text \<open>
  The incremental walk \<^verbatim>\<open>updater::gc\<close> over \<^verbatim>\<open>hashtable_mod_dynamic\<close> (\<^verbatim>\<open>src/dataplane/hashtable.h\<close>): each call
  hands out the next range of pairs, adds the chunks it passes to the statistics of the next
  generation, and publishes them when the walk wraps.
\<close>

section \<open>Statistics and the walk\<close>

record ht_stats =
  keys_count :: u32
  keys_in_chunks :: "u32 \<Rightarrow> u32"
  longest_chain :: u32

definition ht_stats_zero :: ht_stats where
  "ht_stats_zero = \<lparr>keys_count = 0, keys_in_chunks = (\<lambda>_. 0), longest_chain = 0\<rparr>"

definition gc_chunk :: "('k, 'v) chunk_t \<Rightarrow> ht_stats \<Rightarrow> ht_stats" where
  "gc_chunk chunk stats =
     (let pairs_in_chunk = of_nat (popcount (ucast (valid_mask chunk)))
      in \<lparr>keys_count = keys_count stats + pairs_in_chunk,
          keys_in_chunks = (keys_in_chunks stats)(pairs_in_chunk := keys_in_chunks stats pairs_in_chunk + 1),
          longest_chain = max (longest_chain stats) pairs_in_chunk\<rparr>)"

definition chunk_ceil :: "u32 \<Rightarrow> u32 \<Rightarrow> u32" where
  "chunk_ceil chunk_size x = x div chunk_size + (if x mod chunk_size \<noteq> 0 then 1 else 0)"

definition ht_gc :: "u32 \<Rightarrow> u32 \<Rightarrow> ('k, 'v) htable \<Rightarrow> u32 \<Rightarrow> u32 \<Rightarrow> (ht_stats, bool) generation_manager
    \<Rightarrow> (u32 \<times> u32) \<times> u32 \<times> (ht_stats, bool) generation_manager" where
  "ht_gc chunk_size total_size t step offset stats =
     (let result = (range_begin total_size offset step, range_end total_size offset step);
          from_i = offset;
          to_i = offset + step;
          chunk_ids = [unat (chunk_ceil chunk_size from_i) ..<
                       unat (min (chunk_ceil chunk_size to_i) (total_size div chunk_size))];
          stats = set_next (fold (\<lambda>chunk_id. gc_chunk (chunks t (of_nat chunk_id))) chunk_ids (gen_next stats)) stats;
          offset = offset + step
      in if offset \<ge> total_size then (result, 0, switch_generation ht_stats_zero stats)
         else (result, offset, stats))"

text \<open>Repeated calls, with the pairs that the returned ranges iterate over.\<close>

fun gc_run :: "nat \<Rightarrow> u32 \<Rightarrow> u32 \<Rightarrow> ('k, 'v) htable \<Rightarrow> u32 \<Rightarrow> u32 \<Rightarrow> (ht_stats, bool) generation_manager
    \<Rightarrow> nat list \<times> u32 \<times> (ht_stats, bool) generation_manager" where
  "gc_run 0 chunk_size total_size t step offset stats = ([], offset, stats)"
| "gc_run (Suc n) chunk_size total_size t step offset stats =
     (let (visited, offset, stats) = gc_run n chunk_size total_size t step offset stats;
          ((i, j), offset, stats) = ht_gc chunk_size total_size t step offset stats
      in (visited @ [unat i..<unat j], offset, stats))"

section \<open>A whole walk\<close>

definition nat_ceil :: "nat \<Rightarrow> nat \<Rightarrow> nat" where
  "nat_ceil c x = x div c + (if x mod c \<noteq> 0 then 1 else 0)"

lemma nat_ceil_mono: "x \<le> y \<Longrightarrow> nat_ceil c x \<le> nat_ceil c y"
proof (cases "x div c = y div c")
  case True
  assume "x \<le> y"
  then have "x mod c \<le> y mod c" using True
    by (metis div_mult_mod_eq nat_add_left_cancel_le)
  with True show ?thesis by (auto simp: nat_ceil_def)
next
  case False
  assume "x \<le> y"
  with False show ?thesis using div_le_mono [of x y c] by (auto simp: nat_ceil_def)
qed

lemma unat_chunk_ceil:
  assumes "chunk_size_ok cs"
  shows "unat (chunk_ceil cs x) = nat_ceil (unat cs) (unat x)"
proof (cases "x mod cs = 0")
  case True
  then have "unat x mod unat cs = 0" by (metis unat_mod unat_0)
  with True show ?thesis by (simp add: chunk_ceil_def nat_ceil_def unat_div)
next
  case False
  then have nz: "unat x mod unat cs \<noteq> 0" by (metis unat_mod unat_0 word_unat_eq_iff)
  then have "unat cs \<noteq> 1" by auto
  then have "2 \<le> unat cs" using chunk_size_pos(1) [OF assms] by linarith
  then have "unat x div unat cs \<le> unat x div 2" by (rule div_le_mono2 [rotated]) simp
  also have "\<dots> < 2 ^ 31" using unsigned_less [of x, where ?'a = nat] by simp
  finally have "unat (x div cs + 1) = unat x div unat cs + 1"
    by (simp add: unat_word_ariths unat_div)
  with False nz show ?thesis by (simp add: chunk_ceil_def nat_ceil_def)
qed

definition table_stats :: "('k, 'v) htable \<Rightarrow> nat \<Rightarrow> ht_stats" where
  "table_stats t n = fold (\<lambda>chunk_id. gc_chunk (chunks t (of_nat chunk_id))) [0..<n] ht_stats_zero"

lemma table_stats_extend:
  assumes "m \<le> n"
  shows "fold (\<lambda>chunk_id. gc_chunk (chunks t (of_nat chunk_id))) [m..<n] (table_stats t m) = table_stats t n"
proof -
  have "[0..<n] = [0..<m] @ [m..<n]" using assms upt_add_eq_append [of 0 m "n - m"] by simp
  then show ?thesis by (simp add: table_stats_def)
qed

text \<open>One call in the middle of the walk, and the call that ends it.\<close>

lemma gc_step:
  assumes cs: "chunk_size_ok cs" and "unat cs dvd unat sz" and "unat offset < unat sz"
    and "unat sz + unat step < 2 ^ 32" and "gen_next stats = table_stats t (nat_ceil (unat cs) (unat offset))"
  shows "if unat offset + unat step < unat sz
    then \<exists>stats'. ht_gc cs sz t step offset stats = ((offset, offset + step), offset + step, stats')
           \<and> gen_next stats' = table_stats t (nat_ceil (unat cs) (unat (offset + step)))
    else \<exists>stats'. ht_gc cs sz t step offset stats = ((offset, sz), 0, stats')
           \<and> gen_next stats' = ht_stats_zero \<and> gen_current stats' = table_stats t (unat sz div unat cs)"
proof -
  have sum: "unat (offset + step) = unat offset + unat step"
    using assms(3, 4) by (simp add: unat_word_ariths)
  have whole: "nat_ceil (unat cs) (unat sz) = unat sz div unat cs"
    using assms(2) by (simp add: nat_ceil_def)
  let ?c = "nat_ceil (unat cs)"
  have last: "unat (min (chunk_ceil cs (offset + step)) (sz div cs)) = ?c (min (unat offset + unat step) (unat sz))"
    using nat_ceil_mono [of "unat offset + unat step" "unat sz" "unat cs"]
      nat_ceil_mono [of "unat sz" "unat offset + unat step" "unat cs"]
    by (auto simp: min_def word_le_nat_alt unat_chunk_ceil [OF cs] unat_div sum whole)
  have stats: "fold (\<lambda>chunk_id. gc_chunk (chunks t (of_nat chunk_id)))
      [unat (chunk_ceil cs offset)..<unat (min (chunk_ceil cs (offset + step)) (sz div cs))] (gen_next stats)
      = table_stats t (?c (min (unat offset + unat step) (unat sz)))"
    unfolding assms(5) last unat_chunk_ceil [OF cs]
    using assms(3) by (intro table_stats_extend nat_ceil_mono) simp
  have lo: "range_begin sz offset step = offset" using assms(3)
    by (simp add: range_begin_def min_def word_le_nat_alt)
  have hi: "range_end sz offset step = (if unat offset + unat step < unat sz then offset + step else sz)"
    by (auto simp: range_end_def min_def word_le_nat_alt sum word_unat_eq_iff)
  show ?thesis
    unfolding ht_gc_def Let_def stats
    by (auto simp: lo hi word_le_nat_alt sum whole min_def)
qed

lemma gc_run_partial:
  assumes cs: "chunk_size_ok cs" and "unat cs dvd unat sz"
    and "unat sz + unat step < 2 ^ 32" and "gen_next stats = ht_stats_zero"
  shows "n * unat step < unat sz \<Longrightarrow>
    \<exists>stats' offset. gc_run n cs sz t step 0 stats = ([0..<n * unat step], offset, stats')
      \<and> unat offset = n * unat step \<and> gen_next stats' = table_stats t (nat_ceil (unat cs) (n * unat step))"
proof (induction n)
  case 0
  then show ?case using assms(4) by (simp add: nat_ceil_def table_stats_def)
next
  case (Suc n)
  then obtain stats' offset where run: "gc_run n cs sz t step 0 stats = ([0..<n * unat step], offset, stats')"
    and off: "unat offset = n * unat step" and "gen_next stats' = table_stats t (nat_ceil (unat cs) (n * unat step))"
    by auto
  then have lt: "unat offset + unat step < unat sz" and "gen_next stats' = table_stats t (nat_ceil (unat cs) (unat offset))"
    using Suc.prems by simp_all
  with gc_step [OF cs assms(2) _ assms(3) this(2)] obtain stats'' where
    "ht_gc cs sz t step offset stats' = ((offset, offset + step), offset + step, stats'')"
    "gen_next stats'' = table_stats t (nat_ceil (unat cs) (unat (offset + step)))" by auto
  moreover have "unat (offset + step) = n * unat step + unat step"
    using lt assms(3) off by (simp add: unat_word_ariths)
  moreover have "[0..<n * unat step] @ [n * unat step..<n * unat step + unat step] = [0..<n * unat step + unat step]"
    using upt_add_eq_append [of 0 "n * unat step" "unat step"] by simp
  ultimately show ?case by (simp add: run off add.commute)
qed

lemma gc_run_full:
  assumes cs: "chunk_size_ok cs" and "unat cs dvd unat sz" and "unat sz + unat step < 2 ^ 32"
    and "gen_next stats = ht_stats_zero" and "n * unat step < unat sz" and "unat sz \<le> Suc n * unat step"
  shows "\<exists>stats'. gc_run (Suc n) cs sz t step 0 stats = ([0..<unat sz], 0, stats')
    \<and> gen_next stats' = ht_stats_zero \<and> gen_current stats' = table_stats t (unat sz div unat cs)"
proof -
  obtain stats' offset where run: "gc_run n cs sz t step 0 stats = ([0..<n * unat step], offset, stats')"
    and off: "unat offset = n * unat step" and "gen_next stats' = table_stats t (nat_ceil (unat cs) (n * unat step))"
    using gc_run_partial [OF assms(1-5)] by blast
  then have "gen_next stats' = table_stats t (nat_ceil (unat cs) (unat offset))" by simp
  from gc_step [OF cs assms(2) _ assms(3) this] obtain stats'' where
    "ht_gc cs sz t step offset stats' = ((offset, sz), 0, stats'')" "gen_next stats'' = ht_stats_zero"
    "gen_current stats'' = table_stats t (unat sz div unat cs)"
    using assms(5, 6) off by auto
  moreover have "[0..<n * unat step] @ [n * unat step..<unat sz] = [0..<unat sz]"
    using upt_add_eq_append [of 0 "n * unat step" "unat sz - n * unat step"] assms(5) by simp
  ultimately show ?thesis by (simp add: run off)
qed

section \<open>The statistics count the keys\<close>

definition valid_pairs :: "u32 \<Rightarrow> ('k, 'v) chunk_t \<Rightarrow> u32 set" where
  "valid_pairs cs chunk = {i. i < cs \<and> is_valid chunk i}"

lemma popcount_valid:
  assumes "chunk_size_ok cs" and "mask_ok cs chunk"
  shows "popcount (ucast (valid_mask chunk)) = card (valid_pairs cs chunk)"
proof -
  have "popcount (ucast (valid_mask chunk)) = card (set (filter (bit (ucast (valid_mask chunk) :: u32)) [0..<32]))"
    unfolding popcount_def by (rule distinct_card [symmetric]) simp
  also have "set (filter (bit (ucast (valid_mask chunk) :: u32)) [0..<32]) = unat ` valid_pairs cs chunk"
  proof safe
    fix n assume "n \<in> set (filter (bit (ucast (valid_mask chunk) :: u32)) [0..<32])"
    then have n: "n < 32" "bit (valid_mask chunk) n" by (auto simp: bit_ucast_iff)
    then have "unat (of_nat n :: u32) = n" by (intro unat_of_nat_small) simp
    then show "n \<in> unat ` valid_pairs cs chunk"
      using n mask_ok_bit [OF assms(2) n(2)]
      by (intro image_eqI [of _ _ "of_nat n"]) (auto simp: valid_pairs_def is_valid_iff word_less_nat_alt)
  next
    fix i assume "i \<in> valid_pairs cs chunk"
    then show "unat i \<in> set (filter (bit (ucast (valid_mask chunk) :: u32)) [0..<32])"
      using chunk_size_pos(2) [OF assms(1)] by (auto simp: valid_pairs_def is_valid_iff bit_ucast_iff word_less_nat_alt)
  qed
  also have "card (unat ` valid_pairs cs chunk) = card (valid_pairs cs chunk)"
    by (rule card_image) (simp add: inj_on_def word_unat_eq_iff)
  finally show ?thesis .
qed

lemma keys_count_table:
  "keys_count (table_stats t n) = of_nat (\<Sum>c < n. popcount (ucast (valid_mask (chunks t (of_nat c)))))"
  by (induction n) (simp_all add: table_stats_def ht_stats_zero_def gc_chunk_def Let_def)

lemma dom_ht_get:
  assumes "ht_inv h cs t"
  shows "dom (ht_get h cs t) = (\<Union>c \<in> {c. c \<le> total_mask t}. (\<lambda>i. fst (pairs (chunks t c) i)) ` valid_pairs cs (chunks t c))"
proof safe
  fix key v assume "ht_get h cs t key = Some v"
  then obtain i where "i < cs" "is_valid (chunks t (h key AND total_mask t)) i"
    "pairs (chunks t (h key AND total_mask t)) i = (key, v)" using ht_get_Some [OF assms] by blast
  then have "i \<in> valid_pairs cs (chunks t (h key AND total_mask t))"
    "key = fst (pairs (chunks t (h key AND total_mask t)) i)" by (simp_all add: valid_pairs_def)
  then show "key \<in> (\<Union>c \<in> {c. c \<le> total_mask t}. (\<lambda>i. fst (pairs (chunks t c) i)) ` valid_pairs cs (chunks t c))"
    using home_le [of h key t] by blast
next
  fix c i assume "c \<le> total_mask t" "i \<in> valid_pairs cs (chunks t c)"
  then show "\<exists>v. ht_get h cs t (fst (pairs (chunks t c) i)) = Some v"
    using ht_get_pair [OF assms] by (simp add: valid_pairs_def)
qed

lemma sum_words_upto: "(\<Sum>c < Suc (unat (m :: u32)). f (of_nat c)) = (\<Sum>c \<in> {c. c \<le> m}. f c)"
proof (rule sum.reindex_bij_witness [where i = unat and j = of_nat])
  fix c assume "c \<in> {..<Suc (unat m)}"
  then have c: "c \<le> unat m" by simp
  show inv: "unat (of_nat c :: u32) = c"
    using c unsigned_less [of m, where ?'a = nat] by (intro unat_of_nat_small) linarith
  show "of_nat c \<in> {c. c \<le> m}" using c inv by (simp add: word_le_nat_alt)
qed (simp_all add: word_le_nat_alt less_Suc_eq_le)

lemma finite_valid_pairs: "finite (valid_pairs cs chunk)"
  by (rule finite_subset [OF subset_UNIV]) simp

lemma card_dom_ht_get:
  assumes inv: "ht_inv h cs t"
  shows "card (dom (ht_get h cs t)) = (\<Sum>c \<in> {c. c \<le> total_mask t}. card (valid_pairs cs (chunks t c)))"
proof -
  let ?keys = "\<lambda>c. (\<lambda>i. fst (pairs (chunks t c) i)) ` valid_pairs cs (chunks t c)"
  have ok: "chunk_ok h cs (total_mask t) c (chunks t c)" if "c \<le> total_mask t" for c
    using inv that by (simp add: ht_inv_def)
  have home: "h key AND total_mask t = c" if "c \<le> total_mask t" "key \<in> ?keys c" for c key
    using ok [OF that(1)] that(2) by (auto simp: chunk_ok_def valid_pairs_def)
  have "card (dom (ht_get h cs t)) = (\<Sum>c \<in> {c. c \<le> total_mask t}. card (?keys c))"
    unfolding dom_ht_get [OF inv]
  proof (rule card_UN_disjoint)
    show "\<forall>c \<in> {c. c \<le> total_mask t}. \<forall>d \<in> {c. c \<le> total_mask t}. c \<noteq> d \<longrightarrow> ?keys c \<inter> ?keys d = {}"
      using home by (metis (no_types, lifting) disjoint_iff mem_Collect_eq)
  qed (simp_all add: finite_valid_pairs)
  also have "\<dots> = (\<Sum>c \<in> {c. c \<le> total_mask t}. card (valid_pairs cs (chunks t c)))"
  proof (rule sum.cong [OF refl])
    fix c assume "c \<in> {c. c \<le> total_mask t}"
    then have "inj_on (\<lambda>i. fst (pairs (chunks t c) i)) (valid_pairs cs (chunks t c))"
      using chunk_ok_uniq [OF ok [of c]] by (auto simp: inj_on_def valid_pairs_def)
    then show "card (?keys c) = card (valid_pairs cs (chunks t c))" by (rule card_image)
  qed
  finally show ?thesis .
qed

text \<open>
  C22: on a table that is not changed meanwhile, a full walk of \<^verbatim>\<open>gc\<close> calls with any step hands out every
  pair exactly once and in order, returns to offset zero, and publishes statistics whose
  \<^verbatim>\<open>keys_count\<close> is the number of keys stored in the table.
\<close>

theorem gc_walk_counts_keys:
  assumes "ht_inv calculate_hash chunk_size t"
    and "unat total_size = unat chunk_size * Suc (unat (total_mask t))"
    and "unat total_size + unat step < 2 ^ 32" and "gen_next stats = ht_stats_zero"
    and "n * unat step < unat total_size" and "unat total_size \<le> Suc n * unat step"
  shows "let (visited, offset, stats') = gc_run (Suc n) chunk_size total_size t step 0 stats
    in visited = [0..<unat total_size] \<and> offset = 0 \<and> gen_next stats' = ht_stats_zero
     \<and> keys_count (gen_current stats') = of_nat (card (dom (ht_get calculate_hash chunk_size t)))"
proof -
  have cs: "chunk_size_ok chunk_size" using assms(1) by (simp add: ht_inv_def)
  have n: "unat total_size div unat chunk_size = Suc (unat (total_mask t))"
    using assms(2) chunk_size_pos(1) [OF cs] by simp
  obtain stats' where run: "gc_run (Suc n) chunk_size total_size t step 0 stats = ([0..<unat total_size], 0, stats')"
    and "gen_next stats' = ht_stats_zero" and cur: "gen_current stats' = table_stats t (unat total_size div unat chunk_size)"
    using gc_run_full [OF cs _ assms(3-6)] assms(2) by (auto simp del: gc_run.simps)
  moreover have "keys_count (gen_current stats') = of_nat (card (dom (ht_get calculate_hash chunk_size t)))"
  proof -
    have "(\<Sum>c < Suc (unat (total_mask t)). popcount (ucast (valid_mask (chunks t (of_nat c)))))
        = (\<Sum>c \<in> {c. c \<le> total_mask t}. popcount (ucast (valid_mask (chunks t c))))"
      by (rule sum_words_upto)
    also have "\<dots> = card (dom (ht_get calculate_hash chunk_size t))"
      unfolding card_dom_ht_get [OF assms(1)]
      using assms(1) by (intro sum.cong) (auto simp: popcount_valid [OF cs] ht_inv_def chunk_ok_def)
    finally show ?thesis unfolding cur keys_count_table n by simp
  qed
  ultimately show ?thesis by (simp del: gc_run.simps)
qed

definition example_stats :: "(ht_stats, bool) generation_manager" where
  "example_stats = \<lparr>gen_id = 0, generations = (\<lambda>_. ht_stats_zero), requests = []\<rparr>"

definition example_filled :: "(u32, u32) htable" where
  "example_filled = snd (ht_insert_or_update example_hash 2 example_table 5 50)"

theorem gc_walk_counts_keys_witness:
  "let (visited, offset, stats) = gc_run (Suc 1) 2 4 example_filled 3 0 example_stats
   in visited = [0..<4] \<and> offset = 0 \<and>
      keys_count (gen_current stats) = of_nat (card (dom (ht_get example_hash 2 example_filled)))"
proof -
  have "ht_inv example_hash 2 example_table"
    unfolding example_table_def by (rule ht_clear_get) (simp add: chunk_size_ok_def)
  then have inv: "ht_inv example_hash 2 example_filled"
    unfolding example_filled_def by (metis ht_insert_or_update_effect prod.collapse)
  have total: "unat (4 :: u32) = unat (2 :: u32) * Suc (unat (total_mask example_filled))" by code_simp
  have fresh: "gen_next example_stats = ht_stats_zero" by (simp add: example_stats_def gen_next_def)
  show ?thesis
    using gc_walk_counts_keys [OF inv total _ fresh, of 3 1] by (simp del: gc_run.simps split: prod.splits)
qed

end
