(* ===== verification/AclGc.thy ===== *)
theory AclGc
  imports HashtableConcurrent HashtableGc Address
begin

text \<open>
  The garbage collector of the stateful firewall, \<^verbatim>\<open>worker_gc_t::handle_acl_gc\<close> of
  \<^verbatim>\<open>src/dataplane/worker_gc.cpp\<close>, over the tables of connection states: it walks the pairs of a table,
  expires old states, schedules synchronisation frames and keeps the copy of the states that is shown
  to operators.  Keys and values are those of \<^verbatim>\<open>src/dataplane/type.h\<close>.
\<close>

section \<open>Keys and values\<close>

text \<open>
  The collector does not read the flow action of a state, which is left out, nor does it set the
  fields of a synchronisation frame that are always zero (\<^verbatim>\<open>fib\<close>, \<^verbatim>\<open>flow_id6\<close>, \<^verbatim>\<open>extra\<close>).
\<close>

datatype fw_state_type = Tcp | Udp | OtherProto u8

record fw_state_value_t =
  fw_type :: fw_state_type
  owner :: u8
  src_flags :: u8
  dst_flags :: u8
  last_seen :: u32
  state_timeout :: u32
  last_sync :: u32
  packets_since_last_sync :: u32
  packets_backward :: u64
  packets_forward :: u64
  acl_id :: u8

text \<open>The TCP flags of the two sides are bit fields of four bits.\<close>

definition tcp_pack :: "fw_state_value_t \<Rightarrow> u8" where
  "tcp_pack v = src_flags v OR push_bit 4 (dst_flags v)"

definition tcp_unpack :: "u8 \<Rightarrow> fw_state_value_t \<Rightarrow> fw_state_value_t" where
  "tcp_unpack fl v = v\<lparr>src_flags := fl AND 15, dst_flags := drop_bit 4 fl\<rparr>"

record fw4_state_key_t =
  k4_proto :: u16
  k4_src_addr :: u32
  k4_dst_addr :: u32
  k4_src_port :: u16
  k4_dst_port :: u16

record fw6_state_key_t =
  k6_proto :: u16
  k6_src_addr :: ipv6_address_t
  k6_dst_addr :: ipv6_address_t
  k6_src_port :: u16
  k6_dst_port :: u16

record fw_state_sync_frame_t =
  fr_dst_ip :: u32
  fr_src_ip :: u32
  fr_dst_port :: u16
  fr_src_port :: u16
  fr_proto :: u8
  fr_flags :: u8
  fr_addr_type :: u8
  fr_dst_ip6 :: ipv6_address_t
  fr_src_ip6 :: ipv6_address_t

definition zero_frame :: fw_state_sync_frame_t where
  "zero_frame = \<lparr>fr_dst_ip = 0, fr_src_ip = 0, fr_dst_port = 0, fr_src_port = 0, fr_proto = 0, fr_flags = 0,
     fr_addr_type = 0, fr_dst_ip6 = ipv6_zero, fr_src_ip6 = ipv6_zero\<rparr>"

definition from_state_key4 :: "fw4_state_key_t \<Rightarrow> fw_state_sync_frame_t" where
  "from_state_key4 key = zero_frame\<lparr>fr_proto := ucast (k4_proto key), fr_addr_type := 4,
     fr_src_ip := k4_dst_addr key, fr_dst_ip := k4_src_addr key,
     fr_src_port := k4_dst_port key, fr_dst_port := k4_src_port key\<rparr>"

definition from_state_key6 :: "fw6_state_key_t \<Rightarrow> fw_state_sync_frame_t" where
  "from_state_key6 key = zero_frame\<lparr>fr_proto := ucast (k6_proto key), fr_addr_type := 6,
     fr_src_ip6 := k6_dst_addr key, fr_dst_ip6 := k6_src_addr key,
     fr_src_port := k6_dst_port key, fr_dst_port := k6_src_port key\<rparr>"

text \<open>The keys and values of the operators' view, \<^verbatim>\<open>common::idp::getFWState\<close>.\<close>

type_synonym fw_key = "u8 \<times> ip_address_t \<times> ip_address_t \<times> u16 \<times> u16"
type_synonym fw_view = "u8 \<times> u8 \<times> u32 \<times> u64 \<times> u64"

definition fw_key4 :: "fw4_state_key_t \<Rightarrow> fw_key" where
  "fw_key4 key = (ucast (k4_proto key), ipv4_address (be_to_cpu_32 (k4_src_addr key)),
     ipv4_address (be_to_cpu_32 (k4_dst_addr key)), k4_src_port key, k4_dst_port key)"

definition fw_key6 :: "fw6_state_key_t \<Rightarrow> fw_key" where
  "fw_key6 key = (ucast (k6_proto key), ipv6_address (k6_src_addr key), ipv6_address (k6_dst_addr key),
     k6_src_port key, k6_dst_port key)"

definition fw_view_of :: "u32 \<Rightarrow> fw_state_value_t \<Rightarrow> fw_view" where
  "fw_view_of current_time v =
     (owner v, tcp_pack v, current_time - last_seen v, packets_backward v, packets_forward v)"

section \<open>The collector\<close>

definition is_timeout :: "u32 \<Rightarrow> u32 \<Rightarrow> u32 \<Rightarrow> bool" where
  "is_timeout current_time timestamp timeout = (current_time - timestamp > timeout)"

definition sync_due :: "u32 \<Rightarrow> u32 \<Rightarrow> fw_state_value_t \<Rightarrow> bool" where
  "sync_due current_time sync_timeout v =
     (current_time - last_sync v \<ge> sync_timeout \<and> packets_since_last_sync v > 0)"

record 'k acl_gc =
  fw_table :: "('k, fw_state_value_t) sl_table"
  insert_stack :: "(fw_key \<times> fw_view) list"
  remove_stack :: "fw_key list"
  sync_events :: "(fw_state_sync_frame_t \<times> u8) list"
  valid_keys :: u64

text \<open>The first critical section: a copy of the pair is taken under the lock.\<close>

definition gc_snapshot :: "u32 \<Rightarrow> u32 \<Rightarrow> 'k acl_gc \<Rightarrow> (('k \<times> fw_state_value_t) \<times> 'k acl_gc) option" where
  "gc_snapshot chunk_size index s =
     map_option (\<lambda>t. (sl_it_pair chunk_size t index, s\<lparr>fw_table := sl_unlock (index div chunk_size) t\<rparr>))
       (sl_lock (index div chunk_size) (fw_table s))"

definition it_set_synced :: "u32 \<Rightarrow> u32 \<Rightarrow> ('k, fw_state_value_t) sl_table \<Rightarrow> u32 \<Rightarrow> ('k, fw_state_value_t) sl_table" where
  "it_set_synced chunk_size current_time t index =
     sl_set_value (index div chunk_size) (index mod chunk_size)
       ((snd (sl_it_pair chunk_size t index))\<lparr>last_sync := current_time, packets_since_last_sync := 0\<rparr>) t"

text \<open>
  The decision on the copy and the second critical section.  The branches for TCP, UDP and other
  protocols differ only in the flags of the frame.
\<close>

definition gc_decide :: "('k \<Rightarrow> fw_key) \<Rightarrow> ('k \<Rightarrow> fw_state_sync_frame_t) \<Rightarrow> u32 \<Rightarrow> u32 \<Rightarrow> u32 \<Rightarrow> u32
    \<Rightarrow> 'k \<times> fw_state_value_t \<Rightarrow> 'k acl_gc \<Rightarrow> 'k acl_gc option" where
  "gc_decide fw_key_of from_state_key chunk_size current_time sync_timeout index pair s =
     (let (key, v) = pair;
          s = s\<lparr>valid_keys := valid_keys s + 1,
                insert_stack := insert_stack s @ [(fw_key_of key, fw_view_of current_time v)]\<rparr>
      in if is_timeout current_time (last_seen v) (state_timeout v) then
           let s = s\<lparr>remove_stack := remove_stack s @ [fw_key_of key]\<rparr>
           in map_option (\<lambda>t. s\<lparr>fw_table := sl_unlock (index div chunk_size) (sl_it_unset_valid chunk_size t index)\<rparr>)
                (sl_lock (index div chunk_size) (fw_table s))
         else if sync_due current_time sync_timeout v then
           let frame = (if fw_type v = Tcp then (from_state_key key)\<lparr>fr_flags := tcp_pack v\<rparr> else from_state_key key);
               s = s\<lparr>sync_events := sync_events s @ [(frame, acl_id v)]\<rparr>
           in map_option (\<lambda>t. s\<lparr>fw_table := sl_unlock (index div chunk_size) (it_set_synced chunk_size current_time t index)\<rparr>)
                (sl_lock (index div chunk_size) (fw_table s))
         else map_option (\<lambda>t. s\<lparr>fw_table := sl_unlock (index div chunk_size) t\<rparr>)
                (sl_lock (index div chunk_size) (fw_table s)))"

text \<open>The body of the loop for one pair.\<close>

definition gc_visit :: "('k \<Rightarrow> fw_key) \<Rightarrow> ('k \<Rightarrow> fw_state_sync_frame_t) \<Rightarrow> u32 \<Rightarrow> u32 \<Rightarrow> u32 \<Rightarrow> u32
    \<Rightarrow> 'k acl_gc \<Rightarrow> 'k acl_gc option" where
  "gc_visit fw_key_of from_state_key chunk_size current_time sync_timeout index s =
     (if sl_it_is_valid chunk_size (fw_table s) index then
        Option.bind (gc_snapshot chunk_size index s)
          (\<lambda>(pair, s). gc_decide fw_key_of from_state_key chunk_size current_time sync_timeout index pair s)
      else map_option (\<lambda>(pair, s). s\<lparr>remove_stack := remove_stack s @ [fw_key_of (fst pair)]\<rparr>)
             (gc_snapshot chunk_size index s))"

fun gc_visits :: "('k \<Rightarrow> fw_key) \<Rightarrow> ('k \<Rightarrow> fw_state_sync_frame_t) \<Rightarrow> u32 \<Rightarrow> u32 \<Rightarrow> u32 \<Rightarrow> nat list
    \<Rightarrow> 'k acl_gc \<Rightarrow> 'k acl_gc option" where
  "gc_visits fw_key_of from_state_key chunk_size current_time sync_timeout [] s = Some s"
| "gc_visits fw_key_of from_state_key chunk_size current_time sync_timeout (i # is) s =
     Option.bind (gc_visit fw_key_of from_state_key chunk_size current_time sync_timeout (of_nat i) s)
       (gc_visits fw_key_of from_state_key chunk_size current_time sync_timeout is)"

text \<open>The operators' view is updated from the stacks, insertions first.\<close>

definition update_fw_state :: "'k acl_gc \<Rightarrow> (fw_key \<rightharpoonup> fw_view) \<Rightarrow> fw_key \<rightharpoonup> fw_view" where
  "update_fw_state s fw_state =
     fold (\<lambda>key m. m(key := None)) (remove_stack s) (fold (\<lambda>(key, v) m. m(key \<mapsto> v)) (insert_stack s) fw_state)"

text \<open>\<^verbatim>\<open>updater::gc\<close> of the locked table, and the loop over the range it returns.\<close>

definition sl_gc_chunk :: "('k, 'v) sl_chunk \<Rightarrow> ht_stats \<Rightarrow> ht_stats" where
  "sl_gc_chunk chunk stats =
     (let pairs_in_chunk = of_nat (popcount (sl_valid_mask chunk))
      in \<lparr>keys_count = keys_count stats + pairs_in_chunk,
          keys_in_chunks = (keys_in_chunks stats)(pairs_in_chunk := keys_in_chunks stats pairs_in_chunk + 1),
          longest_chain = max (longest_chain stats) pairs_in_chunk\<rparr>)"

definition sl_gc :: "u32 \<Rightarrow> u32 \<Rightarrow> ('k, 'v) sl_table \<Rightarrow> u32 \<Rightarrow> u32 \<Rightarrow> (ht_stats, bool) generation_manager
    \<Rightarrow> (u32 \<times> u32) \<times> u32 \<times> (ht_stats, bool) generation_manager" where
  "sl_gc chunk_size total_size t step offset stats =
     (let result = (min offset total_size, min (offset + step) total_size);
          from_i = offset;
          to_i = offset + step;
          chunk_ids = [unat (from_i div chunk_size + (if from_i mod chunk_size \<noteq> 0 then 1 else 0)) ..<
                       unat (min (to_i div chunk_size + (if to_i mod chunk_size \<noteq> 0 then 1 else 0)) (total_size div chunk_size))];
          stats = set_next (fold (\<lambda>chunk_id. sl_gc_chunk (sl_chunks t (of_nat chunk_id))) chunk_ids (gen_next stats)) stats;
          offset = offset + step
      in if offset \<ge> total_size then (result, 0, switch_generation ht_stats_zero stats)
         else (result, offset, stats))"

record 'k fw_walk =
  walk_gc :: "'k acl_gc"
  walk_offset :: u32
  walk_stats :: "(ht_stats, bool) generation_manager"
  walk_iterations :: u64

definition handle_fw_gc :: "('k \<Rightarrow> fw_key) \<Rightarrow> ('k \<Rightarrow> fw_state_sync_frame_t) \<Rightarrow> u32 \<Rightarrow> u32 \<Rightarrow> u32 \<Rightarrow> u32 \<Rightarrow> u32
    \<Rightarrow> 'k fw_walk \<Rightarrow> 'k fw_walk option" where
  "handle_fw_gc fw_key_of from_state_key chunk_size total_size gc_step current_time sync_timeout w =
     (let ((i, j), offset, stats) = sl_gc chunk_size total_size (fw_table (walk_gc w)) gc_step (walk_offset w) (walk_stats w)
      in map_option (\<lambda>s. \<lparr>walk_gc = s, walk_offset = offset, walk_stats = stats,
             walk_iterations = (if offset = 0 then walk_iterations w + 1 else walk_iterations w)\<rparr>)
           (gc_visits fw_key_of from_state_key chunk_size current_time sync_timeout [unat i..<unat j] (walk_gc w)))"

text \<open>Both tables share the stacks and the queue of synchronisation events.\<close>

definition handle_acl_gc :: "u32 \<Rightarrow> u32 \<Rightarrow> u32 \<Rightarrow> u32 \<Rightarrow> u32 \<Rightarrow> u32 \<Rightarrow> fw4_state_key_t fw_walk \<Rightarrow> fw6_state_key_t fw_walk
    \<Rightarrow> (fw_key \<rightharpoonup> fw_view) \<Rightarrow> (fw4_state_key_t fw_walk \<times> fw6_state_key_t fw_walk \<times> (fw_key \<rightharpoonup> fw_view)) option" where
  "handle_acl_gc chunk_size total4 total6 gc_step current_time sync_timeout w4 w6 fw_state =
     (let w4 = w4\<lparr>walk_gc := (walk_gc w4)\<lparr>insert_stack := [], remove_stack := []\<rparr>\<rparr>
      in Option.bind (handle_fw_gc fw_key4 from_state_key4 chunk_size total4 gc_step current_time sync_timeout w4)
           (\<lambda>w4. let w6 = w6\<lparr>walk_gc := (walk_gc w6)\<lparr>insert_stack := insert_stack (walk_gc w4),
                       remove_stack := remove_stack (walk_gc w4), sync_events := sync_events (walk_gc w4)\<rparr>\<rparr>
            in map_option (\<lambda>w6. (w4\<lparr>walk_gc := (walk_gc w4)\<lparr>sync_events := sync_events (walk_gc w6)\<rparr>\<rparr>,
                                 w6, update_fw_state (walk_gc w6) fw_state))
                 (handle_fw_gc fw_key6 from_state_key6 chunk_size total6 gc_step current_time sync_timeout w6)))"

section \<open>Slots\<close>

text \<open>What the pair at an index of the walk holds.\<close>

definition slot :: "u32 \<Rightarrow> ('k, 'v) sl_table \<Rightarrow> u32 \<Rightarrow> ('k \<times> 'v) option" where
  "slot cs t index = (if sl_it_is_valid cs t index then Some (sl_it_pair cs t index) else None)"

definition unlocked :: "('k, 'v) sl_table \<Rightarrow> bool" where
  "unlocked t = (\<forall>c. \<not> locker (sl_chunks t c))"

lemma lock_unlocked:
  assumes "unlocked t"
  obtains t' where "sl_lock c t = Some t'" "abs_table t' = abs_table t" "\<And>d. locker (sl_chunks t' d) \<longleftrightarrow> d = c"
proof -
  obtain t' where t': "sl_lock c t = Some t'" using assms by (simp add: unlocked_def sl_lock_def)
  moreover have "locker (sl_chunks t' d) \<longleftrightarrow> d = c" for d
    using t' assms by (auto simp: sl_lock_def unlocked_def split: if_splits)
  ultimately show thesis using that abs_lock by blast
qed

lemma slot_abs: "slot cs t index = (if it_is_valid cs (abs_table t) index
    then Some (pairs (chunks (abs_table t) (index div cs)) (index mod cs)) else None)"
  by (simp add: slot_def sl_it_is_valid_abs sl_it_pair_def)

lemma slot_cong: "abs_table t' = abs_table t \<Longrightarrow> slot cs t' = slot cs t"
  by (simp add: fun_eq_iff slot_abs)

lemma slot_unlock: "slot cs (sl_unlock c t) = slot cs t"
  by (rule slot_cong) simp

lemma index_eq_iff: "i = j \<longleftrightarrow> i div cs = j div cs \<and> i mod cs = j mod cs" for i j cs :: u32
  by (metis word_mod_div_equality)

text \<open>An index of the table for every chunk and pair.\<close>

lemma index_of:
  assumes "chunk_size_ok cs" and "unat cs * Suc (unat m) < 2 ^ 32" and "c \<le> m" and "i < cs"
  obtains j where "j < unat cs * Suc (unat m)" "of_nat j div cs = c" "of_nat j mod cs = (i :: u32)"
proof -
  let ?j = "unat cs * unat c + unat i"
  have "unat cs * unat c \<le> unat cs * unat m" using assms(3) by (simp add: word_le_nat_alt)
  moreover have "unat i < unat cs" using assms(4) by (simp add: word_less_nat_alt)
  ultimately have lt: "?j < unat cs * Suc (unat m)" unfolding mult_Suc_right by linarith
  have j: "unat (of_nat ?j :: u32) = ?j" using lt assms(2) by (intro unat_of_nat_small) simp
  have "of_nat ?j div cs = c" and "of_nat ?j mod cs = i"
    using \<open>unat i < unat cs\<close> by (simp_all only: word_unat_eq_iff unat_div unat_mod j) simp_all
  with lt show thesis by (rule that)
qed

lemma ht_get_slot:
  assumes inv: "ht_inv h cs (abs_table t)" and "unat cs * Suc (unat (sl_total_mask t)) < 2 ^ 32"
  shows "ht_get h cs (abs_table t) key = Some v \<longleftrightarrow>
    (\<exists>j < unat cs * Suc (unat (sl_total_mask t)). slot cs t (of_nat j) = Some (key, v))"
proof
  have cs: "chunk_size_ok cs" using inv by (simp add: ht_inv_def)
  assume "ht_get h cs (abs_table t) key = Some v"
  then obtain i where i: "i < cs" "is_valid (chunks (abs_table t) (h key AND sl_total_mask t)) i"
    "pairs (chunks (abs_table t) (h key AND sl_total_mask t)) i = (key, v)" using ht_get_Some [OF inv] by auto
  have "h key AND sl_total_mask t \<le> sl_total_mask t" by (rule word_and_le1)
  from index_of [OF cs assms(2) this i(1)] obtain j where
    "j < unat cs * Suc (unat (sl_total_mask t))" "of_nat j div cs = h key AND sl_total_mask t" "of_nat j mod cs = i" .
  then show "\<exists>j < unat cs * Suc (unat (sl_total_mask t)). slot cs t (of_nat j) = Some (key, v)"
    using i by (auto simp: slot_abs it_is_valid_iff [OF cs])
next
  have cs: "chunk_size_ok cs" using inv by (simp add: ht_inv_def)
  assume "\<exists>j < unat cs * Suc (unat (sl_total_mask t)). slot cs t (of_nat j) = Some (key, v)"
  then obtain j where j: "j < unat cs * Suc (unat (sl_total_mask t))" "slot cs t (of_nat j) = Some (key, v)" by blast
  have "unat (of_nat j :: u32) = j" using j(1) assms(2) by (intro unat_of_nat_small) simp
  then have "unat (of_nat j div cs :: u32) \<le> unat (sl_total_mask t)"
    using less_mult_imp_div_less [of j "Suc (unat (sl_total_mask t))" "unat cs"] j(1)
    by (simp add: unat_div mult.commute [of "unat cs"] less_Suc_eq_le del: mult_Suc mult_Suc_right)
  then have "of_nat j div cs \<le> total_mask (abs_table t)" by (simp add: word_le_nat_alt)
  from ht_get_pair [OF inv this mod_less_cs [OF cs, of "of_nat j"]] j(2)
  show "ht_get h cs (abs_table t) key = Some v" by (auto simp: slot_abs it_is_valid_iff [OF cs] split: if_splits)
qed

section \<open>One visit\<close>

definition synced :: "u32 \<Rightarrow> u32 \<Rightarrow> fw_state_value_t \<Rightarrow> fw_state_value_t" where
  "synced current_time sync_timeout v =
     (if sync_due current_time sync_timeout v then v\<lparr>last_sync := current_time, packets_since_last_sync := 0\<rparr> else v)"

text \<open>What the collector should leave of a state.\<close>

definition gc_keeps :: "u32 \<Rightarrow> u32 \<Rightarrow> fw_state_value_t \<Rightarrow> fw_state_value_t option" where
  "gc_keeps current_time sync_timeout v =
     (if is_timeout current_time (last_seen v) (state_timeout v) then None else Some (synced current_time sync_timeout v))"

lemma sl_it_is_valid_bit:
  "sl_it_is_valid cs t index \<longleftrightarrow> bit (sl_valid_mask (sl_chunks t (index div cs))) (unat (index mod cs))"
  by (simp add: sl_it_is_valid_def and_exp_eq_0_iff_not_bit)

lemma index_bit:
  assumes "chunk_size_ok cs"
  shows "unat ((index :: u32) mod cs) < 32"
  using mod_less_cs [OF assms, of index] chunk_size_pos(2) [OF assms] by (simp add: word_less_nat_alt)

lemma slot_unset_valid:
  assumes "chunk_size_ok cs"
  shows "slot cs (sl_it_unset_valid cs t index) = (slot cs t)(index := None)"
proof
  fix j
  have "sl_it_is_valid cs (sl_it_unset_valid cs t index) j \<longleftrightarrow> sl_it_is_valid cs t j \<and> j \<noteq> index"
    using index_bit [OF assms, of j] index_eq_iff [of j index cs]
    by (auto simp: sl_it_is_valid_bit sl_it_unset_valid_def bit_and_iff bit_xor_iff ones32 bit_exp_iff bit_not_iff
        word_unat_eq_iff [of "j mod cs"])
  moreover have "sl_it_pair cs (sl_it_unset_valid cs t index) j = sl_it_pair cs t j"
    by (simp add: sl_it_pair_def sl_it_unset_valid_def)
  ultimately show "slot cs (sl_it_unset_valid cs t index) j = ((slot cs t)(index := None)) j"
    by (simp add: slot_def)
qed

lemma slot_set_synced:
  assumes "slot cs t index = Some (key, v)"
  shows "slot cs (it_set_synced cs now t index)
    = (slot cs t)(index \<mapsto> (key, v\<lparr>last_sync := now, packets_since_last_sync := 0\<rparr>))"
proof
  fix j
  have "sl_it_is_valid cs (it_set_synced cs now t index) j = sl_it_is_valid cs t j"
    by (simp add: sl_it_is_valid_def it_set_synced_def sl_set_value_def)
  moreover have "sl_it_pair cs (it_set_synced cs now t index) j =
      (if j = index then (key, v\<lparr>last_sync := now, packets_since_last_sync := 0\<rparr>) else sl_it_pair cs t j)"
    using assms index_eq_iff [of j index cs]
    by (auto simp: sl_it_pair_def it_set_synced_def sl_set_value_def slot_def split: if_splits)
  ultimately show "slot cs (it_set_synced cs now t index) j
      = ((slot cs t)(index \<mapsto> (key, v\<lparr>last_sync := now, packets_since_last_sync := 0\<rparr>))) j"
    using assms by (auto simp: slot_def split: if_splits)
qed

lemma set_synced_inv:
  assumes inv: "ht_inv h cs (abs_table t)" and "index div cs \<le> sl_total_mask t" and "slot cs t index = Some (key, v)"
  shows "ht_inv h cs (abs_table (it_set_synced cs now t index))"
proof -
  have cs: "chunk_size_ok cs" using inv by (simp add: ht_inv_def)
  let ?c = "index div cs" and ?i = "index mod cs"
  have v: "is_valid (chunks (abs_table t) ?c) ?i" "fst (pairs (chunks (abs_table t) ?c) ?i) = key"
    using assms(3) by (auto simp: slot_abs it_is_valid_iff [OF cs] split: if_splits)
  have "chunk_ok h cs (sl_total_mask t) ?c (chunks (abs_table t) ?c)" using inv assms(2) by (simp add: ht_inv_def)
  then have home: "h key AND sl_total_mask t = ?c" using v mod_less_cs [OF cs, of index] by (auto simp: chunk_ok_def)
  show ?thesis
    using ht_get_set_value(1) [OF inv mod_less_cs [OF cs], where key = key] v
    unfolding it_set_synced_def sl_set_value_abs abs_table_sel home by blast
qed

definition gc_ok :: "('k \<Rightarrow> u32) \<Rightarrow> u32 \<Rightarrow> u32 \<Rightarrow> ('k, fw_state_value_t) sl_table \<Rightarrow> bool" where
  "gc_ok h cs m t = (ht_inv h cs (abs_table t) \<and> unlocked t \<and> sl_total_mask t = m)"

lemma gc_ok_unlock:
  assumes "ht_inv h cs (abs_table t)" and "sl_total_mask t = m" and "\<And>d. locker (sl_chunks t d) \<Longrightarrow> d = c"
  shows "gc_ok h cs m (sl_unlock c t)"
  using assms by (auto simp: gc_ok_def unlocked_def sl_unlock_def) (metis abs_unlock sl_unlock_def)+

lemma visit_step:
  assumes ok: "gc_ok h cs m (fw_table s)" and "index div cs \<le> m"
  shows "\<exists>s'. gc_visit fw_key_of from_state_key cs now sync index s = Some s' \<and> gc_ok h cs m (fw_table s')
    \<and> slot cs (fw_table s') = (slot cs (fw_table s))(index :=
        (case slot cs (fw_table s) index of None \<Rightarrow> None | Some (key, v) \<Rightarrow> map_option (Pair key) (gc_keeps now sync v)))"
proof -
  let ?t = "fw_table s" and ?c = "index div cs"
  have inv: "ht_inv h cs (abs_table ?t)" and unl: "unlocked ?t" and m: "sl_total_mask ?t = m"
    using ok by (simp_all add: gc_ok_def)
  then have cs: "chunk_size_ok cs" by (simp add: ht_inv_def)
  obtain t1 where t1: "sl_lock ?c ?t = Some t1" "abs_table t1 = abs_table ?t" "\<And>d. locker (sl_chunks t1 d) \<longleftrightarrow> d = ?c"
    using lock_unlocked [OF unl] by blast
  have tm1: "sl_total_mask t1 = m" using t1(2) m by (metis abs_table_sel(1))
  have snap: "gc_snapshot cs index s = Some (sl_it_pair cs ?t index, s\<lparr>fw_table := sl_unlock ?c t1\<rparr>)"
    using t1(2) by (simp add: gc_snapshot_def t1(1) sl_it_pair_def) (metis abs_chunk_sel(2) abs_table_sel(3))
  have ok1: "gc_ok h cs m (sl_unlock ?c t1)" using t1 inv tm1 by (intro gc_ok_unlock) simp_all
  have slot1: "slot cs (sl_unlock ?c t1) = slot cs ?t" using t1(2) by (intro slot_cong) simp
  show ?thesis
  proof (cases "slot cs ?t index")
    case None
    then have "\<not> sl_it_is_valid cs ?t index" by (simp add: slot_def split: if_splits)
    then show ?thesis using ok1 slot1 None by (simp add: gc_visit_def snap fun_upd_idem)
  next
    case (Some kv)
    obtain key v where kv: "kv = (key, v)" by fastforce
    have valid: "sl_it_is_valid cs ?t index" and pair: "sl_it_pair cs ?t index = (key, v)"
      using Some kv by (simp_all add: slot_def split: if_splits)
    obtain t2 where t2: "sl_lock ?c (sl_unlock ?c t1) = Some t2" "abs_table t2 = abs_table (sl_unlock ?c t1)"
      "\<And>d. locker (sl_chunks t2 d) \<longleftrightarrow> d = ?c"
      using lock_unlocked [of "sl_unlock ?c t1"] ok1 unfolding gc_ok_def by blast
    have abs2: "abs_table t2 = abs_table ?t" using t2(2) t1(2) by simp
    have tm2: "sl_total_mask t2 = m" using abs2 m by (metis abs_table_sel(1))
    have slot2: "slot cs t2 = slot cs ?t" by (rule slot_cong [OF abs2])
    have inv2: "ht_inv h cs (abs_table t2)" and pos2: "index div cs \<le> sl_total_mask t2"
      using abs2 inv tm2 assms(2) by simp_all
    have visit: "gc_visit fw_key_of from_state_key cs now sync index s
        = gc_decide fw_key_of from_state_key cs now sync index (key, v) (s\<lparr>fw_table := sl_unlock ?c t1\<rparr>)"
      by (simp add: gc_visit_def snap valid pair)
    consider (old) "is_timeout now (last_seen v) (state_timeout v)"
      | (due) "\<not> is_timeout now (last_seen v) (state_timeout v)" "sync_due now sync v"
      | (keep) "\<not> is_timeout now (last_seen v) (state_timeout v)" "\<not> sync_due now sync v" by blast
    then show ?thesis
    proof cases
      case old
      have "gc_ok h cs m (sl_unlock ?c (sl_it_unset_valid cs t2 index))"
        using it_unset_valid_correct(1) [OF inv2, of index] pos2
        by (intro gc_ok_unlock) (simp_all add: sl_it_unset_valid_abs sl_it_unset_valid_locker t2(3) tm2)
      then show ?thesis using old Some kv
        by (simp add: visit gc_decide_def t2(1) gc_keeps_def slot_unlock slot_unset_valid [OF cs] slot2)
    next
      case due
      have "slot cs t2 index = Some (key, v)" using Some kv slot2 by simp
      note synced_facts = slot_set_synced [OF this] set_synced_inv [OF inv2 pos2 this]
      have "gc_ok h cs m (sl_unlock ?c (it_set_synced cs now t2 index))"
        using synced_facts(2) by (intro gc_ok_unlock)
          (simp_all add: it_set_synced_def sl_set_value_def tm2 t2(3) split: if_splits)
      then show ?thesis using due Some kv
        by (simp add: visit gc_decide_def t2(1) gc_keeps_def slot_unlock synced_facts(1) slot2 synced_def Let_def)
    next
      case keep
      have "gc_ok h cs m (sl_unlock ?c t2)" using inv2 tm2 t2(3) by (intro gc_ok_unlock) simp_all
      then show ?thesis using keep Some kv
        by (simp add: visit gc_decide_def t2(1) gc_keeps_def slot_unlock slot2 synced_def fun_upd_idem Let_def)
    qed
  qed
qed

section \<open>A whole walk\<close>

definition slot_kept :: "u32 \<Rightarrow> u32 \<Rightarrow> ('k \<times> fw_state_value_t) option \<Rightarrow> ('k \<times> fw_state_value_t) option" where
  "slot_kept now sync p = (case p of None \<Rightarrow> None | Some (key, v) \<Rightarrow> map_option (Pair key) (gc_keeps now sync v))"

lemma slot_kept_Some:
  "slot_kept now sync p = Some (key, v) \<longleftrightarrow> (\<exists>w. p = Some (key, w) \<and> gc_keeps now sync w = Some v)"
  by (cases p) (auto simp: slot_kept_def)

lemma visits_run:
  assumes "gc_ok h cs m (fw_table s)" and "\<forall>i \<in> set is. (of_nat i :: u32) div cs \<le> m"
    and "distinct (map (of_nat :: nat \<Rightarrow> u32) is)"
  shows "\<exists>s'. gc_visits fw_key_of from_state_key cs now sync is s = Some s' \<and> gc_ok h cs m (fw_table s')
    \<and> (\<forall>j. slot cs (fw_table s') j =
        (if j \<in> of_nat ` set is then slot_kept now sync (slot cs (fw_table s) j) else slot cs (fw_table s) j))"
  using assms
proof (induction "is" arbitrary: s)
  case (Cons i "is")
  obtain s1 where s1: "gc_visit fw_key_of from_state_key cs now sync (of_nat i) s = Some s1" "gc_ok h cs m (fw_table s1)"
    "slot cs (fw_table s1) = (slot cs (fw_table s))(of_nat i := slot_kept now sync (slot cs (fw_table s) (of_nat i)))"
    using visit_step [OF Cons.prems(1), of "of_nat i" fw_key_of from_state_key now sync] Cons.prems(2) unfolding slot_kept_def by auto
  obtain s' where "gc_visits fw_key_of from_state_key cs now sync is s1 = Some s'" "gc_ok h cs m (fw_table s')"
    "\<forall>j. slot cs (fw_table s') j =
        (if j \<in> of_nat ` set is then slot_kept now sync (slot cs (fw_table s1) j) else slot cs (fw_table s1) j)"
    using Cons.IH [OF s1(2)] Cons.prems by auto
  then show ?case using s1(1, 3) Cons.prems(3) by auto
qed simp

lemma walk_indices:
  assumes "chunk_size_ok cs" and "unat cs * Suc (unat m) < 2 ^ 32"
  shows "\<forall>i \<in> set [0..<unat cs * Suc (unat m)]. (of_nat i :: u32) div cs \<le> m"
    and "distinct (map (of_nat :: nat \<Rightarrow> u32) [0..<unat cs * Suc (unat m)])"
proof -
  let ?n = "unat cs * Suc (unat m)"
  have u: "unat (of_nat i :: u32) = i" if "i < ?n" for i using that assms(2) by (intro unat_of_nat_small) simp
  have "(of_nat i :: u32) div cs \<le> m" if "i < ?n" for i
    using less_mult_imp_div_less [of i "Suc (unat m)" "unat cs"] that u [OF that]
    by (simp add: word_le_nat_alt unat_div mult.commute [of "unat cs"] less_Suc_eq_le del: mult_Suc mult_Suc_right)
  then show "\<forall>i \<in> set [0..<?n]. (of_nat i :: u32) div cs \<le> m" by simp
  have "inj_on (of_nat :: nat \<Rightarrow> u32) {0..<?n}" by (rule inj_on_inverseI [where g = unat]) (simp add: u)
  then show "distinct (map (of_nat :: nat \<Rightarrow> u32) [0..<?n])" by (simp add: distinct_map)
qed

lemma walk_effect:
  assumes "ht_inv calculate_hash chunk_size (abs_table (fw_table s))" and "unlocked (fw_table s)"
    and "unat chunk_size * Suc (unat (sl_total_mask (fw_table s))) < 2 ^ 32"
  shows "\<exists>s'. gc_visits fw_key_of from_state_key chunk_size current_time sync_timeout
        [0..<unat chunk_size * Suc (unat (sl_total_mask (fw_table s)))] s = Some s'
    \<and> ht_inv calculate_hash chunk_size (abs_table (fw_table s')) \<and> unlocked (fw_table s')
    \<and> ht_get calculate_hash chunk_size (abs_table (fw_table s')) =
        (\<lambda>key. Option.bind (ht_get calculate_hash chunk_size (abs_table (fw_table s)) key) (gc_keeps current_time sync_timeout))"
proof -
  let ?m = "sl_total_mask (fw_table s)"
  let ?n = "unat chunk_size * Suc (unat ?m)"
  let ?slot = "\<lambda>s j. slot chunk_size (fw_table s) (of_nat j)"
  have cs: "chunk_size_ok chunk_size" and ok: "gc_ok calculate_hash chunk_size ?m (fw_table s)"
    using assms by (simp_all add: gc_ok_def ht_inv_def)
  obtain s' where run: "gc_visits fw_key_of from_state_key chunk_size current_time sync_timeout [0..<?n] s = Some s'"
    and ok': "gc_ok calculate_hash chunk_size ?m (fw_table s')"
    and slots: "\<forall>j < ?n. ?slot s' j = slot_kept current_time sync_timeout (?slot s j)"
    using visits_run [OF ok walk_indices [OF cs assms(3)], of fw_key_of from_state_key current_time sync_timeout] by auto
  have inv': "ht_inv calculate_hash chunk_size (abs_table (fw_table s'))" and m': "sl_total_mask (fw_table s') = ?m"
    using ok' by (simp_all add: gc_ok_def)
  have "ht_get calculate_hash chunk_size (abs_table (fw_table s')) key = Some v \<longleftrightarrow>
      Option.bind (ht_get calculate_hash chunk_size (abs_table (fw_table s)) key) (gc_keeps current_time sync_timeout) = Some v" for key v
  proof -
    have "ht_get calculate_hash chunk_size (abs_table (fw_table s')) key = Some v \<longleftrightarrow> (\<exists>j < ?n. ?slot s' j = Some (key, v))"
      using ht_get_slot [OF inv'] assms(3) unfolding m' by blast
    also have "\<dots> \<longleftrightarrow> (\<exists>j < ?n. \<exists>w. ?slot s j = Some (key, w) \<and> gc_keeps current_time sync_timeout w = Some v)"
      using slots by (auto simp: slot_kept_Some)
    also have "\<dots> \<longleftrightarrow> (\<exists>w. ht_get calculate_hash chunk_size (abs_table (fw_table s)) key = Some w \<and> gc_keeps current_time sync_timeout w = Some v)"
      using ht_get_slot [OF assms(1, 3)] by blast
    finally show ?thesis by (simp add: bind_eq_Some_conv)
  qed
  then show ?thesis using run ok' by (intro exI [of _ s'] conjI ext option_eqI) (simp_all add: gc_ok_def)
qed

text \<open>The range and the offset of a call do not depend on the table.\<close>

lemma sl_gc_range:
  assumes "unat offset < unat sz" and "unat sz + unat gc_step < 2 ^ 32"
  shows "\<exists>stats'. sl_gc cs sz t gc_step offset stats = (if unat offset + unat gc_step < unat sz
    then ((offset, offset + gc_step), offset + gc_step, stats') else ((offset, sz), 0, stats'))"
proof -
  have sum: "unat (offset + gc_step) = unat offset + unat gc_step" using assms by (simp add: unat_word_ariths)
  have "min offset sz = offset" using assms(1) by (simp add: min_def word_le_nat_alt)
  moreover have "min (offset + gc_step) sz = (if unat offset + unat gc_step < unat sz then offset + gc_step else sz)"
    by (auto simp: min_def word_le_nat_alt sum word_unat_eq_iff)
  ultimately show ?thesis by (auto simp: sl_gc_def Let_def word_le_nat_alt sum)
qed

lemma gc_visits_append:
  "gc_visits k f cs now sync (is @ js) s = Option.bind (gc_visits k f cs now sync is s) (gc_visits k f cs now sync js)"
proof (induction "is" arbitrary: s)
  case (Cons i "is")
  then show ?case by (cases "gc_visit k f cs now sync (of_nat i) s") simp_all
qed simp

fun handle_runs :: "nat \<Rightarrow> ('k fw_walk \<Rightarrow> 'k fw_walk option) \<Rightarrow> 'k fw_walk \<Rightarrow> 'k fw_walk option" where
  "handle_runs 0 handle w = Some w"
| "handle_runs (Suc n) handle w = Option.bind (handle_runs n handle w) handle"

lemma handle_runs_partial:
  assumes "unat sz + unat gc_step < 2 ^ 32" and "0 < unat gc_step" and "walk_offset w = 0"
    and "gc_visits k f cs now sync ([0..<n * unat gc_step]) (walk_gc w) \<noteq> None" and "n * unat gc_step < unat sz"
  shows "\<exists>w'. handle_runs n (handle_fw_gc k f cs sz gc_step now sync) w = Some w'
    \<and> gc_visits k f cs now sync [0..<n * unat gc_step] (walk_gc w) = Some (walk_gc w')
    \<and> unat (walk_offset w') = n * unat gc_step \<and> walk_iterations w' = walk_iterations w"
  using assms(4, 5)
proof (induction n)
  case 0
  then show ?case using assms(3) by simp
next
  case (Suc n)
  let ?a = "n * unat gc_step"
  have split: "[0..<Suc n * unat gc_step] = [0..<?a] @ [?a..<?a + unat gc_step]"
    using upt_add_eq_append [of 0 ?a "unat gc_step"] by (simp add: add.commute)
  have "gc_visits k f cs now sync [0..<?a] (walk_gc w) \<noteq> None"
    using Suc.prems(1) unfolding split gc_visits_append by (auto simp: bind_eq_None_conv)
  with Suc obtain w1 where w1: "handle_runs n (handle_fw_gc k f cs sz gc_step now sync) w = Some w1"
    "gc_visits k f cs now sync [0..<?a] (walk_gc w) = Some (walk_gc w1)" "unat (walk_offset w1) = ?a"
    "walk_iterations w1 = walk_iterations w" by auto
  obtain s' where s': "gc_visits k f cs now sync [?a..<?a + unat gc_step] (walk_gc w1) = Some s'"
    using Suc.prems(1) w1(2) unfolding split gc_visits_append by auto
  have lt: "unat (walk_offset w1) + unat gc_step < unat sz" using Suc.prems(2) w1(3) by simp
  have sum: "unat (walk_offset w1 + gc_step) = ?a + unat gc_step" using lt w1(3) assms(1) by (simp add: unat_word_ariths)
  obtain stats' where "sl_gc cs sz (fw_table (walk_gc w1)) gc_step (walk_offset w1) (walk_stats w1)
      = ((walk_offset w1, walk_offset w1 + gc_step), walk_offset w1 + gc_step, stats')"
    using sl_gc_range [OF _ assms(1), of "walk_offset w1" cs "fw_table (walk_gc w1)" "walk_stats w1"] lt by auto
  moreover have "walk_offset w1 + gc_step \<noteq> 0" using sum assms(2) by (metis add_is_0 not_gr_zero unat_0)
  ultimately have "handle_fw_gc k f cs sz gc_step now sync w1 = Some \<lparr>walk_gc = s', walk_offset = walk_offset w1 + gc_step,
      walk_stats = stats', walk_iterations = walk_iterations w1\<rparr>"
    using s' by (simp add: handle_fw_gc_def w1(3) sum)
  then show ?case using w1 s' sum unfolding split gc_visits_append by simp
qed

text \<open>
  C11: the firewall collector called often enough to go once around a table that no worker changes
  meanwhile always completes, counts one iteration, removes exactly the expired states, marks the
  states due for synchronisation as synchronised and keeps every other state unchanged.
\<close>

theorem acl_gc_walk_expires:
  assumes "ht_inv calculate_hash chunk_size (abs_table (fw_table (walk_gc w)))" and "unlocked (fw_table (walk_gc w))"
    and "unat total_size = unat chunk_size * Suc (unat (sl_total_mask (fw_table (walk_gc w))))"
    and "unat total_size + unat gc_step < 2 ^ 32" and "walk_offset w = 0"
    and "n * unat gc_step < unat total_size" and "unat total_size \<le> Suc n * unat gc_step"
  shows "\<exists>w'. handle_runs (Suc n) (handle_fw_gc fw_key_of from_state_key chunk_size total_size gc_step current_time sync_timeout) w = Some w'
    \<and> walk_offset w' = 0 \<and> walk_iterations w' = walk_iterations w + 1
    \<and> ht_inv calculate_hash chunk_size (abs_table (fw_table (walk_gc w'))) \<and> unlocked (fw_table (walk_gc w'))
    \<and> ht_get calculate_hash chunk_size (abs_table (fw_table (walk_gc w'))) =
        (\<lambda>key. Option.bind (ht_get calculate_hash chunk_size (abs_table (fw_table (walk_gc w))) key) (gc_keeps current_time sync_timeout))"
proof -
  let ?a = "n * unat gc_step" and ?visits = "gc_visits fw_key_of from_state_key chunk_size current_time sync_timeout"
  have pos: "0 < unat gc_step" using assms(6, 7) by (cases "unat gc_step") auto
  obtain s' where run: "?visits [0..<unat total_size] (walk_gc w) = Some s'"
    and s': "ht_inv calculate_hash chunk_size (abs_table (fw_table s')) \<and> unlocked (fw_table s')
      \<and> ht_get calculate_hash chunk_size (abs_table (fw_table s')) = (\<lambda>key.
        Option.bind (ht_get calculate_hash chunk_size (abs_table (fw_table (walk_gc w))) key) (gc_keeps current_time sync_timeout))"
    using walk_effect [OF assms(1, 2), of fw_key_of from_state_key current_time sync_timeout] assms(3, 4) by auto
  have split: "[0..<unat total_size] = [0..<?a] @ [?a..<unat total_size]"
    using upt_add_eq_append [of 0 ?a "unat total_size - ?a"] assms(6) by simp
  have "?visits [0..<?a] (walk_gc w) \<noteq> None" using run unfolding split gc_visits_append by (auto simp: bind_eq_Some_conv)
  from handle_runs_partial [OF assms(4) pos assms(5) this assms(6)] obtain w1 where
    w1: "handle_runs n (handle_fw_gc fw_key_of from_state_key chunk_size total_size gc_step current_time sync_timeout) w = Some w1"
      "?visits [0..<?a] (walk_gc w) = Some (walk_gc w1)" "unat (walk_offset w1) = ?a" "walk_iterations w1 = walk_iterations w"
    by blast
  have last: "?visits [?a..<unat total_size] (walk_gc w1) = Some s'"
    using run w1(2) unfolding split gc_visits_append by simp
  obtain stats' where "sl_gc chunk_size total_size (fw_table (walk_gc w1)) gc_step (walk_offset w1) (walk_stats w1)
      = ((walk_offset w1, total_size), 0, stats')"
    using sl_gc_range [OF _ assms(4), of "walk_offset w1" chunk_size "fw_table (walk_gc w1)" "walk_stats w1"] assms(6, 7) w1(3)
    by auto
  then show ?thesis using w1 last s' by (simp add: handle_fw_gc_def)
qed

section \<open>Where the collector goes wrong\<close>

lemma find_pair_slot:
  assumes inv: "ht_inv h cs (abs_table t)" and "index div cs \<le> sl_total_mask t" and "slot cs t index = Some (key, v)"
  shows "h key AND sl_total_mask t = index div cs"
    and "find_pair cs (abs_table t) (h key) (chunks (abs_table t) (index div cs)) key = Some (index mod cs)"
proof -
  have cs: "chunk_size_ok cs" using inv by (simp add: ht_inv_def)
  let ?c = "index div cs" and ?i = "index mod cs"
  have v: "is_valid (chunks (abs_table t) ?c) ?i" "fst (pairs (chunks (abs_table t) ?c) ?i) = key"
    using assms(3) by (auto simp: slot_abs it_is_valid_iff [OF cs] split: if_splits)
  have "chunk_ok h cs (sl_total_mask t) ?c (chunks (abs_table t) ?c)" using inv assms(2) by (simp add: ht_inv_def)
  then show "h key AND sl_total_mask t = ?c" using v mod_less_cs [OF cs, of index] by (auto simp: chunk_ok_def)
  show "find_pair cs (abs_table t) (h key) (chunks (abs_table t) ?c) key = Some ?i"
    using find_pair_Some [OF inv, of ?c "h key" key ?i] assms(2) v mod_less_cs [OF cs, of index] by simp
qed

lemma update_in_place:
  assumes inv: "ht_inv h cs (abs_table t)" and "index div cs \<le> sl_total_mask t" and "slot cs t index = Some (key, v)"
  shows "ht_insert_or_update h cs (abs_table t) key w = (True, set_value (abs_table t) (index div cs, index mod cs) w)"
  using find_pair_slot [OF assms] by (simp add: ht_insert_or_update_def ht_lookup_def Let_def)

text \<open>
  C35: the collector decides on a copy taken in one critical section and acts in a second one: a state
  that had expired at the copy and that a worker refreshes in between is removed all the same, and
  the refreshed value is lost.
\<close>

theorem acl_gc_drops_refreshed_state:
  assumes "ht_inv calculate_hash chunk_size (abs_table (fw_table s))" and "unlocked (fw_table s)"
    and "index div chunk_size \<le> sl_total_mask (fw_table s)"
    and "slot chunk_size (fw_table s) index = Some (key, old)"
    and "is_timeout current_time (last_seen old) (state_timeout old)"
    and "gc_snapshot chunk_size index s = Some (pair, s1)"
    and "sl_insert_or_update calculate_hash chunk_size (fw_table s1) key fresh = Some (ok, t2)"
    and "gc_decide fw_key_of from_state_key chunk_size current_time sync_timeout index pair (s1\<lparr>fw_table := t2\<rparr>) = Some s3"
  shows "ht_get calculate_hash chunk_size (abs_table t2) key = Some fresh
    \<and> ht_get calculate_hash chunk_size (abs_table (fw_table s3)) key = None"
proof -
  let ?t = "fw_table s"
  obtain t0 where t0: "sl_lock (index div chunk_size) ?t = Some t0" "pair = sl_it_pair chunk_size t0 index"
    "fw_table s1 = sl_unlock (index div chunk_size) t0"
    using assms(6) by (auto simp: gc_snapshot_def)
  note abs0 = abs_lock [OF t0(1)]
  have "slot chunk_size t0 index = Some (key, old)" using assms(4) slot_cong [OF abs0] by metis
  then have pair: "pair = (key, old)" by (simp add: t0(2) slot_def split: if_splits)
  have abs1: "abs_table (fw_table s1) = abs_table ?t" by (simp add: t0(3) abs0)
  have put: "ht_insert_or_update calculate_hash chunk_size (abs_table ?t) key fresh = (ok, abs_table t2)"
    using sl_insert_or_update_refines [where t = "fw_table s1" and key = key and val = fresh
        and calculate_hash = calculate_hash and chunk_size = chunk_size] assms(7) by (simp add: abs1)
  then have abs2: "abs_table t2 = set_value (abs_table ?t) (index div chunk_size, index mod chunk_size) fresh" and "ok"
    using update_in_place [OF assms(1, 3, 4), of fresh] by simp_all
  have inv2: "ht_inv calculate_hash chunk_size (abs_table t2)"
    and get2: "ht_get calculate_hash chunk_size (abs_table t2) key = Some fresh"
    using neighbor_map.put_law [OF assms(1) put] \<open>ok\<close> by simp_all
  have cs: "chunk_size_ok chunk_size" using inv2 by (simp add: ht_inv_def)
  have "it_is_valid chunk_size (abs_table ?t) index"
    and "fst (pairs (chunks (abs_table ?t) (index div chunk_size)) (index mod chunk_size)) = key"
    using assms(4) by (auto simp: slot_abs split: if_splits)
  then have here: "it_is_valid chunk_size (abs_table t2) index"
    "fst (pairs (chunks (abs_table t2) (index div chunk_size)) (index mod chunk_size)) = key"
    by (simp_all add: abs2 it_is_valid_iff [OF cs] set_value_def Let_def is_valid_def)
  obtain t3 where t3: "sl_lock (index div chunk_size) t2 = Some t3"
    "fw_table s3 = sl_unlock (index div chunk_size) (sl_it_unset_valid chunk_size t3 index)"
    using assms(5, 8) by (auto simp: gc_decide_def pair Let_def)
  have "total_mask (abs_table t2) = sl_total_mask ?t" by (simp add: abs2 set_value_def Let_def)
  then have "ht_get calculate_hash chunk_size (abs_table (fw_table s3)) key = None"
    using it_unset_valid_correct(2) [OF inv2, of index] here assms(3)
    by (simp add: t3(2) sl_it_unset_valid_abs abs_lock [OF t3(1)])
  with get2 show ?thesis by blast
qed

text \<open>The stack of removals only grows, and keys never change in place.\<close>

lemma lock_keys: "sl_lock c t = Some t' \<Longrightarrow> sl_it_pair cs t' j = sl_it_pair cs t j"
  by (auto simp: sl_lock_def sl_it_pair_def split: if_splits)

lemma unlock_keys: "sl_it_pair cs (sl_unlock c t) j = sl_it_pair cs t j"
  by (simp add: sl_unlock_def sl_it_pair_def)

lemma unset_keys: "sl_it_pair cs (sl_it_unset_valid cs t i) j = sl_it_pair cs t j"
  by (simp add: sl_it_unset_valid_def sl_it_pair_def)

lemma synced_keys: "fst (sl_it_pair cs (it_set_synced cs now t i) j) = fst (sl_it_pair cs t j)"
  by (simp add: it_set_synced_def sl_set_value_def sl_it_pair_def)

lemma snapshot_keys:
  assumes "gc_snapshot cs i s = Some (p, s1)"
  shows "p = sl_it_pair cs (fw_table s) i" "sl_it_pair cs (fw_table s1) j = sl_it_pair cs (fw_table s) j"
    "remove_stack s1 = remove_stack s"
  using assms by (auto simp: gc_snapshot_def unlock_keys lock_keys)

lemma decide_stacks:
  assumes "gc_decide fw_key_of from_state_key cs now sync i p s = Some s'"
  shows "set (remove_stack s) \<subseteq> set (remove_stack s')"
    and "fst (sl_it_pair cs (fw_table s') j) = fst (sl_it_pair cs (fw_table s) j)"
proof -
  obtain key v where p: "p = (key, v)" by fastforce
  obtain t where t: "sl_lock (i div cs) (fw_table s) = Some t"
    using assms by (cases "sl_lock (i div cs) (fw_table s)") (auto simp: gc_decide_def p Let_def split: if_splits)
  note keys = unlock_keys unset_keys synced_keys lock_keys [OF t, of cs]
  show "set (remove_stack s) \<subseteq> set (remove_stack s')"
    using assms by (auto simp: gc_decide_def p Let_def t split: if_splits)
  show "fst (sl_it_pair cs (fw_table s') j) = fst (sl_it_pair cs (fw_table s) j)"
    using assms by (auto simp: gc_decide_def p Let_def t keys split: if_splits)
qed

lemma visit_stacks:
  assumes "gc_visit fw_key_of from_state_key cs now sync i s = Some s'"
  shows "set (remove_stack s) \<subseteq> set (remove_stack s')"
    and "fst (sl_it_pair cs (fw_table s') j) = fst (sl_it_pair cs (fw_table s) j)"
    and "slot cs (fw_table s) i = None \<Longrightarrow> fw_key_of (fst (sl_it_pair cs (fw_table s) i)) \<in> set (remove_stack s')"
proof -
  obtain p s1 where snap: "gc_snapshot cs i s = Some (p, s1)"
    using assms by (cases "gc_snapshot cs i s") (auto simp: gc_visit_def split: if_splits)
  note facts = snapshot_keys [OF snap]
  show "set (remove_stack s) \<subseteq> set (remove_stack s')"
    and "fst (sl_it_pair cs (fw_table s') j) = fst (sl_it_pair cs (fw_table s) j)"
    and "slot cs (fw_table s) i = None \<Longrightarrow> fw_key_of (fst (sl_it_pair cs (fw_table s) i)) \<in> set (remove_stack s')"
    using assms decide_stacks [of fw_key_of from_state_key cs now sync i p s1 s'] facts
    by (auto simp: gc_visit_def snap slot_def split: if_splits)
qed

lemma visits_stacks:
  assumes "gc_visits fw_key_of from_state_key cs now sync is s = Some s'" and "gc_ok h cs m (fw_table s)"
    and "\<forall>i \<in> set is. (of_nat i :: u32) div cs \<le> m"
  shows "set (remove_stack s) \<subseteq> set (remove_stack s') \<and>
    (\<forall>i \<in> set is. slot cs (fw_table s) (of_nat i) = None \<longrightarrow>
      fw_key_of (fst (sl_it_pair cs (fw_table s) (of_nat i))) \<in> set (remove_stack s'))"
  using assms
proof (induction "is" arbitrary: s)
  case (Cons i "is")
  obtain s1 where s1: "gc_visit fw_key_of from_state_key cs now sync (of_nat i) s = Some s1"
    and rest: "gc_visits fw_key_of from_state_key cs now sync is s1 = Some s'"
    using Cons.prems(1) by (auto simp: bind_eq_Some_conv)
  have ok1: "gc_ok h cs m (fw_table s1)" and slots: "slot cs (fw_table s) j = None \<Longrightarrow> slot cs (fw_table s1) j = None" for j
    using visit_step [OF Cons.prems(2), of "of_nat i" fw_key_of from_state_key now sync] Cons.prems(3) s1 by auto
  note stacks = visit_stacks [OF s1]
  show ?case
    using Cons.IH [OF rest ok1] Cons.prems(3) stacks(1, 3) slots stacks(2) by (auto 4 3)
qed simp

lemma erase_all: "key \<in> set ks \<Longrightarrow> fold (\<lambda>key m. m(key := None)) ks m key = None"
  by (induction ks rule: rev_induct) auto

text \<open>
  C36: the view shown to operators loses live states: the collector also reports the key left behind
  in an invalid pair as removed, and removals are applied last, so after a complete walk a state of
  the table whose key is also left behind in another pair is missing from the view.
\<close>

theorem acl_view_loses_live_state:
  assumes "ht_inv calculate_hash chunk_size (abs_table (fw_table s))" and "unlocked (fw_table s)"
    and "unat chunk_size * Suc (unat (sl_total_mask (fw_table s))) < 2 ^ 32"
    and "j < unat chunk_size * Suc (unat (sl_total_mask (fw_table s)))"
    and "slot chunk_size (fw_table s) (of_nat j) = None" and "fst (sl_it_pair chunk_size (fw_table s) (of_nat j)) = key"
    and "gc_visits fw_key_of from_state_key chunk_size current_time sync_timeout
        [0..<unat chunk_size * Suc (unat (sl_total_mask (fw_table s)))] s = Some s'"
    and "ht_get calculate_hash chunk_size (abs_table (fw_table s)) key = Some v"
    and "\<not> is_timeout current_time (last_seen v) (state_timeout v)"
  shows "ht_get calculate_hash chunk_size (abs_table (fw_table s')) key = Some (synced current_time sync_timeout v)
    \<and> update_fw_state s' fw_state (fw_key_of key) = None"
proof -
  have cs: "chunk_size_ok chunk_size" and ok: "gc_ok calculate_hash chunk_size (sl_total_mask (fw_table s)) (fw_table s)"
    using assms(1, 2) by (simp_all add: gc_ok_def ht_inv_def)
  have "fw_key_of key \<in> set (remove_stack s')"
    using visits_stacks [OF assms(7) ok walk_indices(1) [OF cs assms(3)]] assms(4-6) by auto
  then have "update_fw_state s' fw_state (fw_key_of key) = None" by (simp add: update_fw_state_def erase_all)
  moreover have "ht_get calculate_hash chunk_size (abs_table (fw_table s')) key = Some (synced current_time sync_timeout v)"
    using walk_effect [OF assms(1-3), of fw_key_of from_state_key current_time sync_timeout] assms(7-9)
    by (auto simp: gc_keeps_def)
  ultimately show ?thesis by blast
qed

text \<open>
  The age of a state is a 32-bit difference, so the time-out test is exact for time stamps that
  are not in the future of the collector's clock, and declares every state stamped after that clock
  expired unless its time-out is close to the maximum.
\<close>

lemma is_timeout_exact_unless_future:
  "(if timestamp \<le> current_time
    then is_timeout current_time timestamp timeout \<longleftrightarrow> unat timeout < unat current_time - unat timestamp
    else is_timeout current_time timestamp timeout \<longleftrightarrow> unat timeout + (unat timestamp - unat current_time) < 2 ^ 32)"
proof (cases "timestamp \<le> current_time")
  case True
  then have "unat (current_time - timestamp) = unat current_time - unat timestamp" by (rule unat_sub)
  with True show ?thesis by (simp add: is_timeout_def word_less_nat_alt)
next
  case False
  then have gt: "unat current_time < unat timestamp" by (simp add: word_le_nat_alt)
  have "unat (current_time - timestamp) = 2 ^ 32 - (unat timestamp - unat current_time)"
    using gt unsigned_less [of timestamp, where ?'a = nat] by (simp add: unat_sub_if_size size_word.rep_eq)
  with False show ?thesis using gt by (simp add: is_timeout_def word_less_nat_alt) arith
qed

section \<open>Examples\<close>

definition example_value :: "u32 \<Rightarrow> fw_state_value_t" where
  "example_value seen = \<lparr>fw_type = Udp, owner = 0, src_flags = 0, dst_flags = 0, last_seen = seen, state_timeout = 30,
     last_sync = 0, packets_since_last_sync = 1, packets_backward = 0, packets_forward = 1, acl_id = 0\<rparr>"

definition example_key :: "u16 \<Rightarrow> fw4_state_key_t" where
  "example_key port = \<lparr>k4_proto = 17, k4_src_addr = 1, k4_dst_addr = 2, k4_src_port = port, k4_dst_port = 53\<rparr>"

definition example_fw_hash :: "fw4_state_key_t \<Rightarrow> u32" where
  "example_fw_hash key = 0"

definition example_fw_empty :: "(fw4_state_key_t, fw_state_value_t) sl_table" where
  "example_fw_empty = sl_clear (sl_update_pointer 2 2 \<lparr>sl_total_mask = 0, sl_total_shift = 0,
     sl_chunks = (\<lambda>_. \<lparr>locker = False, sl_valid_mask = 0, sl_pairs = (\<lambda>_. (example_key 0, example_value 0))\<rparr>)\<rparr>)"

definition example_put :: "u16 \<Rightarrow> u32 \<Rightarrow> (fw4_state_key_t, fw_state_value_t) sl_table \<Rightarrow> (fw4_state_key_t, fw_state_value_t) sl_table" where
  "example_put port seen t =
     (case sl_insert_or_update example_fw_hash 2 t (example_key port) (example_value seen) of Some (_, t) \<Rightarrow> t | None \<Rightarrow> t)"

definition example_gc :: "(fw4_state_key_t, fw_state_value_t) sl_table \<Rightarrow> fw4_state_key_t acl_gc" where
  "example_gc t = \<lparr>fw_table = t, insert_stack = [], remove_stack = [], sync_events = [], valid_keys = 0\<rparr>"

text \<open>A state of age 100, for a time-out of 30.\<close>

definition example_expired :: "fw4_state_key_t acl_gc" where
  "example_expired = example_gc (example_put 7 900 example_fw_empty)"

lemma example_put_ok:
  assumes "ht_inv example_fw_hash 2 (abs_table t)" and "unlocked t"
  shows "ht_inv example_fw_hash 2 (abs_table (example_put port seen t))" and "unlocked (example_put port seen t)"
proof -
  have free: "\<not> locker (sl_chunks t c)" for c using assms(2) by (simp add: unlocked_def)
  obtain ok t' where r: "sl_insert_or_update example_fw_hash 2 t (example_key port) (example_value seen) = Some (ok, t')"
    using free by (cases "sl_insert_or_update example_fw_hash 2 t (example_key port) (example_value seen)")
      (auto simp: sl_insert_or_update_def sl_lookup_def sl_lock_def Let_def)
  with sl_insert_or_update_refines [where t = t and key = "example_key port" and val = "example_value seen"
      and calculate_hash = example_fw_hash and chunk_size = 2]
  have "ht_insert_or_update example_fw_hash 2 (abs_table t) (example_key port) (example_value seen) = (ok, abs_table t')"
    and "(\<lambda>c. locker (sl_chunks t' c)) = (\<lambda>c. locker (sl_chunks t c))" by simp_all
  with r free neighbor_map.put_law [OF assms(1) this(1)]
  show "ht_inv example_fw_hash 2 (abs_table (example_put port seen t))" and "unlocked (example_put port seen t)"
    by (auto simp: example_put_def unlocked_def dest: fun_cong)
qed

lemma example_fw_empty_ok: "ht_inv example_fw_hash 2 (abs_table example_fw_empty)" "unlocked example_fw_empty"
proof -
  show "ht_inv example_fw_hash 2 (abs_table example_fw_empty)"
    unfolding example_fw_empty_def abs_clear by (rule ht_clear_get) (simp add: chunk_size_ok_def)
  show "unlocked example_fw_empty"
    by (simp add: unlocked_def example_fw_empty_def sl_clear_def sl_update_pointer_def)
qed

lemma example_expired_ok:
  "ht_inv example_fw_hash 2 (abs_table (fw_table example_expired))" "unlocked (fw_table example_expired)"
  using example_put_ok [OF example_fw_empty_ok] by (simp_all add: example_expired_def example_gc_def)

definition example_walk :: "'k acl_gc \<Rightarrow> 'k fw_walk" where
  "example_walk s = \<lparr>walk_gc = s, walk_offset = 0,
     walk_stats = \<lparr>gen_id = 0, generations = (\<lambda>_. ht_stats_zero), requests = []\<rparr>, walk_iterations = 0\<rparr>"

theorem acl_gc_walk_expires_witness:
  "\<exists>w'. handle_runs (Suc 1) (handle_fw_gc fw_key4 from_state_key4 2 2 1 1000 10) (example_walk example_expired) = Some w'
    \<and> ht_get example_fw_hash 2 (abs_table (fw_table (walk_gc w'))) (example_key 7) = None
    \<and> ht_get example_fw_hash 2 (abs_table (fw_table example_expired)) (example_key 7) = Some (example_value 900)"
proof -
  have m: "sl_total_mask (fw_table example_expired) = 0" by code_simp
  have get: "ht_get example_fw_hash 2 (abs_table (fw_table example_expired)) (example_key 7) = Some (example_value 900)"
    by code_simp
  have "gc_keeps 1000 10 (example_value 900) = None" by code_simp
  with acl_gc_walk_expires [of example_fw_hash 2 "example_walk example_expired" 2 1 1 fw_key4 from_state_key4 1000 10]
    get example_expired_ok show ?thesis by (auto simp: m example_walk_def)
qed

theorem acl_gc_drops_refreshed_state_witness:
  "\<exists>pair s1 t2 s3. gc_snapshot 2 0 example_expired = Some (pair, s1)
    \<and> sl_insert_or_update example_fw_hash 2 (fw_table s1) (example_key 7) (example_value 1000) = Some (True, t2)
    \<and> gc_decide fw_key4 from_state_key4 2 1000 10 0 pair (s1\<lparr>fw_table := t2\<rparr>) = Some s3
    \<and> \<not> is_timeout 1000 (last_seen (example_value 1000)) (state_timeout (example_value 1000))
    \<and> ht_get example_fw_hash 2 (abs_table t2) (example_key 7) = Some (example_value 1000)
    \<and> ht_get example_fw_hash 2 (abs_table (fw_table s3)) (example_key 7) = None"
proof -
  let ?snap = "gc_snapshot 2 0 example_expired"
  let ?put = "\<lambda>s1. sl_insert_or_update example_fw_hash 2 (fw_table s1) (example_key 7) (example_value 1000)"
  let ?dec = "\<lambda>pair s1 t2. gc_decide fw_key4 from_state_key4 2 1000 10 0 pair (s1\<lparr>fw_table := t2\<rparr>)"
  have "case ?snap of None \<Rightarrow> False | Some (pair, s1) \<Rightarrow>
      (case ?put s1 of None \<Rightarrow> False | Some (ok, t2) \<Rightarrow> ok \<and> ?dec pair s1 t2 \<noteq> None)" by code_simp
  then obtain pair s1 t2 s3 where run: "?snap = Some (pair, s1)" "?put s1 = Some (True, t2)" "?dec pair s1 t2 = Some s3"
    by (auto split: option.splits)
  have "slot 2 (fw_table example_expired) 0 = Some (example_key 7, example_value 900)" by code_simp
  moreover have "is_timeout 1000 (last_seen (example_value 900)) (state_timeout (example_value 900))" by code_simp
  moreover have "\<not> is_timeout 1000 (last_seen (example_value 1000)) (state_timeout (example_value 1000))" by code_simp
  moreover have "(0 :: u32) div 2 \<le> sl_total_mask (fw_table example_expired)" by simp
  ultimately show ?thesis
    using acl_gc_drops_refreshed_state [OF example_expired_ok _ _ _ run] run by blast
qed

text \<open>
  Two states share a chunk; both are removed and the second one returns, now to the first pair, while
  its old pair keeps the key.
\<close>

definition example_stale :: "(fw4_state_key_t, fw_state_value_t) sl_table" where
  "example_stale = \<lparr>sl_total_mask = 0, sl_total_shift = 0,
     sl_chunks = (\<lambda>_. \<lparr>locker = False, sl_valid_mask = 1,
       sl_pairs = (\<lambda>i. (example_key 9, example_value (if i = 0 then 1000 else 990)))\<rparr>)\<rparr>"

lemma example_stale_ok: "ht_inv example_fw_hash 2 (abs_table example_stale)" "unlocked example_stale"
proof -
  have "mask_ok 2 (chunks (abs_table example_stale) 0)"
    by (rule mask_okI) (auto simp: example_stale_def bit_1_iff)
  moreover have "is_valid (chunks (abs_table example_stale) 0) i \<Longrightarrow> i = 0" for i
    by (simp add: is_valid_iff example_stale_def bit_1_iff unat_eq_0)
  ultimately have "chunk_ok example_fw_hash 2 0 0 (chunks (abs_table example_stale) 0)"
    by (auto simp: chunk_ok_def)
  then show "ht_inv example_fw_hash 2 (abs_table example_stale)"
    by (simp add: ht_inv_def chunk_size_ok_def) (simp add: example_stale_def)
  show "unlocked example_stale" by (simp add: unlocked_def example_stale_def)
qed

theorem acl_view_loses_live_state_witness:
  "\<exists>s'. gc_visits fw_key4 from_state_key4 2 1000 10 [0..<2] (example_gc example_stale) = Some s'
    \<and> ht_get example_fw_hash 2 (abs_table (fw_table s')) (example_key 9) \<noteq> None
    \<and> update_fw_state s' (\<lambda>_. None) (fw_key4 (example_key 9)) = None"
proof -
  let ?s = "example_gc example_stale"
  have inv: "ht_inv example_fw_hash 2 (abs_table (fw_table ?s))" "unlocked (fw_table ?s)"
    using example_stale_ok by (simp_all add: example_gc_def)
  have m: "sl_total_mask (fw_table ?s) = 0" by (simp add: example_gc_def example_stale_def)
  have get: "ht_get example_fw_hash 2 (abs_table (fw_table ?s)) (example_key 9) = Some (example_value 1000)" by code_simp
  have young: "\<not> is_timeout 1000 (last_seen (example_value 1000)) (state_timeout (example_value 1000))" by code_simp
  have j: "slot 2 (fw_table ?s) (of_nat 1) = None" "fst (sl_it_pair 2 (fw_table ?s) (of_nat 1)) = example_key 9"
    by code_simp+
  have "\<forall>i \<in> set [0..<2]. (of_nat i :: u32) div 2 \<le> 0" by code_simp
  moreover have "distinct (map (of_nat :: nat \<Rightarrow> u32) [0..<2])" by code_simp
  ultimately obtain s' where run: "gc_visits fw_key4 from_state_key4 2 1000 10 [0..<2] ?s = Some s'"
    using visits_run [of example_fw_hash 2 0 ?s "[0..<2]" fw_key4 from_state_key4 1000 10] inv m by (auto simp: gc_ok_def)
  from acl_view_loses_live_state [OF inv _ _ j _ get young, of fw_key4 from_state_key4 10 s' "\<lambda>_. None"] run m
  show ?thesis by simp
qed

end
