(* ===== verification/HashtableId32.thy ===== *)
theory HashtableId32
  imports Prelude
begin

text \<open>
  The read-only hash table \<^verbatim>\<open>hashtable_mod_id32_dynamic\<close> of
  \<^verbatim>\<open>src/dataplane/hashtable_mod_id32_dynamic.h\<close>: open addressing with at most \<^verbatim>\<open>chunk_size\<close> probes, 32-bit
  values in which one bit says that the slot is occupied, and the slots in an array of pointers to
  memory chunks.  The template parameters are the record \<open>id32_params\<close>.  A chunk is a function from
  the index in it; the theorem on the indices shows that only existing slots are read and written.
\<close>

section \<open>The table\<close>

record 'k id32_params =
  id32_chunk_size :: u32
  valid_bit_offset :: nat
  id32_hash :: "'k \<Rightarrow> u32"

record 'k id32_pair =
  pair_key :: 'k
  pair_value :: u32

record 'k id32_table =
  id32_total_mask :: u32
  table_pairs_size :: u32
  id32_ppc_shift :: nat
  id32_ppc_mask :: u32
  id32_num_chunks :: u32
  id32_chunks :: "u32 \<Rightarrow> u32 \<Rightarrow> 'k id32_pair"

record id32_stats =
  pairs_count :: u32
  pairs_size :: u32
  pairs_in_chunks :: "nat \<Rightarrow> u32"
  id32_longest_chain :: u32
  insert_failed :: u64
  stat_rewrites :: u64

definition is_power_of_two :: "u32 \<Rightarrow> bool" where
  "is_power_of_two n \<longleftrightarrow> n > 0 \<and> n AND (n - 1) = 0"

definition pairs_size_min :: u32 where
  "pairs_size_min = 128"

text \<open>\<^verbatim>\<open>calculate_sizeof\<close>, with \<^verbatim>\<open>sizeof(hashtable_t)\<close> as an argument.\<close>

definition id32_calculate_sizeof :: "u64 \<Rightarrow> u32 \<Rightarrow> u64" where
  "id32_calculate_sizeof sizeof_table sz =
     (if sz = 0 then 0 else if \<not> is_power_of_two sz then 0 else sizeof_table)"

text \<open>The constructor followed by \<^verbatim>\<open>attach_chunks\<close>.\<close>

definition id32_create :: "u32 \<Rightarrow> nat \<Rightarrow> (u32 \<Rightarrow> u32 \<Rightarrow> 'k id32_pair) \<Rightarrow> 'k id32_table" where
  "id32_create sz shift chunks =
     (let ppc_mask = push_bit shift 1 - 1
      in \<lparr>id32_total_mask = sz - 1, table_pairs_size = sz, id32_ppc_shift = shift, id32_ppc_mask = ppc_mask,
         id32_num_chunks = drop_bit shift (sz + ppc_mask), id32_chunks = chunks\<rparr>)"

definition pairs_per_chunk :: "'k id32_table \<Rightarrow> u32" where
  "pairs_per_chunk t = push_bit (id32_ppc_shift t) 1"

definition get_pair :: "'k id32_table \<Rightarrow> u32 \<Rightarrow> 'k id32_pair" where
  "get_pair t index = id32_chunks t (drop_bit (id32_ppc_shift t) index) (index AND id32_ppc_mask t)"

definition set_pair :: "u32 \<Rightarrow> 'k id32_pair \<Rightarrow> 'k id32_table \<Rightarrow> 'k id32_table" where
  "set_pair index p t =
     (let chunk_id = drop_bit (id32_ppc_shift t) index
      in t\<lparr>id32_chunks := (id32_chunks t)(chunk_id := (id32_chunks t chunk_id)(index AND id32_ppc_mask t := p))\<rparr>)"

definition id32_is_equal :: "'k id32_table \<Rightarrow> u32 \<Rightarrow> 'k \<Rightarrow> bool" where
  "id32_is_equal t index key \<longleftrightarrow> pair_key (get_pair t index) = key"

definition validity_mask :: "'k id32_params \<Rightarrow> u32" where
  "validity_mask P = push_bit (32 - valid_bit_offset P - 1) 1"

definition id32_is_valid :: "'k id32_params \<Rightarrow> u32 \<Rightarrow> bool" where
  "id32_is_valid P v \<longleftrightarrow> v AND validity_mask P \<noteq> 0"

definition set_valid_flag :: "'k id32_params \<Rightarrow> u32 \<Rightarrow> u32" where
  "set_valid_flag P v = v OR validity_mask P"

definition clear_valid_flag :: "'k id32_params \<Rightarrow> u32 \<Rightarrow> u32" where
  "clear_valid_flag P v = v AND NOT (validity_mask P)"

section \<open>Operations\<close>

text \<open>The probing loop of \<^verbatim>\<open>insert\<close>, over the values of \<^verbatim>\<open>try_i\<close> that are left.\<close>

fun id32_insert_loop ::
  "'k id32_params \<Rightarrow> u32 \<Rightarrow> 'k \<Rightarrow> u32 \<Rightarrow> u32 list \<Rightarrow> id32_stats \<times> 'k id32_table \<Rightarrow> eResult \<times> id32_stats \<times> 'k id32_table" where
  "id32_insert_loop P hash key v [] (s, t) = (isFull, s\<lparr>insert_failed := insert_failed s + 1\<rparr>, t)"
| "id32_insert_loop P hash key v (try_i # tries) (s, t) =
     (let index = (hash + try_i) AND id32_total_mask t;
          p = get_pair t index
      in if \<not> id32_is_valid P (pair_value p) then
           (success,
            s\<lparr>pairs_count := pairs_count s + 1, id32_longest_chain := max (id32_longest_chain s) (try_i + 1)\<rparr>,
            set_pair index \<lparr>pair_key = key, pair_value = set_valid_flag P v\<rparr> t)
         else if id32_is_equal t index key then
           (success, s\<lparr>stat_rewrites := stat_rewrites s + 1\<rparr>,
            set_pair index (p\<lparr>pair_value := set_valid_flag P v\<rparr>) t)
         else id32_insert_loop P hash key v tries (s, t))"

definition u32_upto :: "u32 \<Rightarrow> u32 \<Rightarrow> u32 list" where
  "u32_upto a b = map of_nat [unat a..<unat b]"

definition id32_insert :: "'k id32_params \<Rightarrow> 'k \<Rightarrow> u32 \<Rightarrow> id32_stats \<times> 'k id32_table \<Rightarrow> eResult \<times> id32_stats \<times> 'k id32_table" where
  "id32_insert P key v st =
     (let hash = id32_hash P key AND id32_total_mask (snd st)
      in id32_insert_loop P hash key v (u32_upto 0 (id32_chunk_size P)) st)"

definition zero_stats :: id32_stats where
  "zero_stats = \<lparr>pairs_count = 0, pairs_size = 0, pairs_in_chunks = (\<lambda>_. 0), id32_longest_chain = 0,
     insert_failed = 0, stat_rewrites = 0\<rparr>"

text \<open>The number of occupied slots of one group of \<^verbatim>\<open>chunk_size\<close> slots, for the statistics.\<close>

definition count_chunk :: "'k id32_params \<Rightarrow> 'k id32_table \<Rightarrow> u32 \<Rightarrow> nat" where
  "count_chunk P t chunk_i =
     length (filter (\<lambda>pair_i. id32_is_valid P (pair_value (get_pair t (chunk_i * id32_chunk_size P + pair_i))))
       (u32_upto 0 (id32_chunk_size P)))"

definition id32_fill :: "'k id32_params \<Rightarrow> ('k \<times> u32) list \<Rightarrow> 'k id32_table \<Rightarrow> eResult \<times> id32_stats \<times> 'k id32_table" where
  "id32_fill P data t =
     (let (result, s, t) =
        fold (\<lambda>(key, v) (result, st).
            let (insert_result, st) = id32_insert P key v st
            in (if insert_result \<noteq> success then insert_result else result, st))
          data (success, zero_stats, t);
        s = s\<lparr>pairs_size := table_pairs_size t\<rparr>;
        s = fold (\<lambda>chunk_i s. s\<lparr>pairs_in_chunks := (pairs_in_chunks s)(count_chunk P t chunk_i :=
                pairs_in_chunks s (count_chunk P t chunk_i) + 1)\<rparr>)
          (u32_upto 0 (pairs_size s div id32_chunk_size P)) s
      in (result, s, t))"

text \<open>The loop over \<^verbatim>\<open>try_i\<close> of \<^verbatim>\<open>lookup\<close>: the final value and whether the key was found.\<close>

fun id32_probe :: "'k id32_params \<Rightarrow> 'k id32_table \<Rightarrow> u32 \<Rightarrow> 'k \<Rightarrow> u32 \<Rightarrow> u32 list \<Rightarrow> bool \<times> u32" where
  "id32_probe P t hash key v [] = (False, v)"
| "id32_probe P t hash key v (try_i # tries) =
     (let index = (hash + try_i) AND id32_total_mask t;
          probed_value = pair_value (get_pair t index)
      in if \<not> id32_is_valid P probed_value then (False, v)
         else if id32_is_equal t index key then (True, clear_valid_flag P probed_value)
         else id32_probe P t hash key v tries)"

definition id32_first_check :: "'k id32_params \<Rightarrow> 'k id32_table \<Rightarrow> u32 \<Rightarrow> 'k \<Rightarrow> bool \<times> u32" where
  "id32_first_check P t hash key =
     (let v = pair_value (get_pair t hash)
      in if id32_is_valid P v \<and> id32_is_equal t hash key then (True, clear_valid_flag P v)
         else (False, set_valid_flag P v))"

text \<open>
  \<^verbatim>\<open>lookup\<close> on the first \<^verbatim>\<open>count\<close> keys of a burst: the hashes, the values and the mask.  The three loops
  treat the positions of the burst independently; bit \<open>i\<close> of \<^verbatim>\<open>success_mask\<close> is the flag at position \<open>i\<close>.
\<close>

definition id32_lookup :: "'k id32_params \<Rightarrow> nat \<Rightarrow> 'k id32_table \<Rightarrow> 'k list \<Rightarrow> u32 list \<times> u32 list \<times> u32" where
  "id32_lookup P burst_size t keys =
     (let hashes = map (\<lambda>key. id32_hash P key AND id32_total_mask t) keys;
          first = map2 (id32_first_check P t) hashes keys;
          to_ulong = horner_sum of_bool 2
      in if id32_chunk_size P = 1 then (hashes, map snd first, to_ulong (map fst first))
         else if length keys = burst_size \<and> list_all fst first
         then (hashes, map snd first, to_ulong (map fst first))
         else let final = map2 (\<lambda>(hash, key) (found, v).
                  if found then (found, v) else id32_probe P t hash key v (u32_upto 1 (id32_chunk_size P)))
                (zip hashes keys) first
              in (hashes, map snd final, to_ulong (map fst final)))"

section \<open>Slots\<close>

definition params_ok :: "'k id32_params \<Rightarrow> bool" where
  "params_ok P \<longleftrightarrow> is_power_of_two (id32_chunk_size P) \<and> valid_bit_offset P < 32"

definition layout_ok :: "'k id32_table \<Rightarrow> bool" where
  "layout_ok t \<longleftrightarrow> id32_ppc_mask t = mask (id32_ppc_shift t)"

lemma split_index: "drop_bit n i = drop_bit n j \<and> i AND mask n = j AND mask n \<longleftrightarrow> i = j" for i j :: "'a::len word"
proof
  assume "drop_bit n i = drop_bit n j \<and> i AND mask n = j AND mask n"
  then have "push_bit n (drop_bit n i) + take_bit n i = push_bit n (drop_bit n j) + take_bit n j"
    by (simp add: take_bit_eq_mask)
  then show "i = j" by (simp only: bits_ident)
qed simp

lemma get_set_pair: "layout_ok t \<Longrightarrow> get_pair (set_pair i p t) j = (if i = j then p else get_pair t j)"
  using split_index [of "id32_ppc_shift t" i j]
  by (auto simp: get_pair_def set_pair_def layout_ok_def Let_def)

lemma set_pair_fields [simp]: "id32_total_mask (set_pair i p t) = id32_total_mask t"
  "layout_ok (set_pair i p t) = layout_ok t" "table_pairs_size (set_pair i p t) = table_pairs_size t"
  by (simp_all add: set_pair_def layout_ok_def Let_def)

lemma valid_flag:
  assumes "params_ok P"
  shows "id32_is_valid P (set_valid_flag P v)" and "\<not> id32_is_valid P (clear_valid_flag P v)"
    and "clear_valid_flag P (set_valid_flag P v) = clear_valid_flag P v"
proof -
  obtain n where n: "n < 32" "validity_mask P = 2 ^ n"
    using assms by (auto simp: params_ok_def validity_mask_def push_bit_eq_mult intro!: that [of "31 - valid_bit_offset P"])
  show "id32_is_valid P (set_valid_flag P v)" "\<not> id32_is_valid P (clear_valid_flag P v)"
    "clear_valid_flag P (set_valid_flag P v) = clear_valid_flag P v"
    using n by (auto simp: id32_is_valid_def set_valid_flag_def clear_valid_flag_def and_exp_eq_0_iff_not_bit
        bit_or_iff bit_and_iff bit_not_iff bit_exp_iff intro!: bit_word_eqI)
qed

text \<open>The slot that holds probe number \<open>d\<close> for a key, and when the probing stops there.\<close>

definition probe_index :: "'k id32_params \<Rightarrow> 'k id32_table \<Rightarrow> 'k \<Rightarrow> nat \<Rightarrow> u32" where
  "probe_index P t key d = ((id32_hash P key AND id32_total_mask t) + of_nat d) AND id32_total_mask t"

definition occupied :: "'k id32_params \<Rightarrow> 'k id32_table \<Rightarrow> u32 \<Rightarrow> bool" where
  "occupied P t i \<longleftrightarrow> id32_is_valid P (pair_value (get_pair t i))"

definition stops :: "'k id32_params \<Rightarrow> 'k id32_table \<Rightarrow> 'k \<Rightarrow> nat \<Rightarrow> bool" where
  "stops P t key d \<longleftrightarrow> \<not> occupied P t (probe_index P t key d) \<or> pair_key (get_pair t (probe_index P t key d)) = key"

lemma probe_index_0 [simp]: "probe_index P t key 0 = id32_hash P key AND id32_total_mask t"
  by (simp add: probe_index_def and.assoc)

lemma probe_index_masked [simp]: "probe_index P t key d AND id32_total_mask t = probe_index P t key d"
  by (simp add: probe_index_def and.assoc)

lemma probe_index_set [simp]: "probe_index P (set_pair i p t) = probe_index P t"
  by (simp add: probe_index_def fun_eq_iff)

lemma pair_value_update: "pair_key p = key \<Longrightarrow> p\<lparr>pair_value := w\<rparr> = \<lparr>pair_key = key, pair_value = w\<rparr>"
  for p :: "'k id32_pair"
  by (cases p) simp

lemma id32_insert_loop_find:
  "id32_insert_loop P (id32_hash P key AND id32_total_mask t) key v (map of_nat ds) (s, t) =
     (case List.find (stops P t key) ds of
        None \<Rightarrow> (isFull, s\<lparr>insert_failed := insert_failed s + 1\<rparr>, t)
      | Some d \<Rightarrow> (success,
          if occupied P t (probe_index P t key d) then s\<lparr>stat_rewrites := stat_rewrites s + 1\<rparr>
          else s\<lparr>pairs_count := pairs_count s + 1, id32_longest_chain := max (id32_longest_chain s) (of_nat d + 1)\<rparr>,
          set_pair (probe_index P t key d) \<lparr>pair_key = key, pair_value = set_valid_flag P v\<rparr> t))"
  by (induction ds) (auto simp: Let_def stops_def occupied_def probe_index_def id32_is_equal_def pair_value_update)

lemma id32_probe_find:
  "id32_probe P t (id32_hash P key AND id32_total_mask t) key v (map of_nat ds) =
     (case List.find (stops P t key) ds of
        None \<Rightarrow> (False, v)
      | Some d \<Rightarrow> if occupied P t (probe_index P t key d)
          then (True, clear_valid_flag P (pair_value (get_pair t (probe_index P t key d)))) else (False, v))"
  by (induction ds) (auto simp: Let_def stops_def occupied_def probe_index_def id32_is_equal_def)

section \<open>The table as a map\<close>

definition id32_get :: "'k id32_params \<Rightarrow> 'k id32_table \<Rightarrow> 'k \<Rightarrow> u32 option" where
  "id32_get P t key =
     (case List.find (stops P t key) [0..<unat (id32_chunk_size P)] of
        None \<Rightarrow> None
      | Some d \<Rightarrow> if occupied P t (probe_index P t key d)
          then Some (clear_valid_flag P (pair_value (get_pair t (probe_index P t key d)))) else None)"

text \<open>Every occupied slot is on the probe sequence of its key, and the probing does not stop before it.\<close>

definition id32_inv :: "'k id32_params \<Rightarrow> 'k id32_table \<Rightarrow> bool" where
  "id32_inv P t \<longleftrightarrow> layout_ok t \<and>
     (\<forall>i. i AND id32_total_mask t = i \<longrightarrow> occupied P t i \<longrightarrow>
        (\<exists>d < unat (id32_chunk_size P). i = probe_index P t (pair_key (get_pair t i)) d \<and>
           (\<forall>e < d. \<not> stops P t (pair_key (get_pair t i)) e)))"

lemma find_upt_Some: "List.find Q [0..<n] = Some d \<longleftrightarrow> d < n \<and> Q d \<and> (\<forall>e < d. \<not> Q e)"
  by (auto simp: find_Some_iff)

lemma id32_get_iff:
  assumes "id32_inv P t"
  shows "id32_get P t key = Some v \<longleftrightarrow>
    (\<exists>i. i AND id32_total_mask t = i \<and> occupied P t i \<and> pair_key (get_pair t i) = key \<and>
      v = clear_valid_flag P (pair_value (get_pair t i)))"
proof
  assume "id32_get P t key = Some v"
  then obtain d where "stops P t key d" "occupied P t (probe_index P t key d)"
      "v = clear_valid_flag P (pair_value (get_pair t (probe_index P t key d)))"
    by (auto simp: id32_get_def find_upt_Some split: option.splits if_splits)
  then show "\<exists>i. i AND id32_total_mask t = i \<and> occupied P t i \<and> pair_key (get_pair t i) = key \<and>
      v = clear_valid_flag P (pair_value (get_pair t i))"
    by (intro exI [of _ "probe_index P t key d"]) (auto simp: stops_def)
next
  assume "\<exists>i. i AND id32_total_mask t = i \<and> occupied P t i \<and> pair_key (get_pair t i) = key \<and>
      v = clear_valid_flag P (pair_value (get_pair t i))"
  then obtain i where i: "i AND id32_total_mask t = i" "occupied P t i" "pair_key (get_pair t i) = key"
      "v = clear_valid_flag P (pair_value (get_pair t i))" by blast
  then obtain d where d: "d < unat (id32_chunk_size P)" "i = probe_index P t key d" "\<forall>e < d. \<not> stops P t key e"
    using assms unfolding id32_inv_def by blast
  have "stops P t key d" using i(3) d(2) by (simp add: stops_def)
  then have "List.find (stops P t key) [0..<unat (id32_chunk_size P)] = Some d" using d by (simp add: find_upt_Some)
  then show "id32_get P t key = Some v" using i d(2) by (simp add: id32_get_def)
qed

lemma id32_get_eqI:
  assumes "id32_inv P t" and "id32_inv P t'"
    and "\<And>i. i AND id32_total_mask t = i \<Longrightarrow> occupied P t i \<and> pair_key (get_pair t i) = key \<longleftrightarrow> occupied P t' i \<and> pair_key (get_pair t' i) = key"
    and "\<And>i. occupied P t i \<Longrightarrow> pair_key (get_pair t i) = key \<Longrightarrow> get_pair t' i = get_pair t i"
    and "id32_total_mask t' = id32_total_mask t"
  shows "id32_get P t' key = id32_get P t key"
proof -
  have "id32_get P t' key = Some v \<longleftrightarrow> id32_get P t key = Some v" for v
    unfolding id32_get_iff [OF assms(1)] id32_get_iff [OF assms(2)] using assms(3-) by metis
  then show ?thesis by (cases "id32_get P t key") auto
qed

lemma id32_insert_inv:
  assumes P: "params_ok P" and inv: "id32_inv P t" and d: "d < unat (id32_chunk_size P)" "stops P t key d"
    "\<forall>e < d. \<not> stops P t key e"
  shows "id32_inv P (set_pair (probe_index P t key d) \<lparr>pair_key = key, pair_value = set_valid_flag P v\<rparr> t)"
    (is "id32_inv P ?t")
proof -
  let ?at = "probe_index P t key d"
  have lay: "layout_ok t" using inv by (simp add: id32_inv_def)
  note gs = get_set_pair [OF lay]
  have occ: "occupied P ?t i = (i = ?at \<or> occupied P t i)" for i
    using valid_flag(1) [OF P] by (simp add: occupied_def gs)
  have keep: "\<not> stops P t k e \<Longrightarrow> \<not> stops P ?t k e" for k e
    using d(2) by (auto simp: stops_def occ gs split: if_splits)
  show ?thesis
    unfolding id32_inv_def
  proof (intro conjI allI impI)
    fix i assume i: "i AND id32_total_mask ?t = i" "occupied P ?t i"
    show "\<exists>d < unat (id32_chunk_size P). i = probe_index P ?t (pair_key (get_pair ?t i)) d \<and>
           (\<forall>e < d. \<not> stops P ?t (pair_key (get_pair ?t i)) e)"
    proof (cases "i = ?at")
      case True
      then show ?thesis using d keep by (intro exI [of _ d]) (auto simp: gs)
    next
      case False
      then have "occupied P t i" "get_pair ?t i = get_pair t i" using i(2) occ by (auto simp: gs)
      then show ?thesis using inv i(1) keep unfolding id32_inv_def by simp metis
    qed
  qed (use lay in simp)
qed

lemma id32_insert_effect:
  assumes P: "params_ok P" and inv: "id32_inv P t" and ins: "id32_insert P key v (s, t) = (r, s', t')"
  shows "id32_inv P t'" and "id32_get P t' = (if r = success then (id32_get P t)(key \<mapsto> clear_valid_flag P v) else id32_get P t)"
    and "id32_total_mask t' = id32_total_mask t" and "r = success \<or> r = isFull"
proof -
  let ?find = "List.find (stops P t key) [0..<unat (id32_chunk_size P)]"
  note ins' = ins [unfolded id32_insert_def Let_def snd_conv u32_upto_def unsigned_0 id32_insert_loop_find]
  have "id32_inv P t' \<and> id32_get P t' = (if r = success then (id32_get P t)(key \<mapsto> clear_valid_flag P v) else id32_get P t) \<and>
    id32_total_mask t' = id32_total_mask t \<and> (r = success \<or> r = isFull)"
  proof (cases ?find)
    case None
    then show ?thesis using ins' inv by simp
  next
    case (Some d)
    let ?at = "probe_index P t key d"
    have r: "r = success" and t': "t' = set_pair ?at \<lparr>pair_key = key, pair_value = set_valid_flag P v\<rparr> t"
      using ins' Some by simp_all
    have d: "d < unat (id32_chunk_size P)" "stops P t key d" "\<forall>e < d. \<not> stops P t key e"
      using Some by (simp_all add: find_upt_Some)
    have inv': "id32_inv P t'" unfolding t' by (rule id32_insert_inv [OF P inv d])
    have lay: "layout_ok t" using inv by (simp add: id32_inv_def)
    note gs = get_set_pair [OF lay]
    have new: "id32_get P t' key = Some (clear_valid_flag P v)"
      unfolding id32_get_iff [OF inv'] by (rule exI [of _ ?at]) (simp add: t' gs occupied_def valid_flag [OF P])
    have old: "id32_get P t' k = id32_get P t k" if "k \<noteq> key" for k
      by (rule id32_get_eqI [OF inv inv']) (use that d(2) in \<open>auto simp: t' gs occupied_def stops_def split: if_splits\<close>)
    show ?thesis using inv' r new old by (auto simp: t' fun_eq_iff)
  qed
  then show "id32_inv P t'" "id32_get P t' = (if r = success then (id32_get P t)(key \<mapsto> clear_valid_flag P v) else id32_get P t)"
    "id32_total_mask t' = id32_total_mask t" "r = success \<or> r = isFull" by blast+
qed

lemma id32_insert_size:
  "table_pairs_size (snd (snd (id32_insert P key v (s, t)))) = table_pairs_size t"
  by (simp add: id32_insert_def Let_def u32_upto_def id32_insert_loop_find split: option.split)

lemma id32_fill_size:
  assumes "id32_fill P data t = (r, s, t')"
  shows "pairs_size s = table_pairs_size t"
proof -
  have f: "table_pairs_size (snd (snd (fold (\<lambda>(key, v) (result, st).
      let (insert_result, st) = id32_insert P key v st
      in (if insert_result \<noteq> success then insert_result else result, st)) data (r0, s0, u)))) = table_pairs_size u"
    for r0 s0 and u :: "'a id32_table"
  proof (induction data arbitrary: r0 s0 u)
    case (Cons kv data)
    obtain key v where kv: "kv = (key, v)" by force
    obtain r1 s1 u1 where i: "id32_insert P key v (s0, u) = (r1, s1, u1)" by (rule prod_cases3)
    show ?case using Cons.IH [of _ s1 u1] id32_insert_size [of P key v s0 u] by (simp add: kv i)
  qed simp
  have g: "pairs_size (fold (\<lambda>i s. s\<lparr>pairs_in_chunks := f i s\<rparr>) xs s0) = pairs_size s0" for xs :: "u32 list" and f s0
    by (induction xs arbitrary: s0) simp_all
  show ?thesis using assms f [of success zero_stats t] by (auto simp: id32_fill_def Let_def g split: prod.splits)
qed

text \<open>The contract of a map that is filled once, provided by the table together with its statistics.\<close>

interpretation id32_map: put_map
  "\<lambda>st. params_ok P \<and> id32_inv P (snd st)" "\<lambda>st. id32_get P (snd st)"
  "\<lambda>st key v. map_prod (\<lambda>r. r = success) id (id32_insert P key v st)" "clear_valid_flag P"
  for P :: "'k id32_params"
proof
  fix st st' :: "id32_stats \<times> 'k id32_table" and key v ok
  assume inv: "params_ok P \<and> id32_inv P (snd st)" and put: "map_prod (\<lambda>r. r = success) id (id32_insert P key v st) = (ok, st')"
  obtain s t where st: "st = (s, t)" by force
  obtain r s' t' where r: "id32_insert P key v (s, t) = (r, s', t')" by (metis prod_cases3)
  then have "ok = (r = success)" "st' = (s', t')" using put st by auto
  with id32_insert_effect [of P t key v s r s' t', OF _ _ r] inv st
  show "(params_ok P \<and> id32_inv P (snd st')) \<and>
    id32_get P (snd st') = (if ok then (id32_get P (snd st))(key \<mapsto> clear_valid_flag P v) else id32_get P (snd st))"
    by simp
qed

lemma fill_fold_ok:
  "fold (\<lambda>(key, v) (result, st).
      let (insert_result, st) = id32_insert P key v st
      in (if insert_result \<noteq> success then insert_result else result, st)) data (result, st) = (result', st') \<Longrightarrow>
   fold (\<lambda>(key, v) (ok, st).
      let (ok', st) = map_prod (\<lambda>r. r = success) id (id32_insert P key v st) in (ok \<and> ok', st)) data (result = success, st)
    = (result' = success, st')"
proof (induction data arbitrary: result st)
  case (Cons kv data)
  obtain key v where kv: "kv = (key, v)" by force
  obtain r st1 where r: "id32_insert P key v st = (r, st1)" by (cases "id32_insert P key v st") simp
  show ?case
    using Cons.prems Cons.IH [of "if r \<noteq> success then r else result" st1]
    by (auto simp: kv r split: if_splits)
qed simp

lemma id32_fill_effect:
  assumes "params_ok P" and "id32_inv P t" and "id32_fill P data t = (success, s, t')"
  shows "id32_inv P t' \<and> id32_get P t' = id32_get P t ++ (map_option (clear_valid_flag P) \<circ> map_of (rev data))"
proof -
  let ?F = "fold (\<lambda>(key, v) (result, st).
      let (insert_result, st) = id32_insert P key v st
      in (if insert_result \<noteq> success then insert_result else result, st)) data (success, zero_stats, t)"
  obtain r s1 t1 where F: "?F = (r, s1, t1)" by (cases ?F rule: prod_cases3)
  have "r = success" "t1 = t'" using assms(3) unfolding id32_fill_def F by (auto simp: Let_def)
  with id32_map.fill_effect [of P "(zero_stats, t)", OF _ fill_fold_ok [OF F]] assms(1,2) show ?thesis by simp
qed

lemma empty_inv:
  assumes "\<And>i j. \<not> id32_is_valid P (pair_value (chunks i j))"
  shows "id32_inv P (id32_create sz shift chunks)" and "id32_get P (id32_create sz shift chunks) = Map.empty"
proof -
  have n: "\<not> occupied P (id32_create sz shift chunks) i" for i
    using assms by (simp add: occupied_def id32_create_def get_pair_def Let_def)
  then show inv: "id32_inv P (id32_create sz shift chunks)"
    by (simp add: id32_inv_def layout_ok_def id32_create_def Let_def mask_eq_exp_minus_1 push_bit_eq_mult)
  show "id32_get P (id32_create sz shift chunks) = Map.empty"
    using n by (auto simp: id32_get_def fun_eq_iff split: option.split)
qed

section \<open>Lookup\<close>

text \<open>What a position of the burst receives.\<close>

definition id32_answer :: "'k id32_params \<Rightarrow> 'k id32_table \<Rightarrow> 'k \<Rightarrow> bool \<times> u32" where
  "id32_answer P t key =
     (case id32_get P t key of
        Some v \<Rightarrow> (True, v)
      | None \<Rightarrow> (False, set_valid_flag P (pair_value (get_pair t (id32_hash P key AND id32_total_mask t)))))"

lemma id32_chunk_size_pos: "params_ok P \<Longrightarrow> 0 < unat (id32_chunk_size P)"
  by (auto simp: params_ok_def is_power_of_two_def intro: unat_gt_0 [THEN iffD2])

lemma first_check_found:
  assumes "params_ok P" and "id32_first_check P t (id32_hash P key AND id32_total_mask t) key = (True, v)"
  shows "id32_answer P t key = (True, v)"
proof -
  have "stops P t key 0" "occupied P t (probe_index P t key 0)"
      "v = clear_valid_flag P (pair_value (get_pair t (probe_index P t key 0)))"
    using assms(2) by (auto simp: id32_first_check_def stops_def occupied_def id32_is_equal_def Let_def split: if_splits)
  moreover have "List.find (stops P t key) [0..<unat (id32_chunk_size P)] = Some 0"
    using id32_chunk_size_pos [OF assms(1)] calculation by (simp add: find_upt_Some)
  ultimately show ?thesis by (simp add: id32_answer_def id32_get_def)
qed

text \<open>
  After a miss at the home slot the probing goes on even if that slot is empty; the invariant says that
  nothing can be found then.
\<close>

lemma first_check_missed:
  assumes P: "params_ok P" and inv: "id32_inv P t"
    and "id32_first_check P t (id32_hash P key AND id32_total_mask t) key = (False, v)"
  shows "id32_answer P t key = id32_probe P t (id32_hash P key AND id32_total_mask t) key v (u32_upto 1 (id32_chunk_size P))"
proof -
  let ?n = "unat (id32_chunk_size P)"
  have v: "v = set_valid_flag P (pair_value (get_pair t (id32_hash P key AND id32_total_mask t)))"
    and miss: "\<not> (occupied P t (probe_index P t key 0) \<and> pair_key (get_pair t (probe_index P t key 0)) = key)"
    using assms(3) by (auto simp: id32_first_check_def occupied_def id32_is_equal_def Let_def split: if_splits)
  have split: "[0..<?n] = 0 # [1..<?n]" using id32_chunk_size_pos [OF P] by (simp add: upt_conv_Cons)
  show ?thesis
  proof (cases "stops P t key 0")
    case False
    then show ?thesis
      unfolding u32_upto_def id32_answer_def id32_get_def split
      by (simp add: id32_probe_find v split: option.split)
  next
    case True
    then have empty: "\<not> occupied P t (probe_index P t key 0)" using miss by (auto simp: stops_def)
    have None: "id32_get P t key = None" using True empty by (simp add: id32_get_def split)
    have "\<not> (stops P t key d \<and> occupied P t (probe_index P t key d))" for d
      using None id32_get_iff [OF inv, of key] probe_index_masked [of P t key d] by (force simp: stops_def)
    then show ?thesis
      unfolding u32_upto_def id32_answer_def None
      by (auto simp: id32_probe_find v find_Some_iff split: option.split)
  qed
qed

lemma id32_lookup_answers:
  assumes P: "params_ok P" and inv: "id32_inv P t"
  shows "id32_lookup P n t keys =
    (map (\<lambda>key. id32_hash P key AND id32_total_mask t) keys, map (snd \<circ> id32_answer P t) keys,
     horner_sum of_bool 2 (map (fst \<circ> id32_answer P t) keys))"
proof -
  let ?h = "\<lambda>key. id32_hash P key AND id32_total_mask t"
  let ?first = "\<lambda>key. id32_first_check P t (?h key) key"
  let ?final = "\<lambda>key. if fst (?first key) then ?first key
    else id32_probe P t (?h key) key (snd (?first key)) (u32_upto 1 (id32_chunk_size P))"
  have z: "map2 (id32_first_check P t) (map ?h keys) keys = map ?first keys" by (induction keys) simp_all
  have zf: "map2 (\<lambda>(hash, key) (found, v). if found then (found, v)
      else id32_probe P t hash key v (u32_upto 1 (id32_chunk_size P))) (zip (map ?h keys) keys) (map ?first keys) =
    map ?final keys"
    by (induction keys) (auto simp: split_def intro: prod_eqI)
  have final: "?final key = id32_answer P t key" for key
    using first_check_found [OF P, of t key] first_check_missed [OF P inv, of key]
    by (cases "?first key") auto
  have one: "?first key = ?final key" if "id32_chunk_size P = 1" for key
    using that by (cases "?first key") (simp add: u32_upto_def)
  have found: "?first key = ?final key" if "list_all fst (map ?first keys)" "key \<in> set keys" for key
    using that by (auto simp: list_all_iff)
  show ?thesis
    unfolding id32_lookup_def Let_def z zf final
    using one found by (auto simp: final comp_def cong: map_cong)
qed

lemma answer_cases:
  assumes "params_ok P"
  shows "id32_get P t key = Some v \<Longrightarrow> id32_answer P t key = (True, v)"
    and "id32_get P t key = None \<Longrightarrow> \<not> fst (id32_answer P t key) \<and> id32_is_valid P (snd (id32_answer P t key))"
  using valid_flag(1) [OF assms] by (simp_all add: id32_answer_def)

section \<open>Indices\<close>

lemma power_of_two_le: "is_power_of_two n \<Longrightarrow> unat n \<le> 2 ^ 31"
proof (rule ccontr)
  assume p: "is_power_of_two n" and "\<not> unat n \<le> 2 ^ 31"
  then have n: "2 ^ 31 < unat n" by simp
  have bit: "bit w 31 \<longleftrightarrow> 2 ^ 31 \<le> unat w" for w :: u32
  proof -
    have "unat w div 2 ^ 31 < 2" using unsigned_less [of w, where ?'a = nat] by (simp add: less_mult_imp_div_less)
    moreover have "bit w 31 = odd (unat w div 2 ^ 31)"
      using bit_unsigned_iff [of w 31, where ?'a = nat] by (simp add: bit_iff_odd [of "unat w"])
    ultimately show ?thesis by (cases "unat w div 2 ^ 31") (auto simp: div_eq_0_iff)
  qed
  have "unat (n - 1) = unat n - 1" using n by (intro unat_minus_one) auto
  then have "bit (n AND (n - 1)) 31" using n bit [of n] bit [of "n - 1"] by (simp add: bit_and_iff)
  then show False using p by (simp add: is_power_of_two_def)
qed

lemma div_round_up: "x < S \<Longrightarrow> 0 < m \<Longrightarrow> x div m < (S + (m - 1)) div m" for x :: nat
proof -
  assume "x < S" "0 < m"
  then have "(x + m) div m \<le> (S + (m - 1)) div m" by (intro div_le_mono) simp
  then show ?thesis using \<open>0 < m\<close> div_add_self2 [of m x] by linarith
qed

lemma unat_ppc:
  assumes "shift < 32"
  shows "unat (push_bit shift 1 :: u32) = 2 ^ shift" and "unat (push_bit shift 1 - 1 :: u32) = 2 ^ shift - 1"
proof -
  have "(2 :: nat) ^ shift < 2 ^ 32" using assms by (intro power_strict_increasing) simp_all
  then have "unat (of_nat (2 ^ shift) :: u32) = 2 ^ shift" by (intro unat_of_nat_small) simp
  then show u: "unat (push_bit shift 1 :: u32) = 2 ^ shift" by (simp add: push_bit_eq_mult)
  then have "(push_bit shift 1 :: u32) \<noteq> 0" by (metis power_not_zero unsigned_0 zero_neq_numeral)
  then show "unat (push_bit shift 1 - 1 :: u32) = 2 ^ shift - 1" using u by (simp add: unat_minus_one)
qed

lemma num_chunks_unat:
  assumes "is_power_of_two sz" and "shift < 32"
  shows "unat (id32_num_chunks (id32_create sz shift chunks)) = (unat sz + (2 ^ shift - 1)) div 2 ^ shift"
proof -
  have "(2 :: nat) ^ shift \<le> 2 ^ 31" using assms(2) by (intro power_increasing) simp_all
  then have "unat sz + (2 ^ shift - 1) < 2 ^ 32" using power_of_two_le [OF assms(1)] by simp
  then have "unat (sz + (push_bit shift 1 - 1)) = unat sz + (2 ^ shift - 1)"
    using unat_ppc(2) [OF assms(2)] by (simp add: unat_word_ariths)
  then show ?thesis by (simp add: id32_create_def Let_def unat_drop_bit)
qed

lemma index_in_bounds:
  fixes chunks :: "u32 \<Rightarrow> u32 \<Rightarrow> 'k id32_pair"
  assumes "is_power_of_two sz" and "shift < 32"
  defines "t \<equiv> id32_create sz shift chunks"
  shows "drop_bit shift (i AND id32_total_mask t) < id32_num_chunks t" and "i AND id32_ppc_mask t < pairs_per_chunk t"
proof -
  have "sz \<noteq> 0" using assms(1) by (auto simp: is_power_of_two_def)
  then have "unat (sz - 1) < unat sz" using unat_minus_one [of sz] by (simp add: unat_gt_0)
  moreover have "unat (i AND (sz - 1)) \<le> unat (sz - 1)" using word_and_le1 [of i "sz - 1"] by (simp add: word_le_nat_alt)
  ultimately have "unat (i AND (sz - 1)) < unat sz" by linarith
  then have "unat (drop_bit shift (i AND (sz - 1))) < unat (id32_num_chunks t)"
    unfolding t_def num_chunks_unat [OF assms(1,2)] unat_drop_bit by (rule div_round_up) simp
  then show "drop_bit shift (i AND id32_total_mask t) < id32_num_chunks t"
    unfolding word_less_nat_alt by (simp only: t_def id32_create_def Let_def id32_table.simps)
  have "unat (i AND (push_bit shift 1 - 1)) \<le> unat (push_bit shift 1 - 1 :: u32)"
    using word_and_le1 [of i "push_bit shift 1 - 1"] by (simp add: word_le_nat_alt)
  then show "i AND id32_ppc_mask t < pairs_per_chunk t"
    unfolding t_def word_less_nat_alt id32_create_def Let_def pairs_per_chunk_def id32_table.simps unat_ppc [OF assms(2)]
    by (rule le_less_trans) simp
qed

section \<open>Properties\<close>

text \<open>
  C13: a table that has been filled successfully from a list is a map.  The burst lookup finds exactly
  the keys of the list; a key that is found receives the value of its last entry with the validity
  bit cleared, a key that is not found receives a value with the validity bit set, and the returned
  mask has the bits of the positions that were found.
\<close>

theorem id32_lookup_after_fill:
  assumes "params_ok P" and "\<forall>i j. \<not> id32_is_valid P (pair_value (chunks i j))"
    and "id32_fill P data (id32_create sz shift chunks) = (success, s, t)"
  shows "\<exists>hashes vs found. id32_lookup P n t keys = (hashes, vs, horner_sum of_bool 2 found) \<and>
    list_all2 (\<lambda>key f. f = (key \<in> fst ` set data)) keys found \<and>
    list_all2 (\<lambda>key v. case map_of (rev data) key of
        Some w \<Rightarrow> v = clear_valid_flag P w | None \<Rightarrow> id32_is_valid P v) keys vs"
proof -
  have inv: "id32_inv P t" and get: "id32_get P t = map_option (clear_valid_flag P) \<circ> map_of (rev data)"
    using id32_fill_effect [OF assms(1) _ assms(3)] empty_inv [of P chunks sz shift] assms(2) by auto
  have ans: "fst (id32_answer P t key) = (key \<in> fst ` set data) \<and>
      (case map_of (rev data) key of Some w \<Rightarrow> snd (id32_answer P t key) = clear_valid_flag P w
       | None \<Rightarrow> id32_is_valid P (snd (id32_answer P t key)))" for key
  proof (cases "map_of (rev data) key")
    case None
    moreover have "key \<notin> fst ` set data" using None by (simp add: map_of_eq_None_iff)
    ultimately show ?thesis using answer_cases(2) [OF assms(1), of t key] get by simp
  next
    case (Some w)
    then have "key \<in> fst ` set data" by (metis domI dom_map_of_conv_image_fst set_rev)
    then show ?thesis using answer_cases(1) [OF assms(1), of t key] get Some by simp
  qed
  show ?thesis
    unfolding id32_lookup_answers [OF assms(1) inv]
    by (intro exI conjI, rule refl) (use ans in \<open>auto simp: list_all2_map2 list_all2_same\<close>)
qed

definition id32_example_params :: "u32 id32_params" where
  "id32_example_params = \<lparr>id32_chunk_size = 2, valid_bit_offset = 0, id32_hash = (\<lambda>key. key)\<rparr>"

definition id32_example_chunks :: "u32 \<Rightarrow> u32 \<Rightarrow> u32 id32_pair" where
  "id32_example_chunks = (\<lambda>_ _. \<lparr>pair_key = 0, pair_value = 0\<rparr>)"

theorem id32_lookup_after_fill_witness:
  "let P = id32_example_params; data = [(3, 10), (7, 11), (3, 12)];
       (r, s, t) = id32_fill P data (id32_create 4 1 id32_example_chunks)
   in params_ok P \<and> (\<forall>i j. \<not> id32_is_valid P (pair_value (id32_example_chunks i j))) \<and> r = success \<and>
      (\<exists>hashes v w found. id32_lookup P 32 t [7, 5] = (hashes, [v, w], horner_sum of_bool 2 found) \<and>
         found = [True, False] \<and> v = 11 \<and> id32_is_valid P w)"
proof -
  let ?P = id32_example_params and ?data = "[(3, 10), (7, 11), (3, 12)] :: (u32 \<times> u32) list"
  have P: "params_ok ?P" by code_simp
  have c: "\<forall>i j. \<not> id32_is_valid ?P (pair_value (id32_example_chunks i j))"
    by (simp add: id32_is_valid_def id32_example_chunks_def)
  obtain r s t where f: "id32_fill ?P ?data (id32_create 4 1 id32_example_chunks) = (r, s, t)" by (rule prod_cases3)
  have "fst (id32_fill ?P ?data (id32_create 4 1 id32_example_chunks)) = success" by code_simp
  then have r: "r = success" unfolding f by simp
  have v: "clear_valid_flag ?P 11 = 11" by code_simp
  from id32_lookup_after_fill [OF P c f [unfolded r], of 32 "[7, 5]"]
  obtain hashes w where "id32_lookup ?P 32 t [7, 5] = (hashes, [11, w], horner_sum of_bool 2 [True, False])"
      "id32_is_valid ?P w"
    by (auto simp: v list_all2_Cons1)
  then show ?thesis unfolding Let_def f prod.case using P c r by blast
qed



end
