(* ===== verification/Id32Updater.thy ===== *)
theory Id32Updater
  imports HashtableId32 MemoryManager
begin

text \<open>
  The classes of \<^verbatim>\<open>src/dataplane/updater.h\<close> that own a read-only hash table:
  \<^verbatim>\<open>updater_hashtable_mod_id32\<close> allocates the header, the array of chunk pointers and the chunks from
  the memory manager, fills the table, and retries with twice the size when the table was too small.
  Every allocation and release is a step on the state of the memory manager; a result \<open>None\<close> is a call
  that does not return because the mutex of the manager is locked twice.
\<close>

section \<open>Sizes\<close>

function upper_power_of_two_loop :: "u32 \<Rightarrow> u32 \<Rightarrow> u32" where
  "upper_power_of_two_loop v result =
     (if result < v then
        let result' = push_bit 1 result
        in if result' = 0 then 0 else upper_power_of_two_loop v result'
      else result)"
  by pat_completeness auto
termination
  by (relation "measure (doublings \<circ> snd)") (auto simp: push_bit_eq_mult intro!: doublings_times_2)

declare upper_power_of_two_loop.simps [simp del]

definition upper_power_of_two :: "u32 \<Rightarrow> u32" where
  "upper_power_of_two v = upper_power_of_two_loop v 1"

text \<open>\<^verbatim>\<open>__builtin_clzll\<close> of a number that is not zero.\<close>

definition builtin_clzll :: "u64 \<Rightarrow> nat" where
  "builtin_clzll w = 63 - last (filter (bit w) [0..<64])"

definition chunk_bytes :: u64 where
  "chunk_bytes = push_bit 20 256"

definition ppc_shift :: "u64 \<Rightarrow> nat" where
  "ppc_shift sizeof_pair =
     (let pairs_in_chunk_raw = max 1 (chunk_bytes div sizeof_pair)
      in if pairs_in_chunk_raw > 0 then 63 - builtin_clzll pairs_in_chunk_raw else 0)"

function nat_to_string :: "nat \<Rightarrow> string" where
  "nat_to_string n = (if n < 10 then [char_of (48 + n)] else nat_to_string (n div 10) @ [char_of (48 + n mod 10)])"
  by pat_completeness auto
termination by (relation "measure id") auto

declare nat_to_string.simps [simp del]

section \<open>The updater\<close>

text \<open>
  What the class is created with, and the sizes of its types; \<open>zero_key\<close> is the key whose bytes are
  all zero, which \<^verbatim>\<open>memset\<close> leaves in the chunks.
\<close>

record ('h, 'k) id32_env =
  env_dpdk :: "'h dpdk"
  env_params :: "'k id32_params"
  env_name :: string
  env_socket_id :: u32
  env_sizeof_table :: u64
  env_sizeof_pair :: u64
  env_zero_key :: 'k

text \<open>The table behind \<^verbatim>\<open>pointer\<close> with the addresses it consists of; a null chunk has the address 0.\<close>

record 'k id32_object =
  obj_address :: u64
  obj_chunks_array :: u64
  obj_chunk_addresses :: "u64 list"
  obj_table :: "'k id32_table"

record 'k id32_updater =
  upd_stats :: id32_stats
  upd_pointer :: "'k id32_object option"

text \<open>The loop that allocates the chunks: the array of pointers, and whether all could be allocated.\<close>

fun alloc_chunks :: "('h, 'k) id32_env \<Rightarrow> u64 \<Rightarrow> nat list \<Rightarrow> 'h memory_manager \<Rightarrow> u64 list \<times> bool \<times> 'h memory_manager" where
  "alloc_chunks E chunk_mem_size [] m = ([], True, m)"
| "alloc_chunks E chunk_mem_size (i # is) m =
     (let (p, m) = mm_alloc (env_dpdk E) (env_name E @ ''.chunk.'' @ nat_to_string i) (env_socket_id E) chunk_mem_size m
      in if p = 0 then (replicate (length (i # is)) 0, False, m)
         else let (ps, allocation_ok, m) = alloc_chunks E chunk_mem_size is m
              in (p # ps, allocation_ok, m))"

text \<open>The loops that destroy the chunks which are not null.\<close>

fun destroy_chunks :: "'h dpdk \<Rightarrow> u64 list \<Rightarrow> 'h memory_manager \<Rightarrow> 'h memory_manager option" where
  "destroy_chunks d [] m = Some m"
| "destroy_chunks d (p # ps) m =
     (if p \<noteq> 0 then Option.bind (mm_destroy d (\<lambda>_. None) p m) (destroy_chunks d ps) else destroy_chunks d ps m)"

definition id32_clear :: "('h, 'k) id32_env \<Rightarrow> 'k id32_updater \<Rightarrow> 'h memory_manager \<Rightarrow> ('k id32_updater \<times> 'h memory_manager) option" where
  "id32_clear E u m =
     (case upd_pointer u of
        None \<Rightarrow> Some (u, m)
      | Some obj \<Rightarrow>
          Option.bind
            (if obj_chunks_array obj \<noteq> 0 then
               Option.bind (destroy_chunks (env_dpdk E) (obj_chunk_addresses obj) m)
                 (mm_destroy (env_dpdk E) (\<lambda>_. None) (obj_chunks_array obj))
             else Some m)
            (\<lambda>m. map_option (Pair (u\<lparr>upd_pointer := None\<rparr>))
               (mm_destroy (env_dpdk E) (\<lambda>_. None) (obj_address obj) m)))"

text \<open>
  One round of the loop of \<^verbatim>\<open>update\<close> up to the call of \<^verbatim>\<open>fill\<close>: the object, or \<open>None\<close> if some
  allocation failed and everything has been given back.
\<close>

definition id32_allocate :: "('h, 'k) id32_env \<Rightarrow> u32 \<Rightarrow> 'h memory_manager \<Rightarrow> ('k id32_object option \<times> 'h memory_manager) option" where
  "id32_allocate E sz m =
     (let d = env_dpdk E;
          (pointer, m) = mm_create d (env_name E) (env_socket_id E) (id32_calculate_sizeof (env_sizeof_table E) sz) m
      in if pointer = 0 then Some (None, m)
         else let zero_chunks = (\<lambda>_ _. \<lparr>pair_key = env_zero_key E, pair_value = 0\<rparr>);
                  t = id32_create sz (ppc_shift (env_sizeof_pair E)) zero_chunks;
                  chunks_array_bytes = ucast (id32_num_chunks t) * 8;
                  (chunks_ptr_array, m) = mm_alloc d (env_name E @ ''.chunks'') (env_socket_id E) chunks_array_bytes m
              in if chunks_ptr_array = 0 then
                   map_option (Pair None) (mm_destroy d (\<lambda>_. None) pointer m)
                 else let chunk_mem_size = ucast (pairs_per_chunk t) * env_sizeof_pair E;
                          (chunks, allocation_ok, m) = alloc_chunks E chunk_mem_size [0..<unat (id32_num_chunks t)] m
                      in if \<not> allocation_ok then
                           map_option (Pair None)
                             (Option.bind (destroy_chunks d chunks m) (\<lambda>m.
                                Option.bind (mm_destroy d (\<lambda>_. None) chunks_ptr_array m)
                                  (mm_destroy d (\<lambda>_. None) pointer)))
                         else Some (Some \<lparr>obj_address = pointer, obj_chunks_array = chunks_ptr_array,
                                obj_chunk_addresses = chunks, obj_table = t\<rparr>, m))"

lemma allocate_size_pos:
  assumes "id32_allocate E sz m = Some (Some obj, m')"
  shows "sz \<noteq> 0" and "table_pairs_size (obj_table obj) = sz"
proof -
  have "mm_alloc d n s (id32_calculate_sizeof z 0) m = (0, m)" for d n s z
    by (simp add: id32_calculate_sizeof_def mm_alloc_def)
  then show "sz \<noteq> 0" using assms by (auto simp: id32_allocate_def split: if_splits)
  show "table_pairs_size (obj_table obj) = sz"
    using assms by (auto simp: id32_allocate_def id32_create_def Let_def split: if_splits prod.splits)
qed

lemma retry_decreases:
  assumes "id32_allocate E sz m = Some (Some obj, m')" and "(r, s, t) = id32_fill P data (obj_table obj)"
  shows "doublings (pairs_size s * 2) < doublings sz"
  using allocate_size_pos [OF assms(1)] id32_fill_size [OF assms(2) [symmetric]] by (simp add: doublings_times_2)

function id32_update_loop :: "('h, 'k) id32_env \<Rightarrow> ('k \<times> u32) list \<Rightarrow> bool \<Rightarrow> id32_stats \<Rightarrow> 'h memory_manager \<Rightarrow>
  (eResult \<times> 'k id32_updater \<times> 'h memory_manager) option" where
  "id32_update_loop E data retry s m =
     (case id32_allocate E (pairs_size s) m of
        None \<Rightarrow> None
      | Some (None, m) \<Rightarrow> Some (errorAllocatingMemory, \<lparr>upd_stats = s, upd_pointer = None\<rparr>, m)
      | Some (Some obj, m) \<Rightarrow>
          (case id32_fill (env_params E) data (obj_table obj) of
             (result, s, t) \<Rightarrow>
               let u = \<lparr>upd_stats = s, upd_pointer = Some (obj\<lparr>obj_table := t\<rparr>)\<rparr>
               in if result = success \<or> \<not> retry then Some (result, u, m)
                  else (case id32_clear E u m of
                          None \<Rightarrow> None
                        | Some (_, m) \<Rightarrow> id32_update_loop E data retry (s\<lparr>pairs_size := pairs_size s * 2\<rparr>) m)))"
  by pat_completeness auto
termination
  by (relation "measure (\<lambda>(E, data, retry, s, m). doublings (pairs_size s))")
    (auto intro: retry_decreases)

declare id32_update_loop.simps [simp del]

definition id32_update :: "('h, 'k) id32_env \<Rightarrow> ('k \<times> u32) list \<Rightarrow> bool \<Rightarrow> 'k id32_updater \<Rightarrow> 'h memory_manager \<Rightarrow>
  (eResult \<times> 'k id32_updater \<times> 'h memory_manager) option" where
  "id32_update E data retry u m =
     (let sz = upper_power_of_two (max pairs_size_min (of_nat (4 * length data)));
          s = (upd_stats u)\<lparr>pairs_size := sz\<rparr>
      in Option.bind (id32_clear E u m) (\<lambda>(_, m). id32_update_loop E data retry s m))"

definition id32_init :: "('h, 'k) id32_env \<Rightarrow> 'k id32_updater \<Rightarrow> 'h memory_manager \<Rightarrow>
  (eResult \<times> 'k id32_updater \<times> 'h memory_manager) option" where
  "id32_init E u m = id32_update E [] True u m"

definition id32_limits :: "('h, 'k) id32_env \<Rightarrow> 'k id32_updater \<Rightarrow> (string \<times> u32 \<times> u32 \<times> u32) list" where
  "id32_limits E u =
     [(env_name E @ ''.keys'', env_socket_id E, pairs_count (upd_stats u), pairs_size (upd_stats u)),
      (env_name E @ ''.longest_collision'', env_socket_id E, id32_longest_chain (upd_stats u), id32_chunk_size (env_params E))]"

section \<open>Memory\<close>

definition obj_blocks :: "'k id32_object \<Rightarrow> u64 set" where
  "obj_blocks obj = insert (obj_address obj) (insert (obj_chunks_array obj) (set (obj_chunk_addresses obj)))"

definition upd_blocks :: "'k id32_updater \<Rightarrow> u64 set" where
  "upd_blocks u = (case upd_pointer u of None \<Rightarrow> {} | Some obj \<Rightarrow> obj_blocks obj)"

definition upd_ok :: "'k id32_updater \<Rightarrow> bool" where
  "upd_ok u = (case upd_pointer u of None \<Rightarrow> True | Some obj \<Rightarrow> obj_chunks_array obj \<noteq> 0)"

lemma destroy_chunks_effect:
  assumes "malloc_ok d used" and "mm_inv used m"
  shows "\<exists>m'. destroy_chunks d ps m = Some m' \<and> mm_inv used m' \<and> live m' = live m - set ps"
  using assms(2)
proof (induction ps arbitrary: m)
  case (Cons p ps)
  obtain m1 where m1: "mm_destroy d (\<lambda>_. None) p m = Some m1" "mm_inv used m1" "live m1 = live m - {p}"
    using destroy_effect [OF assms(1) Cons.prems] .
  obtain m2 where m2: "destroy_chunks d ps m1 = Some m2" "mm_inv used m2" "live m2 = live m1 - set ps"
    using Cons.IH [OF m1(2)] by blast
  obtain m3 where m3: "destroy_chunks d ps m = Some m3" "mm_inv used m3" "live m3 = live m - set ps"
    using Cons.IH [OF Cons.prems] by blast
  show ?case
  proof (cases "p = 0")
    case True
    then have "p \<notin> live m" using Cons.prems by (simp add: mm_inv_def)
    then show ?thesis using True m3 by simp
  next
    case False
    have "live m2 = live m - set (p # ps)" unfolding m2(3) m1(3) by auto
    then show ?thesis using False m1(1) m2 by simp
  qed
qed simp

lemma id32_clear_effect:
  assumes d: "malloc_ok (env_dpdk E) used" and "mm_inv used m" and "upd_ok u"
  shows "\<exists>m'. id32_clear E u m = Some (u\<lparr>upd_pointer := None\<rparr>, m') \<and> mm_inv used m' \<and> live m' = live m - upd_blocks u"
proof (cases "upd_pointer u")
  case None
  then have "u\<lparr>upd_pointer := None\<rparr> = u" by (cases u) simp
  then show ?thesis using None assms(2) by (simp add: id32_clear_def upd_blocks_def)
next
  case (Some obj)
  obtain m1 where m1: "destroy_chunks (env_dpdk E) (obj_chunk_addresses obj) m = Some m1" "mm_inv used m1"
      "live m1 = live m - set (obj_chunk_addresses obj)"
    using destroy_chunks_effect [OF d assms(2)] by blast
  obtain m2 where m2: "mm_destroy (env_dpdk E) (\<lambda>_. None) (obj_chunks_array obj) m1 = Some m2" "mm_inv used m2"
      "live m2 = live m1 - {obj_chunks_array obj}"
    using destroy_effect [OF d m1(2)] .
  obtain m3 where m3: "mm_destroy (env_dpdk E) (\<lambda>_. None) (obj_address obj) m2 = Some m3" "mm_inv used m3"
      "live m3 = live m2 - {obj_address obj}"
    using destroy_effect [OF d m2(2)] .
  show ?thesis
    using Some assms(3) m1 m2 m3 by (auto simp: id32_clear_def upd_blocks_def obj_blocks_def upd_ok_def)
qed

lemma alloc_chunks_effect:
  assumes d: "malloc_ok (env_dpdk E) used" and "mm_inv used m" and "alloc_chunks E z is m = (ps, ok, m')"
  shows "mm_inv used m' \<and> live m' = live m \<union> (set ps - {0}) \<and> (set ps - {0}) \<inter> live m = {} \<and> (ok \<longrightarrow> 0 \<notin> set ps)"
  using assms(2,3)
proof (induction "is" arbitrary: m ps)
  case (Cons i "is")
  obtain p m1 where p: "mm_alloc (env_dpdk E) (env_name E @ ''.chunk.'' @ nat_to_string i) (env_socket_id E) z m = (p, m1)"
    by force
  note e = mm_alloc_effect [OF d Cons.prems(1) p]
  show ?case
  proof (cases "p = 0")
    case True
    then have z: "ps = replicate (Suc (length is)) 0" and m: "\<not> ok" "m' = m1" using Cons.prems(2) p by simp_all
    have z0: "set ps - {0} = {}" unfolding z by (simp add: set_replicate_conv_if)
    show ?thesis unfolding z0 using True e m by simp
  next
    case False
    obtain ps1 ok1 m2 where rest: "alloc_chunks E z is m1 = (ps1, ok1, m2)" by (rule prod_cases3)
    have ps: "ps = p # ps1" "ok = ok1" "m' = m2" using Cons.prems(2) p False rest by simp_all
    have m1: "mm_inv used m1" "p \<notin> live m" "live m1 = insert p (live m)" using e False by simp_all
    show ?thesis using Cons.IH [OF m1(1) rest [folded ps(2,3)]] m1(2,3) False unfolding ps(1) by simp blast
  qed
qed simp

definition zero_chunks :: "('h, 'k) id32_env \<Rightarrow> u32 \<Rightarrow> u32 \<Rightarrow> 'k id32_pair" where
  "zero_chunks E = (\<lambda>_ _. \<lparr>pair_key = env_zero_key E, pair_value = 0\<rparr>)"

definition allocated :: "('h, 'k) id32_env \<Rightarrow> u32 \<Rightarrow> u64 set \<Rightarrow> 'k id32_object option \<Rightarrow> u64 set \<Rightarrow> bool" where
  "allocated E sz L obj L' =
     (case obj of
        None \<Rightarrow> L' = L
      | Some obj \<Rightarrow> obj_chunks_array obj \<noteq> 0 \<and> L' = L \<union> obj_blocks obj \<and> obj_blocks obj \<inter> L = {} \<and>
          obj_table obj = id32_create sz (ppc_shift (env_sizeof_pair E)) (zero_chunks E))"

lemma id32_allocate_effect:
  assumes d: "malloc_ok (env_dpdk E) used" and inv: "mm_inv used m"
  shows "\<exists>obj m'. id32_allocate E sz m = Some (obj, m') \<and> mm_inv used m' \<and> allocated E sz (live m) obj (live m')"
proof -
  let ?d = "env_dpdk E" and ?t = "id32_create sz (ppc_shift (env_sizeof_pair E)) (zero_chunks E)"
  obtain p m1 where p: "mm_alloc ?d (env_name E) (env_socket_id E) (id32_calculate_sizeof (env_sizeof_table E) sz) m = (p, m1)"
    by force
  note e1 = mm_alloc_effect [OF d inv p]
  obtain a m2 where a: "mm_alloc ?d (env_name E @ ''.chunks'') (env_socket_id E) (ucast (id32_num_chunks ?t) * 8) m1 = (a, m2)"
    by force
  note e2 = mm_alloc_effect [OF d conjunct1 [OF e1] a]
  obtain ps ok m3 where c: "alloc_chunks E (ucast (pairs_per_chunk ?t) * env_sizeof_pair E) [0..<unat (id32_num_chunks ?t)] m2 = (ps, ok, m3)"
    by (rule prod_cases3)
  note e3 = alloc_chunks_effect [OF d conjunct1 [OF e2] c]
  note unfold = id32_allocate_def Let_def zero_chunks_def [symmetric] p a c
  consider "p = 0" | "p \<noteq> 0" "a = 0" | "p \<noteq> 0" "a \<noteq> 0" "\<not> ok" | "p \<noteq> 0" "a \<noteq> 0" "ok" by blast
  then show ?thesis
  proof cases
    case 1
    then show ?thesis using e1 by (simp add: unfold allocated_def)
  next
    case 2
    obtain m4 where "mm_destroy ?d (\<lambda>_. None) p m2 = Some m4" "mm_inv used m4" "live m4 = live m2 - {p}"
      using destroy_effect [OF d conjunct1 [OF e2]] .
    then show ?thesis using 2 e1 e2 by (simp add: unfold allocated_def)
  next
    case 3
    obtain m4 where m4: "destroy_chunks ?d ps m3 = Some m4" "mm_inv used m4" "live m4 = live m3 - set ps"
      using destroy_chunks_effect [OF d conjunct1 [OF e3]] by blast
    obtain m5 where m5: "mm_destroy ?d (\<lambda>_. None) a m4 = Some m5" "mm_inv used m5" "live m5 = live m4 - {a}"
      using destroy_effect [OF d m4(2)] .
    obtain m6 where m6: "mm_destroy ?d (\<lambda>_. None) p m5 = Some m6" "mm_inv used m6" "live m6 = live m5 - {p}"
      using destroy_effect [OF d m5(2)] .
    have "p \<notin> live m" "live m1 = insert p (live m)" "a \<notin> live m1" "live m2 = insert a (live m1)"
      "live m3 = live m2 \<union> (set ps - {0})" "(set ps - {0}) \<inter> live m2 = {}" "0 \<notin> live m"
      using 3 e1 e2 e3 inv by (simp_all add: mm_inv_def)
    then have "live m6 = live m" unfolding m6(3) m5(3) m4(3) by auto
    then show ?thesis using 3 m4 m5 m6 by (simp add: unfold allocated_def)
  next
    case 4
    let ?obj = "\<lparr>obj_address = p, obj_chunks_array = a, obj_chunk_addresses = ps, obj_table = ?t\<rparr>"
    have "p \<notin> live m" "live m1 = insert p (live m)" "a \<notin> live m1" "live m2 = insert a (live m1)"
      using 4 e1 e2 by simp_all
    moreover have "set ps - {0} = set ps" using 4(3) e3 by (intro Diff_insert0 [of _ _ "{}", simplified]) blast
    then have "live m3 = live m2 \<union> set ps" "set ps \<inter> live m2 = {}" using e3 by simp_all
    ultimately have "live m3 = live m \<union> obj_blocks ?obj" "obj_blocks ?obj \<inter> live m = {}" by (auto simp: obj_blocks_def)
    then show ?thesis using 4 e3 by (simp add: unfold allocated_def)
  qed
qed

section \<open>Update\<close>

text \<open>
  What a call of \<^verbatim>\<open>update\<close> guarantees, where \<open>L\<close> is the memory in use by everything but the updater:
  nothing of it is touched and nothing is leaked, and a success means that the new table is the list.
\<close>

definition id32_updated :: "('h, 'k) id32_env \<Rightarrow> ('k \<times> u32) list \<Rightarrow> bool \<Rightarrow> u64 set \<Rightarrow> eResult \<Rightarrow> 'k id32_updater \<Rightarrow> u64 set \<Rightarrow> bool" where
  "id32_updated E data retry L r u L' \<longleftrightarrow>
     upd_ok u \<and> L' = L \<union> upd_blocks u \<and> upd_blocks u \<inter> L = {} \<and>
     (case upd_pointer u of
        None \<Rightarrow> r = errorAllocatingMemory
      | Some obj \<Rightarrow>
          r = isFull \<and> \<not> retry \<or>
          r = success \<and> id32_inv (env_params E) (obj_table obj) \<and>
          id32_get (env_params E) (obj_table obj) = map_option (clear_valid_flag (env_params E)) \<circ> map_of (rev data))"

lemma id32_fill_result: "id32_fill P data t = (r, s, t') \<Longrightarrow> r = success \<or> r = isFull"
proof -
  have i: "fst (id32_insert P key v st) \<in> {success, isFull}" for key v and st :: "id32_stats \<times> 'a id32_table"
    by (cases st) (simp add: id32_insert_def Let_def u32_upto_def id32_insert_loop_find split: option.split)
  have "r0 \<in> {success, isFull} \<Longrightarrow> fst (fold (\<lambda>(key, v) (result, st).
      let (insert_result, st) = id32_insert P key v st
      in (if insert_result \<noteq> success then insert_result else result, st)) data (r0, st0)) \<in> {success, isFull}" for r0 st0
  proof (induction data arbitrary: r0 st0)
    case (Cons kv data)
    obtain key v where kv: "kv = (key, v)" by force
    obtain r1 st1 where r1: "id32_insert P key v st0 = (r1, st1)" by (cases "id32_insert P key v st0") simp
    then have "(if r1 \<noteq> success then r1 else r0) \<in> {success, isFull}" using Cons.prems i [of key v st0] by auto
    from Cons.IH [OF this, of st1] show ?case by (simp add: kv r1)
  qed simp
  from this [of success "(zero_stats, t)"] show "id32_fill P data t = (r, s, t') \<Longrightarrow> ?thesis"
    by (auto simp: id32_fill_def Let_def split: prod.splits)
qed

lemma zero_chunks_invalid: "\<not> id32_is_valid P (pair_value (zero_chunks E i j))"
  by (simp add: zero_chunks_def id32_is_valid_def)

lemma id32_update_loop_effect:
  assumes d: "malloc_ok (env_dpdk E) used" and P: "params_ok (env_params E)" and "mm_inv used m"
  shows "\<exists>r u m'. id32_update_loop E data retry s m = Some (r, u, m') \<and> mm_inv used m' \<and>
    id32_updated E data retry (live m) r u (live m')"
  using assms
proof (induction E data retry s m rule: id32_update_loop.induct)
  case (1 E data retry s m)
  obtain obj m1 where a: "id32_allocate E (pairs_size s) m = Some (obj, m1)" "mm_inv used m1"
      "allocated E (pairs_size s) (live m) obj (live m1)"
    using id32_allocate_effect [OF 1(2,4)] by blast
  show ?case
  proof (cases obj)
    case None
    then show ?thesis
      using a by (simp add: id32_update_loop.simps [of E] allocated_def id32_updated_def upd_ok_def upd_blocks_def)
  next
    case (Some ob)
    obtain r s1 t where f: "id32_fill (env_params E) data (obj_table ob) = (r, s1, t)" by (rule prod_cases3)
    let ?u = "\<lparr>upd_stats = s1, upd_pointer = Some (ob\<lparr>obj_table := t\<rparr>)\<rparr>"
    have ob: "obj_chunks_array ob \<noteq> 0" "live m1 = live m \<union> obj_blocks ob" "obj_blocks ob \<inter> live m = {}"
        "obj_table ob = id32_create (pairs_size s) (ppc_shift (env_sizeof_pair E)) (zero_chunks E)"
      using a(3) Some by (simp_all add: allocated_def)
    have u: "upd_ok ?u" "upd_blocks ?u = obj_blocks ob" using ob(1) by (simp_all add: upd_ok_def upd_blocks_def obj_blocks_def)
    have map: "id32_inv (env_params E) t \<and> id32_get (env_params E) t = map_option (clear_valid_flag (env_params E)) \<circ> map_of (rev data)"
      if "r = success"
      using id32_fill_effect [OF 1(3) _ f [unfolded that ob(4)]] empty_inv [of "env_params E" "zero_chunks E", OF zero_chunks_invalid] by simp
    show ?thesis
    proof (cases "r = success \<or> \<not> retry")
      case True
      then have "id32_update_loop E data retry s m = Some (r, ?u, m1)" using a(1) Some f by (simp add: id32_update_loop.simps [of E])
      moreover have "id32_updated E data retry (live m) r ?u (live m1)"
        using u ob True map id32_fill_result [OF f] by (auto simp: id32_updated_def)
      ultimately show ?thesis using a(2) by blast
    next
      case False
      obtain m2 where c: "id32_clear E ?u m1 = Some (?u\<lparr>upd_pointer := None\<rparr>, m2)" "mm_inv used m2" "live m2 = live m1 - upd_blocks ?u"
        using id32_clear_effect [OF 1(2) a(2) u(1)] by blast
      have "live m2 = live m" using c(3) ob u(2) by auto
      moreover have "id32_update_loop E data retry s m = id32_update_loop E data retry (s1\<lparr>pairs_size := pairs_size s1 * 2\<rparr>) m2"
        using a(1) Some f c(1) False by (simp add: id32_update_loop.simps [of E _ _ s])
      ultimately show ?thesis
        using 1(1) [OF a(1) refl Some f [symmetric] refl refl False c(1) refl 1(2,3) c(2)] by simp
    qed
  qed
qed

section \<open>Properties\<close>

text \<open>
  C6: an update of a read-only hash table always returns, whatever the keys, their hashes and the
  allocations that fail: the doubling of the size ends at the latest when it wraps around to zero.
  On success the table is the map of the list; the only other outcomes are an allocation error, after
  which the updater has no table, and a full table when no retry was asked for.  All the memory that is
  in use afterwards is that of the others, untouched, and that of the new table: nothing is leaked,
  also on the error paths.
\<close>

theorem id32_update_returns_without_leak:
  assumes "malloc_ok (env_dpdk E) used" and "params_ok (env_params E)" and "mm_inv used m" and "upd_ok u"
  shows "\<exists>r u' m'. id32_update E data retry u m = Some (r, u', m') \<and> mm_inv used m' \<and>
    id32_updated E data retry (live m - upd_blocks u) r u' (live m')"
proof -
  obtain m1 where "id32_clear E u m = Some (u\<lparr>upd_pointer := None\<rparr>, m1)" "mm_inv used m1" "live m1 = live m - upd_blocks u"
    using id32_clear_effect [OF assms(1,3,4)] by blast
  with id32_update_loop_effect [OF assms(1,2), of m1] show ?thesis
    by (simp add: id32_update_def Let_def del: id32_update_loop.simps)
qed

definition id32_example_env :: "(u64 list, u32) id32_env" where
  "id32_example_env = \<lparr>env_dpdk = bump_dpdk, env_params = id32_example_params, env_name = ''acl.total.ht'',
     env_socket_id = 0, env_sizeof_table = 64, env_sizeof_pair = 8, env_zero_key = 0\<rparr>"

theorem id32_update_returns_without_leak_witness:
  "let E = id32_example_env; u = \<lparr>upd_stats = zero_stats, upd_pointer = None\<rparr>
   in malloc_ok (env_dpdk E) set \<and> params_ok (env_params E) \<and> mm_inv set empty_manager \<and> upd_ok u \<and>
      (\<exists>r u' m'. id32_update E [(3, 10), (7, 11)] True u empty_manager = Some (r, u', m') \<and> live m' = upd_blocks u')"
proof -
  let ?E = id32_example_env and ?u = "\<lparr>upd_stats = zero_stats, upd_pointer = None\<rparr> :: u32 id32_updater"
  have h: "malloc_ok (env_dpdk ?E) set" "params_ok (env_params ?E)" "mm_inv set empty_manager" "upd_ok ?u"
    by (simp add: id32_example_env_def bump_dpdk_ok, code_simp, simp_all add: empty_manager_inv upd_ok_def)
  then show ?thesis
    using empty_manager_inv(2) id32_update_returns_without_leak [OF h, of "[(3, 10), (7, 11)]" True]
    unfolding Let_def id32_updated_def by auto
qed

end
