(* ===== verification/DynamicTable.thy ===== *)
theory DynamicTable
  imports MemoryManager
begin

text \<open>
  The two-dimensional lookup table \<^verbatim>\<open>dynamic_table\<close> of \<^verbatim>\<open>src/dataplane/dynamic_table.h\<close> and its owner
  \<^verbatim>\<open>updater_dynamic_table\<close> of \<^verbatim>\<open>src/dataplane/updater.h\<close>, on the state of the memory manager.  The array
  \<^verbatim>\<open>values\<close> is a function of the index; what the allocation leaves in it is a parameter.
\<close>

section \<open>The table\<close>

record 'v dynamic_table =
  width_bits :: u32
  dt_values :: "u32 \<Rightarrow> 'v"

record dt_stats =
  keys_count :: u32
  keys_size :: u32

definition keys_size_min :: u32 where
  "keys_size_min = 8"

definition dt_calculate_sizeof :: "u64 \<Rightarrow> u64 \<Rightarrow> u32 \<Rightarrow> u64" where
  "dt_calculate_sizeof sizeof_table sizeof_value sz =
     (if sz = 0 then 0 else sizeof_table + ucast sz * sizeof_value)"

definition dt_lookup :: "'v dynamic_table \<Rightarrow> u32 \<Rightarrow> u32 \<Rightarrow> 'v" where
  "dt_lookup t k1 k2 = dt_values t (push_bit (unat (width_bits t)) k1 + k2)"

definition dt_lookup_burst :: "'v dynamic_table \<Rightarrow> u32 list \<Rightarrow> u32 list \<Rightarrow> 'v list" where
  "dt_lookup_burst t k1s k2s = map2 (\<lambda>k1 k2. dt_values t (push_bit (unat (width_bits t)) k1 + k2)) k1s k2s"

definition dt_fill :: "u32 \<Rightarrow> 'v list \<Rightarrow> dt_stats \<Rightarrow> 'v dynamic_table \<Rightarrow> eResult \<times> dt_stats \<times> 'v dynamic_table" where
  "dt_fill width vs s t =
     (let s = s\<lparr>keys_count := 0\<rparr>
      in if width = 0 then (success, s, t\<lparr>width_bits := 0\<rparr>)
         else if popcount width \<noteq> 1 then (invalidCount, s, t)
         else if length vs > unat (keys_size s) then (invalidCount, s, t)
         else (success, s\<lparr>keys_count := of_nat (length vs)\<rparr>,
               t\<lparr>width_bits := of_nat (popcount (width - 1)),
                 dt_values := (\<lambda>i. if unat i < length vs then vs ! unat i else dt_values t i)\<rparr>))"

section \<open>The updater\<close>

record ('h, 'v) dt_env =
  dt_dpdk :: "'h dpdk"
  dt_name :: string
  dt_socket_id :: u32
  dt_sizeof_table :: u64
  dt_sizeof_value :: u64
  dt_garbage :: "u64 \<Rightarrow> u32 \<Rightarrow> 'v"

record 'v dt_updater =
  dt_stats_of :: dt_stats
  dt_pointer :: "(u64 \<times> 'v dynamic_table) option"

definition dt_clear :: "('h, 'v) dt_env \<Rightarrow> 'v dt_updater \<Rightarrow> 'h memory_manager \<Rightarrow> ('v dt_updater \<times> 'h memory_manager) option" where
  "dt_clear E u m =
     (case dt_pointer u of
        None \<Rightarrow> Some (u, m)
      | Some (p, _) \<Rightarrow> map_option (Pair (u\<lparr>dt_pointer := None\<rparr>)) (mm_destroy (dt_dpdk E) (\<lambda>_. None) p m))"

lemma dt_alloc_zero: "mm_alloc d n k (dt_calculate_sizeof a b 0) m = (0, m)"
  by (simp add: dt_calculate_sizeof_def mm_alloc_def)

lemma dt_fill_keys_size: "dt_fill width vs s t = (r, s', t') \<Longrightarrow> keys_size s' = keys_size s"
  by (auto simp: dt_fill_def Let_def split: if_splits)

function dt_update_loop :: "('h, 'v) dt_env \<Rightarrow> u32 \<Rightarrow> 'v list \<Rightarrow> dt_stats \<Rightarrow> 'h memory_manager \<Rightarrow>
  (eResult \<times> 'v dt_updater \<times> 'h memory_manager) option" where
  "dt_update_loop E width vs s m =
     (case mm_create (dt_dpdk E) (dt_name E) (dt_socket_id E)
            (dt_calculate_sizeof (dt_sizeof_table E) (dt_sizeof_value E) (keys_size s)) m of
        (p, m) \<Rightarrow>
          if p = 0 then Some (errorAllocatingMemory, \<lparr>dt_stats_of = s, dt_pointer = None\<rparr>, m)
          else (case dt_fill width vs s \<lparr>width_bits = 0, dt_values = dt_garbage E p\<rparr> of
                  (result, s, t) \<Rightarrow>
                    if result \<noteq> success then
                      (case mm_destroy (dt_dpdk E) (\<lambda>_. None) p m of
                         None \<Rightarrow> None
                       | Some m \<Rightarrow> dt_update_loop E width vs (s\<lparr>keys_size := keys_size s * 2\<rparr>) m)
                    else Some (success, \<lparr>dt_stats_of = s, dt_pointer = Some (p, t)\<rparr>, m)))"
  by pat_completeness auto
termination
proof (relation "measure (\<lambda>(E, width, vs, s, m). doublings (keys_size s))", goal_cases)
  case (2 E width vs s m p m' r y s' t x)
  have "keys_size s' = keys_size s" using 2 dt_fill_keys_size by metis
  moreover have "keys_size s \<noteq> 0"
  proof
    assume "keys_size s = 0"
    with 2(1) have "(p, m') = (0, m)" by (simp only: dt_alloc_zero mm_create_alloc)
    with 2(2) show False by simp
  qed
  ultimately show ?case by (simp add: doublings_times_2)
qed simp

declare dt_update_loop.simps [simp del]

definition dt_update :: "('h, 'v) dt_env \<Rightarrow> u32 \<Rightarrow> 'v list \<Rightarrow> 'v dt_updater \<Rightarrow> 'h memory_manager \<Rightarrow>
  (eResult \<times> 'v dt_updater \<times> 'h memory_manager) option" where
  "dt_update E width vs u m =
     (let s = (dt_stats_of u)\<lparr>keys_size := max keys_size_min (of_nat (length vs))\<rparr>
      in Option.bind (dt_clear E u m) (\<lambda>(_, m). dt_update_loop E width vs s m))"

definition dt_init :: "('h, 'v) dt_env \<Rightarrow> 'v dt_updater \<Rightarrow> 'h memory_manager \<Rightarrow>
  (eResult \<times> 'v dt_updater \<times> 'h memory_manager) option" where
  "dt_init E u m = dt_update E 0 [] u m"

definition dt_limits :: "('h, 'v) dt_env \<Rightarrow> 'v dt_updater \<Rightarrow> (string \<times> u32 \<times> u32 \<times> u32) list" where
  "dt_limits E u = [(dt_name E @ ''.keys'', dt_socket_id E, keys_count (dt_stats_of u), keys_size (dt_stats_of u))]"

section \<open>Update\<close>

definition dt_blocks :: "'v dt_updater \<Rightarrow> u64 set" where
  "dt_blocks u = (case dt_pointer u of None \<Rightarrow> {} | Some (p, _) \<Rightarrow> {p})"

definition dt_filled :: "u32 \<Rightarrow> 'v list \<Rightarrow> 'v dynamic_table \<Rightarrow> bool" where
  "dt_filled width vs t \<longleftrightarrow>
     width = 0 \<or>
     popcount width = 1 \<and> length vs < 2 ^ 32 \<and> width_bits t = of_nat (popcount (width - 1)) \<and>
     (\<forall>i. unat i < length vs \<longrightarrow> dt_values t i = vs ! unat i)"

lemma dt_fill_success:
  assumes "dt_fill width vs s t = (success, s', t')"
  shows "dt_filled width vs t'"
  using assms unsigned_less [of "keys_size s", where ?'a = nat]
  by (auto simp: dt_fill_def dt_filled_def Let_def split: if_splits)

lemma dt_clear_effect:
  assumes "malloc_ok (dt_dpdk E) used" and "mm_inv used m"
  shows "\<exists>u' m'. dt_clear E u m = Some (u', m') \<and> mm_inv used m' \<and> live m' = live m - dt_blocks u"
proof (cases "dt_pointer u")
  case None
  then show ?thesis using assms by (simp add: dt_clear_def dt_blocks_def)
next
  case (Some pt)
  obtain m' where "mm_destroy (dt_dpdk E) (\<lambda>_. None) (fst pt) m = Some m'" "mm_inv used m'" "live m' = live m - {fst pt}"
    using destroy_effect [OF assms] .
  then show ?thesis using Some by (cases pt) (simp add: dt_clear_def dt_blocks_def)
qed

definition dt_updated :: "u32 \<Rightarrow> 'v list \<Rightarrow> u64 set \<Rightarrow> eResult \<Rightarrow> 'v dt_updater \<Rightarrow> u64 set \<Rightarrow> bool" where
  "dt_updated width vs L r u L' \<longleftrightarrow>
     L' = L \<union> dt_blocks u \<and> dt_blocks u \<inter> L = {} \<and>
     (case dt_pointer u of None \<Rightarrow> r = errorAllocatingMemory | Some (_, t) \<Rightarrow> r = success \<and> dt_filled width vs t)"

lemma dt_update_loop_effect:
  assumes "malloc_ok (dt_dpdk E) used" and "mm_inv used m"
  shows "\<exists>r u m'. dt_update_loop E width vs s m = Some (r, u, m') \<and> mm_inv used m' \<and> dt_updated width vs (live m) r u (live m')"
  using assms
proof (induction E width vs s m rule: dt_update_loop.induct)
  case (1 E width vs s m)
  obtain p m1 where a: "mm_alloc (dt_dpdk E) (dt_name E) (dt_socket_id E)
      (dt_calculate_sizeof (dt_sizeof_table E) (dt_sizeof_value E) (keys_size s)) m = (p, m1)" by force
  note e = mm_alloc_effect [OF 1(2,3) a]
  show ?case
  proof (cases "p = 0")
    case True
    then show ?thesis using e a by (simp add: dt_update_loop.simps [of E] dt_updated_def dt_blocks_def)
  next
    case False
    obtain r s1 t where f: "dt_fill width vs s \<lparr>width_bits = 0, dt_values = dt_garbage E p\<rparr> = (r, s1, t)" by (rule prod_cases3)
    show ?thesis
    proof (cases "r = success")
      case True
      then show ?thesis using False e a f dt_fill_success [OF f [unfolded True]]
        by (simp add: dt_update_loop.simps [of E] dt_updated_def dt_blocks_def)
    next
      case fail: False
      obtain m2 where d: "mm_destroy (dt_dpdk E) (\<lambda>_. None) p m1 = Some m2" "mm_inv used m2" "live m2 = live m1 - {p}"
        using destroy_effect [OF 1(2) conjunct1 [OF e]] .
      have "live m2 = live m" using d(3) e False by simp
      moreover have "dt_update_loop E width vs s m = dt_update_loop E width vs (s1\<lparr>keys_size := keys_size s1 * 2\<rparr>) m2"
        using a False f fail d(1) by (simp add: dt_update_loop.simps [of E _ _ s])
      ultimately show ?thesis
        using 1(1) [OF a [folded mm_create_alloc, symmetric] False f [symmetric] refl fail d(1) 1(2) d(2)] by simp
    qed
  qed
qed

lemma dt_update_effect:
  assumes "malloc_ok (dt_dpdk E) used" and "mm_inv used m"
  shows "\<exists>r u' m'. dt_update E width vs u m = Some (r, u', m') \<and> mm_inv used m' \<and>
    dt_updated width vs (live m - dt_blocks u) r u' (live m')"
proof -
  obtain u1 m1 where "dt_clear E u m = Some (u1, m1)" "mm_inv used m1" "live m1 = live m - dt_blocks u"
    using dt_clear_effect [OF assms] by blast
  with dt_update_loop_effect [OF assms(1), of m1] show ?thesis by (simp add: dt_update_def Let_def)
qed

lemma dt_lookup_row_major:
  assumes "dt_filled width vs t" and "width \<noteq> 0" and "unat k1 * unat width + unat k2 < length vs"
  shows "dt_lookup t k1 k2 = vs ! (unat k1 * unat width + unat k2)"
proof -
  obtain k where k: "k < 32" "width = 2 ^ k" using assms(1,2) popcount_eq_1 [of width] by (auto simp: dt_filled_def)
  have "k < 2 ^ 32" using k(1) by simp
  then have w: "unat (width_bits t) = k" using assms(1,2) k by (simp add: dt_filled_def popcount_minus_1 unat_of_nat_small)
  have "unat (of_nat (2 ^ k) :: u32) = 2 ^ k" using k(1) power_strict_increasing [of k 32 "2 :: nat"] by (intro unat_of_nat_small) simp
  then have uw: "unat width = 2 ^ k" using k(2) by simp
  have lt: "unat k1 * 2 ^ k + unat k2 < 2 ^ 32" using assms(1-3) uw by (simp add: dt_filled_def)
  then have "unat (push_bit k k1 + k2) = unat k1 * 2 ^ k + unat k2"
    using \<open>unat (of_nat (2 ^ k) :: u32) = 2 ^ k\<close> by (simp add: push_bit_eq_mult unat_word_ariths)
  then show ?thesis using assms w uw by (simp add: dt_lookup_def dt_filled_def)
qed

section \<open>Properties\<close>

text \<open>
  C23: an update of a two-dimensional table whose width is a power of two always returns and leaks
  nothing; it succeeds unless an allocation fails, and afterwards the lookup of row \<open>k1\<close> and column \<open>k2\<close>
  reads the entry \<open>k1 * width + k2\<close> of the list, for every such entry, without wrapping around.
\<close>

theorem dt_update_row_major:
  assumes "malloc_ok (dt_dpdk E) used" and "mm_inv used m" and "width \<noteq> 0"
  shows "\<exists>r u' m'. dt_update E width vs u m = Some (r, u', m') \<and> mm_inv used m' \<and>
    live m' = (live m - dt_blocks u) \<union> dt_blocks u' \<and>
    (case dt_pointer u' of
       None \<Rightarrow> r = errorAllocatingMemory
     | Some (_, t) \<Rightarrow> r = success \<and>
         (\<forall>k1 k2. unat k1 * unat width + unat k2 < length vs \<longrightarrow>
            dt_lookup t k1 k2 = vs ! (unat k1 * unat width + unat k2)))"
proof -
  obtain r u' m' where u: "dt_update E width vs u m = Some (r, u', m')" "mm_inv used m'"
      "dt_updated width vs (live m - dt_blocks u) r u' (live m')"
    using dt_update_effect [OF assms(1,2)] by blast
  show ?thesis
    using u dt_lookup_row_major [of width vs _, OF _ assms(3)]
    by (intro exI [of _ r] exI [of _ u'] exI [of _ m']) (auto simp: dt_updated_def split: option.splits)
qed

definition dt_example_env :: "(u64 list, u32) dt_env" where
  "dt_example_env = \<lparr>dt_dpdk = bump_dpdk, dt_name = ''acl.network.table'', dt_socket_id = 0,
     dt_sizeof_table = 4, dt_sizeof_value = 4, dt_garbage = (\<lambda>_ _. 0)\<rparr>"

definition dt_example_updater :: "u32 dt_updater" where
  "dt_example_updater = \<lparr>dt_stats_of = \<lparr>keys_count = 0, keys_size = 0\<rparr>, dt_pointer = None\<rparr>"

lemma dt_example: "malloc_ok (dt_dpdk dt_example_env) set" "dt_blocks dt_example_updater = {}"
  by (simp_all add: dt_example_env_def bump_dpdk_ok dt_blocks_def dt_example_updater_def)

theorem dt_update_row_major_witness:
  "malloc_ok (dt_dpdk dt_example_env) set \<and> mm_inv set empty_manager \<and>
   (\<exists>u' m'. dt_update dt_example_env 2 [1, 2, 3, 4] dt_example_updater empty_manager = Some (success, u', m') \<and>
      live m' = dt_blocks u' \<and> (\<exists>p t. dt_pointer u' = Some (p, t) \<and> dt_lookup t 1 0 = 3))"
proof -
  have "map_option fst (dt_update dt_example_env 2 [1, 2, 3, 4] dt_example_updater empty_manager) = Some success" by code_simp
  with dt_update_row_major [OF dt_example(1) empty_manager_inv(1), of 2 "[1, 2, 3, 4]" dt_example_updater] show ?thesis
    using dt_example empty_manager_inv by (auto split: option.splits prod.splits)
qed

text \<open>
  A width that is neither zero nor a power of two is never reported as such.  The update takes the
  refusal of \<^verbatim>\<open>fill\<close> for a lack of space, doubles the size until an allocation fails, and returns the
  allocation error, whatever memory there is.
\<close>

lemma dt_update_wrong_width:
  assumes "malloc_ok (dt_dpdk E) used" and "mm_inv used m" and "width \<noteq> 0" and "popcount width \<noteq> 1"
  shows "\<exists>u' m'. dt_update E width vs u m = Some (errorAllocatingMemory, u', m') \<and> dt_pointer u' = None"
proof -
  obtain r u' m' where u: "dt_update E width vs u m = Some (r, u', m')" "dt_updated width vs (live m - dt_blocks u) r u' (live m')"
    using dt_update_effect [OF assms(1,2)] by blast
  then show ?thesis using assms(3,4) by (auto simp: dt_updated_def dt_filled_def split: option.splits)
qed

end
