(* ===== verification/Refarray.thy ===== *)
theory Refarray
  imports Prelude
begin

text \<open>
  The reference-counted table of values \<^verbatim>\<open>common::refarray_t\<close> of \<^verbatim>\<open>src/common/refarray.h\<close>, which gives
  values the smallest numbers possible.  The two \<^verbatim>\<open>std::map\<close> members are partial functions; the template
  parameter \<^verbatim>\<open>size_T\<close> is an argument.  \<^verbatim>\<open>ids_unused\<close> is a vector used at its end.
\<close>

section \<open>Operations\<close>

record 'v refarray =
  ids_unused :: "u64 list"
  ids_unused_watermark :: u64
  ref_values :: "'v \<rightharpoonup> u64 \<times> u64"
  ref_ids :: "u64 \<rightharpoonup> 'v"
  ids_unused_size :: u64

definition ref_new :: "u64 \<Rightarrow> 'v refarray" where
  "ref_new size_T = \<lparr>ids_unused = [], ids_unused_watermark = 0, ref_values = Map.empty, ref_ids = Map.empty,
     ids_unused_size = size_T\<rparr>"

definition ref_exist_id :: "'v refarray \<Rightarrow> u64 \<Rightarrow> bool" where
  "ref_exist_id r i \<longleftrightarrow> ref_ids r i \<noteq> None"

definition ref_exist_value :: "'v refarray \<Rightarrow> 'v \<Rightarrow> bool" where
  "ref_exist_value r v \<longleftrightarrow> ref_values r v \<noteq> None"

definition ref_update :: "'v \<Rightarrow> 'v refarray \<Rightarrow> bool \<times> 'v refarray" where
  "ref_update v r =
     (case ref_values r v of
        None \<Rightarrow> (False, r)
      | Some (refcount, i) \<Rightarrow> (True, r\<lparr>ref_values := (ref_values r)(v \<mapsto> (refcount + 1, i))\<rparr>))"

definition ref_insert :: "u64 \<Rightarrow> 'v \<Rightarrow> 'v refarray \<Rightarrow> u64 option \<times> 'v refarray" where
  "ref_insert size_T v r =
     (if ids_unused r = [] \<and> ids_unused_watermark r = size_T then (None, r)
      else let r = r\<lparr>ids_unused_size := ids_unused_size r - 1\<rparr>;
               (i, r) = (if ids_unused r \<noteq> [] then (last (ids_unused r), r\<lparr>ids_unused := butlast (ids_unused r)\<rparr>)
                         else (ids_unused_watermark r, r\<lparr>ids_unused_watermark := ids_unused_watermark r + 1\<rparr>))
           in (Some i, r\<lparr>ref_values := (ref_values r)(v \<mapsto> (1, i)), ref_ids := (ref_ids r)(i \<mapsto> v)\<rparr>))"

definition ref_update_or_insert :: "u64 \<Rightarrow> 'v \<Rightarrow> 'v refarray \<Rightarrow> u64 option \<times> 'v refarray" where
  "ref_update_or_insert size_T v r =
     (case ref_values r v of
        Some (refcount, i) \<Rightarrow> (Some i, r\<lparr>ref_values := (ref_values r)(v \<mapsto> (refcount + 1, i))\<rparr>)
      | None \<Rightarrow> ref_insert size_T v r)"

text \<open>
  \<^verbatim>\<open>values[value]\<close> in \<^verbatim>\<open>remove_id\<close> would create a missing entry with the count 0; the branch that does so
  cannot be reached, because every number in \<^verbatim>\<open>ids\<close> has its value in \<^verbatim>\<open>values\<close>.
\<close>

definition ref_remove_id :: "u64 \<Rightarrow> 'v refarray \<Rightarrow> 'v option \<times> 'v refarray" where
  "ref_remove_id i r =
     (case ref_ids r i of
        None \<Rightarrow> (None, r)
      | Some v \<Rightarrow>
          let (refcount, values_id) = (case ref_values r v of Some p \<Rightarrow> p | None \<Rightarrow> (0, 0));
              refcount = refcount - 1;
              r = r\<lparr>ref_values := (ref_values r)(v \<mapsto> (refcount, values_id))\<rparr>
          in if refcount \<noteq> 0 then (None, r)
             else (Some v, r\<lparr>ids_unused_size := ids_unused_size r + 1, ids_unused := ids_unused r @ [i],
                     ref_values := (ref_values r)(v := None), ref_ids := (ref_ids r)(i := None)\<rparr>))"

definition ref_remove_value :: "'v \<Rightarrow> 'v refarray \<Rightarrow> u64 option \<times> 'v refarray" where
  "ref_remove_value v r =
     (case ref_values r v of
        None \<Rightarrow> (None, r)
      | Some (refcount, i) \<Rightarrow>
          let refcount = refcount - 1;
              r = r\<lparr>ref_values := (ref_values r)(v \<mapsto> (refcount, i))\<rparr>
          in if refcount \<noteq> 0 then (None, r)
             else (Some i, r\<lparr>ids_unused_size := ids_unused_size r + 1, ids_unused := ids_unused r @ [i],
                     ref_ids := (ref_ids r)(i := None), ref_values := (ref_values r)(v := None)\<rparr>))"

text \<open>\<^verbatim>\<open>get_id\<close> and \<^verbatim>\<open>get_value\<close> dereference the iterator without a test: \<open>None\<close> is undefined behaviour.\<close>

definition ref_get_id :: "'v refarray \<Rightarrow> 'v \<Rightarrow> u64 option" where
  "ref_get_id r v = map_option snd (ref_values r v)"

definition ref_get_value :: "'v refarray \<Rightarrow> u64 \<Rightarrow> 'v option" where
  "ref_get_value r i = ref_ids r i"

definition ref_clear :: "u64 \<Rightarrow> 'v refarray \<Rightarrow> 'v refarray" where
  "ref_clear size_T r = r\<lparr>ids_unused := [], ids_unused_size := size_T, ids_unused_watermark := 0,
     ref_values := Map.empty, ref_ids := Map.empty\<rparr>"

definition ref_stats :: "u64 \<Rightarrow> 'v refarray \<Rightarrow> u64 \<times> u64" where
  "ref_stats size_T r = (size_T - ids_unused_size r, size_T)"

section \<open>Invariant\<close>

text \<open>
  Values and numbers correspond one to one, every count is positive, and the numbers below the
  watermark are exactly those in use and those returned, each once.
\<close>

definition ref_inv :: "u64 \<Rightarrow> 'v refarray \<Rightarrow> bool" where
  "ref_inv size_T r \<longleftrightarrow>
     (\<forall>v i. ref_ids r i = Some v \<longleftrightarrow> (\<exists>c. ref_values r v = Some (c, i))) \<and>
     (\<forall>v c i. ref_values r v = Some (c, i) \<longrightarrow> c \<noteq> 0) \<and>
     distinct (ids_unused r) \<and> set (ids_unused r) \<inter> dom (ref_ids r) = {} \<and>
     set (ids_unused r) \<union> dom (ref_ids r) = {i. i < ids_unused_watermark r} \<and>
     ids_unused_watermark r \<le> size_T \<and>
     unat (ids_unused_size r) + card (dom (ref_ids r)) = unat size_T"

text \<open>The number of references to a value.\<close>

definition refs :: "'v refarray \<Rightarrow> 'v \<Rightarrow> nat" where
  "refs r v = (case ref_values r v of None \<Rightarrow> 0 | Some (c, _) \<Rightarrow> unat c)"

lemma ref_new_inv: "ref_inv size_T (ref_new size_T)" and ref_clear_inv: "ref_inv size_T (ref_clear size_T r)"
  by (simp_all add: ref_inv_def ref_new_def ref_clear_def)

lemma finite_ids: "ref_inv size_T r \<Longrightarrow> finite (dom (ref_ids r))"
  by (rule finite_subset [of _ UNIV]) simp_all

text \<open>A change of a count alone.\<close>

lemma recount_inv:
  assumes "ref_inv size_T r" and "ref_values r v = Some (c, i)" and "c' \<noteq> 0"
  shows "ref_inv size_T (r\<lparr>ref_values := (ref_values r)(v \<mapsto> (c', i))\<rparr>)"
  using assms unfolding ref_inv_def by (auto split: if_splits)

text \<open>A number that is not in use goes to a new value.\<close>

definition ref_take :: "'v \<Rightarrow> u64 \<Rightarrow> 'v refarray \<Rightarrow> 'v refarray" where
  "ref_take v i r = r\<lparr>ref_values := (ref_values r)(v \<mapsto> (1, i)), ref_ids := (ref_ids r)(i \<mapsto> v)\<rparr>"

lemma ref_insert_cases:
  assumes inv: "ref_inv size_T r" and "ref_insert size_T v r = (Some i, r')"
  obtains us w where "r' = ref_take v i (r\<lparr>ids_unused_size := ids_unused_size r - 1, ids_unused := us, ids_unused_watermark := w\<rparr>)"
    and "i \<notin> dom (ref_ids r)" and "distinct us" and "i \<notin> set us" and "w \<le> size_T"
    and "insert i (set us \<union> dom (ref_ids r)) = {j. j < w}" and "set us \<inter> dom (ref_ids r) = {}"
    and "card (dom (ref_ids r)) < unat size_T"
proof (cases "ids_unused r = []")
  case True
  let ?w = "ids_unused_watermark r"
  have dom: "dom (ref_ids r) = {j. j < ?w}" using inv True by (simp add: ref_inv_def)
  have w: "?w \<noteq> size_T" "?w \<le> size_T" using assms True by (auto simp: ref_insert_def ref_inv_def)
  then have lt: "?w < size_T" by simp
  then have "?w + 1 \<le> size_T" by (rule inc_le)
  moreover have "unat (?w + 1) = Suc (unat ?w)"
    using lt unsigned_less [of size_T, where ?'a = nat] by (simp add: word_less_nat_alt unat_word_ariths)
  then have "insert ?w {j. j < ?w} = {j. j < ?w + 1}" by (auto simp: word_less_nat_alt word_unat_eq_iff)
  ultimately show thesis
    using that [where us = "[]" and w = "?w + 1"] assms True dom w lt card_words_below [of ?w]
    by (auto simp: ref_insert_def ref_take_def Let_def word_less_nat_alt)
next
  case False
  then obtain us j where us: "ids_unused r = us @ [j]" by (metis rev_exhaust)
  have "card (dom (ref_ids r)) < card {j. j < ids_unused_watermark r}"
    using inv us by (intro psubset_card_mono) (auto simp: ref_inv_def)
  also have "\<dots> \<le> unat size_T" using inv by (simp add: card_words_below ref_inv_def word_le_nat_alt)
  finally show thesis
    using that [where us = us and w = "ids_unused_watermark r"] assms us
    by (auto simp: ref_insert_def ref_take_def Let_def ref_inv_def)
qed

lemma ref_insert_inv:
  assumes inv: "ref_inv size_T r" and new: "ref_values r v = None" and ins: "ref_insert size_T v r = (Some i, r')"
  shows "ref_inv size_T r'" and "ref_ids r i = None" and "ref_values r' = (ref_values r)(v \<mapsto> (1, i))"
    and "ref_ids r' = (ref_ids r)(i \<mapsto> v)"
proof -
  obtain us w where r': "r' = ref_take v i (r\<lparr>ids_unused_size := ids_unused_size r - 1, ids_unused := us, ids_unused_watermark := w\<rparr>)"
    and f: "i \<notin> dom (ref_ids r)" "distinct us" "i \<notin> set us" "w \<le> size_T"
    "insert i (set us \<union> dom (ref_ids r)) = {j. j < w}" "set us \<inter> dom (ref_ids r) = {}"
    "card (dom (ref_ids r)) < unat size_T"
    using ref_insert_cases [OF inv ins] .
  show i: "ref_ids r i = None" and "ref_values r' = (ref_values r)(v \<mapsto> (1, i))" "ref_ids r' = (ref_ids r)(i \<mapsto> v)"
    using f(1) by (auto simp: r' ref_take_def)
  have map: "\<forall>v i. ref_ids r i = Some v \<longleftrightarrow> (\<exists>c. ref_values r v = Some (c, i))"
    and size: "unat (ids_unused_size r) + card (dom (ref_ids r)) = unat size_T"
    and pos: "\<forall>v c i. ref_values r v = Some (c, i) \<longrightarrow> c \<noteq> 0"
    using inv by (simp_all add: ref_inv_def)
  have "unat (ids_unused_size r - 1) = unat (ids_unused_size r) - 1" using size f(7) by (intro unat_minus_one) auto
  then have size': "unat (ids_unused_size r - 1) + card (insert i (dom (ref_ids r))) = unat size_T"
    using size f(1,7) by simp
  show "ref_inv size_T r'"
    unfolding ref_inv_def
  proof (intro conjI)
    show "\<forall>u j. ref_ids r' j = Some u \<longleftrightarrow> (\<exists>c. ref_values r' u = Some (c, j))"
      using map new i by (auto simp: r' ref_take_def) (metis option.simps(3))
  qed (use f size' pos in \<open>auto simp: r' ref_take_def\<close>)
qed

lemma ref_insert_full:
  assumes "ref_inv size_T r" and "ref_insert size_T v r = (None, r')"
  shows "r' = r" and "card (dom (ref_ids r)) = unat size_T"
proof -
  have u: "ids_unused r = []" "ids_unused_watermark r = size_T" "r' = r"
    using assms(2) by (auto simp: ref_insert_def Let_def split: if_splits prod.splits)
  then have "dom (ref_ids r) = {j. j < size_T}" using assms(1) by (simp add: ref_inv_def)
  then show "r' = r" "card (dom (ref_ids r)) = unat size_T" using u by (simp_all add: card_words_below)
qed

text \<open>The last reference is given up.\<close>

lemma ref_drop_inv:
  assumes inv: "ref_inv size_T r" and v: "ref_values r v = Some (c, i)"
  shows "ref_inv size_T (r\<lparr>ids_unused_size := ids_unused_size r + 1, ids_unused := ids_unused r @ [i],
    ref_values := (ref_values r)(v := None), ref_ids := (ref_ids r)(i := None)\<rparr>)" (is "ref_inv _ ?r")
proof -
  have map: "\<forall>v i. ref_ids r i = Some v \<longleftrightarrow> (\<exists>c. ref_values r v = Some (c, i))"
    and size: "unat (ids_unused_size r) + card (dom (ref_ids r)) = unat size_T"
    and rest: "\<forall>v c i. ref_values r v = Some (c, i) \<longrightarrow> c \<noteq> 0" "distinct (ids_unused r)"
      "set (ids_unused r) \<inter> dom (ref_ids r) = {}" "set (ids_unused r) \<union> dom (ref_ids r) = {j. j < ids_unused_watermark r}"
      "ids_unused_watermark r \<le> size_T"
    using inv by (simp_all add: ref_inv_def)
  have i: "ref_ids r i = Some v" using map v by blast
  have fin: "finite (dom (ref_ids r))" using finite_ids [OF inv] .
  have pos: "0 < card (dom (ref_ids r))" using i fin by (auto simp: card_gt_0_iff)
  then have "unat (ids_unused_size r) + 1 \<le> unat size_T" using size by linarith
  then have "unat (ids_unused_size r + 1) = unat (ids_unused_size r) + 1"
    using unsigned_less [of size_T, where ?'a = nat] by (simp add: unat_word_ariths)
  then have size': "unat (ids_unused_size r + 1) + card (dom (ref_ids r) - {i}) = unat size_T"
    using size pos i fin by (simp add: card_Diff_singleton domI)
  show ?thesis
    unfolding ref_inv_def
  proof (intro conjI)
    show "\<forall>u j. ref_ids ?r j = Some u \<longleftrightarrow> (\<exists>c. ref_values ?r u = Some (c, j))"
      using map v i by (auto split: if_splits) (metis option.inject prod.inject)+
  qed (use rest size' i in \<open>auto split: if_splits\<close>)
qed

lemma drop_order: "r\<lparr>ids_unused_size := a, ids_unused := b, ref_ids := c, ref_values := d\<rparr>
    = r\<lparr>ids_unused_size := a, ids_unused := b, ref_values := d, ref_ids := c\<rparr>" for r :: "'v refarray"
  by (cases r) simp

section \<open>Counting references\<close>

lemma refs_insert: "ref_values r' = (ref_values r)(v \<mapsto> (1, i)) \<Longrightarrow> ref_values r v = None \<Longrightarrow> refs r' = (refs r)(v := Suc (refs r v))"
  by (auto simp: refs_def)

text \<open>
  \<^verbatim>\<open>update_or_insert\<close> adds one reference and keeps the numbers of all values, or the table is full of
  other values.
\<close>

lemma ref_acquire:
  assumes inv: "ref_inv size_T r" and "refs r v < 2 ^ 64 - 1" and a: "ref_update_or_insert size_T v r = (res, r')"
  shows "ref_inv size_T r' \<and>
    (case res of
       None \<Rightarrow> r' = r \<and> refs r v = 0 \<and> card (dom (ref_ids r)) = unat size_T
     | Some i \<Rightarrow> refs r' = (refs r)(v := Suc (refs r v)) \<and> ref_get_id r' v = Some i \<and>
         (\<forall>u. refs r u \<noteq> 0 \<longrightarrow> ref_get_id r' u = ref_get_id r u))"
proof (cases "ref_values r v")
  case None
  then have ins: "ref_insert size_T v r = (res, r')" using a by (simp add: ref_update_or_insert_def)
  show ?thesis
  proof (cases res)
    case N: None
    then show ?thesis using ref_insert_full [OF inv ins [unfolded N]] inv None by (simp add: refs_def)
  next
    case (Some i)
    note e = ref_insert_inv [OF inv None ins [unfolded Some]]
    show ?thesis using Some e refs_insert [OF e(3) None] None by (auto simp: ref_get_id_def refs_def split: if_splits)
  qed
next
  case (Some p)
  obtain c i where p: "p = (c, i)" by force
  have c: "unat c < 2 ^ 64 - 1" using assms(2) Some p by (simp add: refs_def)
  then have u: "unat (c + 1) = Suc (unat c)" by (simp add: unat_word_ariths)
  then have "c + 1 \<noteq> 0" by auto
  then show ?thesis
    using recount_inv [OF inv Some [unfolded p], of "c + 1"] a Some p u
    by (auto simp: ref_update_or_insert_def refs_def ref_get_id_def fun_eq_iff)
qed

text \<open>\<^verbatim>\<open>remove_value\<close> takes one reference away and reports the number exactly when it was the last.\<close>

lemma ref_release:
  assumes inv: "ref_inv size_T r" and d: "ref_remove_value v r = (res, r')"
  shows "ref_inv size_T r' \<and> refs r' = (refs r)(v := refs r v - 1) \<and>
    (res \<noteq> None \<longleftrightarrow> refs r v = 1) \<and> (\<forall>u. refs r' u \<noteq> 0 \<longrightarrow> ref_get_id r' u = ref_get_id r u)"
proof (cases "ref_values r v")
  case None
  then show ?thesis using d inv by (auto simp: ref_remove_value_def refs_def)
next
  case (Some p)
  obtain c i where p: "p = (c, i)" by force
  have c: "c \<noteq> 0" using inv Some p unfolding ref_inv_def by blast
  then have u: "unat (c - 1) = unat c - 1" by (rule unat_minus_one)
  have "unat c \<noteq> 0" using c by (simp add: word_unat_eq_iff)
  then have one: "c - 1 = 0 \<longleftrightarrow> unat c = 1" unfolding word_unat_eq_iff [of "c - 1"] u unsigned_0 by arith
  show ?thesis
  proof (cases "c - 1 = 0")
    case True
    then show ?thesis
      using d Some p ref_drop_inv [OF inv Some [unfolded p]] one
      by (auto simp: ref_remove_value_def Let_def refs_def ref_get_id_def drop_order)
  next
    case False
    then show ?thesis
      using d Some p recount_inv [OF inv Some [unfolded p] False] u one
      by (auto simp: ref_remove_value_def Let_def refs_def ref_get_id_def fun_eq_iff)
  qed
qed

end
