(* ===== verification/Weight.thy ===== *)
theory Weight
  imports Refarray
begin

text \<open>
  The table of weighted choices \<^verbatim>\<open>common::weight_t\<close> of \<^verbatim>\<open>src/common/weight.h\<close>: every list of weights gets a
  range of an array in which the number of an item occurs as often as its weight, so that a random
  index of the range chooses the items by their weights.  The first range is the fallback, 256 items
  of weight 1.  \<open>None\<close> is a write behind the end of the array.
\<close>

section \<open>Operations\<close>

record weight_table =
  w_values :: "u32 list refarray"
  w_ranges :: "u64 \<rightharpoonup> u32 \<times> u32"
  w_base :: "u8 list"
  w_size :: u32
  w_current :: u32

text \<open>The loop of \<^verbatim>\<open>insert\<close> over the weights, with \<^verbatim>\<open>std::fill_n\<close> on the array.\<close>

fun fill_items :: "u32 list \<Rightarrow> u8 \<Rightarrow> u8 list \<Rightarrow> u32 \<Rightarrow> (u8 list \<times> u32) option" where
  "fill_items [] item_i bs sz = Some (bs, sz)"
| "fill_items (weight # weights) item_i bs sz =
     (if unat sz + unat weight > length bs then None
      else fill_items weights (item_i + 1)
             (take (unat sz) bs @ replicate (unat weight) item_i @ drop (unat sz + unat weight) bs) (sz + weight))"

definition weight_fallback :: "u32 list \<Rightarrow> u32 \<times> u32 \<times> bool" where
  "weight_fallback weights = (0, min (of_nat (length weights)) 256, True)"

definition weight_insert :: "u32 \<Rightarrow> u32 list \<Rightarrow> weight_table \<Rightarrow> ((u32 \<times> u32 \<times> bool) \<times> weight_table) option" where
  "weight_insert size_T weights w =
     (if ref_exist_value (w_values w) weights then
        let w = w\<lparr>w_values := snd (ref_update weights (w_values w))\<rparr>
        in Option.bind (ref_get_id (w_values w) weights) (\<lambda>i.
             map_option (\<lambda>(a, b). ((a, b, False), w)) (w_ranges w i))
      else let weight_total = fold (\<lambda>weight t. t + weight) weights 0
           in if w_size w + weight_total > size_T then Some (weight_fallback weights, w)
              else case ref_insert (ucast size_T) weights (w_values w) of
                     (None, vs) \<Rightarrow> Some (weight_fallback weights, w\<lparr>w_values := vs\<rparr>)
                   | (Some i, vs) \<Rightarrow>
                       map_option (\<lambda>(bs, sz).
                           let range_start = w_size w; range_size = sz - range_start
                           in ((range_start, range_size, False),
                               w\<lparr>w_values := vs, w_ranges := (w_ranges w)(i \<mapsto> (range_start, range_size)),
                                 w_base := bs, w_size := sz\<rparr>))
                         (fill_items weights 0 (w_base w) (w_size w)))"

text \<open>\<^verbatim>\<open>std::vector::resize\<close>, and the constructor and \<^verbatim>\<open>clear\<close>, which differ in what the array holds before.\<close>

definition resize_bytes :: "nat \<Rightarrow> u8 list \<Rightarrow> u8 list" where
  "resize_bytes n bs = take n bs @ replicate (n - length bs) 0"

definition insert_fallback :: "u32 \<Rightarrow> weight_table \<Rightarrow> weight_table option" where
  "insert_fallback size_T w = map_option snd (weight_insert size_T (replicate 256 1) w)"

definition weight_new :: "u32 \<Rightarrow> weight_table option" where
  "weight_new size_T =
     insert_fallback size_T \<lparr>w_values = ref_new (ucast size_T), w_ranges = Map.empty,
       w_base = resize_bytes (unat size_T) [], w_size = 0, w_current = 0\<rparr>"

definition weight_clear :: "u32 \<Rightarrow> weight_table \<Rightarrow> weight_table option" where
  "weight_clear size_T w =
     insert_fallback size_T (w\<lparr>w_values := ref_clear (ucast size_T) (w_values w), w_ranges := Map.empty,
       w_size := 0, w_base := resize_bytes (unat size_T) (w_base w)\<rparr>)"

definition weight_data :: "weight_table \<Rightarrow> u8 list \<times> weight_table" where
  "weight_data w =
     (let bs = resize_bytes (unat (w_size w)) (w_base w)
      in (bs, w\<lparr>w_base := bs, w_current := w_size w\<rparr>))"

definition weight_stats :: "u32 \<Rightarrow> weight_table \<Rightarrow> u32 \<times> u32" where
  "weight_stats size_T w = (w_current w, size_T)"

section \<open>Filling\<close>

text \<open>The contents of the range of a list of weights.\<close>

fun expand :: "u32 list \<Rightarrow> u8 \<Rightarrow> u8 list" where
  "expand [] item_i = []"
| "expand (weight # weights) item_i = replicate (unat weight) item_i @ expand weights (item_i + 1)"

lemma length_expand: "length (expand weights i) = sum_list (map unat weights)"
  by (induction weights arbitrary: i) simp_all

lemma fill_items_expand:
  assumes "unat sz + sum_list (map unat weights) \<le> length bs" and "length bs < 2 ^ 32"
  shows "fill_items weights i bs sz =
    Some (take (unat sz) bs @ expand weights i @ drop (unat sz + sum_list (map unat weights)) bs,
      sz + of_nat (sum_list (map unat weights)))"
  using assms
proof (induction weights arbitrary: i bs sz)
  case (Cons weight weights)
  have u: "unat (sz + weight) = unat sz + unat weight" using Cons.prems by (simp add: unat_word_ariths)
  let ?bs = "take (unat sz) bs @ replicate (unat weight) i @ drop (unat sz + unat weight) bs"
  have len: "length ?bs = length bs" using Cons.prems by simp
  from Cons.IH [of "sz + weight" ?bs "i + 1"] Cons.prems len u show ?case
    by (simp add: ac_simps)
qed simp

section \<open>Invariant\<close>

definition in_range :: "weight_table \<Rightarrow> u32 \<Rightarrow> u32 \<Rightarrow> u8 list" where
  "in_range w a b = take (unat b) (drop (unat a) (w_base w))"

definition weight_inv :: "u32 \<Rightarrow> weight_table \<Rightarrow> bool" where
  "weight_inv size_T w \<longleftrightarrow>
     ref_inv (ucast size_T) (w_values w) \<and> length (w_base w) = unat size_T \<and> w_size w \<le> size_T \<and>
     (\<forall>weights c i. ref_values (w_values w) weights = Some (c, i) \<longrightarrow>
        (\<exists>a b. w_ranges w i = Some (a, b) \<and> unat a + unat b \<le> unat (w_size w) \<and> in_range w a b = expand weights 0))"

lemma total_of_nat: "fold (\<lambda>weight t. t + weight) weights (0 :: u32) = of_nat (sum_list (map unat weights))"
proof -
  have "fold (\<lambda>weight t. t + weight) weights a = a + of_nat (sum_list (map unat weights))" for a :: u32
    by (induction weights arbitrary: a) (simp_all add: ac_simps)
  then show ?thesis by simp
qed

text \<open>A new range lies behind all others and leaves them alone.\<close>

lemma new_range:
  assumes "unat sz + length xs \<le> length bs"
  shows "take (length xs) (drop (unat sz) (take (unat sz) bs @ xs @ drop (unat sz + length xs) bs)) = xs"
    and "unat a + unat b \<le> unat sz \<Longrightarrow>
      take (unat b) (drop (unat a) (take (unat sz) bs @ xs @ zs)) = take (unat b) (drop (unat a) bs)"
proof -
  show "take (length xs) (drop (unat sz) (take (unat sz) bs @ xs @ drop (unat sz + length xs) bs)) = xs"
    using assms by simp
  assume "unat a + unat b \<le> unat sz"
  then have "take (unat b + unat a) (take (unat sz) bs @ xs @ zs) = take (unat b + unat a) bs" using assms by (simp add: min_def)
  then show "take (unat b) (drop (unat a) (take (unat sz) bs @ xs @ zs)) = take (unat b) (drop (unat a) bs)"
    by (simp only: take_drop)
qed

lemma weight_insert_new:
  assumes inv: "weight_inv size_T w" and new: "ref_values (w_values w) weights = None"
    and fits: "unat (w_size w) + sum_list (map unat weights) \<le> unat size_T"
    and ids: "ref_insert (ucast size_T) weights (w_values w) = (Some i, vs)"
  defines "n \<equiv> of_nat (sum_list (map unat weights)) :: u32"
  defines "w' \<equiv> w\<lparr>w_values := vs, w_ranges := (w_ranges w)(i \<mapsto> (w_size w, n)),
      w_base := take (unat (w_size w)) (w_base w) @ expand weights 0 @
        drop (unat (w_size w) + sum_list (map unat weights)) (w_base w), w_size := w_size w + n\<rparr>"
  shows "weight_insert size_T weights w = Some ((w_size w, n, False), w')"
    and "weight_inv size_T w'" and "in_range w' (w_size w) n = expand weights 0"
proof -
  let ?S = "sum_list (map unat weights)"
  have T: "unat size_T < 2 ^ 32" using unsigned_less [of size_T, where ?'a = nat] by simp
  have len: "length (w_base w) = unat size_T" using inv by (simp add: weight_inv_def)
  have un: "unat n = ?S" unfolding n_def using fits T by (intro unat_of_nat_small) simp
  have us: "unat (w_size w + n) = unat (w_size w) + ?S" using fits T un by (simp add: unat_word_ariths)
  have "\<not> w_size w + n > size_T" using us fits by (simp add: word_less_nat_alt)
  then show "weight_insert size_T weights w = Some ((w_size w, n, False), w')"
    using new ids fill_items_expand [of "w_size w" weights "w_base w" 0] fits T len
    by (simp add: weight_insert_def ref_exist_value_def total_of_nat n_def [symmetric] w'_def Let_def)
  have nr: "in_range w' (w_size w) n = expand weights 0"
    using new_range(1) [of "w_size w" "expand weights 0" "w_base w"] fits len
    by (simp add: in_range_def w'_def un length_expand)
  then show "in_range w' (w_size w) n = expand weights 0" .
  have base: "w_base w' = take (unat (w_size w)) (w_base w) @ expand weights 0 @ drop (unat (w_size w) + ?S) (w_base w)"
    by (simp add: w'_def)
  have old: "in_range w' a b = in_range w a b" if "unat a + unat b \<le> unat (w_size w)" for a b
    unfolding in_range_def base by (rule new_range(2) [OF _ that]) (use fits len in \<open>simp add: length_expand\<close>)
  have rinv: "ref_inv (ucast size_T) (w_values w)" using inv by (simp add: weight_inv_def)
  note e = ref_insert_inv [OF rinv new ids]
  show "weight_inv size_T w'"
    unfolding weight_inv_def
  proof (intro conjI allI impI)
    fix ws c j assume j: "ref_values (w_values w') ws = Some (c, j)"
    show "\<exists>a b. w_ranges w' j = Some (a, b) \<and> unat a + unat b \<le> unat (w_size w') \<and> in_range w' a b = expand ws 0"
    proof (cases "ws = weights")
      case True
      then have "j = i" using j e(3) by (simp add: w'_def)
      then show ?thesis using True nr us un by (simp add: w'_def)
    next
      case False
      then have "ref_values (w_values w) ws = Some (c, j)" using j e(3) by (simp add: w'_def)
      moreover have "ref_ids (w_values w) j = Some ws" using calculation rinv unfolding ref_inv_def by blast
      then have "j \<noteq> i" using e(2) by auto
      ultimately obtain a b where ab: "w_ranges w j = Some (a, b)" "unat a + unat b \<le> unat (w_size w)" "in_range w a b = expand ws 0"
        using inv unfolding weight_inv_def by blast
      have "w_ranges w' j = Some (a, b)" using ab(1) \<open>j \<noteq> i\<close> by (simp add: w'_def)
      moreover have "unat a + unat b \<le> unat (w_size w')" using ab(2) us by (simp add: w'_def)
      ultimately show ?thesis using old [OF ab(2)] ab(3) by simp
    qed
  qed (use e(1) us fits len in \<open>auto simp: w'_def length_expand word_le_nat_alt\<close>)
qed

lemma weight_insert_known:
  assumes inv: "weight_inv size_T w" and known: "ref_values (w_values w) weights = Some (c, i)" and c: "c + 1 \<noteq> 0"
  shows "\<exists>a b w'. weight_insert size_T weights w = Some ((a, b, False), w') \<and> weight_inv size_T w' \<and> in_range w' a b = expand weights 0"
proof -
  let ?vs = "(w_values w)\<lparr>ref_values := (ref_values (w_values w))(weights \<mapsto> (c + 1, i))\<rparr>"
  let ?w = "w\<lparr>w_values := ?vs\<rparr>"
  obtain a b where ab: "w_ranges w i = Some (a, b)" "in_range w a b = expand weights 0"
    using inv known unfolding weight_inv_def by blast
  have "weight_insert size_T weights w = Some ((a, b, False), ?w)"
    using known ab(1) by (simp add: weight_insert_def ref_exist_value_def ref_update_def ref_get_id_def Let_def)
  moreover have "ref_inv (ucast size_T) ?vs" by (rule recount_inv [OF _ known c]) (use inv in \<open>simp add: weight_inv_def\<close>)
  then have "weight_inv size_T ?w"
    using inv known unfolding weight_inv_def in_range_def by (auto split: if_splits)
  ultimately show ?thesis using ab(2) by (auto simp: in_range_def)
qed

section \<open>Properties\<close>


definition example_weights :: weight_table where
  "example_weights = \<lparr>w_values = snd (ref_insert 300 [1] (ref_new 300)), w_ranges = [0 \<mapsto> (0, 1)],
     w_base = replicate 300 0, w_size = 1, w_current = 0\<rparr>"

lemma example_weights_values: "ref_insert 300 [1] (ref_new 300) = (Some 0, w_values example_weights)"
  "ref_values (w_values example_weights) = [[1] \<mapsto> (1, 0)]"
  by (simp_all add: example_weights_def ref_insert_def ref_new_def Let_def)

lemma example_weights_inv: "weight_inv 300 example_weights"
proof -
  have "ref_values (ref_new 300) [1] = None" by (simp add: ref_new_def)
  from ref_insert_inv(1) [OF ref_new_inv this example_weights_values(1)]
  have "ref_inv 300 (w_values example_weights)" .
  then show ?thesis
    by (simp add: weight_inv_def example_weights_values) (simp add: example_weights_def in_range_def)
qed


text \<open>
  C37: the sum of the weights is computed in 32 bits.  Two weights whose sum wraps around, which a route
  can carry, pass the size check, and filling the range writes behind the end of the array.
\<close>

theorem weight_insert_overflows:
  assumes "weight_inv size_T w" and "ref_values (w_values w) [0xFFFFFFFF, 1] = None"
    and "fst (ref_insert (ucast size_T) [0xFFFFFFFF, 1] (w_values w)) \<noteq> None" and "0 < w_size w"
  shows "weight_insert size_T [0xFFFFFFFF, 1] w = None"
proof -
  obtain i vs where i: "ref_insert (ucast size_T) [0xFFFFFFFF, 1] (w_values w) = (Some i, vs)"
    using assms(3) by (cases "ref_insert (ucast size_T) [0xFFFFFFFF, 1] (w_values w)") auto
  have "unat size_T < 2 ^ 32" using unsigned_less [of size_T, where ?'a = nat] by simp
  moreover have "0 < unat (w_size w)" using assms(4) by (simp add: word_less_nat_alt)
  ultimately have "unat (w_size w) + unat (0xFFFFFFFF :: u32) > length (w_base w)"
    using assms(1) by (simp add: weight_inv_def)
  moreover have "w_size w + (0 + 0xFFFFFFFF + 1) = w_size w" by simp
  ultimately show ?thesis
    using assms(1,2) i by (simp add: weight_insert_def ref_exist_value_def weight_inv_def linorder_not_less del: add_0_left)
qed

theorem weight_insert_overflows_witness:
  "weight_inv 300 example_weights \<and> weight_insert 300 [0xFFFFFFFF, 1] example_weights = None"
proof -
  have "fst (ref_insert (ucast (300 :: u32)) [0xFFFFFFFF, 1] (w_values example_weights)) \<noteq> None" by code_simp
  with weight_insert_overflows [OF example_weights_inv] example_weights_inv show ?thesis
    by (simp add: example_weights_values) (simp add: example_weights_def)
qed

end
