(* ===== verification/SegmentAllocator.thy ===== *)
theory SegmentAllocator
  imports Prelude
begin

text \<open>
  The allocator of counter numbers of \<^verbatim>\<open>src/controlplane/segment_allocator.h\<close>.  The numbers from
  \<^verbatim>\<open>IndexBegin\<close> to \<^verbatim>\<open>IndexEnd\<close> are cut into blocks; a block in use is divided into segments of one size,
  and bit masks tell which of them are handed out.  Blocks with room are kept in one doubly linked list
  per size, empty blocks in the list of size zero, full blocks in none.  The theory has the blocks, the
  lists and the allocator, and the sets of live segments they implement.
\<close>

section \<open>One block\<close>

record OneBlock =
  previous :: u32
  next_block :: u32
  block_size :: u16
  one_segment_size :: u16
  total_segments :: u16
  free_segments :: u16
  group_mask :: u64
  masks :: "nat \<Rightarrow> u64"

definition null_block :: u32 where
  "null_block = - 1"

definition error_in_block :: u16 where
  "error_in_block = - 1"

text \<open>\<^verbatim>\<open>__builtin_ctzll\<close> of a value that is not zero.\<close>

definition builtin_ctzll :: "u64 \<Rightarrow> nat" where
  "builtin_ctzll w = length (takeWhile (\<lambda>n. \<not> bit w n) [0..<64])"

text \<open>The macros \<^verbatim>\<open>ENABLE_BIT\<close>, \<^verbatim>\<open>GET_BIT\<close> and \<^verbatim>\<open>DISABLE_BIT\<close>.\<close>

definition ENABLE_BIT :: "u64 \<Rightarrow> nat \<Rightarrow> u64" where
  "ENABLE_BIT v b = v OR push_bit b 1"

definition GET_BIT :: "u64 \<Rightarrow> nat \<Rightarrow> u64" where
  "GET_BIT v b = drop_bit b v AND 1"

definition DISABLE_BIT :: "u64 \<Rightarrow> nat \<Rightarrow> u64" where
  "DISABLE_BIT v b = v AND NOT (push_bit b 1)"

text \<open>The members that \<^verbatim>\<open>Initialize\<close> leaves alone keep what the memory holds.\<close>

definition blk_Initialize :: "u32 \<Rightarrow> u32 \<Rightarrow> u32 \<Rightarrow> OneBlock \<Rightarrow> OneBlock" where
  "blk_Initialize BlockSize prv nxt b =
     b\<lparr>previous := prv, next_block := nxt, block_size := ucast BlockSize, group_mask := 0, masks := (\<lambda>_. 0)\<rparr>"

definition blk_SetSize :: "u16 \<Rightarrow> OneBlock \<Rightarrow> OneBlock" where
  "blk_SetSize segment_size b =
     (let b = b\<lparr>one_segment_size := segment_size\<rparr>;
          b = b\<lparr>total_segments := block_size b div segment_size\<rparr>
      in b\<lparr>free_segments := total_segments b\<rparr>)"

definition blk_Allocate :: "u32 \<Rightarrow> OneBlock \<Rightarrow> u16 \<times> OneBlock" where
  "blk_Allocate BlockSize b =
     (if NOT (group_mask b) = 0 then (error_in_block, b)
      else let group = builtin_ctzll (NOT (group_mask b)) in
        if unat BlockSize div 64 \<le> group \<or> NOT (masks b group) = 0 then (error_in_block, b)
        else let index_in_group = builtin_ctzll (NOT (masks b group));
                 index = of_nat (group * 64 + index_in_group)
          in if total_segments b \<le> index then (error_in_block, b)
             else let b = b\<lparr>masks := (masks b)(group := ENABLE_BIT (masks b group) index_in_group)\<rparr>;
                      b = (if NOT (masks b group) = 0 then b\<lparr>group_mask := ENABLE_BIT (group_mask b) group\<rparr> else b)
               in (index, b\<lparr>free_segments := free_segments b - 1\<rparr>))"

definition blk_Free :: "u16 \<Rightarrow> OneBlock \<Rightarrow> u16 \<times> OneBlock" where
  "blk_Free index b =
     (if total_segments b \<le> index then (error_in_block, b)
      else let group = unat (drop_bit 6 index);
               index = unat (index AND 0x003f)
        in if GET_BIT (masks b group) index = 0 then (error_in_block, b)
           else let b = b\<lparr>masks := (masks b)(group := DISABLE_BIT (masks b group) index)\<rparr>;
                    b = (if masks b group = 0 then b\<lparr>group_mask := DISABLE_BIT (group_mask b) group\<rparr> else b)
             in (0, b\<lparr>free_segments := free_segments b + 1\<rparr>))"

section \<open>The allocator\<close>

text \<open>The template parameters.\<close>

record seg_params =
  IndexBegin :: u32
  IndexEnd :: u32
  BlockSize :: u32
  MaxBufferSize :: u32
  ErrorResult :: u32

record OneSizeBlockInfo =
  head_block :: u32
  used_blocks :: u32
  busy_blocks :: u32
  used_segments :: u32

record seg_allocator =
  all_blocks :: "u32 \<Rightarrow> OneBlock"
  sizes_info :: "u16 \<Rightarrow> OneSizeBlockInfo"
  free_cells :: u32
  errors_external :: u64
  errors_internal :: u64

definition total_blocks :: "seg_params \<Rightarrow> u32" where
  "total_blocks P = (IndexEnd P - IndexBegin P + BlockSize P - 1) div BlockSize P"

definition upd_block :: "u32 \<Rightarrow> (OneBlock \<Rightarrow> OneBlock) \<Rightarrow> seg_allocator \<Rightarrow> seg_allocator" where
  "upd_block i f a = a\<lparr>all_blocks := (all_blocks a)(i := f (all_blocks a i))\<rparr>"

definition upd_info :: "u16 \<Rightarrow> (OneSizeBlockInfo \<Rightarrow> OneSizeBlockInfo) \<Rightarrow> seg_allocator \<Rightarrow> seg_allocator" where
  "upd_info s f a = a\<lparr>sizes_info := (sizes_info a)(s := f (sizes_info a s))\<rparr>"

definition RemoveFromList :: "u32 \<Rightarrow> u16 \<Rightarrow> seg_allocator \<Rightarrow> seg_allocator" where
  "RemoveFromList block_index sz a =
     (let a = upd_info sz (\<lambda>i. i\<lparr>used_blocks := used_blocks i - 1\<rparr>) a;
          prv = previous (all_blocks a block_index);
          a = (if prv \<noteq> null_block
               then upd_block prv (\<lambda>b. b\<lparr>next_block := next_block (all_blocks a block_index)\<rparr>) a else a);
          nxt = next_block (all_blocks a block_index);
          a = (if nxt \<noteq> null_block
               then upd_block nxt (\<lambda>b. b\<lparr>previous := previous (all_blocks a block_index)\<rparr>) a else a);
          a = (if head_block (sizes_info a sz) = block_index
               then upd_info sz (\<lambda>i. i\<lparr>head_block := next_block (all_blocks a block_index)\<rparr>) a else a)
      in upd_block block_index (\<lambda>b. b\<lparr>previous := null_block, next_block := null_block\<rparr>) a)"

definition InsertToList :: "u32 \<Rightarrow> u16 \<Rightarrow> seg_allocator \<Rightarrow> seg_allocator" where
  "InsertToList block_index sz a =
     (let a = upd_block block_index
                (\<lambda>b. b\<lparr>next_block := head_block (sizes_info a sz), previous := null_block\<rparr>) a
      in upd_info sz (\<lambda>i. i\<lparr>head_block := block_index, used_blocks := used_blocks i + 1\<rparr>) a)"

text \<open>The constructor, on memory whose contents are the argument.\<close>

definition seg_new :: "seg_params \<Rightarrow> (u32 \<Rightarrow> OneBlock) \<Rightarrow> seg_allocator" where
  "seg_new P mem =
     (let n = total_blocks P;
          blocks = (\<lambda>index. if index < n then blk_Initialize (BlockSize P) (index - 1) (index + 1) (mem index) else mem index);
          blocks = blocks(0 := (blocks 0)\<lparr>previous := null_block\<rparr>);
          blocks = blocks(n - 1 := (blocks (n - 1))\<lparr>next_block := null_block\<rparr>);
          blocks = blocks(n - 1 := (blocks (n - 1))\<lparr>block_size :=
                     ucast (IndexEnd P - IndexBegin P - (n - 1) * BlockSize P)\<rparr>);
          zero = \<lparr>head_block = 0, used_blocks = 0, busy_blocks = 0, used_segments = 0\<rparr>;
          sizes = (\<lambda>index. if 1 \<le> index \<and> ucast index \<le> MaxBufferSize P then zero\<lparr>head_block := null_block\<rparr> else zero)
      in \<lparr>all_blocks = blocks, sizes_info = sizes(0 := (sizes 0)\<lparr>used_blocks := n\<rparr>),
          free_cells = IndexEnd P - IndexBegin P, errors_external = 0, errors_internal = 0\<rparr>)"

definition external_error :: "seg_allocator \<Rightarrow> seg_allocator" where
  "external_error a = a\<lparr>errors_external := errors_external a + 1\<rparr>"

definition internal_error :: "seg_allocator \<Rightarrow> seg_allocator" where
  "internal_error a = a\<lparr>errors_internal := errors_internal a + 1\<rparr>"

text \<open>The part of \<^verbatim>\<open>Allocate\<close> after a block of the size has been found.\<close>

definition Allocate_in_head :: "seg_params \<Rightarrow> u16 \<Rightarrow> seg_allocator \<Rightarrow> u32 \<times> seg_allocator" where
  "Allocate_in_head P sz a =
     (let head = head_block (sizes_info a sz);
          (index_in_block, b) = blk_Allocate (BlockSize P) (all_blocks a head);
          a = upd_block head (\<lambda>_. b) a
      in if index_in_block = error_in_block then (ErrorResult P, internal_error a)
         else let result = head * BlockSize P + ucast index_in_block * ucast sz + IndexBegin P;
                  a = (if free_segments (all_blocks a head) = 0
                       then upd_info sz (\<lambda>i. i\<lparr>busy_blocks := busy_blocks i + 1\<rparr>) (RemoveFromList head sz a) else a);
                  a = upd_info sz (\<lambda>i. i\<lparr>used_segments := used_segments i + 1\<rparr>) a
           in (result, a\<lparr>free_cells := free_cells a - ucast sz\<rparr>))"

definition Allocate :: "seg_params \<Rightarrow> u16 \<Rightarrow> seg_allocator \<Rightarrow> u32 \<times> seg_allocator" where
  "Allocate P sz a =
     (if sz = 0 \<or> MaxBufferSize P < ucast sz then (ErrorResult P, external_error a)
      else if head_block (sizes_info a sz) = null_block then
        let block_index = head_block (sizes_info a 0) in
        if block_index = null_block then (ErrorResult P, a)
        else let a = RemoveFromList block_index 0 a;
                 a = upd_block block_index (blk_SetSize sz) a;
                 a = InsertToList block_index sz a
          in Allocate_in_head P sz a
      else Allocate_in_head P sz a)"

text \<open>The part of \<^verbatim>\<open>Free\<close> after the block has taken the segment back.\<close>

definition Free_in_block :: "u32 \<Rightarrow> u16 \<Rightarrow> bool \<Rightarrow> seg_allocator \<Rightarrow> seg_allocator" where
  "Free_in_block block_index sz block_was_busy a =
     (let b = all_blocks a block_index;
          a = (if block_was_busy
               then let a = (if previous b \<noteq> null_block \<or> next_block b \<noteq> null_block then internal_error a else a);
                        a = InsertToList block_index sz a
                 in upd_info sz (\<lambda>i. i\<lparr>busy_blocks := busy_blocks i - 1\<rparr>) a
               else a);
          b = all_blocks a block_index;
          a = (if free_segments b = total_segments b
               then InsertToList block_index 0 (RemoveFromList block_index sz a) else a);
          a = upd_info sz (\<lambda>i. i\<lparr>used_segments := used_segments i - 1\<rparr>) a
      in a\<lparr>free_cells := free_cells a + ucast sz\<rparr>)"

definition Free :: "seg_params \<Rightarrow> u32 \<Rightarrow> u16 \<Rightarrow> seg_allocator \<Rightarrow> bool \<times> seg_allocator" where
  "Free P start sz a =
     (if sz = 0 \<or> MaxBufferSize P < ucast sz \<or> IndexEnd P \<le> start \<or> start < IndexBegin P
      then (False, external_error a)
      else let block_index = (start - IndexBegin P) div BlockSize P;
               block = all_blocks a block_index
        in if one_segment_size block \<noteq> sz then (False, external_error a)
           else if (start - block_index * BlockSize P - IndexBegin P) mod ucast sz \<noteq> 0 then (False, external_error a)
           else let block_was_busy = (free_segments block = 0);
                    index = ucast ((start - block_index * BlockSize P - IndexBegin P) div ucast sz);
                    (res, b) = blk_Free index block;
                    a = upd_block block_index (\<lambda>_. b) a
             in if res = error_in_block then (False, external_error a)
                else (True, Free_in_block block_index sz block_was_busy a))"

definition seg_Size :: "seg_allocator \<Rightarrow> u32" where
  "seg_Size a = free_cells a"

definition GetErrors :: "seg_allocator \<Rightarrow> u64 \<times> u64" where
  "GetErrors a = (errors_external a, errors_internal a)"

section \<open>Blocks as sets of segments\<close>

definition used :: "OneBlock \<Rightarrow> nat set" where
  "used b = {i. bit (masks b (i div 64)) (i mod 64)}"

definition blk_inv :: "u32 \<Rightarrow> OneBlock \<Rightarrow> bool" where
  "blk_inv BS b \<longleftrightarrow> unat (total_segments b) \<le> unat BS \<and> used b \<subseteq> {..<unat (total_segments b)} \<and>
     unat (free_segments b) + card (used b) = unat (total_segments b) \<and>
     (\<forall>g. bit (group_mask b) g \<longrightarrow> masks b g \<noteq> 0) \<and>
     (\<forall>g. NOT (masks b g) = 0 \<longrightarrow> bit (group_mask b) g)"

definition block_size_ok :: "u32 \<Rightarrow> bool" where
  "block_size_ok BS \<longleftrightarrow> unat BS mod 64 = 0 \<and> 64 \<le> unat BS \<and> unat BS \<le> 4096"

lemma ctz_bit: "w \<noteq> 0 \<Longrightarrow> builtin_ctzll w < 64 \<and> bit w (builtin_ctzll w)"
proof -
  assume "w \<noteq> 0"
  then obtain n where n: "bit w n" by (metis bit_eqI bit_0_eq bot_apply bot_bool_def)
  then have "n < 64" using bit_imp_le_length [of w n] by simp
  have "takeWhile (\<lambda>n. \<not> bit w n) [0..<64] \<noteq> [0..<64]"
    unfolding takeWhile_eq_all_conv set_upt using n \<open>n < 64\<close> by auto
  moreover have "takeWhile (\<lambda>n. \<not> bit w n) [0..<64] = take (length (takeWhile (\<lambda>n. \<not> bit w n) [0..<64])) [0..<64]"
    by (rule takeWhile_eq_take)
  ultimately have lt: "length (takeWhile (\<lambda>n. \<not> bit w n) [0..<64]) < length [0..<64::nat]"
    by (metis not_le take_all)
  have "bit w ([0..<64] ! builtin_ctzll w)"
    unfolding builtin_ctzll_def using nth_length_takeWhile [OF lt] by simp
  then show ?thesis using lt by (simp add: builtin_ctzll_def)
qed

lemma bit_ENABLE: "k < 64 \<Longrightarrow> bit (ENABLE_BIT v k) n \<longleftrightarrow> bit v n \<or> n = k"
  by (auto simp: ENABLE_BIT_def bit_or_iff bit_exp_iff)

lemma bit_DISABLE: "k < 64 \<Longrightarrow> bit (DISABLE_BIT v k) n \<longleftrightarrow> bit v n \<and> n \<noteq> k"
  using bit_imp_le_length [of v n] by (auto simp: DISABLE_BIT_def bit_and_iff bit_not_iff bit_exp_iff)

lemma GET_BIT_0: "GET_BIT v k = 0 \<longleftrightarrow> \<not> bit v k"
  unfolding GET_BIT_def using bit_test [of k v] by blast

lemma block_split_index: "k < 64 \<Longrightarrow> (i div 64 = g \<and> i mod 64 = k) \<longleftrightarrow> i = g * 64 + (k :: nat)"
  using div_mult_mod_eq [of i 64] by auto

lemma used_enable:
  assumes "k < 64"
  shows "used (b\<lparr>masks := (masks b)(g := ENABLE_BIT (masks b g) k)\<rparr>) = insert (g * 64 + k) (used b)"
  using bit_ENABLE [OF assms] block_split_index [OF assms, of _ g]
  by (auto simp: used_def)

lemma used_disable:
  assumes "k < 64"
  shows "used (b\<lparr>masks := (masks b)(g := DISABLE_BIT (masks b g) k)\<rparr>) = used b - {g * 64 + k}"
  using bit_DISABLE [OF assms] block_split_index [OF assms, of _ g]
  by (auto simp: used_def)

lemma used_fields [simp]:
  "used (b\<lparr>group_mask := m\<rparr>) = used b" "used (b\<lparr>free_segments := f\<rparr>) = used b"
  "used (b\<lparr>previous := p\<rparr>) = used b" "used (b\<lparr>next_block := q\<rparr>) = used b"
  by (simp_all add: used_def)

text \<open>What the two operations of a block may change.\<close>

definition same_frame :: "OneBlock \<Rightarrow> OneBlock \<Rightarrow> bool" where
  "same_frame b b' \<longleftrightarrow> previous b' = previous b \<and> next_block b' = next_block b \<and> block_size b' = block_size b \<and>
     one_segment_size b' = one_segment_size b \<and> total_segments b' = total_segments b"

lemma blk_Allocate_effect:
  assumes BS: "block_size_ok BS" and inv: "blk_inv BS b" and run: "blk_Allocate BS b = (i, b')" and ok: "i \<noteq> error_in_block"
  shows "unat i < unat (total_segments b) \<and> unat i \<notin> used b \<and> used b' = insert (unat i) (used b) \<and>
    blk_inv BS b' \<and> same_frame b b' \<and> free_segments b' = free_segments b - 1 \<and> free_segments b \<noteq> 0"
proof -
  let ?g = "builtin_ctzll (NOT (group_mask b))"
  let ?k = "builtin_ctzll (NOT (masks b ?g))"
  let ?b1 = "b\<lparr>masks := (masks b)(?g := ENABLE_BIT (masks b ?g) ?k)\<rparr>"
  have gm: "NOT (group_mask b) \<noteq> 0" and m: "NOT (masks b ?g) \<noteq> 0" and gl: "?g < unat BS div 64"
    and i: "i = of_nat (?g * 64 + ?k)" and lt: "i < total_segments b"
    and b': "b' = (if NOT (masks ?b1 ?g) = 0 then ?b1\<lparr>group_mask := ENABLE_BIT (group_mask b) ?g\<rparr> else ?b1)\<lparr>free_segments := free_segments b - 1\<rparr>"
    using run ok unfolding blk_Allocate_def Let_def by (auto split: if_splits)
  have k: "?k < 64" "bit (NOT (masks b ?g)) ?k" using ctz_bit [OF m] by simp_all
  have g: "?g < 64" using ctz_bit [OF gm] by simp
  have "?g * 64 + ?k < 4096" using gl k(1) g by linarith
  then have ui: "unat i = ?g * 64 + ?k" unfolding i by (intro unat_of_nat_small) simp
  have fresh: "unat i \<notin> used b" using k by (simp add: ui used_def bit_not_iff)
  have u: "used b' = insert (unat i) (used b)" using used_enable [OF k(1), of b ?g] by (simp add: b' ui)
  have fr: "same_frame b b'" and fs: "free_segments b' = free_segments b - 1" by (simp_all add: b' same_frame_def)
  have sub: "used b \<subseteq> {..<unat (total_segments b)}" using inv by (simp add: blk_inv_def)
  then have fin: "finite (used b)" using finite_subset by blast
  have "insert (unat i) (used b) \<subseteq> {..<unat (total_segments b)}" using sub lt by (simp add: word_less_nat_alt)
  from card_mono [OF _ this] have c: "Suc (card (used b)) \<le> unat (total_segments b)" using fin fresh by simp
  then have nz: "free_segments b \<noteq> 0" using inv by (auto simp: blk_inv_def)
  then have "unat (free_segments b') + card (used b') = unat (total_segments b')"
    using inv fin fresh fr unat_minus_one [OF nz] c by (auto simp: fs u blk_inv_def same_frame_def unat_gt_0)
  moreover have "masks b' g \<noteq> 0" if "bit (group_mask b') g" for g
  proof (cases "g = ?g")
    case True
    have "bit (masks b' ?g) ?k" using bit_ENABLE [OF k(1)] by (simp add: b')
    then show ?thesis using True by auto
  next
    case False
    then show ?thesis using that inv bit_ENABLE [OF g] by (auto simp: b' blk_inv_def split: if_splits)
  qed
  moreover have "bit (group_mask b') g" if "NOT (masks b' g) = 0" for g
    using that inv bit_ENABLE [OF g] by (cases "g = ?g") (auto simp: b' blk_inv_def split: if_splits)
  ultimately have "blk_inv BS b'"
    using inv fr u sub lt by (auto simp: blk_inv_def same_frame_def word_less_nat_alt)
  then show ?thesis using lt fresh u fr fs nz by (simp add: word_less_nat_alt)
qed

lemma blk_Allocate_error: "blk_Allocate BS b = (error_in_block, b') \<Longrightarrow> block_size_ok BS \<Longrightarrow> b' = b"
proof -
  assume run: "blk_Allocate BS b = (error_in_block, b')" and BS: "block_size_ok BS"
  show "b' = b"
  proof (rule ccontr)
    assume ne: "b' \<noteq> b"
    let ?g = "builtin_ctzll (NOT (group_mask b))"
    let ?k = "builtin_ctzll (NOT (masks b ?g))"
    have e: "NOT (masks b ?g) \<noteq> 0" "?g < unat BS div 64" "error_in_block = of_nat (?g * 64 + ?k)"
      using run ne unfolding blk_Allocate_def Let_def by (auto split: if_splits)
    have "?k < 64" using ctz_bit [OF e(1)] by simp
    moreover have "unat BS div 64 \<le> 64" using BS div_le_mono [of "unat BS" 4096 64] by (simp add: block_size_ok_def)
    ultimately have l: "?g * 64 + ?k < 4096" using e(2) by linarith
    then have "unat (of_nat (?g * 64 + ?k) :: u16) = ?g * 64 + ?k" by (intro unat_of_nat_small) simp
    moreover have "unat error_in_block = 65535"
      by (simp add: error_in_block_def unsigned_minus_1_eq_mask mask_eq_exp_minus_1)
    ultimately show False using e(3) l by simp
  qed
qed

lemma index_split: "unat (drop_bit 6 i) = unat i div 64" "unat (i AND 0x3F) = unat i mod 64" for i :: u16
proof -
  have "(0x3F :: u16) = mask 6" by (simp add: mask_eq_exp_minus_1)
  then show "unat (i AND 0x3F) = unat i mod 64" using unat_and_mask [of i 6] by simp
qed (simp add: unat_drop_bit)

lemma blk_Free_effect:
  assumes BS: "block_size_ok BS" and inv: "blk_inv BS b" and run: "blk_Free i b = (r, b')"
  shows "if unat i \<in> used b
    then r = 0 \<and> used b' = used b - {unat i} \<and> blk_inv BS b' \<and> same_frame b b' \<and> free_segments b' = free_segments b + 1 \<and>
      (free_segments b' = total_segments b \<longleftrightarrow> used b' = {})
    else r = error_in_block \<and> b' = b"
proof (cases "unat i \<in> used b")
  case False
  then have "r = error_in_block \<and> b' = b"
    using run by (auto simp: blk_Free_def Let_def index_split used_def GET_BIT_0 split: if_splits)
  then show ?thesis using False by simp
next
  case True
  let ?g = "unat i div 64" let ?k = "unat i mod 64"
  let ?b1 = "b\<lparr>masks := (masks b)(?g := DISABLE_BIT (masks b ?g) ?k)\<rparr>"
  have k: "?k < 64" by simp
  have sub: "used b \<subseteq> {..<unat (total_segments b)}" using inv by (simp add: blk_inv_def)
  then have fin: "finite (used b)" using finite_subset by blast
  have lt: "i < total_segments b" using sub True by (auto simp: word_less_nat_alt)
  have r: "r = 0" and b': "b' = (if masks ?b1 ?g = 0 then ?b1\<lparr>group_mask := DISABLE_BIT (group_mask b) ?g\<rparr> else ?b1)\<lparr>free_segments := free_segments b + 1\<rparr>"
    using run True lt by (auto simp: blk_Free_def Let_def index_split used_def GET_BIT_0 split: if_splits)
  have "used b' = used ?b1" by (simp add: b')
  then have u: "used b' = used b - {unat i}" using used_disable [OF k, of b ?g] by simp
  have fr: "same_frame b b'" and fs: "free_segments b' = free_segments b + 1" by (simp_all add: b' same_frame_def)
  have pos: "0 < card (used b)" using True fin by (auto simp: card_gt_0_iff)
  have cnt: "unat (free_segments b) + card (used b) = unat (total_segments b)" using inv by (simp add: blk_inv_def)
  have uf: "unat (free_segments b') = Suc (unat (free_segments b))"
    using pos cnt unsigned_less [of "total_segments b", where ?'a = nat] by (simp add: fs unat_word_ariths)
  have c': "card (used b') = card (used b) - 1" using True fin by (simp add: u)
  have "unat i < 4096" using lt inv BS by (simp add: blk_inv_def block_size_ok_def word_less_nat_alt)
  then have g: "?g < 64" by linarith
  have "masks b' n \<noteq> 0" if "bit (group_mask b') n" for n
    using that inv bit_DISABLE [OF g] by (cases "n = ?g") (auto simp: b' blk_inv_def split: if_splits)
  moreover have "bit (group_mask b') n" if "NOT (masks b' n) = 0" for n
  proof (cases "n = ?g")
    case True
    have "\<not> bit (masks b' n) ?k" using bit_DISABLE [OF k] True by (simp add: b')
    moreover have "bit (NOT (NOT (masks b' n))) ?k" unfolding that by (simp add: bit_not_iff)
    ultimately show ?thesis by simp
  next
    case False
    then show ?thesis using that inv bit_DISABLE [OF g] by (auto simp: b' blk_inv_def split: if_splits)
  qed
  moreover have "unat (free_segments b') + card (used b') = unat (total_segments b)" using uf c' cnt pos by simp
  ultimately have "blk_inv BS b'" using inv fr u by (auto simp: blk_inv_def same_frame_def)
  moreover have "card (used b') = 0 \<longleftrightarrow> used b' = {}" using fin by (simp add: u)
  then have "free_segments b' = total_segments b \<longleftrightarrow> used b' = {}"
    using \<open>unat (free_segments b') + card (used b') = unat (total_segments b)\<close>
    by (metis add_0_right add_left_cancel word_unat_eq_iff)
  ultimately show ?thesis using True r u fr fs by simp
qed

section \<open>The lists of blocks\<close>

primrec chain :: "(u32 \<Rightarrow> OneBlock) \<Rightarrow> u32 \<Rightarrow> u32 list \<Rightarrow> bool" where
  "chain bs h [] \<longleftrightarrow> h = null_block"
| "chain bs h (b # r) \<longleftrightarrow> h = b \<and> b \<noteq> null_block \<and> chain bs (next_block (bs b)) r"

text \<open>The lists \<open>L\<close> of blocks, one per size: linked, without repetitions, disjoint.\<close>

definition links :: "u16 \<Rightarrow> seg_allocator \<Rightarrow> (u16 \<Rightarrow> u32 list) \<Rightarrow> bool" where
  "links M a L \<longleftrightarrow>
     (\<forall>s \<le> M. chain (all_blocks a) (head_block (sizes_info a s)) (L s) \<and> distinct (L s) \<and>
        (L s \<noteq> [] \<longrightarrow> previous (all_blocks a (hd (L s))) = null_block)) \<and>
     (\<forall>s \<le> M. \<forall>t \<le> M. s \<noteq> t \<longrightarrow> set (L s) \<inter> set (L t) = {})"

lemma links_unique: "links M a L \<Longrightarrow> s \<le> M \<Longrightarrow> t \<le> M \<Longrightarrow> b \<in> set (L s) \<Longrightarrow> b \<in> set (L t) \<Longrightarrow> t = s"
  unfolding links_def by (metis disjoint_iff)

lemma chain_cong: "(\<And>b. b \<in> set bs \<Longrightarrow> next_block (m' b) = next_block (m b)) \<Longrightarrow> chain m' h bs = chain m h bs"
  by (induction bs arbitrary: h) auto

lemma chain_head: "chain m h bs \<Longrightarrow> h = (case bs of [] \<Rightarrow> null_block | b # _ \<Rightarrow> b)"
  by (cases bs) auto

lemma chain_null: "chain m h bs \<Longrightarrow> null_block \<notin> set bs"
  by (induction bs arbitrary: h) auto

text \<open>A block without its links.\<close>

definition core :: "OneBlock \<Rightarrow> OneBlock" where
  "core b = b\<lparr>previous := 0, next_block := 0\<rparr>"

lemma core_fields:
  assumes "core b = core b'"
  shows "block_size b = block_size b'" "one_segment_size b = one_segment_size b'" "total_segments b = total_segments b'"
    "free_segments b = free_segments b'" "group_mask b = group_mask b'" "masks b = masks b'"
  using assms by (simp_all add: core_def) (cases b, cases b', simp)+

lemma core_upd [simp]: "core (b\<lparr>previous := p\<rparr>) = core b" "core (b\<lparr>next_block := q\<rparr>) = core b"
  by (simp_all add: core_def)

lemma RemoveFromList_head:
  assumes l: "links M a L" and s: "s \<le> M" and L: "L s = b # r"
  shows "links M (RemoveFromList b s a) (L(s := r)) \<and>
    (\<forall>x. core (all_blocks (RemoveFromList b s a) x) = core (all_blocks a x)) \<and>
    free_cells (RemoveFromList b s a) = free_cells a"
proof -
  let ?n = "next_block (all_blocks a b)"
  let ?a' = "RemoveFromList b s a"
  have c: "chain (all_blocks a) (head_block (sizes_info a s)) (b # r)" and d: "b \<notin> set r" "distinct r"
    and p: "previous (all_blocks a b) = null_block"
    using l s L by (auto simp: links_def)
  then have h: "head_block (sizes_info a s) = b" and bn: "b \<noteq> null_block" and cr: "chain (all_blocks a) ?n r" by auto
  have nb: "?n \<noteq> b" using chain_head [OF cr] d bn by (cases r) auto
  have blocks: "all_blocks ?a' = (\<lambda>x. if x = b then (all_blocks a b)\<lparr>previous := null_block, next_block := null_block\<rparr>
      else if x = ?n \<and> ?n \<noteq> null_block then (all_blocks a x)\<lparr>previous := null_block\<rparr> else all_blocks a x)"
    using p nb by (auto simp: RemoveFromList_def Let_def upd_info_def upd_block_def h fun_eq_iff)
  have heads: "head_block (sizes_info ?a' t) = (if t = s then ?n else head_block (sizes_info a t))" for t
    using p nb by (auto simp: RemoveFromList_def Let_def upd_info_def upd_block_def h)
  have "free_cells ?a' = free_cells a" by (simp add: RemoveFromList_def Let_def upd_info_def upd_block_def)
  moreover have "core (all_blocks ?a' x) = core (all_blocks a x)" for x by (simp add: blocks)
  moreover have "links M ?a' (L(s := r))"
  proof -
    have ch: "chain (all_blocks ?a') h' bs = chain (all_blocks a) h' bs" if "b \<notin> set bs" for h' bs
      by (rule chain_cong) (use that in \<open>auto simp: blocks\<close>)
    have "chain (all_blocks ?a') ?n r" using cr ch d by simp
    moreover have "r \<noteq> [] \<longrightarrow> previous (all_blocks ?a' (hd r)) = null_block"
      using chain_head [OF cr] chain_null [OF cr] d by (cases r) (auto simp: blocks)
    moreover have "b \<notin> set (L t)" "x \<in> set r \<Longrightarrow> x \<notin> set (L t)" if "t \<le> M" "t \<noteq> s" for t x
      using l s L that by (fastforce simp: links_def)+
    moreover have "previous (all_blocks ?a' x) = previous (all_blocks a x)" if "previous (all_blocks a x) = null_block" for x
      using that by (simp add: blocks)
    ultimately show ?thesis using l s L d ch by (auto simp: links_def heads)
  qed
  ultimately show ?thesis by blast
qed

lemma InsertToList_head:
  assumes l: "links M a L" and s: "s \<le> M" and b: "b \<noteq> null_block" "\<And>t. t \<le> M \<Longrightarrow> b \<notin> set (L t)"
  shows "links M (InsertToList b s a) (L(s := b # L s)) \<and>
    (\<forall>x. core (all_blocks (InsertToList b s a) x) = core (all_blocks a x)) \<and>
    free_cells (InsertToList b s a) = free_cells a"
proof -
  let ?a' = "InsertToList b s a"
  have blocks: "all_blocks ?a' = (all_blocks a)(b := (all_blocks a b)\<lparr>next_block := head_block (sizes_info a s), previous := null_block\<rparr>)"
    by (simp add: InsertToList_def Let_def upd_info_def upd_block_def)
  have heads: "head_block (sizes_info ?a' t) = (if t = s then b else head_block (sizes_info a t))" for t
    by (simp add: InsertToList_def Let_def upd_info_def upd_block_def)
  have ch: "chain (all_blocks ?a') h (L t) = chain (all_blocks a) h (L t)" if "t \<le> M" for h t
    by (rule chain_cong) (use b that in \<open>auto simp: blocks\<close>)
  have hds: "all_blocks ?a' (hd (L t)) = all_blocks a (hd (L t))" if "t \<le> M" "L t \<noteq> []" for t
    using b(2) [OF that(1)] that(2) by (metis blocks fun_upd_other hd_in_set)
  have "links M ?a' (L(s := b # L s))"
    using l s b ch hds by (auto simp: links_def heads blocks)
  moreover have "free_cells ?a' = free_cells a" by (simp add: InsertToList_def Let_def upd_info_def upd_block_def)
  ultimately show ?thesis by (simp add: blocks)
qed

section \<open>Live segments\<close>

text \<open>The static assertions of the template, and an error value that is not a segment.\<close>

definition cells :: "seg_params \<Rightarrow> nat" where
  "cells P = unat (IndexEnd P) - unat (IndexBegin P)"

definition seg_ok :: "seg_params \<Rightarrow> bool" where
  "seg_ok P \<longleftrightarrow> block_size_ok (BlockSize P) \<and> 1 \<le> unat (MaxBufferSize P) \<and> unat (MaxBufferSize P) \<le> 64 \<and>
     IndexBegin P < IndexEnd P \<and> cells P + unat (BlockSize P) \<le> 2 ^ 32 \<and>
     (cells P mod unat (BlockSize P) = 0 \<or> unat (MaxBufferSize P) \<le> cells P mod unat (BlockSize P)) \<and>
     (ErrorResult P < IndexBegin P \<or> IndexEnd P \<le> ErrorResult P)"

definition max_size :: "seg_params \<Rightarrow> u16" where
  "max_size P = ucast (MaxBufferSize P)"

definition block_len :: "seg_params \<Rightarrow> u32 \<Rightarrow> nat" where
  "block_len P b = min (unat (BlockSize P)) (cells P - unat b * unat (BlockSize P))"

text \<open>The segments of a block that are handed out, as pairs of first number and size.\<close>

definition segment :: "seg_params \<Rightarrow> u32 \<Rightarrow> OneBlock \<Rightarrow> nat \<Rightarrow> nat \<times> nat" where
  "segment P b blk i = (unat (IndexBegin P) + unat b * unat (BlockSize P) + i * unat (one_segment_size blk), unat (one_segment_size blk))"

definition live :: "seg_params \<Rightarrow> (u32 \<Rightarrow> OneBlock) \<Rightarrow> (nat \<times> nat) set" where
  "live P bs = (\<Union>b \<in> {b. b < total_blocks P}. segment P b (bs b) ` used (bs b))"

definition in_use :: "seg_params \<Rightarrow> OneBlock \<Rightarrow> bool" where
  "in_use P b \<longleftrightarrow> blk_inv (BlockSize P) b \<and> one_segment_size b \<noteq> 0 \<and> one_segment_size b \<le> max_size P \<and>
     total_segments b = block_size b div one_segment_size b"

definition is_empty_block :: "OneBlock \<Rightarrow> bool" where
  "is_empty_block b \<longleftrightarrow> masks b = (\<lambda>_. 0) \<and> group_mask b = 0"

definition seg_content :: "seg_params \<Rightarrow> (u32 \<Rightarrow> OneBlock) \<Rightarrow> (u16 \<Rightarrow> u32 list) \<Rightarrow> bool" where
  "seg_content P bs L \<longleftrightarrow>
     (\<forall>b \<in> set (L 0). b < total_blocks P) \<and>
     (\<forall>b < total_blocks P. unat (block_size (bs b)) = block_len P b \<and>
        (if b \<in> set (L 0) then is_empty_block (bs b) else in_use P (bs b))) \<and>
     (\<forall>s \<le> max_size P. s \<noteq> 0 \<longrightarrow> (\<forall>b. b \<in> set (L s) \<longleftrightarrow>
        b < total_blocks P \<and> b \<notin> set (L 0) \<and> one_segment_size (bs b) = s \<and> free_segments (bs b) \<noteq> 0))"

definition seg_inv :: "seg_params \<Rightarrow> seg_allocator \<Rightarrow> (u16 \<Rightarrow> u32 list) \<Rightarrow> bool" where
  "seg_inv P a L \<longleftrightarrow> links (max_size P) a L \<and> seg_content P (all_blocks a) L \<and>
     free_cells a = IndexEnd P - IndexBegin P - of_nat (\<Sum>x \<in> live P (all_blocks a). snd x)"

lemma unat_cells: "seg_ok P \<Longrightarrow> unat (IndexEnd P - IndexBegin P) = cells P"
  by (simp add: seg_ok_def cells_def unat_sub less_imp_le)

lemma total_blocks_unat: "seg_ok P \<Longrightarrow> unat (total_blocks P) = (cells P + unat (BlockSize P) - 1) div unat (BlockSize P)"
proof -
  assume ok: "seg_ok P"
  then have "0 < unat (BlockSize P)" "cells P + unat (BlockSize P) - 1 < 2 ^ 32"
    by (auto simp: seg_ok_def block_size_ok_def)
  moreover have "unat (IndexEnd P - IndexBegin P + (BlockSize P - 1)) = (cells P + (unat (BlockSize P) - 1)) mod 2 ^ 32"
    using unat_cells [OF ok] \<open>0 < unat (BlockSize P)\<close>
    by (simp add: unat_word_ariths unat_minus_one unat_gt_0)
  ultimately show ?thesis by (simp add: total_blocks_def unat_div add_diff_eq)
qed

lemma block_in_cells: "seg_ok P \<Longrightarrow> b < total_blocks P \<longleftrightarrow> unat b * unat (BlockSize P) < cells P"
proof -
  assume ok: "seg_ok P"
  let ?B = "unat (BlockSize P)"
  have B: "0 < ?B" using ok by (auto simp: seg_ok_def block_size_ok_def)
  have "unat b < (cells P + ?B - 1) div ?B \<longleftrightarrow> Suc (unat b) * ?B \<le> cells P + ?B - 1"
    using less_eq_div_iff_mult_less_eq [OF B, of "Suc (unat b)" "cells P + ?B - 1"] by (simp add: Suc_le_eq)
  also have "\<dots> \<longleftrightarrow> unat b * ?B < cells P" using B by auto
  finally show ?thesis using total_blocks_unat [OF ok] by (simp add: word_less_nat_alt)
qed

lemma block_len_bounds:
  assumes ok: "seg_ok P" and b: "b < total_blocks P"
  shows "unat (MaxBufferSize P) \<le> block_len P b" "block_len P b \<le> unat (BlockSize P)"
    "unat b * unat (BlockSize P) + block_len P b \<le> cells P"
proof -
  let ?B = "unat (BlockSize P)"
  have lt: "unat b * ?B < cells P" using b block_in_cells [OF ok] by simp
  show "block_len P b \<le> ?B" by (simp add: block_len_def)
  show "unat b * ?B + block_len P b \<le> cells P" using lt by (simp add: block_len_def)
  show "unat (MaxBufferSize P) \<le> block_len P b"
  proof (cases "?B \<le> cells P - unat b * ?B")
    case True
    then show ?thesis using ok by (simp add: block_len_def seg_ok_def block_size_ok_def)
  next
    case False
    then have "cells P mod ?B = cells P - unat b * ?B"
      using lt by (metis le_add_diff_inverse less_imp_le_nat linorder_not_le mod_less mod_mult_self3)
    then show ?thesis using False lt ok by (auto simp: block_len_def seg_ok_def)
  qed
qed

lemma used_core: "core b = core b' \<Longrightarrow> used b = used b'"
  unfolding used_def using core_fields(6) [of b b'] by simp

lemma seg_content_core: "(\<And>x. core (bs' x) = core (bs x)) \<Longrightarrow> seg_content P bs' L = seg_content P bs L"
proof -
  assume c: "\<And>x. core (bs' x) = core (bs x)"
  note f = core_fields [OF c] used_core [OF c]
  show ?thesis unfolding seg_content_def in_use_def is_empty_block_def blk_inv_def f ..
qed

lemma live_core: "(\<And>x. core (bs' x) = core (bs x)) \<Longrightarrow> live P bs' = live P bs"
proof -
  assume c: "\<And>x. core (bs' x) = core (bs x)"
  show ?thesis unfolding live_def segment_def core_fields [OF c] used_core [OF c] ..
qed

lemma used_is_empty: "used b = {} \<Longrightarrow> blk_inv BS b \<Longrightarrow> is_empty_block b"
proof -
  assume u: "used b = {}" and inv: "blk_inv BS b"
  have "masks b g = 0" for g
  proof (rule bit_word_eqI)
    fix k assume "k < LENGTH(64)"
    moreover have "g * 64 + k \<notin> used b" using u by simp
    ultimately show "bit (masks b g) k = bit 0 k" by (simp add: used_def)
  qed
  then have m: "masks b = (\<lambda>_. 0)" by blast
  then have "group_mask b = 0" using inv by (auto simp: blk_inv_def intro!: bit_word_eqI)
  then show ?thesis using m by (simp add: is_empty_block_def)
qed

lemma empty_unused [simp]: "is_empty_block b \<Longrightarrow> used b = {}"
  by (simp add: is_empty_block_def used_def)

text \<open>A segment that is handed out lies in its block, and its position tells the block and the index.\<close>

lemma segment_in_block:
  assumes "in_use P blk" and "unat (block_size blk) = block_len P b" and "i < unat (total_segments blk)"
  shows "i * unat (one_segment_size blk) + unat (one_segment_size blk) \<le> block_len P b"
proof -
  let ?z = "unat (one_segment_size blk)"
  have "Suc i * ?z \<le> unat (total_segments blk) * ?z" using assms(3) by (intro mult_le_mono1) simp
  also have "\<dots> \<le> unat (block_size blk)" using assms(1) by (simp add: in_use_def unat_div)
  finally show ?thesis using assms(2) by simp
qed

lemma content_block:
  assumes "seg_content P bs L" and "b < total_blocks P" and "i \<in> used (bs b)"
  shows "in_use P (bs b)" "unat (block_size (bs b)) = block_len P b" "i < unat (total_segments (bs b))" "b \<notin> set (L 0)"
proof -
  have "b \<notin> set (L 0)" using assms unfolding seg_content_def by (metis empty_unused empty_iff)
  then show "b \<notin> set (L 0)" "in_use P (bs b)" "unat (block_size (bs b)) = block_len P b" using assms(1,2) by (auto simp: seg_content_def)
  then show "i < unat (total_segments (bs b))" using assms(3) by (auto simp: in_use_def blk_inv_def)
qed

lemma content_in_use: "seg_content P bs L \<Longrightarrow> b < total_blocks P \<Longrightarrow> b \<notin> set (L 0) \<Longrightarrow> in_use P (bs b)"
  unfolding seg_content_def by metis

lemma offset_locates:
  fixes B :: nat
  assumes "o1 < B"
  shows "(b * B + o1) div B = b" "(b * B + o1) mod B = o1"
  using assms by simp_all

lemma segment_inj:
  assumes ok: "seg_ok P"
    and x: "b < total_blocks P" "in_use P (bs b)" "unat (block_size (bs b)) = block_len P b" "i < unat (total_segments (bs b))"
    and y: "b' < total_blocks P" "in_use P (bs b')" "unat (block_size (bs b')) = block_len P b'" "i' < unat (total_segments (bs b'))"
    and meet: "fst (segment P b (bs b) i) < fst (segment P b' (bs b') i') + snd (segment P b' (bs b') i')"
      "fst (segment P b' (bs b') i') < fst (segment P b (bs b) i) + snd (segment P b (bs b) i)"
  shows "b' = b \<and> i' = i"
proof -
  let ?B = "unat (BlockSize P)"
  let ?z = "unat (one_segment_size (bs b))" and ?z' = "unat (one_segment_size (bs b'))"
  note l = segment_in_block [OF x(2-4)] and l' = segment_in_block [OF y(2-4)]
  have z: "0 < ?z" using x(2) by (simp add: in_use_def unat_gt_0)
  have e: "unat b = unat b'"
  proof (rule ccontr)
    assume "unat b \<noteq> unat b'"
    then consider "Suc (unat b) \<le> unat b'" | "Suc (unat b') \<le> unat b" by linarith
    then show False
    proof cases
      case 1
      then have "Suc (unat b) * ?B \<le> unat b' * ?B" by (rule mult_le_mono1)
      then show False using meet(2) l block_len_bounds(2) [OF ok x(1)] by (simp add: segment_def)
    next
      case 2
      then have "Suc (unat b') * ?B \<le> unat b * ?B" by (rule mult_le_mono1)
      then show False using meet(1) l' block_len_bounds(2) [OF ok y(1)] by (simp add: segment_def)
    qed
  qed
  then have b: "b' = b" by (simp add: word_unat_eq_iff)
  have "i * ?z < Suc i' * ?z" "i' * ?z < Suc i * ?z" using meet by (simp_all add: segment_def b)
  then have "i < Suc i'" "i' < Suc i" using mult_less_cancel2 by blast+
  then show ?thesis using b by simp
qed

text \<open>Live segments are pairwise disjoint and within the range of the allocator.\<close>

lemma live_disjoint:
  assumes "seg_ok P" and "seg_content P bs L" and "x \<in> live P bs" and "y \<in> live P bs" and "x \<noteq> y"
  shows "fst x + snd x \<le> fst y \<or> fst y + snd y \<le> fst x"
proof -
  obtain b i where x: "b < total_blocks P" "i \<in> used (bs b)" "x = segment P b (bs b) i" using assms(3) by (auto simp: live_def)
  obtain b' i' where y: "b' < total_blocks P" "i' \<in> used (bs b')" "y = segment P b' (bs b') i'" using assms(4) by (auto simp: live_def)
  show ?thesis using segment_inj [OF assms(1) x(1) content_block(1-3) [OF assms(2) x(1,2)] y(1) content_block(1-3) [OF assms(2) y(1,2)]] assms(5) x(3) y(3) by (metis not_le)
qed

lemma live_in_range:
  assumes "seg_ok P" and "seg_content P bs L" and "x \<in> live P bs"
  shows "unat (IndexBegin P) \<le> fst x \<and> fst x + snd x \<le> unat (IndexEnd P)"
proof -
  obtain b i where x: "b < total_blocks P" "i \<in> used (bs b)" "x = segment P b (bs b) i" using assms(3) by (auto simp: live_def)
  have "IndexBegin P < IndexEnd P" using assms(1) by (simp add: seg_ok_def)
  then have "unat (IndexBegin P) + cells P = unat (IndexEnd P)" by (simp add: cells_def word_less_nat_alt)
  then show ?thesis
    using segment_in_block [OF content_block(1-3) [OF assms(2) x(1,2)]] block_len_bounds(3) [OF assms(1) x(1)]
    by (simp add: x(3) segment_def)
qed

lemma finite_live: "seg_content P bs L \<Longrightarrow> finite (live P bs)"
proof -
  assume c: "seg_content P bs L"
  have "finite (used (bs b))" if "b < total_blocks P" for b
    using content_block(3) [OF c that] by (meson bounded_nat_set_is_finite)
  then show ?thesis by (auto simp: live_def)
qed

lemma live_upd:
  assumes "b < total_blocks P"
  shows "live P (bs(b := blk)) = (\<Union>b' \<in> {b'. b' < total_blocks P \<and> b' \<noteq> b}. segment P b' (bs b') ` used (bs b')) \<union> segment P b blk ` used blk"
proof -
  have "{b'. b' < total_blocks P} = insert b {b'. b' < total_blocks P \<and> b' \<noteq> b}" using assms by auto
  then show ?thesis by (simp add: live_def Un_commute)
qed

lemma links_frame:
  assumes "\<And>x. next_block (all_blocks a' x) = next_block (all_blocks a x)" "\<And>x. previous (all_blocks a' x) = previous (all_blocks a x)"
    "\<And>t. head_block (sizes_info a' t) = head_block (sizes_info a t)"
  shows "links M a' L = links M a L"
proof -
  have "chain (all_blocks a') h bs = chain (all_blocks a) h bs" for h bs by (rule chain_cong) (rule assms(1))
  then show ?thesis by (simp add: links_def assms)
qed

lemma content_replace:
  assumes c: "seg_content P bs L" and b: "b < total_blocks P" "b \<notin> set (L 0)"
    and blk: "in_use P blk" "block_size blk = block_size (bs b)"
    and L: "set (L' 0) = set (L 0)" "\<And>t x. t \<le> max_size P \<Longrightarrow> t \<noteq> 0 \<Longrightarrow>
      x \<in> set (L' t) \<longleftrightarrow> (if x = b then one_segment_size blk = t \<and> free_segments blk \<noteq> 0 else x \<in> set (L t))"
  shows "seg_content P (bs(b := blk)) L'"
  using assms unfolding seg_content_def by simp

lemma content_release:
  assumes c: "seg_content P bs L" and b: "b < total_blocks P" "is_empty_block (bs b)"
    and L: "set (L' 0) = insert b (set (L 0))" "\<And>t. t \<le> max_size P \<Longrightarrow> t \<noteq> 0 \<Longrightarrow> set (L' t) = set (L t) - {b}"
  shows "seg_content P bs L'"
  using assms unfolding seg_content_def by auto

lemma content_listed:
  assumes "seg_content P bs L" and "s \<noteq> 0" and "s \<le> max_size P" and "b \<in> set (L s)"
  shows "b < total_blocks P" "b \<notin> set (L 0)" "one_segment_size (bs b) = s" "free_segments (bs b) \<noteq> 0" "in_use P (bs b)"
    "unat (block_size (bs b)) = block_len P b"
proof -
  show b: "b < total_blocks P" "b \<notin> set (L 0)" "one_segment_size (bs b) = s" "free_segments (bs b) \<noteq> 0"
    using assms unfolding seg_content_def by blast+
  then show "in_use P (bs b)" "unat (block_size (bs b)) = block_len P b" using assms(1) unfolding seg_content_def by simp_all
qed

lemma in_use_frame: "in_use P b \<Longrightarrow> same_frame b b' \<Longrightarrow> blk_inv (BlockSize P) b' \<Longrightarrow> in_use P b'"
  by (simp add: in_use_def same_frame_def)

lemma seg_block_size: "seg_ok P \<Longrightarrow> block_size_ok (BlockSize P)"
  by (simp add: seg_ok_def)

lemma unat_result:
  assumes ok: "seg_ok P" and blk: "in_use P blk" "unat (block_size blk) = block_len P b" "b < total_blocks P"
    and i: "unat i < unat (total_segments blk)"
  shows "unat (b * BlockSize P + ucast (i :: u16) * ucast (one_segment_size blk) + IndexBegin P) = fst (segment P b blk (unat i))"
    "b * BlockSize P + ucast i * ucast (one_segment_size blk) + IndexBegin P \<noteq> ErrorResult P"
proof -
  let ?r = "b * BlockSize P + ucast i * ucast (one_segment_size blk) + IndexBegin P"
  let ?n = "unat b * unat (BlockSize P) + unat i * unat (one_segment_size blk) + unat (IndexBegin P)"
  have lt: "IndexBegin P < IndexEnd P" using ok by (simp add: seg_ok_def)
  then have "unat (IndexBegin P) + cells P = unat (IndexEnd P)" by (simp add: cells_def word_less_nat_alt)
  then have n: "?n + unat (one_segment_size blk) \<le> unat (IndexEnd P)"
    using segment_in_block [OF blk(1,2) i] block_len_bounds(3) [OF ok blk(3)] by linarith
  have z: "0 < unat (one_segment_size blk)" using blk(1) by (simp add: in_use_def unat_gt_0)
  have "?r = of_nat ?n" by simp
  moreover have "?n < 2 ^ LENGTH(32)" using n unsigned_less [of "IndexEnd P", where ?'a = nat] z by linarith
  ultimately have u: "unat ?r = ?n" by (simp only: unat_of_nat_small)
  then show "unat ?r = fst (segment P b blk (unat i))" by (simp add: segment_def)
  show "?r \<noteq> ErrorResult P"
  proof
    assume "?r = ErrorResult P"
    then have "unat (IndexBegin P) \<le> unat (ErrorResult P)" "unat (ErrorResult P) < unat (IndexEnd P)" using u n z by simp_all
    then show False using ok by (simp add: seg_ok_def word_less_nat_alt word_le_nat_alt)
  qed
qed

lemma segment_fresh:
  assumes ok: "seg_ok P" and c: "seg_content P bs L" and b: "b < total_blocks P" "in_use P (bs b)" "unat (block_size (bs b)) = block_len P b"
    and i: "i < unat (total_segments (bs b))" "segment P b (bs b) i \<in> live P bs"
  shows "i \<in> used (bs b)"
proof -
  obtain b' i' where x: "b' < total_blocks P" "i' \<in> used (bs b')" "segment P b (bs b) i = segment P b' (bs b') i'"
    using i(2) by (auto simp: live_def)
  have "0 < snd (segment P b (bs b) i)" using b(2) by (simp add: in_use_def segment_def unat_gt_0)
  then have "b' = b \<and> i' = i"
    using segment_inj [OF ok b i(1) x(1) content_block(1-3) [OF c x(1,2)]] x(3) by simp
  then show ?thesis using x(2) by simp
qed

lemma live_alloc:
  assumes "b < total_blocks P" "one_segment_size blk = one_segment_size (bs b)" "used blk = insert i (used (bs b))"
  shows "live P (bs(b := blk)) = insert (segment P b (bs b) i) (live P bs)"
proof -
  have "segment P b blk = segment P b (bs b)" using assms(2) by (auto simp: segment_def)
  then show ?thesis using live_upd [OF assms(1), of bs blk] live_upd [OF assms(1), of bs "bs b"] assms(3) by auto
qed

lemma live_free:
  assumes ok: "seg_ok P" and c: "seg_content P bs L" and b: "b < total_blocks P" and i: "i \<in> used (bs b)"
    and blk: "one_segment_size blk = one_segment_size (bs b)" "used blk = used (bs b) - {i}"
  shows "live P (bs(b := blk)) = live P bs - {segment P b (bs b) i}"
proof -
  have e: "segment P b blk = segment P b (bs b)" using blk(1) by (auto simp: segment_def)
  have pos: "0 < snd (segment P b (bs b) i)" using content_block(1) [OF c b i] by (simp add: in_use_def segment_def unat_gt_0)
  have "b' = b \<and> i' = i" if "b' < total_blocks P" "i' \<in> used (bs b')" "segment P b' (bs b') i' = segment P b (bs b) i" for b' i'
    using segment_inj [OF ok b content_block(1-3) [OF c b i] that(1) content_block(1-3) [OF c that(1,2)]] that(3) pos by simp
  then show ?thesis unfolding live_upd [OF b, of bs blk] e blk(2) using b by (auto simp: live_def)
qed

lemma sum_insert_live:
  assumes "finite A" "x \<notin> A"
  shows "(of_nat (\<Sum>x \<in> insert x A. snd x) :: u32) = of_nat (\<Sum>x \<in> A. snd x) + of_nat (snd x)"
  using assms by simp

lemma sum_remove_live:
  assumes "finite A" "x \<in> A"
  shows "(of_nat (\<Sum>x \<in> A - {x}. snd x) :: u32) = of_nat (\<Sum>x \<in> A. snd x) - of_nat (snd x)"
  using sum_insert_live [of "A - {x}" x] assms by (simp add: insert_absorb)

section \<open>Allocation and release\<close>

lemma Allocate_in_head_effect:
  assumes ok: "seg_ok P" and inv: "seg_inv P a L" and s: "s \<noteq> 0" "s \<le> max_size P" and L: "L s = b # t"
    and run: "Allocate_in_head P s a = (r, a')"
  shows "\<exists>L'. seg_inv P a' L' \<and>
    (if r = ErrorResult P then live P (all_blocks a') = live P (all_blocks a)
     else (unat r, unat s) \<notin> live P (all_blocks a) \<and> live P (all_blocks a') = insert (unat r, unat s) (live P (all_blocks a)))"
proof -
  let ?bs = "all_blocks a"
  have l: "links (max_size P) a L" and c: "seg_content P ?bs L" using inv by (simp_all add: seg_inv_def)
  have h: "head_block (sizes_info a s) = b" using l s(2) L by (auto simp: links_def)
  have "b \<in> set (L s)" using L by simp
  note b = content_listed [OF c s this]
  obtain i blk where al: "blk_Allocate (BlockSize P) (?bs b) = (i, blk)" by force
  let ?a1 = "upd_block b (\<lambda>_. blk) a"
  show ?thesis
  proof (cases "i = error_in_block")
    case True
    then have "blk = ?bs b" using blk_Allocate_error [OF _ seg_block_size [OF ok]] al by simp
    then have "r = ErrorResult P" "a' = internal_error a"
      using run True al by (simp_all add: Allocate_in_head_def Let_def h upd_block_def)
    then show ?thesis using inv links_frame [of a' a] by (auto simp: seg_inv_def internal_error_def)
  next
    case False
    note e = blk_Allocate_effect [OF seg_block_size [OF ok] _ al False]
    have bi: "blk_inv (BlockSize P) (?bs b)" using b(5) by (simp add: in_use_def)
    have e: "unat i < unat (total_segments (?bs b))" "unat i \<notin> used (?bs b)" "used blk = insert (unat i) (used (?bs b))"
        "blk_inv (BlockSize P) blk" "same_frame (?bs b) blk"
      using e bi by simp_all
    have z: "one_segment_size blk = s" "block_size blk = block_size (?bs b)" using e(5) b(3) by (simp_all add: same_frame_def)
    let ?x = "segment P b (?bs b) (unat i)"
    have r: "r = b * BlockSize P + ucast i * ucast (one_segment_size (?bs b)) + IndexBegin P"
      using run False al b(3) by (auto simp: Allocate_in_head_def Let_def h upd_block_def)
    have x: "?x = (unat r, unat s)" and rE: "r \<noteq> ErrorResult P"
      using unat_result [OF ok b(5,6,1) e(1)] b(3) by (simp_all add: r segment_def)
    have fresh: "?x \<notin> live P ?bs" using segment_fresh [OF ok c b(1,5,6) e(1)] e(2) by blast
    have live: "live P (?bs(b := blk)) = insert ?x (live P ?bs)" using live_alloc [of b P blk ?bs "unat i"] b(1,3) z(1) e(3) by simp
    have iu: "in_use P blk" using in_use_frame [OF b(5) e(5,4)] .
    define a2 where "a2 = (if free_segments blk = 0 then RemoveFromList b s ?a1 else ?a1)"
    have bl1: "all_blocks ?a1 = ?bs(b := blk)" by (simp add: upd_block_def)
    have l1: "links (max_size P) ?a1 L"
      using l e(5) links_frame [of ?a1 a] by (simp add: upd_block_def same_frame_def)
    define L' where "L' = (if free_segments blk = 0 then L(s := t) else L)"
    have rem: "links (max_size P) (RemoveFromList b s ?a1) (L(s := t)) \<and>
        (\<forall>x. core (all_blocks (RemoveFromList b s ?a1) x) = core (all_blocks ?a1 x)) \<and>
        free_cells (RemoveFromList b s ?a1) = free_cells ?a1"
      by (rule RemoveFromList_head [OF l1 s(2) L])
    then have l2: "links (max_size P) a2 L'" and core: "core (all_blocks a2 y) = core ((?bs(b := blk)) y)"
      and f2: "free_cells a2 = free_cells a" for y
      using l1 bl1 by (simp_all add: a2_def L'_def upd_block_def)
    have dt: "b \<notin> set t" using l s(2) L by (auto simp: links_def)
    have oth: "b \<notin> set (L u)" if "u \<le> max_size P" "u \<noteq> s" for u
      using l s(2) L that by (auto simp: links_def)
    have "seg_content P (?bs(b := blk)) L'"
      using content_replace [OF c b(1,2) iu z(2), of L'] dt oth L s z(1) by (auto simp: L'_def)
    then have c2: "seg_content P (all_blocks a2) L'" using seg_content_core [of "all_blocks a2" "?bs(b := blk)", OF core] by simp
    have a': "all_blocks a' = all_blocks a2" "head_block (sizes_info a' u) = head_block (sizes_info a2 u)"
      "free_cells a' = free_cells a2 - ucast s" for u
      using run False al by (auto simp: Allocate_in_head_def Let_def h upd_info_def a2_def upd_block_def)
    have "live P (all_blocks a') = insert ?x (live P ?bs)" using live_core [of "all_blocks a2" "?bs(b := blk)", OF core] live a'(1) by simp
    moreover from this have "free_cells a' = IndexEnd P - IndexBegin P - of_nat (\<Sum>x \<in> live P (all_blocks a'). snd x)"
      using inv f2 a'(3) sum_insert_live [OF finite_live [OF c] fresh] x by (simp add: seg_inv_def)
    ultimately show ?thesis
      using l2 c2 a'(1,2) links_frame [of a' a2] rE x fresh by (auto simp: seg_inv_def)
  qed
qed

lemma size_le_max: "seg_ok P \<Longrightarrow> (\<not> MaxBufferSize P < ucast s) = (s \<le> max_size P)" for s :: u16
proof -
  assume "seg_ok P"
  then have "unat (max_size P) = unat (MaxBufferSize P)"
    by (simp add: max_size_def seg_ok_def unsigned_ucast_eq take_bit_nat_eq_self)
  then show ?thesis by (simp add: word_less_nat_alt word_le_nat_alt unat_ucast_up not_less)
qed

lemma SetSize_in_use:
  assumes ok: "seg_ok P" and b: "b < total_blocks P" and e: "is_empty_block blk" "unat (block_size blk) = block_len P b"
    and s: "s \<noteq> 0" "s \<le> max_size P"
  shows "in_use P (blk_SetSize s blk)" "free_segments (blk_SetSize s blk) \<noteq> 0" "used (blk_SetSize s blk) = {}"
proof -
  let ?b = "blk_SetSize s blk"
  have "unat s \<le> unat (MaxBufferSize P)" using s(2) size_le_max [OF ok, of s] by (simp add: word_less_nat_alt unat_ucast_up not_less)
  then have "unat s \<le> unat (block_size blk)" using block_len_bounds(1) [OF ok b] e(2) by simp
  moreover have pos: "0 < unat s" using s(1) by (simp add: unat_gt_0)
  ultimately have "1 \<le> unat (block_size blk) div unat s" by (simp add: Suc_le_eq div_greater_zero_iff)
  then show "free_segments ?b \<noteq> 0" by (auto simp: blk_SetSize_def Let_def word_unat_eq_iff unat_div)
  show u: "used ?b = {}" using e(1) by (simp add: is_empty_block_def used_def blk_SetSize_def Let_def)
  have "unat (block_size blk) div unat s \<le> unat (block_size blk)" by simp
  also have "\<dots> \<le> unat (BlockSize P)" using block_len_bounds(2) [OF ok b] e(2) by simp
  finally have "unat (total_segments ?b) \<le> unat (BlockSize P)" by (simp add: blk_SetSize_def Let_def unat_div)
  then have "blk_inv (BlockSize P) ?b"
    using u e(1) by (simp add: blk_inv_def is_empty_block_def blk_SetSize_def Let_def)
  then show "in_use P ?b" using s by (simp add: in_use_def blk_SetSize_def Let_def)
qed

lemma core_SetSize: "core b = core b' \<Longrightarrow> core (blk_SetSize s b) = core (blk_SetSize s b')"
  by (cases b; cases b') (simp add: core_def blk_SetSize_def Let_def)

lemma links_set_size: "links M (upd_block b (blk_SetSize s) a) L = links M a L"
  by (rule links_frame) (simp_all add: upd_block_def blk_SetSize_def Let_def)

lemma take_block_effect:
  assumes ok: "seg_ok P" and inv: "seg_inv P a L" and s: "s \<noteq> 0" "s \<le> max_size P" and L: "L s = []" "L 0 = b # t"
  shows "seg_inv P (InsertToList b s (upd_block b (blk_SetSize s) (RemoveFromList b 0 a))) (L(0 := t, s := [b])) \<and>
    live P (all_blocks (InsertToList b s (upd_block b (blk_SetSize s) (RemoveFromList b 0 a)))) = live P (all_blocks a)"
proof -
  let ?bs = "all_blocks a"
  let ?a1 = "RemoveFromList b 0 a" let ?a2 = "upd_block b (blk_SetSize s) ?a1" let ?a3 = "InsertToList b s ?a2"
  have l: "links (max_size P) a L" and c: "seg_content P ?bs L" using inv by (simp_all add: seg_inv_def)
  have z: "0 \<le> max_size P" by simp
  note r = RemoveFromList_head [OF l z L(2)]
  have b: "b < total_blocks P" "is_empty_block (?bs b)" "unat (block_size (?bs b)) = block_len P b"
    using c L(2) by (auto simp: seg_content_def)
  have "chain ?bs (head_block (sizes_info a 0)) (b # t)" "distinct (b # t)" using l L(2) unfolding links_def by (metis z)+
  then have bn: "b \<noteq> null_block" and dt: "b \<notin> set t" by simp_all
  have out: "b \<notin> set ((L(0 := t)) u)" if "u \<le> max_size P" for u 
    using links_unique [OF l z that, of b] L(2) dt by (cases "u = 0") auto
  have l2: "links (max_size P) ?a2 (L(0 := t))" using r links_set_size by blast
  note i = InsertToList_head [OF l2 s(2) bn out]
  let ?blk = "blk_SetSize s (?bs b)"
  note iu = SetSize_in_use [OF ok b s]
  have core2: "core (all_blocks ?a2 y) = core ((?bs(b := ?blk)) y)" for y
    using r core_SetSize [of "all_blocks ?a1 b" "?bs b"] by (simp add: upd_block_def)
  then have core: "core (all_blocks ?a3 y) = core ((?bs(b := ?blk)) y)" for y using i by simp
  have "seg_content P (?bs(b := ?blk)) (L(0 := t, s := [b]))"
    unfolding seg_content_def
  proof (intro conjI ballI allI impI)
    fix x assume x: "x < total_blocks P"
    show "unat (block_size ((?bs(b := ?blk)) x)) = block_len P x"
      using c x by (auto simp: seg_content_def blk_SetSize_def Let_def)
    show "if x \<in> set ((L(0 := t, s := [b])) 0) then is_empty_block ((?bs(b := ?blk)) x) else in_use P ((?bs(b := ?blk)) x)"
      using c x iu dt s(1) L(2) by (auto simp: seg_content_def)
  next
    fix u x assume u: "u \<le> max_size P" "u \<noteq> 0"
    have m: "x \<in> set (L u) \<longleftrightarrow> x < total_blocks P \<and> x \<notin> set (L 0) \<and> one_segment_size (?bs x) = u \<and> free_segments (?bs x) \<noteq> 0"
      using c u unfolding seg_content_def by blast
    have sz: "one_segment_size ?blk = s" by (simp add: blk_SetSize_def Let_def)
    show "(x \<in> set ((L(0 := t, s := [b])) u)) = (x < total_blocks P \<and> x \<notin> set ((L(0 := t, s := [b])) 0) \<and>
        one_segment_size ((?bs(b := ?blk)) x) = u \<and> free_segments ((?bs(b := ?blk)) x) \<noteq> 0)"
      using m sz u(2) iu(2) dt s(1) L b(1) out [OF u(1)] by (cases "x = b"; cases "u = s") simp_all
  qed (use c L(2) s(1) in \<open>auto simp: seg_content_def\<close>)
  then have "seg_content P (all_blocks ?a3) (L(0 := t, s := [b]))"
    using seg_content_core [of "all_blocks ?a3" "?bs(b := ?blk)", OF core] by simp
  moreover have lv: "live P (all_blocks ?a3) = live P ?bs"
    using live_core [of "all_blocks ?a3" "?bs(b := ?blk)", OF core] live_upd [OF b(1), of ?bs ?blk] live_upd [OF b(1), of ?bs "?bs b"] iu(3) b(2) by simp
  moreover have "free_cells ?a3 = free_cells a" using i r by (simp add: upd_block_def)
  moreover have e: "(L(0 := t))(s := b # (L(0 := t)) s) = L(0 := t, s := [b])" using s(1) L(1) by simp
  have "links (max_size P) ?a3 (L(0 := t, s := [b]))" using conjunct1 [OF i] unfolding e .
  ultimately show ?thesis using inv by (simp add: seg_inv_def)
qed

lemma Allocate_effect:
  assumes ok: "seg_ok P" and inv: "seg_inv P a L" and run: "Allocate P s a = (r, a')"
  shows "\<exists>L'. seg_inv P a' L' \<and>
    (if r = ErrorResult P then live P (all_blocks a') = live P (all_blocks a)
     else (unat r, unat s) \<notin> live P (all_blocks a) \<and> live P (all_blocks a') = insert (unat r, unat s) (live P (all_blocks a)))"
proof (cases "s \<noteq> 0 \<and> s \<le> max_size P")
  case False
  then have "r = ErrorResult P" "a' = external_error a"
    using run size_le_max [OF ok, of s] by (auto simp: Allocate_def)
  then show ?thesis using inv links_frame [of a' a] by (auto simp: seg_inv_def external_error_def)
next
  case True
  then have s: "s \<noteq> 0" "s \<le> max_size P" by simp_all
  have g: "\<not> (s = 0 \<or> MaxBufferSize P < ucast s)" using True size_le_max [OF ok, of s] by blast
  have l: "chain (all_blocks a) (head_block (sizes_info a u)) (L u)" if "u \<le> max_size P" for u
    using inv that by (simp add: seg_inv_def links_def)
  show ?thesis
  proof (cases "L s")
    case (Cons b t)
    then have "head_block (sizes_info a s) \<noteq> null_block" using l [OF s(2)] by auto
    then have "Allocate_in_head P s a = (r, a')" using run g by (simp add: Allocate_def)
    from Allocate_in_head_effect [OF ok inv s Cons this] show ?thesis .
  next
    case Nil
    then have h: "head_block (sizes_info a s) = null_block" using l [OF s(2)] by simp
    show ?thesis
    proof (cases "L 0")
      case Nil
      then have "head_block (sizes_info a 0) = null_block" using l [of 0] by simp
      then have "r = ErrorResult P" "a' = a" using run g h by (simp_all add: Allocate_def)
      then show ?thesis using inv by auto
    next
      case (Cons b t)
      then have h0: "head_block (sizes_info a 0) = b" "b \<noteq> null_block" using l [of 0] by simp_all
      let ?a3 = "InsertToList b s (upd_block b (blk_SetSize s) (RemoveFromList b 0 a))"
      have al: "Allocate_in_head P s ?a3 = (r, a')" using run g h h0 by (simp add: Allocate_def Let_def)
      note t = take_block_effect [OF ok inv s Nil Cons]
      from Allocate_in_head_effect [OF ok conjunct1 [OF t] s _ al, of b "[]"] show ?thesis
        unfolding conjunct2 [OF t] by simp
    qed
  qed
qed

text \<open>The block and the offset that \<^verbatim>\<open>Free\<close> computes.\<close>

abbreviation block_of :: "seg_params \<Rightarrow> u32 \<Rightarrow> u32" where
  "block_of P start \<equiv> (start - IndexBegin P) div BlockSize P"

abbreviation offset_of :: "seg_params \<Rightarrow> u32 \<Rightarrow> u32" where
  "offset_of P start \<equiv> start - block_of P start * BlockSize P - IndexBegin P"

lemma locate:
  assumes ok: "seg_ok P" and start: "IndexBegin P \<le> start" "start < IndexEnd P"
  shows "block_of P start < total_blocks P"
    "unat start = unat (IndexBegin P) + unat (block_of P start) * unat (BlockSize P) + unat (offset_of P start)"
    "unat (offset_of P start) < unat (BlockSize P)" "unat (BlockSize P) \<le> 4096"
proof -
  let ?d = "start - IndexBegin P" let ?B = "unat (BlockSize P)"
  have d: "unat ?d = unat start - unat (IndexBegin P)" using start(1) by (simp add: unat_sub)
  have B: "0 < ?B" and "?B \<le> 4096" using ok by (auto simp: seg_ok_def block_size_ok_def)
  then show "?B \<le> 4096" by simp
  have bl: "unat (block_of P start) = unat ?d div ?B" by (simp add: unat_div)
  have "unat (block_of P start) * ?B \<le> unat ?d" by (simp add: bl)
  then have m: "unat (block_of P start * BlockSize P) = unat (block_of P start) * ?B"
    using unsigned_less [of ?d, where ?'a = nat] by (simp add: unat_word_ariths)
  have o: "offset_of P start = ?d - block_of P start * BlockSize P" by simp
  have uo: "unat (offset_of P start) = unat ?d mod ?B"
    unfolding o using m \<open>unat (block_of P start) * ?B \<le> unat ?d\<close>
    by (simp add: unat_sub word_le_nat_alt bl minus_div_mult_eq_mod unat_mod)
  then show "unat (offset_of P start) < ?B" using B by simp
  show "unat start = unat (IndexBegin P) + unat (block_of P start) * ?B + unat (offset_of P start)"
    using uo bl d start(1) by (simp add: word_le_nat_alt)
  have "unat ?d < cells P" using d start by (simp add: cells_def word_less_nat_alt word_le_nat_alt)
  then show "block_of P start < total_blocks P"
    using \<open>unat (block_of P start) * ?B \<le> unat ?d\<close> block_in_cells [OF ok] by simp
qed

lemma live_iff:
  assumes ok: "seg_ok P" and c: "seg_content P bs L" and start: "IndexBegin P \<le> start" "start < IndexEnd P" and s: "s \<noteq> 0"
  shows "(unat start, unat s) \<in> live P bs \<longleftrightarrow> one_segment_size (bs (block_of P start)) = s \<and>
    unat (offset_of P start) mod unat s = 0 \<and> unat (offset_of P start) div unat s \<in> used (bs (block_of P start))"
    (is "?l \<longleftrightarrow> ?r")
proof
  note loc = locate [OF ok start]
  have z: "0 < unat s" using s by (simp add: unat_gt_0)
  show ?l if ?r
  proof -
    have "unat (offset_of P start) = unat (offset_of P start) div unat s * unat s" using that by auto
    then have "segment P (block_of P start) (bs (block_of P start)) (unat (offset_of P start) div unat s) = (unat start, unat s)"
      using that loc(2) by (simp add: segment_def)
    then show ?l using that loc(1) unfolding live_def by force
  qed
  show ?r if l: ?l
  proof -
    obtain b i where b: "b < total_blocks P" "i \<in> used (bs b)" "(unat start, unat s) = segment P b (bs b) i"
      using l unfolding live_def by blast
    let ?B = "unat (BlockSize P)"
    have e: "one_segment_size (bs b) = s" using b(3) by (simp add: segment_def word_unat_eq_iff)
    have "i * unat s + unat s \<le> block_len P b" using segment_in_block [OF content_block(1-3) [OF c b(1,2)]] e by simp
    then have "i * unat s < ?B" using block_len_bounds(2) [OF ok b(1)] z by linarith
    moreover have "unat b * ?B + i * unat s = unat (block_of P start) * ?B + unat (offset_of P start)"
      using b(3) loc(2) e by (simp add: segment_def)
    ultimately have "unat b = unat (block_of P start)" "i * unat s = unat (offset_of P start)"
      using offset_locates [of _ ?B] loc(3) by metis+
    then have "b = block_of P start" "unat (offset_of P start) mod unat s = 0" "unat (offset_of P start) div unat s = i"
      using z by (auto simp: word_unat_eq_iff simp flip: \<open>i * unat s = unat (offset_of P start)\<close>)
    then show ?r using b(2) e by simp
  qed
qed

lemma blk_Free_empty: "is_empty_block b \<Longrightarrow> blk_Free i b = (error_in_block, b)"
  by (simp add: blk_Free_def Let_def is_empty_block_def GET_BIT_def)

text \<open>
  The releases after which the lists are still right: either the block keeps segments, or it was full,
  or it is the first of its list.
\<close>

definition release_ok :: "seg_params \<Rightarrow> u32 \<Rightarrow> u16 \<Rightarrow> seg_allocator \<Rightarrow> bool" where
  "release_ok P start s a \<longleftrightarrow> (let b = block_of P start; blk = all_blocks a b
     in free_segments blk = 0 \<or> free_segments blk + 1 \<noteq> total_segments blk \<or> head_block (sizes_info a s) = b)"

lemma live_size:
  assumes "seg_content P bs L" "(x, z) \<in> live P bs"
  shows "\<exists>s. z = unat s \<and> s \<noteq> 0 \<and> s \<le> max_size P"
proof -
  obtain b i where b: "b < total_blocks P" "i \<in> used (bs b)" "(x, z) = segment P b (bs b) i"
    using assms(2) unfolding live_def by blast
  then show ?thesis using content_block(1) [OF assms(1) b(1,2)] by (auto simp: segment_def in_use_def)
qed

lemma Free_guard:
  assumes ok: "seg_ok P" and c: "seg_content P bs L" and x: "(unat start, unat s) \<in> live P bs"
  shows "s \<noteq> 0" "s \<le> max_size P" "IndexBegin P \<le> start" "start < IndexEnd P"
proof -
  obtain z where "unat s = unat z" "z \<noteq> 0" "z \<le> max_size P" using live_size [OF c x] by blast
  then show s: "s \<noteq> 0" "s \<le> max_size P" by (metis word_unat_eq_iff)+
  then have "0 < unat s" by (simp add: unat_gt_0)
  then show "IndexBegin P \<le> start" "start < IndexEnd P"
    using live_in_range [OF ok c x] by (auto simp: word_le_nat_alt word_less_nat_alt)
qed

lemma unat_index:
  assumes "seg_ok P" "IndexBegin P \<le> start" "start < IndexEnd P"
  shows "unat (ucast (offset_of P start div ucast s) :: u16) = unat (offset_of P start) div unat (s :: u16)"
proof -
  have "unat (offset_of P start) div unat s \<le> unat (offset_of P start)" by simp
  also have "\<dots> < 4096" using locate(3,4) [OF assms] by linarith
  finally have "unat (offset_of P start div ucast s) < 4096" by (simp only: unat_div) (simp add: unat_ucast_up)
  then have "unat (ucast (offset_of P start div ucast s) :: u16) = unat (offset_of P start div ucast s)"
    by (simp only: unsigned_ucast_eq) (simp add: take_bit_nat_eq_self)
  then show ?thesis by (simp only: unat_div) (simp add: unat_ucast_up)
qed

lemma Free_cases:
  fixes start :: u32 and s :: u16
  assumes ok: "seg_ok P" and c: "seg_content P (all_blocks a) L"
  defines "b \<equiv> block_of P start" and "i \<equiv> ucast (offset_of P start div ucast s) :: u16"
  shows "Free P start s a = (if (unat start, unat s) \<in> live P (all_blocks a)
    then (True, Free_in_block b s (free_segments (all_blocks a b) = 0) (upd_block b (\<lambda>_. snd (blk_Free i (all_blocks a b))) a))
    else (False, external_error a))"
proof (cases "s \<noteq> 0 \<and> s \<le> max_size P \<and> IndexBegin P \<le> start \<and> start < IndexEnd P")
  case False
  then have "(unat start, unat s) \<notin> live P (all_blocks a)" using Free_guard [OF ok c] by blast
  then show ?thesis using False size_le_max [OF ok, of s] by (auto simp: Free_def not_less not_le)
next
  case True
  then have s: "s \<noteq> 0" and r: "IndexBegin P \<le> start" "start < IndexEnd P" by simp_all
  have g: "\<not> (s = 0 \<or> MaxBufferSize P < ucast s \<or> IndexEnd P \<le> start \<or> start < IndexBegin P)"
    using True size_le_max [OF ok, of s] by auto
  define off where "off = start - b * BlockSize P - IndexBegin P"
  have off: "offset_of P start = off" by (simp only: off_def b_def)
  have i_off: "i = ucast (off div ucast s)" by (simp only: i_def off)
  have i: "unat i = unat off div unat s" using unat_index [OF ok r, of s] by (simp only: i_def off)
  have m: "(off mod ucast s = 0) = (unat off mod unat s = 0)"
    by (simp only: word_unat_eq_iff unat_mod) (simp add: unat_ucast_up)
  have li: "(unat start, unat s) \<in> live P (all_blocks a) \<longleftrightarrow>
      one_segment_size (all_blocks a b) = s \<and> unat off mod unat s = 0 \<and> unat i \<in> used (all_blocks a b)"
    using live_iff [OF ok c r s] by (simp only: i off_def b_def [symmetric])
  have fr: "fst (blk_Free i (all_blocks a b)) = (if unat i \<in> used (all_blocks a b) then 0 else error_in_block) \<and>
      (unat i \<notin> used (all_blocks a b) \<longrightarrow> snd (blk_Free i (all_blocks a b)) = all_blocks a b)"
  proof (cases "b \<in> set (L 0)")
    case True
    then show ?thesis using c blk_Free_empty [of "all_blocks a b"] by (auto simp: seg_content_def)
  next
    case False
    then have "blk_inv (BlockSize P) (all_blocks a b)"
      using content_in_use [OF c locate(1) [OF ok r]] by (simp add: b_def in_use_def)
    from blk_Free_effect [OF seg_block_size [OF ok] this, of i] show ?thesis
      by (metis prod.collapse)
  qed
  have ne: "(0 :: u16) \<noteq> error_in_block" by (simp add: error_in_block_def)
  have idle: "upd_block b (\<lambda>_. all_blocks a b) a = a" by (simp add: upd_block_def)
  show ?thesis
    unfolding Free_def if_not_P [OF g] Let_def split_def b_def [symmetric] off_def [symmetric] m i_off [symmetric] li
    using fr ne idle
    by (cases "one_segment_size (all_blocks a b) = s"; cases "unat off mod unat s = 0"; cases "unat i \<in> used (all_blocks a b)") simp_all
qed

lemma links_errors [simp]: "links M (internal_error a) L = links M a L" "links M (external_error a) L = links M a L"
  by (rule links_frame; simp add: internal_error_def external_error_def)+

lemma links_info [simp]: "links M (upd_info s (\<lambda>i. i\<lparr>used_segments := f i\<rparr>) a) L = links M a L"
  "links M (upd_info s (\<lambda>i. i\<lparr>busy_blocks := f i\<rparr>) a) L = links M a L" "links M (a\<lparr>free_cells := n\<rparr>) L = links M a L"
  by (rule links_frame; simp add: upd_info_def)+

lemma blocks_same [simp]: "all_blocks (internal_error a) = all_blocks a" "all_blocks (external_error a) = all_blocks a"
  "all_blocks (upd_info s g a) = all_blocks a" "free_cells (internal_error a) = free_cells a"
  "free_cells (external_error a) = free_cells a" "free_cells (upd_info s g a) = free_cells a"
  by (simp_all add: internal_error_def external_error_def upd_info_def)

text \<open>
  A block that has just taken a segment back goes to the front of its list if it was full, and then to
  the list of empty blocks if nothing is left in it.
\<close>

lemma Free_in_block_lists:
  assumes l: "links (max_size P) a L" and s: "s \<noteq> 0" "s \<le> max_size P" and b: "b \<noteq> null_block"
    and busy: "busy \<Longrightarrow> \<forall>t \<le> max_size P. b \<notin> set (L t)"
    and first: "\<not> busy \<Longrightarrow> free_segments (all_blocks a b) = total_segments (all_blocks a b) \<Longrightarrow> \<exists>r. L s = b # r"
    and L': "L' = (if busy then L(s := b # L s) else L)"
  defines "a' \<equiv> Free_in_block b s busy a"
  shows "\<exists>r. links (max_size P) a' (if free_segments (all_blocks a b) = total_segments (all_blocks a b)
      then L'(s := r, 0 := b # L' 0) else L') \<and>
    (free_segments (all_blocks a b) = total_segments (all_blocks a b) \<longrightarrow> L' s = b # r) \<and>
    (\<forall>x. core (all_blocks a' x) = core (all_blocks a x)) \<and> free_cells a' = free_cells a + ucast s"
proof -
  define a1 where "a1 = (if previous (all_blocks a b) \<noteq> null_block \<or> next_block (all_blocks a b) \<noteq> null_block then internal_error a else a)"
  define a2 where "a2 = (if busy then upd_info s (\<lambda>i. i\<lparr>busy_blocks := busy_blocks i - 1\<rparr>) (InsertToList b s a1) else a)"
  have a1: "links (max_size P) a1 L" "all_blocks a1 = all_blocks a" "free_cells a1 = free_cells a"
    using l by (simp_all add: a1_def)
  have a2: "links (max_size P) a2 L' \<and> (\<forall>x. core (all_blocks a2 x) = core (all_blocks a x)) \<and> free_cells a2 = free_cells a"
    using l InsertToList_head [OF a1(1) s(2) b] busy a1 by (cases busy) (simp_all add: a2_def L')
  then have f: "free_segments (all_blocks a2 b) = free_segments (all_blocks a b)" "total_segments (all_blocks a2 b) = total_segments (all_blocks a b)"
    using core_fields [of "all_blocks a2 b" "all_blocks a b"] by blast+
  define a3 where "a3 = (if free_segments (all_blocks a b) = total_segments (all_blocks a b)
     then InsertToList b 0 (RemoveFromList b s a2) else a2)"
  have a': "a' = (upd_info s (\<lambda>i. i\<lparr>used_segments := used_segments i - 1\<rparr>) a3)\<lparr>free_cells := free_cells a3 + ucast s\<rparr>"
    unfolding a'_def Free_in_block_def Let_def by (simp add: a3_def a2_def a1_def f [unfolded a2_def a1_def])
  show ?thesis
  proof (cases "free_segments (all_blocks a b) = total_segments (all_blocks a b)")
    case False
    then show ?thesis using a2 by (simp add: a' a3_def)
  next
    case True
    obtain r where r: "L' s = b # r" using first True by (cases busy) (auto simp: L')
    note rem = RemoveFromList_head [OF conjunct1 [OF a2] s(2) r]
    have "b \<notin> set ((L'(s := r)) t)" if "t \<le> max_size P" for t
      using links_unique [OF conjunct1 [OF a2] s(2) that, of b] r a2 s(2) by (cases "t = s") (auto simp: links_def)
    note ins = InsertToList_head [OF conjunct1 [OF rem] _ b this, of 0]
    have a3: "a3 = InsertToList b 0 (RemoveFromList b s a2)" using True by (simp add: a3_def)
    have e: "(L'(s := r))(0 := b # (L'(s := r)) 0) = L'(s := r, 0 := b # L' 0)" using s(1) by simp
    have "links (max_size P) a3 (L'(s := r, 0 := b # L' 0))" using ins unfolding e a3 by simp
    moreover have "core (all_blocks a3 x) = core (all_blocks a x)" for x using a2 rem ins by (simp add: a3)
    moreover have "free_cells a3 = free_cells a" using a2 rem ins by (simp add: a3)
    ultimately show ?thesis using True r by (intro exI [of _ r]) (simp add: a')
  qed
qed

lemma Free_effect:
  assumes ok: "seg_ok P" and inv: "seg_inv P a L" and run: "Free P start s a = (res, a')"
  shows "if (unat start, unat s) \<in> live P (all_blocks a)
    then res \<and> (release_ok P start s a \<longrightarrow>
       (\<exists>L'. seg_inv P a' L' \<and> live P (all_blocks a') = live P (all_blocks a) - {(unat start, unat s)}))
    else \<not> res \<and> seg_inv P a' L \<and> live P (all_blocks a') = live P (all_blocks a)"
proof (cases "(unat start, unat s) \<in> live P (all_blocks a)")
  case False
  have c: "seg_content P (all_blocks a) L" using inv by (simp add: seg_inv_def)
  have "\<not> res" "a' = external_error a" using Free_cases [OF ok c, of start s] run False by simp_all
  then show ?thesis using False inv by (simp add: seg_inv_def)
next
  case True
  let ?bs = "all_blocks a" let ?x = "(unat start, unat s)"
  define b where "b = block_of P start"
  define i where "i = (ucast (offset_of P start div ucast s) :: u16)"
  have l: "links (max_size P) a L" and c: "seg_content P ?bs L" using inv by (simp_all add: seg_inv_def)
  note g = Free_guard [OF ok c True]
  obtain r blk where fr: "blk_Free i (?bs b) = (r, blk)" by force
  define a1 where "a1 = upd_block b (\<lambda>_. blk) a"
  have res: "res" and a': "a' = Free_in_block b s (free_segments (?bs b) = 0) a1"
    using Free_cases [OF ok c, of start s, folded i_def, folded b_def] run True by (simp_all add: fr a1_def)
  have seg: "one_segment_size (?bs b) = s" and mem: "unat i \<in> used (?bs b)" and "unat (offset_of P start) mod unat s = 0"
    using iffD1 [OF live_iff [OF ok c g(3,4,1)] True] unfolding b_def i_def unat_index [OF ok g(3,4)] by blast+
  then have "unat i * unat s = unat (offset_of P start)"
    unfolding i_def using unat_index [OF ok g(3,4), of s] by (metis mod_0_imp_dvd dvd_div_mult_self)
  then have x: "segment P b (?bs b) (unat i) = ?x"
    using locate(2) [OF ok g(3,4), folded b_def] by (simp only: segment_def seg) (simp add: b_def)
  have b: "b < total_blocks P" using locate(1) [OF ok g(3,4)] by (simp only: b_def)
  note cb = content_block [OF c b mem]
  have bi: "blk_inv (BlockSize P) (?bs b)" using cb(1) by (simp add: in_use_def)
  have e: "used blk = used (?bs b) - {unat i}" "blk_inv (BlockSize P) blk" "same_frame (?bs b) blk"
      "free_segments blk = free_segments (?bs b) + 1" "free_segments blk = total_segments (?bs b) \<longleftrightarrow> used blk = {}"
    using blk_Free_effect [OF seg_block_size [OF ok] bi fr] unfolding if_P [OF mem] by blast+
  have tot: "total_segments blk = total_segments (?bs b)" using e(3) by (simp add: same_frame_def)
  have fin: "finite (used (?bs b))" using bi finite_subset by (auto simp: blk_inv_def)
  have nz: "free_segments blk \<noteq> 0"
    using bi e(1,2) tot card_Diff1_less [OF fin mem] by (auto simp: blk_inv_def)
  have bn: "b \<noteq> null_block" using b word_order.extremum_strict unfolding null_block_def by metis
  have listed: "b \<in> set (L t) \<longleftrightarrow> t = s \<and> free_segments (?bs b) \<noteq> 0" if "t \<le> max_size P" for t
    using c that b cb(4) seg g(1) by (cases "t = 0") (auto simp: seg_content_def)
  have a1: "links (max_size P) a1 L" "all_blocks a1 = ?bs(b := blk)" "free_cells a1 = free_cells a"
    using l e(3) links_frame [of a1 a] by (simp_all add: a1_def upd_block_def same_frame_def)
  define L' where "L' = (if free_segments (?bs b) = 0 then L(s := b # L s) else L)"
  have c1: "seg_content P (?bs(b := blk)) L'"
  proof (rule content_replace [OF c b cb(4)])
    show "in_use P blk" "block_size blk = block_size (?bs b)" using in_use_frame [OF cb(1) e(3,2)] e(3) by (simp_all add: same_frame_def)
    show "set (L' 0) = set (L 0)" using g(1) by (simp add: L'_def)
    show "(x \<in> set (L' t)) = (if x = b then one_segment_size blk = t \<and> free_segments blk \<noteq> 0 else x \<in> set (L t))"
      if "t \<le> max_size P" "t \<noteq> 0" for t x
      using listed [OF that(1)] nz seg e(3) by (auto simp: L'_def same_frame_def)
  qed
  have "\<exists>L''. seg_inv P a' L'' \<and> live P (all_blocks a') = live P ?bs - {?x}" if rel: "release_ok P start s a"
  proof -
    have first: "\<exists>r. L s = b # r" if "free_segments (?bs b) \<noteq> 0" "free_segments blk = total_segments blk"
    proof -
      have "head_block (sizes_info a s) = b" using rel that e(4) tot by (simp add: release_ok_def flip: b_def)
      moreover have "chain ?bs (head_block (sizes_info a s)) (L s)" using l g(2) by (simp add: links_def)
      ultimately show ?thesis using bn by (cases "L s") auto
    qed
    obtain r where r: "links (max_size P) a' (if free_segments blk = total_segments blk then L'(s := r, 0 := b # L' 0) else L')"
        "free_segments blk = total_segments blk \<longrightarrow> L' s = b # r"
        "\<And>y. core (all_blocks a' y) = core ((?bs(b := blk)) y)" "free_cells a' = free_cells a + ucast s"
      using Free_in_block_lists [OF a1(1) g(1,2) bn, of "free_segments (?bs b) = 0" L'] listed first a1(2,3)
      unfolding L'_def a' by auto
    have "seg_content P (?bs(b := blk)) (if free_segments blk = total_segments blk then L'(s := r, 0 := b # L' 0) else L')"
    proof (cases "free_segments blk = total_segments blk")
      case True
      have "distinct (L' s)" using l g(2) listed [OF g(2)] by (simp add: L'_def links_def)
      then have "set ((L'(s := r, 0 := b # L' 0)) t) = set (L' t) - {b}" if "t \<le> max_size P" "t \<noteq> 0" for t
        using r(2) True that listed [OF that(1)] by (auto simp: L'_def split: if_splits)
      moreover have "is_empty_block blk" using used_is_empty [OF _ e(2)] e(5) True tot by simp
      ultimately show ?thesis using content_release [OF c1 b, of "L'(s := r, 0 := b # L' 0)"] True by simp
    qed (use c1 in simp)
    then have c2: "seg_content P (all_blocks a') (if free_segments blk = total_segments blk then L'(s := r, 0 := b # L' 0) else L')"
      using seg_content_core [of "all_blocks a'" "?bs(b := blk)", OF r(3)] by simp
    have lv: "live P (all_blocks a') = live P ?bs - {?x}"
      using live_core [of "all_blocks a'" "?bs(b := blk)", OF r(3)] live_free [OF ok c b mem _ e(1)] e(3) x by (simp add: same_frame_def)
    have "free_cells a' = IndexEnd P - IndexBegin P - of_nat (\<Sum>x \<in> live P (all_blocks a'). snd x)"
      using inv r(4) sum_remove_live [OF finite_live [OF c] True] by (simp add: seg_inv_def lv)
    then show ?thesis using r(1) c2 lv by (auto simp: seg_inv_def)
  qed
  then show ?thesis using True res by simp
qed

section \<open>A fresh allocator\<close>

definition fresh_lists :: "seg_params \<Rightarrow> u16 \<Rightarrow> u32 list" where
  "fresh_lists P s = (if s = 0 then map of_nat [0..<unat (total_blocks P)] else [])"

lemma set_fresh: "set (map of_nat [0..<unat n]) = {b :: u32. b < n}" "distinct (map (of_nat :: nat \<Rightarrow> u32) [0..<unat n])"
proof -
  have e: "unat (of_nat k :: u32) = k" if "k < unat n" for k
    using that unsigned_less [of n, where ?'a = nat] by (intro unat_of_nat_small) simp
  show "distinct (map (of_nat :: nat \<Rightarrow> u32) [0..<unat n])"
    by (simp add: distinct_map) (metis atLeastLessThan_iff e inj_onI)
  show "set (map of_nat [0..<unat n]) = {b :: u32. b < n}"
  proof safe
    fix b :: u32 assume "b < n"
    then have "unat b < unat n" by (simp add: word_less_nat_alt)
    then show "b \<in> set (map of_nat [0..<unat n])" unfolding set_map by (intro image_eqI [of _ _ "unat b"]) simp_all
  qed (auto simp: word_less_nat_alt e)
qed

lemma chain_upt:
  assumes "\<And>j. j < n \<Longrightarrow> next_block (bs (of_nat j)) = (if Suc j = n then null_block else of_nat (Suc j))" and "n < 2 ^ 32"
    and "k \<le> n"
  shows "chain bs (if k = n then null_block else of_nat k) (map of_nat [k..<n])"
  using assms(3)
proof (induction "n - k" arbitrary: k)
  case (Suc m)
  then have k: "k < n" by simp
  have "unat (of_nat k :: u32) = k" using k assms(2) by (intro unat_of_nat_small) simp
  then have "of_nat k \<noteq> null_block"
    using k assms(2) by (auto simp: null_block_def unsigned_minus_1_eq_mask mask_eq_exp_minus_1)
  then show ?case using Suc.hyps(1) [of "Suc k"] Suc.hyps(2) k assms(1) [OF k] by (simp add: upt_rec)
qed simp

lemma total_blocks_pos:
  assumes "seg_ok P"
  shows "0 < unat (total_blocks P)" "unat (total_blocks P - 1) = unat (total_blocks P) - 1"
proof -
  have "0 < cells P" using assms by (simp add: seg_ok_def cells_def word_less_nat_alt)
  then have "(0 :: u32) < total_blocks P" using block_in_cells [OF assms, of 0] by simp
  then show "0 < unat (total_blocks P)" by (simp add: word_less_nat_alt)
  then show "unat (total_blocks P - 1) = unat (total_blocks P) - 1" by (intro unat_minus_one) auto
qed

lemma seg_new_block:
  assumes ok: "seg_ok P" and b: "b < total_blocks P"
  shows "is_empty_block (all_blocks (seg_new P mem) b)" "unat (block_size (all_blocks (seg_new P mem) b)) = block_len P b"
    "next_block (all_blocks (seg_new P mem) b) = (if b = total_blocks P - 1 then null_block else b + 1)"
proof -
  let ?n = "total_blocks P" let ?B = "unat (BlockSize P)"
  have n: "0 < ?n" "?n - 1 < ?n" using total_blocks_pos [OF ok] by (simp_all add: word_less_nat_alt)
  show "is_empty_block (all_blocks (seg_new P mem) b)" "next_block (all_blocks (seg_new P mem) b) = (if b = ?n - 1 then null_block else b + 1)"
    using b n by (simp_all add: seg_new_def Let_def blk_Initialize_def is_empty_block_def)
  have B: "?B \<le> 4096" using ok by (simp add: seg_ok_def block_size_ok_def)
  then have uB: "unat (ucast (BlockSize P) :: u16) = ?B" by (simp add: unsigned_ucast_eq take_bit_nat_eq_self)
  show "unat (block_size (all_blocks (seg_new P mem) b)) = block_len P b"
  proof (cases "b = ?n - 1")
    case False
    have "unat b \<noteq> unat ?n - 1" using False total_blocks_pos(2) [OF ok] by (metis word_unat_eq_iff)
    then have "unat b + 1 < unat ?n" using b by (simp add: word_less_nat_alt)
    moreover from this have "unat (b + 1) = unat b + 1"
      using unsigned_less [of ?n, where ?'a = nat] by (simp add: unat_word_ariths)
    ultimately have "(unat b + 1) * ?B < cells P" using block_in_cells [OF ok, of "b + 1"] by (simp add: word_less_nat_alt)
    then have "block_len P b = ?B" by (simp add: block_len_def)
    then show ?thesis using False b n uB by (simp add: seg_new_def Let_def blk_Initialize_def)
  next
    case True
    have lt: "unat b * ?B < cells P" using block_in_cells [OF ok] b by simp
    then have m: "unat (b * BlockSize P) = unat b * ?B"
      using unat_cells [OF ok] unsigned_less [of "IndexEnd P - IndexBegin P", where ?'a = nat] by (simp add: unat_word_ariths)
    have "unat (IndexEnd P - IndexBegin P - b * BlockSize P) = cells P - unat b * ?B"
      using lt m unat_cells [OF ok] by (simp add: unat_sub word_le_nat_alt)
    moreover have "cells P - unat b * ?B \<le> ?B"
    proof -
      have "unat b = unat ?n - 1" using True total_blocks_pos(2) [OF ok] by simp
      then have "Suc (unat b) = (cells P + ?B - 1) div ?B" using total_blocks_pos(1) [OF ok] total_blocks_unat [OF ok] by simp
      moreover have "0 < ?B" using ok by (auto simp: seg_ok_def block_size_ok_def)
      ultimately have "cells P + ?B - 1 < Suc (Suc (unat b)) * ?B" by (metis lessI less_mult_imp_div_less linorder_not_le div_le_mono div_mult_self_is_m not_less)
      then show ?thesis by simp
    qed
    ultimately show ?thesis
      using True b n B by (simp add: seg_new_def Let_def blk_Initialize_def block_len_def unsigned_ucast_eq take_bit_nat_eq_self)
  qed
qed

lemma seg_new_inv:
  assumes ok: "seg_ok P"
  shows "seg_inv P (seg_new P mem) (fresh_lists P)" "live P (all_blocks (seg_new P mem)) = {}"
proof -
  let ?a = "seg_new P mem" let ?n = "total_blocks P"
  note n = total_blocks_pos [OF ok]
  have lt: "unat ?n < 2 ^ 32" using unsigned_less [of ?n, where ?'a = nat] by simp
  have e: "unat (of_nat j :: u32) = j" if "j < unat ?n" for j using that lt by (intro unat_of_nat_small) simp
  show lv: "live P (all_blocks ?a) = {}" using seg_new_block(1) [OF ok] by (simp add: live_def)
  have "chain (all_blocks ?a) (if 0 = unat ?n then null_block else of_nat 0) (map of_nat [0..<unat ?n])"
  proof (rule chain_upt [OF _ lt])
    fix j assume j: "j < unat ?n"
    then have b: "of_nat j < ?n" using e by (simp add: word_less_nat_alt)
    have "(of_nat j = ?n - 1) = (Suc j = unat ?n)" using e [OF j] n j by (auto simp: word_unat_eq_iff)
    then show "next_block (all_blocks ?a (of_nat j)) = (if Suc j = unat ?n then null_block else of_nat (Suc j))"
      using seg_new_block(3) [OF ok b] by (simp add: add.commute)
  qed simp
  moreover have "head_block (sizes_info ?a 0) = 0" "previous (all_blocks ?a 0) = null_block"
    by (simp_all add: seg_new_def Let_def)
  moreover have "head_block (sizes_info ?a s) = null_block" if "s \<noteq> 0" "s \<le> max_size P" for s
  proof -
    have "1 \<le> s" using that(1) by (simp add: word_le_nat_alt unat_gt_0 Suc_le_eq)
    moreover have "ucast s \<le> MaxBufferSize P" using that(2) size_le_max [OF ok, of s] by (simp add: not_less)
    ultimately show ?thesis using that(1) by (simp add: seg_new_def Let_def)
  qed
  moreover have "hd (map of_nat [0..<unat ?n]) = (0 :: u32)" using n(1) by (simp add: hd_map)
  ultimately have "links (max_size P) ?a (fresh_lists P)"
    using n(1) set_fresh(2) [of ?n] by (auto simp: links_def fresh_lists_def)
  moreover have "seg_content P (all_blocks ?a) (fresh_lists P)"
    using seg_new_block [OF ok] set_fresh(1) [of ?n] by (auto simp: seg_content_def fresh_lists_def)
  moreover have "free_cells ?a = IndexEnd P - IndexBegin P" by (simp add: seg_new_def Let_def)
  ultimately show "seg_inv P ?a (fresh_lists P)" by (simp add: seg_inv_def lv)
qed

section \<open>Runs of the allocator\<close>

datatype seg_op = Alloc_op u16 | Free_op u32 u16

datatype seg_event = Allocated u16 u32 | Released u32 u16 bool

fun seg_run :: "seg_params \<Rightarrow> seg_op list \<Rightarrow> seg_allocator \<Rightarrow> seg_event list \<times> seg_allocator" where
  "seg_run P [] a = ([], a)"
| "seg_run P (Alloc_op s # ops) a =
     (let (r, a) = Allocate P s a; (es, a) = seg_run P ops a in (Allocated s r # es, a))"
| "seg_run P (Free_op x s # ops) a =
     (let (r, a) = Free P x s a; (es, a) = seg_run P ops a in (Released x s r # es, a))"

text \<open>Every release of the run that takes a segment back keeps the lists right.\<close>

fun releases_ok :: "seg_params \<Rightarrow> seg_op list \<Rightarrow> seg_allocator \<Rightarrow> bool" where
  "releases_ok P [] a = True"
| "releases_ok P (Alloc_op s # ops) a = releases_ok P ops (snd (Allocate P s a))"
| "releases_ok P (Free_op x s # ops) a =
     ((if fst (Free P x s a) then release_ok P x s a else True) \<and> releases_ok P ops (snd (Free P x s a)))"

text \<open>The segments that a client holds after a list of events.\<close>

fun held :: "seg_params \<Rightarrow> (nat \<times> nat) set \<Rightarrow> seg_event list \<Rightarrow> (nat \<times> nat) set" where
  "held P H [] = H"
| "held P H (Allocated s r # es) = held P (if r = ErrorResult P then H else insert (unat r, unat s) H) es"
| "held P H (Released x s ok # es) = held P (if ok then H - {(unat x, unat s)} else H) es"

text \<open>
  What a client relies on: a segment that is handed out is in the range and does not meet one that is
  held, and a release succeeds exactly for segments that are held.
\<close>

fun events_ok :: "seg_params \<Rightarrow> (nat \<times> nat) set \<Rightarrow> seg_event list \<Rightarrow> bool" where
  "events_ok P H [] = True"
| "events_ok P H (Allocated s r # es) =
     (if r = ErrorResult P then events_ok P H es
      else unat (IndexBegin P) \<le> unat r \<and> unat r + unat s \<le> unat (IndexEnd P) \<and>
        (\<forall>(x, z) \<in> H. unat r + unat s \<le> x \<or> x + z \<le> unat r) \<and> events_ok P (insert (unat r, unat s) H) es)"
| "events_ok P H (Released x s ok # es) =
     (ok = ((unat x, unat s) \<in> H) \<and> events_ok P (if ok then H - {(unat x, unat s)} else H) es)"

lemma seg_run_effect:
  assumes ok: "seg_ok P" and inv: "seg_inv P a L" and rel: "releases_ok P ops a" and run: "seg_run P ops a = (es, a')"
  shows "events_ok P (live P (all_blocks a)) es \<and>
    (\<exists>L'. seg_inv P a' L' \<and> live P (all_blocks a') = held P (live P (all_blocks a)) es)"
  using inv rel run
proof (induction ops arbitrary: a L es)
  case (Cons op ops)
  show ?case
  proof (cases op)
    case (Alloc_op s)
    obtain r a1 where al: "Allocate P s a = (r, a1)" by force
    obtain es1 where r1: "seg_run P ops a1 = (es1, a')" and es: "es = Allocated s r # es1"
      using Cons.prems(3) Alloc_op al by (auto split: prod.splits)
    obtain L1 where inv1: "seg_inv P a1 L1" and lv: "if r = ErrorResult P then live P (all_blocks a1) = live P (all_blocks a)
        else (unat r, unat s) \<notin> live P (all_blocks a) \<and> live P (all_blocks a1) = insert (unat r, unat s) (live P (all_blocks a))"
      using Allocate_effect [OF ok Cons.prems(1) al] by blast
    have c1: "seg_content P (all_blocks a1) L1" using inv1 by (simp add: seg_inv_def)
    have "releases_ok P ops a1" using Cons.prems(2) Alloc_op al by simp
    note IH = Cons.IH [OF inv1 this r1]
    show ?thesis
    proof (cases "r = ErrorResult P")
      case False
      then have mem: "(unat r, unat s) \<in> live P (all_blocks a1)" using lv by simp
      have "unat r + unat s \<le> x \<or> x + z \<le> unat r" if "(x, z) \<in> live P (all_blocks a)" for x z
        using live_disjoint [OF ok c1 mem, of "(x, z)"] lv False that by auto
      then show ?thesis using IH lv live_in_range [OF ok c1 mem] by (auto simp: es False)
    qed (use IH lv in \<open>simp add: es\<close>)
  next
    case (Free_op x s)
    obtain r a1 where al: "Free P x s a = (r, a1)" by force
    obtain es1 where r1: "seg_run P ops a1 = (es1, a')" and es: "es = Released x s r # es1"
      using Cons.prems(3) Free_op al by (auto split: prod.splits)
    have rel1: "releases_ok P ops a1" and ro: "r \<Longrightarrow> release_ok P x s a" using Cons.prems(2) Free_op al by simp_all
    note e = Free_effect [OF ok Cons.prems(1) al]
    obtain L1 where inv1: "seg_inv P a1 L1" and lv: "r = ((unat x, unat s) \<in> live P (all_blocks a))"
        "live P (all_blocks a1) = (if r then live P (all_blocks a) - {(unat x, unat s)} else live P (all_blocks a))"
      using e ro by (auto split: if_splits)
    from Cons.IH [OF inv1 rel1 r1] show ?thesis using lv by (simp add: es)
  qed
qed auto

section \<open>Two blocks of 64 cells\<close>

text \<open>
  The smallest instance with two blocks, for the examples below.  States of it in which only segments
  of 31 and 32 cells have been used are written down block by block, which makes runs computable.
\<close>

definition small_params :: seg_params where
  "small_params = \<lparr>IndexBegin = 64, IndexEnd = 192, BlockSize = 64, MaxBufferSize = 32, ErrorResult = 0\<rparr>"

definition small_block :: "u32 \<Rightarrow> u32 \<Rightarrow> u16 \<Rightarrow> u16 \<Rightarrow> u16 \<Rightarrow> u64 \<Rightarrow> u64 \<Rightarrow> OneBlock" where
  "small_block prv nxt z n f g m = \<lparr>previous = prv, next_block = nxt, block_size = 64, one_segment_size = z, total_segments = n,
     free_segments = f, group_mask = g, masks = (\<lambda>_. 0)(0 := m)\<rparr>"

definition zero_block :: OneBlock where
  "zero_block = \<lparr>previous = 0, next_block = 0, block_size = 0, one_segment_size = 0, total_segments = 0,
     free_segments = 0, group_mask = 0, masks = (\<lambda>_. 0)\<rparr>"

definition small_info :: "u32 \<Rightarrow> u32 \<Rightarrow> u32 \<Rightarrow> u32 \<Rightarrow> OneSizeBlockInfo" where
  "small_info h u b s = \<lparr>head_block = h, used_blocks = u, busy_blocks = b, used_segments = s\<rparr>"

definition small :: "OneBlock \<Rightarrow> OneBlock \<Rightarrow> OneSizeBlockInfo \<Rightarrow> OneSizeBlockInfo \<Rightarrow> OneSizeBlockInfo \<Rightarrow> u32 \<Rightarrow> u64 \<Rightarrow> u64 \<Rightarrow> seg_allocator" where
  "small b0 b1 i0 i31 i32 c ee ei = \<lparr>all_blocks = (\<lambda>_. zero_block)(0 := b0, 1 := b1),
     sizes_info = (\<lambda>s. small_info (if 1 \<le> s \<and> s \<le> 32 then null_block else 0) 0 0 0)(0 := i0, 31 := i31, 32 := i32),
     free_cells = c, errors_external = ee, errors_internal = ei\<rparr>"

abbreviation small_new :: seg_allocator where
  "small_new \<equiv> seg_new small_params (\<lambda>_. zero_block)"

lemma small_upd:
  "upd_block 0 f (small b0 b1 i0 i31 i32 c ee ei) = small (f b0) b1 i0 i31 i32 c ee ei"
  "upd_block 1 f (small b0 b1 i0 i31 i32 c ee ei) = small b0 (f b1) i0 i31 i32 c ee ei"
  "upd_info 0 g (small b0 b1 i0 i31 i32 c ee ei) = small b0 b1 (g i0) i31 i32 c ee ei"
  "upd_info 31 g (small b0 b1 i0 i31 i32 c ee ei) = small b0 b1 i0 (g i31) i32 c ee ei"
  "upd_info 32 g (small b0 b1 i0 i31 i32 c ee ei) = small b0 b1 i0 i31 (g i32) c ee ei"
  "internal_error (small b0 b1 i0 i31 i32 c ee ei) = small b0 b1 i0 i31 i32 c ee (ei + 1)"
  "external_error (small b0 b1 i0 i31 i32 c ee ei) = small b0 b1 i0 i31 i32 c (ee + 1) ei"
  "(small b0 b1 i0 i31 i32 c ee ei)\<lparr>free_cells := n\<rparr> = small b0 b1 i0 i31 i32 n ee ei"
  by (simp_all add: small_def upd_block_def upd_info_def internal_error_def external_error_def fun_eq_iff)

lemma small_get:
  "all_blocks (small b0 b1 i0 i31 i32 c ee ei) 0 = b0" "all_blocks (small b0 b1 i0 i31 i32 c ee ei) 1 = b1"
  "sizes_info (small b0 b1 i0 i31 i32 c ee ei) 0 = i0" "sizes_info (small b0 b1 i0 i31 i32 c ee ei) 31 = i31"
  "sizes_info (small b0 b1 i0 i31 i32 c ee ei) 32 = i32" "free_cells (small b0 b1 i0 i31 i32 c ee ei) = c"
  by (simp_all add: small_def)

lemma small_block_fields:
  "previous (small_block p q z n f g m) = p" "next_block (small_block p q z n f g m) = q"
  "one_segment_size (small_block p q z n f g m) = z" "total_segments (small_block p q z n f g m) = n"
  "free_segments (small_block p q z n f g m) = f"
  "(small_block p q z n f g m)\<lparr>previous := p'\<rparr> = small_block p' q z n f g m"
  "(small_block p q z n f g m)\<lparr>next_block := q'\<rparr> = small_block p q' z n f g m"
  "blk_SetSize z' (small_block p q z n f g m) = small_block p q z' (64 div z') (64 div z') g m"
  by (simp_all add: small_block_def blk_SetSize_def Let_def)

lemma small_info_fields:
  "head_block (small_info h u b s) = h" "(small_info h u b s)\<lparr>head_block := h'\<rparr> = small_info h' u b s"
  "used_blocks (small_info h u b s) = u" "(small_info h u b s)\<lparr>used_blocks := u'\<rparr> = small_info h u' b s"
  "busy_blocks (small_info h u b s) = b" "(small_info h u b s)\<lparr>busy_blocks := b'\<rparr> = small_info h u b' s"
  "used_segments (small_info h u b s) = s" "(small_info h u b s)\<lparr>used_segments := s'\<rparr> = small_info h u b s'"
  by (simp_all add: small_info_def)

lemma small_Allocate:
  "blk_Allocate 64 (small_block p q z n f 0 m) =
     (let k = builtin_ctzll (NOT m); m' = ENABLE_BIT m k in
      if NOT m = 0 \<or> n \<le> of_nat k then (error_in_block, small_block p q z n f 0 m)
      else (of_nat k, small_block p q z n (f - 1) (if NOT m' = 0 then 1 else 0) m'))"
proof -
  have "builtin_ctzll (NOT 0) = 0" "ENABLE_BIT 0 0 = 1" by code_simp+
  then show ?thesis by (auto simp: blk_Allocate_def small_block_def Let_def)
qed

lemma small_Free:
  "blk_Free 0 (small_block p q z n f 0 m) =
     (if n = 0 \<or> GET_BIT m 0 = 0 then (error_in_block, small_block p q z n f 0 m)
      else (0, small_block p q z n (f + 1) 0 (DISABLE_BIT m 0)))"
proof -
  have "DISABLE_BIT 0 0 = 0" by code_simp
  then show ?thesis by (auto simp: blk_Free_def small_block_def Let_def)
qed

lemma small_bits:
  "builtin_ctzll (NOT 0) = 0" "builtin_ctzll (NOT 1) = 1" "builtin_ctzll (NOT 2) = 0" "builtin_ctzll (- 1) = 0"
  "builtin_ctzll (- 2) = 1" "builtin_ctzll (- 3) = 0"
  "ENABLE_BIT 0 0 = 1" "ENABLE_BIT 1 1 = 3" "ENABLE_BIT 1 (Suc 0) = 3" "ENABLE_BIT 2 0 = 3"
  "GET_BIT 3 0 = 1" "GET_BIT 1 0 = 1" "GET_BIT 2 0 = 0" "GET_BIT 0 0 = 0"
  "DISABLE_BIT 3 0 = 2" "DISABLE_BIT 1 0 = 0" "((2 :: u16) \<le> 1) = False" "((2 :: u16) \<le> 0) = False"
  by code_simp+

lemma small_new_eq: "small_new = small (small_block null_block 1 0 0 0 0 0) (small_block 0 null_block 0 0 0 0 0)
    (small_info 0 2 0 0) (small_info null_block 0 0 0) (small_info null_block 0 0 0) 128 0 0"
proof -
  have two: "x < 2 \<longleftrightarrow> x = 0 \<or> x = 1" for x :: u32
  proof
    assume "x < 2"
    then have "unat x < 2" by (simp add: word_less_nat_alt)
    then show "x = 0 \<or> x = 1" by (auto simp: word_unat_eq_iff)
  qed auto
  have up: "(ucast x :: u32) \<le> 32 \<longleftrightarrow> x \<le> 32" for x :: u16 by (simp add: word_le_nat_alt unat_ucast_up)
  have n: "total_blocks small_params = 2" by (simp add: total_blocks_def small_params_def)
  show ?thesis
    unfolding seg_new_def Let_def n two
    by (simp add: small_def small_params_def up blk_Initialize_def zero_block_def small_block_def small_info_def fun_eq_iff null_block_def)
qed

lemma small_params_fields: "IndexBegin small_params = 64" "IndexEnd small_params = 192" "BlockSize small_params = 64"
  "MaxBufferSize small_params = 32" "ErrorResult small_params = 0"
  by (simp_all add: small_params_def)

lemmas small_run = small_upd small_get small_block_fields small_info_fields small_Allocate small_Free small_bits
  Allocate_def Allocate_in_head_def Free_def Free_in_block_def RemoveFromList_def InsertToList_def Let_def
  small_params_fields null_block_def error_in_block_def



section \<open>Properties\<close>

text \<open>
  C26: in every run of a fresh allocator in which each release that empties a block finds it first in
  its list (or full), the segments handed out lie in the range and do not meet a segment that is still
  held, releases succeed exactly for segments that are held, and \<^verbatim>\<open>Size\<close> is the number of cells that
  are not held.
\<close>

theorem segments_disjoint:
  assumes "seg_ok P" and "releases_ok P ops (seg_new P mem)" and "seg_run P ops (seg_new P mem) = (es, a)"
  shows "events_ok P {} es \<and> seg_Size a = IndexEnd P - IndexBegin P - of_nat (\<Sum>x \<in> held P {} es. snd x)"
  using seg_run_effect [OF assms(1) seg_new_inv(1) [OF assms(1)] assms(2,3)] seg_new_inv(2) [OF assms(1)]
  by (auto simp: seg_inv_def seg_Size_def)

theorem segments_disjoint_witness:
  "let (es, a) = seg_run small_params [Alloc_op 31, Alloc_op 31, Alloc_op 31, Free_op 64 31, Free_op 64 31, Alloc_op 31] small_new
   in es = [Allocated 31 64, Allocated 31 95, Allocated 31 128, Released 64 31 True, Released 64 31 False, Allocated 31 64] \<and>
      events_ok small_params {} es \<and> seg_Size a = 35"
proof -
  let ?ops = "[Alloc_op 31, Alloc_op 31, Alloc_op 31, Free_op 64 31, Free_op 64 31, Alloc_op 31]"
  let ?es = "[Allocated 31 64, Allocated 31 95, Allocated 31 128, Released 64 31 True, Released 64 31 False, Allocated 31 64]"
  have ok: "seg_ok small_params" by (simp add: seg_ok_def small_params_def block_size_ok_def cells_def)
  have rel: "releases_ok small_params ?ops small_new"
    by (simp add: small_run small_new_eq release_ok_def cong: let_weak_cong prod.case_cong_weak)
  have "fst (seg_run small_params ?ops small_new) = ?es"
    by (simp add: small_run small_new_eq cong: let_weak_cong prod.case_cong_weak)
  then obtain a where run: "seg_run small_params ?ops small_new = (?es, a)" by (metis prod.collapse)
  have h: "held small_params {} ?es = {(64, 31), (95, 31), (128, 31)}" by (auto simp: small_params_fields)
  have "seg_Size a = 35" using segments_disjoint [OF ok rel run] unfolding h by (simp add: small_params_fields)
  then show ?thesis unfolding run Let_def prod.case using segments_disjoint [OF ok rel run] by blast
qed

text \<open>
  C38: without that restriction two segments that are held at the same time can overlap: \<^verbatim>\<open>InsertToList\<close>
  does not set the link of the old head to its new predecessor, so that a block which becomes empty
  behind the head of its list stays linked there while it is given to segments of another size.
\<close>

theorem segments_overlap:
  "let es = fst (seg_run small_params [Alloc_op 31, Alloc_op 31, Alloc_op 31, Free_op 64 31, Free_op 128 31, Alloc_op 31,
                                       Alloc_op 32, Alloc_op 31] small_new)
   in es = [Allocated 31 64, Allocated 31 95, Allocated 31 128, Released 64 31 True, Released 128 31 True, Allocated 31 64,
            Allocated 32 128, Allocated 31 159] \<and>
      {(128, 32), (159, 31)} \<subseteq> held small_params {} es \<and> \<not> events_ok small_params {} es"
proof -
  have es: "fst (seg_run small_params [Alloc_op 31, Alloc_op 31, Alloc_op 31, Free_op 64 31, Free_op 128 31, Alloc_op 31,
        Alloc_op 32, Alloc_op 31] small_new) =
      [Allocated 31 64, Allocated 31 95, Allocated 31 128, Released 64 31 True, Released 128 31 True, Allocated 31 64,
        Allocated 32 128, Allocated 31 159]"
    by (simp add: small_run small_new_eq cong: let_weak_cong prod.case_cong_weak)
  show ?thesis unfolding Let_def es by (simp add: small_params_fields)
qed

lemma blk_Allocate_closed:
  assumes BS: "block_size_ok BS" and g: "bit (group_mask b) 0" and n: "total_segments b \<le> 64"
  shows "blk_Allocate BS b = (error_in_block, b)"
proof -
  let ?g = "builtin_ctzll (NOT (group_mask b))" let ?k = "builtin_ctzll (NOT (masks b ?g))"
  have "total_segments b \<le> of_nat (?g * 64 + ?k)"
    if "NOT (group_mask b) \<noteq> 0" "?g < unat BS div 64" "NOT (masks b ?g) \<noteq> 0"
  proof -
    have "bit (NOT (group_mask b)) ?g" using ctz_bit [OF that(1)] by simp
    then have "?g \<noteq> 0" using g by (metis bit_not_iff)
    moreover have "unat BS div 64 \<le> 64" using BS div_le_mono [of "unat BS" 4096 64] by (simp add: block_size_ok_def)
    ultimately have "64 \<le> ?g * 64 + ?k" "?g * 64 + ?k < 4096" using that(2) ctz_bit [OF that(3)] by linarith+
    then have "64 \<le> unat (of_nat (?g * 64 + ?k) :: u16)" using unat_of_nat_small [of "?g * 64 + ?k", where 'a = 16] by simp
    then have "(64 :: u16) \<le> of_nat (?g * 64 + ?k)" by (simp add: word_le_nat_alt)
    with n show ?thesis by (rule order_trans)
  qed
  then show ?thesis by (auto simp: blk_Allocate_def Let_def not_le)
qed

lemma full_block_mask:
  assumes inv: "blk_inv BS b" and full: "free_segments b = 0" "total_segments b = 64"
  shows "used b = {..<64}" "bit (group_mask b) 0"
proof -
  have "used b \<subseteq> {..<64}" "card (used b) = 64" using inv full by (simp_all add: blk_inv_def)
  then show u: "used b = {..<64}" by (intro card_subset_eq) simp_all
  have "NOT (masks b 0) = 0"
  proof (rule bit_word_eqI)
    fix k assume k: "k < LENGTH(64)"
    then have "k \<in> used b" using u by simp
    then show "bit (NOT (masks b 0)) k = bit 0 k" using k by (simp add: used_def bit_not_iff)
  qed
  then show "bit (group_mask b) 0" using inv by (simp add: blk_inv_def)
qed

text \<open>
  C39: when a segment of a full block of 64 segments is released, the bit of its group in \<^verbatim>\<open>group_mask\<close>
  stays set because \<^verbatim>\<open>Free\<close> clears it only when the whole group is empty: the block has room and is the
  first in its list, and every allocation of its size fails with an internal error.
\<close>

theorem released_segment_unusable:
  assumes "seg_ok P" and "links (max_size P) a L" and "seg_content P (all_blocks a) L"
    and "(unat start, unat s) \<in> live P (all_blocks a)"
    and "total_segments (all_blocks a (block_of P start)) = 64" and "free_segments (all_blocks a (block_of P start)) = 0"
  shows "\<exists>a'. Free P start s a = (True, a') \<and> free_segments (all_blocks a' (block_of P start)) = 1 \<and>
    Allocate P s a' = (ErrorResult P, internal_error a')"
proof -
  let ?bs = "all_blocks a"
  define b where "b = block_of P start"
  define i where "i = (ucast (offset_of P start div ucast s) :: u16)"
  note ok = assms(1) and c = assms(3)
  note g = Free_guard [OF ok c assms(4)]
  have mem: "unat i \<in> used (?bs b)"
    using iffD1 [OF live_iff [OF ok c g(3,4,1)] assms(4)] unfolding b_def i_def unat_index [OF ok g(3,4)] by blast
  have b: "b < total_blocks P" using locate(1) [OF ok g(3,4)] by (simp only: b_def)
  have bn: "b \<noteq> null_block" using b word_order.extremum_strict unfolding null_block_def by metis
  have full: "total_segments (?bs b) = 64" "free_segments (?bs b) = 0" using assms(5,6) by (simp_all only: b_def)
  have bi: "blk_inv (BlockSize P) (?bs b)" using content_block(1) [OF c b mem] by (simp add: in_use_def)
  note m = full_block_mask [OF bi full(2,1)]
  have i: "unat i < 64" using mem m(1) by simp
  have dg: "unat i div 64 = 0" using i by simp
  obtain j where j: "j < 64" "j \<noteq> unat i" using that [of "if unat i = 0 then 1 else 0"] by auto
  have "j \<in> used (?bs b)" using j(1) m(1) by simp
  then have "bit (DISABLE_BIT (masks (?bs b) 0) (unat i)) j" using j bit_DISABLE [OF i] by (simp add: used_def)
  then have nz: "DISABLE_BIT (masks (?bs b) 0) (unat i) \<noteq> 0" by auto
  let ?blk = "(?bs b)\<lparr>masks := (masks (?bs b))(0 := DISABLE_BIT (masks (?bs b) 0) (unat i)), free_segments := 1\<rparr>"
  have "i < total_segments (?bs b)" using i full by (simp add: word_less_nat_alt)
  then have fr: "blk_Free i (?bs b) = (0, ?blk)"
    using mem i nz full by (auto simp: blk_Free_def Let_def index_split dg used_def GET_BIT_0)
  define a1 where "a1 = Free_in_block b s True (upd_block b (\<lambda>_. ?blk) a)"
  have run: "Free P start s a = (True, a1)"
    using Free_cases [OF ok c, of start s, folded i_def, folded b_def] assms(4) full by (simp add: fr a1_def)
  have core: "free_segments (all_blocks a1 b) = 1" "group_mask (all_blocks a1 b) = group_mask (?bs b)"
      "total_segments (all_blocks a1 b) = 64" "head_block (sizes_info a1 s) = b"
    using full by (simp_all add: a1_def Free_in_block_def Let_def InsertToList_def upd_block_def upd_info_def internal_error_def)
  have "blk_Allocate (BlockSize P) (all_blocks a1 b) = (error_in_block, all_blocks a1 b)"
    using blk_Allocate_closed [OF seg_block_size [OF ok], of "all_blocks a1 b"] core m(2) by simp
  moreover have "upd_block b (\<lambda>_. all_blocks a1 b) a1 = a1" by (simp add: upd_block_def)
  ultimately have "Allocate_in_head P s a1 = (ErrorResult P, internal_error a1)" by (simp add: Allocate_in_head_def Let_def core)
  then have "Allocate P s a1 = (ErrorResult P, internal_error a1)"
    using g size_le_max [OF ok, of s] bn core by (simp add: Allocate_def not_less)
  then show ?thesis using run core(1) by (simp only: b_def) blast
qed

text \<open>A single block of 64 cells, all handed out one by one.\<close>

definition full_params :: seg_params where
  "full_params = \<lparr>IndexBegin = 64, IndexEnd = 128, BlockSize = 64, MaxBufferSize = 32, ErrorResult = 0\<rparr>"

definition full_allocator :: seg_allocator where
  "full_allocator = \<lparr>all_blocks = (\<lambda>_. small_block null_block null_block 1 64 0 1 (- 1)),
     sizes_info = (\<lambda>s. small_info null_block 0 (if s = 1 then 1 else 0) (if s = 1 then 64 else 0)),
     free_cells = 0, errors_external = 0, errors_internal = 0\<rparr>"

lemma full_ok: "seg_ok full_params" "links (max_size full_params) full_allocator (\<lambda>_. [])"
  "seg_content full_params (all_blocks full_allocator) (\<lambda>_. [])" "(70, 1) \<in> live full_params (all_blocks full_allocator)"
proof -
  let ?b = "small_block null_block null_block 1 64 0 1 (- 1)"
  have n: "total_blocks full_params = 1" by (simp add: total_blocks_def full_params_def)
  have one: "b < 1 \<longleftrightarrow> b = 0" for b :: u32 by (auto simp: word_less_nat_alt word_unat_eq_iff)
  have u: "used ?b = {..<64}" by (auto simp: used_def small_block_def)
  have "blk_inv 64 ?b" unfolding blk_inv_def u by (auto simp: small_block_def bit_1_iff)
  moreover have "block_len full_params 0 = 64" by (simp add: block_len_def full_params_def cells_def)
  moreover have "max_size full_params = 32" by (simp add: max_size_def full_params_def)
  ultimately show "seg_content full_params (all_blocks full_allocator) (\<lambda>_. [])"
    unfolding seg_content_def n one
    by (simp add: full_allocator_def in_use_def small_block_fields full_params_def) (simp add: small_block_def)
  show "seg_ok full_params" by (simp add: seg_ok_def full_params_def block_size_ok_def cells_def)
  show "links (max_size full_params) full_allocator (\<lambda>_. [])"
    by (simp add: links_def full_allocator_def small_info_fields)
  show "(70, 1) \<in> live full_params (all_blocks full_allocator)"
    unfolding live_def n one using u
    by (simp add: full_allocator_def segment_def small_block_fields full_params_def image_iff)
qed

theorem released_segment_unusable_witness:
  "\<exists>a'. Free full_params 70 1 full_allocator = (True, a') \<and> free_segments (all_blocks a' 0) = 1 \<and>
     Allocate full_params 1 a' = (0, internal_error a')"
  using released_segment_unusable [OF full_ok(1-3), of 70 1] full_ok(4)
  by (simp add: full_params_def full_allocator_def small_block_fields)

end
