(* ===== verification/StdMap.thy ===== *)
theory StdMap
  imports Prelude
begin

text \<open>
  Ordered maps of the C++ standard library, as lists of pairs with increasing keys: the operations of
  \<^verbatim>\<open>std::map\<close> that the sources use, and the finite maps they stand for.  Loops over a map are folds over
  the list.
\<close>

type_synonym ('k, 'v) std_map = "('k \<times> 'v) list"

text \<open>\<^verbatim>\<open>emplace\<close> does nothing when the key is there; assignment replaces the value.\<close>

fun map_emplace :: "'k::linorder \<Rightarrow> 'v \<Rightarrow> ('k, 'v) std_map \<Rightarrow> ('k, 'v) std_map" where
  "map_emplace k v [] = [(k, v)]"
| "map_emplace k v ((k', v') # m) =
     (if k < k' then (k, v) # (k', v') # m else if k = k' then (k', v') # m else (k', v') # map_emplace k v m)"

fun map_assign :: "'k::linorder \<Rightarrow> 'v \<Rightarrow> ('k, 'v) std_map \<Rightarrow> ('k, 'v) std_map" where
  "map_assign k v [] = [(k, v)]"
| "map_assign k v ((k', v') # m) =
     (if k < k' then (k, v) # (k', v') # m else if k = k' then (k, v) # m else (k', v') # map_assign k v m)"

definition map_erase :: "'k \<Rightarrow> ('k, 'v) std_map \<Rightarrow> ('k, 'v) std_map" where
  "map_erase k m = filter (\<lambda>(k', v). k' \<noteq> k) m"

definition map_ok :: "('k::linorder, 'v) std_map \<Rightarrow> bool" where
  "map_ok m \<longleftrightarrow> sorted_wrt (<) (map fst m)"

named_theorems std_map_simps \<open>what the operations on maps do to the finite map\<close>

lemma map_ok_simps [simp]: "map_ok []" "map_ok (kv # m) \<longleftrightarrow> (\<forall>kv' \<in> set m. fst kv < fst kv') \<and> map_ok m"
  by (simp_all add: map_ok_def)

lemma map_ok_distinct: "map_ok m \<Longrightarrow> distinct (map fst m)"
  unfolding map_ok_def by (induction m) auto

lemma set_emplace: "set (map_emplace k v m) \<subseteq> insert (k, v) (set m)"
  by (induction m rule: map_emplace.induct) auto

lemma set_assign: "set (map_assign k v m) \<subseteq> insert (k, v) (set m)"
  by (induction m rule: map_assign.induct) auto

lemma emplace_ok [simp]: "map_ok m \<Longrightarrow> map_ok (map_emplace k v m)"
  by (induction k v m rule: map_emplace.induct) (fastforce dest: set_emplace [THEN subsetD])+

lemma assign_ok [simp]: "map_ok m \<Longrightarrow> map_ok (map_assign k v m)"
  by (induction k v m rule: map_assign.induct) (fastforce dest: set_assign [THEN subsetD])+

lemma erase_ok [simp]: "map_ok m \<Longrightarrow> map_ok (map_erase k m)"
  unfolding map_erase_def by (induction m) auto

lemma map_of_below: "(\<forall>kv' \<in> set m. k < fst kv') \<Longrightarrow> map_of m k = None" for k :: "'k::linorder"
  by (auto simp: map_of_eq_None_iff)

lemma map_of_emplace [std_map_simps]:
  "map_ok m \<Longrightarrow> map_of (map_emplace k v m) = (if map_of m k = None then (map_of m)(k \<mapsto> v) else map_of m)"
proof (induction k v m rule: map_emplace.induct)
  case (2 k v k' v' m)
  have "k < k' \<Longrightarrow> map_of m k = None" using 2(2) by (intro map_of_below) (auto dest: less_trans)
  with 2 show ?case by auto
qed simp

lemma map_of_assign [std_map_simps]: "map_ok m \<Longrightarrow> map_of (map_assign k v m) = (map_of m)(k \<mapsto> v)"
  by (induction k v m rule: map_assign.induct) auto

lemma map_of_erase [std_map_simps]: "map_of (map_erase k m) = (map_of m)(k := None)"
  unfolding map_erase_def by (induction m) auto

lemma map_of_mem [std_map_simps]: "map_ok m \<Longrightarrow> (k, v) \<in> set m \<longleftrightarrow> map_of m k = Some v"
  by (simp add: map_ok_distinct map_of_eq_Some_iff)

lemma length_emplace: "map_of m k = None \<Longrightarrow> length (map_emplace k v m) = Suc (length m)"
  by (induction k v m rule: map_emplace.induct) (auto split: if_splits)

end
