(* ===== verification/Counter.thy ===== *)
theory Counter
  imports SegmentAllocator StdMap
begin

text \<open>
  The counters of the control plane, \<^verbatim>\<open>src/controlplane/counter.h\<close>: the manager with its allocator of
  counter numbers and the values at which the counters started, and the reference-counted counters of
  a module, which are reserved at once, become readable with \<^verbatim>\<open>allocate\<close> and are given back in two
  steps, \<^verbatim>\<open>gc\<close> and \<^verbatim>\<open>release\<close>.  The template parameters are the key type and the number \<open>sz\<close> of cells of a
  counter; the clock and the counters of the workers are arguments.
\<close>

section \<open>Values of the workers\<close>

text \<open>
  \<^verbatim>\<open>SdpClient::GetCounters\<close> of \<^verbatim>\<open>src/common/sdpclient.h\<close>: the sum over the buffers of the workers.
\<close>

definition COUNTERS_SIZE :: u32 where
  "COUNTERS_SIZE = 8 * 1024 * 1024"

definition GetCounters :: "(u32 \<Rightarrow> u64) list \<Rightarrow> u32 list \<Rightarrow> u64 list" where
  "GetCounters buffers counter_ids =
     map (\<lambda>counter_id. if COUNTERS_SIZE \<le> counter_id then 0 else fold (\<lambda>buffer counter. counter + buffer counter_id) buffers 0)
       counter_ids"

section \<open>The manager\<close>

record counter_manager =
  counter_shifts :: "u32 \<Rightarrow> u64"
  allocator :: seg_allocator

definition manager_new :: "seg_params \<Rightarrow> (u32 \<Rightarrow> OneBlock) \<Rightarrow> counter_manager" where
  "manager_new P mem = \<lparr>counter_shifts = (\<lambda>_. 0), allocator = seg_new P mem\<rparr>"

definition manager_stats :: "counter_manager \<Rightarrow> u64 \<times> u64" where
  "manager_stats m = (ucast (COUNTERS_SIZE - seg_Size (allocator m)), ucast COUNTERS_SIZE)"

text \<open>The lines of \<^verbatim>\<open>full_stat\<close>: one per size that is in use, and the totals.\<close>

definition full_stat :: "counter_manager \<Rightarrow> (u32 \<times> u32 \<times> u64 \<times> u64) \<times> (u16 \<times> u32 \<times> u32 \<times> u32) list" where
  "full_stat m =
     (let info = sizes_info (allocator m);
          (ee, ei) = GetErrors (allocator m)
      in ((used_blocks (info 0), seg_Size (allocator m), ee, ei),
          map (\<lambda>s. (s, used_blocks (info s), busy_blocks (info s), used_segments (info s)))
            (filter (\<lambda>s. used_blocks (info s) \<noteq> 0 \<or> busy_blocks (info s) \<noteq> 0 \<or> used_segments (info s) \<noteq> 0)
              (map of_nat [1..<65]))))"

definition counter_reserve :: "seg_params \<Rightarrow> u16 \<Rightarrow> counter_manager \<Rightarrow> u32 \<times> counter_manager" where
  "counter_reserve P sz m = (let (r, a) = Allocate P sz (allocator m) in (r, m\<lparr>allocator := a\<rparr>))"

definition counter_release :: "seg_params \<Rightarrow> u32 \<Rightarrow> u16 \<Rightarrow> counter_manager \<Rightarrow> counter_manager" where
  "counter_release P counter_id sz m = m\<lparr>allocator := snd (Free P counter_id sz (allocator m))\<rparr>"

definition counter_allocate :: "(u32 \<Rightarrow> u64) list \<Rightarrow> u32 list \<Rightarrow> counter_manager \<Rightarrow> counter_manager" where
  "counter_allocate buffers counter_ids m =
     m\<lparr>counter_shifts := fold (\<lambda>(counter_id, v) f. f(counter_id := v)) (zip counter_ids (GetCounters buffers counter_ids))
         (counter_shifts m)\<rparr>"

definition counter_get :: "(u32 \<Rightarrow> u64) list \<Rightarrow> u32 list \<Rightarrow> counter_manager \<Rightarrow> u64 list" where
  "counter_get buffers counter_ids m =
     map (\<lambda>(counter_id, v). v - counter_shifts m counter_id) (zip counter_ids (GetCounters buffers counter_ids))"

section \<open>The counters of a module\<close>

record 'k counter =
  counters :: "('k, u32 \<times> u32) std_map"
  counters_inserted :: "('k, u32) std_map"
  counters_removed :: "('k, u32 \<times> u32) std_map"
  counters_gc_removed :: "('k, u32) std_map"
  counters_allocated :: "('k, u32) std_map"

definition counter_new :: "'k::linorder counter" where
  "counter_new = \<lparr>counters = [], counters_inserted = [], counters_removed = [], counters_gc_removed = [], counters_allocated = []\<rparr>"

definition counter_cells :: "u16 \<Rightarrow> u32 \<Rightarrow> u32 list" where
  "counter_cells sz counter_id = map (\<lambda>index. counter_id + of_nat index) [0..<unat sz]"

definition cnt_allocate :: "(u32 \<Rightarrow> u64) list \<Rightarrow> u16 \<Rightarrow> counter_manager \<times> 'k::linorder counter \<Rightarrow> counter_manager \<times> 'k counter" where
  "cnt_allocate buffers sz = (\<lambda>(m, c).
     let counter_ids = concat (map (\<lambda>(key, counter_id). counter_cells sz counter_id) (counters_inserted c));
         c = fold (\<lambda>(key, counter_id) c. c\<lparr>counters_allocated := map_emplace key counter_id (counters_allocated c)\<rparr>)
               (counters_inserted c) c
     in (counter_allocate buffers counter_ids m, c\<lparr>counters_inserted := []\<rparr>))"

definition release_one :: "seg_params \<Rightarrow> u16 \<Rightarrow> 'k \<times> u32 \<Rightarrow> counter_manager \<times> 'k::linorder counter \<Rightarrow> counter_manager \<times> 'k counter" where
  "release_one P sz = (\<lambda>(key, counter_id) (m, c).
     (counter_release P counter_id sz m,
      c\<lparr>counters := map_erase key (counters c), counters_allocated := map_erase key (counters_allocated c)\<rparr>))"

definition cnt_release :: "seg_params \<Rightarrow> u16 \<Rightarrow> counter_manager \<times> 'k::linorder counter \<Rightarrow> counter_manager \<times> 'k counter" where
  "cnt_release P sz = (\<lambda>(m, c).
     let (m, c) = fold (release_one P sz) (counters_gc_removed c) (m, c) in (m, c\<lparr>counters_gc_removed := []\<rparr>))"

definition cnt_insert :: "seg_params \<Rightarrow> u16 \<Rightarrow> 'k \<Rightarrow> counter_manager \<times> 'k::linorder counter \<Rightarrow> counter_manager \<times> 'k counter" where
  "cnt_insert P sz key = (\<lambda>(m, c).
     case map_of (counters c) key of
       Some (counter_id, refcount) \<Rightarrow>
         let c = (if refcount = 0
                  then c\<lparr>counters_removed := map_erase key (counters_removed c),
                         counters_gc_removed := map_erase key (counters_gc_removed c)\<rparr> else c)
         in (m, c\<lparr>counters := map_assign key (counter_id, refcount + 1) (counters c)\<rparr>)
     | None \<Rightarrow>
         let (counter_id, m) = counter_reserve P sz m
         in (m, c\<lparr>counters := map_emplace key (counter_id, 1) (counters c),
                  counters_inserted := map_emplace key counter_id (counters_inserted c)\<rparr>))"

definition cnt_remove :: "seg_params \<Rightarrow> u16 \<Rightarrow> u32 \<Rightarrow> 'k \<Rightarrow> u32 \<Rightarrow> counter_manager \<times> 'k::linorder counter \<Rightarrow> counter_manager \<times> 'k counter" where
  "cnt_remove P sz now key timeout = (\<lambda>(m, c).
     case map_of (counters c) key of
       Some (counter_id, refcount) \<Rightarrow>
         let refcount = refcount - 1;
             c = c\<lparr>counters := map_assign key (counter_id, refcount) (counters c)\<rparr>
         in if refcount = 0 then
              (case map_of (counters_inserted c) key of
                 Some inserted_id \<Rightarrow>
                   (counter_release P inserted_id sz m,
                    c\<lparr>counters_inserted := map_erase key (counters_inserted c), counters := map_erase key (counters c)\<rparr>)
               | None \<Rightarrow> (m, c\<lparr>counters_removed := map_emplace key (counter_id, now + timeout) (counters_removed c)\<rparr>))
            else (m, c)
     | None \<Rightarrow> (m, c))"

definition cnt_get_id :: "'k \<Rightarrow> 'k::linorder counter \<Rightarrow> u32" where
  "cnt_get_id key c = (case map_of (counters c) key of None \<Rightarrow> 0 | Some (counter_id, refcount) \<Rightarrow> counter_id)"

definition cnt_get_counters :: "(u32 \<Rightarrow> u64) list \<Rightarrow> u16 \<Rightarrow> counter_manager \<Rightarrow> 'k::linorder counter \<Rightarrow> ('k, u64 list) std_map" where
  "cnt_get_counters buffers sz m c =
     (let manager_counter_ids = concat (map (\<lambda>(key, counter_id). counter_cells sz counter_id) (counters_allocated c));
          manager_counters = counter_get buffers manager_counter_ids m
      in fold (\<lambda>(i, key, counter_id) result.
            map_assign key (map (\<lambda>array_i. manager_counters ! (i * unat sz + array_i)) [0..<unat sz]) result)
          (enumerate 0 (counters_allocated c)) [])"

definition cnt_size :: "'k::linorder counter \<Rightarrow> nat" where
  "cnt_size c = length (counters_allocated c)"

definition gc_one :: "u32 \<Rightarrow> 'k \<times> u32 \<times> u32 \<Rightarrow> 'k::linorder counter \<Rightarrow> 'k counter" where
  "gc_one current_time = (\<lambda>(key, counter_id, timestamp) c.
     if timestamp \<le> current_time
     then c\<lparr>counters_gc_removed := map_emplace key counter_id (counters_gc_removed c),
            counters_removed := map_erase key (counters_removed c)\<rparr>
     else c)"

definition cnt_gc :: "u32 \<Rightarrow> 'k::linorder counter \<Rightarrow> 'k counter" where
  "cnt_gc current_time c = fold (gc_one current_time) (counters_removed c) c"

section \<open>The life of a counter\<close>

text \<open>
  What the five maps say about one key: nothing; reserved and not yet readable, with its references;
  readable; without references until a point in time; waiting to be given back.
\<close>

datatype key_state = Unknown | Fresh u32 u32 | Live u32 u32 | Leaving u32 u32 | Gone u32

type_synonym key_entries = "(u32 \<times> u32) option \<times> u32 option \<times> (u32 \<times> u32) option \<times> u32 option \<times> u32 option"

definition entries :: "'k::linorder counter \<Rightarrow> 'k \<Rightarrow> key_entries" where
  "entries c k = (map_of (counters c) k, map_of (counters_inserted c) k, map_of (counters_removed c) k,
     map_of (counters_gc_removed c) k, map_of (counters_allocated c) k)"

fun encode :: "key_state \<Rightarrow> key_entries" where
  "encode Unknown = (None, None, None, None, None)"
| "encode (Fresh i r) = (Some (i, r), Some i, None, None, None)"
| "encode (Live i r) = (Some (i, r), None, None, None, Some i)"
| "encode (Leaving i t) = (Some (i, 0), None, Some (i, t), None, Some i)"
| "encode (Gone i) = (Some (i, 0), None, None, Some i, Some i)"

fun state_ok :: "key_state \<Rightarrow> bool" where
  "state_ok (Fresh i r) = (r \<noteq> 0)"
| "state_ok (Live i r) = (r \<noteq> 0)"
| "state_ok _ = True"

definition represents :: "'k::linorder counter \<Rightarrow> ('k \<Rightarrow> key_state) \<Rightarrow> bool" where
  "represents c S \<longleftrightarrow> map_ok (counters c) \<and> map_ok (counters_inserted c) \<and> map_ok (counters_removed c) \<and>
     map_ok (counters_gc_removed c) \<and> map_ok (counters_allocated c) \<and> (\<forall>k. entries c k = encode (S k) \<and> state_ok (S k))"

text \<open>The references to a key, and its transitions.\<close>

fun references :: "key_state \<Rightarrow> u32" where
  "references (Fresh i r) = r"
| "references (Live i r) = r"
| "references _ = 0"

fun on_insert :: "u32 \<Rightarrow> key_state \<Rightarrow> key_state" where
  "on_insert new Unknown = Fresh new 1"
| "on_insert new (Fresh i r) = Fresh i (r + 1)"
| "on_insert new (Live i r) = Live i (r + 1)"
| "on_insert new (Leaving i t) = Live i 1"
| "on_insert new (Gone i) = Live i 1"

fun on_remove :: "u32 \<Rightarrow> key_state \<Rightarrow> key_state" where
  "on_remove t (Fresh i r) = (if r = 1 then Unknown else Fresh i (r - 1))"
| "on_remove t (Live i r) = (if r = 1 then Leaving i t else Live i (r - 1))"
| "on_remove t S = S"

fun on_allocate :: "key_state \<Rightarrow> key_state" where
  "on_allocate (Fresh i r) = Live i r"
| "on_allocate S = S"

fun on_gc :: "u32 \<Rightarrow> key_state \<Rightarrow> key_state" where
  "on_gc now (Leaving i t) = (if t \<le> now then Gone i else Leaving i t)"
| "on_gc now S = S"

fun on_release :: "key_state \<Rightarrow> key_state" where
  "on_release (Gone i) = Unknown"
| "on_release S = S"

lemma representsD:
  assumes "represents c S"
  shows "map_ok (counters c)" "map_ok (counters_inserted c)" "map_ok (counters_removed c)" "map_ok (counters_gc_removed c)"
    "map_ok (counters_allocated c)" "entries c k = encode (S k)" "state_ok (S k)"
  using assms by (simp_all add: represents_def)

lemma fold_emplace:
  assumes "map_ok m"
  shows "map_ok (fold (\<lambda>(k, v). map_emplace k v) xs m) \<and>
    map_of (fold (\<lambda>(k, v). map_emplace k v) xs m) = map_of xs ++ map_of m"
  using assms
proof (induction xs arbitrary: m)
  case (Cons kv xs)
  obtain k v where kv: "kv = (k, v)" by force
  show ?case using Cons.IH [of "map_emplace k v m"] Cons.prems
    by (auto simp: kv map_of_emplace map_add_def fun_eq_iff split: option.splits)
qed simp

lemma allocate_fold:
  "fold (\<lambda>(k, i) c. c\<lparr>counters_allocated := map_emplace k i (counters_allocated c)\<rparr>) xs c =
     c\<lparr>counters_allocated := fold (\<lambda>(k, i). map_emplace k i) xs (counters_allocated c)\<rparr>"
  by (induction xs arbitrary: c) (auto simp: split_def)

lemma allocate_effect:
  assumes "represents c S"
  shows "represents (snd (cnt_allocate buffers sz (m, c))) (on_allocate \<circ> S)"
    "allocator (fst (cnt_allocate buffers sz (m, c))) = allocator m"
proof -
  note r = representsD [OF assms]
  let ?A = "fold (\<lambda>(k, i). map_emplace k i) (counters_inserted c) (counters_allocated c)"
  have A: "map_ok ?A" "map_of ?A k = (case map_of (counters_allocated c) k of None \<Rightarrow> map_of (counters_inserted c) k | Some i \<Rightarrow> Some i)" for k
    using fold_emplace [OF r(5), of "counters_inserted c"] by (simp_all add: map_add_def)
  have c': "snd (cnt_allocate buffers sz (m, c)) = c\<lparr>counters_allocated := ?A, counters_inserted := []\<rparr>"
    by (simp add: cnt_allocate_def Let_def allocate_fold)
  have "entries (c\<lparr>counters_allocated := ?A, counters_inserted := []\<rparr>) k = encode (on_allocate (S k)) \<and> state_ok (on_allocate (S k))" for k
    using r(6) [of k] r(7) [of k] A(2) [of k] by (cases "S k") (auto simp: entries_def)
  then show "represents (snd (cnt_allocate buffers sz (m, c))) (on_allocate \<circ> S)"
    unfolding c' represents_def using r A(1) by simp
  show "allocator (fst (cnt_allocate buffers sz (m, c))) = allocator m"
    by (simp add: cnt_allocate_def Let_def counter_allocate_def)
qed

lemma gc_fold:
  fixes now :: u32
  assumes "map_ok (counters_removed c)" "map_ok (counters_gc_removed c)" "distinct (map fst xs)"
  defines "c' \<equiv> fold (gc_one now) xs c"
  shows "counters c' = counters c \<and> counters_inserted c' = counters_inserted c \<and> counters_allocated c' = counters_allocated c \<and>
    map_ok (counters_removed c') \<and> map_ok (counters_gc_removed c') \<and>
    (\<forall>k. (map_of (counters_removed c') k, map_of (counters_gc_removed c') k) =
      (case map_of xs k of
         Some (i, t) \<Rightarrow> if t \<le> now then (None, Some (case map_of (counters_gc_removed c) k of None \<Rightarrow> i | Some j \<Rightarrow> j))
                       else (map_of (counters_removed c) k, map_of (counters_gc_removed c) k)
       | None \<Rightarrow> (map_of (counters_removed c) k, map_of (counters_gc_removed c) k)))"
  using assms(1-3) unfolding c'_def
proof (induction xs arbitrary: c)
  case (Cons x xs)
  obtain k i t where x: "x = (k, i, t)" by (rule prod_cases3)
  have new: "k \<notin> fst ` set xs" "distinct (map fst xs)" using Cons.prems(3) x by simp_all
  then have nk: "map_of xs k = None" by (simp add: map_of_eq_None_iff)
  have ok: "map_ok (counters_removed (gc_one now x c))" "map_ok (counters_gc_removed (gc_one now x c))"
    using Cons.prems by (simp_all add: x gc_one_def)
  from Cons.IH [OF ok new(2)] Cons.prems(1,2) nk show ?case
    by (auto simp: x gc_one_def std_map_simps split: option.splits)
qed simp

lemma gc_effect:
  assumes "represents c S"
  shows "represents (cnt_gc now c) (on_gc now \<circ> S)"
proof -
  note r = representsD [OF assms]
  note g = gc_fold [OF r(3,4) map_ok_distinct [OF r(3)], of now, folded cnt_gc_def]
  have "entries (cnt_gc now c) k = encode (on_gc now (S k)) \<and> state_ok (on_gc now (S k))" for k
  proof -
    have p: "(map_of (counters_removed (cnt_gc now c)) k, map_of (counters_gc_removed (cnt_gc now c)) k) =
      (case map_of (counters_removed c) k of
         Some (i, t) \<Rightarrow> if t \<le> now then (None, Some (case map_of (counters_gc_removed c) k of None \<Rightarrow> i | Some j \<Rightarrow> j))
                       else (map_of (counters_removed c) k, map_of (counters_gc_removed c) k)
       | None \<Rightarrow> (map_of (counters_removed c) k, map_of (counters_gc_removed c) k))" using g by blast
    have same: "counters (cnt_gc now c) = counters c" "counters_inserted (cnt_gc now c) = counters_inserted c"
      "counters_allocated (cnt_gc now c) = counters_allocated c" using g by blast+
    show ?thesis using r(6) [of k] r(7) [of k] p by (cases "S k") (auto simp: entries_def same split: if_splits)
  qed
  then show ?thesis unfolding represents_def using r g by simp
qed

lemma remove_effect:
  assumes "represents c S" and "references (S key) \<noteq> 0 \<or> S key = Unknown"
  shows "represents (snd (cnt_remove P sz now key timeout (m, c))) (S(key := on_remove (now + timeout) (S key)))"
    "allocator (fst (cnt_remove P sz now key timeout (m, c))) =
       (case S key of Fresh i r \<Rightarrow> if r = 1 then snd (Free P i sz (allocator m)) else allocator m | _ \<Rightarrow> allocator m)"
proof -
  note r = representsD [OF assms(1)]
  let ?c = "snd (cnt_remove P sz now key timeout (m, c))"
  have e: "entries c key = encode (S key)" "state_ok (S key)" using r(6,7) by simp_all
  have m1: "x - 1 = 0 \<longleftrightarrow> x = 1" for x :: u32 by auto
  show "allocator (fst (cnt_remove P sz now key timeout (m, c))) =
       (case S key of Fresh i r \<Rightarrow> if r = 1 then snd (Free P i sz (allocator m)) else allocator m | _ \<Rightarrow> allocator m)"
    using e assms(2) by (cases "S key") (simp_all add: entries_def cnt_remove_def Let_def m1 counter_release_def)
  have "entries ?c k = encode ((S(key := on_remove (now + timeout) (S key))) k)" for k
    using e r(1-5) r(6) [of k] assms(2) by (cases "S key") (auto simp: entries_def cnt_remove_def Let_def m1 std_map_simps)
  moreover have "state_ok (on_remove (now + timeout) (S key))" using e(2) by (cases "S key") (auto simp: m1)
  moreover have "map_ok (counters ?c)" "map_ok (counters_inserted ?c)" "map_ok (counters_removed ?c)"
      "map_ok (counters_gc_removed ?c)" "map_ok (counters_allocated ?c)"
    using e r(1-5) by (cases "S key"; simp add: entries_def cnt_remove_def Let_def m1)+
  ultimately show "represents ?c (S(key := on_remove (now + timeout) (S key)))" using r(7) by (simp add: represents_def)
qed

lemma insert_effect:
  assumes "represents c S" and "references (S key) + 1 \<noteq> 0"
  shows "represents (snd (cnt_insert P sz key (m, c))) (S(key := on_insert (fst (Allocate P sz (allocator m))) (S key)))"
    "allocator (fst (cnt_insert P sz key (m, c))) =
       (if S key = Unknown then snd (Allocate P sz (allocator m)) else allocator m)"
proof -
  note r = representsD [OF assms(1)]
  let ?c = "snd (cnt_insert P sz key (m, c))" let ?i = "fst (Allocate P sz (allocator m))"
  obtain i a where al: "Allocate P sz (allocator m) = (i, a)" by force
  have e: "entries c key = encode (S key)" "state_ok (S key)" using r(6,7) by simp_all
  show "allocator (fst (cnt_insert P sz key (m, c))) =
       (if S key = Unknown then snd (Allocate P sz (allocator m)) else allocator m)"
    using e by (cases "S key") (simp_all add: entries_def cnt_insert_def Let_def counter_reserve_def al)
  have "entries ?c k = encode ((S(key := on_insert ?i (S key))) k)" for k
    using e r(1-5) r(6) [of k] by (cases "S key") (auto simp: entries_def cnt_insert_def Let_def counter_reserve_def al std_map_simps)
  moreover have "state_ok (on_insert ?i (S key))" using e(2) assms(2) by (cases "S key") auto
  moreover have "map_ok (counters ?c)" "map_ok (counters_inserted ?c)" "map_ok (counters_removed ?c)"
      "map_ok (counters_gc_removed ?c)" "map_ok (counters_allocated ?c)"
    using e r(1-5) by (cases "S key"; simp add: entries_def cnt_insert_def Let_def counter_reserve_def al)+
  ultimately show "represents ?c (S(key := on_insert ?i (S key)))" using r(7) by (simp add: represents_def)
qed

lemma release_fold:
  fixes P sz xs m c
  assumes "map_ok (counters c)" "map_ok (counters_allocated c)"
  defines "r \<equiv> fold (release_one P sz) xs (m, c)"
  shows "map_ok (counters (snd r)) \<and> map_ok (counters_allocated (snd r)) \<and>
    counters_inserted (snd r) = counters_inserted c \<and> counters_removed (snd r) = counters_removed c \<and>
    counters_gc_removed (snd r) = counters_gc_removed c \<and>
    (\<forall>k. map_of (counters (snd r)) k = (if k \<in> fst ` set xs then None else map_of (counters c) k)) \<and>
    (\<forall>k. map_of (counters_allocated (snd r)) k = (if k \<in> fst ` set xs then None else map_of (counters_allocated c) k)) \<and>
    allocator (fst r) = snd (seg_run P (map (\<lambda>(k, i). Free_op i sz) xs) (allocator m))"
  using assms(1,2) unfolding r_def
proof (induction xs arbitrary: m c)
  case (Cons x xs)
  obtain k i where x: "x = (k, i)" by force
  obtain m1 c1 where one: "release_one P sz x (m, c) = (m1, c1)" by force
  then have c1: "c1 = c\<lparr>counters := map_erase k (counters c), counters_allocated := map_erase k (counters_allocated c)\<rparr>"
      "allocator m1 = snd (Free P i sz (allocator m))"
    by (auto simp: release_one_def x counter_release_def)
  have "map_ok (counters c1)" "map_ok (counters_allocated c1)" using Cons.prems by (simp_all add: c1)
  note IH = Cons.IH [OF this, of m1]
  have f: "fold (release_one P sz) (x # xs) (m, c) = fold (release_one P sz) xs (m1, c1)" by (simp add: one)
  have a: "snd (seg_run P (map (\<lambda>(k, i). Free_op i sz) (x # xs)) (allocator m)) =
      snd (seg_run P (map (\<lambda>(k, i). Free_op i sz) xs) (allocator m1))"
    by (simp add: x c1 split_def Let_def)
  show ?case unfolding f a using IH by (simp add: x c1(1) map_of_erase)
qed simp

lemma release_effect:
  assumes "represents c S"
  shows "represents (snd (cnt_release P sz (m, c))) (on_release \<circ> S)"
    "allocator (fst (cnt_release P sz (m, c))) =
       snd (seg_run P (map (\<lambda>(k, i). Free_op i sz) (counters_gc_removed c)) (allocator m))"
proof -
  note r = representsD [OF assms]
  obtain m1 c1 where f: "fold (release_one P sz) (counters_gc_removed c) (m, c) = (m1, c1)" by force
  note g = release_fold [OF r(1,5), of P sz "counters_gc_removed c" m, unfolded f, simplified]
  have c': "cnt_release P sz (m, c) = (m1, c1\<lparr>counters_gc_removed := []\<rparr>)" by (simp add: cnt_release_def f)
  have dom: "k \<in> fst ` set (counters_gc_removed c) \<longleftrightarrow> map_of (counters_gc_removed c) k \<noteq> None" for k
    using map_of_eq_None_iff [of "counters_gc_removed c" k] by simp
  have "entries (c1\<lparr>counters_gc_removed := []\<rparr>) k = encode (on_release (S k)) \<and> state_ok (on_release (S k))" for k
    using r(6) [of k] r(7) [of k] g dom [of k] by (cases "S k") (simp_all add: entries_def)
  then show "represents (snd (cnt_release P sz (m, c))) (on_release \<circ> S)"
    unfolding c' represents_def using r g by simp
  show "allocator (fst (cnt_release P sz (m, c))) =
       snd (seg_run P (map (\<lambda>(k, i). Free_op i sz) (counters_gc_removed c)) (allocator m))"
    using g by (simp add: c')
qed

section \<open>Runs\<close>

datatype 'k counter_op =
    Insert_op 'k
  | Remove_op 'k u32 u32
  | Allocate_op "(u32 \<Rightarrow> u64) list"
  | Gc_op u32
  | Release_op

fun counter_step :: "seg_params \<Rightarrow> u16 \<Rightarrow> 'k counter_op \<Rightarrow> counter_manager \<times> 'k::linorder counter \<Rightarrow> counter_manager \<times> 'k counter" where
  "counter_step P sz (Insert_op key) mc = cnt_insert P sz key mc"
| "counter_step P sz (Remove_op key now timeout) mc = cnt_remove P sz now key timeout mc"
| "counter_step P sz (Allocate_op buffers) mc = cnt_allocate buffers sz mc"
| "counter_step P sz (Gc_op now) mc = (fst mc, cnt_gc now (snd mc))"
| "counter_step P sz Release_op mc = cnt_release P sz mc"

text \<open>The calls of the allocator that a step makes.\<close>

fun step_calls :: "u16 \<Rightarrow> 'k counter_op \<Rightarrow> 'k::linorder counter \<Rightarrow> seg_op list" where
  "step_calls sz (Insert_op key) c = (if map_of (counters c) key = None then [Alloc_op sz] else [])"
| "step_calls sz (Remove_op key now timeout) c =
     (case (map_of (counters c) key, map_of (counters_inserted c) key) of
        (Some (i, r), Some j) \<Rightarrow> if r = 1 then [Free_op j sz] else []
      | _ \<Rightarrow> [])"
| "step_calls sz Release_op c = map (\<lambda>(k, i). Free_op i sz) (counters_gc_removed c)"
| "step_calls sz _ c = []"

text \<open>Callers remove a key as often as they have inserted it, and insert it fewer than \<open>2 ^ 32\<close> times.\<close>

fun step_allowed :: "'k counter_op \<Rightarrow> 'k::linorder counter \<Rightarrow> bool" where
  "step_allowed (Insert_op key) c = (case map_of (counters c) key of Some (i, r) \<Rightarrow> r + 1 \<noteq> 0 | None \<Rightarrow> True)"
| "step_allowed (Remove_op key now timeout) c = (case map_of (counters c) key of Some (i, r) \<Rightarrow> r \<noteq> 0 | None \<Rightarrow> True)"
| "step_allowed _ c = True"

fun spec_step :: "u32 \<Rightarrow> 'k counter_op \<Rightarrow> ('k \<Rightarrow> key_state) \<Rightarrow> 'k \<Rightarrow> key_state" where
  "spec_step new (Insert_op key) S = S(key := on_insert new (S key))"
| "spec_step new (Remove_op key now timeout) S = S(key := on_remove (now + timeout) (S key))"
| "spec_step new (Allocate_op buffers) S = on_allocate \<circ> S"
| "spec_step new (Gc_op now) S = on_gc now \<circ> S"
| "spec_step new Release_op S = on_release \<circ> S"

lemma allowed_spec:
  assumes "represents c S"
  shows "step_allowed (Insert_op key) c = (references (S key) + 1 \<noteq> 0)"
    "step_allowed (Remove_op key now timeout) c = (references (S key) \<noteq> 0 \<or> S key = Unknown)"
    "step_calls sz (Insert_op key) c = (if S key = Unknown then [Alloc_op sz] else [])"
    "step_calls sz (Remove_op key now timeout) c = (case S key of Fresh i r \<Rightarrow> if r = 1 then [Free_op i sz] else [] | _ \<Rightarrow> [])"
  using representsD(6,7) [OF assms, of key] by (cases "S key"; simp add: entries_def)+

lemma step_effect:
  assumes "represents c S" and "step_allowed op c"
  shows "represents (snd (counter_step P sz op (m, c))) (spec_step (fst (Allocate P sz (allocator m))) op S)"
    "allocator (fst (counter_step P sz op (m, c))) = snd (seg_run P (step_calls sz op c) (allocator m))"
proof -
  note a = allowed_spec [OF assms(1)]
  show "represents (snd (counter_step P sz op (m, c))) (spec_step (fst (Allocate P sz (allocator m))) op S)"
    using assms(2) a(1,2) insert_effect(1) [OF assms(1)] remove_effect(1) [OF assms(1)] allocate_effect(1) [OF assms(1)]
      gc_effect [OF assms(1)] release_effect(1) [OF assms(1)] by (cases op) simp_all
  show "allocator (fst (counter_step P sz op (m, c))) = snd (seg_run P (step_calls sz op c) (allocator m))"
  proof (cases op)
    case (Insert_op key)
    then show ?thesis using insert_effect(2) [OF assms(1)] assms(2) a(1,3) by (simp add: Let_def split_def)
  next
    case (Remove_op key now timeout)
    then show ?thesis using remove_effect(2) [OF assms(1)] assms(2) a(2,4)
      by (simp add: Let_def split_def del: step_calls.simps step_allowed.simps split: key_state.splits)
  qed (use allocate_effect(2) [OF assms(1)] release_effect(2) [OF assms(1)] in simp_all)
qed

section \<open>Segments of the counters\<close>

fun number :: "key_state \<Rightarrow> u32 option" where
  "number Unknown = None"
| "number (Fresh i r) = Some i"
| "number (Live i r) = Some i"
| "number (Leaving i t) = Some i"
| "number (Gone i) = Some i"

definition segments :: "seg_params \<Rightarrow> u16 \<Rightarrow> ('k \<Rightarrow> key_state) \<Rightarrow> (nat \<times> nat) set" where
  "segments P sz S = (\<lambda>i. (unat i, unat sz)) ` {i. i \<noteq> ErrorResult P \<and> (\<exists>k. number (S k) = Some i)}"

definition numbers_distinct :: "seg_params \<Rightarrow> ('k \<Rightarrow> key_state) \<Rightarrow> bool" where
  "numbers_distinct P S \<longleftrightarrow> (\<forall>k k' i. number (S k) = Some i \<and> number (S k') = Some i \<and> i \<noteq> ErrorResult P \<longrightarrow> k = k')"

lemma segments_cong: "(\<And>k. number (S' k) = number (S k)) \<Longrightarrow> segments P sz S' = segments P sz S \<and> numbers_distinct P S' = numbers_distinct P S"
  by (simp add: segments_def numbers_distinct_def)

lemma segment_mem: "(unat i, unat sz) \<in> segments P sz S \<longleftrightarrow> i \<noteq> ErrorResult P \<and> (\<exists>k. number (S k) = Some i)"
  by (auto simp: segments_def simp flip: word_unat_eq_iff)

lemma forget_number:
  assumes "numbers_distinct P S" "number (S k) = Some i"
  shows "segments P sz (S(k := Unknown)) =
      (if (unat i, unat sz) \<in> segments P sz S then segments P sz S - {(unat i, unat sz)} else segments P sz S)"
    "numbers_distinct P (S(k := Unknown))"
proof -
  let ?N = "\<lambda>S. {i. i \<noteq> ErrorResult P \<and> (\<exists>k. number (S k) = Some i)}"
  have "(\<exists>k'. number ((S(k := Unknown)) k') = Some j) \<longleftrightarrow> (\<exists>k'. number (S k') = Some j) \<and> j \<noteq> i" if "j \<noteq> ErrorResult P" for j
  proof -
    have "(\<exists>k'. number ((S(k := Unknown)) k') = Some j) \<longleftrightarrow> (\<exists>k'. k' \<noteq> k \<and> number (S k') = Some j)" by auto
    then show ?thesis using assms that unfolding numbers_distinct_def by (metis option.inject)
  qed
  then have "?N (S(k := Unknown)) = ?N S - {i}" by blast
  moreover have "inj (\<lambda>i :: u32. (unat i, unat sz))" by (simp add: inj_def word_unat_eq_iff)
  ultimately have "segments P sz (S(k := Unknown)) = segments P sz S - {(unat i, unat sz)}"
    unfolding segments_def by (simp add: image_set_diff)
  then show "segments P sz (S(k := Unknown)) =
      (if (unat i, unat sz) \<in> segments P sz S then segments P sz S - {(unat i, unat sz)} else segments P sz S)"
    by auto
  show "numbers_distinct P (S(k := Unknown))" using assms(1) unfolding numbers_distinct_def by auto
qed

lemma new_number:
  assumes "numbers_distinct P S" "number (S k) = None" "number K = Some i"
    and "i = ErrorResult P \<or> (unat i, unat sz) \<notin> segments P sz S"
  shows "segments P sz (S(k := K)) = (if i = ErrorResult P then segments P sz S else insert (unat i, unat sz) (segments P sz S))"
    "numbers_distinct P (S(k := K))"
proof -
  let ?N = "\<lambda>S. {i. i \<noteq> ErrorResult P \<and> (\<exists>k. number (S k) = Some i)}"
  have old: "number ((S(k := K)) k') = Some j \<longleftrightarrow> (if k' = k then j = i else number (S k') = Some j)" for k' j
    using assms(3) by auto
  have "(\<exists>k'. number ((S(k := K)) k') = Some j) \<longleftrightarrow> j = i \<or> (\<exists>k'. number (S k') = Some j)" for j
    unfolding old using assms(2) by (metis option.distinct(1))
  then have "?N (S(k := K)) = (if i = ErrorResult P then ?N S else insert i (?N S))" by auto
  then show "segments P sz (S(k := K)) = (if i = ErrorResult P then segments P sz S else insert (unat i, unat sz) (segments P sz S))"
    unfolding segments_def by simp
  have "number (S k') \<noteq> Some i" if "i \<noteq> ErrorResult P" for k' using assms(4) that segment_mem [of i sz P S] by blast
  then show "numbers_distinct P (S(k := K))" using assms(1) unfolding numbers_distinct_def old by (auto split: if_splits)
qed

text \<open>Between the segments that a client holds and the keys there is a one-to-one correspondence.\<close>

definition owns :: "seg_params \<Rightarrow> u16 \<Rightarrow> ('k \<Rightarrow> key_state) \<Rightarrow> (nat \<times> nat) set \<Rightarrow> bool" where
  "owns P sz S H \<longleftrightarrow> segments P sz S = H \<and> numbers_distinct P S"

lemma owns_cong: "owns P sz S H \<Longrightarrow> (\<And>k. number (S' k) = number (S k)) \<Longrightarrow> owns P sz S' H"
  using segments_cong [of S' S P sz] by (simp add: owns_def)

lemma owns_free:
  assumes "owns P sz S H" "number (S k) = Some i" "ok = ((unat i, unat sz) \<in> H)"
  shows "owns P sz (S(k := Unknown)) (if ok then H - {(unat i, unat sz)} else H)"
  using forget_number(1) [of P S k i sz] forget_number(2) [of P S k i] assms by (auto simp: owns_def)

lemma owns_frees:
  assumes "owns P sz S H" "\<forall>(k, i) \<in> set xs. number (S k) = Some i" "distinct (map fst xs)"
    and "seg_run P (map (\<lambda>(k, i). Free_op i sz) xs) a = (es, a')" "events_ok P H es"
  shows "owns P sz (\<lambda>k. if k \<in> fst ` set xs then Unknown else S k) (held P H es)"
  using assms
proof (induction xs arbitrary: S H a es)
  case (Cons x xs)
  obtain k i where x: "x = (k, i)" by force
  obtain r a1 where f: "Free P i sz a = (r, a1)" by force
  obtain es1 where es: "es = Released i sz r # es1" "seg_run P (map (\<lambda>(k, i). Free_op i sz) xs) a1 = (es1, a')"
    using Cons.prems(4) f by (auto simp: x split: prod.splits)
  let ?S = "S(k := Unknown)" and ?H = "if r then H - {(unat i, unat sz)} else H"
  have ev: "r = ((unat i, unat sz) \<in> H)" "events_ok P ?H es1" using Cons.prems(5) unfolding es events_ok.simps by blast+
  have "owns P sz ?S ?H" using owns_free [OF Cons.prems(1) _ ev(1), of k] Cons.prems(2) by (simp add: x)
  moreover have "\<forall>(k', i) \<in> set xs. number (?S k') = Some i" using Cons.prems(2,3) by (force simp: x)
  moreover have "distinct (map fst xs)" using Cons.prems(3) by simp
  ultimately have "owns P sz (\<lambda>k'. if k' \<in> fst ` set xs then Unknown else ?S k') (held P ?H es1)"
    using Cons.IH es(2) ev(2) by blast
  moreover have "(\<lambda>k'. if k' \<in> fst ` set xs then Unknown else ?S k') = (\<lambda>k'. if k' \<in> fst ` set (x # xs) then Unknown else S k')"
    by (auto simp: x)
  ultimately show ?case by (simp add: es(1))
qed simp

lemma step_owns:
  assumes r: "represents c S" and al: "step_allowed op c" and own: "owns P sz S H" and sz: "sz \<noteq> 0"
    and run: "seg_run P (step_calls sz op c) (allocator m) = (es, a')" and ev: "events_ok P H es"
  shows "owns P sz (spec_step (fst (Allocate P sz (allocator m))) op S) (held P H es)"
proof (cases op)
  case (Insert_op key)
  obtain i a1 where A: "Allocate P sz (allocator m) = (i, a1)" by force
  show ?thesis
  proof (cases "S key = Unknown")
    case True
    then have es: "es = [Allocated sz i]" using run A allowed_spec(3) [OF r, of sz key] by (simp add: Insert_op)
    have "i = ErrorResult P \<or> (unat i, unat sz) \<notin> H"
    proof (rule ccontr)
      assume "\<not> ?thesis"
      then have "unat i + unat sz \<le> unat i" using ev by (auto simp: es)
      then show False using sz by (simp add: unat_gt_0 [symmetric])
    qed
    then show ?thesis
      using new_number [of P S key "Fresh i 1" i sz] own True by (auto simp: Insert_op es A owns_def)
  next
    case False
    then have "es = []" using run allowed_spec(3) [OF r, of sz key] by (simp add: Insert_op)
    moreover have "number (on_insert (fst (Allocate P sz (allocator m))) (S key)) = number (S key)"
      using False by (cases "S key") simp_all
    ultimately show ?thesis using owns_cong [OF own] by (simp add: Insert_op)
  qed
next
  case (Remove_op key now timeout)
  show ?thesis
  proof (cases "\<exists>i. S key = Fresh i 1")
    case True
    then obtain i where i: "S key = Fresh i 1" ..
    obtain ok a1 where f: "Free P i sz (allocator m) = (ok, a1)" by force
    have es: "es = [Released i sz ok]" using run f i allowed_spec(4) [OF r, of sz key] by (simp add: Remove_op)
    show ?thesis using owns_free [OF own, of key i ok] i ev by (simp add: Remove_op es)
  next
    case False
    then have "step_calls sz op c = []" using allowed_spec(4) [OF r, of sz key] by (auto simp: Remove_op split: key_state.splits)
    then have "es = []" using run by simp
    moreover have "number (on_remove (now + timeout) (S key)) = number (S key)" using False by (cases "S key") auto
    ultimately show ?thesis using owns_cong [OF own] by (simp add: Remove_op)
  qed
next
  case (Allocate_op buffers)
  have "number (on_allocate (S k)) = number (S k)" for k by (cases "S k") simp_all
  then show ?thesis using owns_cong [OF own] run by (simp add: Allocate_op)
next
  case (Gc_op now)
  have "number (on_gc now (S k)) = number (S k)" for k by (cases "S k") simp_all
  then show ?thesis using owns_cong [OF own] run by (simp add: Gc_op)
next
  case Release_op
  note d = representsD [OF r]
  have g: "map_of (counters_gc_removed c) k = Some i \<longleftrightarrow> S k = Gone i" for k i
    using d(6) [of k] by (cases "S k") (auto simp: entries_def)
  then have "\<forall>(k, i) \<in> set (counters_gc_removed c). number (S k) = Some i" by (auto simp: map_of_mem [OF d(4)])
  from owns_frees [OF own this map_ok_distinct [OF d(4)]] run ev
  have "owns P sz (\<lambda>k. if k \<in> fst ` set (counters_gc_removed c) then Unknown else S k) (held P H es)" by (simp add: Release_op)
  moreover have "(\<lambda>k. if k \<in> fst ` set (counters_gc_removed c) then Unknown else S k) = on_release \<circ> S"
  proof
    fix k
    have "k \<in> fst ` set (counters_gc_removed c) \<longleftrightarrow> (\<exists>i. S k = Gone i)"
      using g [of k] map_of_eq_None_iff [of "counters_gc_removed c" k] by (metis not_None_eq)
    then show "(if k \<in> fst ` set (counters_gc_removed c) then Unknown else S k) = (on_release \<circ> S) k"
      by (cases "S k") auto
  qed
  ultimately show ?thesis by (simp add: Release_op)
qed

fun counter_run :: "seg_params \<Rightarrow> u16 \<Rightarrow> 'k counter_op list \<Rightarrow> counter_manager \<times> 'k::linorder counter \<Rightarrow>
    seg_op list \<times> counter_manager \<times> 'k counter" where
  "counter_run P sz [] mc = ([], mc)"
| "counter_run P sz (op # ops) mc =
     (let (cs, mc') = counter_run P sz ops (counter_step P sz op mc) in (step_calls sz op (snd mc) @ cs, mc'))"

fun run_allowed :: "seg_params \<Rightarrow> u16 \<Rightarrow> 'k counter_op list \<Rightarrow> counter_manager \<times> 'k::linorder counter \<Rightarrow> bool" where
  "run_allowed P sz [] mc = True"
| "run_allowed P sz (op # ops) mc = (step_allowed op (snd mc) \<and> run_allowed P sz ops (counter_step P sz op mc))"

lemma seg_run_append:
  "seg_run P (xs @ ys) a = (fst (seg_run P xs a) @ fst (seg_run P ys (snd (seg_run P xs a))), snd (seg_run P ys (snd (seg_run P xs a))))"
proof (induction xs arbitrary: a)
  case (Cons op xs)
  then show ?case by (cases op) (simp_all add: split_def Let_def)
qed simp

lemma held_append: "held P H (xs @ ys) = held P (held P H xs) ys"
  by (induction P H xs rule: held.induct) simp_all

lemma events_ok_append: "events_ok P H (xs @ ys) \<longleftrightarrow> events_ok P H xs \<and> events_ok P (held P H xs) ys"
  by (induction P H xs rule: events_ok.induct) auto

lemma run_owns:
  assumes "represents c S" "owns P sz S H" "run_allowed P sz ops (m, c)" "sz \<noteq> 0"
    and "counter_run P sz ops (m, c) = (cs, m', c')" "seg_run P cs (allocator m) = (es, a')" "events_ok P H es"
  shows "\<exists>S'. represents c' S' \<and> owns P sz S' (held P H es) \<and> allocator m' = a'"
  using assms
proof (induction ops arbitrary: c S H m cs es)
  case (Cons op ops)
  obtain m1 c1 where st: "counter_step P sz op (m, c) = (m1, c1)" by force
  obtain cs1 where cs: "counter_run P sz ops (m1, c1) = (cs1, m', c')" "cs = step_calls sz op c @ cs1"
    using Cons.prems(5) st by (auto split: prod.splits)
  obtain es1 a1 where r1: "seg_run P (step_calls sz op c) (allocator m) = (es1, a1)" by force
  have al: "step_allowed op c" "run_allowed P sz ops (m1, c1)" using Cons.prems(3) st by simp_all
  note e = step_effect [OF Cons.prems(1) al(1), of P sz m, unfolded st r1, simplified]
  obtain es2 where es: "es = es1 @ es2" "seg_run P cs1 (allocator m1) = (es2, a')"
    using Cons.prems(6) cs(2) r1 e(2) by (cases "seg_run P cs1 a1") (simp add: seg_run_append)
  have ev: "events_ok P H es1" "events_ok P (held P H es1) es2" using Cons.prems(7) es(1) by (simp_all add: events_ok_append)
  note o = step_owns [OF Cons.prems(1) al(1) Cons.prems(2,4) r1 ev(1)]
  from Cons.IH [OF e(1) o al(2) Cons.prems(4) cs(1) es(2) ev(2)] show ?case by (simp add: es(1) held_append)
qed auto

lemma counter_new_represents: "represents counter_new (\<lambda>_. Unknown)" "owns P sz (\<lambda>_. Unknown) {}"
  by (simp_all add: represents_def counter_new_def entries_def owns_def segments_def numbers_distinct_def)

lemma represents_number: "represents c S \<Longrightarrow> number (S k) = map_option fst (map_of (counters c) k)"
  using representsD(6) [of c S k] by (cases "S k") (auto simp: entries_def)

text \<open>
  C10: in every run of the counters of a module on a fresh allocator whose releases keep its lists right,
  the segments that are reserved and not yet given back are exactly those of the keys that the module
  knows, and no two keys share one: nothing is given back twice or while it is known, and nothing leaks.
\<close>

theorem counter_segments_exact:
  assumes "seg_ok P" and "sz \<noteq> 0" and "run_allowed P sz ops (manager_new P mem, counter_new)"
    and "counter_run P sz ops (manager_new P mem, counter_new) = (cs, m, c)"
    and "releases_ok P cs (seg_new P mem)" and "seg_run P cs (seg_new P mem) = (es, a)"
  shows "allocator m = a \<and>
    held P {} es = {(unat i, unat sz) | k i r. map_of (counters c) k = Some (i, r) \<and> i \<noteq> ErrorResult P} \<and>
    inj_on (\<lambda>k. cnt_get_id k c) {k. \<exists>i r. map_of (counters c) k = Some (i, r) \<and> i \<noteq> ErrorResult P}"
proof -
  have "events_ok P {} es"
    using seg_run_effect [OF assms(1) seg_new_inv(1) [OF assms(1)] assms(5,6)] seg_new_inv(2) [OF assms(1)] by simp
  from run_owns [OF counter_new_represents assms(3,2,4) _ this, of a] assms(6)
  obtain S where S: "represents c S" "owns P sz S (held P {} es)" "allocator m = a" by (auto simp: manager_new_def)
  note n = represents_number [OF S(1)]
  have "held P {} es = {(unat i, unat sz) | k i r. map_of (counters c) k = Some (i, r) \<and> i \<noteq> ErrorResult P}"
  proof -
    have H: "held P {} es = segments P sz S" using S(2) by (simp add: owns_def)
    show ?thesis unfolding H segments_def n by auto
  qed
  moreover have "inj_on (\<lambda>k. cnt_get_id k c) {k. \<exists>i r. map_of (counters c) k = Some (i, r) \<and> i \<noteq> ErrorResult P}"
    using S(2) by (auto simp: owns_def numbers_distinct_def n inj_on_def cnt_get_id_def)
  ultimately show ?thesis using S(3) by simp
qed

theorem counter_segments_exact_witness:
  "let ops = [Insert_op 1, Insert_op (2 :: nat), Insert_op 1, Allocate_op [], Remove_op 1 10 5, Remove_op 1 10 5, Gc_op 20, Release_op, Insert_op 3];
       (cs, m, c) = counter_run small_params 31 ops (manager_new small_params (\<lambda>_. zero_block), counter_new);
       (es, a) = seg_run small_params cs small_new
   in cs = [Alloc_op 31, Alloc_op 31, Free_op 64 31, Alloc_op 31] \<and> counters c = [(2, 95, 1), (3, 64, 1)] \<and>
      held small_params {} es = {(95, 31), (64, 31)} \<and> allocator m = a"
proof -
  let ?ops = "[Insert_op 1, Insert_op (2 :: nat), Insert_op 1, Allocate_op [], Remove_op 1 10 5, Remove_op 1 10 5, Gc_op 20, Release_op, Insert_op 3]"
  let ?mc = "(manager_new small_params (\<lambda>_. zero_block), counter_new :: nat counter)"
  let ?cs = "[Alloc_op 31, Alloc_op 31, Free_op 64 31, Alloc_op 31]"
  note ev = small_run small_new_eq manager_new_def counter_new_def cnt_insert_def cnt_remove_def cnt_allocate_def cnt_gc_def cnt_release_def
    release_one_def gc_one_def counter_reserve_def counter_release_def counter_allocate_def map_erase_def
  have ok: "seg_ok small_params" by (simp add: seg_ok_def small_params_def block_size_ok_def cells_def)
  have al: "run_allowed small_params 31 ?ops ?mc" by (simp add: ev cong: let_weak_cong prod.case_cong_weak)
  have "fst (counter_run small_params 31 ?ops ?mc) = ?cs" "counters (snd (snd (counter_run small_params 31 ?ops ?mc))) = [(2, 95, 1), (3, 64, 1)]"
    by (simp_all add: ev cong: let_weak_cong prod.case_cong_weak)
  then obtain m c where run: "counter_run small_params 31 ?ops ?mc = (?cs, m, c)" and c: "counters c = [(2, 95, 1), (3, 64, 1)]"
    by (metis prod.collapse)
  have rel: "releases_ok small_params ?cs small_new" by (simp add: ev release_ok_def cong: let_weak_cong prod.case_cong_weak)
  obtain es a where es: "seg_run small_params ?cs small_new = (es, a)" by force
  have "held small_params {} es = {(unat i, unat (31 :: u16)) | k i r. map_of (counters c) k = Some (i, r) \<and> i \<noteq> ErrorResult small_params}" "allocator m = a"
    using counter_segments_exact [OF ok _ al run rel es] by simp_all
  moreover have known: "map_of (counters c) k = Some (i, r) \<longleftrightarrow> (k = 2 \<and> i = 95 \<and> r = 1) \<or> (k = 3 \<and> i = 64 \<and> r = 1)" for k i r
    by (auto simp: c)
  have "{(unat i, unat (31 :: u16)) | k i r. map_of (counters c) k = Some (i, r) \<and> i \<noteq> ErrorResult small_params} = {(95, 31), (64, 31)}"
    by (auto simp: known small_params_fields conj_disj_distribL conj_disj_distribR ex_disj_distrib)
  ultimately show ?thesis unfolding Let_def run prod.case es using c by simp
qed

section \<open>Values\<close>

definition total_of :: "(u32 \<Rightarrow> u64) list \<Rightarrow> u32 \<Rightarrow> u64" where
  "total_of buffers x = (if COUNTERS_SIZE \<le> x then 0 else sum_list (map (\<lambda>buffer. buffer x) buffers))"

lemma GetCounters_total: "GetCounters buffers xs = map (total_of buffers) xs"
proof -
  have "fold (\<lambda>buffer counter. counter + buffer x) bs n = n + sum_list (map (\<lambda>buffer. buffer x) bs)" for bs and n :: u64 and x :: u32
    by (induction bs arbitrary: n) (simp_all add: add.assoc)
  then show ?thesis by (simp add: GetCounters_def total_of_def)
qed

lemma shifts_fold: "fold (\<lambda>(x, v) f. f(x := v)) (zip xs (map g xs)) f = (\<lambda>x. if x \<in> set xs then g x else f x)"
  by (induction xs arbitrary: f) (auto simp: fun_eq_iff)

lemma counter_get_map: "counter_get buffers xs m = map (\<lambda>x. total_of buffers x - counter_shifts m x) xs"
  by (simp add: counter_get_def GetCounters_total zip_map2 zip_same_conv_map)

lemma concat_nth:
  "(\<And>x. x \<in> set xs \<Longrightarrow> length (g x) = n) \<Longrightarrow> i < length xs \<Longrightarrow> j < n \<Longrightarrow> concat (map g xs) ! (i * n + j) = g (xs ! i) ! j"
proof (induction xs arbitrary: i)
  case (Cons x xs)
  then show ?case by (cases i) (simp_all add: nth_append)
qed simp

lemma assign_fold:
  "map_ok m \<Longrightarrow> distinct (map fst xs) \<Longrightarrow>
     map_of (fold (\<lambda>(k, i). map_assign k (g i)) xs m) = map_of m ++ (map_option g \<circ> map_of xs)"
proof (induction xs arbitrary: m)
  case (Cons kv xs)
  obtain k v where kv: "kv = (k, v)" by force
  then have "map_of xs k = None" using Cons.prems(2) by (simp add: map_of_eq_None_iff)
  then show ?case using Cons by (auto simp: kv map_of_assign map_add_def fun_eq_iff split: option.splits)
qed (simp add: map_add_def fun_eq_iff)

lemma get_counters_values:
  assumes "map_ok (counters_allocated c)"
  shows "map_of (cnt_get_counters buffers sz m c) k =
    map_option (\<lambda>i. map (\<lambda>x. total_of buffers x - counter_shifts m x) (counter_cells sz i)) (map_of (counters_allocated c) k)"
proof -
  let ?A = "counters_allocated c" let ?v = "\<lambda>x. total_of buffers x - counter_shifts m x"
  let ?vs = "map ?v (concat (map (\<lambda>(key, i). counter_cells sz i) ?A))"
  have cell: "map (\<lambda>j. ?vs ! (n * unat sz + j)) [0..<unat sz] = map ?v (counter_cells sz i)" if "(n, k, i) \<in> set (enumerate 0 ?A)" for n k i
  proof (rule nth_equalityI)
    have n: "n < length ?A" "?A ! n = (k, i)" using that by (auto simp: in_set_enumerate_eq)
    fix j assume "j < length (map (\<lambda>j. ?vs ! (n * unat sz + j)) [0..<unat sz])"
    then have j: "j < unat sz" by simp
    have c: "concat (map (map ?v \<circ> (\<lambda>(key, i). counter_cells sz i)) ?A) ! (n * unat sz + j) = (map ?v \<circ> (\<lambda>(key, i). counter_cells sz i)) (?A ! n) ! j"
      using n(1) j by (intro concat_nth) (auto simp: counter_cells_def)
    then show "map (\<lambda>j. ?vs ! (n * unat sz + j)) [0..<unat sz] ! j = map ?v (counter_cells sz i) ! j"
      using j n(2) by (simp add: map_concat)
  qed (simp add: counter_cells_def)
  have "cnt_get_counters buffers sz m c = fold (\<lambda>(n, key, i) r. map_assign key (map ?v (counter_cells sz i)) r) (enumerate 0 ?A) []"
    unfolding cnt_get_counters_def Let_def counter_get_map
    by (rule fold_cong [OF refl refl]) (use cell in \<open>auto simp: fun_eq_iff\<close>)
  also have "\<dots> = fold (\<lambda>(key, i). map_assign key (map ?v (counter_cells sz i))) (map snd (enumerate 0 ?A)) []"
    by (simp only: fold_map split_def comp_def)
  also have "map snd (enumerate 0 ?A) = ?A" by simp
  finally show ?thesis
    using assign_fold [of "[]" ?A "\<lambda>i. map ?v (counter_cells sz i)"] map_ok_distinct [OF assms] by (simp add: map_add_def)
qed

text \<open>
  C27: after \<^verbatim>\<open>allocate\<close>, \<^verbatim>\<open>get_counters\<close> reports for every counter that became readable, cell by cell, what
  the workers have added in the meantime, whatever the cells contained before and modulo \<open>2 ^ 64\<close>.
\<close>

theorem counters_start_at_zero:
  assumes "represents c S" and "S k = Fresh i r"
  shows "map_of (cnt_get_counters later sz (fst (cnt_allocate now sz (m, c))) (snd (cnt_allocate now sz (m, c)))) k =
    Some (map (\<lambda>x. total_of later x - total_of now x) (counter_cells sz i))"
proof -
  note rep = representsD [OF assms(1)]
  let ?m = "fst (cnt_allocate now sz (m, c))" let ?c = "snd (cnt_allocate now sz (m, c))"
  let ?ids = "concat (map (\<lambda>(key, i). counter_cells sz i) (counters_inserted c))"
  note a = representsD [OF allocate_effect(1) [OF assms(1), of now sz m]]
  have A: "map_of (counters_allocated ?c) k = Some i" using a(6) [of k] assms(2) by (simp add: entries_def)
  have "map_of (counters_inserted c) k = Some i" using rep(6) [of k] assms(2) by (simp add: entries_def)
  then have "(k, i) \<in> set (counters_inserted c)" by (rule map_of_SomeD)
  then have ids: "set (counter_cells sz i) \<subseteq> set ?ids" by (auto intro!: bexI [of _ "(k, i)"])
  have "counter_shifts ?m = (\<lambda>x. if x \<in> set ?ids then total_of now x else counter_shifts m x)"
    by (simp only: cnt_allocate_def counter_allocate_def Let_def GetCounters_total shifts_fold prod.case fst_conv) simp
  then have "map (\<lambda>x. total_of later x - counter_shifts ?m x) (counter_cells sz i) = map (\<lambda>x. total_of later x - total_of now x) (counter_cells sz i)"
    using ids by (intro map_cong) auto
  then show ?thesis using get_counters_values [OF a(5), of later sz ?m k] A by simp
qed

theorem counters_start_at_zero_witness:
  "let c = (counter_new :: nat counter)\<lparr>counters := [(7, 64, 1)], counters_inserted := [(7, 64)]\<rparr>;
       m = \<lparr>counter_shifts = (\<lambda>_. 0), allocator = small_new\<rparr>;
       (m, c) = cnt_allocate [(\<lambda>_. 5), (\<lambda>x. 3)] 2 (m, c)
   in map_of (cnt_get_counters [(\<lambda>x. if x = 65 then 9 else 5), (\<lambda>x. 4)] 2 m c) 7 = Some [1, 5]"
proof -
  let ?c = "(counter_new :: nat counter)\<lparr>counters := [(7, 64, 1)], counters_inserted := [(7, 64)]\<rparr>"
  let ?m = "\<lparr>counter_shifts = (\<lambda>_. 0), allocator = small_new\<rparr>"
  let ?S = "(\<lambda>_. Unknown)(7 := Fresh 64 1)"
  have r: "represents ?c ?S" by (auto simp: represents_def counter_new_def entries_def)
  have cells: "counter_cells 2 64 = [64, 65]" by code_simp
  show ?thesis
    using counters_start_at_zero [OF r, of 7 64 1 "[(\<lambda>x. if x = 65 then 9 else 5), (\<lambda>x. 4)]" 2 "[(\<lambda>_. 5), (\<lambda>x. 3)]" ?m]
    by (simp add: cells split_def Let_def total_of_def COUNTERS_SIZE_def)
qed

end
