(* ===== verification/Lpm6.thy ===== *)
theory Lpm6
  imports Lpm4 Address
begin

text \<open>
  The IPv6 forwarding table \<^verbatim>\<open>lpm6_8x16bit_atomic\<close> of \<^verbatim>\<open>src/dataplane/lpm.h\<close>: a tree of chunks of 65536
  entries, one level for each of the eight 16-bit groups of the address.  The class declares the same
  entries, flags and free list as the IPv4 table; \<open>Lpm4\<close> has them.  A reference to a chunk that a step
  works on is a \<open>chunk_ref\<close>.  Freeing a chunk frees the chunks below it; the depth of that recursion is
  a parameter, and \<open>None\<close> stands for a recursion that goes deeper than the levels of the table.
\<close>

section \<open>Data\<close>

type_synonym tChunk = "u16 \<Rightarrow> tEntry"

record lpm6 =
  l6_stats :: stats_t
  l6_root :: tChunk
  l6_chunks :: "u32 \<Rightarrow> tChunk"
  l6_wait :: bool

datatype chunk_ref = Root | Extended u32

fun get_chunk :: "lpm6 \<Rightarrow> chunk_ref \<Rightarrow> tChunk" where
  "get_chunk t Root = l6_root t"
| "get_chunk t (Extended c) = l6_chunks t c"

fun put_chunk :: "lpm6 \<Rightarrow> chunk_ref \<Rightarrow> tChunk \<Rightarrow> lpm6" where
  "put_chunk t Root ch = t\<lparr>l6_root := ch\<rparr>"
| "put_chunk t (Extended c) ch = t\<lparr>l6_chunks := (l6_chunks t)(c := ch)\<rparr>"

abbreviation put_entry :: "lpm6 \<Rightarrow> chunk_ref \<Rightarrow> u16 \<Rightarrow> tEntry \<Rightarrow> lpm6" where
  "put_entry t r i e \<equiv> put_chunk t r ((get_chunk t r)(i := e))"

section \<open>Chunks and entries\<close>

definition occupied_chunk6 :: tChunk where
  "occupied_chunk6 =
     (let chunk = (\<lambda>_. zero_entry)
      in chunk(0 := (chunk 0)\<lparr>flags := flags (chunk 0) OR flagExtendedChunkOccupied\<rparr>))"

definition newExtendedChunk6 :: "lpm6 \<Rightarrow> (lpm6 \<times> u32) option" where
  "newExtendedChunk6 t =
     (let s = l6_stats t in
      if flags (free_chunk_cache s) AND flagExtended \<noteq> 0 then
        let chunk_id = extendedChunkId (free_chunk_cache s);
            chunk = l6_chunks t chunk_id;
            s = s\<lparr>free_chunk_cache := \<lparr>flags = flags (chunk 0), valueId = valueId (chunk 0)\<rparr>\<rparr>
        in Some (t\<lparr>l6_chunks := (l6_chunks t)(chunk_id := occupied_chunk6),
                   l6_stats := s\<lparr>extended_chunks_count := extended_chunks_count s + 1\<rparr>\<rparr>, chunk_id)
      else if ucast (max_used_chunk_id s) < extended_chunks_size s then
        let chunk_id = max_used_chunk_id s
        in Some (t\<lparr>l6_chunks := (l6_chunks t)(chunk_id := occupied_chunk6),
                   l6_stats := s\<lparr>max_used_chunk_id := max_used_chunk_id s + 1,
                                 extended_chunks_count := extended_chunks_count s + 1\<rparr>\<rparr>, chunk_id)
      else None)"

text \<open>The entries of a chunk, in the order of the loops over them.\<close>

definition entry_indices :: "u16 list" where
  "entry_indices = map of_nat [0..<256 * 256]"

text \<open>The end of \<^verbatim>\<open>freeExtendedChunk\<close>: the chunk becomes the head of the free list.\<close>

definition link_free :: "u32 \<Rightarrow> lpm6 \<Rightarrow> lpm6" where
  "link_free chunk_id t =
     (let s = l6_stats t;
          chunk = l6_chunks t chunk_id;
          chunk = chunk(0 := \<lparr>flags = flags (free_chunk_cache s), valueId = valueId (free_chunk_cache s)\<rparr>)
      in t\<lparr>l6_chunks := (l6_chunks t)(chunk_id := chunk),
           l6_stats := s\<lparr>free_chunk_cache := \<lparr>flags = flagExtended, valueId = ucast chunk_id\<rparr>,
                         extended_chunks_count := extended_chunks_count s - 1\<rparr>\<rparr>)"

primrec free_levels :: "nat \<Rightarrow> u32 \<Rightarrow> lpm6 \<Rightarrow> lpm6 option" where
  "free_levels 0 chunk_id t = None"
| "free_levels (Suc n) chunk_id t =
     (if flags (l6_chunks t chunk_id 0) AND flagExtendedChunkOccupied = 0 then Some t
      else map_option (link_free chunk_id)
        (fold (\<lambda>i ot. Option.bind ot (\<lambda>t.
           let entrie = l6_chunks t chunk_id i
           in if flags entrie AND flagExtended \<noteq> 0 then free_levels n (extendedChunkId entrie) t else Some t))
         entry_indices (Some t)))"

definition freeExtendedChunk6 :: "u32 \<Rightarrow> lpm6 \<Rightarrow> lpm6 option" where
  "freeExtendedChunk6 = free_levels 8"

definition updateAllEntries6 :: "tChunk \<Rightarrow> tEntry \<Rightarrow> tChunk" where
  "updateAllEntries6 chunk entry =
     (let flag = flags (chunk 0) AND flagExtendedChunkOccupied;
          newEntry = entry\<lparr>flags := flags entry AND NOT flagExtendedChunkOccupied\<rparr>;
          chunk = (\<lambda>_. newEntry)
      in chunk(0 := (chunk 0)\<lparr>flags := flags (chunk 0) OR flag\<rparr>))"

section \<open>Addresses\<close>

definition be_to_cpu_16 :: "u16 \<Rightarrow> u16" where
  "be_to_cpu_16 w = push_bit 8 (w AND 0xFF) OR drop_bit 8 w"

text \<open>\<^verbatim>\<open>rte_be_to_cpu_16(*(((uint16_t*)ipv6Address.data()) + step))\<close>\<close>

definition load_hextet :: "u8 list \<Rightarrow> nat \<Rightarrow> u16" where
  "load_hextet addr step =
     be_to_cpu_16 (ucast (addr ! (2 * step)) OR push_bit 8 (ucast (addr ! (2 * step + 1))))"

definition hextetOf :: "u8 list \<Rightarrow> nat \<Rightarrow> u16" where
  "hextetOf addr step = push_bit 8 (ucast (addr ! (2 * step))) + ucast (addr ! (2 * step + 1))"

definition hasMoreMaskFurtherFrom :: "u8 list \<Rightarrow> nat \<Rightarrow> bool" where
  "hasMoreMaskFurtherFrom msk step = list_ex (\<lambda>s. hextetOf msk s > 0) [Suc step..<8]"

text \<open>The loop of \<^verbatim>\<open>createMask\<close> over the bytes that are left.\<close>

fun createMask_loop :: "nat \<Rightarrow> u8 \<Rightarrow> u8 list" where
  "createMask_loop 0 ones = []"
| "createMask_loop (Suc n) ones =
     (if 8 \<le> ones then 0xFF # createMask_loop n (ones - 8)
      else NOT (drop_bit (unat ones) 0xFF) # createMask_loop n 0)"

definition createMask :: "u8 \<Rightarrow> u8 list" where
  "createMask ones = createMask_loop 16 ones"

section \<open>Insertion and removal\<close>

text \<open>The body of the loops over entries: an extended entry gives its chunk back.\<close>

definition overwrite_entry :: "chunk_ref \<Rightarrow> u16 \<Rightarrow> u8 \<Rightarrow> u32 \<Rightarrow> lpm6 \<Rightarrow> lpm6 option" where
  "overwrite_entry r entry_i fl val t =
     (let entry = get_chunk t r entry_i;
          t = put_entry t r entry_i (updateEntry entry fl val)
      in if flags entry AND flagExtended \<noteq> 0
         then map_option (\<lambda>t. t\<lparr>l6_wait := True\<rparr>) (freeExtendedChunk6 (extendedChunkId entry) t)
         else Some t)"

definition overwrite_entries :: "chunk_ref \<Rightarrow> u16 \<Rightarrow> u8 \<Rightarrow> u8 \<Rightarrow> u32 \<Rightarrow> lpm6 \<Rightarrow> lpm6 option" where
  "overwrite_entries r hextet msk fl val t =
     fold (\<lambda>mask_i ot. Option.bind ot (overwrite_entry r (hextet + of_nat mask_i) fl val)) [0..<2 ^ (16 - unat msk)] (Some t)"

definition chunk_all6 :: "(tEntry \<Rightarrow> bool) \<Rightarrow> tChunk \<Rightarrow> bool" where
  "chunk_all6 P chunk = list_all (\<lambda>i. P (chunk i)) entry_indices"

function insertStep :: "u8 list \<Rightarrow> u8 \<Rightarrow> u32 \<Rightarrow> nat \<Rightarrow> chunk_ref \<Rightarrow> lpm6 \<Rightarrow> (eResult \<times> lpm6) option" where
  "insertStep addr msk val step r t =
     (if msk > 16 then
        let entry_i = load_hextet addr step;
            entry = get_chunk t r entry_i
        in if flags entry AND flagExtended \<noteq> 0 then
             let chunk_id = extendedChunkId entry in
             case insertStep addr (msk - 16) val (step + 1) (Extended chunk_id) t of
               None \<Rightarrow> None
             | Some (result, t) \<Rightarrow>
                 if result \<noteq> success then Some (result, t)
                 else if chunk_all6 (\<lambda>e. flags e AND flagValid \<noteq> 0 \<and> ucast (valueId e) = val) (l6_chunks t chunk_id)
                 then map_option (\<lambda>t. (success, t\<lparr>l6_wait := True\<rparr>))
                   (freeExtendedChunk6 chunk_id (put_entry t r entry_i (updateEntry (get_chunk t r entry_i) flagValid val)))
                 else Some (success, t)
           else if flags entry AND flagValid \<noteq> 0 \<and> ucast (valueId entry) = val then Some (success, t)
           else case newExtendedChunk6 t of
               None \<Rightarrow> Some (isFull, t)
             | Some (t, chunk_id) \<Rightarrow>
                 let t = put_chunk t (Extended chunk_id) (updateAllEntries6 (l6_chunks t chunk_id) (get_chunk t r entry_i)) in
                 case insertStep addr (msk - 16) val (step + 1) (Extended chunk_id) t of
                   None \<Rightarrow> None
                 | Some (result, t) \<Rightarrow>
                     if result \<noteq> success then map_option (\<lambda>t. (result, t)) (freeExtendedChunk6 chunk_id t)
                     else Some (success, put_entry t r entry_i (updateEntry (get_chunk t r entry_i) flagExtended chunk_id))
      else map_option (\<lambda>t. (success, t)) (overwrite_entries r (load_hextet addr step) msk flagValid val t))"
  by pat_completeness auto

lemma mask_decreases: "(16 :: u8) < msk \<Longrightarrow> unat (msk - 16) = unat msk - 16"
  by (simp add: unat_sub word_less_nat_alt word_le_nat_alt)

termination insertStep
  by (relation "measure (\<lambda>(addr, msk, _). unat msk)") (auto simp: mask_decreases word_less_nat_alt)

function removeStep :: "u8 list \<Rightarrow> u8 \<Rightarrow> nat \<Rightarrow> chunk_ref \<Rightarrow> lpm6 \<Rightarrow> (eResult \<times> lpm6) option" where
  "removeStep addr msk step r t =
     (if msk > 16 then
        let entry_i = load_hextet addr step;
            entry = get_chunk t r entry_i
        in if flags entry AND flagExtended \<noteq> 0 then
             let chunk_id = extendedChunkId entry in
             case removeStep addr (msk - 16) (step + 1) (Extended chunk_id) t of
               None \<Rightarrow> None
             | Some (result, t) \<Rightarrow>
                 if result \<noteq> success then Some (result, t)
                 else if chunk_all6 (\<lambda>e. flags e AND (flagExtended OR flagValid) = 0) (l6_chunks t chunk_id)
                 then map_option (\<lambda>t. (success, t\<lparr>l6_wait := True\<rparr>))
                   (freeExtendedChunk6 chunk_id (put_entry t r entry_i (updateEntry (get_chunk t r entry_i) 0 0)))
                 else Some (success, t)
           else if flags entry AND flagValid \<noteq> 0 then
             (case newExtendedChunk6 t of
               None \<Rightarrow> Some (isFull, t)
             | Some (t, chunk_id) \<Rightarrow>
                 let t = put_chunk t (Extended chunk_id) (updateAllEntries6 (l6_chunks t chunk_id) (get_chunk t r entry_i)) in
                 case removeStep addr (msk - 16) (step + 1) (Extended chunk_id) t of
                   None \<Rightarrow> None
                 | Some (result, t) \<Rightarrow>
                     if result \<noteq> success then map_option (\<lambda>t. (result, t)) (freeExtendedChunk6 chunk_id t)
                     else Some (success, put_entry t r entry_i (updateEntry (get_chunk t r entry_i) flagExtended chunk_id)))
           else Some (success, t)
      else map_option (\<lambda>t. (success, t)) (overwrite_entries r (load_hextet addr step) msk 0 0 t))"
  by pat_completeness auto

termination removeStep
  by (relation "measure (\<lambda>(addr, msk, _). unat msk)") (auto simp: mask_decreases word_less_nat_alt)

definition lpm6_insert :: "lpm6 \<Rightarrow> u8 list \<Rightarrow> u8 \<Rightarrow> u32 \<Rightarrow> (eResult \<times> lpm6) option" where
  "lpm6_insert t addr msk val =
     (if msk > 128 \<or> val AND 0xFF000000 \<noteq> 0 then Some (invalidArguments, t)
      else insertStep addr msk val 0 Root (t\<lparr>l6_wait := False\<rparr>))"

definition lpm6_remove :: "lpm6 \<Rightarrow> u8 list \<Rightarrow> u8 \<Rightarrow> (eResult \<times> lpm6) option" where
  "lpm6_remove t addr msk =
     (if msk > 128 then Some (invalidArguments, t) else removeStep addr msk 0 Root (t\<lparr>l6_wait := False\<rparr>))"

definition lpm6_clear :: "lpm6 \<Rightarrow> lpm6" where
  "lpm6_clear t = t\<lparr>l6_root := (\<lambda>_. zero_entry)\<rparr>"

section \<open>Lookup\<close>

text \<open>The loop over the steps that are left, from the chunk that is reached.\<close>

primrec lookup_steps :: "nat \<Rightarrow> lpm6 \<Rightarrow> u8 list \<Rightarrow> tChunk \<Rightarrow> u32" where
  "lookup_steps 0 t addr chunk = lpmValueIdInvalid"
| "lookup_steps (Suc n) t addr chunk =
     (let entry = chunk (load_hextet addr (7 - n))
      in if flags entry AND flagValid \<noteq> 0 then drop_bit 8 (atomic entry)
         else if flags entry AND flagExtended \<noteq> 0 then lookup_steps n t addr (l6_chunks t (drop_bit 8 (atomic entry)))
         else lpmValueIdInvalid)"

definition lpm6_lookup_one :: "lpm6 \<Rightarrow> u8 list \<Rightarrow> u32" where
  "lpm6_lookup_one t addr = lookup_steps 8 t addr (l6_root t)"

definition lpm6_lookup_burst :: "lpm6 \<Rightarrow> u8 list list \<Rightarrow> u32 list" where
  "lpm6_lookup_burst t addrs = map (lpm6_lookup_one t) addrs"

text \<open>The lookup of the packets that the mask leaves open; the others keep their value.\<close>

definition lpm6_lookup_masked :: "lpm6 \<Rightarrow> u32 \<Rightarrow> u8 list list \<Rightarrow> u32 list \<Rightarrow> u32 list" where
  "lpm6_lookup_masked t msk addrs valueIds =
     (if msk = 0xFFFFFFFF then valueIds
      else map (\<lambda>(i, addr, v). if msk AND push_bit i 1 \<noteq> 0 then v else lpm6_lookup_one t addr)
        (enumerate 0 (zip addrs valueIds)))"

definition lpm6_lookup :: "lpm6 \<Rightarrow> u8 list \<Rightarrow> bool \<times> u32" where
  "lpm6_lookup t addr = (let lvalueId = hd (lpm6_lookup_burst t [addr]) in (lvalueId \<noteq> lpmValueIdInvalid, lvalueId))"

declare insertStep.simps [simp del] removeStep.simps [simp del]

section \<open>Updates with a value or with nothing\<close>

text \<open>
  Insertion and removal differ only in the entry they write; the proofs below treat them together, as
  the update that writes \<open>Some\<close> value or \<open>None\<close>.
\<close>

definition occ :: "tEntry \<Rightarrow> bool" where "occ e = bit (flags e) 7"

definition leaf_is :: "u32 option \<Rightarrow> tEntry \<Rightarrow> bool" where
  "leaf_is v e = (case v of Some x \<Rightarrow> is_val e \<and> ucast (valueId e) = x | None \<Rightarrow> \<not> is_ext e \<and> \<not> is_val e)"

definition new_flags :: "u32 option \<Rightarrow> u8" where
  "new_flags v = (case v of Some x \<Rightarrow> flagValid | None \<Rightarrow> 0)"

definition new_value :: "u32 option \<Rightarrow> u32" where
  "new_value v = (case v of Some x \<Rightarrow> x | None \<Rightarrow> 0)"

lemma occ_test: "(flags e AND flagExtendedChunkOccupied = 0) = (\<not> occ e)"
  using and_exp_eq_0_iff_not_bit [of "flags e" 7] by (simp add: flagExtendedChunkOccupied_def occ_def push_bit_eq_mult)

lemma occ_updateEntry [simp]: "occ (updateEntry e fl v) = occ e"
  by (simp add: occ_def updateEntry_def bit_or_iff bit_and_iff bit_not_iff)

lemma updateAllEntries6_sel [simp]:
  "is_ext (updateAllEntries6 chunk e i) = is_ext e" "is_val (updateAllEntries6 chunk e i) = is_val e"
  "valueId (updateAllEntries6 chunk e i) = valueId e" "occ (updateAllEntries6 chunk e 0) = occ (chunk 0)"
  by (auto simp: updateAllEntries6_def Let_def is_ext_def is_val_def occ_def bit_or_iff bit_and_iff bit_not_iff)

lemma occupied_chunk6_sel [simp]: "\<not> is_ext (occupied_chunk6 i)" "\<not> is_val (occupied_chunk6 i)" "occ (occupied_chunk6 0)"
  by (auto simp: occupied_chunk6_def Let_def zero_entry_def is_ext_def is_val_def occ_def)

function set_step :: "u32 option \<Rightarrow> u8 list \<Rightarrow> u8 \<Rightarrow> nat \<Rightarrow> chunk_ref \<Rightarrow> lpm6 \<Rightarrow> (eResult \<times> lpm6) option" where
  "set_step v addr msk step r t =
     (if msk > 16 then
        let entry_i = load_hextet addr step;
            entry = get_chunk t r entry_i
        in if is_ext entry then
             case set_step v addr (msk - 16) (step + 1) (Extended (extendedChunkId entry)) t of
               None \<Rightarrow> None
             | Some (result, t) \<Rightarrow>
                 if result \<noteq> success then Some (result, t)
                 else if \<forall>i. leaf_is v (l6_chunks t (extendedChunkId entry) i)
                 then map_option (\<lambda>t. (success, t\<lparr>l6_wait := True\<rparr>))
                   (freeExtendedChunk6 (extendedChunkId entry)
                     (put_entry t r entry_i (updateEntry (get_chunk t r entry_i) (new_flags v) (new_value v))))
                 else Some (success, t)
           else if leaf_is v entry then Some (success, t)
           else case newExtendedChunk6 t of
               None \<Rightarrow> Some (isFull, t)
             | Some (t, chunk_id) \<Rightarrow>
                 (case set_step v addr (msk - 16) (step + 1) (Extended chunk_id)
                    (put_chunk t (Extended chunk_id) (updateAllEntries6 (l6_chunks t chunk_id) (get_chunk t r entry_i))) of
                   None \<Rightarrow> None
                 | Some (result, t) \<Rightarrow>
                     if result \<noteq> success then map_option (\<lambda>t. (result, t)) (freeExtendedChunk6 chunk_id t)
                     else Some (success, put_entry t r entry_i (updateEntry (get_chunk t r entry_i) flagExtended chunk_id)))
      else map_option (\<lambda>t. (success, t)) (overwrite_entries r (load_hextet addr step) msk (new_flags v) (new_value v) t))"
  by pat_completeness auto

termination set_step
  by (relation "measure (\<lambda>(v, addr, msk, _). unat msk)") (auto simp: mask_decreases word_less_nat_alt)

declare set_step.simps [simp del]

lemma set_entry_indices: "set entry_indices = UNIV" "distinct entry_indices"
proof -
  have e: "unat (of_nat k :: u16) = k" if "k < 65536" for k using that by (intro unat_of_nat_small) simp
  show "set entry_indices = UNIV"
  proof (rule UNIV_eq_I [symmetric])
    fix i :: u16
    have "unat i < 65536" using unsigned_less [of i, where ?'a = nat] by simp
    then show "i \<in> set entry_indices" unfolding entry_indices_def set_map by (intro image_eqI [of _ _ "unat i"]) auto
  qed
  show "distinct entry_indices"
    unfolding entry_indices_def distinct_map by (auto intro!: inj_onI) (metis e)
qed

lemma chunk_all6_iff: "chunk_all6 P chunk \<longleftrightarrow> (\<forall>i. P (chunk i))"
  by (simp add: chunk_all6_def list_all_iff set_entry_indices)

lemma insertStep_set: "insertStep addr msk val step r t = set_step (Some val) addr msk step r t"
proof (induction addr msk val step r t rule: insertStep.induct)
  case (1 addr msk val step r t)
  show ?case
    unfolding insertStep.simps [of addr msk] set_step.simps [of _ addr msk] Let_def
    using 1 by (simp add: flag_tests leaf_is_def new_flags_def new_value_def chunk_all6_iff Let_def split: option.split)
qed

lemma removeStep_set: "removeStep addr msk step r t = set_step None addr msk step r t"
proof (induction addr msk step r t rule: removeStep.induct)
  case (1 addr msk step r t)
  show ?case
    unfolding removeStep.simps [of addr msk] set_step.simps [of _ addr msk] Let_def
    using 1 by (simp add: flag_tests leaf_is_def new_flags_def new_value_def chunk_all6_iff Let_def split: option.split)
qed

section \<open>Trees of chunks\<close>

text \<open>
  With \<open>n\<close> levels below an entry: the chunks it owns, that they form a tree, and the value it holds for
  an address.
\<close>

primrec own :: "nat \<Rightarrow> (u32 \<Rightarrow> tChunk) \<Rightarrow> tEntry \<Rightarrow> u32 set" where
  "own 0 C e = {}"
| "own (Suc n) C e = (if is_ext e then insert (extendedChunkId e) (\<Union>i. own n C (C (extendedChunkId e) i)) else {})"

abbreviation chunk_own :: "nat \<Rightarrow> (u32 \<Rightarrow> tChunk) \<Rightarrow> tChunk \<Rightarrow> u32 set" where
  "chunk_own n C ch \<equiv> (\<Union>i. own n C (ch i))"

primrec good :: "nat \<Rightarrow> (u32 \<Rightarrow> tChunk) \<Rightarrow> tEntry \<Rightarrow> bool" where
  "good 0 C e = (\<not> is_ext e)"
| "good (Suc n) C e = (is_ext e \<longrightarrow> \<not> is_val e \<and> occ (C (extendedChunkId e) 0) \<and>
     extendedChunkId e \<notin> chunk_own n C (C (extendedChunkId e)) \<and>
     (\<forall>i. good n C (C (extendedChunkId e) i)) \<and>
     (\<forall>i j. i \<noteq> j \<longrightarrow> own n C (C (extendedChunkId e) i) \<inter> own n C (C (extendedChunkId e) j) = {}))"

definition tidy :: "nat \<Rightarrow> (u32 \<Rightarrow> tChunk) \<Rightarrow> tChunk \<Rightarrow> bool" where
  "tidy n C ch \<longleftrightarrow> (\<forall>i. good n C (ch i)) \<and> (\<forall>i j. i \<noteq> j \<longrightarrow> own n C (ch i) \<inter> own n C (ch j) = {})"

primrec entry_look :: "nat \<Rightarrow> (u32 \<Rightarrow> tChunk) \<Rightarrow> u8 list \<Rightarrow> tEntry \<Rightarrow> u32 option" where
  "entry_look 0 C a e = entry_val e"
| "entry_look (Suc n) C a e =
     (if is_val e then Some (ucast (valueId e))
      else if is_ext e then entry_look n C a (C (extendedChunkId e) (load_hextet a (7 - n))) else None)"

abbreviation chunk_look :: "nat \<Rightarrow> (u32 \<Rightarrow> tChunk) \<Rightarrow> tChunk \<Rightarrow> u8 list \<Rightarrow> u32 option" where
  "chunk_look n C ch a \<equiv> entry_look n C a (ch (load_hextet a (7 - n)))"

lemma good_Suc: "good (Suc n) C e \<longleftrightarrow> (is_ext e \<longrightarrow> \<not> is_val e \<and> occ (C (extendedChunkId e) 0) \<and>
     extendedChunkId e \<notin> chunk_own n C (C (extendedChunkId e)) \<and> tidy n C (C (extendedChunkId e)))"
  by (simp add: tidy_def)

lemma own_frame:
  assumes "\<And>c. c \<in> own n C e \<Longrightarrow> C' c = C c"
  shows "own n C' e = own n C e \<and> good n C' e = good n C e \<and> entry_look n C' a e = entry_look n C a e"
  using assms
proof (induction n arbitrary: e)
  case (Suc n)
  show ?case
  proof (cases "is_ext e")
    case True
    let ?c = "extendedChunkId e"
    have c: "C' ?c = C ?c" using Suc.prems True by simp
    have "own n C' (C ?c i) = own n C (C ?c i) \<and> good n C' (C ?c i) = good n C (C ?c i) \<and>
        entry_look n C' a (C ?c i) = entry_look n C a (C ?c i)" for i
      using Suc.prems True by (intro Suc.IH) auto
    then show ?thesis by (simp add: c)
  qed simp
qed simp

lemma own_leaf: "\<not> is_ext e \<Longrightarrow> own n C e = {} \<and> good n C e"
  by (cases n) simp_all

lemma look_leaf: "\<not> is_ext e \<Longrightarrow> entry_look n C a e = entry_val e"
  by (cases n) (simp_all add: entry_val_def)

lemma chunk_frame:
  assumes "\<And>c. c \<in> chunk_own n C ch \<Longrightarrow> C' c = C c"
  shows "chunk_own n C' ch = chunk_own n C ch" "tidy n C' ch = tidy n C ch" "chunk_look n C' ch a = chunk_look n C ch a"
    "own n C' (ch i) = own n C (ch i)" "good n C' (ch i) = good n C (ch i)" "entry_look n C' a (ch i) = entry_look n C a (ch i)"
proof -
  have "own n C' (ch i) = own n C (ch i) \<and> good n C' (ch i) = good n C (ch i) \<and> entry_look n C' a (ch i) = entry_look n C a (ch i)" for i a
    using assms by (intro own_frame) auto
  then show "chunk_own n C' ch = chunk_own n C ch" "tidy n C' ch = tidy n C ch" "chunk_look n C' ch a = chunk_look n C ch a"
    "own n C' (ch i) = own n C (ch i)" "good n C' (ch i) = good n C (ch i)" "entry_look n C' a (ch i) = entry_look n C a (ch i)"
    by (simp_all add: tidy_def)
qed

lemma tidyD: "tidy n C ch \<Longrightarrow> good n C (ch i)" "tidy n C ch \<Longrightarrow> i \<noteq> j \<Longrightarrow> own n C (ch i) \<inter> own n C (ch j) = {}"
  by (simp_all add: tidy_def)

section \<open>The pool of chunks\<close>

fun free_chain6 :: "(u32 \<Rightarrow> tChunk) \<Rightarrow> tEntry \<Rightarrow> u32 list \<Rightarrow> bool" where
  "free_chain6 C e [] = (\<not> is_ext e)"
| "free_chain6 C e (i # is) = (is_ext e \<and> extendedChunkId e = i \<and> free_chain6 C (C i 0) is)"

text \<open>
  \<open>U\<close> are the chunks in use, \<open>fl\<close> the free list; the code stores chunk numbers in 24 bits.
\<close>

definition pool :: "lpm6 \<Rightarrow> u32 set \<Rightarrow> u32 list \<Rightarrow> bool" where
  "pool t U fl \<longleftrightarrow> free_chain6 (l6_chunks t) (free_chunk_cache (l6_stats t)) fl \<and> distinct fl \<and> U \<inter> set fl = {} \<and>
     U \<union> set fl = {i. i < max_used_chunk_id (l6_stats t)} \<and>
     unat (max_used_chunk_id (l6_stats t)) \<le> unat (extended_chunks_size (l6_stats t)) \<and>
     unat (extended_chunks_size (l6_stats t)) \<le> 2 ^ 24 \<and> extended_chunks_count (l6_stats t) = of_nat (card U)"

lemma free_chain6_cong: "(\<And>i. i \<in> set fl \<Longrightarrow> C' i 0 = C i 0) \<Longrightarrow> free_chain6 C' e fl = free_chain6 C e fl"
  by (induction fl arbitrary: e) auto

lemma pool_less: "pool t U fl \<Longrightarrow> c \<in> U \<Longrightarrow> c < 0x1000000"
proof -
  assume p: "pool t U fl" and c: "c \<in> U"
  then have "c < max_used_chunk_id (l6_stats t)" by (auto simp: pool_def)
  then have "unat c < 2 ^ 24" using p by (simp add: pool_def word_less_nat_alt)
  then show ?thesis by (simp add: word_less_nat_alt)
qed

lemma pool_finite: "pool t U fl \<Longrightarrow> finite U"
  by (rule finite_subset [of _ UNIV]) simp_all

text \<open>Changes that leave the free list alone.\<close>

lemma pool_frame:
  assumes "pool t U fl" and "l6_stats t' = l6_stats t" and "\<And>c. c \<notin> U \<Longrightarrow> l6_chunks t' c = l6_chunks t c"
  shows "pool t' U fl"
proof -
  have "free_chain6 (l6_chunks t') (free_chunk_cache (l6_stats t)) fl"
    using assms(1,3) free_chain6_cong [of fl "l6_chunks t'" "l6_chunks t"] by (fastforce simp: pool_def)
  then show ?thesis using assms(1,2) by (simp add: pool_def)
qed

lemma link_free_effect:
  assumes "pool t U fl" and "c \<in> U"
  shows "pool (link_free c t) (U - {c}) (c # fl)" "l6_root (link_free c t) = l6_root t"
    "x \<noteq> c \<Longrightarrow> l6_chunks (link_free c t) x = l6_chunks t x" "l6_wait (link_free c t) = l6_wait t"
    "extended_chunks_size (l6_stats (link_free c t)) = extended_chunks_size (l6_stats t)"
proof -
  show "l6_root (link_free c t) = l6_root t" "x \<noteq> c \<Longrightarrow> l6_chunks (link_free c t) x = l6_chunks t x"
    "l6_wait (link_free c t) = l6_wait t" "extended_chunks_size (l6_stats (link_free c t)) = extended_chunks_size (l6_stats t)"
    by (simp_all add: link_free_def Let_def)
  have id: "ucast (ucast c :: 24 word) = c" using pool_less [OF assms] by (rule chunk_id_round_trip)
  have "c \<notin> set fl" using assms by (auto simp: pool_def)
  then have "free_chain6 (l6_chunks (link_free c t)) e fl = free_chain6 (l6_chunks t) e fl" for e
    by (intro free_chain6_cong) (auto simp: link_free_def Let_def)
  then have ch: "free_chain6 (l6_chunks (link_free c t)) (free_chunk_cache (l6_stats t)) fl" using assms(1) by (simp add: pool_def)
  have "card U = Suc (card (U - {c}))" using assms(2) pool_finite [OF assms(1)] by (metis card_Suc_Diff1)
  then show "pool (link_free c t) (U - {c}) (c # fl)"
    using assms ch \<open>c \<notin> set fl\<close> id by (auto simp: pool_def link_free_def Let_def is_ext_def)
qed

lemma newExtendedChunk6_effect:
  assumes p: "pool t U fl" and new: "newExtendedChunk6 t = Some (t', c)"
  shows "\<exists>fl'. pool t' (insert c U) fl'" "c \<notin> U" "l6_chunks t' c = occupied_chunk6" "l6_root t' = l6_root t"
    "x \<noteq> c \<Longrightarrow> l6_chunks t' x = l6_chunks t x" "l6_wait t' = l6_wait t"
    "extended_chunks_size (l6_stats t') = extended_chunks_size (l6_stats t)"
proof -
  let ?s = "l6_stats t"
  show "l6_chunks t' c = occupied_chunk6" "l6_root t' = l6_root t" "x \<noteq> c \<Longrightarrow> l6_chunks t' x = l6_chunks t x" "l6_wait t' = l6_wait t"
    "extended_chunks_size (l6_stats t') = extended_chunks_size ?s"
    using new by (auto simp: newExtendedChunk6_def Let_def split: if_splits)
  have "(\<exists>fl'. pool t' (insert c U) fl') \<and> c \<notin> U"
  proof (cases "is_ext (free_chunk_cache ?s)")
    case True
    then obtain rest where fl: "fl = c # rest" and ch: "free_chain6 (l6_chunks t) (l6_chunks t c 0) rest"
      using p new by (cases fl) (auto simp: pool_def newExtendedChunk6_def Let_def flag_tests)
    have d: "c \<notin> set rest" "distinct rest" "c \<notin> U" "U \<inter> set rest = {}" using p fl by (auto simp: pool_def)
    have t': "t' = t\<lparr>l6_chunks := (l6_chunks t)(c := occupied_chunk6),
        l6_stats := ?s\<lparr>free_chunk_cache := l6_chunks t c 0, extended_chunks_count := extended_chunks_count ?s + 1\<rparr>\<rparr>"
      using new True by (auto simp: newExtendedChunk6_def Let_def flag_tests)
    have "free_chain6 (l6_chunks t') e rest = free_chain6 (l6_chunks t) e rest" for e
      using d(1) by (intro free_chain6_cong) (auto simp: t')
    then have "pool t' (insert c U) rest" using p ch d fl pool_finite [OF p] by (auto simp: pool_def t')
    then show ?thesis using d by blast
  next
    case False
    then have fl: "fl = []" using p by (cases fl) (auto simp: pool_def)
    have c: "c = max_used_chunk_id ?s" and lt: "ucast (max_used_chunk_id ?s) < extended_chunks_size ?s"
      and t': "t' = t\<lparr>l6_chunks := (l6_chunks t)(c := occupied_chunk6),
        l6_stats := ?s\<lparr>max_used_chunk_id := c + 1, extended_chunks_count := extended_chunks_count ?s + 1\<rparr>\<rparr>"
      using new False by (auto simp: newExtendedChunk6_def Let_def flag_tests split: if_splits)
    have U: "U = {i. i < c}" using p fl c by (simp add: pool_def)
    have "unat c < unat (extended_chunks_size ?s)" using lt c by (simp add: word_less_nat_alt unat_ucast_up)
    moreover have sz: "unat (extended_chunks_size ?s) \<le> 2 ^ 24" using p by (simp add: pool_def)
    ultimately have u: "unat (c + 1) = Suc (unat c)" by (simp add: unat_word_ariths)
    have "insert c U = {i. i < c + 1}" using u by (auto simp: U word_less_nat_alt word_unat_eq_iff)
    moreover have "extended_chunks_count ?s + 1 = of_nat (card (insert c U))" using p by (simp add: pool_def U)
    ultimately have "pool t' (insert c U) []"
      unfolding pool_def using p u \<open>unat c < unat (extended_chunks_size ?s)\<close> False by (simp add: t' pool_def)
    then show ?thesis using U by auto
  qed
  then show "\<exists>fl'. pool t' (insert c U) fl'" "c \<notin> U" by simp_all
qed

lemma newExtendedChunk6_None:
  assumes p: "pool t U fl" and new: "newExtendedChunk6 t = None"
  shows "card U = unat (extended_chunks_size (l6_stats t))"
proof -
  let ?s = "l6_stats t"
  have n: "\<not> is_ext (free_chunk_cache ?s)" "\<not> ucast (max_used_chunk_id ?s) < extended_chunks_size ?s"
    using new by (auto simp: newExtendedChunk6_def Let_def flag_tests split: if_splits)
  then have fl: "fl = []" using p by (cases fl) (auto simp: pool_def)
  then have "U = {i. i < max_used_chunk_id ?s}" using p by (simp add: pool_def)
  then have "card U = unat (max_used_chunk_id ?s)" by (simp add: card_words_below)
  then show ?thesis using n(2) p by (simp add: pool_def word_less_nat_alt unat_ucast_up)
qed

section \<open>Freeing a tree\<close>

text \<open>What may differ after chunks of \<open>D\<close> have been changed.\<close>

definition only_chunks :: "u32 set \<Rightarrow> lpm6 \<Rightarrow> lpm6 \<Rightarrow> bool" where
  "only_chunks D t t' \<longleftrightarrow> (\<forall>x. x \<notin> D \<longrightarrow> l6_chunks t' x = l6_chunks t x) \<and> l6_root t' = l6_root t \<and>
     extended_chunks_size (l6_stats t') = extended_chunks_size (l6_stats t)"

lemma only_chunks_refl: "only_chunks D t t"
  by (simp add: only_chunks_def)

lemma only_chunks_trans: "only_chunks D t t1 \<Longrightarrow> only_chunks D' t1 t2 \<Longrightarrow> only_chunks (D \<union> D') t t2"
  by (simp add: only_chunks_def)

lemma only_chunks_mono: "only_chunks D t t' \<Longrightarrow> D \<subseteq> D' \<Longrightarrow> only_chunks D' t t'"
  by (auto simp: only_chunks_def)

text \<open>
  A chunk whose entries have \<open>n\<close> levels below them is freed together with everything it owns, if the
  depth allows more than \<open>n\<close> levels.
\<close>

definition free_spec :: "nat \<Rightarrow> nat \<Rightarrow> bool" where
  "free_spec n m \<longleftrightarrow> (\<forall>c t U fl. pool t U fl \<and> occ (l6_chunks t c 0) \<and> tidy n (l6_chunks t) (l6_chunks t c) \<and>
     c \<notin> chunk_own n (l6_chunks t) (l6_chunks t c) \<and> insert c (chunk_own n (l6_chunks t) (l6_chunks t c)) \<subseteq> U \<longrightarrow>
     (\<exists>t' fl'. free_levels m c t = Some t' \<and> pool t' (U - insert c (chunk_own n (l6_chunks t) (l6_chunks t c))) fl' \<and>
        only_chunks (insert c (chunk_own n (l6_chunks t) (l6_chunks t c))) t t'))"

lemma free_children:
  assumes child: "\<And>k. n = Suc k \<Longrightarrow> free_spec k m"
    and p: "pool t U fl" and tidy: "tidy n (l6_chunks t) (l6_chunks t c)"
    and c: "c \<notin> chunk_own n (l6_chunks t) (l6_chunks t c)" and U: "chunk_own n (l6_chunks t) (l6_chunks t c) \<subseteq> U"
  defines "W \<equiv> \<lambda>A. (\<Union>i \<in> A. own n (l6_chunks t) (l6_chunks t c i))"
  assumes t0: "only_chunks (W A) t t0" "pool t0 (U - W A) fl0" and xs: "distinct xs" "A \<inter> set xs = {}"
  shows "\<exists>t' fl'. fold (\<lambda>i ot. Option.bind ot (\<lambda>t.
       let entrie = l6_chunks t c i
       in if flags entrie AND flagExtended \<noteq> 0 then free_levels m (extendedChunkId entrie) t else Some t)) xs (Some t0) = Some t' \<and>
     only_chunks (W (A \<union> set xs)) t t' \<and> pool t' (U - W (A \<union> set xs)) fl'"
  using t0 xs
proof (induction xs arbitrary: A t0 fl0)
  case (Cons i xs)
  let ?C = "l6_chunks t" let ?e = "?C c i"
  have e: "l6_chunks t0 c i = ?e" using Cons.prems(1) c by (auto simp: only_chunks_def W_def)
  have own: "own n ?C ?e \<subseteq> U - W A"
  proof -
    have "own n ?C ?e \<inter> own n ?C (?C c j) = {}" if "j \<in> A" for j
      using tidyD(2) [OF tidy, of i j] Cons.prems(4) that by auto
    then have "own n ?C ?e \<inter> W A = {}" unfolding W_def by blast
    then show ?thesis using U by auto
  qed
  obtain t1 fl1 where step: "(if is_ext ?e then free_levels m (extendedChunkId ?e) t0 else Some t0) = Some t1"
      and t1: "only_chunks (own n ?C ?e) t0 t1" "pool t1 (U - W A - own n ?C ?e) fl1"
  proof (cases "is_ext ?e")
    case False
    then show ?thesis using that [of t0 fl0] Cons.prems(2) own_leaf [OF False] by (simp add: only_chunks_refl)
  next
    case True
    then obtain k where k: "n = Suc k" using tidyD(1) [OF tidy, of i] by (cases n) auto
    let ?d = "extendedChunkId ?e"
    have same: "l6_chunks t0 x = ?C x" if "x \<in> own n ?C ?e" for x using Cons.prems(1) own that by (auto simp: only_chunks_def)
    note f = own_frame [of n ?C ?e "l6_chunks t0", OF same]
    have g: "good n (l6_chunks t0) ?e" using f tidyD(1) [OF tidy] by simp
    have o: "own n (l6_chunks t0) ?e = insert ?d (chunk_own k (l6_chunks t0) (l6_chunks t0 ?d))" using True k by simp
    then have eq: "insert ?d (chunk_own k (l6_chunks t0) (l6_chunks t0 ?d)) = own n ?C ?e" using f by simp
    have cond: "occ (l6_chunks t0 ?d 0)" "tidy k (l6_chunks t0) (l6_chunks t0 ?d)" "?d \<notin> chunk_own k (l6_chunks t0) (l6_chunks t0 ?d)"
      using g True unfolding k good_Suc by blast+
    have "insert ?d (chunk_own k (l6_chunks t0) (l6_chunks t0 ?d)) \<subseteq> U - W A" using own eq by simp
    with child [OF k, unfolded free_spec_def, rule_format, of t0 "U - W A" fl0 ?d] cond Cons.prems(2)
    obtain t1 fl1 where "free_levels m ?d t0 = Some t1" "pool t1 (U - W A - own n ?C ?e) fl1" "only_chunks (own n ?C ?e) t0 t1"
      unfolding eq by blast
    then show ?thesis using that [of t1 fl1] True by simp
  qed
  have W: "W (insert i A) = W A \<union> own n ?C ?e" by (auto simp: W_def)
  have "only_chunks (W (insert i A)) t t1" using only_chunks_trans [OF Cons.prems(1) t1(1)] by (simp add: W)
  moreover have "pool t1 (U - W (insert i A)) fl1" using t1(2) by (simp add: W Diff_eq Int_assoc)
  moreover have "distinct xs" "insert i A \<inter> set xs = {}" using Cons.prems(3,4) by auto
  ultimately obtain t' fl' where "fold (\<lambda>i ot. Option.bind ot (\<lambda>t.
       let entrie = l6_chunks t c i
       in if flags entrie AND flagExtended \<noteq> 0 then free_levels m (extendedChunkId entrie) t else Some t)) xs (Some t1) = Some t'"
     "only_chunks (W (insert i A \<union> set xs)) t t'" "pool t' (U - W (insert i A \<union> set xs)) fl'"
    using Cons.IH by blast
  moreover have "insert i A \<union> set xs = A \<union> set (i # xs)" by auto
  ultimately show ?case using step e by (auto simp: Let_def flag_tests)
qed auto

lemma free_levels_effect: "n < m \<Longrightarrow> free_spec n m"
proof (induction n arbitrary: m rule: less_induct)
  case (less n)
  then obtain m' where m: "m = Suc m'" by (cases m) auto
  have child: "free_spec k m'" if "n = Suc k" for k using less that m by simp
  show ?case
    unfolding free_spec_def
  proof (intro allI impI, elim conjE)
    fix c :: u32 and t :: lpm6 and U fl
    let ?C = "l6_chunks t" let ?W = "chunk_own n ?C (?C c)"
    assume p: "pool t U fl" and oc: "occ (?C c 0)" and td: "tidy n ?C (?C c)" and c: "c \<notin> ?W" and U: "insert c ?W \<subseteq> U"
    obtain t1 fl1 where f: "fold (\<lambda>i ot. Option.bind ot (\<lambda>t.
         let entrie = l6_chunks t c i
         in if flags entrie AND flagExtended \<noteq> 0 then free_levels m' (extendedChunkId entrie) t else Some t)) entry_indices (Some t) = Some t1"
       and t1: "only_chunks ?W t t1" "pool t1 (U - ?W) fl1"
      using free_children [OF child p td c, of "{}" t fl entry_indices] U p
      by (auto simp: set_entry_indices only_chunks_refl)
    have cU: "c \<in> U - ?W" using U c by simp
    note lf = link_free_effect [OF t1(2) cU]
    have "free_levels m c t = Some (link_free c t1)" using oc by (simp add: m occ_test f)
    moreover have "pool (link_free c t1) (U - insert c ?W) (c # fl1)"
    proof -
      have "U - ?W - {c} = U - insert c ?W" by auto
      then show ?thesis using lf(1) by simp
    qed
    moreover have "only_chunks (insert c ?W) t (link_free c t1)"
      using t1(1) lf(2,3,5) by (auto simp: only_chunks_def)
    ultimately show "\<exists>t' fl'. free_levels m c t = Some t' \<and> pool t' (U - insert c ?W) fl' \<and> only_chunks (insert c ?W) t t'" by blast
  qed
qed

section \<open>Steps on a chunk\<close>

fun ref_set :: "chunk_ref \<Rightarrow> u32 set" where
  "ref_set Root = {}"
| "ref_set (Extended c) = {c}"

abbreviation owned :: "nat \<Rightarrow> lpm6 \<Rightarrow> chunk_ref \<Rightarrow> u32 set" where
  "owned n t r \<equiv> chunk_own n (l6_chunks t) (get_chunk t r)"

abbreviation looked :: "nat \<Rightarrow> lpm6 \<Rightarrow> chunk_ref \<Rightarrow> u8 list \<Rightarrow> u32 option" where
  "looked n t r a \<equiv> chunk_look n (l6_chunks t) (get_chunk t r) a"

text \<open>The chunk \<open>r\<close> is the root of a tree of \<open>n\<close> more levels within the chunks \<open>U\<close> in use.\<close>

definition rooted :: "nat \<Rightarrow> chunk_ref \<Rightarrow> lpm6 \<Rightarrow> u32 set \<Rightarrow> bool" where
  "rooted n r t U \<longleftrightarrow> (\<exists>fl. pool t U fl) \<and> tidy n (l6_chunks t) (get_chunk t r) \<and> owned n t r \<subseteq> U \<and>
     ref_set r \<subseteq> U - owned n t r \<and> (r \<noteq> Root \<longrightarrow> occ (get_chunk t r 0))"

text \<open>
  What a step on the chunk \<open>r\<close> may do: exchange the chunks it owns for others, without touching the rest
  of the chunks in use.
\<close>

definition step_to :: "nat \<Rightarrow> chunk_ref \<Rightarrow> lpm6 \<Rightarrow> u32 set \<Rightarrow> lpm6 \<Rightarrow> u32 set \<Rightarrow> bool" where
  "step_to n r t U t' U' \<longleftrightarrow> rooted n r t' U' \<and> U' = (U - owned n t r) \<union> owned n t' r \<and>
     owned n t' r \<inter> (U - owned n t r) = {} \<and> (\<forall>x \<in> U - owned n t r - ref_set r. l6_chunks t' x = l6_chunks t x) \<and>
     (r \<noteq> Root \<longrightarrow> l6_root t' = l6_root t) \<and> extended_chunks_size (l6_stats t') = extended_chunks_size (l6_stats t)"

lemma put_chunk_sel [simp]:
  "get_chunk (put_chunk t r ch) r = ch" "l6_stats (put_chunk t r ch) = l6_stats t"
  "x \<notin> ref_set r \<Longrightarrow> l6_chunks (put_chunk t r ch) x = l6_chunks t x"
  "r \<noteq> Root \<Longrightarrow> l6_root (put_chunk t r ch) = l6_root t"
  by (cases r; simp)+

lemma step_to_refl: "rooted n r t U \<Longrightarrow> step_to n r t U t U"
  by (auto simp: step_to_def rooted_def)

lemma step_to_trans:
  assumes "step_to n r t U t1 U1" and "step_to n r t1 U1 t2 U2"
  shows "step_to n r t U t2 U2"
proof -
  have u: "U1 - owned n t1 r = U - owned n t r" using assms(1) by (auto simp: step_to_def)
  show ?thesis
    using assms unfolding step_to_def u by auto
qed

lemma wait_step [simp]:
  "rooted n r (t\<lparr>l6_wait := b\<rparr>) U = rooted n r t U" "step_to n r t U (t'\<lparr>l6_wait := b\<rparr>) U' = step_to n r t U t' U'"
  "get_chunk (t\<lparr>l6_wait := b\<rparr>) r = get_chunk t r"
proof -
  show g: "get_chunk (t\<lparr>l6_wait := b\<rparr>) r = get_chunk t r" for t by (cases r) simp_all
  have "pool (t\<lparr>l6_wait := b\<rparr>) U fl = pool t U fl" for t U fl by (simp add: pool_def)
  then show r: "rooted n r (t\<lparr>l6_wait := b\<rparr>) U = rooted n r t U" for t U by (simp add: rooted_def g)
  show "step_to n r t U (t'\<lparr>l6_wait := b\<rparr>) U' = step_to n r t U t' U'" by (simp add: step_to_def r g)
qed

text \<open>Exchanging one entry, and the tree below it, for another.\<close>

lemma exchange_entry:
  assumes td: "tidy n C ch" and same: "\<And>x. x \<in> chunk_own n C ch - own n C (ch i) \<Longrightarrow> C' x = C x"
    and g: "good n C' e" and disj: "own n C' e \<inter> (chunk_own n C ch - own n C (ch i)) = {}"
  shows "tidy n C' (ch(i := e))" "chunk_own n C' (ch(i := e)) = (chunk_own n C ch - own n C (ch i)) \<union> own n C' e"
    "chunk_look n C' (ch(i := e)) a = (if load_hextet a (7 - n) = i then entry_look n C' a e else chunk_look n C ch a)"
proof -
  have d: "own n C (ch j) \<inter> own n C (ch i) = {}" if "j \<noteq> i" for j using tidyD(2) [OF td that] .
  have f: "own n C' (ch j) = own n C (ch j) \<and> good n C' (ch j) = good n C (ch j) \<and> entry_look n C' a (ch j) = entry_look n C a (ch j)"
    if "j \<noteq> i" for j a
    using d [OF that] by (intro own_frame same) auto
  have o: "own n C' ((ch(i := e)) j) = (if j = i then own n C' e else own n C (ch j))" for j using f by simp
  have u: "chunk_own n C ch - own n C (ch i) = (\<Union>j \<in> - {i}. own n C (ch j))" using d by blast
  show "chunk_own n C' (ch(i := e)) = (chunk_own n C ch - own n C (ch i)) \<union> own n C' e"
    unfolding u o by (auto split: if_splits)
  show "chunk_look n C' (ch(i := e)) a = (if load_hextet a (7 - n) = i then entry_look n C' a e else chunk_look n C ch a)"
    using f by simp
  have "good n C' ((ch(i := e)) j)" for j using g f tidyD(1) [OF td, of j] by simp
  moreover have "own n C' ((ch(i := e)) j) \<inter> own n C' ((ch(i := e)) k) = {}" if "j \<noteq> k" for j k
    using disj tidyD(2) [OF td that] that unfolding o u by auto
  ultimately show "tidy n C' (ch(i := e))" unfolding tidy_def by blast
qed

lemma step_to_entry:
  assumes r: "rooted n r t U" and ch: "get_chunk t' r = (get_chunk t r)(i := e)"
    and same: "\<And>x. x \<in> U - own n (l6_chunks t) (get_chunk t r i) - ref_set r \<Longrightarrow> l6_chunks t' x = l6_chunks t x"
    and g: "good n (l6_chunks t') e" and oc: "occ e = occ (get_chunk t r i)"
    and disj: "own n (l6_chunks t') e \<inter> (U - own n (l6_chunks t) (get_chunk t r i)) = {}"
    and U': "U' = (U - own n (l6_chunks t) (get_chunk t r i)) \<union> own n (l6_chunks t') e"
    and p: "pool t' U' fl" and root: "r \<noteq> Root \<Longrightarrow> l6_root t' = l6_root t"
    and sz: "extended_chunks_size (l6_stats t') = extended_chunks_size (l6_stats t)"
  shows "step_to n r t U t' U'"
    "looked n t' r a = (if load_hextet a (7 - n) = i then entry_look n (l6_chunks t') a e else looked n t r a)"
proof -
  let ?C = "l6_chunks t" let ?C' = "l6_chunks t'" let ?o = "own n ?C (get_chunk t r i)"
  have td: "tidy n ?C (get_chunk t r)" and oU: "owned n t r \<subseteq> U" and ref: "ref_set r \<subseteq> U - owned n t r"
    using r by (simp_all add: rooted_def)
  have oi: "?o \<subseteq> owned n t r" by auto
  have s: "?C' x = ?C x" if "x \<in> owned n t r - ?o" for x using that oU ref by (intro same) auto
  have d: "own n ?C' e \<inter> (owned n t r - ?o) = {}" using disj oU by auto
  note ex = exchange_entry [OF td s g d, folded ch]
  show "looked n t' r a = (if load_hextet a (7 - n) = i then entry_look n ?C' a e else looked n t r a)"
    using ex(3) .
  have o': "owned n t' r = (owned n t r - ?o) \<union> own n ?C' e" using ex(2) .
  have "rooted n r t' U'"
    unfolding rooted_def o' U'
  proof (intro conjI impI)
    show "\<exists>fl. pool t' (U - ?o \<union> own n ?C' e) fl" using p U' by blast
    show "tidy n ?C' (get_chunk t' r)" using ex(1) .
    show "owned n t r - ?o \<union> own n ?C' e \<subseteq> U - ?o \<union> own n ?C' e" using oU by auto
    show "ref_set r \<subseteq> U - ?o \<union> own n ?C' e - (owned n t r - ?o \<union> own n ?C' e)" using ref oi disj by auto
    show "occ (get_chunk t' r 0)" if "r \<noteq> Root" using r that oc by (auto simp: rooted_def ch)
  qed
  moreover have "U' = (U - owned n t r) \<union> owned n t' r" unfolding U' o' using oU oi by auto
  moreover have "owned n t' r \<inter> (U - owned n t r) = {}" unfolding o' using disj oi by auto
  moreover have "\<forall>x \<in> U - owned n t r - ref_set r. ?C' x = ?C x" using same oi by auto
  ultimately show "step_to n r t U t' U'" unfolding step_to_def using root sz by simp
qed

section \<open>Overwriting entries\<close>

lemma only_chunks_get: "only_chunks D t t' \<Longrightarrow> ref_set r \<inter> D = {} \<Longrightarrow> get_chunk t' r = get_chunk t r"
  by (cases r) (auto simp: only_chunks_def)

lemma pool_put_chunk:
  assumes "pool t U fl" and "ref_set r \<subseteq> U"
  shows "pool (put_chunk t r ch) U fl"
proof (rule pool_frame [OF assms(1)])
  fix c assume "c \<notin> U"
  then show "l6_chunks (put_chunk t r ch) c = l6_chunks t c" using assms(2) by (intro put_chunk_sel(3)) auto
qed simp

text \<open>The tree below an extended entry is freed once the entry no longer refers to it.\<close>

lemma free_below:
  assumes r: "rooted n r t U" and n: "n \<le> 7" and ext: "is_ext (get_chunk t r i)"
  defines "D \<equiv> own n (l6_chunks t) (get_chunk t r i)"
  obtains t' fl where
    "freeExtendedChunk6 (extendedChunkId (get_chunk t r i)) (put_entry t r i e) = Some t'"
    "pool t' (U - D) fl" "only_chunks D (put_entry t r i e) t'"
proof -
  let ?t = "put_entry t r i e" let ?C = "l6_chunks t" let ?d = "extendedChunkId (get_chunk t r i)"
  obtain fl where p: "pool t U fl" using r by (auto simp: rooted_def)
  have td: "tidy n ?C (get_chunk t r)" and oU: "owned n t r \<subseteq> U" and ref: "ref_set r \<subseteq> U - owned n t r"
    using r by (simp_all add: rooted_def)
  have g: "good n ?C (get_chunk t r i)" using tidyD(1) [OF td] .
  then obtain k where k: "n = Suc k" using ext by (cases n) auto
  have DU: "D \<subseteq> owned n t r" by (auto simp: D_def)
  have same: "l6_chunks ?t x = ?C x" if "x \<in> D" for x using that DU ref by (intro put_chunk_sel(3)) auto
  have D: "D = insert ?d (chunk_own k ?C (?C ?d))" using ext by (simp add: D_def k)
  have cond: "occ (?C ?d 0)" "tidy k ?C (?C ?d)" "?d \<notin> chunk_own k ?C (?C ?d)" using g ext unfolding k good_Suc by blast+
  have d: "l6_chunks ?t ?d = ?C ?d" using same D by auto
  have s: "l6_chunks ?t x = ?C x" if "x \<in> chunk_own k ?C (?C ?d)" for x using same D that by auto
  have f: "tidy k (l6_chunks ?t) (?C ?d) = tidy k ?C (?C ?d)" "chunk_own k (l6_chunks ?t) (?C ?d) = chunk_own k ?C (?C ?d)"
    using chunk_frame(1,2) [of k ?C "?C ?d" "l6_chunks ?t", OF s] by simp_all
  have "pool ?t U fl" using pool_put_chunk [OF p] ref by auto
  then have pre: "pool ?t U fl \<and> occ (l6_chunks ?t ?d 0) \<and> tidy k (l6_chunks ?t) (l6_chunks ?t ?d) \<and>
      ?d \<notin> chunk_own k (l6_chunks ?t) (l6_chunks ?t ?d) \<and> insert ?d (chunk_own k (l6_chunks ?t) (l6_chunks ?t ?d)) \<subseteq> U"
    unfolding d f D [symmetric] using cond subset_trans [OF DU oU] by blast
  have "free_spec k 8" using n k by (intro free_levels_effect) simp
  from this [unfolded free_spec_def, rule_format, OF pre] obtain t' fl' where "free_levels 8 ?d ?t = Some t'" "pool t' (U - D) fl'"
      "only_chunks D ?t t'"
    unfolding d f D [symmetric] by blast
  then show thesis by (intro that [of t' fl']) (simp_all add: freeExtendedChunk6_def)
qed

lemma overwrite_entry_effect:
  assumes r: "rooted n r t U" and n: "n \<le> 7" and fl: "\<not> bit fl 0"
  obtains t' where "overwrite_entry r i fl val t = Some t'"
    "step_to n r t U t' (U - own n (l6_chunks t) (get_chunk t r i))"
    "\<And>a. looked n t' r a = (if load_hextet a (7 - n) = i then new_val fl val else looked n t r a)"
proof -
  let ?e = "updateEntry (get_chunk t r i) fl val" let ?D = "own n (l6_chunks t) (get_chunk t r i)" let ?t = "put_entry t r i ?e"
  have ref: "ref_set r \<subseteq> U - owned n t r" and oU: "owned n t r \<subseteq> U" using r by (simp_all add: rooted_def)
  have e: "own n C ?e = {}" "good n C ?e" "entry_look n C a ?e = new_val fl val" for C a
    using own_leaf [of ?e n C] look_leaf [of ?e n C a] fl by (simp_all add: entry_val_def new_val_def)
  obtain t' fl' where t': "(if is_ext (get_chunk t r i) then freeExtendedChunk6 (extendedChunkId (get_chunk t r i)) ?t else Some ?t) = Some t'"
      and p: "pool t' (U - ?D) fl'" and oc: "only_chunks ?D ?t t'"
  proof (cases "is_ext (get_chunk t r i)")
    case True
    then show ?thesis using free_below [OF r n True, of ?e] that by auto
  next
    case False
    obtain fl0 where "pool t U fl0" using r by (auto simp: rooted_def)
    moreover have "ref_set r \<subseteq> U" using ref by blast
    ultimately have "pool ?t U fl0" by (rule pool_put_chunk)
    then show ?thesis using that [of ?t fl0] False own_leaf [OF False] by (simp add: only_chunks_refl)
  qed
  have ch: "get_chunk t' r = (get_chunk t r)(i := ?e)" using only_chunks_get [OF oc, of r] ref by auto
  have same: "l6_chunks t' x = l6_chunks t x" if "x \<in> U - ?D - ref_set r" for x
    using oc that by (simp add: only_chunks_def)
  have root: "l6_root t' = l6_root t" if "r \<noteq> Root" using oc that by (simp add: only_chunks_def)
  have sz: "extended_chunks_size (l6_stats t') = extended_chunks_size (l6_stats t)" using oc by (simp add: only_chunks_def)
  have "step_to n r t U t' (U - ?D)" "looked n t' r a = (if load_hextet a (7 - n) = i then new_val fl val else looked n t r a)" for a
    using step_to_entry(1) [OF r ch same e(2) _ _ _ _ root sz, of "U - ?D" fl']
      step_to_entry(2) [OF r ch same e(2) _ _ _ _ root sz, of "U - ?D" fl' a] p e(1,3) by simp_all
  moreover have "overwrite_entry r i fl val t = Some (if is_ext (get_chunk t r i) then t'\<lparr>l6_wait := True\<rparr> else t')"
    using t' by (simp add: overwrite_entry_def Let_def flag_tests split: if_splits)
  ultimately show thesis using that by (cases "is_ext (get_chunk t r i)") auto
qed

lemma overwrite_entries_effect:
  assumes r: "rooted n r t U" and n: "n \<le> 7" and fl: "\<not> bit fl 0"
  shows "\<exists>t' U'. fold (\<lambda>mask_i ot. Option.bind ot (overwrite_entry r (h + of_nat mask_i) fl val)) xs (Some t) = Some t' \<and>
    step_to n r t U t' U' \<and>
    (\<forall>a. looked n t' r a = (if \<exists>j \<in> set xs. load_hextet a (7 - n) = h + of_nat j then new_val fl val else looked n t r a))"
  using r
proof (induction xs arbitrary: t U)
  case Nil
  then have "step_to n r t U t U" by (rule step_to_refl)
  then show ?case by auto
next
  case (Cons j xs)
  obtain t1 where t1: "overwrite_entry r (h + of_nat j) fl val t = Some t1"
      "step_to n r t U t1 (U - own n (l6_chunks t) (get_chunk t r (h + of_nat j)))"
      "\<And>a. looked n t1 r a = (if load_hextet a (7 - n) = h + of_nat j then new_val fl val else looked n t r a)"
    using overwrite_entry_effect [OF Cons.prems n fl] by blast
  then have "rooted n r t1 (U - own n (l6_chunks t) (get_chunk t r (h + of_nat j)))" unfolding step_to_def by blast
  from Cons.IH [OF this] obtain t' U' where
    t': "fold (\<lambda>mask_i ot. Option.bind ot (overwrite_entry r (h + of_nat mask_i) fl val)) xs (Some t1) = Some t'"
      "step_to n r t1 (U - own n (l6_chunks t) (get_chunk t r (h + of_nat j))) t' U'"
      "\<forall>a. looked n t' r a = (if \<exists>j \<in> set xs. load_hextet a (7 - n) = h + of_nat j then new_val fl val else looked n t1 r a)"
    by blast
  have "looked n t' r a = (if \<exists>j \<in> set (j # xs). load_hextet a (7 - n) = h + of_nat j then new_val fl val else looked n t r a)" for a
    unfolding t'(3) [rule_format] t1(3) by auto
  then show ?case using t1(1) t'(1) step_to_trans [OF t1(2) t'(2)] by auto
qed

section \<open>Below an entry\<close>

lemma rootedD:
  assumes "rooted n r t U"
  shows "tidy n (l6_chunks t) (get_chunk t r)" "owned n t r \<subseteq> U" "ref_set r \<subseteq> U" "ref_set r \<inter> owned n t r = {}"
    "\<exists>fl. pool t U fl"
  using assms by (auto simp: rooted_def)

lemma below_entry:
  assumes r: "rooted (Suc k) r t U" and ext: "is_ext (get_chunk t r i)"
  defines "d \<equiv> extendedChunkId (get_chunk t r i)"
  shows "rooted k (Extended d) t U" "own (Suc k) (l6_chunks t) (get_chunk t r i) = insert d (owned k t (Extended d))"
    "d \<notin> owned k t (Extended d)" "ref_set r \<inter> insert d (owned k t (Extended d)) = {}" "\<not> is_val (get_chunk t r i)"
proof -
  have g: "good (Suc k) (l6_chunks t) (get_chunk t r i)" using rootedD(1) [OF r] by (rule tidyD)
  have c: "occ (l6_chunks t d 0)" "tidy k (l6_chunks t) (l6_chunks t d)" "\<not> is_val (get_chunk t r i)"
      and d: "d \<notin> owned k t (Extended d)"
    using g ext unfolding good_Suc d_def get_chunk.simps by blast+
  show o: "own (Suc k) (l6_chunks t) (get_chunk t r i) = insert d (owned k t (Extended d))" using ext by (simp add: d_def)
  show "d \<notin> owned k t (Extended d)" "\<not> is_val (get_chunk t r i)" by fact+
  have sub: "insert d (owned k t (Extended d)) \<subseteq> owned (Suc k) t r" unfolding o [symmetric] by auto
  then have "insert d (owned k t (Extended d)) \<subseteq> U" using rootedD(2) [OF r] by (rule subset_trans)
  then show "rooted k (Extended d) t U" using rootedD(5) [OF r] c d unfolding rooted_def by simp
  show "ref_set r \<inter> insert d (owned k t (Extended d)) = {}" using sub rootedD(4) [OF r] by (meson disjoint_iff subsetD)
qed

text \<open>A step on the chunk of an extended entry is a step on the chunk of the entry.\<close>

lemma step_below:
  assumes r: "rooted (Suc k) r t U" and ext: "is_ext (get_chunk t r i)"
  defines "d \<equiv> extendedChunkId (get_chunk t r i)"
  assumes st: "step_to k (Extended d) t U t' U'"
  shows "step_to (Suc k) r t U t' U'" "get_chunk t' r = get_chunk t r"
    "looked (Suc k) t' r a = (if load_hextet a (7 - Suc k) = i then looked k t' (Extended d) a else looked (Suc k) t r a)"
proof -
  let ?e = "get_chunk t r i"
  note b = below_entry [OF r ext, folded d_def]
  have same: "l6_chunks t' x = l6_chunks t x" if "x \<in> U - insert d (owned k t (Extended d))" for x
    using st that by (auto simp: step_to_def)
  have root: "l6_root t' = l6_root t" and sz: "extended_chunks_size (l6_stats t') = extended_chunks_size (l6_stats t)"
    using st by (simp_all add: step_to_def)
  show ch: "get_chunk t' r = get_chunk t r" using rootedD(3) [OF r] b(4) root same by (cases r) auto
  have r': "rooted k (Extended d) t' U'" using st unfolding step_to_def by blast
  obtain fl where p: "pool t' U' fl" using r' unfolding rooted_def by blast
  have o': "own (Suc k) (l6_chunks t') ?e = insert d (owned k t' (Extended d))" using ext by (simp add: d_def)
  have d': "d \<in> U' - owned k t' (Extended d)" using r' by (simp add: rooted_def)
  have dU: "d \<in> U" using b(1) by (simp add: rooted_def)
  have g: "good (Suc k) (l6_chunks t') ?e"
    using r' b(5) d' unfolding good_Suc d_def [symmetric] rooted_def by simp
  have U': "U' = (U - owned k t (Extended d)) \<union> owned k t' (Extended d)"
      and disj: "owned k t' (Extended d) \<inter> (U - owned k t (Extended d)) = {}" using st unfolding step_to_def by blast+
  have "U' = (U - own (Suc k) (l6_chunks t) ?e) \<union> own (Suc k) (l6_chunks t') ?e"
    unfolding o' b(2) using dU d' U' by auto
  moreover have "own (Suc k) (l6_chunks t') ?e \<inter> (U - own (Suc k) (l6_chunks t) ?e) = {}"
    unfolding o' b(2) using disj by auto
  moreover have "l6_chunks t' x = l6_chunks t x" if "x \<in> U - own (Suc k) (l6_chunks t) ?e - ref_set r" for x
    using that unfolding b(2) by (intro same) auto
  moreover have "get_chunk t' r = (get_chunk t r)(i := ?e)" using ch by simp
  ultimately have "step_to (Suc k) r t U t' U'"
    "looked (Suc k) t' r a = (if load_hextet a (7 - Suc k) = i then entry_look (Suc k) (l6_chunks t') a ?e else looked (Suc k) t r a)"
    using step_to_entry(1) [OF r _ _ g _ _ _ p root sz] step_to_entry(2) [OF r _ _ g _ _ _ p root sz] by blast+
  moreover have "entry_look (Suc k) (l6_chunks t') a ?e = looked k t' (Extended d) a" using ext b(5) by (simp add: d_def)
  ultimately show "step_to (Suc k) r t U t' U'"
    "looked (Suc k) t' r a = (if load_hextet a (7 - Suc k) = i then looked k t' (Extended d) a else looked (Suc k) t r a)"
    by simp_all
qed

section \<open>Prefixes by groups of sixteen bits\<close>

text \<open>The first \<open>m\<close> bits from the group \<open>s\<close> on agree; the bits after the first \<open>m\<close> are zero.\<close>

definition agree :: "nat \<Rightarrow> nat \<Rightarrow> u8 list \<Rightarrow> u8 list \<Rightarrow> bool" where
  "agree s m addr a \<longleftrightarrow> (\<forall>i < m. ipv6_get_bit a (16 * s + i) = ipv6_get_bit addr (16 * s + i))"

definition zero_from :: "nat \<Rightarrow> nat \<Rightarrow> u8 list \<Rightarrow> bool" where
  "zero_from s m addr \<longleftrightarrow> (\<forall>i. m \<le> i \<and> 16 * s + i < 128 \<longrightarrow> \<not> ipv6_get_bit addr (16 * s + i))"

lemma load_hextet_value: "load_hextet a s = push_bit 8 (ucast (a ! (2 * s))) OR ucast (a ! (2 * s + 1))"
proof (rule bit_word_eqI)
  fix n assume n: "n < LENGTH(16)"
  have b: "bit (x :: u8) n \<Longrightarrow> n < 8" for x n using bit_imp_le_length [of x n] by simp
  have m: "(0xFF :: u16) = mask 8" by (simp add: mask_eq_exp_minus_1)
  show "bit (load_hextet a s) n = bit (push_bit 8 (ucast (a ! (2 * s))) OR ucast (a ! (2 * s + 1)) :: u16) n"
    using n b unfolding load_hextet_def be_to_cpu_16_def m
    by (cases "n < 8") (auto simp: bit_or_iff bit_push_bit_iff bit_and_iff bit_mask_iff bit_drop_bit_eq bit_ucast_iff)
qed

lemma load_hextet_bit:
  assumes "ipv6_wf a" and "s < 8" and "i < 16"
  shows "bit (load_hextet a s) (15 - i) = ipv6_get_bit a (16 * s + i)"
proof -
  have b: "bit (x :: u8) n \<Longrightarrow> n < 8" for x n using bit_imp_le_length [of x n] by simp
  show ?thesis
  proof (cases "i < 8")
    case True
    have "ipv6_get_bit a (8 * (2 * s) + i) = bit (a ! (2 * s)) (7 - i)" using assms True by (intro ipv6_get_bit_byte) auto
    moreover have "8 * (2 * s) + i = 16 * s + i" by simp
    moreover have "\<not> bit (a ! (2 * s + 1)) (15 - i)" using b [of "a ! (2 * s + 1)" "15 - i"] True by auto
    moreover have "15 - i - 8 = 7 - i" "8 \<le> 15 - i" "15 - i < 16" "7 - i < 16" using True by auto
    ultimately show ?thesis using True by (simp add: load_hextet_value bit_or_iff bit_push_bit_iff bit_ucast_iff)
  next
    case False
    have "ipv6_get_bit a (8 * (2 * s + 1) + (i - 8)) = bit (a ! (2 * s + 1)) (7 - (i - 8))" using assms False by (intro ipv6_get_bit_byte) auto
    moreover have "8 * (2 * s + 1) + (i - 8) = 16 * s + i" "7 - (i - 8) = 15 - i" "\<not> 8 \<le> 15 - i" "15 - i < 16" using False assms by auto
    ultimately show ?thesis using False by (simp add: load_hextet_value bit_or_iff bit_push_bit_iff bit_ucast_iff)
  qed
qed

lemma agree_group:
  assumes "ipv6_wf a" and "ipv6_wf addr" and "s < 8" and "m \<le> 16"
  shows "drop_bit (16 - m) (load_hextet a s) = drop_bit (16 - m) (load_hextet addr s) \<longleftrightarrow> agree s m addr a"
proof -
  have "drop_bit (16 - m) (load_hextet a s) = drop_bit (16 - m) (load_hextet addr s) \<longleftrightarrow>
      (\<forall>n < 16. n \<ge> 16 - m \<longrightarrow> bit (load_hextet a s) n = bit (load_hextet addr s) n)"
    unfolding drop_bit_eq_iff_bits using bit_imp_le_length [of "load_hextet a s"] bit_imp_le_length [of "load_hextet addr s"] by fastforce
  also have "\<dots> \<longleftrightarrow> (\<forall>i < m. bit (load_hextet a s) (15 - i) = bit (load_hextet addr s) (15 - i))"
  proof safe
    fix n assume *: "\<forall>i < m. bit (load_hextet a s) (15 - i) = bit (load_hextet addr s) (15 - i)" and n: "n < 16" "16 - m \<le> n"
    have "15 - n < m" "15 - (15 - n) = n" using n assms(4) by auto
    then show "bit (load_hextet a s) n \<Longrightarrow> bit (load_hextet addr s) n" "bit (load_hextet addr s) n \<Longrightarrow> bit (load_hextet a s) n"
      using * by metis+
  qed (use assms(4) in auto)
  also have "\<dots> \<longleftrightarrow> agree s m addr a" unfolding agree_def using assms load_hextet_bit by simp
  finally show ?thesis .
qed

lemma agree_split:
  assumes "ipv6_wf a" and "ipv6_wf addr" and "s < 8" and "16 < m"
  shows "agree s m addr a \<longleftrightarrow> load_hextet a s = load_hextet addr s \<and> agree (Suc s) (m - 16) addr a"
proof -
  have "agree s m addr a \<longleftrightarrow> agree s 16 addr a \<and> agree (Suc s) (m - 16) addr a"
  proof (unfold agree_def, safe)
    fix i assume *: "\<forall>i < m. ipv6_get_bit a (16 * s + i) = ipv6_get_bit addr (16 * s + i)" and "i < m - 16"
    then have "16 + i < m" by simp
    with * have "ipv6_get_bit a (16 * s + (16 + i)) = ipv6_get_bit addr (16 * s + (16 + i))" by blast
    then show "ipv6_get_bit a (16 * Suc s + i) \<Longrightarrow> ipv6_get_bit addr (16 * Suc s + i)"
      "ipv6_get_bit addr (16 * Suc s + i) \<Longrightarrow> ipv6_get_bit a (16 * Suc s + i)" by (simp_all add: algebra_simps)
  next
    fix i assume l: "\<forall>i < 16. ipv6_get_bit a (16 * s + i) = ipv6_get_bit addr (16 * s + i)"
      and h: "\<forall>i < m - 16. ipv6_get_bit a (16 * Suc s + i) = ipv6_get_bit addr (16 * Suc s + i)" and i: "i < m"
    have "ipv6_get_bit a (16 * s + i) = ipv6_get_bit addr (16 * s + i)"
    proof (cases "i < 16")
      case False
      then have "16 * s + i = 16 * Suc s + (i - 16)" "i - 16 < m - 16" using i assms(4) by auto
      then show ?thesis using h by metis
    qed (use l in simp)
    then show "ipv6_get_bit a (16 * s + i) \<Longrightarrow> ipv6_get_bit addr (16 * s + i)"
      "ipv6_get_bit addr (16 * s + i) \<Longrightarrow> ipv6_get_bit a (16 * s + i)" by simp_all
  qed (use assms(4) in auto)
  then show ?thesis using agree_group [OF assms(1-3), of 16] by simp
qed

lemma zero_from_split: "16 < m \<Longrightarrow> zero_from s m addr \<Longrightarrow> zero_from (Suc s) (m - 16) addr"
proof (unfold zero_from_def, intro allI impI)
  fix i assume m: "16 < m" and *: "\<forall>i. m \<le> i \<and> 16 * s + i < 128 \<longrightarrow> \<not> ipv6_get_bit addr (16 * s + i)"
    and i: "m - 16 \<le> i \<and> 16 * Suc s + i < 128"
  have "\<not> ipv6_get_bit addr (16 * s + (16 + i))" using i m by (intro * [rule_format]) (simp add: le_diff_conv add.commute)
  then show "\<not> ipv6_get_bit addr (16 * Suc s + i)" by (simp add: algebra_simps)
qed

lemma zero_from_aligned:
  assumes "ipv6_wf addr" and "s < 8" and "m \<le> 16" and "zero_from s m addr"
  shows "take_bit (16 - m) (load_hextet addr s) = 0"
proof (rule bit_word_eqI)
  fix n assume n: "n < LENGTH(16)"
  have "\<not> bit (load_hextet addr s) n" if "n < 16 - m"
  proof -
    have "\<not> ipv6_get_bit addr (16 * s + (15 - n))" using assms(2) that by (intro assms(4) [unfolded zero_from_def, rule_format]) linarith
    then show ?thesis using load_hextet_bit [OF assms(1,2), of "15 - n"] that by simp
  qed
  then show "bit (take_bit (16 - m) (load_hextet addr s)) n = bit 0 n" by (auto simp: bit_take_bit_iff)
qed

lemma group_range:
  assumes "ipv6_wf a" and "ipv6_wf addr" and "s < 8" and "m \<le> 16" and "zero_from s m addr"
  shows "(\<exists>j \<in> set [0..<2 ^ (16 - m)]. load_hextet a s = load_hextet addr s + of_nat j) \<longleftrightarrow> agree s m addr a"
  using aligned_range [OF zero_from_aligned [OF assms(2-5)], of "load_hextet a s"] agree_group [OF assms(1-4)] by auto

section \<open>The outcome of an update\<close>

definition fits :: "u32 option \<Rightarrow> bool" where
  "fits v \<longleftrightarrow> (\<forall>x. v = Some x \<longrightarrow> x < 0x1000000)"

text \<open>
  From the chunk \<open>r\<close> on, an update of the next \<open>m\<close> bits writes the addresses that agree, or finds no room
  and changes nothing that can be looked up.
\<close>

definition outcome6 :: "nat \<Rightarrow> u32 option \<Rightarrow> u8 list \<Rightarrow> nat \<Rightarrow> chunk_ref \<Rightarrow> lpm6 \<Rightarrow> u32 set \<Rightarrow> eResult \<Rightarrow> lpm6 \<Rightarrow> bool" where
  "outcome6 n v addr m r t U res t' \<longleftrightarrow> (\<exists>U'. step_to n r t U t' U') \<and>
     (res = success \<and> (\<forall>a. ipv6_wf a \<longrightarrow> looked n t' r a = (if agree (7 - n) m addr a then v else looked n t r a)) \<or>
      res = isFull \<and> (\<forall>a. ipv6_wf a \<longrightarrow> looked n t' r a = looked n t r a) \<and>
        unat (extended_chunks_size (l6_stats t)) < card U + n)"

lemma outcome6_wait [simp]: "outcome6 n v addr m r t U res (t'\<lparr>l6_wait := b\<rparr>) = outcome6 n v addr m r t U res t'"
  by (simp add: outcome6_def)

lemma new_entry: "\<not> bit (new_flags v) 0" "fits v \<Longrightarrow> new_val (new_flags v) (new_value v) = v"
  by (auto simp: new_flags_def new_val_def new_value_def fits_def chunk_id_round_trip split: option.splits)

lemma leaf_is_look: "leaf_is v e \<Longrightarrow> entry_look n C a e = v"
  by (cases n) (auto simp: leaf_is_def entry_val_def split: option.splits)

lemma set_group_outcome:
  assumes r: "rooted n r t U" and n: "n \<le> 7" and wf: "ipv6_wf addr" and m: "unat msk \<le> 16"
    and z: "zero_from (7 - n) (unat msk) addr" and v: "fits v"
  obtains t' where "overwrite_entries r (load_hextet addr (7 - n)) msk (new_flags v) (new_value v) t = Some t'"
    "outcome6 n v addr (unat msk) r t U success t'"
proof -
  obtain t' U' where t': "overwrite_entries r (load_hextet addr (7 - n)) msk (new_flags v) (new_value v) t = Some t'"
      and st: "step_to n r t U t' U'"
      and look: "\<forall>a. looked n t' r a = (if \<exists>j \<in> set [0..<2 ^ (16 - unat msk)]. load_hextet a (7 - n) = load_hextet addr (7 - n) + of_nat j
        then new_val (new_flags v) (new_value v) else looked n t r a)"
    using overwrite_entries_effect [OF r n new_entry(1) [of v], of "load_hextet addr (7 - n)" "new_value v" "[0..<2 ^ (16 - unat msk)]"]
    unfolding overwrite_entries_def by blast
  have "looked n t' r a = (if agree (7 - n) (unat msk) addr a then v else looked n t r a)" if "ipv6_wf a" for a
    unfolding look [rule_format] group_range [OF that wf _ m z] new_entry(2) [OF v] using group_range [OF that wf _ m z] by simp
  then show thesis using that t' st unfolding outcome6_def by blast
qed

lemma outcome_below:
  assumes r: "rooted (Suc k) r t U" and i: "i = load_hextet addr (7 - Suc k)" and ext: "is_ext (get_chunk t r i)"
    and k: "Suc k \<le> 7" and wf: "ipv6_wf addr" and m: "16 < m"
    and oc: "outcome6 k v addr (m - 16) (Extended (extendedChunkId (get_chunk t r i))) t U res t'"
  shows "outcome6 (Suc k) v addr m r t U res t'"
proof -
  let ?d = "extendedChunkId (get_chunk t r i)"
  obtain U' where st: "step_to k (Extended ?d) t U t' U'" using oc by (auto simp: outcome6_def)
  note b = step_below [OF r ext st]
  have old: "looked (Suc k) t r a = looked k t (Extended ?d) a" if "load_hextet a (7 - Suc k) = i" for a
    using ext below_entry(5) [OF r ext] that by simp
  have ag: "agree (7 - Suc k) m addr a \<longleftrightarrow> load_hextet a (7 - Suc k) = i \<and> agree (7 - k) (m - 16) addr a" if "ipv6_wf a" for a
    using agree_split [OF that wf _ m, of "7 - Suc k"] Suc_diff_le [OF k] by (simp add: i)
  consider (ok) "res = success" "\<And>a. ipv6_wf a \<Longrightarrow> looked k t' (Extended ?d) a = (if agree (7 - k) (m - 16) addr a then v else looked k t (Extended ?d) a)"
    | (full) "res = isFull" "\<And>a. ipv6_wf a \<Longrightarrow> looked k t' (Extended ?d) a = looked k t (Extended ?d) a"
        "unat (extended_chunks_size (l6_stats t)) < card U + k"
    using oc unfolding outcome6_def by blast
  then show ?thesis
  proof cases
    case ok
    have "looked (Suc k) t' r a = (if agree (7 - Suc k) m addr a then v else looked (Suc k) t r a)" if "ipv6_wf a" for a
      unfolding b(3) ag [OF that] ok(2) [OF that] using old [of a] ext below_entry(5) [OF r ext] by simp
    then show ?thesis using b(1) ok(1) unfolding outcome6_def by blast
  next
    case full
    have "looked (Suc k) t' r a = looked (Suc k) t r a" if "ipv6_wf a" for a
      unfolding b(3) full(2) [OF that] using old [of a] ext below_entry(5) [OF r ext] by simp
    then show ?thesis using b(1) full(1,3) unfolding outcome6_def by auto
  qed
qed

text \<open>A chunk whose entries all hold the written value is given back, without a change to any lookup.\<close>

lemma outcome_merge:
  assumes oc: "outcome6 (Suc k) v addr m r t U success t1" and k: "Suc k \<le> 7" and v: "fits v" and ext: "is_ext (get_chunk t1 r i)"
    and all: "\<And>j. leaf_is v (l6_chunks t1 (extendedChunkId (get_chunk t1 r i)) j)"
  obtains t' where "overwrite_entry r i (new_flags v) (new_value v) t1 = Some t'" "outcome6 (Suc k) v addr m r t U success t'"
proof -
  obtain U1 where st: "step_to (Suc k) r t U t1 U1"
      and look: "\<And>a. ipv6_wf a \<Longrightarrow> looked (Suc k) t1 r a = (if agree (7 - Suc k) m addr a then v else looked (Suc k) t r a)"
    using oc by (auto simp: outcome6_def)
  have r1: "rooted (Suc k) r t1 U1" using st unfolding step_to_def by blast
  obtain t' where t': "overwrite_entry r i (new_flags v) (new_value v) t1 = Some t'"
      "step_to (Suc k) r t1 U1 t' (U1 - own (Suc k) (l6_chunks t1) (get_chunk t1 r i))"
      "\<And>a. looked (Suc k) t' r a = (if load_hextet a (7 - Suc k) = i then new_val (new_flags v) (new_value v) else looked (Suc k) t1 r a)"
    using overwrite_entry_effect [OF r1 k new_entry(1)] by blast
  have "entry_look (Suc k) (l6_chunks t1) a (get_chunk t1 r i) = v" for a
    using ext below_entry(5) [OF r1 ext] leaf_is_look [OF all] by simp
  then have "looked (Suc k) t' r a = looked (Suc k) t1 r a" for a unfolding t'(3) new_entry(2) [OF v] by auto
  then have "outcome6 (Suc k) v addr m r t U success t'"
    using step_to_trans [OF st t'(2)] look unfolding outcome6_def by auto
  then show thesis using that t'(1) by blast
qed

lemma fresh_chunk_rooted:
  assumes p: "pool t U fl" and new: "newExtendedChunk6 t = Some (t1, c)" and e: "\<not> is_ext e"
  defines "t2 \<equiv> put_chunk t1 (Extended c) (updateAllEntries6 (l6_chunks t1 c) e)"
  shows "rooted k (Extended c) t2 (insert c U)" "owned k t2 (Extended c) = {}" "looked k t2 (Extended c) a = entry_val e"
    "only_chunks {c} t t2" "c \<notin> U" "c < 0x1000000"
proof -
  note n = newExtendedChunk6_effect [OF p new]
  obtain fl1 where p1: "pool t1 (insert c U) fl1" using n(1) by blast
  let ?ch = "updateAllEntries6 (l6_chunks t1 c) e"
  have leaf: "\<not> is_ext (?ch i)" "entry_val (?ch i) = entry_val e" for i using e by (simp_all add: entry_val_def)
  have own: "own k C (?ch i) = {}" "good k C (?ch i)" for C i using own_leaf [OF leaf(1)] by blast+
  have "pool t2 (insert c U) fl1" unfolding t2_def by (rule pool_put_chunk [OF p1]) simp
  moreover have "occ (?ch 0)" using n(3) by simp
  ultimately show "rooted k (Extended c) t2 (insert c U)" by (auto simp: rooted_def t2_def tidy_def own)
  show "owned k t2 (Extended c) = {}" by (simp add: t2_def own)
  show "looked k t2 (Extended c) a = entry_val e" using look_leaf [OF leaf(1)] leaf(2) by (simp add: t2_def)
  show "only_chunks {c} t t2" using n(4,5,7) by (auto simp: only_chunks_def t2_def)
  show "c \<notin> U" "c < 0x1000000" using n(2) pool_less [OF p1] by auto
qed

text \<open>A leaf is extended by a fresh chunk, which is given back when the rest of the update finds no room.\<close>

lemma outcome_fresh:
  assumes r: "rooted (Suc k) r t U" and i: "i = load_hextet addr (7 - Suc k)" and leaf: "\<not> is_ext (get_chunk t r i)"
    and k: "Suc k \<le> 7" and wf: "ipv6_wf addr" and m: "16 < m" and new: "newExtendedChunk6 t = Some (t1, c)"
  defines "t2 \<equiv> put_chunk t1 (Extended c) (updateAllEntries6 (l6_chunks t1 c) (get_chunk t1 r i))"
  assumes oc: "outcome6 k v addr (m - 16) (Extended c) t2 (insert c U) res t3"
  shows "res = success \<Longrightarrow>
      outcome6 (Suc k) v addr m r t U success (put_entry t3 r i (updateEntry (get_chunk t3 r i) flagExtended c))"
    "res \<noteq> success \<Longrightarrow> \<exists>t'. freeExtendedChunk6 c t3 = Some t' \<and> outcome6 (Suc k) v addr m r t U res t'"
proof -
  let ?e = "get_chunk t r i" let ?W = "owned k t3 (Extended c)"
  obtain fl where p: "pool t U fl" using rootedD(5) [OF r] by blast
  have cU: "c \<notin> U" using newExtendedChunk6_effect(2) [OF p new] .
  have "l6_chunks t1 x = l6_chunks t x" if "x \<in> U" for x
    using newExtendedChunk6_effect(5) [OF p new, of x] cU that by auto
  then have "get_chunk t1 r = get_chunk t r"
    using newExtendedChunk6_effect(4) [OF p new] rootedD(3) [OF r] by (cases r) auto
  note f = fresh_chunk_rooted [OF p new leaf, folded t2_def [unfolded this]]
  obtain U3 where st: "step_to k (Extended c) t2 (insert c U) t3 U3" using oc by (auto simp: outcome6_def)
  have r3: "rooted k (Extended c) t3 U3" and U3: "U3 = insert c U \<union> ?W" and W: "?W \<inter> insert c U = {}"
      and same: "\<And>x. x \<in> U \<Longrightarrow> l6_chunks t3 x = l6_chunks t2 x" and root: "l6_root t3 = l6_root t2"
      and sz: "extended_chunks_size (l6_stats t3) = extended_chunks_size (l6_stats t2)"
    using st cU unfolding step_to_def f(2) [of k] by auto
  have same: "l6_chunks t3 x = l6_chunks t x" if "x \<in> U" for x using same [OF that] f(4) cU that by (auto simp: only_chunks_def)
  have root: "l6_root t3 = l6_root t" and sz: "extended_chunks_size (l6_stats t3) = extended_chunks_size (l6_stats t)"
    using root sz f(4) by (simp_all add: only_chunks_def)
  have ch: "get_chunk t3 r = get_chunk t r" using same root rootedD(3) [OF r] by (cases r) auto
  obtain fl3 where p3: "pool t3 U3 fl3" using rootedD(5) [OF r3] by blast
  have own: "own (Suc k) (l6_chunks t) ?e = {}" using own_leaf [OF leaf] by blast
  have ag: "agree (7 - Suc k) m addr a \<longleftrightarrow> load_hextet a (7 - Suc k) = i \<and> agree (7 - k) (m - 16) addr a" if "ipv6_wf a" for a
    using agree_split [OF that wf _ m, of "7 - Suc k"] Suc_diff_le [OF k] by (simp add: i)
  have old: "looked (Suc k) t r a = entry_val ?e" if "load_hextet a (7 - Suc k) = i" for a
    using look_leaf [OF leaf] that by simp
  show "outcome6 (Suc k) v addr m r t U success (put_entry t3 r i (updateEntry (get_chunk t3 r i) flagExtended c))" if res: "res = success"
  proof -
    let ?e' = "updateEntry ?e flagExtended c" let ?t = "put_entry t3 r i ?e'"
    have e': "is_ext ?e'" "\<not> is_val ?e'" "extendedChunkId ?e' = c" "occ ?e' = occ ?e" using f(6) by (simp_all add: chunk_id_round_trip)
    have ref: "ref_set r \<inter> insert c ?W = {}" using rootedD(3) [OF r] W cU by auto
    have keep: "l6_chunks ?t x = l6_chunks t3 x" if "x \<in> insert c ?W" for x using that ref by (intro put_chunk_sel(3)) auto
    have kc: "l6_chunks ?t c = l6_chunks t3 c" and kW: "\<And>x. x \<in> chunk_own k (l6_chunks t3) (l6_chunks t3 c) \<Longrightarrow> l6_chunks ?t x = l6_chunks t3 x"
      using keep by simp_all
    have fr: "chunk_own k (l6_chunks ?t) (l6_chunks t3 c) = chunk_own k (l6_chunks t3) (l6_chunks t3 c)"
        "tidy k (l6_chunks ?t) (l6_chunks t3 c) = tidy k (l6_chunks t3) (l6_chunks t3 c)"
        "chunk_look k (l6_chunks ?t) (l6_chunks t3 c) a = chunk_look k (l6_chunks t3) (l6_chunks t3 c) a" for a
      by (rule chunk_frame(1), erule kW, rule chunk_frame(2), erule kW, rule chunk_frame(3), erule kW)
    have "own (Suc k) (l6_chunks ?t) ?e' = insert c (chunk_own k (l6_chunks ?t) (l6_chunks ?t c))" using e' by simp
    then have o': "own (Suc k) (l6_chunks ?t) ?e' = insert c ?W" unfolding kc fr(1) by simp
    have td3: "tidy k (l6_chunks t3) (l6_chunks t3 c)" "c \<notin> chunk_own k (l6_chunks t3) (l6_chunks t3 c)" "occ (l6_chunks t3 c 0)"
      using r3 by (auto simp: rooted_def)
    have g: "good (Suc k) (l6_chunks ?t) ?e'" unfolding good_Suc e'(3) kc fr(1,2) using e' td3 by blast
    have pt: "pool ?t U3 fl3" using rootedD(3) [OF r] U3 by (intro pool_put_chunk [OF p3]) auto
    have "get_chunk ?t r = (get_chunk t r)(i := ?e')" using ch by simp
    moreover have "l6_chunks ?t x = l6_chunks t x" if "x \<in> U - own (Suc k) (l6_chunks t) ?e - ref_set r" for x using that same by simp
    moreover have "own (Suc k) (l6_chunks ?t) ?e' \<inter> (U - own (Suc k) (l6_chunks t) ?e) = {}" unfolding o' own using W cU by auto
    moreover have "U3 = U - own (Suc k) (l6_chunks t) ?e \<union> own (Suc k) (l6_chunks ?t) ?e'" unfolding o' own U3 by auto
    ultimately have "step_to (Suc k) r t U ?t U3"
      and look: "\<And>a. looked (Suc k) ?t r a = (if load_hextet a (7 - Suc k) = i then entry_look (Suc k) (l6_chunks ?t) a ?e' else looked (Suc k) t r a)"
      using step_to_entry(1) [OF r _ _ g e'(4) _ _ pt] step_to_entry(2) [OF r _ _ g e'(4) _ _ pt] root sz by simp_all
    moreover have "entry_look (Suc k) (l6_chunks ?t) a ?e' = (if agree (7 - k) (m - 16) addr a then v else entry_val ?e)" if "ipv6_wf a" for a
      using oc that res f(3) e' fr(3) by (simp add: outcome6_def kc)
    ultimately show ?thesis using ag old unfolding outcome6_def ch by auto
  qed
  show "\<exists>t'. freeExtendedChunk6 c t3 = Some t' \<and> outcome6 (Suc k) v addr m r t U res t'" if res: "res \<noteq> success"
  proof -
    have full: "res = isFull" "unat (extended_chunks_size (l6_stats t2)) < card (insert c U) + k" using oc res by (auto simp: outcome6_def)
    have sp: "free_spec k 8" using k by (intro free_levels_effect) simp
    have pre: "pool t3 U3 fl3 \<and> occ (l6_chunks t3 c 0) \<and> tidy k (l6_chunks t3) (l6_chunks t3 c) \<and>
        c \<notin> chunk_own k (l6_chunks t3) (l6_chunks t3 c) \<and> insert c (chunk_own k (l6_chunks t3) (l6_chunks t3 c)) \<subseteq> U3"
      using p3 r3 U3 by (auto simp: rooted_def)
    obtain t4 fl4 where t4: "freeExtendedChunk6 c t3 = Some t4" "pool t4 (U3 - insert c ?W) fl4" "only_chunks (insert c ?W) t3 t4"
      using sp [unfolded free_spec_def, rule_format, OF pre] by (auto simp: freeExtendedChunk6_def)
    have U: "U3 - insert c ?W = U" using U3 W cU by auto
    have same4: "l6_chunks t4 x = l6_chunks t x" if "x \<in> U" for x
    proof -
      have "x \<notin> insert c ?W" using that W cU by blast
      then show ?thesis using t4(3) same [OF that] by (simp add: only_chunks_def)
    qed
    have "get_chunk t4 r = get_chunk t r" using ch only_chunks_get [OF t4(3), of r] rootedD(3) [OF r] W cU by auto
    then have "get_chunk t4 r = (get_chunk t r)(i := ?e)" by simp
    moreover have "own (Suc k) (l6_chunks t4) ?e = {}" "good (Suc k) (l6_chunks t4) ?e" using own_leaf [OF leaf] by blast+
    moreover have "extended_chunks_size (l6_stats t4) = extended_chunks_size (l6_stats t)" "l6_root t4 = l6_root t"
      using t4(3) sz root by (simp_all add: only_chunks_def)
    ultimately have "step_to (Suc k) r t U t4 U"
      and raw: "\<And>a. looked (Suc k) t4 r a = (if load_hextet a (7 - Suc k) = i then entry_look (Suc k) (l6_chunks t4) a ?e else looked (Suc k) t r a)"
      using step_to_entry(1) [OF r, of t4 i ?e U fl4] step_to_entry(2) [OF r, of t4 i ?e U fl4] same4 own t4(2) U by simp_all
    moreover have "unat (extended_chunks_size (l6_stats t)) < card U + Suc k"
      using full(2) f(4) cU pool_finite [OF p] by (simp add: only_chunks_def)
    moreover have "looked (Suc k) t4 r a = looked (Suc k) t r a" for a
      using raw [of a] old [of a] look_leaf [OF leaf, of "Suc k" "l6_chunks t4" a] by metis
    ultimately show ?thesis using t4(1) full(1) unfolding outcome6_def by blast
  qed
qed

text \<open>Every update returns, keeps the table a tree and writes exactly the addresses of its prefix.\<close>

lemma set_step_outcome:
  assumes "rooted n r t U" and "n \<le> 7" and "ipv6_wf addr" and "unat msk \<le> 16 * Suc n"
    and "zero_from (7 - n) (unat msk) addr" and "fits v"
  shows "\<exists>res t'. set_step v addr msk (7 - n) r t = Some (res, t') \<and> outcome6 n v addr (unat msk) r t U res t'"
  using assms
proof (induction n arbitrary: r t U msk)
  case 0
  obtain t' where "overwrite_entries r (load_hextet addr (7 - 0)) msk (new_flags v) (new_value v) t = Some t'"
      "outcome6 0 v addr (unat msk) r t U success t'"
    using set_group_outcome [OF 0(1,2,3) _ 0(5,6)] 0(4) by auto
  then show ?case using 0(4) unfolding set_step.simps [of v addr msk] by (simp add: word_less_nat_alt)
next
  case (Suc k)
  note r = Suc.prems(1) and k = Suc.prems(2) and wf = Suc.prems(3) and v = Suc.prems(6)
  let ?i = "load_hextet addr (7 - Suc k)" let ?e = "get_chunk t r ?i" let ?d = "extendedChunkId ?e"
  have s: "7 - Suc k + 1 = 7 - k" using k by simp
  show ?case
  proof (cases "16 < unat msk")
    case False
    then obtain t' where "overwrite_entries r ?i msk (new_flags v) (new_value v) t = Some t'"
        "outcome6 (Suc k) v addr (unat msk) r t U success t'"
      using set_group_outcome [OF r k wf _ Suc.prems(5) v] by auto
    then show ?thesis using False unfolding set_step.simps [of v addr msk] by (simp add: word_less_nat_alt)
  next
    case m: True
    then have gt: "16 < msk" by (simp add: word_less_nat_alt)
    have u: "unat (msk - 16) = unat msk - 16" using mask_decreases [OF gt] .
    have z: "zero_from (7 - k) (unat (msk - 16)) addr"
      using zero_from_split [OF m Suc.prems(5)] Suc_diff_le [OF k] unfolding u by simp
    have lim: "unat (msk - 16) \<le> 16 * Suc k" using Suc.prems(4) unfolding u by simp
    have IH: "\<exists>res t'. set_step v addr (msk - 16) (7 - k) r t = Some (res, t') \<and> outcome6 k v addr (unat msk - 16) r t U res t'"
      if "rooted k r t U" for r t U using Suc.IH [OF that _ wf lim z v] k unfolding u by simp
    show ?thesis
    proof (cases "is_ext ?e")
      case ext: True
      obtain res t1 where t1: "set_step v addr (msk - 16) (7 - k) (Extended ?d) t = Some (res, t1)"
          and o1: "outcome6 k v addr (unat msk - 16) (Extended ?d) t U res t1"
        using IH [OF below_entry(1) [OF r ext]] by blast
      have oc: "outcome6 (Suc k) v addr (unat msk) r t U res t1" using outcome_below [OF r refl ext k wf m o1] .
      have ch: "get_chunk t1 r = get_chunk t r" using o1 step_below(2) [OF r ext] unfolding outcome6_def by blast
      show ?thesis
      proof (cases "res = success \<and> (\<forall>i. leaf_is v (l6_chunks t1 ?d i))")
        case False
        then have "set_step v addr msk (7 - Suc k) r t = Some (res, t1)"
          using gt ext t1 unfolding set_step.simps [of v addr msk] Let_def s by (auto simp del: One_nat_def)
        then show ?thesis using oc by blast
      next
        case True
        obtain t' where t': "overwrite_entry r ?i (new_flags v) (new_value v) t1 = Some t'"
            and o': "outcome6 (Suc k) v addr (unat msk) r t U success t'"
          using outcome_merge [of k v addr "unat msk" r t U t1 ?i] oc k v ext True ch by auto
        have "set_step v addr msk (7 - Suc k) r t = map_option (\<lambda>t. (success, t)) (overwrite_entry r ?i (new_flags v) (new_value v) t1)"
          using gt ext t1 True ch unfolding set_step.simps [of v addr msk] Let_def s
          by (simp add: overwrite_entry_def Let_def flag_tests option.map_comp comp_def)
        then show ?thesis using t' o' by auto
      qed
    next
      case leaf: False
      show ?thesis
      proof (cases "leaf_is v ?e")
        case True
        have "looked (Suc k) t r a = v" if "agree (7 - Suc k) (unat msk) addr a" "ipv6_wf a" for a
          using agree_split [OF that(2) wf _ m, of "7 - Suc k"] that(1) leaf_is_look [OF True, of "Suc k"] by auto
        then have "outcome6 (Suc k) v addr (unat msk) r t U success t"
          using step_to_refl [OF r] unfolding outcome6_def by auto
        moreover have "set_step v addr msk (7 - Suc k) r t = Some (success, t)"
          using gt leaf True unfolding set_step.simps [of v addr msk] Let_def by simp
        ultimately show ?thesis by blast
      next
        case nl: False
        obtain fl where p: "pool t U fl" using rootedD(5) [OF r] by blast
        show ?thesis
        proof (cases "newExtendedChunk6 t")
          case None
          have "outcome6 (Suc k) v addr (unat msk) r t U isFull t"
            using step_to_refl [OF r] newExtendedChunk6_None [OF p None] unfolding outcome6_def by auto
          moreover have "set_step v addr msk (7 - Suc k) r t = Some (isFull, t)"
            using gt leaf nl None unfolding set_step.simps [of v addr msk] Let_def by simp
          ultimately show ?thesis by blast
        next
          case (Some tc)
          then obtain t1 c where new: "newExtendedChunk6 t = Some (t1, c)" by (cases tc) auto
          have ch1: "get_chunk t1 r = get_chunk t r"
          proof -
            note n = newExtendedChunk6_effect [OF p new]
            have "l6_chunks t1 x = l6_chunks t x" if "x \<in> U" for x using n(2) n(5) [of x] that by auto
            then show ?thesis using n(4) rootedD(3) [OF r] by (cases r) auto
          qed
          let ?t2 = "put_chunk t1 (Extended c) (updateAllEntries6 (l6_chunks t1 c) (get_chunk t1 r ?i))"
          have "rooted k (Extended c) ?t2 (insert c U)" unfolding ch1 by (rule fresh_chunk_rooted(1) [OF p new leaf])
          from IH [OF this] obtain res t3 where t3: "set_step v addr (msk - 16) (7 - k) (Extended c) ?t2 = Some (res, t3)"
              and o3: "outcome6 k v addr (unat msk - 16) (Extended c) ?t2 (insert c U) res t3" by blast
          note f = outcome_fresh [OF r refl leaf k wf m new o3]
          have "set_step v addr msk (7 - Suc k) r t =
              (if res \<noteq> success then map_option (\<lambda>t. (res, t)) (freeExtendedChunk6 c t3)
               else Some (success, put_entry t3 r ?i (updateEntry (get_chunk t3 r ?i) flagExtended c)))"
            using gt leaf nl new t3 unfolding set_step.simps [of v addr msk] Let_def s by simp
          then show ?thesis using f by (cases "res = success") auto
        qed
      qed
    qed
  qed
qed

section \<open>The table\<close>

text \<open>The invariant: from the root chunk on the chunks form a tree, and all chunks in use belong to it.\<close>

definition lpm6_inv :: "lpm6 \<Rightarrow> bool" where
  "lpm6_inv t \<longleftrightarrow> rooted 7 Root t (owned 7 t Root)"

abbreviation lpm6_value :: "lpm6 \<Rightarrow> u8 list \<Rightarrow> u32 option" where
  "lpm6_value t a \<equiv> looked 7 t Root a"

text \<open>The addresses of a prefix, and prefixes without host bits.\<close>

definition prefix6_match :: "u8 list \<Rightarrow> u8 \<Rightarrow> u8 list \<Rightarrow> bool" where
  "prefix6_match addr msk a \<longleftrightarrow> list_all (\<lambda>i. ipv6_get_bit a i = ipv6_get_bit addr i) [0..<unat msk]"

definition host6_bits_zero :: "u8 list \<Rightarrow> u8 \<Rightarrow> bool" where
  "host6_bits_zero addr msk \<longleftrightarrow> list_all (\<lambda>i. \<not> ipv6_get_bit addr i) [unat msk..<128]"

lemma lookup_steps_look:
  "lookup_steps (Suc n) t a ch = (case chunk_look n (l6_chunks t) ch a of Some v \<Rightarrow> v | None \<Rightarrow> lpmValueIdInvalid)"
  by (induction n arbitrary: ch) (simp_all add: Let_def flag_tests atomic_value entry_val_def)

lemma valueId_not_invalid: "(ucast (w :: 24 word) :: u32) \<noteq> lpmValueIdInvalid"
proof
  assume "ucast w = lpmValueIdInvalid"
  then have "unat (ucast w :: u32) = unat lpmValueIdInvalid" by simp
  then show False using unsigned_less [of w, where ?'a = nat] by (simp add: unat_ucast_up lpmValueIdInvalid_def)
qed

lemma entry_look_valid: "entry_look n C a e \<noteq> Some lpmValueIdInvalid"
  by (induction n arbitrary: e) (simp_all add: entry_val_def valueId_not_invalid)

lemma lpm6_lookup_value:
  "lpm6_lookup t a = (lpm6_value t a \<noteq> None, case lpm6_value t a of Some v \<Rightarrow> v | None \<Rightarrow> lpmValueIdInvalid)"
proof -
  have "lpm6_lookup_one t a = (case lpm6_value t a of Some v \<Rightarrow> v | None \<Rightarrow> lpmValueIdInvalid)"
    using lookup_steps_look [of 7 t a "l6_root t"] by (simp add: lpm6_lookup_one_def numeral_eq_Suc)
  moreover have "lpm6_value t a \<noteq> Some lpmValueIdInvalid" by (rule entry_look_valid)
  ultimately show ?thesis by (auto simp del: get_chunk.simps simp: lpm6_lookup_def lpm6_lookup_burst_def split: option.splits)
qed

text \<open>A constructed table over a pool of chunks with arbitrary contents, and a cleared one.\<close>

definition lpm6_fresh :: "u64 \<Rightarrow> (u32 \<Rightarrow> tChunk) \<Rightarrow> lpm6" where
  "lpm6_fresh sz chunks =
     \<lparr>l6_stats = \<lparr>extended_chunks_count = 0, extended_chunks_size = sz, max_used_chunk_id = 0, free_chunk_cache = zero_entry\<rparr>,
      l6_root = (\<lambda>_. zero_entry), l6_chunks = chunks, l6_wait = False\<rparr>"

lemma empty_table:
  assumes "\<And>i. \<not> is_ext (l6_root t i)" and "max_used_chunk_id (l6_stats t) = 0" and "\<not> is_ext (free_chunk_cache (l6_stats t))"
    and "extended_chunks_count (l6_stats t) = 0" and "unat (extended_chunks_size (l6_stats t)) \<le> 2 ^ 24"
  shows "lpm6_inv t"
proof -
  have o: "own 7 (l6_chunks t) (l6_root t i) = {}" "good 7 (l6_chunks t) (l6_root t i)" for i using own_leaf [OF assms(1)] by blast+
  have "pool t {} []" using assms by (simp add: pool_def)
  then show ?thesis using o by (auto simp: lpm6_inv_def rooted_def tidy_def)
qed

lemma lpm6_fresh_inv:
  "unat sz \<le> 2 ^ 24 \<Longrightarrow> lpm6_inv (lpm6_fresh sz chunks)" "lpm6_lookup (lpm6_fresh sz chunks) a = (False, lpmValueIdInvalid)"
proof -
  show "unat sz \<le> 2 ^ 24 \<Longrightarrow> lpm6_inv (lpm6_fresh sz chunks)" by (rule empty_table) (simp_all add: lpm6_fresh_def)
  have "lpm6_value (lpm6_fresh sz chunks) a = None" using look_leaf [of zero_entry] by (simp add: lpm6_fresh_def entry_val_def)
  then show "lpm6_lookup (lpm6_fresh sz chunks) a = (False, lpmValueIdInvalid)" unfolding lpm6_lookup_value by simp
qed

text \<open>
  \<^verbatim>\<open>clear\<close> of the table followed by \<^verbatim>\<open>clear\<close> of its statistics establishes the invariant whatever the
  state was, and empties every lookup.
\<close>

lemma lpm6_clear_empties:
  assumes "unat (extended_chunks_size (l6_stats t)) \<le> 2 ^ 24"
  defines "t' \<equiv> (lpm6_clear t)\<lparr>l6_stats := stats_clear (l6_stats t)\<rparr>"
  shows "lpm6_inv t'" "lpm6_lookup t' a = (False, lpmValueIdInvalid)"
proof -
  show "lpm6_inv t'"
    using assms(1) by (intro empty_table) (simp_all add: t'_def lpm6_clear_def stats_clear_def is_ext_def zero_entry_def)
  have "lpm6_value t' a = None" using look_leaf [of zero_entry] by (simp add: t'_def lpm6_clear_def entry_val_def)
  then show "lpm6_lookup t' a = (False, lpmValueIdInvalid)" unfolding lpm6_lookup_value by simp
qed

section \<open>Updates of the table\<close>

datatype update6 = Insert6 "u8 list" u8 u32 | Remove6 "u8 list" u8

fun apply6 :: "update6 \<Rightarrow> lpm6 \<Rightarrow> (eResult \<times> lpm6) option" where
  "apply6 (Insert6 addr msk v) t = lpm6_insert t addr msk v"
| "apply6 (Remove6 addr msk) t = lpm6_remove t addr msk"

fun update6_ok :: "update6 \<Rightarrow> bool" where
  "update6_ok (Insert6 addr msk v) \<longleftrightarrow> ipv6_wf addr \<and> msk \<le> 128 \<and> host6_bits_zero addr msk \<and> v < 0x1000000"
| "update6_ok (Remove6 addr msk) \<longleftrightarrow> ipv6_wf addr \<and> msk \<le> 128 \<and> host6_bits_zero addr msk"

fun update6_covers :: "update6 \<Rightarrow> u8 list \<Rightarrow> bool" where
  "update6_covers (Insert6 addr msk v) a = prefix6_match addr msk a"
| "update6_covers (Remove6 addr msk) a = prefix6_match addr msk a"

fun update6_new :: "update6 \<Rightarrow> bool \<times> u32" where
  "update6_new (Insert6 addr msk v) = (True, v)"
| "update6_new (Remove6 addr msk) = (False, lpmValueIdInvalid)"

lemma agree_prefix: "agree 0 (unat msk) addr a = prefix6_match addr msk a"
  by (auto simp: agree_def prefix6_match_def list_all_iff)

lemma zero_from_host: "zero_from 0 (unat msk) addr = host6_bits_zero addr msk"
  by (auto simp: zero_from_def host6_bits_zero_def list_all_iff)

lemma set_step_table:
  assumes inv: "lpm6_inv t" and "ipv6_wf addr" and m: "msk \<le> 128" and "host6_bits_zero addr msk" and "fits v"
  obtains res t' where "set_step v addr msk 0 Root (t\<lparr>l6_wait := False\<rparr>) = Some (res, t')" "lpm6_inv t'"
    "res = success \<and> (\<forall>a. ipv6_wf a \<longrightarrow> lpm6_value t' a = (if prefix6_match addr msk a then v else lpm6_value t a)) \<or>
     res = isFull \<and> (\<forall>a. ipv6_wf a \<longrightarrow> lpm6_value t' a = lpm6_value t a) \<and>
       unat (extended_chunks_size (l6_stats t)) < card (owned 7 t Root) + 7"
    "extended_chunks_size (l6_stats t') = extended_chunks_size (l6_stats t)"
proof -
  let ?t = "t\<lparr>l6_wait := False\<rparr>"
  have "rooted 7 Root ?t (owned 7 t Root)" using inv by (simp only: lpm6_inv_def wait_step)
  moreover have "unat msk \<le> 16 * Suc 7" using m by (simp add: word_le_nat_alt)
  moreover have "zero_from (7 - 7) (unat msk) addr" using assms(4) zero_from_host by simp
  ultimately have "\<exists>res t'. set_step v addr msk (7 - 7) Root ?t = Some (res, t') \<and>
      outcome6 7 v addr (unat msk) Root ?t (owned 7 t Root) res t'"
    using assms(2,5) by (intro set_step_outcome) simp_all
  then obtain res t' where st: "set_step v addr msk 0 Root ?t = Some (res, t')"
      and oc: "outcome6 7 v addr (unat msk) Root ?t (owned 7 t Root) res t'"
    by (simp only: diff_self_eq_0) blast
  obtain U' where s: "step_to 7 Root ?t (owned 7 t Root) t' U'" using oc unfolding outcome6_def by blast
  have "owned 7 ?t Root = owned 7 t Root" by (simp only: wait_step lpm6.select_convs lpm6.update_convs) simp
  then have "U' = owned 7 t' Root" "rooted 7 Root t' U'" using s unfolding step_to_def by auto
  then have "lpm6_inv t'" unfolding lpm6_inv_def by simp
  moreover have "extended_chunks_size (l6_stats t') = extended_chunks_size (l6_stats t)" using s unfolding step_to_def by simp
  ultimately show thesis
    using that st oc unfolding outcome6_def by (simp add: agree_prefix cong: if_cong)
qed

lemma fits_value: "v < 0x1000000 \<Longrightarrow> fits (Some v)" "fits None"
  by (simp_all add: fits_def)

definition update6_value :: "update6 \<Rightarrow> u32 option" where
  "update6_value u = (case u of Insert6 addr msk v \<Rightarrow> Some v | Remove6 addr msk \<Rightarrow> None)"

lemma update6_new_value: "update6_new u = (update6_value u \<noteq> None, case update6_value u of Some v \<Rightarrow> v | None \<Rightarrow> lpmValueIdInvalid)"
  by (cases u) (simp_all add: update6_value_def)

lemma apply6_effect:
  assumes inv: "lpm6_inv t" and ok: "update6_ok u"
  obtains res t' where "apply6 u t = Some (res, t')" "lpm6_inv t'"
    "res = success \<and> (\<forall>a. ipv6_wf a \<longrightarrow> lpm6_lookup t' a = (if update6_covers u a then update6_new u else lpm6_lookup t a)) \<or>
     res = isFull \<and> (\<forall>a. ipv6_wf a \<longrightarrow> lpm6_lookup t' a = lpm6_lookup t a) \<and>
       unat (extended_chunks_size (l6_stats t)) < card (owned 7 t Root) + 7"
    "extended_chunks_size (l6_stats t') = extended_chunks_size (l6_stats t)"
proof -
  obtain addr msk where u: "apply6 u t = set_step (update6_value u) addr msk 0 Root (t\<lparr>l6_wait := False\<rparr>)"
      "\<And>a. update6_covers u a = prefix6_match addr msk a" "ipv6_wf addr" "msk \<le> 128" "host6_bits_zero addr msk" "fits (update6_value u)"
  proof (cases u)
    case (Insert6 addr msk v)
    then have "v AND 0xFF000000 = 0" "msk \<le> 128" using ok by (simp_all add: value_fits)
    then have "lpm6_insert t addr msk v = set_step (Some v) addr msk 0 Root (t\<lparr>l6_wait := False\<rparr>)"
      unfolding lpm6_insert_def insertStep_set by (simp add: not_less [symmetric])
    then show ?thesis using that [of addr msk] Insert6 ok by (simp add: update6_value_def fits_value)
  next
    case (Remove6 addr msk)
    then have "lpm6_remove t addr msk = set_step None addr msk 0 Root (t\<lparr>l6_wait := False\<rparr>)"
      using ok unfolding lpm6_remove_def removeStep_set by (simp add: not_less [symmetric])
    then show ?thesis using that [of addr msk] Remove6 ok by (simp add: update6_value_def fits_value)
  qed
  obtain res t' where st: "apply6 u t = Some (res, t')" "lpm6_inv t'"
      "res = success \<and> (\<forall>a. ipv6_wf a \<longrightarrow> lpm6_value t' a = (if prefix6_match addr msk a then update6_value u else lpm6_value t a)) \<or>
       res = isFull \<and> (\<forall>a. ipv6_wf a \<longrightarrow> lpm6_value t' a = lpm6_value t a) \<and>
         unat (extended_chunks_size (l6_stats t)) < card (owned 7 t Root) + 7"
      "extended_chunks_size (l6_stats t') = extended_chunks_size (l6_stats t)"
    using set_step_table [OF inv u(3-6)] unfolding u(1) by metis
  have "lpm6_lookup t' a = (if update6_covers u a then update6_new u else lpm6_lookup t a)"
    if "lpm6_value t' a = (if prefix6_match addr msk a then update6_value u else lpm6_value t a)" for a
    unfolding lpm6_lookup_value that update6_new_value u(2) by simp
  moreover have "lpm6_lookup t' a = lpm6_lookup t a" if "lpm6_value t' a = lpm6_value t a" for a
    unfolding lpm6_lookup_value that by (rule refl)
  ultimately show thesis using that st by blast
qed

lemma chunks_in_use: "lpm6_inv t \<Longrightarrow> extended_chunks_count (l6_stats t) = of_nat (card (owned 7 t Root)) \<and>
    card (owned 7 t Root) \<le> unat (extended_chunks_size (l6_stats t)) \<and> unat (extended_chunks_size (l6_stats t)) \<le> 2 ^ 24"
proof -
  assume "lpm6_inv t"
  then obtain fl where p: "pool t (owned 7 t Root) fl" using rootedD(5) unfolding lpm6_inv_def by blast
  have "card (owned 7 t Root) \<le> card {i. i < max_used_chunk_id (l6_stats t)}"
    using p by (intro card_mono) (auto simp: pool_def)
  then show ?thesis using p by (simp add: pool_def card_words_below)
qed

lemma room_left:
  assumes "lpm6_inv t"
  shows "unat (extended_chunks_size (l6_stats t)) < card (owned 7 t Root) + 7 \<longleftrightarrow>
    unat (extended_chunks_size (l6_stats t)) < unat (extended_chunks_count (l6_stats t)) + 7"
  using chunks_in_use [OF assms] by (simp add: unat_of_nat_small)

section \<open>Properties\<close>

lemma get_bit_byte: "ipv6_wf a \<Longrightarrow> i < 128 \<Longrightarrow> ipv6_get_bit a i = bit (a ! (i div 8)) (7 - i mod 8)"
  using ipv6_get_bit_byte [of a "i div 8" "i mod 8"] by simp

text \<open>Prefixes of whole bytes.\<close>

lemma byte_prefix:
  assumes "length p + n = 16" and "unat msk = 8 * length p"
  shows "host6_bits_zero (p @ replicate n 0) msk"
    and "length q = n \<Longrightarrow> length q' = n \<Longrightarrow> prefix6_match (p @ q) msk (p @ q')"
proof -
  have "\<not> ipv6_get_bit (p @ replicate n 0) i" if "8 * length p \<le> i" "i < 128" for i
  proof -
    have "length p \<le> i div 8" "i div 8 < 16" using that by auto
    then have "(p @ replicate n (0 :: u8)) ! (i div 8) = 0" using assms(1) by (simp add: nth_append)
    then show ?thesis using get_bit_byte [of "p @ replicate n 0" i] that assms(1) by (simp add: ipv6_wf_def)
  qed
  then show "host6_bits_zero (p @ replicate n 0) msk" by (simp add: host6_bits_zero_def list_all_iff assms(2))
  assume q: "length q = n" "length q' = n"
  have "ipv6_get_bit (p @ q') i = ipv6_get_bit (p @ q) i" if "i < 8 * length p" for i
  proof -
    have "i div 8 < length p" "i < 128" using that assms(1) by auto
    then show ?thesis using get_bit_byte [of "p @ q" i] get_bit_byte [of "p @ q'" i] q assms(1) by (simp add: ipv6_wf_def nth_append)
  qed
  then show "prefix6_match (p @ q) msk (p @ q')" by (simp add: prefix6_match_def list_all_iff assms(2))
qed

text \<open>
  C25: inserting an IPv6 prefix without host bits.  \<^verbatim>\<open>insert\<close> always comes back: the recursion that frees
  chunks never goes deeper than the eight levels of the table.  On success the addresses of the prefix
  find the inserted value and every other address finds what it found before; the only other outcome is
  \<^verbatim>\<open>isFull\<close>, which needs fewer than seven free chunks, and then no lookup changes and the chunks taken on
  the way are given back.  The structural invariant (the chunks in use are exactly the tree below the
  root, the others are in the free list) is kept in both cases.
\<close>

theorem lpm6_insert_correct:
  assumes "lpm6_inv t" and "ipv6_wf addr" and "host6_bits_zero addr msk" and "msk \<le> 128" and "v < 0x1000000"
  shows "\<exists>r t'. lpm6_insert t addr msk v = Some (r, t') \<and> lpm6_inv t' \<and>
    ((r = success \<and> (\<forall>a. ipv6_wf a \<longrightarrow> lpm6_lookup t' a = (if prefix6_match addr msk a then (True, v) else lpm6_lookup t a))) \<or>
     (r = isFull \<and> (\<forall>a. ipv6_wf a \<longrightarrow> lpm6_lookup t' a = lpm6_lookup t a) \<and>
       unat (extended_chunks_size (l6_stats t)) < unat (extended_chunks_count (l6_stats t)) + 7))"
proof -
  have "update6_ok (Insert6 addr msk v)" using assms by simp
  then show ?thesis
  proof (rule apply6_effect [OF assms(1)])
    fix r t'
    assume "apply6 (Insert6 addr msk v) t = Some (r, t')" and "lpm6_inv t'" and
      "r = success \<and> (\<forall>a. ipv6_wf a \<longrightarrow> lpm6_lookup t' a =
          (if update6_covers (Insert6 addr msk v) a then update6_new (Insert6 addr msk v) else lpm6_lookup t a)) \<or>
       r = isFull \<and> (\<forall>a. ipv6_wf a \<longrightarrow> lpm6_lookup t' a = lpm6_lookup t a) \<and>
         unat (extended_chunks_size (l6_stats t)) < card (owned 7 t Root) + 7"
    then show ?thesis unfolding room_left [OF assms(1)] apply6.simps update6_covers.simps update6_new.simps by blast
  qed
qed

theorem lpm6_insert_correct_witness:
  "let t = lpm6_fresh 16 (\<lambda>_ _. zero_entry); addr = [0x20, 0x01, 0x0d, 0xb8] @ replicate 12 0;
       a = [0x20, 0x01, 0x0d, 0xb8] @ replicate 12 1; b = [0x20, 0x01, 0x0d, 0xb9] @ replicate 12 0
   in lpm6_inv t \<and> host6_bits_zero addr 32 \<and> (\<exists>t'. lpm6_insert t addr 32 7 = Some (success, t') \<and>
        lpm6_lookup t' a = (True, 7) \<and> lpm6_lookup t' b = (False, lpmValueIdInvalid))"
proof -
  let ?t = "lpm6_fresh 16 (\<lambda>_ _. zero_entry)" and ?p = "[0x20, 0x01, 0x0d, 0xb8] :: u8 list"
    and ?b = "[0x20, 0x01, 0x0d, 0xb9] @ replicate 12 0 :: u8 list"
  let ?addr = "?p @ replicate 12 0" let ?a = "?p @ replicate 12 1"
  have h: "host6_bits_zero ?addr 32" and pa: "prefix6_match ?addr 32 ?a" by (rule byte_prefix; simp)+
  have wf: "ipv6_wf ?addr" "ipv6_wf ?a" "ipv6_wf ?b" by (simp_all add: ipv6_wf_def)
  have "ipv6_get_bit ?b 31 \<noteq> ipv6_get_bit ?addr 31" 
    using get_bit_byte [OF wf(1), of 31] get_bit_byte [OF wf(3), of 31] by simp
  then have pb: "\<not> prefix6_match ?addr 32 ?b" unfolding prefix6_match_def list_all_iff by (auto intro!: bexI [of _ 31])
  have inv: "lpm6_inv ?t" by (rule lpm6_fresh_inv) simp
  have room: "\<not> unat (extended_chunks_size (l6_stats ?t)) < unat (extended_chunks_count (l6_stats ?t)) + 7" by (simp add: lpm6_fresh_def)
  obtain t' where t': "lpm6_insert ?t ?addr 32 7 = Some (success, t')"
      and look: "\<And>a. ipv6_wf a \<Longrightarrow> lpm6_lookup t' a = (if prefix6_match ?addr 32 a then (True, 7) else lpm6_lookup ?t a)"
    using lpm6_insert_correct [OF inv wf(1) h, of 7] room by auto
  have "lpm6_lookup t' ?a = (True, 7)" "lpm6_lookup t' ?b = (False, lpmValueIdInvalid)"
    using look [OF wf(2)] look [OF wf(3)] pa pb lpm6_fresh_inv(2) by simp_all
  then show ?thesis unfolding Let_def using t' h inv by blast
qed

text \<open>The results of a list of updates, in their order.\<close>

fun run6 :: "update6 list \<Rightarrow> lpm6 \<Rightarrow> ((update6 \<times> eResult) list \<times> lpm6) option" where
  "run6 [] t = Some ([], t)"
| "run6 (u # us) t = Option.bind (apply6 u t) (\<lambda>(r, t). map_option (\<lambda>(rs, t). ((u, r) # rs, t)) (run6 us t))"

lemma find_append: "List.find P (xs @ ys) = (case List.find P xs of Some x \<Rightarrow> Some x | None \<Rightarrow> List.find P ys)"
  by (induction xs) simp_all

lemma run6_effect:
  assumes "lpm6_inv t" and "list_all update6_ok us"
  shows "\<exists>rs t'. run6 us t = Some (rs, t') \<and> map fst rs = us \<and> lpm6_inv t' \<and>
    (\<forall>a. ipv6_wf a \<longrightarrow> lpm6_lookup t' a = (case List.find (\<lambda>(u, r). r = success \<and> update6_covers u a) (rev rs) of
        Some (u, r) \<Rightarrow> update6_new u | None \<Rightarrow> lpm6_lookup t a))"
  using assms
proof (induction us arbitrary: t)
  case (Cons u us)
  have "update6_ok u" using Cons.prems(2) by simp
  from apply6_effect [OF Cons.prems(1) this] obtain r t1 where t1: "apply6 u t = Some (r, t1)" "lpm6_inv t1"
      "r = success \<and> (\<forall>a. ipv6_wf a \<longrightarrow> lpm6_lookup t1 a = (if update6_covers u a then update6_new u else lpm6_lookup t a)) \<or>
       r = isFull \<and> (\<forall>a. ipv6_wf a \<longrightarrow> lpm6_lookup t1 a = lpm6_lookup t a)" by metis
  from Cons.IH [OF t1(2)] Cons.prems(2) obtain rs t' where t': "run6 us t1 = Some (rs, t')" "map fst rs = us" "lpm6_inv t'"
      "\<And>a. ipv6_wf a \<Longrightarrow> lpm6_lookup t' a = (case List.find (\<lambda>(u, r). r = success \<and> update6_covers u a) (rev rs) of
        Some (u, r) \<Rightarrow> update6_new u | None \<Rightarrow> lpm6_lookup t1 a)" by auto
  have "lpm6_lookup t1 a = (if r = success \<and> update6_covers u a then update6_new u else lpm6_lookup t a)" if "ipv6_wf a" for a
    using t1(3) that by auto
  then have look: "lpm6_lookup t' a = (case List.find (\<lambda>(u, r). r = success \<and> update6_covers u a) (rev ((u, r) # rs)) of
        Some (u, r) \<Rightarrow> update6_new u | None \<Rightarrow> lpm6_lookup t a)" if "ipv6_wf a" for a
    unfolding t'(4) [OF that] using that by (simp add: find_append split: option.split)
  have "run6 (u # us) t = Some ((u, r) # rs, t')" "map fst ((u, r) # rs) = u # us" using t1(1) t'(1,2) by simp_all
  then show ?case using t'(3) look by (intro exI [of _ "(u, r) # rs"] exI [of _ t'] conjI allI impI)
qed simp

text \<open>
  C8: the IPv6 table as a whole.  After any list of insertions and removals on a new table, whichever of
  them succeeded, the lookup of an address gives what the last successful update that covers the address
  wrote: the value of an insertion, nothing for a removal or when no update covers it.
\<close>

theorem lpm6_lookup_after_updates:
  assumes "unat sz \<le> 2 ^ 24" and "list_all update6_ok us"
  shows "\<exists>rs t'. run6 us (lpm6_fresh sz chunks) = Some (rs, t') \<and> map fst rs = us \<and>
    (\<forall>a. ipv6_wf a \<longrightarrow> lpm6_lookup t' a = (case List.find (\<lambda>(u, r). r = success \<and> update6_covers u a) (rev rs) of
        Some (u, r) \<Rightarrow> update6_new u | None \<Rightarrow> (False, lpmValueIdInvalid)))"
  using run6_effect [OF lpm6_fresh_inv(1) [OF assms(1)] assms(2)] unfolding lpm6_fresh_inv(2) by blast

theorem lpm6_lookup_after_updates_witness:
  "let net = [0x20, 0x01, 0x0d, 0xb8] @ replicate 12 0; us = [Insert6 net 32 2, Remove6 net 32]
   in \<exists>rs t'. run6 us (lpm6_fresh 8 (\<lambda>_ _. zero_entry)) = Some (rs, t') \<and> map fst rs = us \<and>
        lpm6_lookup t' net = (case List.find (\<lambda>(u, r). r = success \<and> update6_covers u net) (rev rs) of
          Some (u, r) \<Rightarrow> update6_new u | None \<Rightarrow> (False, lpmValueIdInvalid))"
proof -
  let ?net = "[0x20, 0x01, 0x0d, 0xb8] @ replicate 12 0 :: u8 list" let ?us = "[Insert6 ?net 32 2, Remove6 ?net 32]"
  have "host6_bits_zero ?net 32" by (rule byte_prefix; simp)
  moreover have wf: "ipv6_wf ?net" by (simp add: ipv6_wf_def)
  ultimately have ok: "list_all update6_ok ?us" by simp
  have "unat (8 :: u64) \<le> 2 ^ 24" by simp
  from lpm6_lookup_after_updates [OF this ok, of "\<lambda>_ _. zero_entry"] obtain rs t' where
    "run6 ?us (lpm6_fresh 8 (\<lambda>_ _. zero_entry)) = Some (rs, t')" "map fst rs = ?us" and
    look: "\<forall>a. ipv6_wf a \<longrightarrow> lpm6_lookup t' a = (case List.find (\<lambda>(u, r). r = success \<and> update6_covers u a) (rev rs) of
        Some (u, r) \<Rightarrow> update6_new u | None \<Rightarrow> (False, lpmValueIdInvalid))" by (elim exE conjE)
  then show ?thesis using look [rule_format, OF wf] unfolding Let_def by (intro exI [of _ rs] exI [of _ t'] conjI)
qed

end
