(* ===== verification/AclClasses.thy ===== *)
theory AclClasses
  imports StdMap "HOL-Library.Multiset"
begin

text \<open>
  The numbering of classes that the stages of the ACL compiler share, as a reference definition.  A table
  starts with one class, 0.  Each filter visits its keys; a key whose class is older than the filter moves to the new
  class that the filter has for its old one.  In the end two keys have the same class if and only if the same
  filters visit them.  Also here: the numbering of filters, which the stages share as well, and hash sets.
\<close>

section \<open>Hash sets and numbered filters\<close>

text \<open>
  A hash set is the list of its elements in the order of insertion.  The order in which a loop visits them
  is an argument of the definitions that have such loops, of which only this is assumed.
\<close>

definition add_new :: "'x \<Rightarrow> 'x list \<Rightarrow> 'x list" where
  "add_new x xs = (if x \<in> set xs then xs else xs @ [x])"

definition visits_each :: "('x list \<Rightarrow> 'x list) \<Rightarrow> bool" where
  "visits_each order \<longleftrightarrow> (\<forall>xs. mset (order xs) = mset xs)"

lemma set_add_new [simp]: "set (add_new x xs) = insert x (set xs)"
  by (auto simp: add_new_def)

lemma distinct_add_new [simp]: "distinct (add_new x xs) \<longleftrightarrow> distinct xs"
  by (simp add: add_new_def)

lemma set_add_all [simp]: "set (fold add_new xs ys) = set xs \<union> set ys"
  by (induction xs arbitrary: ys) auto

lemma distinct_add_all [simp]: "distinct (fold add_new xs ys) \<longleftrightarrow> distinct ys"
  by (induction xs arbitrary: ys) auto

lemma sum_add_new: "sum_list (map f (fold add_new fs gs)) \<le> sum_list (map f fs) + (sum_list (map f gs) :: nat)"
proof (induction fs arbitrary: gs)
  case (Cons flt fs)
  show ?case using Cons [of "add_new flt gs"] by (auto simp: add_new_def)
qed simp

lemma visits_each_set [simp]: "visits_each order \<Longrightarrow> set (order xs) = set xs"
  by (metis visits_each_def set_mset_mset)

lemma visits_each_length [simp]: "visits_each order \<Longrightarrow> length (order xs) = length xs"
  by (metis visits_each_def size_mset)

lemma visits_each_distinct [simp]: "visits_each order \<Longrightarrow> distinct (order xs) \<longleftrightarrow> distinct xs"
  by (metis visits_each_def mset_eq_imp_distinct_iff)

text \<open>The first part of every \<^verbatim>\<open>collect\<close>: a filter that is new gets the next number.\<close>

definition collect_filter :: "'f::linorder \<Rightarrow> 'f list \<times> ('f, nat) std_map \<Rightarrow> nat \<times> 'f list \<times> ('f, nat) std_map" where
  "collect_filter flt s =
     (let (filters, filter_ids) = s in
      case map_of filter_ids flt of
        Some filter_id \<Rightarrow> (filter_id, s)
      | None \<Rightarrow> (length filter_ids, filters @ [flt], map_emplace flt (length filter_ids) filter_ids))"

definition numbered :: "'f::linorder list \<times> ('f, nat) std_map \<Rightarrow> bool" where
  "numbered s \<longleftrightarrow> (let (filters, filter_ids) = s in
     distinct filters \<and> map_ok filter_ids \<and> length filter_ids = length filters \<and>
     (\<forall>flt i. map_of filter_ids flt = Some i \<longleftrightarrow> i < length filters \<and> filters ! i = flt))"

lemma numbered_empty [simp]: "numbered ([], [])"
  by (simp add: numbered_def)

lemma collect_filter_effect:
  assumes "numbered s" and "collect_filter flt s = (i, s')"
  shows "numbered s'" "fst s' = add_new flt (fst s)" "i < length (fst s')" "fst s' ! i = flt"
proof -
  obtain fs ids where s: "s = (fs, ids)" by (cases s)
  note N = assms(1) [unfolded numbered_def s, simplified]
  have "numbered s' \<and> fst s' = add_new flt (fst s) \<and> i < length (fst s') \<and> fst s' ! i = flt"
  proof (cases "map_of ids flt")
    case (Some j)
    then have "j < length fs" "fs ! j = flt" using N by auto
    then show ?thesis using Some assms nth_mem [of j fs] by (auto simp: collect_filter_def s add_new_def)
  next
    case None
    have new: "flt \<notin> set fs" using None N by (metis in_set_conv_nth option.distinct(1))
    let ?m = "map_emplace flt (length fs) ids"
    have ids: "map_of ?m = (map_of ids)(flt \<mapsto> length fs)" using N None by (auto simp: map_of_emplace fun_eq_iff)
    have old: "fs ! i \<noteq> flt" if "i < length fs" for i using new that by (metis nth_mem)
    have "map_of ?m h = Some i \<longleftrightarrow> i < length (fs @ [flt]) \<and> (fs @ [flt]) ! i = h" for h i
      using N old by (cases "h = flt") (auto simp: ids nth_append less_Suc_eq)
    moreover have "length ?m = Suc (length ids)" using None by (rule length_emplace)
    ultimately show ?thesis using N None new assms(2) by (auto simp: collect_filter_def s numbered_def add_new_def)
  qed
  then show "numbered s'" "fst s' = add_new flt (fst s)" "i < length (fst s')" "fst s' ! i = flt" by blast+
qed

text \<open>The filters of a list of rules, and the numbers the rules get.\<close>

definition filters_in :: "'f list \<Rightarrow> nat list \<Rightarrow> 'f list \<Rightarrow> bool" where
  "filters_in filters ids fs \<longleftrightarrow> filters = fold add_new fs [] \<and> length ids = length fs \<and>
     (\<forall>k < length fs. ids ! k < length filters \<and> filters ! (ids ! k) = fs ! k)"

lemma filters_in_empty [simp]: "filters_in [] [] []"
  by (simp add: filters_in_def)

lemma filters_in_step:
  assumes "filters_in filters ids fs" and "i < length (add_new f filters)" and "add_new f filters ! i = f"
  shows "filters_in (add_new f filters) (ids @ [i]) (fs @ [f])"
proof -
  have "j < length (add_new f filters) \<and> add_new f filters ! j = filters ! j" if "j < length filters" for j
    using that by (simp add: add_new_def nth_append)
  then show ?thesis using assms by (auto simp: filters_in_def nth_append less_Suc_eq)
qed

lemma filters_in_set: "filters_in filters ids fs \<Longrightarrow> set filters = set fs"
  by (simp add: filters_in_def)

section \<open>Classes\<close>

type_synonym 'k classes = "('k \<Rightarrow> nat) \<times> (nat \<Rightarrow> nat option) \<times> nat"

definition visit :: "nat \<Rightarrow> 'k \<Rightarrow> 'k classes \<Rightarrow> 'k classes" where
  "visit initial k s =
     (let (T, names, nxt) = s in
      if initial \<le> T k then s
      else case names (T k) of
          None \<Rightarrow> (T(k := nxt), names(T k \<mapsto> nxt), Suc nxt)
        | Some c \<Rightarrow> (T(k := c), names, nxt))"

definition visit_all :: "'k list \<Rightarrow> ('k \<Rightarrow> nat) \<times> nat \<Rightarrow> 'k classes" where
  "visit_all ks s = fold (visit (snd s)) ks (fst s, Map.empty, snd s)"

definition insert_class :: "'k list \<Rightarrow> ('k \<Rightarrow> nat) \<times> nat \<Rightarrow> ('k \<Rightarrow> nat) \<times> nat" where
  "insert_class ks s = (let (T, names, nxt) = visit_all ks s in (T, nxt))"

definition insert_classes :: "'k list list \<Rightarrow> ('k \<Rightarrow> nat) \<times> nat" where
  "insert_classes kss = fold insert_class kss ((\<lambda>_. 0), 1)"

section \<open>One filter\<close>

lemma visit_grows: "snd (snd (visit n i c)) \<le> Suc (snd (snd c))" "snd (snd c) \<le> snd (snd (visit n i c))"
  by (cases c; simp add: visit_def split: option.split)+

lemma visits_grow: "snd (snd c) \<le> snd (snd (fold (visit n) ks c))"
proof (induction ks arbitrary: c)
  case (Cons k ks)
  show ?case using Cons.IH [of "visit n k c"] visit_grows(2) [of c n k] by simp
qed simp

lemma classes_grow: "snd c \<le> snd (fold insert_class kss c)"
proof (induction kss arbitrary: c)
  case (Cons ks kss)
  have "snd c \<le> snd (insert_class ks c)" using visits_grow [of "(fst c, Map.empty, snd c)" "snd c" ks]
    by (auto simp: insert_class_def visit_all_def split: prod.splits)
  then show ?case using Cons.IH [of "insert_class ks c"] by simp
qed simp

definition visited :: "('k \<Rightarrow> nat) \<Rightarrow> nat \<Rightarrow> 'k set \<Rightarrow> 'k classes \<Rightarrow> bool" where
  "visited T\<^sub>0 n\<^sub>0 V s \<longleftrightarrow>
     (let (T, names, nxt) = s in
      dom names = T\<^sub>0 ` V \<and> (\<forall>k. T k = (if k \<in> V then the (names (T\<^sub>0 k)) else T\<^sub>0 k)) \<and>
      inj_on names (dom names) \<and> (\<forall>c \<in> ran names. n\<^sub>0 \<le> c \<and> c < nxt) \<and> nxt = n\<^sub>0 + card (T\<^sub>0 ` V))"

lemma visited_step:
  assumes v: "visited T\<^sub>0 n\<^sub>0 V s" and below: "\<forall>k. T\<^sub>0 k < n\<^sub>0" and fin: "finite V"
  shows "visited T\<^sub>0 n\<^sub>0 (insert k V) (visit n\<^sub>0 k s)"
proof -
  obtain T names nxt where s: "s = (T, names, nxt)" by (cases s)
  note V = v [unfolded s visited_def, simplified]
  show ?thesis
  proof (cases "k \<in> V")
    case True
    then obtain c where c: "names (T\<^sub>0 k) = Some c" using V by fastforce
    then have "n\<^sub>0 \<le> T k" using V True by (auto simp: ran_def)
    then show ?thesis using v True by (simp add: s visit_def insert_absorb)
  next
    case False
    then have T: "T k = T\<^sub>0 k" using V by simp
    then have old: "\<not> n\<^sub>0 \<le> T k" using below by (simp add: not_le)
    show ?thesis
    proof (cases "names (T\<^sub>0 k)")
      case None
      then have new: "T\<^sub>0 k \<notin> T\<^sub>0 ` V" using V by blast
      have card: "card (insert (T\<^sub>0 k) (T\<^sub>0 ` V)) = Suc (card (T\<^sub>0 ` V))" using new fin by simp
      have other: "T\<^sub>0 k' \<noteq> T\<^sub>0 k" if "k' \<in> V" for k' using new that by (metis imageI)
      have fresh: "names c \<noteq> Some nxt" for c using V by (metis ranI less_irrefl)
      have inj: "inj_on (names(T\<^sub>0 k \<mapsto> nxt)) (insert (T\<^sub>0 k) (dom names))"
        using V None fresh fresh [THEN not_sym] by (auto simp: inj_on_def)
      have "ran (names(T\<^sub>0 k \<mapsto> nxt)) = insert nxt (ran names)" using None by simp
      then show ?thesis using V None T old other card inj by (auto simp: s visit_def visited_def)
    next
      case (Some c)
      then have "T\<^sub>0 k \<in> T\<^sub>0 ` V" using V by blast
      then show ?thesis using V Some T old by (auto simp: s visit_def visited_def insert_absorb)
    qed
  qed
qed

lemma visit_all_visited:
  assumes "\<forall>k. T\<^sub>0 k < n\<^sub>0"
  shows "visited T\<^sub>0 n\<^sub>0 (set ks) (visit_all ks (T\<^sub>0, n\<^sub>0))"
proof -
  have "visited T\<^sub>0 n\<^sub>0 (V \<union> set ks) (fold (visit n\<^sub>0) ks s)" if "visited T\<^sub>0 n\<^sub>0 V s" "finite V" for V s
    using that by (induction ks arbitrary: V s) (simp_all, metis assms visited_step finite.insertI Un_insert_left)
  moreover have "visited T\<^sub>0 n\<^sub>0 {} (T\<^sub>0, Map.empty, n\<^sub>0)" by (simp add: visited_def)
  ultimately show ?thesis by (fastforce simp: visit_all_def)
qed

lemma insert_class_effect:
  assumes "\<forall>k. T\<^sub>0 k < n\<^sub>0" and "insert_class ks (T\<^sub>0, n\<^sub>0) = (T, n)"
  shows "T k = T k' \<longleftrightarrow> T\<^sub>0 k = T\<^sub>0 k' \<and> (k \<in> set ks \<longleftrightarrow> k' \<in> set ks)" "k \<in> set ks \<Longrightarrow> n\<^sub>0 \<le> T k" "k \<notin> set ks \<Longrightarrow> T k = T\<^sub>0 k"
    "T k < n" "n = n\<^sub>0 + card (T\<^sub>0 ` set ks)"
proof -
  obtain names where v: "visited T\<^sub>0 n\<^sub>0 (set ks) (T, names, n)"
    using visit_all_visited [OF assms(1), of ks] assms(2) by (cases "visit_all ks (T\<^sub>0, n\<^sub>0)") (auto simp: insert_class_def)
  note V = v [unfolded visited_def, simplified]
  have named: "\<exists>c. names (T\<^sub>0 k) = Some c \<and> T k = c \<and> n\<^sub>0 \<le> c \<and> c < n" if "k \<in> set ks" for k
  proof -
    have "T\<^sub>0 k \<in> dom names" using V that by simp
    then obtain c where "names (T\<^sub>0 k) = Some c" by blast
    then show ?thesis using V that by (auto simp: ran_def)
  qed
  have same: "T\<^sub>0 k = T\<^sub>0 k'" if "names (T\<^sub>0 k) = Some c" "names (T\<^sub>0 k') = Some c" for k k' c
    using V that by (metis (mono_tags, lifting) domI inj_onD)
  have rest: "T k = T\<^sub>0 k" "T k < n\<^sub>0" if "k \<notin> set ks" for k using V that assms(1) by simp_all
  show "T k = T k' \<longleftrightarrow> T\<^sub>0 k = T\<^sub>0 k' \<and> (k \<in> set ks \<longleftrightarrow> k' \<in> set ks)"
  proof (cases "k \<in> set ks \<longleftrightarrow> k' \<in> set ks")
    case True
    then show ?thesis using named [of k] named [of k'] rest(1) [of k] rest(1) [of k'] same [of k _ k']
      by (cases "k \<in> set ks") auto
  next
    case False
    then show ?thesis using named [of k] named [of k'] rest(2) [of k] rest(2) [of k'] by fastforce
  qed
  show "k \<in> set ks \<Longrightarrow> n\<^sub>0 \<le> T k" using named by blast
  show "k \<notin> set ks \<Longrightarrow> T k = T\<^sub>0 k" by (rule rest)
  show "n = n\<^sub>0 + card (T\<^sub>0 ` set ks)" using V by simp
  then show "T k < n" using named [of k] rest(2) [of k] by (cases "k \<in> set ks") auto
qed

section \<open>All filters\<close>

definition classified :: "'k list list \<Rightarrow> ('k \<Rightarrow> nat) \<times> nat \<Rightarrow> bool" where
  "classified kss s \<longleftrightarrow>
     (\<forall>k k'. fst s k = fst s k' \<longleftrightarrow> (\<forall>ks \<in> set kss. k \<in> set ks \<longleftrightarrow> k' \<in> set ks)) \<and>
     (\<forall>k. fst s k = 0 \<longleftrightarrow> (\<forall>ks \<in> set kss. k \<notin> set ks)) \<and> (\<forall>k. fst s k < snd s) \<and> 1 \<le> snd s"

lemma insert_classes_snoc: "insert_classes (kss @ [ks]) = insert_class ks (insert_classes kss)"
  by (simp add: insert_classes_def)

lemma insert_classes_classified: "classified kss (insert_classes kss)"
proof (induction kss rule: rev_induct)
  case Nil
  then show ?case by (simp add: classified_def insert_classes_def)
next
  case (snoc ks kss)
  obtain T\<^sub>0 n\<^sub>0 where s: "insert_classes kss = (T\<^sub>0, n\<^sub>0)" by (cases "insert_classes kss")
  obtain T n where i: "insert_class ks (T\<^sub>0, n\<^sub>0) = (T, n)" by (cases "insert_class ks (T\<^sub>0, n\<^sub>0)")
  note IH = snoc.IH [unfolded s classified_def fst_conv snd_conv]
  have below: "\<forall>k. T\<^sub>0 k < n\<^sub>0" using IH by blast
  note E = insert_class_effect [OF below i]
  have eq: "T k = T k' \<longleftrightarrow> (\<forall>ks \<in> set (kss @ [ks]). k \<in> set ks \<longleftrightarrow> k' \<in> set ks)" for k k' using IH E(1) [of k k'] by auto
  have zero: "T k = 0 \<longleftrightarrow> (\<forall>ks \<in> set (kss @ [ks]). k \<notin> set ks)" for k
    using IH E(2) [of k] E(3) [of k] by (cases "k \<in> set ks") (auto simp: not_le)
  have "1 \<le> n" using IH E(5) by linarith
  then show ?case unfolding classified_def insert_classes_snoc s i fst_conv snd_conv using eq zero E(4) by blast
qed

text \<open>The number of classes at most doubles with each filter.\<close>

lemma insert_classes_count: "snd (insert_classes kss) \<le> 2 ^ length kss"
proof (induction kss rule: rev_induct)
  case Nil
  then show ?case by (simp add: insert_classes_def)
next
  case (snoc ks kss)
  obtain T\<^sub>0 n\<^sub>0 where s: "insert_classes kss = (T\<^sub>0, n\<^sub>0)" by (cases "insert_classes kss")
  obtain T n where i: "insert_class ks (T\<^sub>0, n\<^sub>0) = (T, n)" by (cases "insert_class ks (T\<^sub>0, n\<^sub>0)")
  have below: "\<forall>k. T\<^sub>0 k < n\<^sub>0" using insert_classes_classified [of kss] s by (simp add: classified_def)
  then have "card (T\<^sub>0 ` set ks) \<le> card {..<n\<^sub>0}" by (intro card_mono) auto
  then show ?case using snoc.IH insert_class_effect(5) [OF below i] by (simp add: insert_classes_snoc s i)
qed

text \<open>A class belongs to a filter if some key of the class, equivalently every key of it, is visited by the filter.\<close>

lemma classified_member:
  assumes "classified kss s" and "ks \<in> set kss"
  shows "fst s k \<in> fst s ` set ks \<longleftrightarrow> k \<in> set ks"
  using assms by (auto simp: classified_def)

end
