(* ===== verification/AclFlat.thy ===== *)
theory AclFlat
  imports AclClasses "HOL-Library.List_Lexorder" "HOL-Library.Product_Lexorder"
begin

text \<open>
  The classes of protocols, ports and flags, \<^verbatim>\<open>flat_t\<close> of \<^verbatim>\<open>src/controlplane/acl_flat.h\<close>, with the ranges of
  \<^verbatim>\<open>src/common/acl.h\<close>.  The array has one group for each value of a word of any width; a range over all
  values does not split the groups.  \<open>None\<close> is an exception or an access outside a vector.
\<close>

section \<open>Definitions\<close>

type_synonym 'a ranges = "('a \<times> 'a) list"

record 'a flat =
  fl_values :: "'a \<Rightarrow> u32"
  fl_remap_group_ids :: "u32 list"
  fl_group_id :: u32
  fl_filters :: "'a ranges list"
  fl_filter_ids :: "('a ranges, nat) std_map"
  fl_filter_id_group_ids :: "u32 list list"
  fl_used_group_ids_set :: "u32 list"
  fl_used_group_ids_vec :: "u32 list"

definition insert_any :: "'a::len word ranges \<Rightarrow> 'a word ranges" where
  "insert_any rs = rs @ [(0, - 1)]"

definition flat_clear :: "'a::len word flat" where
  "flat_clear = \<lparr>fl_values = (\<lambda>_. 0), fl_remap_group_ids = [], fl_group_id = 1, fl_filters = [], fl_filter_ids = [],
     fl_filter_id_group_ids = [], fl_used_group_ids_set = [], fl_used_group_ids_vec = []\<rparr>"

definition flat_collect :: "'a::len word ranges \<Rightarrow> 'a word flat \<Rightarrow> nat \<times> 'a word flat" where
  "flat_collect flt s =
     (let (filter_id, filters, filter_ids) = collect_filter flt (fl_filters s, fl_filter_ids s)
      in (filter_id, s\<lparr>fl_filters := filters, fl_filter_ids := filter_ids\<rparr>))"

definition flat_prepare :: "'a::len word flat \<Rightarrow> 'a word flat" where
  "flat_prepare s =
     (let n = length (fl_filter_ids s); gs = fl_filter_id_group_ids s
      in s\<lparr>fl_filter_id_group_ids := take n gs @ replicate (n - length gs) []\<rparr>)"

definition full_range :: "'a::len word \<times> 'a word \<Rightarrow> bool" where
  "full_range r = (fst r = 0 \<and> snd r = - 1)"

definition range_values :: "'a::len word \<times> 'a word \<Rightarrow> 'a word list" where
  "range_values r = map of_nat [unat (fst r)..<Suc (unat (snd r))]"

text \<open>The body of the loop of \<^verbatim>\<open>compile\<close> for one value, on the array, the new groups of the filter and the next group.\<close>

definition flat_visit :: "'a::len word \<Rightarrow> ('a word \<Rightarrow> u32) \<times> u32 list \<times> u32 \<Rightarrow> ('a word \<Rightarrow> u32) \<times> u32 list \<times> u32" where
  "flat_visit i s =
     (let (vals, remap, group_id) = s; v = unat (vals i) in
      if v < length remap then
        let (remap, group_id) = (if remap ! v = 0 then (remap[v := group_id], group_id + 1) else (remap, group_id))
        in (vals(i := remap ! v), remap, group_id)
      else s)"

definition flat_compile_filter :: "'a::len word ranges \<Rightarrow> ('a word \<Rightarrow> u32) \<times> u32 list \<times> u32 \<Rightarrow> ('a word \<Rightarrow> u32) \<times> u32 list \<times> u32" where
  "flat_compile_filter flt s =
     (let (vals, _, group_id) = s
      in fold (\<lambda>r s. if full_range r then s else fold flat_visit (range_values r) s) flt (vals, replicate (unat group_id) 0, group_id))"

text \<open>\<^verbatim>\<open>remap\<close> numbers the groups in the order of their first value.\<close>

definition flat_renumber :: "'a::len word \<Rightarrow> ('a word \<Rightarrow> u32) \<times> u32 list \<times> u32 \<Rightarrow> (('a word \<Rightarrow> u32) \<times> u32 list \<times> u32) option" where
  "flat_renumber i s =
     (let (vals, remap, group_id) = s; v = unat (vals i) in
      if v < length remap then
        let (remap, group_id) = (if remap ! v = 0 then (remap[v := group_id], group_id + 1) else (remap, group_id))
        in Some (vals(i := remap ! v), remap, group_id)
      else None)"

definition flat_remap :: "'a::len word flat \<Rightarrow> 'a word flat option" where
  "flat_remap s =
     Option.bind (fold (\<lambda>i os. Option.bind os (flat_renumber i)) (map of_nat [0..<2 ^ LENGTH('a)])
         (Some (fl_values s, replicate (unat (fl_group_id s)) 0, 1)))
       (\<lambda>(vals, remap, group_id).
          if unat group_id > 2 ^ LENGTH('a) then None
          else Some (s\<lparr>fl_values := vals, fl_remap_group_ids := remap, fl_group_id := group_id\<rparr>))"

definition flat_compile :: "'a::len word flat \<Rightarrow> 'a word flat option" where
  "flat_compile s =
     (let (vals, remap, group_id) = fold flat_compile_filter (fl_filters s) (fl_values s, fl_remap_group_ids s, fl_group_id s)
      in flat_remap (s\<lparr>fl_values := vals, fl_remap_group_ids := remap, fl_group_id := group_id\<rparr>))"

text \<open>The groups of a filter: those of its values, or all groups from the first full range on.\<close>

primrec flat_groups :: "'a::len word ranges \<Rightarrow> 'a word flat \<Rightarrow> u32 list \<Rightarrow> u32 list" where
  "flat_groups [] s gs = gs"
| "flat_groups (r # rs) s gs =
     (if full_range r then fold add_new (map of_nat [1..<unat (fl_group_id s)]) gs
      else flat_groups rs s (fold (\<lambda>i. add_new (fl_values s i)) (range_values r) gs))"

definition flat_populate_filter :: "(u32 list \<Rightarrow> u32 list) \<Rightarrow> nat \<Rightarrow> 'a::len word flat \<Rightarrow> 'a word flat option" where
  "flat_populate_filter order filter_id s =
     (if filter_id < length (fl_filter_id_group_ids s) then
        let groups = order (flat_groups (fl_filters s ! filter_id) s [])
        in Some (s\<lparr>fl_filter_id_group_ids := (fl_filter_id_group_ids s)[filter_id := fl_filter_id_group_ids s ! filter_id @ groups],
                   fl_used_group_ids_set := fold add_new groups (fl_used_group_ids_set s)\<rparr>)
      else None)"

definition flat_populate :: "(u32 list \<Rightarrow> u32 list) \<Rightarrow> 'a::len word flat \<Rightarrow> 'a word flat option" where
  "flat_populate order s =
     map_option (\<lambda>s. s\<lparr>fl_used_group_ids_vec := fl_used_group_ids_vec s @ order (fl_used_group_ids_set s)\<rparr>)
       (fold (\<lambda>filter_id os. Option.bind os (flat_populate_filter order filter_id)) [0..<length (fl_filters s)] (Some s))"

definition flat_get :: "'a::len word \<Rightarrow> 'a word flat \<Rightarrow> u32" where
  "flat_get i s = fl_values s i"

definition flat_group_ids_by_filter :: "'a::len word ranges \<Rightarrow> 'a word flat \<Rightarrow> u32 list option" where
  "flat_group_ids_by_filter flt s =
     (case map_of (fl_filter_ids s) flt of
        Some i \<Rightarrow> if i < length (fl_filter_id_group_ids s) then Some (fl_filter_id_group_ids s ! i) else None
      | None \<Rightarrow> None)"

section \<open>Compilation follows the numbering of classes\<close>

definition in_ranges :: "'a::len word ranges \<Rightarrow> 'a word \<Rightarrow> bool" where
  "in_ranges rs i = list_ex (\<lambda>(a, b). a \<le> i \<and> i \<le> b) rs"

definition flat_visits :: "'a::len word ranges \<Rightarrow> 'a word list" where
  "flat_visits flt = concat (map range_values (filter (\<lambda>r. \<not> full_range r) flt))"

lemma set_range_values: "set (range_values r) = {fst r..snd r}"
proof -
  have "x \<in> of_nat ` {unat (fst r)..unat (snd r)}" if "fst r \<le> x" "x \<le> snd r" for x
    using that by (intro image_eqI [of _ _ "unat x"]) (auto simp: word_le_nat_alt)
  moreover have "fst r \<le> of_nat n \<and> of_nat n \<le> snd r" if "unat (fst r) \<le> n" "n \<le> unat (snd r)" for n
  proof -
    have "n < 2 ^ LENGTH('a)" using that(2) unsigned_less [of "snd r", where ?'a = nat] by linarith
    then show ?thesis using that by (simp add: word_le_nat_alt unat_of_nat_small)
  qed
  ultimately show ?thesis by (auto simp: range_values_def atLeastLessThanSuc_atLeastAtMost simp del: upt_Suc)
qed

lemma full_range_values: "full_range r \<Longrightarrow> {fst r..snd r} = UNIV"
  by (auto simp: full_range_def)

lemma in_ranges_visits: "in_ranges flt i \<longleftrightarrow> list_ex full_range flt \<or> i \<in> set (flat_visits flt)"
proof -
  have "(a \<le> i \<and> i \<le> b) \<longleftrightarrow> full_range (a, b) \<or> \<not> full_range (a, b) \<and> i \<in> set (range_values (a, b))" for a b
    using full_range_values [of "(a, b)"] by (auto simp: set_range_values set_eq_iff)
  then show ?thesis unfolding in_ranges_def flat_visits_def by (induction flt) auto
qed

lemma flat_compile_visits:
  "flat_compile_filter flt (vals, remap, group_id) = fold flat_visit (flat_visits flt) (vals, replicate (unat group_id) 0, group_id)"
proof -
  have "fold (\<lambda>r s. if full_range r then s else fold flat_visit (range_values r) s) flt s = fold flat_visit (flat_visits flt) s" for s
    by (induction flt arbitrary: s) (simp_all add: flat_visits_def)
  then show ?thesis by (simp add: flat_compile_filter_def)
qed

text \<open>The array holds the classes; the vector of the filter holds their new names.\<close>

definition flat_follows :: "nat \<Rightarrow> 'a::len word classes \<Rightarrow> ('a word \<Rightarrow> u32) \<times> u32 list \<times> u32 \<Rightarrow> bool" where
  "flat_follows n\<^sub>0 c s \<longleftrightarrow>
     (let (T, names, nxt) = c; (vals, remap, group_id) = s in
      (\<forall>i. T i < nxt \<and> vals i = of_nat (T i)) \<and> nxt < 2 ^ 32 \<and> group_id = of_nat nxt \<and> 0 < nxt \<and> length remap = n\<^sub>0 \<and>
      (\<forall>v < n\<^sub>0. case names v of None \<Rightarrow> remap ! v = 0 | Some g \<Rightarrow> 0 < g \<and> g < nxt \<and> remap ! v = of_nat g))"

lemma of_nat_nonzero: "0 < n \<Longrightarrow> n < 2 ^ 32 \<Longrightarrow> (of_nat n :: u32) \<noteq> 0"
  using unat_of_nat_small [where ?'a = 32, of n] by auto

lemma flat_visit_follows:
  assumes f: "flat_follows n\<^sub>0 c s" and room: "Suc (snd (snd c)) < 2 ^ 32"
  shows "flat_follows n\<^sub>0 (visit n\<^sub>0 i c) (flat_visit i s)"
proof -
  obtain T names nxt vals remap group_id where s: "c = (T, names, nxt)" "s = (vals, remap, group_id)" by (cases c, cases s)
  note F = f [unfolded flat_follows_def s, simplified]
  have v: "unat (vals i) = T i" using F by (simp add: unat_of_nat_small less_trans [of "T i" nxt])
  show ?thesis
  proof (cases "n\<^sub>0 \<le> T i")
    case True
    then show ?thesis using f F v by (simp add: s visit_def flat_visit_def)
  next
    case False
    then have cs: "case names (T i) of None \<Rightarrow> remap ! T i = 0 | Some g \<Rightarrow> 0 < g \<and> g < nxt \<and> remap ! T i = of_nat g" using F by simp
    show ?thesis
    proof (cases "names (T i)")
      case None
      have "case (names(T i \<mapsto> nxt)) v of None \<Rightarrow> (remap[T i := of_nat nxt]) ! v = 0
          | Some g \<Rightarrow> 0 < g \<and> g < Suc nxt \<and> (remap[T i := of_nat nxt]) ! v = of_nat g" if "v < n\<^sub>0" for v
        using F that False by (cases "v = T i") (auto simp: nth_list_update split: option.splits)
      then show ?thesis using F v cs None False room
        by (auto simp: s visit_def flat_visit_def flat_follows_def Let_def less_Suc_eq)
    next
      case (Some g)
      then have "(of_nat g :: u32) \<noteq> 0" using cs F by (intro of_nat_nonzero) auto
      then show ?thesis using F v cs Some False by (auto simp: s visit_def flat_visit_def flat_follows_def Let_def)
    qed
  qed
qed

lemma flat_visits_follow:
  assumes "flat_follows n\<^sub>0 c s" and "snd (snd c) + length is < 2 ^ 32"
  shows "flat_follows n\<^sub>0 (fold (visit n\<^sub>0) is c) (fold flat_visit is s) \<and> snd (snd (fold (visit n\<^sub>0) is c)) \<le> snd (snd c) + length is"
  using assms
proof (induction "is" arbitrary: c s)
  case (Cons i "is")
  have "flat_follows n\<^sub>0 (visit n\<^sub>0 i c) (flat_visit i s)" using Cons.prems by (intro flat_visit_follows) simp_all
  then show ?case using Cons.IH [of "visit n\<^sub>0 i c" "flat_visit i s"] Cons.prems(2) visit_grows(1) [of n\<^sub>0 i c] by fastforce
qed simp

text \<open>The array and the next group, compared with the reference between two filters.\<close>

definition flat_holds :: "('a::len word \<Rightarrow> nat) \<times> nat \<Rightarrow> ('a word \<Rightarrow> u32) \<times> u32 list \<times> u32 \<Rightarrow> bool" where
  "flat_holds c s \<longleftrightarrow> (\<forall>i. fst c i < snd c \<and> fst s i = of_nat (fst c i)) \<and> snd c < 2 ^ 32 \<and> snd (snd s) = of_nat (snd c) \<and> 0 < snd c"

lemma flat_filter_follows:
  assumes "flat_holds c s" and "snd c + length (flat_visits flt) < 2 ^ 32"
  shows "flat_holds (insert_class (flat_visits flt) c) (flat_compile_filter flt s) \<and> snd (insert_class (flat_visits flt) c) \<le> snd c + length (flat_visits flt)"
proof -
  obtain T n vals remap group_id where s: "c = (T, n)" "s = (vals, remap, group_id)" by (cases c, cases s)
  note H = assms(1) [unfolded flat_holds_def s, simplified]
  have n: "unat group_id = n" using H by (simp add: unat_of_nat_small)
  have "flat_follows n (T, Map.empty, n) (vals, replicate (unat group_id) 0, group_id)" using H n by (simp add: flat_follows_def)
  from flat_visits_follow [OF this, of "flat_visits flt"] show ?thesis using assms(2)
    by (auto simp: s flat_compile_visits insert_class_def visit_all_def flat_follows_def flat_holds_def split: prod.splits)
qed

lemma flat_filters_follow:
  assumes "1 + (\<Sum>flt \<leftarrow> fs. length (flat_visits flt)) < 2 ^ 32"
  shows "flat_holds (insert_classes (map flat_visits fs)) (fold flat_compile_filter fs ((\<lambda>_. 0), remap, 1))"
proof -
  have step: "flat_holds (fold insert_class (map flat_visits fs) c) (fold flat_compile_filter fs s)"
    if "flat_holds c s" "snd c + (\<Sum>flt \<leftarrow> fs. length (flat_visits flt)) < 2 ^ 32" for c s
    using that
  proof (induction fs arbitrary: c s)
    case (Cons flt fs)
    show ?case using flat_filter_follows [OF Cons.prems(1), of flt] Cons.prems(2) Cons.IH by fastforce
  qed simp
  have "flat_holds ((\<lambda>_. 0), 1) ((\<lambda>_. 0), remap, 1)" by (simp add: flat_holds_def)
  from step [OF this] show ?thesis using assms unfolding insert_classes_def by simp
qed

section \<open>Renumbering\<close>

definition renumbered :: "('a::len word \<Rightarrow> u32) \<Rightarrow> nat \<Rightarrow> 'a word set \<Rightarrow> ('a word \<Rightarrow> u32) \<times> u32 list \<times> u32 \<Rightarrow> bool" where
  "renumbered v\<^sub>0 n V s \<longleftrightarrow>
     (let (vals, remap, group_id) = s in
      length remap = n \<and> unat group_id = Suc (card (v\<^sub>0 ` V)) \<and>
      (\<forall>i. vals i = (if i \<in> V then remap ! unat (v\<^sub>0 i) else v\<^sub>0 i)) \<and>
      (\<forall>i \<in> V. 0 < remap ! unat (v\<^sub>0 i) \<and> remap ! unat (v\<^sub>0 i) < group_id) \<and>
      (\<forall>i \<in> V. \<forall>j \<in> V. remap ! unat (v\<^sub>0 i) = remap ! unat (v\<^sub>0 j) \<longrightarrow> v\<^sub>0 i = v\<^sub>0 j) \<and>
      (\<forall>i. v\<^sub>0 i \<notin> v\<^sub>0 ` V \<longrightarrow> remap ! unat (v\<^sub>0 i) = 0))"

lemma renumberedD:
  assumes "renumbered v\<^sub>0 n V (vals, remap, group_id)"
  shows "length remap = n" "unat group_id = Suc (card (v\<^sub>0 ` V))" "vals i = (if i \<in> V then remap ! unat (v\<^sub>0 i) else v\<^sub>0 i)"
    "i \<in> V \<Longrightarrow> 0 < remap ! unat (v\<^sub>0 i) \<and> remap ! unat (v\<^sub>0 i) < group_id"
    "i \<in> V \<Longrightarrow> j \<in> V \<Longrightarrow> remap ! unat (v\<^sub>0 i) = remap ! unat (v\<^sub>0 j) \<Longrightarrow> v\<^sub>0 i = v\<^sub>0 j"
    "v\<^sub>0 i \<notin> v\<^sub>0 ` V \<Longrightarrow> remap ! unat (v\<^sub>0 i) = 0"
  using assms unfolding renumbered_def prod.case Let_def by blast+

lemma renumberedI:
  assumes "length remap = n" and "unat group_id = Suc (card (v\<^sub>0 ` V))" and "\<And>i. vals i = (if i \<in> V then remap ! unat (v\<^sub>0 i) else v\<^sub>0 i)"
    and "\<And>i. i \<in> V \<Longrightarrow> 0 < remap ! unat (v\<^sub>0 i) \<and> remap ! unat (v\<^sub>0 i) < group_id"
    and "\<And>i j. i \<in> V \<Longrightarrow> j \<in> V \<Longrightarrow> remap ! unat (v\<^sub>0 i) = remap ! unat (v\<^sub>0 j) \<Longrightarrow> v\<^sub>0 i = v\<^sub>0 j"
    and "\<And>i. v\<^sub>0 i \<notin> v\<^sub>0 ` V \<Longrightarrow> remap ! unat (v\<^sub>0 i) = 0"
  shows "renumbered v\<^sub>0 n V (vals, remap, group_id)"
  using assms unfolding renumbered_def prod.case Let_def by blast

lemma renumber_step:
  fixes v\<^sub>0 :: "'a::len word \<Rightarrow> u32"
  assumes r: "renumbered v\<^sub>0 n V s" and below: "\<forall>i. unat (v\<^sub>0 i) < n" and i: "i \<notin> V" and w: "LENGTH('a) \<le> 16"
  shows "\<exists>s'. flat_renumber i s = Some s' \<and> renumbered v\<^sub>0 n (insert i V) s'"
proof -
  obtain vals remap group_id where s: "s = (vals, remap, group_id)" by (cases s)
  note R = renumberedD [OF r [unfolded s]]
  have v: "vals i = v\<^sub>0 i" using R(3) [of i] i by simp
  have "(2::nat) ^ LENGTH('a) \<le> 2 ^ 16" using w by (intro power_increasing) simp_all
  moreover have "card (v\<^sub>0 ` V) \<le> card (UNIV :: 'a word set)" using card_image_le [of V v\<^sub>0] card_mono [of "UNIV :: 'a word set" V] by simp
  ultimately have room: "Suc (unat group_id) < 2 ^ 32" using R(2) by (simp add: card_word)
  then have inc: "unat (group_id + 1) = Suc (unat group_id)" by (simp add: unat_word_ariths)
  show ?thesis
  proof (cases "v\<^sub>0 i \<in> v\<^sub>0 ` V")
    case True
    then obtain j where j: "j \<in> V" "v\<^sub>0 i = v\<^sub>0 j" by auto
    then have nz: "remap ! unat (v\<^sub>0 i) \<noteq> 0" using R(4) [of j] by auto
    have a: "\<exists>k' \<in> V. v\<^sub>0 k = v\<^sub>0 k'" if "k \<in> insert i V" for k using j that by auto
    have "renumbered v\<^sub>0 n (insert i V) (vals(i := remap ! unat (v\<^sub>0 i)), remap, group_id)"
    proof (rule renumberedI, unfold image_insert insert_absorb [OF True])
      show "(vals(i := remap ! unat (v\<^sub>0 i))) k = (if k \<in> insert i V then remap ! unat (v\<^sub>0 k) else v\<^sub>0 k)" for k using R(3) [of k] by simp
      show "0 < remap ! unat (v\<^sub>0 k) \<and> remap ! unat (v\<^sub>0 k) < group_id" if "k \<in> insert i V" for k using a [OF that] R(4) by metis
      show "v\<^sub>0 k = v\<^sub>0 l" if "k \<in> insert i V" "l \<in> insert i V" "remap ! unat (v\<^sub>0 k) = remap ! unat (v\<^sub>0 l)" for k l
        using a [OF that(1)] a [OF that(2)] R(5) that(3) by metis
    qed (use R(1,2,6) in blast)+
    then show ?thesis using R(1) v below nz by (simp add: s flat_renumber_def)
  next
    case False
    then have z: "remap ! unat (v\<^sub>0 i) = 0" by (rule R(6))
    let ?r = "remap[unat (v\<^sub>0 i) := group_id]"
    have new: "?r ! unat (v\<^sub>0 j) = (if v\<^sub>0 j = v\<^sub>0 i then group_id else remap ! unat (v\<^sub>0 j))" for j
      using below R(1) by (simp add: nth_list_update word_unat_eq_iff)
    have other: "v\<^sub>0 j \<noteq> v\<^sub>0 i" if "j \<in> V" for j using False that by (metis imageI)
    have gid: "0 < group_id" "group_id < group_id + 1" using R(2) inc by (auto simp: word_less_nat_alt)
    have old: "remap ! unat (v\<^sub>0 j) < group_id" "remap ! unat (v\<^sub>0 j) < group_id + 1" if "j \<in> V" for j
      using R(4) [OF that] gid(2) by (auto dest: less_trans)
    have "renumbered v\<^sub>0 n (insert i V) (vals(i := group_id), ?r, group_id + 1)"
    proof (rule renumberedI, unfold new)
      show "unat (group_id + 1) = Suc (card (v\<^sub>0 ` insert i V))" using inc R(2) False by simp
      show "(vals(i := group_id)) k = (if k \<in> insert i V then if v\<^sub>0 k = v\<^sub>0 i then group_id else remap ! unat (v\<^sub>0 k) else v\<^sub>0 k)" for k
        using R(3) [of k] other [of k] i by auto
      show "0 < (if v\<^sub>0 k = v\<^sub>0 i then group_id else remap ! unat (v\<^sub>0 k)) \<and> (if v\<^sub>0 k = v\<^sub>0 i then group_id else remap ! unat (v\<^sub>0 k)) < group_id + 1"
        if "k \<in> insert i V" for k using that R(4) [of k] gid old(2) [of k] by auto
      show "v\<^sub>0 k = v\<^sub>0 l" if "k \<in> insert i V" "l \<in> insert i V"
          "(if v\<^sub>0 k = v\<^sub>0 i then group_id else remap ! unat (v\<^sub>0 k)) = (if v\<^sub>0 l = v\<^sub>0 i then group_id else remap ! unat (v\<^sub>0 l))" for k l
        using that R(5) [of k l] old(1) [of k] old(1) [of l] by (auto split: if_splits)
    qed (use R(1,6) in auto)
    then show ?thesis using z v below R(1) new [of i] by (simp add: s flat_renumber_def)
  qed
qed

lemma renumber_all:
  fixes v\<^sub>0 :: "'a::len word \<Rightarrow> u32"
  assumes "\<forall>i. unat (v\<^sub>0 i) < n" and "LENGTH('a) \<le> 16" and "distinct is"
  shows "\<exists>s. fold (\<lambda>i os. Option.bind os (flat_renumber i)) is (Some (v\<^sub>0, replicate n 0, 1)) = Some s \<and> renumbered v\<^sub>0 n (set is) s"
  using assms(3)
proof (induction "is" rule: rev_induct)
  case Nil
  then show ?case using assms(1) by (simp add: renumbered_def)
next
  case (snoc i "is")
  then show ?case using renumber_step [OF _ assms(1) _ assms(2), of "set is" _ i] by fastforce
qed

lemma all_words: "distinct (map of_nat [0..<2 ^ LENGTH('a)] :: 'a::len word list)" "set (map of_nat [0..<2 ^ LENGTH('a)] :: 'a word list) = UNIV"
proof -
  show "distinct (map of_nat [0..<2 ^ LENGTH('a)] :: 'a::len word list)"
    unfolding distinct_map by (auto intro!: inj_on_inverseI [where g = unat] simp: unat_of_nat_small)
  have "x \<in> of_nat ` {0..<2 ^ LENGTH('a)}" for x :: "'a word" using unsigned_less [of x, where ?'a = nat]
    by (intro image_eqI [of _ _ "unat x"]) simp_all
  then show "set (map of_nat [0..<2 ^ LENGTH('a)] :: 'a word list) = UNIV" by auto
qed

text \<open>
  What \<^verbatim>\<open>compile\<close> leaves: groups from 1 on, two values in the same group if and only if the same filters visit
  them.  It throws if there are as many groups as values.
\<close>

definition flat_signature :: "'a::len word ranges list \<Rightarrow> 'a word \<Rightarrow> 'a word ranges set" where
  "flat_signature fs i = {flt \<in> set fs. i \<in> set (flat_visits flt)}"

definition flat_sorted :: "'a::len word ranges list \<Rightarrow> 'a word flat \<Rightarrow> bool" where
  "flat_sorted fs s \<longleftrightarrow> (\<forall>i. 0 < fl_values s i \<and> fl_values s i < fl_group_id s) \<and>
     (\<forall>i j. fl_values s i = fl_values s j \<longleftrightarrow> flat_signature fs i = flat_signature fs j) \<and>
     unat (fl_group_id s) = Suc (card (range (flat_signature fs)))"

lemma card_range_cong:
  assumes "\<And>i j. f i = f j \<longleftrightarrow> g i = g j"
  shows "card (range f) = card (range g)"
proof -
  have h: "g (inv f (f i)) = g i" for i using assms [of "inv f (f i)" i] by (simp add: f_inv_into_f)
  then have "inj_on (\<lambda>y. g (inv f y)) (range f)" using assms by (auto simp: inj_on_def)
  moreover have "(\<lambda>y. g (inv f y)) ` range f = range g" using h by (auto simp: image_image)
  ultimately show ?thesis by (metis card_image)
qed

lemma flat_compile_effect:
  fixes s :: "'a::len word flat"
  assumes fs: "fl_filters s = fs" "fl_values s = (\<lambda>_. 0)" "fl_group_id s = 1" and w: "LENGTH('a) \<le> 16"
    and room: "1 + (\<Sum>flt \<leftarrow> fs. length (flat_visits flt)) < 2 ^ 32"
  shows "if card (range (flat_signature fs)) < 2 ^ LENGTH('a)
     then \<exists>vals remap group_id. flat_compile s = Some (s\<lparr>fl_values := vals, fl_remap_group_ids := remap, fl_group_id := group_id\<rparr>) \<and>
       flat_sorted fs (s\<lparr>fl_values := vals, fl_remap_group_ids := remap, fl_group_id := group_id\<rparr>)
     else flat_compile s = None"
proof -
  let ?c = "insert_classes (map flat_visits fs)"
  obtain v\<^sub>0 r g where st: "fold flat_compile_filter fs ((\<lambda>_. 0), fl_remap_group_ids s, 1) = (v\<^sub>0, r, g)"
    by (cases "fold flat_compile_filter fs ((\<lambda>_. 0), fl_remap_group_ids s, 1)")
  have h: "\<forall>i. fst ?c i < snd ?c \<and> v\<^sub>0 i = of_nat (fst ?c i)" "snd ?c < 2 ^ 32" "g = of_nat (snd ?c)"
    using flat_filters_follow [OF room, of "fl_remap_group_ids s"] st by (simp_all add: flat_holds_def)
  have u: "unat (v\<^sub>0 i) = fst ?c i" for i using h by (simp add: unat_of_nat_small less_trans [of "fst ?c i" "snd ?c"])
  have g: "unat g = snd ?c" using h by (simp add: unat_of_nat_small)
  have sig: "v\<^sub>0 i = v\<^sub>0 j \<longleftrightarrow> flat_signature fs i = flat_signature fs j" for i j
  proof -
    have "v\<^sub>0 i = v\<^sub>0 j \<longleftrightarrow> fst ?c i = fst ?c j" using u by (metis word_unat_eq_iff)
    also have "\<dots> \<longleftrightarrow> (\<forall>flt \<in> set fs. i \<in> set (flat_visits flt) \<longleftrightarrow> j \<in> set (flat_visits flt))"
      using insert_classes_classified [of "map flat_visits fs"] by (simp add: classified_def)
    finally show ?thesis by (auto simp: flat_signature_def)
  qed
  have below: "\<forall>i. unat (v\<^sub>0 i) < unat g" using h(1) u g by simp
  obtain vals remap gid where fold: "fold (\<lambda>i os. Option.bind os (flat_renumber i)) (map of_nat [0..<2 ^ LENGTH('a)]) (Some (v\<^sub>0, replicate (unat g) 0, 1)) = Some (vals, remap, gid)"
      and ren: "renumbered v\<^sub>0 (unat g) UNIV (vals, remap, gid)"
    using renumber_all [OF below w all_words(1)] unfolding all_words(2) by (metis prod_cases3)
  note R = renumberedD [OF ren]
  have "card (range v\<^sub>0) = card (range (flat_signature fs))" using sig by (rule card_range_cong)
  then have card: "unat gid = Suc (card (range (flat_signature fs)))" using R(2) by simp
  have comp: "flat_compile s = (if unat gid > 2 ^ LENGTH('a) then None else Some (s\<lparr>fl_values := vals, fl_remap_group_ids := remap, fl_group_id := gid\<rparr>))"
    using st fold by (simp add: flat_compile_def flat_remap_def fs)
  have pos: "0 < vals i" "vals i < gid" for i using R(3,4) [of i] by auto
  have "vals i = vals j \<longleftrightarrow> flat_signature fs i = flat_signature fs j" for i j
    using R(3) [of i] R(3) [of j] R(5) [of i j] sig [of i j] by auto
  then have "flat_sorted fs (s\<lparr>fl_values := vals, fl_remap_group_ids := remap, fl_group_id := gid\<rparr>)"
    unfolding flat_sorted_def using pos card by simp
  then show ?thesis using comp card by auto
qed

section \<open>The groups of the filters\<close>

lemma set_add_values: "set (fold (\<lambda>i. add_new (f i)) is gs) = f ` set is \<union> set gs"
  by (induction "is" arbitrary: gs) auto

lemma set_flat_groups:
  assumes "\<forall>i. 0 < fl_values s i \<and> fl_values s i < fl_group_id s" and "\<forall>g \<in> set gs. 0 < g \<and> g < fl_group_id s"
  shows "set (flat_groups rs s gs) = (if list_ex full_range rs then {g. 0 < g \<and> g < fl_group_id s} else fl_values s ` set (flat_visits rs) \<union> set gs)"
  using assms(2)
proof (induction rs arbitrary: gs)
  case Nil
  then show ?case by (simp add: flat_visits_def)
next
  case (Cons r rs)
  have all: "of_nat ` {1..<unat n} = {g. 0 < g \<and> g < n}" for n :: u32
  proof -
    have "g \<in> of_nat ` {1..<unat n}" if "0 < g" "g < n" for g
      using that by (intro image_eqI [of _ _ "unat g"]) (auto simp: word_less_nat_alt Suc_le_eq)
    moreover have "0 < (of_nat k :: u32) \<and> of_nat k < n" if "1 \<le> k" "k < unat n" for k
      using that unsigned_less [of n, where ?'a = nat] by (simp add: word_less_nat_alt unat_of_nat_small)
    ultimately show ?thesis by auto
  qed
  show ?case
  proof (cases "full_range r")
    case True
    then show ?thesis using Cons.prems all [of "fl_group_id s"] by (auto simp: simp del: upt_Suc)
  next
    case False
    have "\<forall>g \<in> set (fold (\<lambda>i. add_new (fl_values s i)) (range_values r) gs). 0 < g \<and> g < fl_group_id s"
      using Cons.prems assms(1) by (auto simp: set_add_values)
    from Cons.IH [OF this] show ?thesis using False by (auto simp: flat_visits_def set_add_values)
  qed
qed

lemma flat_groups_exact:
  assumes "flat_sorted fs s" and "flt \<in> set fs"
  shows "flat_get i s \<in> set (flat_groups flt s []) \<longleftrightarrow> in_ranges flt i"
proof -
  have v: "\<forall>i. 0 < fl_values s i \<and> fl_values s i < fl_group_id s" using assms(1) by (simp add: flat_sorted_def)
  have "fl_values s i \<in> fl_values s ` set (flat_visits flt) \<longleftrightarrow> i \<in> set (flat_visits flt)"
    using assms unfolding flat_sorted_def flat_signature_def by blast
  then show ?thesis using v by (simp add: set_flat_groups [OF v] flat_get_def in_ranges_visits)
qed

lemma flat_populate_effect:
  fixes s :: "'a::len word flat"
  assumes empty: "fl_filter_id_group_ids s = replicate (length (fl_filters s)) []"
  shows "\<exists>used vec. flat_populate order s = Some (s\<lparr>fl_filter_id_group_ids := map (\<lambda>flt. order (flat_groups flt s [])) (fl_filters s),
     fl_used_group_ids_set := used, fl_used_group_ids_vec := vec\<rparr>)"
proof -
  let ?g = "\<lambda>flt. order (flat_groups flt s [])"
  have same: "flat_groups flt (s\<lparr>fl_filter_id_group_ids := a, fl_used_group_ids_set := b\<rparr>) gs = flat_groups flt s gs" for flt a b gs
    by (induction flt arbitrary: gs) simp_all
  have "\<exists>used. fold (\<lambda>filter_id os. Option.bind os (flat_populate_filter order filter_id)) [0..<n] (Some s) =
      Some (s\<lparr>fl_filter_id_group_ids := map ?g (take n (fl_filters s)) @ replicate (length (fl_filters s) - n) [], fl_used_group_ids_set := used\<rparr>)"
    if "n \<le> length (fl_filters s)" for n
    using that
  proof (induction n)
    case 0
    then show ?case using empty by (intro exI [of _ "fl_used_group_ids_set s"]) simp
  next
    case (Suc n)
    then have n: "n < length (fl_filters s)" by simp
    then have r: "replicate (length (fl_filters s) - n) ([] :: u32 list) = [] # replicate (length (fl_filters s) - Suc n) []"
      by (metis Suc_diff_Suc replicate_Suc)
    show ?case using Suc.IH n by (auto simp: flat_populate_filter_def Let_def same r nth_append list_update_append take_Suc_conv_app_nth)
  qed
  from this [of "length (fl_filters s)"] show ?thesis by (auto simp: flat_populate_def)
qed

section \<open>From filters to groups\<close>

text \<open>The calls that the compiler makes for one array, in their order.\<close>

definition flat_collect_all :: "'a::len word ranges list \<Rightarrow> 'a word flat" where
  "flat_collect_all fs = fold (\<lambda>flt s. snd (flat_collect flt s)) fs flat_clear"

definition flat_build :: "(u32 list \<Rightarrow> u32 list) \<Rightarrow> 'a::len word ranges list \<Rightarrow> 'a word flat option" where
  "flat_build order fs = Option.bind (flat_compile (flat_prepare (flat_collect_all fs))) (flat_populate order)"

definition flat_collected :: "'a::len word ranges list \<Rightarrow> 'a word flat \<Rightarrow> bool" where
  "flat_collected fs s \<longleftrightarrow> numbered (fl_filters s, fl_filter_ids s) \<and> fl_filters s = fold add_new fs [] \<and> fl_values s = (\<lambda>_. 0) \<and>
     fl_group_id s = 1 \<and> fl_filter_id_group_ids s = []"

lemma flat_collected_clear: "flat_collected [] flat_clear"
  by (simp add: flat_collected_def flat_clear_def)

lemma flat_collected_step: "flat_collected fs s \<Longrightarrow> flat_collected (fs @ [flt]) (snd (flat_collect flt s))"
  using collect_filter_effect(1,2) [of "(fl_filters s, fl_filter_ids s)" flt]
  by (cases "collect_filter flt (fl_filters s, fl_filter_ids s)") (auto simp: flat_collected_def flat_collect_def)

lemma flat_collected_all: "flat_collected fs (flat_collect_all fs)"
  by (induction fs rule: rev_induct) (auto simp: flat_collect_all_def flat_collected_clear intro: flat_collected_step)

lemma flat_signature_cong: "set fs = set gs \<Longrightarrow> flat_signature fs = flat_signature gs"
  by (simp add: flat_signature_def fun_eq_iff)

lemma flat_signature_count: "card (range (flat_signature fs)) \<le> 2 ^ length fs"
proof -
  have "range (flat_signature fs) \<subseteq> Pow (set fs)" by (auto simp: flat_signature_def)
  then have "card (range (flat_signature fs)) \<le> card (Pow (set fs))" by (intro card_mono) simp_all
  also have "\<dots> \<le> 2 ^ length fs" using card_length [of fs] by (simp add: card_Pow)
  finally show ?thesis .
qed

lemma flat_build_effect:
  fixes fs :: "'a::len word ranges list"
  assumes w: "LENGTH('a) \<le> 16" and room: "1 + (\<Sum>flt \<leftarrow> fs. length (flat_visits flt)) < 2 ^ 32"
  shows "if card (range (flat_signature fs)) < 2 ^ LENGTH('a)
     then \<exists>s. flat_build order fs = Some s \<and> flat_sorted fs s \<and> numbered (fl_filters s, fl_filter_ids s) \<and> fl_filters s = fold add_new fs [] \<and>
       fl_filter_id_group_ids s = map (\<lambda>flt. order (flat_groups flt s [])) (fl_filters s)
     else flat_build order fs = None"
proof -
  let ?s = "flat_prepare (flat_collect_all fs)" let ?fs = "fold add_new fs []"
  have col: "flat_collected fs (flat_collect_all fs)" by (rule flat_collected_all)
  then have "length (fl_filter_ids (flat_collect_all fs)) = length ?fs" by (simp add: flat_collected_def numbered_def)
  then have s: "fl_filters ?s = ?fs" "fl_values ?s = (\<lambda>_. 0)" "fl_group_id ?s = 1" "fl_filter_id_group_ids ?s = replicate (length ?fs) []"
      "numbered (fl_filters ?s, fl_filter_ids ?s)"
    using col by (auto simp: flat_prepare_def Let_def flat_collected_def)
  have "1 + (\<Sum>flt \<leftarrow> ?fs. length (flat_visits flt)) < 2 ^ 32" using room sum_add_new [of "\<lambda>flt. length (flat_visits flt)" fs "[]"] by simp
  note E = flat_compile_effect [OF s(1-3) w this]
  have sig: "flat_signature ?fs = flat_signature fs" by (rule flat_signature_cong) simp
  have sorted: "flat_sorted ?fs s = flat_sorted fs s" for s by (simp add: flat_sorted_def sig)
  have same: "flat_groups flt (s\<lparr>fl_filter_id_group_ids := a, fl_used_group_ids_set := b, fl_used_group_ids_vec := c\<rparr>) gs = flat_groups flt s gs" for flt a b c gs and s :: "'a word flat"
    by (induction flt arbitrary: gs) simp_all
  show ?thesis
  proof (cases "card (range (flat_signature fs)) < 2 ^ LENGTH('a)")
    case True
    then obtain vals remap group_id where c: "flat_compile ?s = Some (?s\<lparr>fl_values := vals, fl_remap_group_ids := remap, fl_group_id := group_id\<rparr>)"
        "flat_sorted fs (?s\<lparr>fl_values := vals, fl_remap_group_ids := remap, fl_group_id := group_id\<rparr>)"
      using E unfolding sig sorted by auto
    let ?t = "?s\<lparr>fl_values := vals, fl_remap_group_ids := remap, fl_group_id := group_id\<rparr>"
    obtain used vec where p: "flat_populate order ?t = Some (?t\<lparr>fl_filter_id_group_ids := map (\<lambda>flt. order (flat_groups flt ?t [])) (fl_filters ?t),
        fl_used_group_ids_set := used, fl_used_group_ids_vec := vec\<rparr>)"
      using flat_populate_effect [of ?t order] s(1,4) by auto
    have "flat_sorted fs (?t\<lparr>fl_filter_id_group_ids := map (\<lambda>flt. order (flat_groups flt ?t [])) (fl_filters ?t),
        fl_used_group_ids_set := used, fl_used_group_ids_vec := vec\<rparr>)" using c(2) by (simp add: flat_sorted_def)
    then show ?thesis using True c(1) p s(1,5) by (simp add: flat_build_def same)
  next
    case False
    then show ?thesis using E unfolding sig by (simp add: flat_build_def)
  qed
qed

section \<open>Properties\<close>

text \<open>
  C9: the arrays of protocols, ports and flags decide their filters exactly.  For values of at most 16 bits, and ranges
  whose sizes add up to less than 2 to the 32nd, building an array from a list of filters returns unless the
  filters tell all values apart, in which case it throws; and then the group of a value is among the groups
  of a filter if and only if the value is in one of the filter's ranges, in whatever order the hash
  sets are visited.
\<close>

theorem flat_groups_decide:
  fixes fs :: "'a::len word ranges list"
  assumes "LENGTH('a) \<le> 16" and "1 + (\<Sum>flt \<leftarrow> fs. length (flat_visits flt)) < 2 ^ 32" and "visits_each order"
  shows "if card (range (flat_signature fs)) < 2 ^ LENGTH('a)
     then \<exists>s. flat_build order fs = Some s \<and>
       (\<forall>flt \<in> set fs. \<exists>groups. flat_group_ids_by_filter flt s = Some groups \<and> (\<forall>i. flat_get i s \<in> set groups \<longleftrightarrow> in_ranges flt i))
     else flat_build order fs = None"
proof (cases "card (range (flat_signature fs)) < 2 ^ LENGTH('a)")
  case True
  then obtain s where s: "flat_build order fs = Some s" "flat_sorted fs s" "numbered (fl_filters s, fl_filter_ids s)" "fl_filters s = fold add_new fs []"
      "fl_filter_id_group_ids s = map (\<lambda>flt. order (flat_groups flt s [])) (fl_filters s)"
    using flat_build_effect [OF assms(1,2), of order] by auto
  have "\<exists>groups. flat_group_ids_by_filter flt s = Some groups \<and> (\<forall>i. flat_get i s \<in> set groups \<longleftrightarrow> in_ranges flt i)" if "flt \<in> set fs" for flt
  proof -
    have "flt \<in> set (fl_filters s)" using that s(4) by simp
    then obtain k where k: "k < length (fl_filters s)" "fl_filters s ! k = flt" by (auto simp: in_set_conv_nth)
    then have "map_of (fl_filter_ids s) flt = Some k" using s(3) by (simp add: numbered_def)
    then show ?thesis using k s(5) flat_groups_exact [OF s(2) that] assms(3) by (simp add: flat_group_ids_by_filter_def)
  qed
  then show ?thesis using True s(1) by auto
next
  case False
  then show ?thesis using flat_build_effect [OF assms(1,2), of order] by simp
qed

theorem flat_groups_decide_witness:
  "\<exists>s groups. flat_build rev [[(6, 6)], [(0, - 1)]] = Some s \<and> flat_group_ids_by_filter [(6, 6)] s = Some groups \<and>
     flat_get (6 :: u8) s \<in> set groups \<and> flat_get 17 s \<notin> set groups"
proof -
  let ?fs = "[[(6, 6)], [(0, - 1)]] :: u8 ranges list"
  have "card (range (flat_signature ?fs)) < 2 ^ LENGTH(8)" using flat_signature_count [of ?fs] by simp
  moreover have "visits_each rev" by (simp add: visits_each_def)
  moreover have "1 + (\<Sum>flt \<leftarrow> ?fs. length (flat_visits flt)) < 2 ^ 32" by (simp add: flat_visits_def range_values_def full_range_def)
  ultimately obtain s where s: "flat_build rev ?fs = Some s"
      "\<forall>flt \<in> set ?fs. \<exists>groups. flat_group_ids_by_filter flt s = Some groups \<and> (\<forall>i. flat_get i s \<in> set groups \<longleftrightarrow> in_ranges flt i)"
    using flat_groups_decide [where ?'a = 8, of ?fs rev] by auto
  have "in_ranges [(6 :: u8, 6)] 6" "\<not> in_ranges [(6 :: u8, 6)] 17" by (simp_all add: in_ranges_def)
  then show ?thesis using s by auto
qed

end
