(* ===== verification/AclTree.thy ===== *)
theory AclTree
  imports Prelude StdMap "HOL-Library.Product_Lexorder"
begin

text \<open>
  The tree of the ACL compiler, \<^verbatim>\<open>tree_t\<close> of \<^verbatim>\<open>src/controlplane/acl_tree.h\<close>, with the tree values of
  \<^verbatim>\<open>src/common/acl.h\<close>, for steps of 8 bits as the compiler uses it.  A chunk has one value for each byte;
  a value is a group or the number of the next chunk.  Addresses and masks are words of any width.  A
  \<^verbatim>\<open>std::runtime_error\<close> is \<open>None\<close>; so is a walk over the values below a value that goes deeper than the
  number of bytes of an address.  The reserved size of the vector of chunks is part of the state because
  \<^verbatim>\<open>allocate_chunk\<close> tests it.
\<close>

section \<open>Values and chunks\<close>

definition value_is_empty :: "u32 \<Rightarrow> bool" where
  "value_is_empty v = (v = 0)"

definition is_chunk_id :: "u32 \<Rightarrow> bool" where
  "is_chunk_id v = (v AND 0x80000000 \<noteq> 0)"

definition get_chunk_id :: "u32 \<Rightarrow> u32" where
  "get_chunk_id v = v XOR 0x80000000"

definition set_chunk_id :: "u32 \<Rightarrow> u32" where
  "set_chunk_id chunk_id = chunk_id XOR 0x80000000"

record tree_chunk =
  is_multirefs :: u8
  chunk_values :: "u8 \<Rightarrow> u32"

definition new_chunk :: tree_chunk where
  "new_chunk = \<lparr>is_multirefs = 0, chunk_values = (\<lambda>_. 0)\<rparr>"

text \<open>The vector of chunks with its capacity.\<close>

record arena =
  tr_chunks :: "tree_chunk list"
  tr_capacity :: nat

definition reserve_chunks :: "nat \<Rightarrow> 's arena_scheme \<Rightarrow> 's arena_scheme" where
  "reserve_chunks chunks_bucket_size t =
     (if tr_capacity t - length (tr_chunks t) < chunks_bucket_size
      then t\<lparr>tr_capacity := tr_capacity t + chunks_bucket_size\<rparr> else t)"

definition allocate_chunk :: "'s arena_scheme \<Rightarrow> (u32 \<times> 's arena_scheme) option" where
  "allocate_chunk t =
     (if length (tr_chunks t) = tr_capacity t then None
      else Some (of_nat (length (tr_chunks t)), t\<lparr>tr_chunks := tr_chunks t @ [new_chunk]\<rparr>))"

definition chunk_at :: "'s arena_scheme \<Rightarrow> u32 \<Rightarrow> tree_chunk" where
  "chunk_at t c = tr_chunks t ! unat c"

abbreviation value_at :: "'s arena_scheme \<Rightarrow> u32 \<Rightarrow> u8 \<Rightarrow> u32" where
  "value_at t c i \<equiv> chunk_values (chunk_at t c) i"

definition put_tree_chunk :: "u32 \<Rightarrow> tree_chunk \<Rightarrow> 's arena_scheme \<Rightarrow> 's arena_scheme" where
  "put_tree_chunk c chunk t = t\<lparr>tr_chunks := (tr_chunks t)[unat c := chunk]\<rparr>"

definition put_value :: "u32 \<Rightarrow> u8 \<Rightarrow> u32 \<Rightarrow> 's arena_scheme \<Rightarrow> 's arena_scheme" where
  "put_value c i v t = put_tree_chunk c ((chunk_at t c)\<lparr>chunk_values := (chunk_values (chunk_at t c))(i := v)\<rparr>) t"

section \<open>Masks\<close>

definition is_mask_gapped :: "'a::len word \<Rightarrow> bool" where
  "is_mask_gapped m = ((m OR (m - 1)) + 1 \<noteq> 0)"

definition step_mask :: "'a::len word \<Rightarrow> u8" where
  "step_mask m = ucast (drop_bit (LENGTH('a) - 8) m)"

definition step_address :: "'a::len word \<Rightarrow> 'a word \<Rightarrow> u8" where
  "step_address address m = ucast (drop_bit (LENGTH('a) - 8) address) AND step_mask m"

text \<open>The values that a step visits: \<^verbatim>\<open>step_address + i\<close> for \<^verbatim>\<open>i <= ((~step_mask) & bits_mask)\<close>.\<close>

definition step_range :: "'a::len word \<Rightarrow> 'a word \<Rightarrow> u8 list" where
  "step_range address m = map (\<lambda>i. step_address address m + of_nat i) [0..<Suc (unat (NOT (step_mask m)))]"

definition all_bytes :: "u8 list" where
  "all_bytes = map of_nat [0..<256]"

text \<open>The number of shifts that leave something of a mask: the measure of the recursion over the bytes.\<close>

definition mask_steps :: "'a::len word \<Rightarrow> nat" where
  "mask_steps m = card {k. k < LENGTH('a) \<and> push_bit k m \<noteq> 0}"

lemma mask_steps_decreases:
  fixes m :: "'a::len word"
  assumes "m \<noteq> 0"
  shows "mask_steps (push_bit 8 m) < mask_steps m"
proof -
  let ?S = "{k. k < LENGTH('a) \<and> push_bit k m \<noteq> 0}" let ?S' = "{k. k < LENGTH('a) \<and> push_bit k (push_bit 8 m) \<noteq> 0}"
  have "k + 8 \<in> ?S - {0}" if "k \<in> ?S'" for k
  proof -
    have nz: "push_bit (k + 8) m \<noteq> 0" using that by (simp add: push_bit_push_bit)
    have "k + 8 < LENGTH('a)"
    proof (rule ccontr)
      assume "\<not> k + 8 < LENGTH('a)"
      then have "push_bit (k + 8) m = 0" by (intro bit_word_eqI) (simp add: bit_push_bit_iff)
      then show False using nz by simp
    qed
    then show ?thesis using nz by simp
  qed
  then have "card ((\<lambda>k. k + 8) ` ?S') \<le> card (?S - {0})" by (intro card_mono image_subsetI) simp_all
  moreover have "card ((\<lambda>k. k + 8) ` ?S') = card ?S'" by (intro card_image inj_onI) simp
  moreover have "card (?S - {0}) < card ?S" using assms by (intro card_Diff1_less) simp_all
  ultimately show ?thesis by (simp add: mask_steps_def)
qed

lemma shifted_steps: "push_bit 8 m \<noteq> 0 \<Longrightarrow> mask_steps (push_bit 8 m) < mask_steps m"
  using mask_steps_decreases [of m] by (metis push_bit_of_0)

lemma gapped_steps: "is_mask_gapped m \<Longrightarrow> mask_steps (push_bit 8 m) < mask_steps m"
  using mask_steps_decreases [of m] by (cases "m = 0") (simp_all add: is_mask_gapped_def)

section \<open>Inserting a prefix\<close>

record inserting = arena +
  in_group_id :: u32
  in_remap :: "u32 list"

text \<open>The last branch of \<^verbatim>\<open>update_group_id_next\<close>: a group of the earlier rules is renamed.\<close>

definition update_group_id :: "u32 \<Rightarrow> u8 \<Rightarrow> inserting \<Rightarrow> inserting" where
  "update_group_id c i t =
     (let group = value_at t c i in
      if unat group < length (in_remap t) then
        let t = (if in_remap t ! unat group = 0
                 then t\<lparr>in_remap := (in_remap t)[unat group := in_group_id t], in_group_id := in_group_id t + 1\<rparr> else t)
        in put_value c i (in_remap t ! unat group) t
      else t)"

primrec update_group_id_next :: "nat \<Rightarrow> u32 \<Rightarrow> u8 \<Rightarrow> inserting \<times> u32 list \<Rightarrow> (inserting \<times> u32 list) option" where
  "update_group_id_next 0 c i s = None"
| "update_group_id_next (Suc n) c i s =
     (case s of (t, prev_chunk_ids) \<Rightarrow>
        let v = value_at t c i in
        if is_chunk_id v then
          if get_chunk_id v \<in> set prev_chunk_ids then Some s
          else map_option (\<lambda>(t, prev). (t, get_chunk_id v # prev))
                 (fold (\<lambda>j os. Option.bind os (update_group_id_next n (get_chunk_id v) j)) all_bytes (Some s))
        else Some (update_group_id c i t, prev_chunk_ids))"

text \<open>A chunk with several references is copied before it is changed.\<close>

definition unshare :: "u32 \<Rightarrow> u8 \<Rightarrow> 's arena_scheme \<Rightarrow> 's arena_scheme option" where
  "unshare c i t =
     (let next = chunk_at t (get_chunk_id (value_at t c i)) in
      if is_multirefs next \<noteq> 0
      then map_option (\<lambda>(new_chunk_id, t). put_value c i (set_chunk_id new_chunk_id) (put_tree_chunk new_chunk_id (next\<lparr>is_multirefs := 0\<rparr>) t))
             (allocate_chunk t)
      else Some t)"

text \<open>The first half of \<^verbatim>\<open>insert_step_next\<close>: after it the value refers to a chunk of its own.\<close>

definition insert_next :: "u32 \<Rightarrow> u8 \<Rightarrow> inserting \<Rightarrow> inserting option" where
  "insert_next c i t =
     (let v = value_at t c i in
      if \<not> is_chunk_id v then
        map_option (\<lambda>(new_chunk_id, t).
            let t = (if v \<noteq> 0 then put_tree_chunk new_chunk_id ((chunk_at t new_chunk_id)\<lparr>chunk_values := (\<lambda>_. v)\<rparr>) t else t)
            in put_value c i (set_chunk_id new_chunk_id) t)
          (allocate_chunk t)
      else unshare c i t)"

text \<open>The loop of \<^verbatim>\<open>insert_step_last\<close>.\<close>

definition insert_last :: "nat \<Rightarrow> u32 \<Rightarrow> u8 list \<Rightarrow> inserting \<Rightarrow> inserting option" where
  "insert_last n c bytes t =
     map_option fst
       (fold (\<lambda>i os. Option.bind os (\<lambda>(t, prev).
            Option.bind (if is_chunk_id (value_at t c i) then unshare c i t else Some t)
              (\<lambda>t. update_group_id_next n c i (t, prev)))) bytes (Some (t, [])))"

function insert_step :: "'a::len word \<Rightarrow> 'a word \<Rightarrow> u32 \<Rightarrow> inserting \<Rightarrow> inserting option" where
  "insert_step address m c t =
     (let next_mask = push_bit 8 m in
      if next_mask \<noteq> 0 then
        Option.bind (insert_next c (step_address address m) t)
          (\<lambda>t. insert_step (push_bit 8 address) next_mask (get_chunk_id (value_at t c (step_address address m))) t)
      else insert_last (LENGTH('a) div 8) c (step_range address m) t)"
  by pat_completeness auto

termination insert_step
  by (relation "measure (\<lambda>(address, m, c, t). mask_steps m)") (simp_all add: shifted_steps)

section \<open>Lookup, groups of a prefix, renaming\<close>

primrec lookup_step :: "nat \<Rightarrow> 'a::len word \<Rightarrow> u32 \<Rightarrow> 's arena_scheme \<Rightarrow> u32 option" where
  "lookup_step 0 address c t = None"
| "lookup_step (Suc n) address c t =
     (let v = value_at t c (ucast (drop_bit (LENGTH('a) - 8) address)) in
      if is_chunk_id v then lookup_step n (push_bit 8 address) (get_chunk_id v) t else Some v)"

definition mark_group :: "u32 \<Rightarrow> u8 list \<Rightarrow> u8 list option" where
  "mark_group g bitmask = (if unat g < length bitmask then Some (bitmask[unat g := 1]) else None)"

primrec get_group_id_next :: "nat \<Rightarrow> 's arena_scheme \<Rightarrow> u32 \<Rightarrow> u8 list \<times> u32 list \<Rightarrow> (u8 list \<times> u32 list) option" where
  "get_group_id_next 0 t v s = None"
| "get_group_id_next (Suc n) t v s =
     (case s of (bitmask, prev_chunk_ids) \<Rightarrow>
        if is_chunk_id v then
          if get_chunk_id v \<in> set prev_chunk_ids then Some s
          else map_option (\<lambda>(bitmask, prev). (bitmask, get_chunk_id v # prev))
                 (fold (\<lambda>j os. Option.bind os (get_group_id_next n t (value_at t (get_chunk_id v) j))) all_bytes (Some s))
        else map_option (\<lambda>bitmask. (bitmask, prev_chunk_ids)) (mark_group v bitmask))"

function get_step :: "'a::len word \<Rightarrow> 'a word \<Rightarrow> 's arena_scheme \<Rightarrow> u32 \<Rightarrow> u8 list \<Rightarrow> u8 list option" where
  "get_step address m t c bitmask =
     (let next_mask = push_bit 8 m in
      if \<not> is_mask_gapped m then
        if next_mask \<noteq> 0 then
          let v = value_at t c (step_address address m) in
          if \<not> is_chunk_id v then mark_group v bitmask
          else get_step (push_bit 8 address) next_mask t (get_chunk_id v) bitmask
        else map_option fst
          (fold (\<lambda>i os. Option.bind os (get_group_id_next (LENGTH('a) div 8) t (value_at t c i))) (step_range address m) (Some (bitmask, [])))
      else map_option fst
        (fold (\<lambda>i os. Option.bind os (\<lambda>(bitmask, prev).
            let v = value_at t c i in
            if is_chunk_id v then
              if get_chunk_id v \<in> set prev then Some (bitmask, prev)
              else map_option (\<lambda>bitmask. (bitmask, get_chunk_id v # prev)) (get_step (push_bit 8 address) next_mask t (get_chunk_id v) bitmask)
            else None)) (step_range address m) (Some (bitmask, []))))"
  by pat_completeness auto

termination get_step
  by (relation "measure (\<lambda>(address, m, t, c, bitmask). mask_steps m)") (simp_all add: shifted_steps gapped_steps)

text \<open>The body of the loop of \<^verbatim>\<open>remap_chunk\<close>; \<^verbatim>\<open>next_chunk_ids\<close> is an ordered set.\<close>

definition remap_value :: "u32 \<Rightarrow> u32 list \<Rightarrow> u8 \<Rightarrow> 's arena_scheme \<times> u32 list \<times> u32 list \<Rightarrow> ('s arena_scheme \<times> u32 list \<times> u32 list) option" where
  "remap_value c remap_group_ids i s =
     (case s of (t, prev_chunk_ids, next_chunk_ids) \<Rightarrow>
        let v = value_at t c i in
        if is_chunk_id v then
          if get_chunk_id v \<in> set prev_chunk_ids then Some s
          else Some (t, get_chunk_id v # prev_chunk_ids, insort_insert (get_chunk_id v) next_chunk_ids)
        else if unat v < length remap_group_ids then Some (put_value c i (remap_group_ids ! unat v) t, prev_chunk_ids, next_chunk_ids)
        else None)"

primrec remap_chunk :: "nat \<Rightarrow> u32 list \<Rightarrow> u32 \<Rightarrow> 's arena_scheme \<times> u32 list \<Rightarrow> ('s arena_scheme \<times> u32 list) option" where
  "remap_chunk 0 remap_group_ids c s = None"
| "remap_chunk (Suc n) remap_group_ids c s =
     (case s of (t, prev_chunk_ids) \<Rightarrow>
        Option.bind (fold (\<lambda>i os. Option.bind os (remap_value c remap_group_ids i)) all_bytes (Some (t, prev_chunk_ids, [])))
          (\<lambda>(t, prev_chunk_ids, next_chunk_ids).
             fold (\<lambda>next_id os. Option.bind os (remap_chunk n remap_group_ids next_id)) next_chunk_ids (Some (t, prev_chunk_ids))))"

declare insert_step.simps [simp del] get_step.simps [simp del]

section \<open>Masks with a gap\<close>

text \<open>
  A mask with one gap, like \<^verbatim>\<open>ffff:0000:ff00::\<close>, is first laid out as a chain of chunks that many values
  share; the part after the gap is built in a separate warp chunk, which \<^verbatim>\<open>merge\<close> combines with the
  chunks at the end of the chain.
\<close>

definition pop_count :: "'a::len word \<Rightarrow> nat" where
  "pop_count m = length (filter (bit m) [0..<LENGTH('a)])"

definition warp_of :: "'a::len word \<Rightarrow> 'a word" where
  "warp_of m = m OR (m - 1)"

definition shadow_of :: "'a::len word \<Rightarrow> 'a word" where
  "shadow_of warp_mask = warp_mask AND (warp_mask + 1)"

record 'a tree = arena +
  chunks_bucket_size :: nat
  prefixes :: "(nat \<times> 'a \<times> 'a) list"
  intersection_prefixes :: "('a \<times> 'a, 'a) std_map"
  saved_group_ids :: "('a \<times> 'a, u8 list) std_map"
  multirefs_chunk_ids :: "('a \<times> 'a, u32 list) std_map"
  warp_chunk_ids :: "('a \<times> 'a, nat \<times> u32) std_map"
  merge_group_id :: u32
  merge_warp_extended_chunk_ids :: "(u32, u32) std_map"
  merge_remap_chunks :: "(u32 \<times> u32, u32) std_map"

definition tree_clear :: "nat \<Rightarrow> 'a::len word tree \<Rightarrow> 'a word tree" where
  "tree_clear bucket t =
     \<lparr>tr_chunks = [new_chunk], tr_capacity = max (tr_capacity t) bucket, chunks_bucket_size = bucket, prefixes = [],
      intersection_prefixes = [], saved_group_ids = [], multirefs_chunk_ids = [], warp_chunk_ids = [],
      merge_group_id = 0, merge_warp_extended_chunk_ids = [], merge_remap_chunks = []\<rparr>"

definition tree_collect :: "'a::len word \<Rightarrow> 'a word \<Rightarrow> 'a word tree \<Rightarrow> 'a word tree" where
  "tree_collect address m t =
     (let gap_size = (if is_mask_gapped m then pop_count (warp_of m) else 0)
      in t\<lparr>prefixes := insort_insert (gap_size, address, m) (prefixes t)\<rparr>)"

function prepare_gapped_step :: "'a::len word \<Rightarrow> 'a word \<Rightarrow> u32 \<Rightarrow> 's arena_scheme \<Rightarrow> (u32 \<times> 's arena_scheme) option" where
  "prepare_gapped_step address m c t =
     (if \<not> is_mask_gapped m then allocate_chunk t
      else if step_mask m = 0xFF then
        let i = step_address address m in
        Option.bind (if is_chunk_id (value_at t c i) then Some t
                     else map_option (\<lambda>(new_id, t). put_value c i (set_chunk_id new_id) t) (allocate_chunk t))
          (\<lambda>t. prepare_gapped_step (push_bit 8 address) (push_bit 8 m) (get_chunk_id (value_at t c i)) t)
      else
        Option.bind (allocate_chunk t) (\<lambda>(new_id, t).
        let t = put_tree_chunk new_id ((chunk_at t new_id)\<lparr>is_multirefs := 1\<rparr>) t in
        Option.bind (fold (\<lambda>i ot. Option.bind ot (\<lambda>t. if is_chunk_id (value_at t c i) then None
                                                        else Some (put_value c i (set_chunk_id new_id) t)))
                      (step_range address m) (Some t))
          (\<lambda>t. prepare_gapped_step (push_bit 8 address) (push_bit 8 m) new_id t)))"
  by pat_completeness auto

termination prepare_gapped_step
  by (relation "measure (\<lambda>(address, m, c, t). mask_steps m)") (simp_all add: gapped_steps)

function prepare_simple_step :: "'a::len word \<Rightarrow> 'a word \<Rightarrow> 'a word \<Rightarrow> u32 \<Rightarrow> 's arena_scheme \<Rightarrow> 's arena_scheme option" where
  "prepare_simple_step address m warp_mask c t =
     (if \<not> is_mask_gapped warp_mask then Some t
      else if step_mask m = 0xFF then
        let i = step_address address m in
        if is_chunk_id (value_at t c i) then
          Option.bind (unshare c i t)
            (\<lambda>t. prepare_simple_step (push_bit 8 address) (push_bit 8 m) (push_bit 8 warp_mask) (get_chunk_id (value_at t c i)) t)
        else None
      else
        Option.bind (allocate_chunk t) (\<lambda>(new_id, t).
        let t = put_tree_chunk new_id ((chunk_at t new_id)\<lparr>is_multirefs := 1\<rparr>) t;
            t = fold (\<lambda>i t.
                  let v = value_at t c i in
                  if is_chunk_id v then
                    if is_multirefs (chunk_at t (get_chunk_id v)) \<noteq> 0 then put_value c i (set_chunk_id new_id) t else t
                  else put_value c i (set_chunk_id new_id) t) (step_range address m) t
        in prepare_simple_step (push_bit 8 address) (push_bit 8 m) (push_bit 8 warp_mask) new_id t))"
  by pat_completeness auto

termination prepare_simple_step
  by (relation "measure (\<lambda>(address, m, warp_mask, c, t). mask_steps warp_mask)") (simp_all add: gapped_steps)

function get_last_gapped_chunks_step :: "'a::len word \<Rightarrow> 'a word \<Rightarrow> 's arena_scheme \<Rightarrow> u32 \<Rightarrow> u32 list \<Rightarrow> u32 list option" where
  "get_last_gapped_chunks_step address m t c last_gapped_chunks =
     (if \<not> is_mask_gapped m then Some (insort_insert c last_gapped_chunks)
      else map_option fst
        (fold (\<lambda>i os. Option.bind os (\<lambda>(last_chunks, prev).
            let v = value_at t c i in
            if is_chunk_id v then
              if get_chunk_id v \<in> set prev then Some (last_chunks, prev)
              else map_option (\<lambda>last_chunks. (last_chunks, get_chunk_id v # prev))
                     (get_last_gapped_chunks_step (push_bit 8 address) (push_bit 8 m) t (get_chunk_id v) last_chunks)
            else None)) (step_range address m) (Some (last_gapped_chunks, []))))"
  by pat_completeness auto

termination get_last_gapped_chunks_step
  by (relation "measure (\<lambda>(address, m, t, c, l). mask_steps m)") (simp_all add: gapped_steps)

declare prepare_gapped_step.simps [simp del] prepare_simple_step.simps [simp del] get_last_gapped_chunks_step.simps [simp del]

text \<open>
  \<^verbatim>\<open>prepare_gapped\<close>.  A prefix that shares its shadow with an earlier one is not laid out again but
  recorded as an intersection.
\<close>

definition shares_shadow :: "'a::len word \<Rightarrow> 'a word \<Rightarrow> ('a word \<times> 'a word) \<times> nat \<times> u32 \<Rightarrow> bool" where
  "shares_shadow warp_address warp_mask entry =
     (let ((prev_address, prev_mask), _) = entry;
          shared_shadow_mask = shadow_of warp_mask AND shadow_of prev_mask
      in warp_address AND shared_shadow_mask = prev_address AND shared_shadow_mask)"

definition warp_shift :: "'a::len word \<Rightarrow> nat" where
  "warp_shift warp_mask = LENGTH('a) - (pop_count warp_mask - pop_count (shadow_of warp_mask))"

definition prepare_gapped :: "'a::len word \<Rightarrow> 'a word \<Rightarrow> 'a word tree \<Rightarrow> 'a word tree option" where
  "prepare_gapped address m t =
     (let warp_mask = warp_of m;
          warp_address = address AND shadow_of warp_mask;
          shift = warp_shift warp_mask in
      if map_of (warp_chunk_ids t) (warp_address, warp_mask) \<noteq> None then Some t
      else if is_mask_gapped (shadow_of warp_mask) then None
      else if shift mod 8 \<noteq> 0 then None
      else case List.find (shares_shadow warp_address warp_mask) (warp_chunk_ids t) of
          Some ((prev_address, prev_mask), (prev_shift, _)) \<Rightarrow>
            if prev_shift \<noteq> shift then None
            else if map_of (intersection_prefixes t) (warp_address, warp_mask) = None
            then Some (t\<lparr>prefixes := insort_insert (0, warp_address, shadow_of warp_mask) (prefixes t),
                         intersection_prefixes := map_emplace (warp_address, warp_mask) prev_mask (intersection_prefixes t)\<rparr>)
            else Some t
        | None \<Rightarrow>
            Option.bind (prepare_gapped_step warp_address warp_mask 0 t) (\<lambda>(warp_chunk_id, t).
              if warp_chunk_id = 0 then None
              else Some (t\<lparr>warp_chunk_ids := map_emplace (warp_address, warp_mask) (shift, warp_chunk_id) (warp_chunk_ids t)\<rparr>)))"

definition prepare_simple :: "'a::len word \<Rightarrow> 'a word \<Rightarrow> 'a word tree \<Rightarrow> 'a word tree option" where
  "prepare_simple address m t =
     fold (\<lambda>((warp_address, warp_mask), (shift, _)) ot. Option.bind ot (\<lambda>t.
         if pop_count m > pop_count (shadow_of warp_mask) \<and> pop_count m \<le> shift \<and> address AND shadow_of warp_mask = warp_address
         then prepare_simple_step address m warp_mask 0 t else Some t))
       (warp_chunk_ids t) (Some t)"

text \<open>
  The first loop of \<^verbatim>\<open>prepare\<close> may add prefixes without a gap, which the second loop visits.
\<close>

definition tree_prepare :: "'a::len word tree \<Rightarrow> 'a word tree option" where
  "tree_prepare t =
     Option.bind (fold (\<lambda>(_, address, m) ot. Option.bind ot (\<lambda>t.
         if is_mask_gapped m then prepare_gapped address m (reserve_chunks (chunks_bucket_size t) t) else Some t))
       (prefixes t) (Some t))
     (\<lambda>t. fold (\<lambda>(_, address, m) ot. Option.bind ot (\<lambda>t.
         if \<not> is_mask_gapped m then prepare_simple address m (reserve_chunks (chunks_bucket_size t) t) else Some t))
       (prefixes t) (Some t))"

text \<open>A new chunk in which every value is the same.\<close>

definition filled_chunk :: "u32 \<Rightarrow> 's arena_scheme \<Rightarrow> (u32 \<times> 's arena_scheme) option" where
  "filled_chunk v t =
     map_option (\<lambda>(new_id, t). (new_id, put_tree_chunk new_id ((chunk_at t new_id)\<lparr>chunk_values := (\<lambda>_. v)\<rparr>) t)) (allocate_chunk t)"

text \<open>The branches of the loop of \<^verbatim>\<open>merge_chunk\<close> for a chunk and for a group in the warp chunk, after the search for the pair.\<close>

definition merge_chunk_value ::
  "(u32 \<Rightarrow> u32 \<Rightarrow> 'a::len word tree \<times> u32 \<Rightarrow> ('a word tree \<times> u32) option) \<Rightarrow> u32 \<Rightarrow> u32 \<Rightarrow> u8 \<Rightarrow> 'a word tree \<times> u32 \<Rightarrow> ('a word tree \<times> u32) option" where
  "merge_chunk_value merge warp_value origin i s =
     (let (t, group_id) = s; origin_value = value_at t origin i in
      if is_chunk_id origin_value then merge (get_chunk_id warp_value) (get_chunk_id origin_value) (t, group_id)
      else Option.bind (filled_chunk origin_value t) (\<lambda>(new_id, t).
             merge (get_chunk_id warp_value) new_id (put_value origin i (set_chunk_id new_id) t, group_id)))"

definition merge_group_value ::
  "(u32 \<Rightarrow> u32 \<Rightarrow> 'a::len word tree \<times> u32 \<Rightarrow> ('a word tree \<times> u32) option) \<Rightarrow> u32 \<Rightarrow> u32 \<Rightarrow> u8 \<Rightarrow> 'a word tree \<times> u32 \<Rightarrow> ('a word tree \<times> u32) option" where
  "merge_group_value merge warp_value origin i s =
     (let (t, group_id) = s; origin_value = value_at t origin i in
      if is_chunk_id origin_value then
        Option.bind (case map_of (merge_warp_extended_chunk_ids t) warp_value of
            Some chunk_id \<Rightarrow> Some (chunk_id, t)
          | None \<Rightarrow> map_option (\<lambda>(new_id, t). (new_id,
                t\<lparr>merge_warp_extended_chunk_ids := map_emplace warp_value new_id (merge_warp_extended_chunk_ids t)\<rparr>))
              (filled_chunk warp_value t))
          (\<lambda>(chunk_id, t). merge chunk_id (get_chunk_id origin_value) (t, group_id))
      else if origin_value \<ge> merge_group_id t then None
      else Some (put_value origin i group_id t, group_id + 1))"

primrec merge_chunk :: "nat \<Rightarrow> u32 \<Rightarrow> u32 \<Rightarrow> 'a::len word tree \<times> u32 \<Rightarrow> ('a word tree \<times> u32) option" where
  "merge_chunk 0 warp origin s = None"
| "merge_chunk (Suc n) warp origin s =
     fold (\<lambda>i os. Option.bind os (\<lambda>(t, group_id).
         let warp_value = value_at t warp i; origin_value = value_at t origin i in
         if value_is_empty warp_value then Some (t, group_id)
         else case map_of (merge_remap_chunks t) (warp_value, origin_value) of
             Some v \<Rightarrow> Some (put_value origin i v t, group_id)
           | None \<Rightarrow>
               map_option (\<lambda>(t, group_id).
                   (t\<lparr>merge_remap_chunks := map_emplace (warp_value, origin_value) (value_at t origin i) (merge_remap_chunks t)\<rparr>, group_id))
                 ((if is_chunk_id warp_value then merge_chunk_value else merge_group_value) (merge_chunk n) warp_value origin i (t, group_id))))
       all_bytes (Some s)"

definition tree_merge :: "'a::len word tree \<times> u32 \<Rightarrow> ('a word tree \<times> u32) option" where
  "tree_merge s =
     fold (\<lambda>((warp_address, warp_mask), (shift, warp_chunk_id)) os. Option.bind os (\<lambda>(t, group_id).
         Option.bind (get_last_gapped_chunks_step warp_address warp_mask t 0 []) (\<lambda>last_chunks.
         map_option (\<lambda>(t, group_id). (t\<lparr>multirefs_chunk_ids := map_emplace (warp_address, warp_mask) last_chunks (multirefs_chunk_ids t)\<rparr>, group_id))
           (fold (\<lambda>chunk_id os. Option.bind os (\<lambda>(t, group_id).
                let t = t\<lparr>merge_group_id := group_id\<rparr>
                in merge_chunk (LENGTH('a) div 8) warp_chunk_id chunk_id (reserve_chunks (chunks_bucket_size t) t, group_id)))
              last_chunks (Some (t, group_id))))))
       (warp_chunk_ids (fst s)) (Some s)"

section \<open>The operations of the tree\<close>

definition with_inserting :: "(inserting \<Rightarrow> inserting option) \<Rightarrow> 'a tree \<times> u32 \<times> u32 list \<Rightarrow> ('a tree \<times> u32 \<times> u32 list) option" where
  "with_inserting f s =
     (let (t, group_id, remap_group_ids) = s in
      map_option (\<lambda>u. (t\<lparr>tr_chunks := tr_chunks u, tr_capacity := tr_capacity u\<rparr>, in_group_id u, in_remap u))
        (f \<lparr>tr_chunks = tr_chunks t, tr_capacity = tr_capacity t, in_group_id = group_id, in_remap = remap_group_ids\<rparr>))"

partial_function (option) tree_insert ::
  "'a::len word \<Rightarrow> 'a word \<Rightarrow> 'a word tree \<times> u32 \<times> u32 list \<Rightarrow> ('a word tree \<times> u32 \<times> u32 list) option" where
  "tree_insert address m s =
     (let (t, group_id, remap_group_ids) = s in
      if is_mask_gapped m then
        let warp_mask = warp_of m; warp_shadow_mask = shadow_of warp_mask; warp_address = address AND warp_shadow_mask in
        case map_of (warp_chunk_ids t) (warp_address, warp_mask) of
          None \<Rightarrow>
            (case map_of (intersection_prefixes t) (warp_address, warp_mask) of
               None \<Rightarrow> None
             | Some other \<Rightarrow>
                 Option.bind (tree_insert (address AND warp_shadow_mask) warp_shadow_mask s)
                   (\<lambda>s. tree_insert (address AND other) (m AND other) s))
        | Some (shift, warp_chunk_id) \<Rightarrow>
            with_inserting (insert_step (push_bit shift address) (push_bit shift m) warp_chunk_id)
              (reserve_chunks (chunks_bucket_size t) t, group_id, remap_group_ids)
      else with_inserting (insert_step address m 0) (reserve_chunks (chunks_bucket_size t) t, group_id, remap_group_ids))"

text \<open>The bitmask of a prefix is remembered; the caller's bitmask is combined with it bit by bit.\<close>

definition or_bitmask :: "u8 list \<Rightarrow> u8 list \<Rightarrow> u8 list" where
  "or_bitmask = map2 (OR)"

definition and_bitmask :: "u8 list \<Rightarrow> u8 list \<Rightarrow> u8 list" where
  "and_bitmask = map2 (AND)"

partial_function (option) tree_get :: "'a::len word \<Rightarrow> 'a word \<Rightarrow> 'a word tree \<times> u8 list \<Rightarrow> ('a word tree \<times> u8 list) option" where
  "tree_get address m s =
     (let (t, group_ids_bitmask) = s; empty = replicate (length group_ids_bitmask) 0 in
      case map_of (saved_group_ids t) (address, m) of
        Some bitmask \<Rightarrow> Some (t, or_bitmask group_ids_bitmask bitmask)
      | None \<Rightarrow>
          Option.bind
            (if is_mask_gapped m then
               let warp_mask = warp_of m; warp_shadow_mask = shadow_of warp_mask; warp_address = address AND warp_shadow_mask in
               case map_of (multirefs_chunk_ids t) (warp_address, warp_mask) of
                 None \<Rightarrow>
                   (case map_of (intersection_prefixes t) (warp_address, warp_mask) of
                      None \<Rightarrow> None
                    | Some other \<Rightarrow>
                        Option.bind (tree_get (address AND warp_shadow_mask) warp_shadow_mask (t, empty)) (\<lambda>s1.
                        Option.bind (tree_get (address AND other) (m AND other) (fst s1, empty)) (\<lambda>s2.
                        Some (fst s2, and_bitmask (snd s1) (snd s2)))))
               | Some chunk_ids \<Rightarrow>
                   map_option (\<lambda>bitmask. (t, bitmask))
                     (fold (\<lambda>chunk_id ob. Option.bind ob
                          (get_step (push_bit (warp_shift warp_mask) address) (push_bit (warp_shift warp_mask) m) t chunk_id))
                        chunk_ids (Some empty))
             else map_option (\<lambda>bitmask. (t, bitmask)) (get_step address m t 0 empty))
            (\<lambda>(t, bitmask). Some (t\<lparr>saved_group_ids := map_emplace (address, m) bitmask (saved_group_ids t)\<rparr>,
                                 or_bitmask group_ids_bitmask bitmask)))"

definition tree_lookup :: "'a::len word \<Rightarrow> 'a word tree \<Rightarrow> u32 option" where
  "tree_lookup address t = lookup_step (LENGTH('a) div 8) address 0 t"

definition tree_remap :: "u32 list \<Rightarrow> 'a::len word tree \<Rightarrow> 'a word tree option" where
  "tree_remap remap_group_ids t = map_option fst (remap_chunk (LENGTH('a) div 8) remap_group_ids 0 (t, []))"

end
