(* ===== verification/AclTreeInsert.thy ===== *)
theory AclTreeInsert
  imports AclTree
begin

text \<open>
  What the operations of the ACL tree do to the groups that its addresses lead to.  The chunks below a
  value form a tree of their own; an address is followed through it byte by byte (\<open>walk\<close>).  Inserting a
  prefix renames the groups of the addresses it covers, each old group to one new group.
\<close>

section \<open>Values\<close>

lemma is_chunk_id_bit: "is_chunk_id v \<longleftrightarrow> bit v 31"
  using and_exp_eq_0_iff_not_bit [of v 31] by (simp add: is_chunk_id_def push_bit_eq_mult)

lemma bit_flag: "bit (0x80000000 :: u32) n \<longleftrightarrow> n = 31"
proof -
  have "(0x80000000 :: u32) = 2 ^ 31" by simp
  then show ?thesis by (simp only: bit_exp_iff) auto
qed

lemma is_chunk_id_iff: "is_chunk_id v \<longleftrightarrow> \<not> unat v < 2 ^ 31"
proof -
  have "is_chunk_id v \<longleftrightarrow> bit v 31" by (rule is_chunk_id_bit)
  also have "\<dots> \<longleftrightarrow> bit (unat v) 31" by (simp add: bit_unsigned_iff)
  also have "\<dots> \<longleftrightarrow> odd (unat v div 2 ^ 31)" by (simp only: bit_iff_odd)
  also have "odd (unat v div 2 ^ 31) \<longleftrightarrow> \<not> unat v < 2 ^ 31"
  proof -
    have "unat v < 2 ^ 32" using unsigned_less [of v, where ?'a = nat] by simp
    then have "unat v div 2 ^ 31 < 2" by (simp add: less_mult_imp_div_less)
    then have "odd (unat v div 2 ^ 31) \<longleftrightarrow> unat v div 2 ^ 31 \<noteq> 0" by (cases "unat v div 2 ^ 31 = 0") auto
    then show ?thesis by (simp add: div_eq_0_iff)
  qed
  finally show ?thesis .
qed

lemma chunk_id_round [simp]: "get_chunk_id (set_chunk_id c) = c" "set_chunk_id (get_chunk_id v) = v"
  by (simp_all add: get_chunk_id_def set_chunk_id_def xor.assoc)

lemma set_chunk_id_is [simp]: "unat c < 2 ^ 31 \<Longrightarrow> is_chunk_id (set_chunk_id c)"
  using is_chunk_id_iff [of c] by (simp add: is_chunk_id_bit set_chunk_id_def bit_xor_iff bit_flag)

lemma get_chunk_id_less: "is_chunk_id v \<Longrightarrow> unat (get_chunk_id v) < 2 ^ 31"
  using is_chunk_id_iff [of "get_chunk_id v"] by (simp add: is_chunk_id_bit get_chunk_id_def bit_xor_iff bit_flag)

lemma set_all_bytes [simp]: "set all_bytes = UNIV" "distinct all_bytes"
proof -
  have e: "unat (of_nat k :: u8) = k" if "k < 256" for k using that by (intro unat_of_nat_small) simp
  have "i \<in> set all_bytes" for i
    unfolding all_bytes_def set_map using unsigned_less [of i, where ?'a = nat] by (intro image_eqI [of _ _ "unat i"]) auto
  then show "set all_bytes = UNIV" by auto
  show "distinct all_bytes" unfolding all_bytes_def distinct_map by (auto intro!: inj_onI) (metis e)
qed

lemma chunk_at_put:
  assumes "unat c < length (tr_chunks t)"
  shows "chunk_at (put_tree_chunk c ch t) = (chunk_at t)(c := ch)"
    "chunk_at (put_value c i v t) = (chunk_at t)(c := (chunk_at t c)\<lparr>chunk_values := (chunk_values (chunk_at t c))(i := v)\<rparr>)"
  using assms by (auto simp: chunk_at_def put_tree_chunk_def put_value_def nth_list_update word_unat_eq_iff fun_eq_iff)

lemma put_value_sel [simp]:
  "length (tr_chunks (put_value c i v t)) = length (tr_chunks t)" "tr_capacity (put_value c i v t) = tr_capacity t"
  "length (tr_chunks (put_tree_chunk c ch t)) = length (tr_chunks t)" "tr_capacity (put_tree_chunk c ch t) = tr_capacity t"
  by (simp_all add: put_value_def put_tree_chunk_def)

lemma put_value_inserting [simp]:
  "in_remap (put_value c i v t) = in_remap t" "in_group_id (put_value c i v t) = in_group_id t"
  "in_remap (put_tree_chunk c ch t) = in_remap t" "in_group_id (put_tree_chunk c ch t) = in_group_id t"
  by (simp_all add: put_value_def put_tree_chunk_def)

section \<open>The tree below a value\<close>

text \<open>
  With at most \<open>n\<close> levels of chunks below a value: the chunks it owns, that they form a tree whose chunks
  have one reference each, and the group at the end of a path.
\<close>

type_synonym store = "u32 \<Rightarrow> tree_chunk"

primrec holds :: "nat \<Rightarrow> store \<Rightarrow> u32 \<Rightarrow> u32 set" where
  "holds 0 C v = {}"
| "holds (Suc n) C v = (if is_chunk_id v then insert (get_chunk_id v) (\<Union>i. holds n C (chunk_values (C (get_chunk_id v)) i)) else {})"

definition held :: "nat \<Rightarrow> store \<Rightarrow> u32 \<Rightarrow> u32 set" where
  "held n C c = (\<Union>i. holds n C (chunk_values (C c) i))"

primrec sound :: "nat \<Rightarrow> store \<Rightarrow> u32 \<Rightarrow> bool" where
  "sound 0 C v = (\<not> is_chunk_id v)"
| "sound (Suc n) C v = (is_chunk_id v \<longrightarrow> (let c = get_chunk_id v in
     (\<forall>i. sound n C (chunk_values (C c) i)) \<and>
     (\<forall>i j. i \<noteq> j \<longrightarrow> holds n C (chunk_values (C c) i) \<inter> holds n C (chunk_values (C c) j) = {}) \<and>
     c \<notin> (\<Union>i. holds n C (chunk_values (C c) i)) \<and> is_multirefs (C c) = 0))"

definition orderly :: "nat \<Rightarrow> store \<Rightarrow> u32 \<Rightarrow> bool" where
  "orderly n C c \<longleftrightarrow> (\<forall>i. sound n C (chunk_values (C c) i)) \<and>
     (\<forall>i j. i \<noteq> j \<longrightarrow> holds n C (chunk_values (C c) i) \<inter> holds n C (chunk_values (C c) j) = {}) \<and>
     c \<notin> held n C c \<and> is_multirefs (C c) = 0"

primrec walk :: "nat \<Rightarrow> store \<Rightarrow> u8 list \<Rightarrow> u32 \<Rightarrow> u32" where
  "walk 0 C p v = v"
| "walk (Suc n) C p v = (if is_chunk_id v then walk n C (tl p) (chunk_values (C (get_chunk_id v)) (hd p)) else v)"

definition chunk_walk :: "nat \<Rightarrow> store \<Rightarrow> u8 list \<Rightarrow> u32 \<Rightarrow> u32" where
  "chunk_walk n C p c = walk n C (tl p) (chunk_values (C c) (hd p))"

lemma holds_Suc: "holds (Suc n) C v = (if is_chunk_id v then insert (get_chunk_id v) (held n C (get_chunk_id v)) else {})"
  by (simp add: held_def)

lemma sound_Suc: "sound (Suc n) C v \<longleftrightarrow> (is_chunk_id v \<longrightarrow> orderly n C (get_chunk_id v))"
  by (simp add: orderly_def held_def Let_def)

lemma walk_Suc: "walk (Suc n) C p v = (if is_chunk_id v then chunk_walk n C p (get_chunk_id v) else v)"
  by (simp add: chunk_walk_def)

declare holds.simps(2) [simp del] sound.simps(2) [simp del] walk.simps(2) [simp del]

lemma range_walk_Suc:
  "is_chunk_id v \<Longrightarrow> range (\<lambda>p. f (walk (Suc n) C p v)) = (\<Union>i. range (\<lambda>p. f (walk n C p (chunk_values (C (get_chunk_id v)) i))))"
proof (intro equalityI subsetI)
  fix x assume c: "is_chunk_id v" and "x \<in> (\<Union>i. range (\<lambda>p. f (walk n C p (chunk_values (C (get_chunk_id v)) i))))"
  then obtain i p where "x = f (walk n C p (chunk_values (C (get_chunk_id v)) i))" by blast
  then have "x = f (walk (Suc n) C (i # p) v)" using c by (simp add: walk_Suc chunk_walk_def)
  then show "x \<in> range (\<lambda>p. f (walk (Suc n) C p v))" by blast
qed (auto simp: walk_Suc chunk_walk_def)

lemma leaf_value: "\<not> is_chunk_id v \<Longrightarrow> holds n C v = {} \<and> sound n C v \<and> walk n C p v = v"
  by (cases n) (simp_all add: holds_Suc sound_Suc walk_Suc)

lemma own_unchanged:
  assumes "\<And>c. c \<in> holds n C v \<Longrightarrow> C' c = C c"
  shows "holds n C' v = holds n C v \<and> sound n C' v = sound n C v \<and> walk n C' p v = walk n C p v"
  using assms
proof (induction n arbitrary: v p)
  case (Suc n)
  show ?case
  proof (cases "is_chunk_id v")
    case True
    let ?c = "get_chunk_id v"
    have c: "C' ?c = C ?c" using Suc.prems True by (simp add: holds_Suc)
    have "holds n C' (chunk_values (C ?c) i) = holds n C (chunk_values (C ?c) i) \<and> sound n C' (chunk_values (C ?c) i) = sound n C (chunk_values (C ?c) i) \<and>
        walk n C' p (chunk_values (C ?c) i) = walk n C p (chunk_values (C ?c) i)" for i p
      using Suc.prems True by (intro Suc.IH) (auto simp: holds_Suc held_def)
    then show ?thesis by (simp add: holds_Suc sound_Suc walk_Suc orderly_def held_def chunk_walk_def c)
  qed (simp add: holds_Suc sound_Suc walk_Suc)
qed simp

lemma orderlyD:
  assumes "orderly n C c"
  shows "sound n C (chunk_values (C c) i)" "i \<noteq> j \<Longrightarrow> holds n C (chunk_values (C c) i) \<inter> holds n C (chunk_values (C c) j) = {}"
    "c \<notin> held n C c" "is_multirefs (C c) = 0" "holds n C (chunk_values (C c) i) \<subseteq> held n C c"
  using assms by (auto simp: orderly_def held_def)

lemma chunk_unchanged:
  assumes "\<And>x. x \<in> held n C c \<Longrightarrow> C' x = C x" and "C' c = C c"
  shows "held n C' c = held n C c" "orderly n C' c = orderly n C c" "chunk_walk n C' p c = chunk_walk n C p c"
proof -
  have "holds n C' (chunk_values (C c) i) = holds n C (chunk_values (C c) i) \<and> sound n C' (chunk_values (C c) i) = sound n C (chunk_values (C c) i) \<and>
      walk n C' p (chunk_values (C c) i) = walk n C p (chunk_values (C c) i)" for i p
    using assms(1) by (intro own_unchanged) (auto simp: held_def)
  then show "held n C' c = held n C c" "orderly n C' c = orderly n C c" "chunk_walk n C' p c = chunk_walk n C p c"
    by (simp_all add: orderly_def held_def chunk_walk_def assms(2))
qed

text \<open>Exchanging one value, and the tree below it, for another.\<close>

lemma exchange_value:
  assumes td: "orderly n C c" and c: "C' c = (C c)\<lparr>chunk_values := (chunk_values (C c))(i := v)\<rparr>"
    and same: "\<And>x. x \<in> held n C c - holds n C (chunk_values (C c) i) \<Longrightarrow> C' x = C x"
    and g: "sound n C' v" and disj: "holds n C' v \<inter> (held n C c - holds n C (chunk_values (C c) i)) = {}" and nc: "c \<notin> holds n C' v"
  shows "orderly n C' c" "held n C' c = (held n C c - holds n C (chunk_values (C c) i)) \<union> holds n C' v"
    "chunk_walk n C' p c = (if hd p = i then walk n C' (tl p) v else chunk_walk n C p c)"
proof -
  let ?o = "\<lambda>j. holds n C (chunk_values (C c) j)"
  have d: "?o j \<inter> ?o i = {}" if "j \<noteq> i" for j using orderlyD(2) [OF td that] .
  have f: "holds n C' (chunk_values (C c) j) = ?o j \<and> sound n C' (chunk_values (C c) j) = sound n C (chunk_values (C c) j) \<and>
      walk n C' p (chunk_values (C c) j) = walk n C p (chunk_values (C c) j)" if "j \<noteq> i" for j p
    using d [OF that] by (intro own_unchanged same) (auto simp: held_def)
  have o: "holds n C' (chunk_values (C' c) j) = (if j = i then holds n C' v else ?o j)" for j using f by (simp add: c)
  have u: "held n C c - ?o i = (\<Union>j \<in> - {i}. ?o j)" using d unfolding held_def by blast
  show holds: "held n C' c = (held n C c - ?o i) \<union> holds n C' v"
    unfolding u unfolding held_def o by (auto split: if_splits)
  show "chunk_walk n C' p c = (if hd p = i then walk n C' (tl p) v else chunk_walk n C p c)"
    using f by (simp add: chunk_walk_def c)
  have "sound n C' (chunk_values (C' c) j)" for j using g f orderlyD(1) [OF td, of j] by (simp add: c)
  moreover have "holds n C' (chunk_values (C' c) j) \<inter> holds n C' (chunk_values (C' c) k) = {}" if "j \<noteq> k" for j k
    using disj orderlyD(2) [OF td that] that unfolding o u by auto
  moreover have "c \<notin> held n C' c" using nc orderlyD(3) [OF td] unfolding holds by blast
  ultimately show "orderly n C' c" unfolding orderly_def using orderlyD(4) [OF td] by (simp add: c)
qed

section \<open>Renaming groups\<close>

text \<open>
  The new name of a group; a group that was created for the same filter keeps its name.
\<close>

definition new_name :: "inserting \<Rightarrow> u32 \<Rightarrow> u32" where
  "new_name t g = (if unat g < length (in_remap t) then in_remap t ! unat g else g)"

definition has_name :: "inserting \<Rightarrow> u32 \<Rightarrow> bool" where
  "has_name t g \<longleftrightarrow> (unat g < length (in_remap t) \<longrightarrow> in_remap t ! unat g \<noteq> 0)"

abbreviation named :: "inserting \<Rightarrow> nat set" where
  "named t \<equiv> {k. k < length (in_remap t) \<and> in_remap t ! k \<noteq> 0}"

text \<open>
  The new names are the groups from \<open>length (in_remap t)\<close> on, each used once.  The bound keeps them below
  the bit that marks a chunk.
\<close>

definition names_ok :: "inserting \<Rightarrow> bool" where
  "names_ok t \<longleftrightarrow> 0 < length (in_remap t) \<and> length (in_remap t) \<le> 2 ^ 30 \<and>
     unat (in_group_id t) = length (in_remap t) + card (named t) \<and> inj_on (\<lambda>k. in_remap t ! k) (named t) \<and>
     (\<forall>k \<in> named t. length (in_remap t) \<le> unat (in_remap t ! k) \<and> unat (in_remap t ! k) < unat (in_group_id t))"

lemma names_cong: "in_remap t' = in_remap t \<Longrightarrow> in_group_id t' = in_group_id t \<Longrightarrow> names_ok t' = names_ok t"
  by (simp only: names_ok_def)

text \<open>Names are added and never changed.\<close>

definition extends :: "inserting \<Rightarrow> inserting \<Rightarrow> bool" where
  "extends t t' \<longleftrightarrow> length (in_remap t') = length (in_remap t) \<and> (\<forall>k \<in> named t. in_remap t' ! k = in_remap t ! k)"

lemma extends_refl: "extends t t"
  by (simp add: extends_def)

lemma extends_trans: "extends t t1 \<Longrightarrow> extends t1 t2 \<Longrightarrow> extends t t2"
  by (simp add: extends_def)

lemma extends_name:
  assumes "extends t t'" and "has_name t g"
  shows "has_name t' g" "new_name t' g = new_name t g"
  using assms by (auto simp: extends_def has_name_def new_name_def)

lemma names_bound:
  assumes "names_ok t"
  shows "unat (in_group_id t) \<le> 2 * length (in_remap t)" "unat (in_group_id t) \<le> 2 ^ 31"
proof -
  have "card (named t) \<le> card {k. k < length (in_remap t)}" by (intro card_mono) auto
  then show "unat (in_group_id t) \<le> 2 * length (in_remap t)" "unat (in_group_id t) \<le> 2 ^ 31"
    using assms by (simp_all add: names_ok_def)
qed

lemma new_name_group:
  assumes "names_ok t" and "has_name t g" and "\<not> is_chunk_id g"
  shows "\<not> is_chunk_id (new_name t g)"
proof (cases "unat g < length (in_remap t)")
  case True
  then have "unat g \<in> named t" using assms(2) by (simp add: has_name_def)
  then have "unat (in_remap t ! unat g) < unat (in_group_id t)" using assms(1) unfolding names_ok_def by blast
  then show ?thesis using names_bound(2) [OF assms(1)] True by (simp add: new_name_def is_chunk_id_iff)
qed (use assms(3) in \<open>simp add: new_name_def\<close>)

lemma give_name:
  fixes t :: inserting
  assumes ok: "names_ok t" and g: "g < length (in_remap t)" "in_remap t ! g = 0"
  defines "t' \<equiv> t\<lparr>in_remap := (in_remap t)[g := in_group_id t], in_group_id := in_group_id t + 1\<rparr>"
  shows "names_ok t'" "extends t t'" "in_remap t' ! g \<noteq> 0"
proof -
  let ?s = "length (in_remap t)"
  have pos: "in_group_id t \<noteq> 0" using ok by (auto simp: names_ok_def unat_eq_0)
  have named: "named t' = insert g (named t)" using g pos by (auto simp: t'_def nth_list_update)
  have notin: "g \<notin> named t" using g by simp
  have fin: "finite (named t)" by simp
  have "named t \<subset> {k. k < ?s}" using notin g by auto
  then have "card (named t) < ?s" using psubset_card_mono [of "{k. k < ?s}" "named t"] by simp
  then have "unat (in_group_id t) < 2 * ?s" using ok by (simp add: names_ok_def)
  moreover have "?s \<le> 2 ^ 30" using ok by (simp add: names_ok_def)
  ultimately have u: "unat (in_group_id t + 1) = Suc (unat (in_group_id t))" by (simp add: unat_word_ariths)
  have other: "in_remap t' ! k = in_remap t ! k" if "k \<in> named t" for k
  proof -
    have "k \<noteq> g" using that notin by blast
    then show ?thesis by (simp add: t'_def)
  qed
  have self: "in_remap t' ! g = in_group_id t" using g by (simp add: t'_def)
  have inj: "inj_on (\<lambda>k. in_remap t' ! k) (named t')"
  proof -
    have "inj_on (\<lambda>k. in_remap t' ! k) (named t)"
      using ok other by (simp add: names_ok_def inj_on_def)
    moreover have "in_remap t' ! g \<notin> (\<lambda>k. in_remap t' ! k) ` (named t - {g})"
    proof
      assume "in_remap t' ! g \<in> (\<lambda>k. in_remap t' ! k) ` (named t - {g})"
      then obtain k where "k \<in> named t - {g}" and "in_remap t' ! g = in_remap t' ! k" by (elim imageE)
      then have k: "k \<in> named t" "in_remap t' ! k = in_group_id t" using self by simp_all
      have "unat (in_remap t ! k) < unat (in_group_id t)" using ok k(1) unfolding names_ok_def by blast
      then show False using k(2) other [OF k(1)] by simp
    qed
    ultimately show ?thesis unfolding named by (simp add: notin)
  qed
  have range: "?s \<le> unat (in_remap t' ! k) \<and> unat (in_remap t' ! k) < unat (in_group_id t')" if "k \<in> named t'" for k
  proof (cases "k = g")
    case True
    then show ?thesis using self u ok by (simp add: t'_def names_ok_def)
  next
    case False
    then have k: "k \<in> named t" using that unfolding named by simp
    then have "?s \<le> unat (in_remap t ! k) \<and> unat (in_remap t ! k) < unat (in_group_id t)" using ok unfolding names_ok_def by blast
    then show ?thesis using other [OF k] u by (simp add: t'_def)
  qed
  have "card (named t') = Suc (card (named t))" unfolding named using notin fin by simp
  then have c: "unat (in_group_id t') = ?s + card (named t')" using u ok by (simp add: t'_def names_ok_def)
  have l: "length (in_remap t') = ?s" by (simp add: t'_def)
  have "0 < ?s" "?s \<le> 2 ^ 30" using ok by (simp_all add: names_ok_def)
  then show "names_ok t'" unfolding names_ok_def using c inj range by (intro conjI ballI) (simp_all only: l)
  show "extends t t'" using other by (simp add: extends_def t'_def)
  show "in_remap t' ! g \<noteq> 0" using self pos by simp
qed

lemma names_put [simp]:
  "names_ok (put_value c i v t) = names_ok t" "extends t0 (put_value c i v t) = extends t0 t"
  "new_name (put_value c i v t) = new_name t" "has_name (put_value c i v t) = has_name t"
  "names_ok (put_tree_chunk c ch t) = names_ok t" "extends t0 (put_tree_chunk c ch t) = extends t0 t"
  "new_name (put_tree_chunk c ch t) = new_name t" "has_name (put_tree_chunk c ch t) = has_name t"
  by (simp_all add: names_ok_def extends_def new_name_def has_name_def fun_eq_iff)

lemma update_group_id_effect:
  assumes ok: "names_ok t" and c: "unat c < length (tr_chunks t)" and v: "\<not> is_chunk_id (value_at t c i)"
  defines "t' \<equiv> update_group_id c i t"
  shows "names_ok t'" "extends t t'" "has_name t' (value_at t c i)" "length (tr_chunks t') = length (tr_chunks t)" "tr_capacity t' = tr_capacity t"
    "chunk_at t' = (chunk_at t)(c := (chunk_at t c)\<lparr>chunk_values := (chunk_values (chunk_at t c))(i := new_name t' (value_at t c i))\<rparr>)"
    "named t' \<subseteq> named t \<union> {unat (value_at t c i)}"
proof -
  let ?g = "value_at t c i"
  show "length (tr_chunks t') = length (tr_chunks t)" "tr_capacity t' = tr_capacity t"
    by (simp_all add: t'_def update_group_id_def Let_def)
  show "named t' \<subseteq> named t \<union> {unat ?g}" by (auto simp: t'_def update_group_id_def Let_def nth_list_update split: if_splits)
  have "names_ok t' \<and> extends t t' \<and> has_name t' ?g \<and>
    chunk_at t' = (chunk_at t)(c := (chunk_at t c)\<lparr>chunk_values := (chunk_values (chunk_at t c))(i := new_name t' ?g)\<rparr>)"
  proof (cases "unat ?g < length (in_remap t)")
    case False
    then have "t' = t" by (simp add: t'_def update_group_id_def Let_def)
    then show ?thesis using ok False by (simp add: extends_refl has_name_def new_name_def)
  next
    case in_range: True
    define u where "u = (if in_remap t ! unat ?g = 0
        then t\<lparr>in_remap := (in_remap t)[unat ?g := in_group_id t], in_group_id := in_group_id t + 1\<rparr> else t)"
    have t': "t' = put_value c i (in_remap u ! unat ?g) u" using in_range by (simp add: t'_def update_group_id_def Let_def u_def)
    have u: "names_ok u" "extends t u" "in_remap u ! unat ?g \<noteq> 0"
      using give_name [OF ok in_range] ok extends_refl by (auto simp: u_def)
    have ch: "tr_chunks u = tr_chunks t" by (simp add: u_def)
    then have at: "chunk_at u = chunk_at t" by (simp add: chunk_at_def fun_eq_iff)
    have len: "length (in_remap u) = length (in_remap t)" by (simp add: u_def)
    have "has_name u ?g" "new_name u ?g = in_remap u ! unat ?g" using u(3) in_range len by (simp_all add: has_name_def new_name_def)
    then show ?thesis using u(1,2) c unfolding t' by (simp add: chunk_at_put ch at)
  qed
  then show "names_ok t'" "extends t t'" "has_name t' ?g"
    "chunk_at t' = (chunk_at t)(c := (chunk_at t c)\<lparr>chunk_values := (chunk_values (chunk_at t c))(i := new_name t' ?g)\<rparr>)" by simp_all
qed

text \<open>
  The tree below a value after it has been renamed: the same chunks, and at the end of every path the
  new name of the group that was there.
\<close>

definition renamed :: "nat \<Rightarrow> inserting \<Rightarrow> u32 \<Rightarrow> inserting \<Rightarrow> u32 \<Rightarrow> bool" where
  "renamed n t v t' v' \<longleftrightarrow> sound n (chunk_at t') v' \<and> holds n (chunk_at t') v' = holds n (chunk_at t) v \<and>
     (\<forall>p. walk n (chunk_at t') p v' = new_name t' (walk n (chunk_at t) p v) \<and> has_name t' (walk n (chunk_at t) p v))"

text \<open>What a change of the value \<open>i\<close> of the chunk \<open>c\<close> and of the chunks \<open>D\<close> below it leaves alone.\<close>

definition changes :: "u32 \<Rightarrow> u8 set \<Rightarrow> u32 set \<Rightarrow> nat set \<Rightarrow> inserting \<Rightarrow> inserting \<Rightarrow> bool" where
  "changes c I D G t t' \<longleftrightarrow> named t' \<subseteq> named t \<union> G \<and> length (tr_chunks t') = length (tr_chunks t) \<and> tr_capacity t' = tr_capacity t \<and>
     names_ok t' \<and> extends t t' \<and> (\<forall>x. x \<notin> insert c D \<longrightarrow> chunk_at t' x = chunk_at t x) \<and>
     is_multirefs (chunk_at t' c) = is_multirefs (chunk_at t c) \<and> (\<forall>j. j \<notin> I \<longrightarrow> value_at t' c j = value_at t c j)"

lemma changesD:
  assumes "changes c I D G t t'"
  shows "x \<noteq> c \<Longrightarrow> x \<notin> D \<Longrightarrow> chunk_at t' x = chunk_at t x" "j \<notin> I \<Longrightarrow> value_at t' c j = value_at t c j"
  using assms by (auto simp: changes_def)

lemma changes_named: "changes c I D G t t' \<Longrightarrow> named t' \<subseteq> named t \<union> G"
  by (simp only: changes_def)

lemma changes_refl: "names_ok t \<Longrightarrow> changes c I D G t t"
  by (simp add: changes_def extends_refl)

lemma changes_trans:
  assumes "changes c I D G t t1" and "changes c I' D' G' t1 t2"
  shows "changes c (I \<union> I') (D \<union> D') (G \<union> G') t t2"
proof -
  have "named t2 \<subseteq> named t \<union> (G \<union> G')" using changes_named [OF assms(1)] changes_named [OF assms(2)] by blast
  then show ?thesis using assms unfolding changes_def by (auto intro: extends_trans)
qed

lemma renamed_frame:
  assumes "renamed n t v t1 v1" and "changes c I D G t1 t2" and "insert c D \<inter> holds n (chunk_at t) v = {}"
  shows "renamed n t v t2 v1"
proof -
  have o: "holds n (chunk_at t1) v1 = holds n (chunk_at t) v" using assms(1) by (simp add: renamed_def)
  have "chunk_at t2 x = chunk_at t1 x" if "x \<in> holds n (chunk_at t1) v1" for x
    using that assms(2,3) unfolding o changes_def by blast
  then have f: "holds n (chunk_at t2) v1 = holds n (chunk_at t1) v1 \<and> sound n (chunk_at t2) v1 = sound n (chunk_at t1) v1 \<and>
      walk n (chunk_at t2) p v1 = walk n (chunk_at t1) p v1" for p by (rule own_unchanged)
  have "extends t1 t2" using assms(2) by (simp add: changes_def)
  then show ?thesis using assms(1) f extends_name unfolding renamed_def by simp
qed

lemma renamed_leaf:
  assumes "names_ok t" and "unat c < length (tr_chunks t)" and "\<not> is_chunk_id (value_at t c i)"
  shows "changes c {i} {} {unat (value_at t c i)} t (update_group_id c i t)" "renamed n t (value_at t c i) (update_group_id c i t) (value_at (update_group_id c i t) c i)"
proof -
  let ?t = "update_group_id c i t" and ?v = "value_at t c i"
  note u = update_group_id_effect [OF assms]
  show "changes c {i} {} {unat ?v} t ?t" unfolding changes_def using u(7) u by (intro conjI) (simp_all only:, simp_all)
  have v': "value_at ?t c i = new_name ?t ?v" unfolding u(6) by simp
  have "\<not> is_chunk_id (new_name ?t ?v)" using new_name_group [OF u(1,3) assms(3)] .
  then show "renamed n t ?v ?t (value_at ?t c i)"
    unfolding v' renamed_def using leaf_value [OF assms(3)] leaf_value [of "new_name ?t ?v"] u(3) by simp
qed

definition rename_spec :: "nat \<Rightarrow> nat \<Rightarrow> bool" where
  "rename_spec n m \<longleftrightarrow> (\<forall>c i t prev. names_ok t \<and> unat c < length (tr_chunks t) \<and> sound n (chunk_at t) (value_at t c i) \<and>
     (\<forall>x \<in> holds n (chunk_at t) (value_at t c i). unat x < length (tr_chunks t)) \<and> c \<notin> holds n (chunk_at t) (value_at t c i) \<and>
     holds n (chunk_at t) (value_at t c i) \<inter> set prev = {} \<longrightarrow>
     (\<exists>t' prev'. update_group_id_next m c i (t, prev) = Some (t', prev') \<and> set prev' = set prev \<union> holds n (chunk_at t) (value_at t c i) \<and>
        changes c {i} (holds n (chunk_at t) (value_at t c i)) (range (\<lambda>p. unat (walk n (chunk_at t) p (value_at t c i)))) t t' \<and> renamed n t (value_at t c i) t' (value_at t' c i)))"

lemma rename_values:
  assumes spec: "rename_spec n m"
    and f: "\<And>j u prev. sound n (chunk_at u) (value_at u d j) \<Longrightarrow> f j (u, prev) = update_group_id_next m d j (u, prev)"
    and d: "unat d < length (tr_chunks t)" and orderly: "orderly n (chunk_at t) d"
    and below: "\<And>x. x \<in> held n (chunk_at t) d \<Longrightarrow> unat x < length (tr_chunks t)"
  defines "W \<equiv> \<lambda>A. (\<Union>i \<in> A. holds n (chunk_at t) (value_at t d i))"
    and "V \<equiv> \<lambda>A. (\<Union>i \<in> A. range (\<lambda>p. unat (walk n (chunk_at t) p (value_at t d i))))"
  assumes t0: "changes d A (W A) (V A) t t0" and ren: "\<And>i. i \<in> A \<Longrightarrow> renamed n t (value_at t d i) t0 (value_at t0 d i)"
    and prev: "set prev0 \<inter> (held n (chunk_at t) d - W A) = {}" and xs: "distinct xs" "A \<inter> set xs = {}"
  shows "\<exists>t' prev'. fold (\<lambda>j os. Option.bind os (f j)) xs (Some (t0, prev0)) = Some (t', prev') \<and>
     set prev' = set prev0 \<union> W (set xs) \<and> changes d (A \<union> set xs) (W (A \<union> set xs)) (V (A \<union> set xs)) t t' \<and>
     (\<forall>i \<in> A \<union> set xs. renamed n t (value_at t d i) t' (value_at t' d i))"
  using t0 ren prev xs
proof (induction xs arbitrary: A t0 prev0)
  case Nil
  then show ?case by (auto simp: W_def)
next
  case (Cons i xs)
  let ?C = "chunk_at t" let ?o = "\<lambda>j. holds n ?C (value_at t d j)"
  have iA: "i \<notin> A" using Cons.prems(5) by auto
  have sub: "?o i \<subseteq> held n ?C d" using orderlyD(5) [OF orderly] .
  have "?o i \<inter> ?o j = {}" if "j \<in> A" for j using orderlyD(2) [OF orderly, of i j] iA that by blast
  then have disj: "?o i \<inter> W A = {}" unfolding W_def by blast
  have dn: "d \<notin> ?o i" using orderlyD(3) [OF orderly] sub by blast
  have v: "value_at t0 d i = value_at t d i" using Cons.prems(1) iA by (simp add: changes_def)
  have same: "chunk_at t0 x = ?C x" if "x \<in> ?o i" for x
    using that disj dn by (intro changesD(1) [OF Cons.prems(1)]) auto
  have fr: "holds n (chunk_at t0) (value_at t d i) = ?o i" "sound n (chunk_at t0) (value_at t d i) = sound n ?C (value_at t d i)"
    "walk n (chunk_at t0) p (value_at t d i) = walk n ?C p (value_at t d i)" for p
    using own_unchanged [of n ?C "value_at t d i" "chunk_at t0", OF same] by auto
  have len: "length (tr_chunks t0) = length (tr_chunks t)" using Cons.prems(1) by (simp add: changes_def)
  have pre: "names_ok t0 \<and> unat d < length (tr_chunks t0) \<and> sound n (chunk_at t0) (value_at t0 d i) \<and>
     (\<forall>x \<in> holds n (chunk_at t0) (value_at t0 d i). unat x < length (tr_chunks t0)) \<and> d \<notin> holds n (chunk_at t0) (value_at t0 d i) \<and>
     holds n (chunk_at t0) (value_at t0 d i) \<inter> set prev0 = {}"
    unfolding v fr len using Cons.prems(1,3) d orderlyD(1) [OF orderly, of i] below sub dn disj by (auto simp: changes_def)
  obtain t1 prev1 where step: "update_group_id_next m d i (t0, prev0) = Some (t1, prev1)"
      and p1: "set prev1 = set prev0 \<union> ?o i" and c1: "changes d {i} (?o i) (range (\<lambda>p. unat (walk n ?C p (value_at t d i)))) t0 t1"
      and r1: "renamed n t0 (value_at t0 d i) t1 (value_at t1 d i)"
    using spec [unfolded rename_spec_def, rule_format, OF pre] unfolding v fr by blast
  have W: "W (insert i A) = W A \<union> ?o i" by (auto simp: W_def)
  have V: "V (insert i A) = V A \<union> range (\<lambda>p. unat (walk n ?C p (value_at t d i)))" by (auto simp: V_def)
  have ch: "changes d (insert i A) (W (insert i A)) (V (insert i A)) t t1" using changes_trans [OF Cons.prems(1) c1] by (simp add: W V)
  have "renamed n t (value_at t d j) t1 (value_at t1 d j)" if "j \<in> insert i A" for j
  proof (cases "j = i")
    case True
    then show ?thesis using r1 unfolding v renamed_def fr by simp
  next
    case False
    then have j: "j \<in> A" using that by simp
    have "value_at t1 d j = value_at t0 d j" using c1 False by (simp add: changes_def)
    moreover have "insert d (?o i) \<inter> ?o j = {}" using orderlyD(2,3,5) [OF orderly] False by blast
    ultimately show ?thesis using renamed_frame [OF Cons.prems(2) [OF j] c1] by simp
  qed
  moreover have "set prev1 \<inter> (held n ?C d - W (insert i A)) = {}" using Cons.prems(3) unfolding p1 W by blast
  moreover have "distinct xs" "insert i A \<inter> set xs = {}" using Cons.prems(4,5) by auto
  ultimately obtain t' prev' where
    "fold (\<lambda>j os. Option.bind os (f j)) xs (Some (t1, prev1)) = Some (t', prev')"
    "set prev' = set prev1 \<union> W (set xs)" "changes d (insert i A \<union> set xs) (W (insert i A \<union> set xs)) (V (insert i A \<union> set xs)) t t'"
    "\<forall>i \<in> insert i A \<union> set xs. renamed n t (value_at t d i) t' (value_at t' d i)"
    using Cons.IH [OF ch, of prev1] by blast
  moreover have "insert i A \<union> set xs = A \<union> set (i # xs)" by auto
  moreover have "W (set (i # xs)) = ?o i \<union> W (set xs)" by (auto simp: W_def)
  moreover have "f i (t0, prev0) = Some (t1, prev1)" using f [of t0 i prev0] pre step by simp
  ultimately show ?case using p1 by (auto simp: Un_assoc)
qed

lemma rename_spec_holds: "n < m \<Longrightarrow> rename_spec n m"
proof (induction n arbitrary: m)
  case 0
  then obtain k where m: "m = Suc k" using gr0_implies_Suc by blast
  show ?case unfolding rename_spec_def
  proof (intro allI impI, elim conjE)
    fix c i and t :: inserting and prev
    assume pre: "names_ok t" "unat c < length (tr_chunks t)" "sound 0 (chunk_at t) (value_at t c i)"
    then have v: "\<not> is_chunk_id (value_at t c i)" by simp
    show "\<exists>t' prev'. update_group_id_next m c i (t, prev) = Some (t', prev') \<and> set prev' = set prev \<union> holds 0 (chunk_at t) (value_at t c i) \<and>
        changes c {i} (holds 0 (chunk_at t) (value_at t c i)) (range (\<lambda>p. unat (walk 0 (chunk_at t) p (value_at t c i)))) t t' \<and> renamed 0 t (value_at t c i) t' (value_at t' c i)"
      using renamed_leaf [OF pre(1,2) v] v by (simp add: m)
  qed
next
  case (Suc n)
  then obtain k where m: "m = Suc k" "n < k" by (cases m) auto
  show ?case unfolding rename_spec_def
  proof (intro allI impI, elim conjE)
    fix c i and t :: inserting and prev
    let ?C = "chunk_at t" let ?v = "value_at t c i" let ?d = "get_chunk_id ?v"
    assume ok: "names_ok t" and c: "unat c < length (tr_chunks t)" and gd: "sound (Suc n) ?C ?v"
      and below: "\<forall>x \<in> holds (Suc n) ?C ?v. unat x < length (tr_chunks t)" and nc: "c \<notin> holds (Suc n) ?C ?v"
      and dis: "holds (Suc n) ?C ?v \<inter> set prev = {}"
    show "\<exists>t' prev'. update_group_id_next m c i (t, prev) = Some (t', prev') \<and> set prev' = set prev \<union> holds (Suc n) ?C ?v \<and>
        changes c {i} (holds (Suc n) ?C ?v) (range (\<lambda>p. unat (walk (Suc n) ?C p ?v))) t t' \<and> renamed (Suc n) t ?v t' (value_at t' c i)"
    proof (cases "is_chunk_id ?v")
      case False
      then show ?thesis using renamed_leaf [OF ok c False] by (simp add: m leaf_value)
    next
      case True
      have o: "holds (Suc n) ?C ?v = insert ?d (held n ?C ?d)" using True by (simp add: holds_Suc)
      have orderly: "orderly n ?C ?d" using gd True by (simp add: sound_Suc)
      have d: "unat ?d < length (tr_chunks t)" using below unfolding o by simp
      have "set prev \<inter> (held n ?C ?d - (\<Union>i \<in> {}. holds n ?C (value_at t ?d i))) = {}" using dis unfolding o by blast
      then obtain t' prev' where fold: "fold (\<lambda>j os. Option.bind os (update_group_id_next k ?d j)) all_bytes (Some (t, prev)) = Some (t', prev')"
        and prev': "set prev' = set prev \<union> held n ?C ?d" and ch: "changes ?d UNIV (held n ?C ?d) (\<Union>i. range (\<lambda>p. unat (walk n ?C p (value_at t ?d i)))) t t'"
        and ren: "\<And>j. renamed n t (value_at t ?d j) t' (value_at t' ?d j)"
        using rename_values [OF Suc.IH [OF m(2)] _ d orderly, of "update_group_id_next k ?d" "{}" t prev all_bytes] changes_refl [OF ok, of ?d "{}" "{}" "{}"] below
        unfolding o by (auto simp: held_def)
      have cc: "chunk_at t' c = ?C c" using nc unfolding o by (intro changesD(1) [OF ch]) auto
      have holds: "holds n (chunk_at t') (value_at t' ?d j) = holds n ?C (value_at t ?d j)" for j using ren by (simp add: renamed_def)
      have cown: "held n (chunk_at t') ?d = held n ?C ?d" unfolding held_def holds ..
      have "orderly n (chunk_at t') ?d"
        unfolding orderly_def cown holds using ren orderly ch by (simp add: renamed_def orderly_def changes_def)
      then have "renamed (Suc n) t ?v t' (value_at t' c i)"
        using True ren by (simp add: renamed_def cc sound_Suc holds_Suc cown walk_Suc chunk_walk_def)
      moreover have "changes c {i} (holds (Suc n) ?C ?v) (range (\<lambda>p. unat (walk (Suc n) ?C p ?v))) t t'" unfolding o range_walk_Suc [OF True] using ch cc by (simp add: changes_def)
      moreover have "?d \<notin> set prev" using dis unfolding o by blast
      ultimately show ?thesis using True fold prev' by (simp add: m o)
    qed
  qed
qed

section \<open>Inserting a prefix\<close>

text \<open>The paths that a prefix covers, read off the masks of the steps.\<close>

function covers :: "'a::len word \<Rightarrow> 'a word \<Rightarrow> u8 list \<Rightarrow> bool" where
  "covers address m p =
     (if push_bit 8 m \<noteq> 0 then hd p = step_address address m \<and> covers (push_bit 8 address) (push_bit 8 m) (tl p)
      else hd p \<in> set (step_range address m))"
  by pat_completeness auto

termination covers
  by (relation "measure (\<lambda>(address, m, p). mask_steps m)") (simp_all add: shifted_steps)

declare covers.simps [simp del]

lemma covered_values:
  assumes "push_bit 8 m = 0"
  shows "(\<Union>i \<in> set (step_range address m). range (\<lambda>p. f (walk n C p (chunk_values (C c) i)))) = {f (chunk_walk n C p c) | p. covers address m p}"
proof (intro equalityI subsetI)
  fix g assume "g \<in> (\<Union>i \<in> set (step_range address m). range (\<lambda>p. f (walk n C p (chunk_values (C c) i))))"
  then obtain i p where "i \<in> set (step_range address m)" "g = f (walk n C p (chunk_values (C c) i))" by blast
  then have "g = f (chunk_walk n C (i # p) c)" "covers address m (i # p)"
    using assms by (simp_all add: chunk_walk_def covers.simps [of address m])
  then show "g \<in> {f (chunk_walk n C p c) | p. covers address m p}" by blast
qed (auto simp: chunk_walk_def covers.simps [of address m] assms)

definition inserted :: "nat \<Rightarrow> u32 \<Rightarrow> 'a::len word \<Rightarrow> 'a word \<Rightarrow> inserting \<Rightarrow> inserting \<Rightarrow> bool" where
  "inserted n c address m t t' \<longleftrightarrow> names_ok t' \<and> extends t t' \<and> named t' \<subseteq> named t \<union> {unat (chunk_walk n (chunk_at t) p c) | p. covers address m p} \<and> tr_capacity t' = tr_capacity t \<and>
     length (tr_chunks t) \<le> length (tr_chunks t') \<and> length (tr_chunks t') \<le> length (tr_chunks t) + n \<and> orderly n (chunk_at t') c \<and>
     (\<forall>x \<in> held n (chunk_at t') c. x \<in> held n (chunk_at t) c \<or> length (tr_chunks t) \<le> unat x \<and> unat x < length (tr_chunks t')) \<and>
     (\<forall>x. x \<noteq> c \<and> x \<notin> held n (chunk_at t) c \<and> unat x < length (tr_chunks t) \<longrightarrow> chunk_at t' x = chunk_at t x) \<and>
     (\<forall>p. chunk_walk n (chunk_at t') p c = (if covers address m p then new_name t' (chunk_walk n (chunk_at t) p c) else chunk_walk n (chunk_at t) p c) \<and>
        (covers address m p \<longrightarrow> has_name t' (chunk_walk n (chunk_at t) p c)))"

lemma step_range_distinct: "distinct (step_range address m)"
proof -
  let ?k = "Suc (unat (NOT (step_mask m)))"
  have k: "?k \<le> 256" using unsigned_less [of "NOT (step_mask m)", where ?'a = nat] by simp
  have e: "unat (of_nat k :: u8) = k" if "k < 256" for k using that by (intro unat_of_nat_small) simp
  have "inj_on (\<lambda>k. of_nat k :: u8) {0..<256}" by (rule inj_on_inverseI [of _ unat]) (simp add: e)
  then have "inj_on (\<lambda>k. of_nat k :: u8) (set [0..<?k])"
    by (rule inj_on_subset) (simp only: set_upt ivl_subset k le_refl simp_thms)
  then show ?thesis unfolding step_range_def distinct_map by (intro conjI distinct_upt) (simp only: inj_on_def add_left_cancel)
qed

lemma own_value_single: "sound n (chunk_at t) (value_at t c i) \<Longrightarrow> is_chunk_id (value_at t c i) \<Longrightarrow> unshare c i t = Some t"
  by (cases n) (simp_all add: sound_Suc orderly_def unshare_def Let_def)

lemma insert_last_effect:
  assumes ok: "names_ok t" and orderly: "orderly n (chunk_at t) c" and c: "unat c < length (tr_chunks t)"
    and below: "\<forall>x \<in> held n (chunk_at t) c. unat x < length (tr_chunks t)" and m: "push_bit 8 m = 0" "n < k"
  shows "\<exists>t'. insert_last k c (step_range address m) t = Some t' \<and> inserted n c address m t t'"
proof -
  let ?C = "chunk_at t" let ?xs = "step_range address m" let ?W = "\<Union>i \<in> set ?xs. holds n ?C (value_at t c i)"
  let ?f = "\<lambda>i (t, prev). Option.bind (if is_chunk_id (value_at t c i) then unshare c i t else Some t) (\<lambda>t. update_group_id_next k c i (t, prev))"
  have f: "?f i (u, prev) = update_group_id_next k c i (u, prev)" if "sound n (chunk_at u) (value_at u c i)" for i u prev
    using own_value_single [OF that] by simp
  have "\<And>x. x \<in> held n ?C c \<Longrightarrow> unat x < length (tr_chunks t)" using below by blast
  note rename_values [OF rename_spec_holds [OF m(2)] f c orderly this, of "{}" t "[]" ?xs]
  then obtain t' prev' where "fold (\<lambda>j os. Option.bind os (?f j)) ?xs (Some (t, [])) = Some (t', prev')" and ch: "changes c (set ?xs) ?W (\<Union>i \<in> set ?xs. range (\<lambda>p. unat (walk n ?C p (value_at t c i)))) t t'"
    and ren: "\<And>i. i \<in> set ?xs \<Longrightarrow> renamed n t (value_at t c i) t' (value_at t' c i)"
    using changes_refl [OF ok, of c "{}" "{}" "{}"] step_range_distinct [of address m] by auto
  then have fold: "insert_last k c ?xs t = Some t'" by (simp add: insert_last_def)
  have W: "?W \<subseteq> held n ?C c" by (auto simp: held_def)
  have same: "holds n (chunk_at t') (value_at t c i) = holds n ?C (value_at t c i) \<and> sound n (chunk_at t') (value_at t c i) = sound n ?C (value_at t c i) \<and>
      walk n (chunk_at t') p (value_at t c i) = walk n ?C p (value_at t c i)" if "i \<notin> set ?xs" for i p
  proof (rule own_unchanged)
    fix x assume x: "x \<in> holds n ?C (value_at t c i)"
    have "x \<notin> holds n ?C (value_at t c j)" if "j \<in> set ?xs" for j using orderlyD(2) [OF orderly, of i j] x that \<open>i \<notin> set ?xs\<close> by blast
    then show "chunk_at t' x = ?C x" using orderlyD(3,5) [OF orderly] x by (intro changesD(1) [OF ch]) auto
  qed
  have val: "value_at t' c i = value_at t c i" if "i \<notin> set ?xs" for i using changesD(2) [OF ch that] .
  have holds: "holds n (chunk_at t') (value_at t' c i) = holds n ?C (value_at t c i)" for i
    using ren [of i] same [of i] val [of i] by (cases "i \<in> set ?xs") (simp_all add: renamed_def)
  have cown: "held n (chunk_at t') c = held n ?C c" unfolding held_def holds ..
  have "sound n (chunk_at t') (value_at t' c i)" for i
    using ren [of i] same [of i] val [of i] orderlyD(1) [OF orderly, of i] by (cases "i \<in> set ?xs") (simp_all add: renamed_def)
  then have "orderly n (chunk_at t') c" unfolding orderly_def cown holds using orderly ch by (simp add: orderly_def changes_def)
  moreover have "chunk_walk n (chunk_at t') p c = (if covers address m p then new_name t' (chunk_walk n ?C p c) else chunk_walk n ?C p c) \<and>
      (covers address m p \<longrightarrow> has_name t' (chunk_walk n ?C p c))" for p
    using ren [of "hd p"] same [of "hd p"] val [of "hd p"] by (simp add: covers.simps [of address m] m(1) chunk_walk_def renamed_def)
  moreover have "chunk_at t' x = ?C x" if "x \<noteq> c" "x \<notin> held n ?C c" for x using that W by (intro changesD(1) [OF ch]) auto
  ultimately have "inserted n c address m t t'" using ch changes_named [OF ch] unfolding inserted_def cown covered_values [OF m(1)] by (simp add: changes_def)
  then show ?thesis using fold by blast
qed

lemma allocate_chunk_effect:
  fixes t :: "'s arena_scheme"
  assumes "length (tr_chunks t) < tr_capacity t" and "length (tr_chunks t) < 2 ^ 31"
  defines "t' \<equiv> t\<lparr>tr_chunks := tr_chunks t @ [new_chunk]\<rparr>" and "d \<equiv> of_nat (length (tr_chunks t)) :: u32"
  shows "allocate_chunk t = Some (d, t')" "unat d = length (tr_chunks t)" "unat x < length (tr_chunks t) \<Longrightarrow> chunk_at t' x = chunk_at t x"
    "chunk_at t' d = new_chunk"
proof -
  show u: "unat d = length (tr_chunks t)" using assms(2) by (simp add: d_def unat_of_nat_small)
  show "allocate_chunk t = Some (d, t')" using assms(1) by (simp add: allocate_chunk_def t'_def d_def)
  show "unat x < length (tr_chunks t) \<Longrightarrow> chunk_at t' x = chunk_at t x" by (simp add: chunk_at_def t'_def nth_append)
  show "chunk_at t' d = new_chunk" by (simp add: chunk_at_def t'_def u)
qed

text \<open>After the first half of a step the value refers to a chunk of its own, with the same groups below it.\<close>

definition opened :: "nat \<Rightarrow> u32 \<Rightarrow> u8 \<Rightarrow> u32 \<Rightarrow> inserting \<Rightarrow> inserting \<Rightarrow> bool" where
  "opened n c i d t t' \<longleftrightarrow> in_remap t' = in_remap t \<and> in_group_id t' = in_group_id t \<and> tr_capacity t' = tr_capacity t \<and>
     length (tr_chunks t) \<le> length (tr_chunks t') \<and> length (tr_chunks t') \<le> Suc (length (tr_chunks t)) \<and>
     unat d < length (tr_chunks t') \<and> unat d < 2 ^ 31 \<and> d \<noteq> c \<and> (d \<in> holds (Suc n) (chunk_at t) (value_at t c i) \<or> unat d = length (tr_chunks t)) \<and>
     chunk_at t' c = (chunk_at t c)\<lparr>chunk_values := (chunk_values (chunk_at t c))(i := set_chunk_id d)\<rparr> \<and>
     (\<forall>x. x \<noteq> c \<and> unat x < length (tr_chunks t) \<longrightarrow> chunk_at t' x = chunk_at t x) \<and> orderly n (chunk_at t') d \<and>
     held n (chunk_at t') d \<subseteq> holds (Suc n) (chunk_at t) (value_at t c i) \<and>
     (\<forall>p. chunk_walk n (chunk_at t') p d = walk (Suc n) (chunk_at t) p (value_at t c i))"

lemma insert_next_effect:
  assumes orderly: "orderly (Suc n) (chunk_at t) c" and c: "unat c < length (tr_chunks t)"
    and below: "\<forall>x \<in> held (Suc n) (chunk_at t) c. unat x < length (tr_chunks t)"
    and room: "length (tr_chunks t) < tr_capacity t" "length (tr_chunks t) < 2 ^ 31"
  shows "\<exists>t' d. insert_next c i t = Some t' \<and> opened n c i d t t'"
proof (cases "is_chunk_id (value_at t c i)")
  case True
  let ?v = "value_at t c i" let ?d = "get_chunk_id ?v"
  have gd: "sound (Suc n) (chunk_at t) ?v" and sub: "holds (Suc n) (chunk_at t) ?v \<subseteq> held (Suc n) (chunk_at t) c" using orderlyD(1,5) [OF orderly] by auto
  have o: "holds (Suc n) (chunk_at t) ?v = insert ?d (held n (chunk_at t) ?d)" using True by (simp add: holds_Suc)
  have "?d \<noteq> c" "unat ?d < length (tr_chunks t)" using sub below orderlyD(3) [OF orderly] unfolding o by auto
  then have "opened n c i ?d t t"
    using gd True get_chunk_id_less [OF True] unfolding opened_def o by (auto simp: sound_Suc walk_Suc)
  then show ?thesis using True own_value_single [OF gd True] by (auto simp: insert_next_def)
next
  case False
  let ?v = "value_at t c i" let ?d = "of_nat (length (tr_chunks t)) :: u32" let ?t = "t\<lparr>tr_chunks := tr_chunks t @ [new_chunk]\<rparr>"
  note a = allocate_chunk_effect [OF room]
  let ?t1 = "put_tree_chunk ?d \<lparr>is_multirefs = 0, chunk_values = (\<lambda>_. ?v)\<rparr> ?t" let ?t2 = "put_value c i (set_chunk_id ?d) ?t1"
  have d: "unat ?d < length (tr_chunks ?t)" using a(2) by simp
  have "new_chunk = \<lparr>is_multirefs = 0, chunk_values = (\<lambda>_. ?v)\<rparr>" if "?v = 0" using that by (simp add: new_chunk_def)
  then have "put_tree_chunk ?d \<lparr>is_multirefs = 0, chunk_values = (\<lambda>_. ?v)\<rparr> ?t = ?t" if "?v = 0"
    using that a(2,4) by (simp add: put_tree_chunk_def chunk_at_def)
  then have ins: "insert_next c i t = Some ?t2" using False a(1,4) by (cases "?v = 0") (simp_all add: insert_next_def new_chunk_def)
  have dc: "?d \<noteq> c" using c a(2) by auto
  have C1: "chunk_at ?t1 = (chunk_at ?t)(?d := \<lparr>is_multirefs = 0, chunk_values = (\<lambda>_. ?v)\<rparr>)" using d by (rule chunk_at_put(1))
  have C2: "chunk_at ?t2 = (chunk_at ?t1)(c := (chunk_at ?t1 c)\<lparr>chunk_values := (chunk_values (chunk_at ?t1 c))(i := set_chunk_id ?d)\<rparr>)"
    using c by (intro chunk_at_put(2)) simp
  have cd: "chunk_at ?t2 ?d = \<lparr>is_multirefs = 0, chunk_values = (\<lambda>_. ?v)\<rparr>" using dc by (simp add: C2 C1)
  have cc: "chunk_at ?t2 c = (chunk_at t c)\<lparr>chunk_values := (chunk_values (chunk_at t c))(i := set_chunk_id ?d)\<rparr>"
    using dc a(3) [OF c] by (simp add: C2 C1)
  have other: "chunk_at ?t2 x = chunk_at t x" if "x \<noteq> c" "unat x < length (tr_chunks t)" for x
    using that a(2) a(3) [OF that(2)] by (auto simp: C2 C1)
  have "orderly n (chunk_at ?t2) ?d" "held n (chunk_at ?t2) ?d = {}"
      "chunk_walk n (chunk_at ?t2) p ?d = walk (Suc n) (chunk_at t) p ?v" for p
    using leaf_value [OF False] by (simp_all add: orderly_def held_def chunk_walk_def cd)
  then have "opened n c i ?d t ?t2"
    unfolding opened_def using dc cc other a(2) room(2) by (auto simp: put_tree_chunk_def put_value_def)
  then show ?thesis using ins by blast
qed

lemma inserted_opened:
  assumes orderly: "orderly (Suc n) (chunk_at t) c" and c: "unat c < length (tr_chunks t)"
    and below: "\<forall>x \<in> held (Suc n) (chunk_at t) c. unat x < length (tr_chunks t)"
    and op: "opened n c (step_address address m) d t t1" and ins: "inserted n d (push_bit 8 address) (push_bit 8 m) t1 t'"
    and m: "push_bit 8 m \<noteq> 0"
  shows "inserted (Suc n) c address m t t'"
proof -
  let ?i = "step_address address m" let ?C = "chunk_at t" and ?C' = "chunk_at t'" let ?v = "value_at t c ?i" and ?w = "set_chunk_id d"
  let ?o = "holds (Suc n) ?C ?v"
  note O = op [unfolded opened_def] and I = ins [unfolded inserted_def]
  have sub: "?o \<subseteq> held (Suc n) ?C c" using orderlyD(5) [OF orderly] .
  have fresh: "x \<in> held n ?C' d \<Longrightarrow> x \<in> ?o \<or> length (tr_chunks t) \<le> unat x \<and> unat x < length (tr_chunks t')" for x
    using I O by (meson dual_order.trans subsetD)
  have keep: "?C' x = chunk_at t1 x" if "x \<noteq> d" "x \<notin> ?o" "unat x < length (tr_chunks t)" for x
    using I O that by (meson dual_order.strict_trans1 subsetD order.strict_trans2)
  have cn: "c \<notin> ?o" using orderlyD(3) [OF orderly] sub by blast
  have Cc: "?C' c = (?C c)\<lparr>chunk_values := (chunk_values (?C c))(?i := ?w)\<rparr>" using keep [of c] O cn c by metis
  have same: "?C' x = ?C x" if "x \<noteq> c" "x \<notin> ?o" "unat x < length (tr_chunks t)" for x
  proof -
    have "x \<noteq> d" using O that(2,3) by auto
    then show ?thesis using keep [of x] that O by simp
  qed
  have w: "is_chunk_id ?w" using O by simp
  have ow: "holds (Suc n) ?C' ?w = insert d (held n ?C' d)" using w by (simp add: holds_Suc)
  have ow': "x \<in> holds (Suc n) ?C' ?w \<Longrightarrow> x \<in> ?o \<or> length (tr_chunks t) \<le> unat x \<and> unat x < length (tr_chunks t')" for x
  proof -
    have "d \<in> ?o \<or> length (tr_chunks t) \<le> unat d \<and> unat d < length (tr_chunks t')" using O I by auto
    then show "x \<in> holds (Suc n) ?C' ?w \<Longrightarrow> ?thesis" using fresh unfolding ow by blast
  qed
  have same': "?C' x = ?C x" if "x \<in> held (Suc n) ?C c - ?o" for x
    using that below orderlyD(3) [OF orderly] by (intro same) auto
  have gw: "sound (Suc n) ?C' ?w" using w I by (simp add: sound_Suc)
  have disj: "holds (Suc n) ?C' ?w \<inter> (held (Suc n) ?C c - ?o) = {}" using ow' below by (meson DiffD1 DiffD2 disjoint_iff not_le)
  have nc: "c \<notin> holds (Suc n) ?C' ?w" using ow' [of c] c cn by auto
  note e = exchange_value [OF orderly Cc same' gw disj nc]
  have wk: "walk (Suc n) ?C' p ?w = chunk_walk n ?C' p d" for p using w by (simp add: walk_Suc)
  have "chunk_walk (Suc n) ?C' p c = (if covers address m p then new_name t' (chunk_walk (Suc n) ?C p c) else chunk_walk (Suc n) ?C p c) \<and>
      (covers address m p \<longrightarrow> has_name t' (chunk_walk (Suc n) ?C p c))" for p
  proof (cases "hd p = ?i")
    case True
    have "chunk_walk n (chunk_at t1) (tl p) d = walk (Suc n) ?C (tl p) ?v" using O by blast
    also have "\<dots> = chunk_walk (Suc n) ?C p c" using True by (simp add: chunk_walk_def)
    finally have o: "chunk_walk n (chunk_at t1) (tl p) d = chunk_walk (Suc n) ?C p c" .
    moreover have "chunk_walk (Suc n) ?C' p c = chunk_walk n ?C' (tl p) d" using e(3) [of p] wk True by simp
    moreover have "covers address m p = covers (push_bit 8 address) (push_bit 8 m) (tl p)" using True m covers.simps [of address m p] by simp
    moreover have "covers (push_bit 8 address) (push_bit 8 m) (tl p) \<longrightarrow> has_name t' (chunk_walk n (chunk_at t1) (tl p) d)" using I by blast
    ultimately show ?thesis using I by simp
  qed (use e(3) [of p] m in \<open>simp add: covers.simps [of address m p]\<close>)
  moreover have "\<forall>x \<in> held (Suc n) ?C' c. x \<in> held (Suc n) ?C c \<or> length (tr_chunks t) \<le> unat x \<and> unat x < length (tr_chunks t')"
    using e(2) ow' sub by blast
  moreover have "\<forall>x. x \<noteq> c \<and> x \<notin> held (Suc n) ?C c \<and> unat x < length (tr_chunks t) \<longrightarrow> ?C' x = ?C x" using same sub by blast
  moreover have "extends t t'" "length (tr_chunks t') \<le> length (tr_chunks t) + Suc n" using I O by (auto simp: extends_def)
  moreover have "names_ok t'" "tr_capacity t' = tr_capacity t" "length (tr_chunks t) \<le> length (tr_chunks t')" using I O by auto
  moreover have "named t' \<subseteq> named t \<union> {unat (chunk_walk (Suc n) ?C p c) | p. covers address m p}"
  proof -
    have "{unat (chunk_walk n (chunk_at t1) p d) | p. covers (push_bit 8 address) (push_bit 8 m) p} \<subseteq> {unat (chunk_walk (Suc n) ?C p c) | p. covers address m p}"
    proof (intro subsetI, elim CollectE exE conjE)
      fix g p assume g: "g = unat (chunk_walk n (chunk_at t1) p d)" and "covers (push_bit 8 address) (push_bit 8 m) p"
      then have "covers address m (?i # p)" using m by (simp add: covers.simps [of address m])
      moreover have "g = unat (chunk_walk (Suc n) ?C (?i # p) c)" unfolding g using O by (simp add: chunk_walk_def [of "Suc n"])
      ultimately show "g \<in> {unat (chunk_walk (Suc n) ?C p c) | p. covers address m p}" by blast
    qed
    moreover have "named t1 = named t" using O by simp
    moreover have "named t' \<subseteq> named t1 \<union> {unat (chunk_walk n (chunk_at t1) p d) | p. covers (push_bit 8 address) (push_bit 8 m) p}" using I by blast
    ultimately show ?thesis by blast
  qed
  ultimately show ?thesis unfolding inserted_def using e(1) by blast
qed

lemma insert_step_effect:
  fixes address :: "'a::len word"
  assumes "names_ok t" and "orderly n (chunk_at t) c" and "unat c < length (tr_chunks t)"
    and "\<forall>x \<in> held n (chunk_at t) c. unat x < length (tr_chunks t)" and "push_bit (8 * Suc n) m = 0" and "n < LENGTH('a) div 8"
    and "length (tr_chunks t) + n \<le> tr_capacity t" and "length (tr_chunks t) + n \<le> 2 ^ 31"
  shows "\<exists>t'. insert_step address m c t = Some t' \<and> inserted n c address m t t'"
  using assms
proof (induction n arbitrary: address m c t)
  case 0
  then show ?case using insert_last_effect [of t 0 c m "LENGTH('a) div 8" address] by (simp add: insert_step.simps [of address m])
next
  case (Suc n)
  show ?case
  proof (cases "push_bit 8 m = 0")
    case True
    then show ?thesis using insert_last_effect [of t "Suc n" c m "LENGTH('a) div 8" address] Suc.prems by (simp add: insert_step.simps [of address m])
  next
    case False
    have room: "length (tr_chunks t) < tr_capacity t" "length (tr_chunks t) < 2 ^ 31" using Suc.prems(7,8) by simp_all
    obtain t1 d where nx: "insert_next c (step_address address m) t = Some t1" and op: "opened n c (step_address address m) d t t1"
      using insert_next_effect [OF Suc.prems(2,3,4) room] by blast
    note O = op [unfolded opened_def]
    have d: "get_chunk_id (value_at t1 c (step_address address m)) = d" using O by simp
    have o: "holds (Suc n) (chunk_at t) (value_at t c (step_address address m)) \<subseteq> held (Suc n) (chunk_at t) c"
      using orderlyD(5) [OF Suc.prems(2)] .
    have "\<forall>x \<in> held n (chunk_at t1) d. unat x < length (tr_chunks t1)" using O o Suc.prems(4) by (meson order.strict_trans2 subsetD)
    moreover have "names_ok t1" using names_cong [of t1 t] O Suc.prems(1) by blast
    moreover have "push_bit (8 * Suc n) (push_bit 8 m) = 0" using Suc.prems(5) by (simp add: push_bit_push_bit add.commute)
    moreover have "length (tr_chunks t1) + n \<le> tr_capacity t1" "length (tr_chunks t1) + n \<le> 2 ^ 31" "n < LENGTH('a) div 8"
      using O Suc.prems(6,7,8) by linarith+
    moreover have "orderly n (chunk_at t1) d" "unat d < length (tr_chunks t1)" using O by auto
    ultimately obtain t' where "insert_step (push_bit 8 address) (push_bit 8 m) d t1 = Some t'"
      and ins: "inserted n d (push_bit 8 address) (push_bit 8 m) t1 t'"
      using Suc.IH [of t1 d "push_bit 8 m" "push_bit 8 address"] by blast
    then show ?thesis using inserted_opened [OF Suc.prems(2,3,4) op ins False] nx d False by (simp add: insert_step.simps [of address m] Let_def)
  qed
qed

end
