(* ===== verification/AclTreeQuery.thy ===== *)
theory AclTreeQuery
  imports AclTreeInsert
begin

text \<open>
  Reading the ACL tree: which addresses a prefix covers, the group that an address is looked up to, the
  groups of a prefix, and the renaming of the groups of the whole tree.
\<close>

section \<open>Masks without a gap\<close>

lemma nat_and_Suc_eq_0: "x AND Suc x = 0 \<Longrightarrow> \<exists>j. x = mask j"
proof (induction x rule: less_induct)
  case (less x)
  show ?case
  proof (cases "even x")
    case True
    then have "x = 0" using less.prems and_nat_unfold [of x "Suc x"] and_nat_unfold [of x x]
      by (metis add_is_0 and.idem even_Suc_div_two even_two_times_div_two plus_1_eq_Suc)
    then show ?thesis by (intro exI [of _ 0]) simp
  next
    case False
    then obtain y where x: "x = Suc (2 * y)" by (metis oddE Suc_eq_plus1)
    have "y AND Suc y = 0" using less.prems and_nat_unfold [of "Suc (2 * y)" "Suc (Suc (2 * y))"] x by simp
    then obtain j where "y = mask j" using less.IH [of y] x by auto
    then have "Suc x = Suc (mask (Suc j))" using x Suc_mask_eq_exp [of j] Suc_mask_eq_exp [of "Suc j"] by simp
    then show ?thesis by blast
  qed
qed

lemma mask_no_gap:
  fixes m :: "'a::len word"
  assumes "\<not> is_mask_gapped m"
  shows "\<exists>j \<le> LENGTH('a). m = NOT (mask j)"
proof -
  let ?x = "NOT m"
  have "(m OR (m - 1)) + 1 = 0" using assms by (simp add: is_mask_gapped_def)
  then have "m OR (m - 1) = - 1" by (simp add: eq_neg_iff_add_eq_0)
  then have "NOT (m OR (m - 1)) = 0" by simp
  moreover have "NOT (m - 1) = ?x + 1" by (simp add: not_eq_complement)
  ultimately have 0: "?x AND (?x + 1) = 0" by (simp only: bit.de_Morgan_disj)
  show ?thesis
  proof (cases "?x = - 1")
    case True
    have "(mask LENGTH('a) :: 'a word) = - 1" by (intro bit_word_eqI) (simp add: bit_mask_iff)
    then show ?thesis using True by (metis bit.double_compl order_refl)
  next
    case False
    then have u: "unat (?x + 1) = Suc (unat ?x)" using unatSuc [of ?x] by (simp add: add.commute eq_neg_iff_add_eq_0)
    have "unat ?x AND Suc (unat ?x) = 0" using arg_cong [OF 0, of unat] by (simp add: unsigned_and_eq u)
    then obtain j where j: "unat ?x = mask j" using nat_and_Suc_eq_0 by blast
    have "mask j < (2::nat) ^ LENGTH('a)" using unsigned_less [of ?x, where ?'a = nat] unfolding j .
    then have "(2::nat) ^ j \<le> 2 ^ LENGTH('a)" using Suc_mask_eq_exp [of j] by (metis Suc_leI)
    then have "j \<le> LENGTH('a)" by simp
    moreover have "?x = mask j"
    proof -
      have "?x = of_nat (mask j)" using j \<open>mask j < 2 ^ LENGTH('a)\<close> by (simp add: word_unat_eq_iff unat_of_nat_small del: of_nat_mask_eq)
      then show ?thesis by (simp add: of_nat_mask_eq)
    qed
    ultimately show ?thesis by (metis bit.double_compl)
  qed
qed

lemma no_gap_shift:
  assumes "\<not> is_mask_gapped m"
  shows "\<not> is_mask_gapped (push_bit 8 m)"
proof -
  obtain j where m: "m = NOT (mask j)" using mask_no_gap [OF assms] by blast
  have s: "push_bit 8 m = push_bit (j + 8) (- 1)"
    unfolding m by (intro bit_word_eqI) (auto simp: bit_push_bit_iff bit_not_iff bit_mask_iff)
  have "bit (push_bit (j + 8) (- 1 :: 'a word) - 1) i" if "i < LENGTH('a)" "i < j + 8" for i
  proof -
    have "push_bit (j + 8) (- 1 :: 'a word) - 1 = NOT (push_bit (j + 8) 1)"
      by (simp add: push_bit_eq_mult not_eq_complement)
    then show ?thesis using that by (simp add: bit_not_iff bit_exp_iff)
  qed
  then have "push_bit 8 m OR (push_bit 8 m - 1) = - 1"
    unfolding s by (intro bit_word_eqI) (auto simp: bit_or_iff bit_not_iff bit_mask_iff)
  then show ?thesis by (simp add: is_mask_gapped_def)
qed

abbreviation top_byte :: "'a::len word \<Rightarrow> u8" where
  "top_byte x \<equiv> ucast (drop_bit (LENGTH('a) - 8) x)"

lemma top_byte_bit: "8 \<le> LENGTH('a) \<Longrightarrow> bit (top_byte x) i \<longleftrightarrow> i < 8 \<and> bit x (LENGTH('a) - 8 + i)" for x :: "'a::len word"
  by (auto simp: bit_ucast_iff bit_drop_bit_eq)

lemma top_byte_eq_iff:
  fixes x y m :: "'a::len word"
  assumes "8 \<le> LENGTH('a)"
  shows "top_byte x AND top_byte m = top_byte y AND top_byte m \<longleftrightarrow>
    (\<forall>i. LENGTH('a) - 8 \<le> i \<and> i < LENGTH('a) \<and> bit m i \<longrightarrow> bit x i = bit y i)" (is "?l \<longleftrightarrow> ?r")
proof
  assume l: ?l
  show ?r
  proof (intro allI impI)
    fix i assume i: "LENGTH('a) - 8 \<le> i \<and> i < LENGTH('a) \<and> bit m i"
    then obtain k where k: "i = LENGTH('a) - 8 + k" using le_Suc_ex by blast
    have "bit (top_byte x AND top_byte m) k = bit (top_byte y AND top_byte m) k" using l by simp
    moreover have "k < 8" using i k assms by linarith
    ultimately show "bit x i = bit y i" using i unfolding k bit_and_iff top_byte_bit [OF assms] by blast
  qed
next
  assume r: ?r
  show ?l
  proof (intro bit_word_eqI)
    fix n assume "n < LENGTH(8)"
    then have "LENGTH('a) - 8 + n < LENGTH('a)" using assms by simp
    then have "bit m (LENGTH('a) - 8 + n) \<Longrightarrow> bit x (LENGTH('a) - 8 + n) = bit y (LENGTH('a) - 8 + n)" using r by simp
    then show "bit (top_byte x AND top_byte m) n = bit (top_byte y AND top_byte m) n" unfolding bit_and_iff top_byte_bit [OF assms] by blast
  qed
qed

lemma and_eq_iff: "x AND m = y AND m \<longleftrightarrow> (\<forall>i. i < LENGTH('a) \<and> bit m i \<longrightarrow> bit x i = bit y i)" for x y m :: "'a::len word"
proof
  assume l: "x AND m = y AND m"
  show "\<forall>i. i < LENGTH('a) \<and> bit m i \<longrightarrow> bit x i = bit y i"
  proof (intro allI impI)
    fix i assume i: "i < LENGTH('a) \<and> bit m i"
    have "bit (x AND m) i = bit (y AND m) i" using l by simp
    then show "bit x i = bit y i" using i by (simp add: bit_and_iff)
  qed
qed (auto intro!: bit_word_eqI simp: bit_and_iff)

lemma step_mask_full:
  fixes m :: "'a::len word"
  assumes "\<not> is_mask_gapped m" and "push_bit 8 m \<noteq> 0" and "8 \<le> LENGTH('a)"
  shows "step_mask m = - 1"
proof -
  obtain j where m: "m = NOT (mask j)" using mask_no_gap [OF assms(1)] by blast
  have "j < LENGTH('a) - 8"
  proof (rule ccontr)
    assume "\<not> j < LENGTH('a) - 8"
    then have "push_bit 8 m = 0" unfolding m by (intro bit_word_eqI) (auto simp: bit_push_bit_iff bit_not_iff bit_mask_iff)
    then show False using assms(2) by simp
  qed
  then show ?thesis unfolding step_mask_def m using assms(3)
    by (intro bit_word_eqI) (auto simp: top_byte_bit bit_not_iff bit_mask_iff)
qed

lemma step_range_match:
  fixes m :: "'a::len word"
  assumes "\<not> is_mask_gapped m" and "8 \<le> LENGTH('a)"
  shows "b \<in> set (step_range a m) \<longleftrightarrow> b AND step_mask m = step_address a m"
proof -
  obtain j where m: "m = NOT (mask j)" using mask_no_gap [OF assms(1)] by blast
  define k where "k = min 8 (j - (LENGTH('a) - 8))"
  have sm: "step_mask m = NOT (mask k)" unfolding step_mask_def m k_def using assms(2)
    by (intro bit_word_eqI) (auto simp: top_byte_bit bit_not_iff bit_mask_iff)
  have k: "k \<le> 8" by (simp add: k_def)
  have "(mask k :: u8) = of_nat (mask k)" by (simp add: of_nat_mask_eq)
  moreover have "mask k < (2 :: nat) ^ 8" using k power_increasing [of k 8 "2 :: nat"] by (simp add: mask_eq_exp_minus_1)
  ultimately have u: "Suc (unat (NOT (step_mask m))) = 2 ^ k" using Suc_mask_eq_exp [of k] by (simp add: sm unat_of_nat_small)
  have al: "take_bit k (step_address a m) = 0"
    unfolding step_address_def sm by (intro bit_word_eqI) (auto simp: bit_take_bit_iff bit_and_iff bit_not_iff bit_mask_iff)
  have "b \<in> set (step_range a m) \<longleftrightarrow> (\<exists>i < 2 ^ k. b = step_address a m + of_nat i)"
    unfolding step_range_def u by auto
  also have "\<dots> \<longleftrightarrow> drop_bit k b = drop_bit k (step_address a m)" using aligned_range [OF al] k by simp
  also have "\<dots> \<longleftrightarrow> b AND step_mask m = step_address a m AND step_mask m"
  proof -
    have b8: "\<not> bit w n" if "\<not> n < 8" for w :: u8 and n using that bit_imp_le_length [of w n] by auto
    have "(\<forall>n \<ge> k. bit b n = bit (step_address a m) n) \<longleftrightarrow> (\<forall>n. n < 8 \<and> k \<le> n \<longrightarrow> bit b n = bit (step_address a m) n)"
      using b8 by blast
    then show ?thesis unfolding drop_bit_eq_iff_bits and_eq_iff sm by (auto simp: bit_not_iff bit_mask_iff not_less)
  qed
  also have "step_address a m AND step_mask m = step_address a m" by (simp add: step_address_def and.assoc)
  finally show ?thesis .
qed

section \<open>The addresses of a prefix\<close>

primrec path :: "nat \<Rightarrow> 'a::len word \<Rightarrow> u8 list" where
  "path 0 x = []"
| "path (Suc n) x = top_byte x # path n (push_bit 8 x)"

lemma covers_last:
  fixes x :: "'a::len word"
  assumes "\<not> is_mask_gapped m" and "8 \<le> LENGTH('a)" and "push_bit 8 m = 0"
  shows "covers a m (path (Suc n) x) \<longleftrightarrow> x AND m = a AND m"
proof -
  have m: "LENGTH('a) - 8 \<le> i" if "i < LENGTH('a)" "bit m i" for i
  proof (rule ccontr)
    assume "\<not> LENGTH('a) - 8 \<le> i"
    then have "bit (push_bit 8 m) (i + 8)" using that by (simp add: bit_push_bit_iff)
    then show False using assms(3) by simp
  qed
  have "covers a m (path (Suc n) x) \<longleftrightarrow> top_byte x AND top_byte m = top_byte a AND top_byte m"
    using step_range_match [OF assms(1,2), of "top_byte x" a] assms(3) by (simp add: covers.simps [of a m] step_address_def step_mask_def)
  also have "\<dots> \<longleftrightarrow> x AND m = a AND m" unfolding top_byte_eq_iff [OF assms(2)] and_eq_iff [of x m a] by (intro iff_allI) (auto dest: m)
  finally show ?thesis .
qed

lemma covers_match:
  fixes x :: "'a::len word"
  assumes "\<not> is_mask_gapped m" and "8 \<le> LENGTH('a)" and "push_bit (8 * Suc n) m = 0"
  shows "covers a m (path (Suc n) x) \<longleftrightarrow> x AND m = a AND m"
  using assms
proof (induction n arbitrary: m a x)
  case 0
  then show ?case using covers_last [of m a 0 x] by simp
next
  case (Suc n)
  show ?case
  proof (cases "push_bit 8 m = 0")
    case True
    then show ?thesis using covers_last [OF Suc.prems(1,2) True] by blast
  next
    case False
    have full: "step_mask m = - 1" by (rule step_mask_full [OF Suc.prems(1) False Suc.prems(2)])
    have sh: "bit (push_bit 8 y) (i + 8) = bit y i" if "i < LENGTH('a) - 8" for i and y :: "'a word"
      using that by (simp add: bit_push_bit_iff less_diff_conv)
    have rest: "push_bit 8 x AND push_bit 8 m = push_bit 8 a AND push_bit 8 m \<longleftrightarrow>
        (\<forall>i. i < LENGTH('a) - 8 \<and> bit m i \<longrightarrow> bit x i = bit a i)" (is "?l \<longleftrightarrow> ?r")
    proof
      assume l: ?l
      show ?r
      proof (intro allI impI)
        fix i assume i: "i < LENGTH('a) - 8 \<and> bit m i"
        then have "bit (push_bit 8 x) (i + 8) = bit (push_bit 8 a) (i + 8)"
          using l [unfolded and_eq_iff, rule_format, of "i + 8"] sh by (simp add: less_diff_conv)
        then show "bit x i = bit a i" using i sh by simp
      qed
    qed (auto simp: and_eq_iff bit_push_bit_iff)
    have "push_bit (8 * Suc n) (push_bit 8 m) = 0" using Suc.prems(3) by (simp add: push_bit_push_bit add.commute)
    then have IH: "covers (push_bit 8 a) (push_bit 8 m) (path (Suc n) (push_bit 8 x)) \<longleftrightarrow> push_bit 8 x AND push_bit 8 m = push_bit 8 a AND push_bit 8 m"
      by (rule Suc.IH [OF no_gap_shift [OF Suc.prems(1)] Suc.prems(2)])
    have "covers a m (path (Suc (Suc n)) x) \<longleftrightarrow> top_byte x AND step_mask m = top_byte a AND step_mask m \<and>
        covers (push_bit 8 a) (push_bit 8 m) (path (Suc n) (push_bit 8 x))"
      using False by (simp add: covers.simps [of a m] step_address_def full)
    also have "\<dots> \<longleftrightarrow> x AND m = a AND m"
      unfolding IH rest unfolding step_mask_def top_byte_eq_iff [OF Suc.prems(2)] and_eq_iff [of x m a]
        unfolding all_conj_distrib [symmetric] by (intro iff_allI) auto
    finally show ?thesis .
  qed
qed

lemma covers_some: "\<exists>p. covers a m p"
proof (induction "mask_steps m" arbitrary: a m rule: less_induct)
  case less
  show ?case
  proof (cases "push_bit 8 m = 0")
    case True
    have "step_address a m + of_nat 0 \<in> set (step_range a m)" unfolding step_range_def set_map by (rule imageI) (simp only: set_upt atLeastLessThan_iff zero_less_Suc le0 simp_thms)
    then show ?thesis using True by (intro exI [of _ "[step_address a m]"]) (simp add: covers.simps [of a m])
  next
    case False
    then obtain p where "covers (push_bit 8 a) (push_bit 8 m) p" using less shifted_steps by blast
    then show ?thesis using False by (intro exI [of _ "step_address a m # p"]) (simp add: covers.simps [of a m])
  qed
qed

section \<open>Lookup\<close>

lemma lookup_step_walk:
  "orderly n (chunk_at t) c \<Longrightarrow> n < k \<Longrightarrow> lookup_step k address c t = Some (chunk_walk n (chunk_at t) (path k address) c)"
proof (induction n arbitrary: k address c)
  case 0
  then obtain k' where "k = Suc k'" using gr0_implies_Suc by blast
  then show ?case using orderlyD(1) [OF 0(1)] by (simp add: chunk_walk_def)
next
  case (Suc n)
  then obtain k' where k: "k = Suc k'" "n < k'" by (cases k) auto
  show ?case
  proof (cases "is_chunk_id (value_at t c (top_byte address))")
    case True
    then have "orderly n (chunk_at t) (get_chunk_id (value_at t c (top_byte address)))"
      using orderlyD(1) [OF Suc.prems(1)] by (simp add: sound_Suc)
    then show ?thesis using Suc.IH [OF _ k(2)] True by (simp add: k chunk_walk_def walk_Suc)
  qed (simp add: k chunk_walk_def leaf_value)
qed

section \<open>The groups of a prefix\<close>

definition bits :: "u8 list \<Rightarrow> nat set" where
  "bits b = {k. k < length b \<and> b ! k \<noteq> 0}"

lemma mark_group_effect:
  assumes "unat g < length b"
  shows "mark_group g b = Some (b[unat g := 1])" "bits (b[unat g := 1]) = insert (unat g) (bits b)"
  using assms by (auto simp: mark_group_def bits_def nth_list_update)

definition mark_spec :: "nat \<Rightarrow> nat \<Rightarrow> 's arena_scheme \<Rightarrow> bool" where
  "mark_spec n k t \<longleftrightarrow> (\<forall>v b prev. sound n (chunk_at t) v \<and> holds n (chunk_at t) v \<inter> set prev = {} \<and>
     (\<forall>p. unat (walk n (chunk_at t) p v) < length b) \<longrightarrow>
     (\<exists>b' prev'. get_group_id_next k t v (b, prev) = Some (b', prev') \<and> length b' = length b \<and>
        bits b' = bits b \<union> range (\<lambda>p. unat (walk n (chunk_at t) p v)) \<and> set prev' = set prev \<union> holds n (chunk_at t) v))"

lemma mark_values:
  assumes spec: "mark_spec n k t" and ord: "orderly n (chunk_at t) c" and xs: "distinct xs"
    and prev: "\<And>i. i \<in> set xs \<Longrightarrow> holds n (chunk_at t) (value_at t c i) \<inter> set prev = {}"
    and fit: "\<And>i p. i \<in> set xs \<Longrightarrow> unat (walk n (chunk_at t) p (value_at t c i)) < length b"
  shows "\<exists>b' prev'. fold (\<lambda>j os. Option.bind os (get_group_id_next k t (value_at t c j))) xs (Some (b, prev)) = Some (b', prev') \<and>
     length b' = length b \<and> bits b' = bits b \<union> (\<Union>i \<in> set xs. range (\<lambda>p. unat (walk n (chunk_at t) p (value_at t c i)))) \<and>
     set prev' = set prev \<union> (\<Union>i \<in> set xs. holds n (chunk_at t) (value_at t c i))"
  using xs prev fit
proof (induction xs arbitrary: b prev)
  case (Cons i xs)
  have "sound n (chunk_at t) (value_at t c i) \<and> holds n (chunk_at t) (value_at t c i) \<inter> set prev = {} \<and>
     (\<forall>p. unat (walk n (chunk_at t) p (value_at t c i)) < length b)" using orderlyD(1) [OF ord] Cons.prems by simp
  then obtain b1 prev1 where s: "get_group_id_next k t (value_at t c i) (b, prev) = Some (b1, prev1)" and l: "length b1 = length b"
    and b1: "bits b1 = bits b \<union> range (\<lambda>p. unat (walk n (chunk_at t) p (value_at t c i)))"
    and p1: "set prev1 = set prev \<union> holds n (chunk_at t) (value_at t c i)"
    using spec unfolding mark_spec_def by blast
  have d: "holds n (chunk_at t) (value_at t c j) \<inter> set prev1 = {}" if "j \<in> set xs" for j
  proof -
    have "j \<noteq> i" using Cons.prems(1) that by auto
    then show ?thesis using orderlyD(2) [OF ord, of j i] Cons.prems(2) [of j] that unfolding p1 by auto
  qed
  obtain b' prev' where "fold (\<lambda>j os. Option.bind os (get_group_id_next k t (value_at t c j))) xs (Some (b1, prev1)) = Some (b', prev')"
     "length b' = length b1" "bits b' = bits b1 \<union> (\<Union>i \<in> set xs. range (\<lambda>p. unat (walk n (chunk_at t) p (value_at t c i))))"
     "set prev' = set prev1 \<union> (\<Union>i \<in> set xs. holds n (chunk_at t) (value_at t c i))"
    using Cons.IH [of prev1 b1] Cons.prems(1,3) d l by auto
  then show ?case using s l b1 p1 by (auto simp: Un_assoc)
qed simp

lemma mark_spec_holds: "n < k \<Longrightarrow> mark_spec n k t"
proof (induction n arbitrary: k)
  case 0
  then obtain k' where k: "k = Suc k'" using gr0_implies_Suc by blast
  show ?case unfolding mark_spec_def k
    by (auto simp: mark_group_effect)
next
  case (Suc n)
  then obtain k' where k: "k = Suc k'" "n < k'" by (cases k) auto
  show ?case unfolding mark_spec_def
  proof (intro allI impI, elim conjE)
    fix v prev and b :: "u8 list"
    assume gd: "sound (Suc n) (chunk_at t) v" and dis: "holds (Suc n) (chunk_at t) v \<inter> set prev = {}"
      and fit: "\<forall>p. unat (walk (Suc n) (chunk_at t) p v) < length b"
    show "\<exists>b' prev'. get_group_id_next k t v (b, prev) = Some (b', prev') \<and> length b' = length b \<and>
        bits b' = bits b \<union> range (\<lambda>p. unat (walk (Suc n) (chunk_at t) p v)) \<and> set prev' = set prev \<union> holds (Suc n) (chunk_at t) v"
    proof (cases "is_chunk_id v")
      case False
      then show ?thesis using mark_group_effect [of v b] fit by (auto simp: k leaf_value)
    next
      case True
      let ?c = "get_chunk_id v"
      have o: "holds (Suc n) (chunk_at t) v = insert ?c (held n (chunk_at t) ?c)" using True by (simp add: holds_Suc)
      have ord: "orderly n (chunk_at t) ?c" using gd True by (simp add: sound_Suc)
      have f: "unat (walk n (chunk_at t) p (value_at t ?c i)) < length b" for p i
        using fit [rule_format, of "i # p"] True by (simp add: walk_Suc chunk_walk_def)
      have d: "holds n (chunk_at t) (value_at t ?c i) \<inter> set prev = {}" for i using orderlyD(5) [OF ord, of i] dis unfolding o by blast
      obtain b' prev' where "fold (\<lambda>j os. Option.bind os (get_group_id_next k' t (value_at t ?c j))) all_bytes (Some (b, prev)) = Some (b', prev')"
          "length b' = length b" "bits b' = bits b \<union> (\<Union>i. range (\<lambda>p. unat (walk n (chunk_at t) p (value_at t ?c i))))"
          "set prev' = set prev \<union> held n (chunk_at t) ?c"
        using mark_values [OF Suc.IH [OF k(2)] ord, of all_bytes prev b] d f by (auto simp: held_def)
      moreover have "?c \<notin> set prev" using dis unfolding o by blast
      ultimately show ?thesis using True unfolding o range_walk_Suc [OF True] by (simp add: k)
    qed
  qed
qed

lemma get_last_effect:
  assumes "orderly n (chunk_at t) c" and "n < k" and "push_bit 8 m = 0" and "\<And>p. unat (chunk_walk n (chunk_at t) p c) < length b"
  shows "\<exists>b'. map_option fst (fold (\<lambda>i os. Option.bind os (get_group_id_next k t (value_at t c i))) (step_range address m) (Some (b, []))) = Some b' \<and>
     length b' = length b \<and> bits b' = bits b \<union> {unat (chunk_walk n (chunk_at t) p c) | p. covers address m p}"
proof -
  let ?xs = "step_range address m"
  have f: "unat (walk n (chunk_at t) p (value_at t c i)) < length b" for i p using assms(4) [of "i # p"] by (simp add: chunk_walk_def)
  show ?thesis using mark_values [OF mark_spec_holds [OF assms(2)] assms(1) step_range_distinct [of address m], of "[]" b] f unfolding covered_values [OF assms(3)] by auto
qed

lemma get_step_effect:
  fixes address :: "'a::len word"
  assumes "\<not> is_mask_gapped m" and "orderly n (chunk_at t) c" and "n < LENGTH('a) div 8"
    and "\<And>p. unat (chunk_walk n (chunk_at t) p c) < length b"
  shows "\<exists>b'. get_step address m t c b = Some b' \<and> length b' = length b \<and>
     bits b' = bits b \<union> {unat (chunk_walk n (chunk_at t) p c) | p. covers address m p}"
  using assms
proof (induction "mask_steps m" arbitrary: address m c n rule: less_induct)
  case less
  show ?case
  proof (cases "push_bit 8 m = 0")
    case True
    then show ?thesis using get_last_effect [OF less.prems(2,3) True less.prems(4), of address] less.prems(1) by (simp add: get_step.simps [of address m])
  next
    case False
    let ?i = "step_address address m" let ?v = "value_at t c ?i"
    have rest: "{unat (chunk_walk n (chunk_at t) p c) | p. covers address m p} =
        {unat (walk n (chunk_at t) p ?v) | p. covers (push_bit 8 address) (push_bit 8 m) p}" (is "?l = ?r")
    proof (intro equalityI subsetI)
      fix g assume "g \<in> ?r"
      then obtain p where "g = unat (chunk_walk n (chunk_at t) (?i # p) c)" "covers address m (?i # p)"
        using False by (auto simp: chunk_walk_def covers.simps [of address m])
      then show "g \<in> ?l" by blast
    qed (use False in \<open>auto simp: chunk_walk_def covers.simps [of address m]\<close>)
    show ?thesis
    proof (cases "is_chunk_id ?v")
      case True
      have "sound n (chunk_at t) ?v" using orderlyD(1) [OF less.prems(2)] .
      then obtain n' where n: "n = Suc n'" and ord: "orderly n' (chunk_at t) (get_chunk_id ?v)" using True by (cases n) (auto simp: sound_Suc)
      have w: "walk n (chunk_at t) p ?v = chunk_walk n' (chunk_at t) p (get_chunk_id ?v)" for p using True by (simp add: n walk_Suc)
      have f: "unat (chunk_walk n' (chunk_at t) p (get_chunk_id ?v)) < length b" for p
        using less.prems(4) [of "?i # p"] by (simp add: chunk_walk_def [of n] w)
      have "n' < LENGTH('a) div 8" using less.prems(3) n by simp
      then have "\<exists>b'. get_step (push_bit 8 address) (push_bit 8 m) t (get_chunk_id ?v) b = Some b' \<and> length b' = length b \<and>
          bits b' = bits b \<union> {unat (chunk_walk n' (chunk_at t) p (get_chunk_id ?v)) | p. covers (push_bit 8 address) (push_bit 8 m) p}"
        using less.hyps [OF shifted_steps [OF False] no_gap_shift [OF less.prems(1)] ord _ f] by blast
      then show ?thesis using True False less.prems(1) unfolding rest w by (simp add: get_step.simps [of address m])
    next
      case leaf: False
      have "{unat (walk n (chunk_at t) p ?v) | p. covers (push_bit 8 address) (push_bit 8 m) p} = {unat ?v}"
        using covers_some [of "push_bit 8 address" "push_bit 8 m"] leaf_value [OF leaf] by auto
      moreover have "unat ?v < length b" using less.prems(4) [of "[?i]"] leaf_value [OF leaf] by (simp add: chunk_walk_def)
      ultimately show ?thesis using False leaf less.prems(1) mark_group_effect [of ?v b] unfolding rest by (simp add: get_step.simps [of address m])
    qed
  qed
qed

section \<open>Renaming the groups of the tree\<close>

definition same_fields :: "'s arena_scheme \<Rightarrow> 's arena_scheme \<Rightarrow> bool" where
  "same_fields t t' \<longleftrightarrow> tr_capacity t' = tr_capacity t \<and> arena.more t' = arena.more t \<and> length (tr_chunks t') = length (tr_chunks t)"

lemma same_fields_simps [simp]:
  "same_fields t t" "same_fields t (put_value c i v t') = same_fields t t'"
  by (simp_all add: same_fields_def put_value_def put_tree_chunk_def)

lemma same_fields_trans: "same_fields t t1 \<Longrightarrow> same_fields t1 t2 \<Longrightarrow> same_fields t t2"
  by (simp add: same_fields_def)

lemma same_fields_length: "same_fields t t' \<Longrightarrow> length (tr_chunks t') = length (tr_chunks t)"
  by (simp add: same_fields_def)

definition renumber :: "u32 list \<Rightarrow> u32 \<Rightarrow> u32" where
  "renumber R v = (if is_chunk_id v then v else R ! unat v)"

definition chunk_ids :: "'s arena_scheme \<Rightarrow> u32 \<Rightarrow> u8 set \<Rightarrow> u32 set" where
  "chunk_ids t c A = {get_chunk_id (value_at t c i) | i. i \<in> A \<and> is_chunk_id (value_at t c i)}"

lemma chunk_ids_distinct:
  assumes "orderly n (chunk_at t) c" and "is_chunk_id (value_at t c i)" and "is_chunk_id (value_at t c j)" and "i \<noteq> j"
  shows "get_chunk_id (value_at t c i) \<noteq> get_chunk_id (value_at t c j)"
proof (cases n)
  case 0
  then show ?thesis using orderlyD(1) [OF assms(1), of i] assms(2) by simp
next
  case (Suc n')
  then show ?thesis using orderlyD(2) [OF assms(1) assms(4)] assms(2,3) by (auto simp: holds_Suc)
qed

definition remap_loop :: "u32 list \<Rightarrow> u32 \<Rightarrow> u32 list \<Rightarrow> u8 set \<Rightarrow> 's arena_scheme \<Rightarrow> 's arena_scheme \<times> u32 list \<times> u32 list \<Rightarrow> bool" where
  "remap_loop R c prev A t s \<longleftrightarrow> (case s of (t', prev', next_ids) \<Rightarrow> same_fields t t' \<and>
     chunk_at t' = (chunk_at t)(c := (chunk_at t c)\<lparr>chunk_values := (\<lambda>i. if i \<in> A then renumber R (value_at t c i) else value_at t c i)\<rparr>) \<and>
     set prev' = set prev \<union> chunk_ids t c A \<and> set next_ids = chunk_ids t c A \<and> distinct next_ids)"

lemma remap_value_step:
  assumes ord: "orderly n (chunk_at t) c" and c: "unat c < length (tr_chunks t)"
    and fit: "\<not> is_chunk_id (value_at t c i) \<Longrightarrow> unat (value_at t c i) < length R" and disj: "chunk_ids t c UNIV \<inter> set prev = {}"
    and s: "remap_loop R c prev A t s" and i: "i \<notin> A"
  shows "\<exists>s'. remap_value c R i s = Some s' \<and> remap_loop R c prev (insert i A) t s'"
proof -
  obtain t' prev' nx where s': "s = (t', prev', nx)" by (cases s)
  note L = s [unfolded remap_loop_def s' prod.case]
  let ?v = "value_at t c i"
  have v: "value_at t' c i = ?v" using L i by simp
  show ?thesis
  proof (cases "is_chunk_id ?v")
    case True
    have ids: "chunk_ids t c (insert i A) = insert (get_chunk_id ?v) (chunk_ids t c A)" using True by (auto simp: chunk_ids_def)
    have "get_chunk_id ?v \<notin> chunk_ids t c A" using chunk_ids_distinct [OF ord True] i by (auto simp: chunk_ids_def)
    moreover have "get_chunk_id ?v \<notin> set prev" using disj True by (auto simp: chunk_ids_def)
    ultimately have "remap_value c R i s = Some (t', get_chunk_id ?v # prev', insort_insert (get_chunk_id ?v) nx)"
      using L True v by (auto simp: remap_value_def s' Let_def)
    moreover have "(\<lambda>j. if j \<in> insert i A then renumber R (value_at t c j) else value_at t c j) = (\<lambda>j. if j \<in> A then renumber R (value_at t c j) else value_at t c j)"
      using True by (auto simp: renumber_def)
    ultimately show ?thesis using L unfolding remap_loop_def prod.case ids by (auto simp: set_insort_insert distinct_insort_insert)
  next
    case False
    have ids: "chunk_ids t c (insert i A) = chunk_ids t c A" using False by (auto simp: chunk_ids_def)
    let ?t = "put_value c i (R ! unat ?v) t'"
    have step: "remap_value c R i s = Some (?t, prev', nx)" using False fit v by (simp add: remap_value_def s' Let_def)
    have C: "chunk_at ?t = (chunk_at t')(c := (chunk_at t' c)\<lparr>chunk_values := (chunk_values (chunk_at t' c))(i := R ! unat ?v)\<rparr>)"
      using c L same_fields_length [of t t'] by (intro chunk_at_put(2)) simp
    have "chunk_at ?t = (chunk_at t)(c := (chunk_at t c)\<lparr>chunk_values := (\<lambda>j. if j \<in> insert i A then renumber R (value_at t c j) else value_at t c j)\<rparr>)"
      unfolding C using L False by (auto simp: fun_eq_iff renumber_def intro!: tree_chunk.equality)
    moreover have "same_fields t ?t" using L by simp
    ultimately show ?thesis using step L unfolding remap_loop_def prod.case ids by blast
  qed
qed

lemma remap_values:
  assumes "orderly n (chunk_at t) c" and "unat c < length (tr_chunks t)"
    and "\<And>i. \<not> is_chunk_id (value_at t c i) \<Longrightarrow> unat (value_at t c i) < length R" and "chunk_ids t c UNIV \<inter> set prev = {}"
    and "remap_loop R c prev A t s" and "distinct xs" and "A \<inter> set xs = {}"
  shows "\<exists>s'. fold (\<lambda>i os. Option.bind os (remap_value c R i)) xs (Some s) = Some s' \<and> remap_loop R c prev (A \<union> set xs) t s'"
  using assms(5-)
proof (induction xs arbitrary: A s)
  case (Cons i xs)
  have "i \<notin> A" using Cons.prems(3) by simp
  then obtain s1 where "remap_value c R i s = Some s1" "remap_loop R c prev (insert i A) t s1"
    using remap_value_step [OF assms(1-3) assms(4) Cons.prems(1), of i] by blast
  then show ?case using Cons.IH [of "insert i A" s1] Cons.prems(2,3) by auto
qed auto

definition remapped :: "nat \<Rightarrow> u32 list \<Rightarrow> 's arena_scheme \<Rightarrow> 's arena_scheme \<Rightarrow> u32 \<Rightarrow> bool" where
  "remapped n R t t' c \<longleftrightarrow> orderly n (chunk_at t') c \<and> held n (chunk_at t') c = held n (chunk_at t) c \<and>
     (\<forall>p. chunk_walk n (chunk_at t') p c = R ! unat (chunk_walk n (chunk_at t) p c))"

definition remappable :: "nat \<Rightarrow> u32 list \<Rightarrow> 's arena_scheme \<Rightarrow> u32 list \<Rightarrow> u32 \<Rightarrow> bool" where
  "remappable n R t prev c \<longleftrightarrow> orderly n (chunk_at t) c \<and> unat c < length (tr_chunks t) \<and> (\<forall>x \<in> held n (chunk_at t) c. unat x < length (tr_chunks t)) \<and>
     (\<forall>p. unat (chunk_walk n (chunk_at t) p c) < length R) \<and> held n (chunk_at t) c \<inter> set prev = {}"

definition remap_spec :: "nat \<Rightarrow> nat \<Rightarrow> u32 list \<Rightarrow> 's itself \<Rightarrow> bool" where
  "remap_spec n k R T \<longleftrightarrow> (\<forall>(t :: 's arena_scheme) prev c. remappable n R t prev c \<longrightarrow>
     (\<exists>t' prev'. remap_chunk k R c (t, prev) = Some (t', prev') \<and> same_fields t t' \<and> set prev' = set prev \<union> held n (chunk_at t) c \<and>
        (\<forall>x. x \<noteq> c \<and> x \<notin> held n (chunk_at t) c \<longrightarrow> chunk_at t' x = chunk_at t x) \<and> remapped n R t t' c))"

lemma remap_list:
  fixes t :: "'s arena_scheme"
  assumes spec: "remap_spec n k R TYPE('s)" and pre: "\<And>d. d \<in> set ds \<Longrightarrow> remappable n R t prev d" and ds: "distinct ds"
    and dis: "\<And>d e. d \<in> set ds \<Longrightarrow> e \<in> set ds \<Longrightarrow> d \<noteq> e \<Longrightarrow> insert d (held n (chunk_at t) d) \<inter> insert e (held n (chunk_at t) e) = {}"
  shows "\<exists>t' prev'. fold (\<lambda>d os. Option.bind os (remap_chunk k R d)) ds (Some (t, prev)) = Some (t', prev') \<and> same_fields t t' \<and>
     set prev' = set prev \<union> (\<Union>d \<in> set ds. held n (chunk_at t) d) \<and>
     (\<forall>x. (\<forall>d \<in> set ds. x \<noteq> d \<and> x \<notin> held n (chunk_at t) d) \<longrightarrow> chunk_at t' x = chunk_at t x) \<and> (\<forall>d \<in> set ds. remapped n R t t' d)"
  using pre ds dis
proof (induction ds arbitrary: t prev)
  case (Cons d ds)
  let ?h = "\<lambda>e. held n (chunk_at t) e"
  obtain t1 prev1 where step: "remap_chunk k R d (t, prev) = Some (t1, prev1)" and f1: "same_fields t t1" and p1: "set prev1 = set prev \<union> ?h d"
    and o1: "\<And>x. x \<noteq> d \<Longrightarrow> x \<notin> ?h d \<Longrightarrow> chunk_at t1 x = chunk_at t x" and r1: "remapped n R t t1 d"
    using spec [unfolded remap_spec_def, rule_format, OF Cons.prems(1) [of d]] by (auto simp del: same_fields_simps)
  have dj: "insert d (?h d) \<inter> insert e (?h e) = {}" if "e \<in> set ds" for e
    using Cons.prems(2) that by (intro Cons.prems(3)) auto
  have e: "held n (chunk_at t1) e = ?h e" "orderly n (chunk_at t1) e = orderly n (chunk_at t) e"
      "chunk_walk n (chunk_at t1) p e = chunk_walk n (chunk_at t) p e" if "e \<in> set ds" for e p
  proof -
    have "chunk_at t1 x = chunk_at t x" if "x \<in> insert e (?h e)" for x using dj [OF \<open>e \<in> set ds\<close>] that by (intro o1) auto
    then show "held n (chunk_at t1) e = ?h e" "orderly n (chunk_at t1) e = orderly n (chunk_at t) e"
      "chunk_walk n (chunk_at t1) p e = chunk_walk n (chunk_at t) p e" using chunk_unchanged [of n "chunk_at t" e "chunk_at t1"] by auto
  qed
  have "remappable n R t1 prev1 e" if "e \<in> set ds" for e
    using Cons.prems(1) [of e] that dj [OF that] same_fields_length [OF f1] e [OF that] unfolding remappable_def p1 by auto
  moreover have "insert a (held n (chunk_at t1) a) \<inter> insert b (held n (chunk_at t1) b) = {}" if "a \<in> set ds" "b \<in> set ds" "a \<noteq> b" for a b
    unfolding e(1) [OF that(1)] e(1) [OF that(2)] using that by (intro Cons.prems(3)) auto
  ultimately obtain t' prev' where fold: "fold (\<lambda>d os. Option.bind os (remap_chunk k R d)) ds (Some (t1, prev1)) = Some (t', prev')"
    and f': "same_fields t1 t'" and p': "set prev' = set prev1 \<union> (\<Union>d \<in> set ds. held n (chunk_at t1) d)"
    and o': "\<And>x. (\<forall>d \<in> set ds. x \<noteq> d \<and> x \<notin> held n (chunk_at t1) d) \<Longrightarrow> chunk_at t' x = chunk_at t1 x"
    and r': "\<And>d. d \<in> set ds \<Longrightarrow> remapped n R t1 t' d"
    using Cons.IH [of t1 prev1] Cons.prems(2) by auto
  have U: "(\<Union>d \<in> set ds. held n (chunk_at t1) d) = (\<Union>d \<in> set ds. ?h d)" using e by simp
  have o'': "chunk_at t' x = chunk_at t1 x" if "\<forall>d \<in> set ds. x \<noteq> d \<and> x \<notin> ?h d" for x using that e by (intro o') auto
  have same: "chunk_at t' x = chunk_at t1 x" if "x \<in> insert d (?h d)" for x using dj that by (intro o'') auto
  have "remapped n R t t' d"
  proof -
    have "held n (chunk_at t1) d = ?h d" using r1 by (simp add: remapped_def)
    then have "chunk_at t' x = chunk_at t1 x" if "x \<in> insert d (held n (chunk_at t1) d)" for x using that same by simp
    then show ?thesis using r1 chunk_unchanged [of n "chunk_at t1" d "chunk_at t'"] by (auto simp: remapped_def)
  qed
  moreover have "remapped n R t t' a" if "a \<in> set ds" for a using r' [OF that] e [OF that] by (simp add: remapped_def)
  ultimately have "\<forall>a \<in> set (d # ds). remapped n R t t' a" by simp
  moreover have "\<forall>x. (\<forall>a \<in> set (d # ds). x \<noteq> a \<and> x \<notin> ?h a) \<longrightarrow> chunk_at t' x = chunk_at t x" using o1 o'' by simp
  moreover have "same_fields t t'" using same_fields_trans [OF f1 f'] .
  ultimately show ?case using step fold p1 p' unfolding U by (auto simp: Un_assoc)
qed simp

lemma remap_first:
  fixes t :: "'s arena_scheme"
  assumes "remappable n R t prev c" and "chunk_ids t c UNIV \<inter> set prev = {}"
  shows "\<exists>t1 prev1 nx. fold (\<lambda>i os. Option.bind os (remap_value c R i)) all_bytes (Some (t, prev, [])) = Some (t1, prev1, nx) \<and>
     remap_loop R c prev UNIV t (t1, prev1, nx)"
proof -
  have f: "unat (value_at t c i) < length R" if "\<not> is_chunk_id (value_at t c i)" for i
  proof -
    have "unat (chunk_walk n (chunk_at t) [i] c) < length R" using assms(1) by (simp add: remappable_def)
    then show ?thesis using leaf_value [OF that, of n "chunk_at t"] by (simp add: chunk_walk_def)
  qed
  have "remap_loop R c prev {} t (t, prev, [])" by (simp add: remap_loop_def chunk_ids_def)
  moreover have "orderly n (chunk_at t) c" "unat c < length (tr_chunks t)" using assms(1) by (simp_all add: remappable_def)
  ultimately obtain s' where "fold (\<lambda>i os. Option.bind os (remap_value c R i)) all_bytes (Some (t, prev, [])) = Some s'" "remap_loop R c prev UNIV t s'"
    using remap_values [of n t c R prev "{}" "(t, prev, [])" all_bytes] f assms(2) by auto
  then show ?thesis by (cases s') auto
qed

lemma remap_leaves:
  fixes t :: "'s arena_scheme"
  assumes pre: "remappable 0 R t prev c" and R: "\<forall>g \<in> set R. \<not> is_chunk_id g"
  shows "\<exists>t' prev'. remap_chunk (Suc k) R c (t, prev) = Some (t', prev') \<and> same_fields t t' \<and> set prev' = set prev \<union> held 0 (chunk_at t) c \<and>
        (\<forall>x. x \<noteq> c \<and> x \<notin> held 0 (chunk_at t) c \<longrightarrow> chunk_at t' x = chunk_at t x) \<and> remapped 0 R t t' c"
proof -
  have v: "\<not> is_chunk_id (value_at t c i)" for i using pre orderlyD(1) [of 0 "chunk_at t" c i] by (simp add: remappable_def)
  then have D: "chunk_ids t c A = {}" for A by (simp add: chunk_ids_def)
  obtain t1 prev1 nx where f: "fold (\<lambda>i os. Option.bind os (remap_value c R i)) all_bytes (Some (t, prev, [])) = Some (t1, prev1, nx)"
    and L: "remap_loop R c prev UNIV t (t1, prev1, nx)" using remap_first [OF pre] D by auto
  have nx: "nx = []" "same_fields t t1" "set prev1 = set prev"
    and C: "chunk_at t1 = (chunk_at t)(c := (chunk_at t c)\<lparr>chunk_values := (\<lambda>i. R ! unat (value_at t c i))\<rparr>)"
    using L v D by (auto simp: remap_loop_def renumber_def)
  have fit: "unat (value_at t c i) < length R" for i using pre by (auto simp: remappable_def chunk_walk_def dest: spec [of _ "[i]"])
  have "remapped 0 R t t1 c" using pre R fit v by (simp add: remapped_def C orderly_def held_def chunk_walk_def remappable_def)
  then show ?thesis using f nx by (auto simp: C held_def)
qed

lemma remap_spec_holds:
  assumes R: "\<forall>g \<in> set R. \<not> is_chunk_id g"
  shows "n < k \<Longrightarrow> remap_spec n k R TYPE('s)"
proof (induction n arbitrary: k)
  case 0
  then obtain k' where "k = Suc k'" using gr0_implies_Suc by blast
  then show ?case unfolding remap_spec_def using remap_leaves [OF _ R] by blast
next
  case (Suc n)
  then obtain k' where k: "k = Suc k'" "n < k'" by (cases k) auto
  show ?case unfolding remap_spec_def
  proof (intro allI impI)
    fix t :: "'s arena_scheme" and prev c
    let ?C = "chunk_at t" let ?D = "chunk_ids t c UNIV" let ?v = "\<lambda>i. value_at t c i"
    assume pre: "remappable (Suc n) R t prev c"
    have ord: "orderly (Suc n) ?C c" and c: "unat c < length (tr_chunks t)" and fit: "\<And>p. unat (chunk_walk (Suc n) ?C p c) < length R"
      and below: "\<And>x. x \<in> held (Suc n) ?C c \<Longrightarrow> unat x < length (tr_chunks t)" and dp: "held (Suc n) ?C c \<inter> set prev = {}"
      using pre by (auto simp: remappable_def)
    have h: "held (Suc n) ?C c = (\<Union>d \<in> ?D. insert d (held n ?C d))" by (auto simp: held_def [of "Suc n"] holds_Suc chunk_ids_def split: if_splits)
    have D: "\<exists>i. is_chunk_id (?v i) \<and> d = get_chunk_id (?v i) \<and> orderly n ?C d" if "d \<in> ?D" for d
      using that orderlyD(1) [OF ord] by (auto simp: chunk_ids_def sound_Suc)
    have dj: "insert d (held n ?C d) \<inter> insert e (held n ?C e) = {}" if "d \<in> ?D" "e \<in> ?D" "d \<noteq> e" for d e
    proof -
      from D [OF that(1)] D [OF that(2)]
      obtain i j where i: "is_chunk_id (?v i)" "d = get_chunk_id (?v i)" and j: "is_chunk_id (?v j)" "e = get_chunk_id (?v j)" by blast
      then have "i \<noteq> j" using that(3) by auto
      then show ?thesis using orderlyD(2) [OF ord, of i j] i j by (simp add: holds_Suc)
    qed
    have "?D \<inter> set prev = {}" using dp unfolding h by blast
    then obtain t1 prev1 nx where f: "fold (\<lambda>i os. Option.bind os (remap_value c R i)) all_bytes (Some (t, prev, [])) = Some (t1, prev1, nx)"
      and L: "remap_loop R c prev UNIV t (t1, prev1, nx)" using remap_first [OF pre] by blast
    have nx: "set nx = ?D" "distinct nx" and s1: "same_fields t t1" and p1: "set prev1 = set prev \<union> ?D"
      and C1: "chunk_at t1 = ?C(c := (?C c)\<lparr>chunk_values := (\<lambda>i. renumber R (?v i))\<rparr>)" using L by (auto simp: remap_loop_def)
    have cn: "c \<notin> insert d (held n ?C d)" if "d \<in> ?D" for d using orderlyD(3) [OF ord] that unfolding h by blast
    have e1: "held n (chunk_at t1) d = held n ?C d" "orderly n (chunk_at t1) d = orderly n ?C d"
        "chunk_walk n (chunk_at t1) p d = chunk_walk n ?C p d" if "d \<in> ?D" for d p
    proof -
      have "chunk_at t1 x = ?C x" if "x \<in> insert d (held n ?C d)" for x using cn [OF \<open>d \<in> ?D\<close>] that by (auto simp: C1)
      then show "held n (chunk_at t1) d = held n ?C d" "orderly n (chunk_at t1) d = orderly n ?C d"
        "chunk_walk n (chunk_at t1) p d = chunk_walk n ?C p d" using chunk_unchanged [of n ?C d "chunk_at t1"] by auto
    qed
    have pre1: "remappable n R t1 prev1 d" if "d \<in> set nx" for d
    proof -
      have d: "d \<in> ?D" using that nx by simp
      obtain i where i: "is_chunk_id (?v i)" "d = get_chunk_id (?v i)" "orderly n ?C d" using D [OF d] by blast
      have "e \<notin> held n ?C d" if "e \<in> ?D" for e using dj [OF d that] orderlyD(3) [OF i(3)] by (cases "e = d") auto
      then have "held n ?C d \<inter> set prev1 = {}" using dp d unfolding p1 h by blast
      moreover have "unat (chunk_walk n ?C p d) < length R" for p using fit [of "i # p"] i by (simp add: chunk_walk_def [of "Suc n"] walk_Suc)
      moreover have "unat d < length (tr_chunks t)" "\<forall>x \<in> held n ?C d. unat x < length (tr_chunks t)" using below d unfolding h by blast+
      ultimately show ?thesis using i(3) unfolding remappable_def e1 [OF d] same_fields_length [OF s1] by blast
    qed
    have dj1: "insert d (held n (chunk_at t1) d) \<inter> insert e (held n (chunk_at t1) e) = {}" if "d \<in> set nx" "e \<in> set nx" "d \<noteq> e" for d e
      using dj that e1(1) unfolding nx by simp
    from remap_list [OF Suc.IH [OF k(2)] pre1 nx(2) dj1]
    obtain t' prev' where f': "fold (\<lambda>d os. Option.bind os (remap_chunk k' R d)) nx (Some (t1, prev1)) = Some (t', prev')" and s': "same_fields t1 t'"
      and p': "set prev' = set prev1 \<union> (\<Union>d \<in> set nx. held n (chunk_at t1) d)"
      and o': "\<And>x. (\<forall>d \<in> set nx. x \<noteq> d \<and> x \<notin> held n (chunk_at t1) d) \<Longrightarrow> chunk_at t' x = chunk_at t1 x"
      and r': "\<And>d. d \<in> set nx \<Longrightarrow> remapped n R t1 t' d"
      by (auto simp del: same_fields_simps)
    have U: "(\<Union>d \<in> set nx. held n (chunk_at t1) d) = (\<Union>d \<in> ?D. held n ?C d)" using e1(1) unfolding nx by simp
    have o: "chunk_at t' x = chunk_at t1 x" if "x \<notin> held (Suc n) ?C c" for x using that e1(1) unfolding h nx(1) [symmetric] by (intro o') (auto simp: nx)
    have ren: "remapped n R t t' d" if "d \<in> ?D" for d using r' [of d] that e1 [OF that] unfolding nx by (simp add: remapped_def)
    have v': "value_at t' c i = renumber R (?v i)" for i using o [OF orderlyD(3) [OF ord]] by (simp add: C1)
    have leaf: "\<not> is_chunk_id (R ! unat (?v i))" if "\<not> is_chunk_id (?v i)" for i
    proof -
      have "unat (?v i) < length R" using fit [of "[i]"] leaf_value [OF that, of "Suc n" ?C "[]"] by (simp add: chunk_walk_def)
      then show ?thesis using R by simp
    qed
    have hv: "holds (Suc n) (chunk_at t') (value_at t' c i) = holds (Suc n) ?C (?v i) \<and> sound (Suc n) (chunk_at t') (value_at t' c i) \<and>
        walk (Suc n) (chunk_at t') p (value_at t' c i) = R ! unat (walk (Suc n) ?C p (?v i))" for i p
    proof (cases "is_chunk_id (?v i)")
      case True
      then have "get_chunk_id (?v i) \<in> ?D" by (auto simp: chunk_ids_def)
      then show ?thesis using ren [of "get_chunk_id (?v i)"] True by (simp add: v' renumber_def holds_Suc sound_Suc walk_Suc remapped_def)
    qed (use leaf in \<open>simp add: v' renumber_def leaf_value\<close>)
    have h': "held (Suc n) (chunk_at t') c = held (Suc n) ?C c" unfolding held_def using hv by simp
    have m': "is_multirefs (chunk_at t' c) = 0" using o [OF orderlyD(3) [OF ord]] orderlyD(4) [OF ord] by (simp add: C1)
    have "orderly (Suc n) (chunk_at t') c" unfolding orderly_def h' using hv orderlyD(2,3) [OF ord] m' by simp
    then have "remapped (Suc n) R t t' c" unfolding remapped_def h' using hv by (simp add: chunk_walk_def)
    moreover have "set prev' = set prev \<union> held (Suc n) ?C c" unfolding p' U p1 h by blast
    moreover have "remap_chunk k R c (t, prev) = Some (t', prev')" using f f' by (simp add: k)
    moreover have "\<forall>x. x \<noteq> c \<and> x \<notin> held (Suc n) ?C c \<longrightarrow> chunk_at t' x = ?C x" using o by (simp add: C1)
    ultimately show "\<exists>t' prev'. remap_chunk k R c (t, prev) = Some (t', prev') \<and> same_fields t t' \<and> set prev' = set prev \<union> held (Suc n) ?C c \<and>
        (\<forall>x. x \<noteq> c \<and> x \<notin> held (Suc n) ?C c \<longrightarrow> chunk_at t' x = ?C x) \<and> remapped (Suc n) R t t' c"
      using same_fields_trans [OF s1 s'] by blast
  qed
qed

end
