(* ===== verification/AclBitset.thy ===== *)
theory AclBitset
  imports Prelude
begin

text \<open>
  The bit set of the ACL compiler, \<^verbatim>\<open>bitset_t\<close> of \<^verbatim>\<open>src/controlplane/acl/bitset.h\<close>: words of 64 bits with
  the index of the first word that is not zero, which lets the loops skip the words before it.  An access
  outside the vector of words is \<open>None\<close>.  The set that a bit set stands for is \<open>members\<close>.
\<close>

section \<open>Definitions\<close>

record bitset =
  bs_size :: nat
  first_one :: nat
  bs_vals :: "u64 list"

definition bitset_new :: "nat \<Rightarrow> bitset" where
  "bitset_new count = (let size = (count + 63) div 64 in \<lparr>bs_size = size, first_one = size, bs_vals = replicate size 0\<rparr>)"

definition bitset_insert :: "nat \<Rightarrow> bitset \<Rightarrow> bitset option" where
  "bitset_insert i b =
     (if i div 64 < length (bs_vals b)
      then Some (b\<lparr>bs_vals := (bs_vals b)[i div 64 := bs_vals b ! (i div 64) OR push_bit (i mod 64) 1],
                   first_one := min (first_one b) (i div 64)\<rparr>)
      else None)"

definition bitset_test :: "bitset \<Rightarrow> nat \<Rightarrow> bool option" where
  "bitset_test b i =
     (if i div 64 < length (bs_vals b) then Some (bs_vals b ! (i div 64) AND push_bit (i mod 64) 1 \<noteq> 0) else None)"

definition bitset_empty :: "bitset \<Rightarrow> bool" where
  "bitset_empty b = (first_one b = bs_size b)"

definition bitset_start :: "bitset \<Rightarrow> bitset \<Rightarrow> nat" where
  "bitset_start b p = min (first_one b) (first_one p)"

definition bitset_or :: "bitset \<Rightarrow> bitset \<Rightarrow> bitset" where
  "bitset_or b other =
     (if bitset_empty other then b
      else b\<lparr>first_one := bitset_start b other,
             bs_vals := fold (\<lambda>i vals. vals[i := vals ! i OR bs_vals other ! i]) [first_one other..<bs_size b] (bs_vals b)\<rparr>)"

definition bitset_and :: "bitset \<Rightarrow> bitset \<Rightarrow> bitset" where
  "bitset_and b other =
     (if bitset_empty b then b
      else let (vals, first) = fold (\<lambda>i (vals, first).
                 let v = vals ! i AND bs_vals other ! i
                 in (vals[i := v], if v \<noteq> 0 \<and> first = bs_size b then i else first))
               [first_one b..<bs_size b] (bs_vals b, bs_size b)
           in b\<lparr>bs_vals := vals, first_one := first\<rparr>)"

definition bitset_eq :: "bitset \<Rightarrow> bitset \<Rightarrow> bool" where
  "bitset_eq p1 p2 = list_all (\<lambda>i. bs_vals p1 ! i = bs_vals p2 ! i) [bitset_start p1 p2..<bs_size p1]"

definition ffsll :: "u64 \<Rightarrow> nat" where
  "ffsll v = (case List.find (bit v) [0..<64] of Some i \<Rightarrow> Suc i | None \<Rightarrow> 0)"

definition bitset_minAnd :: "bitset \<Rightarrow> bitset \<Rightarrow> nat \<times> bool" where
  "bitset_minAnd b p =
     (case List.find (\<lambda>i. bs_vals b ! i AND bs_vals p ! i \<noteq> 0) [max (first_one b) (first_one p)..<bs_size b] of
        Some i \<Rightarrow> (i * 64 + ffsll (bs_vals b ! i AND bs_vals p ! i) - 1, True)
      | None \<Rightarrow> (0, False))"

definition bitset_minAnd3 :: "bitset \<Rightarrow> bitset \<Rightarrow> bitset \<Rightarrow> nat \<times> bool" where
  "bitset_minAnd3 b p1 p2 =
     (case List.find (\<lambda>i. bs_vals b ! i AND bs_vals p1 ! i AND bs_vals p2 ! i \<noteq> 0)
             [max (max (first_one b) (first_one p1)) (first_one p2)..<bs_size b] of
        Some i \<Rightarrow> (i * 64 + ffsll (bs_vals b ! i AND bs_vals p1 ! i AND bs_vals p2 ! i) - 1, True)
      | None \<Rightarrow> (0, False))"

definition bitset_emptyAnd :: "bitset \<Rightarrow> bitset \<Rightarrow> bool" where
  "bitset_emptyAnd b p = list_all (\<lambda>i. bs_vals b ! i AND bs_vals p ! i = 0) [max (first_one b) (first_one p)..<bs_size b]"

section \<open>The set of a bit set\<close>

definition bitset_ok :: "bitset \<Rightarrow> bool" where
  "bitset_ok b \<longleftrightarrow> length (bs_vals b) = bs_size b \<and> first_one b \<le> bs_size b \<and> (\<forall>i < first_one b. bs_vals b ! i = 0) \<and>
     (first_one b < bs_size b \<longrightarrow> bs_vals b ! first_one b \<noteq> 0)"

definition members :: "bitset \<Rightarrow> nat set" where
  "members b = {i. i div 64 < bs_size b \<and> bit (bs_vals b ! (i div 64)) (i mod 64)}"

lemma word_members: "i < bs_size b \<Longrightarrow> k < 64 \<Longrightarrow> bit (bs_vals b ! i) k \<longleftrightarrow> i * 64 + k \<in> members b"
  by (simp add: members_def)

lemma members_below: "i \<in> members b \<Longrightarrow> i div 64 < bs_size b"
  by (simp add: members_def)

lemma vals_eq_iff:
  assumes "bs_size a = bs_size b"
  shows "(\<forall>i < bs_size a. bs_vals a ! i = bs_vals b ! i) \<longleftrightarrow> members a = members b" (is "?l \<longleftrightarrow> ?r")
proof
  assume ?r
  show ?l
  proof (intro allI impI bit_word_eqI)
    fix i k assume "i < bs_size a" "k < LENGTH(64)"
    then show "bit (bs_vals a ! i) k = bit (bs_vals b ! i) k" using word_members [of i a k] word_members [of i b k] \<open>?r\<close> assms by simp
  qed
qed (use assms in \<open>auto simp: members_def\<close>)

lemma bitset_new_ok [simp]: "bitset_ok (bitset_new n)" "members (bitset_new n) = {}" "bs_size (bitset_new n) = (n + 63) div 64"
  by (auto simp: bitset_ok_def bitset_new_def Let_def members_def)

lemma bit_single: "bit (2 ^ k :: u64) j \<longleftrightarrow> j = k \<and> k < 64"
  by (auto simp: bit_exp_iff)

lemma bitset_insert_effect:
  assumes "bitset_ok b" and "i div 64 < bs_size b"
  shows "\<exists>b'. bitset_insert i b = Some b' \<and> bitset_ok b' \<and> bs_size b' = bs_size b \<and> members b' = insert i (members b)"
proof -
  let ?v = "bs_vals b ! (i div 64) OR push_bit (i mod 64) 1"
  define b' where "b' = b\<lparr>bs_vals := (bs_vals b)[i div 64 := ?v], first_one := min (first_one b) (i div 64)\<rparr>"
  have len: "length (bs_vals b) = bs_size b" using assms(1) by (simp add: bitset_ok_def)
  have nz: "?v \<noteq> 0"
  proof
    assume "?v = 0"
    then have "\<not> bit ?v (i mod 64)" by simp
    then show False by (simp add: bit_or_iff bit_single)
  qed
  have "members b' = insert i (members b)"
  proof (intro set_eqI)
    fix j
    show "j \<in> members b' \<longleftrightarrow> j \<in> insert i (members b)"
    proof (cases "j div 64 = i div 64")
      case True
      then have "j mod 64 = i mod 64 \<longleftrightarrow> j = i" by (metis div_mult_mod_eq)
      moreover have "bs_vals b' ! (j div 64) = ?v" using assms(2) len True by (simp add: b'_def)
      ultimately show ?thesis using assms(2) True by (auto simp: members_def bit_or_iff bit_single b'_def)
    qed (auto simp: members_def b'_def)
  qed
  moreover have "bitset_ok b'" using assms len nz by (auto simp: bitset_ok_def b'_def nth_list_update min_def)
  moreover have "bitset_insert i b = Some b'" "bs_size b' = bs_size b" using assms(2) len by (simp_all add: bitset_insert_def b'_def)
  ultimately show ?thesis by blast
qed

lemma bitset_test_correct: "bitset_ok b \<Longrightarrow> i div 64 < bs_size b \<Longrightarrow> bitset_test b i = Some (i \<in> members b)"
  by (simp add: bitset_test_def bitset_ok_def members_def and_exp_eq_0_iff_not_bit push_bit_eq_mult)

lemma nonzero_bit: "v \<noteq> 0 \<longleftrightarrow> (\<exists>k < 64. bit v k)" for v :: u64
proof
  assume "v \<noteq> 0"
  then obtain k where "bit v k" by (metis bit_eq_iff bit_0_eq bot_fun_def bot_bool_def)
  then show "\<exists>k < 64. bit v k" using bit_imp_le_length [of v k] by auto
qed auto

lemma first_one_member:
  assumes "bitset_ok b" and "first_one b < bs_size b"
  shows "members b \<noteq> {}"
proof -
  have "bs_vals b ! first_one b \<noteq> 0" using assms by (simp add: bitset_ok_def)
  then obtain k where "k < 64" "bit (bs_vals b ! first_one b) k" unfolding nonzero_bit by blast
  then show ?thesis using word_members [OF assms(2)] by blast
qed

lemma bitset_empty_correct:
  assumes "bitset_ok b"
  shows "bitset_empty b \<longleftrightarrow> members b = {}"
proof
  assume "members b = {}"
  then have "\<not> first_one b < bs_size b" using first_one_member [OF assms] by blast
  then show "bitset_empty b" using assms by (simp add: bitset_empty_def bitset_ok_def)
qed (use assms in \<open>auto simp: bitset_empty_def bitset_ok_def members_def\<close>)

lemma bitset_eq_correct:
  assumes "bitset_ok a" and "bitset_ok b" and "bs_size a = bs_size b"
  shows "bitset_eq a b \<longleftrightarrow> members a = members b"
proof -
  have "bitset_eq a b \<longleftrightarrow> (\<forall>i < bs_size a. bs_vals a ! i = bs_vals b ! i)"
    using assms unfolding bitset_eq_def list_all_iff bitset_start_def bitset_ok_def by (auto simp: min_def)
  then show ?thesis using vals_eq_iff [OF assms(3)] by simp
qed

section \<open>Union and intersection\<close>

lemma fold_update_range:
  assumes "lo \<le> n" and "n \<le> length vals"
  shows "length (fold (\<lambda>i vals. vals[i := f i (vals ! i)]) [lo..<n] vals) = length vals"
    "j < length vals \<Longrightarrow> fold (\<lambda>i vals. vals[i := f i (vals ! i)]) [lo..<n] vals ! j = (if lo \<le> j \<and> j < n then f j (vals ! j) else vals ! j)"
  using assms by (induction n rule: dec_induct) (auto simp: nth_list_update less_Suc_eq)

lemma bitset_or_correct:
  assumes a: "bitset_ok a" and b: "bitset_ok b" and n: "bs_size a = bs_size b"
  shows "bitset_ok (bitset_or a b)" "members (bitset_or a b) = members a \<union> members b"
proof -
  let ?r = "bitset_or a b"
  have la: "length (bs_vals a) = bs_size b" "first_one b \<le> bs_size b" using a b n by (simp_all add: bitset_ok_def)
  have v: "bs_vals ?r ! j = bs_vals a ! j OR bs_vals b ! j" if "j < bs_size b" for j
  proof (cases "bitset_empty b")
    case True
    then have "bs_vals b ! j = 0" using b that by (simp add: bitset_empty_def bitset_ok_def)
    then show ?thesis using True by (simp add: bitset_or_def)
  next
    case False
    have "bs_vals b ! j = 0" if "j < first_one b" using b that by (simp add: bitset_ok_def)
    then show ?thesis using False that la n fold_update_range(2) [of "first_one b" "bs_size b" "bs_vals a" j "\<lambda>i v. v OR bs_vals b ! i"]
      by (auto simp: bitset_or_def)
  qed
  have s: "bs_size ?r = bs_size b" using n by (simp add: bitset_or_def)
  then show "members ?r = members a \<union> members b" using v n by (auto simp: members_def bit_or_iff)
  have len: "length (bs_vals ?r) = bs_size b"
    using fold_update_range(1) [of "first_one b" "bs_size b" "bs_vals a" "\<lambda>i v. v OR bs_vals b ! i"] la n by (simp add: bitset_or_def)
  have fo: "first_one ?r = min (first_one a) (first_one b)" using a n by (auto simp: bitset_or_def bitset_start_def bitset_empty_def bitset_ok_def)
  show "bitset_ok ?r" unfolding bitset_ok_def s len fo using a b n v by (auto simp: bitset_ok_def min_def or_eq_0_iff)
qed

lemma and_loop:
  assumes "lo \<le> n" and "n \<le> length vals" and "n \<le> m"
  shows "\<exists>vals' first. fold (\<lambda>i (vals, first). let v = vals ! i AND w ! i in (vals[i := v], if v \<noteq> 0 \<and> first = m then i else first)) [lo..<n] (vals, m) = (vals', first) \<and>
     length vals' = length vals \<and> (\<forall>j < length vals. vals' ! j = (if lo \<le> j \<and> j < n then vals ! j AND w ! j else vals ! j)) \<and>
     (first = m \<and> (\<forall>j. lo \<le> j \<and> j < n \<longrightarrow> vals ! j AND w ! j = 0) \<or>
      lo \<le> first \<and> first < n \<and> vals ! first AND w ! first \<noteq> 0 \<and> (\<forall>j. lo \<le> j \<and> j < first \<longrightarrow> vals ! j AND w ! j = 0))"
  using assms
proof (induction n rule: dec_induct)
  case (step n)
  then obtain vals' first where f: "fold (\<lambda>i (vals, first). let v = vals ! i AND w ! i in (vals[i := v], if v \<noteq> 0 \<and> first = m then i else first)) [lo..<n] (vals, m) = (vals', first)"
    and v: "length vals' = length vals" "\<And>j. j < length vals \<Longrightarrow> vals' ! j = (if lo \<le> j \<and> j < n then vals ! j AND w ! j else vals ! j)"
    and g: "first = m \<and> (\<forall>j. lo \<le> j \<and> j < n \<longrightarrow> vals ! j AND w ! j = 0) \<or>
      lo \<le> first \<and> first < n \<and> vals ! first AND w ! first \<noteq> 0 \<and> (\<forall>j. lo \<le> j \<and> j < first \<longrightarrow> vals ! j AND w ! j = 0)" by auto
  have n: "vals' ! n = vals ! n" using v(2) [of n] step.prems by simp
  let ?v = "vals ! n AND w ! n"
  have "(if ?v \<noteq> 0 \<and> first = m then n else first) = m \<and> (\<forall>j. lo \<le> j \<and> j < Suc n \<longrightarrow> vals ! j AND w ! j = 0) \<or>
      lo \<le> (if ?v \<noteq> 0 \<and> first = m then n else first) \<and> (if ?v \<noteq> 0 \<and> first = m then n else first) < Suc n \<and>
      vals ! (if ?v \<noteq> 0 \<and> first = m then n else first) AND w ! (if ?v \<noteq> 0 \<and> first = m then n else first) \<noteq> 0 \<and>
      (\<forall>j. lo \<le> j \<and> j < (if ?v \<noteq> 0 \<and> first = m then n else first) \<longrightarrow> vals ! j AND w ! j = 0)"
    using g step.hyps step.prems by (auto simp: less_Suc_eq)
  moreover have "vals'[n := ?v] ! j = (if lo \<le> j \<and> j < Suc n then vals ! j AND w ! j else vals ! j)" if "j < length vals" for j
    using v(2) [OF that] v(1) that step.hyps by (cases "j = n") (auto simp: less_Suc_eq)
  ultimately show ?case using step.hyps f n v(1) by (intro exI [of _ "vals'[n := ?v]"] exI [of _ "if ?v \<noteq> 0 \<and> first = m then n else first"]) (simp add: Let_def)
qed auto

lemma bitset_and_correct:
  assumes a: "bitset_ok a" and b: "bitset_ok b" and n: "bs_size a = bs_size b"
  shows "bitset_ok (bitset_and a b)" "members (bitset_and a b) = members a \<inter> members b"
proof -
  let ?r = "bitset_and a b"
  have "bitset_ok ?r \<and> members ?r = members a \<inter> members b"
  proof (cases "bitset_empty a")
    case True
    then show ?thesis using a bitset_empty_correct [OF a] by (simp add: bitset_and_def)
  next
    case False
    have la: "length (bs_vals a) = bs_size b" "first_one a \<le> bs_size b" using a n by (simp_all add: bitset_ok_def)
    obtain vals first where r: "?r = a\<lparr>bs_vals := vals, first_one := first\<rparr>" and len: "length vals = bs_size b"
      and v: "\<And>j. j < bs_size b \<Longrightarrow> vals ! j = (if first_one a \<le> j then bs_vals a ! j AND bs_vals b ! j else bs_vals a ! j)"
      and g: "first = bs_size a \<and> (\<forall>j. first_one a \<le> j \<and> j < bs_size b \<longrightarrow> bs_vals a ! j AND bs_vals b ! j = 0) \<or>
        first_one a \<le> first \<and> first < bs_size b \<and> bs_vals a ! first AND bs_vals b ! first \<noteq> 0 \<and> (\<forall>j. first_one a \<le> j \<and> j < first \<longrightarrow> bs_vals a ! j AND bs_vals b ! j = 0)"
      using and_loop [of "first_one a" "bs_size b" "bs_vals a" "bs_size a" "bs_vals b"] la n False by (auto simp: bitset_and_def)
    have z: "bs_vals a ! j = 0" if "j < first_one a" for j using a that by (simp add: bitset_ok_def)
    have v': "vals ! j = bs_vals a ! j AND bs_vals b ! j" if "j < bs_size b" for j using v [OF that] z [of j] by auto
    have "members ?r = members a \<inter> members b" using v' n by (auto simp: members_def r bit_and_iff)
    moreover have "vals ! j = 0" if "j < first" "j < bs_size b" for j using v' [OF that(2)] g z [of j] that by (cases "j < first_one a") auto
    moreover have "first \<le> bs_size b" using g n by auto
    moreover have "vals ! first \<noteq> 0" if "first < bs_size b" using that g n v' by auto
    ultimately show ?thesis using len n by (simp add: bitset_ok_def r)
  qed
  then show "bitset_ok ?r" "members ?r = members a \<inter> members b" by simp_all
qed

section \<open>The least common member\<close>

lemma find_upt: "List.find P [lo..<n] = Some i \<longleftrightarrow> lo \<le> i \<and> i < n \<and> P i \<and> (\<forall>j. lo \<le> j \<and> j < i \<longrightarrow> \<not> P j)"
proof -
  have "List.find P [lo..<n] = Some i \<longleftrightarrow> (\<exists>k < n - lo. P (lo + k) \<and> i = lo + k \<and> (\<forall>j < k. \<not> P (lo + j)))"
    by (auto simp: find_Some_iff)
  also have "\<dots> \<longleftrightarrow> lo \<le> i \<and> i < n \<and> P i \<and> (\<forall>j. lo \<le> j \<and> j < i \<longrightarrow> \<not> P j)"
    by (auto simp: le_iff_add less_diff_conv add.commute)
  finally show ?thesis .
qed

lemma ffsll_least: "v \<noteq> 0 \<Longrightarrow> \<exists>k < 64. ffsll v = Suc k \<and> bit v k \<and> (\<forall>j < k. \<not> bit v j)"
proof -
  assume "v \<noteq> 0"
  then obtain i where i: "List.find (bit v) [0..<64] = Some i" unfolding nonzero_bit by (cases "List.find (bit v) [0..<64]") (auto simp: find_None_iff)
  then show ?thesis using find_upt [of "bit v" 0 64 i] by (auto simp: ffsll_def)
qed

lemma first_common_word:
  assumes "\<And>i. i < lo \<Longrightarrow> f i = 0" and "\<And>i k. i < n \<Longrightarrow> k < 64 \<Longrightarrow> bit (f i :: u64) k \<longleftrightarrow> i * 64 + k \<in> S" and "\<And>i. i \<in> S \<Longrightarrow> i div 64 < n"
  shows "(case List.find (\<lambda>i. f i \<noteq> 0) [lo..<n] of Some i \<Rightarrow> (i * 64 + ffsll (f i) - 1, True) | None \<Rightarrow> (0, False)) =
     (if S = {} then (0, False) else (Min S, True))"
proof (cases "List.find (\<lambda>i. f i \<noteq> 0) [lo..<n]")
  case None
  then have z: "f i = 0" if "i < n" for i using assms(1) [of i] that by (cases "i < lo") (auto simp: find_None_iff)
  have "i \<notin> S" for i
  proof
    assume i: "i \<in> S"
    have "bit (f (i div 64)) (i mod 64)" using assms(2) [of "i div 64" "i mod 64"] assms(3) [OF i] i by simp
    then show False using z [OF assms(3) [OF i]] by simp
  qed
  then show ?thesis using None by auto
next
  case (Some i)
  then have i: "lo \<le> i" "i < n" "f i \<noteq> 0" and before: "\<And>j. lo \<le> j \<Longrightarrow> j < i \<Longrightarrow> f j = 0" by (auto simp: find_upt)
  obtain k where k: "k < 64" "ffsll (f i) = Suc k" "bit (f i) k" "\<And>j. j < k \<Longrightarrow> \<not> bit (f i) j" using ffsll_least [OF i(3)] by blast
  have m: "i * 64 + k \<in> S" using assms(2) [OF i(2) k(1)] k(3) by simp
  have "i * 64 + k \<le> x" if x: "x \<in> S" for x
  proof -
    have b: "bit (f (x div 64)) (x mod 64)" using assms(2) [of "x div 64" "x mod 64"] assms(3) [OF x] x by simp
    have "f (x div 64) = 0" if "x div 64 < i" using assms(1) before that by (cases "x div 64 < lo") auto
    then have "i \<le> x div 64" using b by (cases "x div 64 < i") auto
    moreover have "k \<le> x mod 64" if "x div 64 = i" using b k(4) that by (metis not_le)
    moreover have "x = x div 64 * 64 + x mod 64" by simp
    ultimately show ?thesis using k(1) by (cases "x div 64 = i") linarith+
  qed
  moreover have "finite S" using assms(3) by (intro finite_subset [of S "{..< n * 64}"]) (auto simp: less_mult_imp_div_less dividend_less_times_div div_less_iff_less_mult)
  ultimately have "Min S = i * 64 + k" using m by (intro Min_eqI) auto
  then show ?thesis using Some k(2) m by auto
qed

lemma minAnd3_least:
  assumes "bitset_ok a" and "bitset_ok b" and "bitset_ok c" and "bs_size b = bs_size a" and "bs_size c = bs_size a"
  shows "bitset_minAnd3 a b c = (let S = members a \<inter> members b \<inter> members c in if S = {} then (0, False) else (Min S, True))"
  unfolding bitset_minAnd3_def Let_def using assms
  by (intro first_common_word) (auto simp: bitset_ok_def word_members [symmetric] bit_and_iff members_def less_max_iff_disj)

lemma minAnd_least:
  assumes "bitset_ok a" and "bitset_ok b" and "bs_size b = bs_size a"
  shows "bitset_minAnd a b = (let S = members a \<inter> members b in if S = {} then (0, False) else (Min S, True))"
  unfolding bitset_minAnd_def Let_def using assms
  by (intro first_common_word) (auto simp: bitset_ok_def word_members [symmetric] bit_and_iff members_def less_max_iff_disj)

lemma emptyAnd_correct:
  assumes "bitset_ok a" and "bitset_ok b" and "bs_size b = bs_size a"
  shows "bitset_emptyAnd a b \<longleftrightarrow> members a \<inter> members b = {}"
proof -
  have "bitset_emptyAnd a b \<longleftrightarrow> List.find (\<lambda>i. bs_vals a ! i AND bs_vals b ! i \<noteq> 0) [max (first_one a) (first_one b)..<bs_size a] = None"
    unfolding bitset_emptyAnd_def by (auto simp: list_all_iff find_None_iff)
  also have "\<dots> \<longleftrightarrow> \<not> snd (bitset_minAnd a b)" unfolding bitset_minAnd_def by (simp split: option.split)
  also have "\<dots> \<longleftrightarrow> members a \<inter> members b = {}" unfolding minAnd_least [OF assms] Let_def by simp
  finally show ?thesis .
qed

end
