(* ===== verification/AclNetwork.thy ===== *)
theory AclNetwork
  imports AclTreeQuery AclBitset "HOL-Library.List_Lexorder" "HOL-Library.Product_Lexorder"
begin

text \<open>
  The compiler of the network filters of the ACL, \<^verbatim>\<open>network_t\<close> of \<^verbatim>\<open>src/controlplane/acl_network.h\<close>, over
  the tree of \<^verbatim>\<open>acl_tree.h\<close> and the networks of \<^verbatim>\<open>acl/network.h\<close>.  A filter is a set of networks; the compiler
  assigns a group to every address so that the group decides which filters the address matches, and
  computes the groups of every filter.  A \<^verbatim>\<open>std::set\<close> is a sorted list and a \<^verbatim>\<open>std::map\<close> an association list sorted
  by its keys; an access outside a vector and the end of a map are \<open>None\<close>.
\<close>

section \<open>Networks\<close>

datatype network = Network (net_family: u8) (net_addr: u128) (net_mask: u128)

instantiation network :: linorder
begin

definition less_eq_network :: "network \<Rightarrow> network \<Rightarrow> bool" where
  "less_eq_network a b \<longleftrightarrow> (net_family a, net_mask a, net_addr a) \<le> (net_family b, net_mask b, net_addr b)"

definition less_network :: "network \<Rightarrow> network \<Rightarrow> bool" where
  "less_network a b \<longleftrightarrow> (net_family a, net_mask a, net_addr a) < (net_family b, net_mask b, net_addr b)"

instance
  by standard (auto simp: less_eq_network_def less_network_def network.expand)

end

definition network_normalize :: "network \<Rightarrow> network" where
  "network_normalize n = Network (net_family n) (net_addr n AND net_mask n) (net_mask n)"

type_synonym net_filter = "network list"

section \<open>The compiler of one address family and direction\<close>

record 'a acl_network =
  nc_tree :: "'a tree"
  nc_remap_group_ids :: "u32 list"
  nc_group_id :: u32
  nc_filters :: "net_filter list"
  nc_filter_ids :: "(net_filter, nat) std_map"
  nc_filter_group_ids :: "u32 list list"
  nc_bitmask :: "u8 list"
  nc_map :: "(bitset \<times> u32) list"
  nc_reverse_map :: "(u32, bitset) std_map"
  nc_reverse_map_next :: "(u32, bitset) std_map"
  nc_collisions :: u32

definition network_clear :: "'a::len word acl_network \<Rightarrow> 'a word acl_network" where
  "network_clear s =
     \<lparr>nc_tree = tree_clear (chunks_bucket_size (nc_tree s)) (nc_tree s), nc_remap_group_ids = [], nc_group_id = 1, nc_filters = [],
      nc_filter_ids = [], nc_filter_group_ids = [], nc_bitmask = [], nc_map = [], nc_reverse_map = [], nc_reverse_map_next = [],
      nc_collisions = 0\<rparr>"

text \<open>The constructors: a tree without chunks is cleared, and so is the network around it.\<close>

definition tree_new :: "nat \<Rightarrow> 'a::len word tree" where
  "tree_new bucket = tree_clear bucket
     \<lparr>tr_chunks = [], tr_capacity = 0, chunks_bucket_size = bucket, prefixes = [], intersection_prefixes = [], saved_group_ids = [],
      multirefs_chunk_ids = [], warp_chunk_ids = [], merge_group_id = 0, merge_warp_extended_chunk_ids = [], merge_remap_chunks = []\<rparr>"

definition network_new :: "nat \<Rightarrow> 'a::len word acl_network" where
  "network_new bucket = network_clear
     \<lparr>nc_tree = tree_new bucket, nc_remap_group_ids = [], nc_group_id = 0, nc_filters = [], nc_filter_ids = [], nc_filter_group_ids = [],
      nc_bitmask = [], nc_map = [], nc_reverse_map = [], nc_reverse_map_next = [], nc_collisions = 0\<rparr>"

definition network_collect :: "net_filter \<Rightarrow> 'a::len word acl_network \<Rightarrow> nat \<times> 'a word acl_network" where
  "network_collect flt s =
     (case map_of (nc_filter_ids s) flt of
        Some filter_id \<Rightarrow> (filter_id, s)
      | None \<Rightarrow>
          (length (nc_filter_ids s),
           s\<lparr>nc_tree := fold (\<lambda>n. tree_collect (ucast (net_addr n)) (ucast (net_mask n))) flt (nc_tree s),
             nc_filters := nc_filters s @ [flt],
             nc_filter_ids := map_emplace flt (length (nc_filter_ids s)) (nc_filter_ids s)\<rparr>))"

text \<open>\<^verbatim>\<open>resize\<close> of a vector whose new elements are empty.\<close>

definition resize_groups :: "nat \<Rightarrow> u32 list list \<Rightarrow> u32 list list" where
  "resize_groups n gs = take n gs @ replicate (n - length gs) []"

definition network_prepare :: "'a::len word acl_network \<Rightarrow> 'a word acl_network option" where
  "network_prepare s =
     map_option (\<lambda>t. s\<lparr>nc_tree := t, nc_filter_group_ids := resize_groups (length (nc_filter_ids s)) (nc_filter_group_ids s)\<rparr>)
       (tree_prepare (nc_tree s))"

text \<open>The loops of \<^verbatim>\<open>compile\<close>: the networks of a filter share the new names of the groups.\<close>

definition insert_network :: "network \<Rightarrow> 'a::len word tree \<times> u32 \<times> u32 list \<Rightarrow> ('a word tree \<times> u32 \<times> u32 list) option" where
  "insert_network n s = tree_insert (ucast (net_addr n)) (ucast (net_mask n)) s"

definition insert_filter :: "net_filter \<Rightarrow> 'a::len word tree \<times> u32 \<times> u32 list \<Rightarrow> ('a word tree \<times> u32 \<times> u32 list) option" where
  "insert_filter flt s =
     (let (t, group_id, _) = s
      in fold (\<lambda>n os. Option.bind os (insert_network n)) flt (Some (t, group_id, replicate (unat group_id) 0)))"

definition network_compile :: "'a::len word acl_network \<Rightarrow> 'a word acl_network option" where
  "network_compile s =
     Option.bind (fold (\<lambda>flt os. Option.bind os (insert_filter flt)) (nc_filters s) (Some (nc_tree s, nc_group_id s, nc_remap_group_ids s)))
       (\<lambda>(t, group_id, remap_group_ids).
          map_option (\<lambda>(t, group_id). s\<lparr>nc_tree := t, nc_group_id := group_id, nc_remap_group_ids := remap_group_ids\<rparr>)
            (tree_merge (t, group_id)))"

definition get_networks :: "net_filter \<Rightarrow> 'a::len word tree \<times> u8 list \<Rightarrow> ('a word tree \<times> u8 list) option" where
  "get_networks flt s = fold (\<lambda>n os. Option.bind os (tree_get (ucast (net_addr n)) (ucast (net_mask n)))) flt (Some s)"

text \<open>The groups whose bit is set, in ascending order.\<close>

definition bitmask_groups :: "u8 list \<Rightarrow> u32 list" where
  "bitmask_groups bitmask = map of_nat (filter (\<lambda>i. bitmask ! i \<noteq> 0) [0..<length bitmask])"

definition populate_filter :: "nat \<Rightarrow> 'a::len word acl_network \<Rightarrow> 'a word acl_network option" where
  "populate_filter filter_id s =
     Option.bind (get_networks (nc_filters s ! filter_id) (nc_tree s, replicate (unat (nc_group_id s)) 0)) (\<lambda>(t, bitmask).
       if filter_id < length (nc_filter_group_ids s)
       then Some (s\<lparr>nc_tree := t, nc_bitmask := bitmask,
              nc_filter_group_ids := (nc_filter_group_ids s)[filter_id := nc_filter_group_ids s ! filter_id @ bitmask_groups bitmask],
              nc_reverse_map := fold (\<lambda>g. map_emplace g (bitset_new (length (nc_filters s)))) (bitmask_groups bitmask) (nc_reverse_map s)\<rparr>)
       else None)"

definition network_populate :: "'a::len word acl_network \<Rightarrow> 'a word acl_network option" where
  "network_populate s = fold (\<lambda>filter_id os. Option.bind os (populate_filter filter_id)) [0..<length (nc_filters s)] (Some s)"

text \<open>The first loop of \<^verbatim>\<open>remap\<close>: which filters a group belongs to.\<close>

definition reverse_insert :: "nat \<Rightarrow> u32 \<Rightarrow> (u32, bitset) std_map \<Rightarrow> (u32, bitset) std_map option" where
  "reverse_insert filter_id g m =
     Option.bind (map_of m g) (\<lambda>b. map_option (\<lambda>b. map_assign g b m) (bitset_insert filter_id b))"

definition reverse_groups :: "u32 list list \<Rightarrow> (u32, bitset) std_map \<Rightarrow> (u32, bitset) std_map option" where
  "reverse_groups gs m =
     fold (\<lambda>(filter_id, groups) om. Option.bind om (\<lambda>m. fold (\<lambda>g om. Option.bind om (reverse_insert filter_id g)) groups (Some m)))
       (enumerate 0 gs) (Some m)"

text \<open>The second loop: groups that belong to the same filters get one new group.\<close>

type_synonym assign_state = "u32 list \<times> (bitset \<times> u32) list \<times> u32 \<times> u32"

definition assign_group :: "u32 \<times> bitset \<Rightarrow> assign_state \<Rightarrow> assign_state option" where
  "assign_group entry s =
     (let (g, filter_bitmask) = entry; (remap, known, shared_group_id, collisions) = s in
      if length remap \<le> unat g then None
      else case List.find (\<lambda>(b, _). bitset_eq b filter_bitmask) known of
          None \<Rightarrow> Some (remap[unat g := shared_group_id], (filter_bitmask, g) # known, shared_group_id + 1, collisions)
        | Some (_, other) \<Rightarrow> if length remap \<le> unat other then None
                            else Some (remap[unat g := remap ! unat other], known, shared_group_id, collisions + 1))"

definition remap_groups :: "u32 list \<Rightarrow> u32 list \<Rightarrow> u32 list option" where
  "remap_groups remap groups = (if list_all (\<lambda>g. unat g < length remap) groups then Some (map (\<lambda>g. remap ! unat g) groups) else None)"

definition network_remap :: "u32 \<Rightarrow> 'a::len word acl_network \<Rightarrow> (u32 \<times> 'a word acl_network) option" where
  "network_remap shared_group_id s =
     Option.bind (reverse_groups (nc_filter_group_ids s) (nc_reverse_map s)) (\<lambda>reverse.
     Option.bind (fold (\<lambda>entry os. Option.bind os (assign_group entry)) reverse
                   (Some (replicate (unat (nc_group_id s)) 0, nc_map s, shared_group_id, nc_collisions s)))
       (\<lambda>(remap, known, shared_group_id, collisions).
     Option.bind (tree_remap remap (nc_tree s)) (\<lambda>t.
     Option.bind (those (map (remap_groups remap) (nc_filter_group_ids s))) (\<lambda>filter_groups.
     Some (shared_group_id,
       s\<lparr>nc_tree := t\<lparr>saved_group_ids := []\<rparr>, nc_remap_group_ids := remap, nc_filter_group_ids := filter_groups, nc_map := known,
         nc_reverse_map := fold (\<lambda>(g, b). map_emplace (remap ! unat g) b) reverse (nc_reverse_map_next s),
         nc_reverse_map_next := reverse, nc_group_id := shared_group_id, nc_collisions := collisions\<rparr>)))))"

definition get_group_ids_by_filter :: "net_filter \<Rightarrow> 'a::len word acl_network \<Rightarrow> u32 list option" where
  "get_group_ids_by_filter flt s =
     Option.bind (map_of (nc_filter_ids s) flt)
       (\<lambda>filter_id. if filter_id < length (nc_filter_group_ids s) then Some (nc_filter_group_ids s ! filter_id) else None)"

definition get_group_ids_by_prefix :: "network \<Rightarrow> 'a::len word acl_network \<Rightarrow> (u32 list \<times> 'a word acl_network) option" where
  "get_group_ids_by_prefix n s =
     map_option (\<lambda>(t, bitmask). (bitmask_groups bitmask, s\<lparr>nc_tree := t, nc_bitmask := bitmask\<rparr>))
       (get_networks [n] (nc_tree s, replicate (unat (nc_group_id s)) 0))"

definition get_group_ids_by_address :: "'a::len word \<Rightarrow> 'a word acl_network \<Rightarrow> u32 option" where
  "get_group_ids_by_address address s = tree_lookup address (nc_tree s)"

end
