(* ===== verification/AclNetworkGroups.thy ===== *)
theory AclNetworkGroups
  imports AclNetwork
begin

text \<open>
  What the compiler of the network filters computes.  For networks without a gap in the mask: two addresses
  have the same group exactly if they match the same filters.
\<close>

section \<open>Paths of addresses\<close>

primrec pad :: "nat \<Rightarrow> u8 list \<Rightarrow> u8 list" where
  "pad 0 p = []"
| "pad (Suc n) p = hd p # pad n (tl p)"

lemma walk_pad: "walk n C (pad n p) v = walk n C p v"
  by (induction n arbitrary: p v) (simp_all add: walk_Suc chunk_walk_def)

lemma chunk_walk_pad: "chunk_walk n C (pad (Suc n) p) c = chunk_walk n C p c"
  by (simp add: chunk_walk_def walk_pad)

lemma covers_pad:
  "push_bit (8 * Suc n) m = 0 \<Longrightarrow> covers a m (pad (Suc n) p) = covers a m p"
proof (induction n arbitrary: a m p)
  case 0
  then show ?case by (simp add: covers.simps [of a m])
next
  case (Suc n)
  have "push_bit (8 * Suc n) (push_bit 8 m) = 0" using Suc.prems by (simp add: push_bit_push_bit add.commute)
  then have "covers (push_bit 8 a) (push_bit 8 m) (pad (Suc n) (tl p)) = covers (push_bit 8 a) (push_bit 8 m) (tl p)" by (rule Suc.IH)
  then show ?case by (simp add: covers.simps [of a m])
qed

lemma path_cong:
  fixes x y :: "'a::len word"
  assumes "\<And>i. i < LENGTH('a) \<Longrightarrow> LENGTH('a) - 8 * k \<le> i \<Longrightarrow> bit x i = bit y i" and "8 * k \<le> LENGTH('a)"
  shows "path k x = path k y"
  using assms
proof (induction k arbitrary: x y)
  case (Suc k)
  have len: "8 \<le> LENGTH('a)" using Suc.prems(2) by simp
  have "top_byte x = top_byte y"
    using Suc.prems(1) len by (intro bit_word_eqI) (auto simp: top_byte_bit)
  moreover have "path k (push_bit 8 x) = path k (push_bit 8 y)"
    using Suc.prems by (intro Suc.IH) (auto simp: bit_push_bit_iff)
  ultimately show ?case by simp
qed simp

text \<open>Every path is the path of an address.\<close>

lemma path_onto:
  assumes "8 * k \<le> LENGTH('a)"
  shows "\<exists>x :: 'a::len word. path k x = pad k p"
  using assms
proof (induction k arbitrary: p)
  case (Suc k)
  obtain y :: "'a word" where y: "path k y = pad k (tl p)" using Suc.IH [of "tl p"] Suc.prems by auto
  let ?x = "push_bit (LENGTH('a) - 8) (ucast (hd p)) OR drop_bit 8 y :: 'a word"
  have len: "8 \<le> LENGTH('a)" using Suc.prems by simp
  have "top_byte ?x = hd p"
  proof (intro bit_word_eqI)
    fix i assume i: "i < LENGTH(8)"
    have "\<not> bit y (LENGTH('a) - 8 + i + 8)" using bit_imp_le_length [of y "LENGTH('a) - 8 + i + 8"] len by auto
    then show "bit (top_byte ?x) i = bit (hd p) i" using i len by (auto simp: top_byte_bit bit_or_iff bit_push_bit_iff bit_drop_bit_eq bit_ucast_iff add.commute)
  qed
  moreover have "path k (push_bit 8 ?x) = path k y"
    using Suc.prems by (intro path_cong) (auto simp: bit_push_bit_iff bit_or_iff bit_drop_bit_eq bit_ucast_iff dest: bit_imp_le_length)
  ultimately show ?case using y by (intro exI [of _ ?x]) simp
qed simp

section \<open>The tree during the compilation\<close>

definition depth :: "'a::len itself \<Rightarrow> nat" where
  "depth T = LENGTH('a) div 8 - 1"

definition whole_bytes :: "'a::len itself \<Rightarrow> bool" where
  "whole_bytes T \<longleftrightarrow> 8 * Suc (depth T) = LENGTH('a)"

lemma whole_bytesD:
  assumes "whole_bytes TYPE('a::len)"
  shows "8 \<le> LENGTH('a)" "depth TYPE('a) < LENGTH('a) div 8" "push_bit (8 * Suc (depth TYPE('a))) (m :: 'a word) = 0"
    "LENGTH('a) div 8 = Suc (depth TYPE('a))"
proof -
  note w = assms [unfolded whole_bytes_def]
  show l: "8 \<le> LENGTH('a)" unfolding w [symmetric] by simp
  have "0 < LENGTH('a) div 8" using l by (simp add: div_greater_zero_iff)
  then show "depth TYPE('a) < LENGTH('a) div 8" "LENGTH('a) div 8 = Suc (depth TYPE('a))" by (simp_all add: depth_def)
  show "push_bit (8 * Suc (depth TYPE('a))) m = 0" unfolding w by (intro bit_word_eqI) (simp add: bit_push_bit_iff)
qed

definition tree_ok :: "'a::len word tree \<Rightarrow> bool" where
  "tree_ok t \<longleftrightarrow> orderly (depth TYPE('a)) (chunk_at t) 0 \<and> 0 < length (tr_chunks t) \<and> length (tr_chunks t) \<le> tr_capacity t \<and>
     (\<forall>x \<in> held (depth TYPE('a)) (chunk_at t) 0. unat x < length (tr_chunks t)) \<and> depth TYPE('a) \<le> chunks_bucket_size t"

definition group_at :: "'a::len word tree \<Rightarrow> u8 list \<Rightarrow> u32" where
  "group_at t p = chunk_walk (depth TYPE('a)) (chunk_at t) p 0"

definition gap_free :: "'a::len itself \<Rightarrow> network \<Rightarrow> bool" where
  "gap_free T n \<longleftrightarrow> \<not> is_mask_gapped (ucast (net_mask n) :: 'a word)"

definition net_covers :: "'a::len itself \<Rightarrow> network \<Rightarrow> u8 list \<Rightarrow> bool" where
  "net_covers T n p \<longleftrightarrow> covers (ucast (net_addr n) :: 'a word) (ucast (net_mask n)) p"

definition filter_covers :: "'a::len itself \<Rightarrow> net_filter \<Rightarrow> u8 list \<Rightarrow> bool" where
  "filter_covers T flt p \<longleftrightarrow> (\<exists>n \<in> set flt. net_covers T n p)"

text \<open>The state of an insertion that starts from a tree, and the tree with the fields that it leaves alone.\<close>

definition naming :: "'a tree \<Rightarrow> u32 \<Rightarrow> u32 list \<Rightarrow> inserting" where
  "naming t g R = \<lparr>tr_chunks = tr_chunks t, tr_capacity = tr_capacity t, in_group_id = g, in_remap = R\<rparr>"

lemma naming_simps [simp]:
  "tr_chunks (naming t g R) = tr_chunks t" "tr_capacity (naming t g R) = tr_capacity t" "in_remap (naming t g R) = R" "in_group_id (naming t g R) = g"
  "chunk_at (naming t g R) = chunk_at t"
  by (simp_all add: naming_def chunk_at_def fun_eq_iff)

lemma chunk_at_capacity [simp]: "chunk_at (t\<lparr>tr_capacity := k\<rparr>) = chunk_at t"
  by (simp add: chunk_at_def fun_eq_iff)

lemma reserve_effect:
  assumes "length (tr_chunks t) \<le> tr_capacity t"
  shows "\<exists>k. reserve_chunks b t = t\<lparr>tr_capacity := k\<rparr> \<and> length (tr_chunks t) + b \<le> k"
proof (cases "tr_capacity t - length (tr_chunks t) < b")
  case True
  then show ?thesis using assms by (intro exI [of _ "tr_capacity t + b"]) (simp add: reserve_chunks_def)
next
  case False
  then show ?thesis using assms by (intro exI [of _ "tr_capacity t"]) (simp add: reserve_chunks_def)
qed

lemma insert_network_effect:
  fixes t :: "'a::len word tree"
  assumes w: "whole_bytes TYPE('a)" and gf: "gap_free TYPE('a) n" and ok: "tree_ok t" and nm: "names_ok (naming t g R)"
    and room: "length (tr_chunks t) + depth TYPE('a) \<le> 2 ^ 31"
  shows "\<exists>t' g' R'. insert_network n (t, g, R) = Some (t', g', R') \<and> tree_ok t' \<and> length (tr_chunks t') \<le> length (tr_chunks t) + depth TYPE('a) \<and>
     arena.more t' = arena.more t \<and> names_ok (naming t' g' R') \<and> extends (naming t g R) (naming t' g' R') \<and>
     named (naming t' g' R') \<subseteq> named (naming t g R) \<union> {unat (group_at t p) | p. net_covers TYPE('a) n p} \<and>
     (\<forall>p. group_at t' p = (if net_covers TYPE('a) n p then new_name (naming t' g' R') (group_at t p) else group_at t p) \<and>
        (net_covers TYPE('a) n p \<longrightarrow> has_name (naming t' g' R') (group_at t p)))"
proof -
  let ?k = "depth TYPE('a)" let ?a = "ucast (net_addr n) :: 'a word" and ?m = "ucast (net_mask n) :: 'a word"
  note T = ok [unfolded tree_ok_def]
  obtain c where r: "reserve_chunks (chunks_bucket_size t) t = t\<lparr>tr_capacity := c\<rparr>" and c: "length (tr_chunks t) + chunks_bucket_size t \<le> c"
    using reserve_effect [of t "chunks_bucket_size t"] T by blast
  let ?t = "t\<lparr>tr_capacity := c\<rparr>" let ?u = "naming ?t g R"
  have "names_ok ?u" using nm names_cong [of ?u "naming t g R"] by simp
  moreover have "length (tr_chunks ?u) + ?k \<le> tr_capacity ?u" using c T by simp
  ultimately obtain u' where u': "insert_step ?a ?m 0 ?u = Some u'" and ins: "inserted ?k 0 ?a ?m ?u u'"
    using insert_step_effect [of ?u ?k 0 ?m ?a] T whole_bytesD [OF w] room by auto
  define t' where "t' = ?t\<lparr>tr_chunks := tr_chunks u', tr_capacity := tr_capacity u'\<rparr>"
  have n': "naming t' (in_group_id u') (in_remap u') = u'" "chunk_at t' = chunk_at u'" "arena.more t' = arena.more t" "tr_chunks t' = tr_chunks u'"
    "tr_capacity t' = tr_capacity u'" "chunks_bucket_size t' = chunks_bucket_size t"
    by (simp_all add: naming_def t'_def chunk_at_def fun_eq_iff)
  have cu: "chunk_at ?u = chunk_at t" by simp
  note I = ins [unfolded inserted_def cu]
  have "insert_network n (t, g, R) = Some (t', in_group_id u', in_remap u')"
    using gf u' r unfolding insert_network_def gap_free_def t'_def by (subst tree_insert.simps) (simp add: with_inserting_def naming_def)
  moreover have "\<forall>x \<in> held ?k (chunk_at u') 0. unat x < length (tr_chunks u')"
  proof
    fix x assume x: "x \<in> held ?k (chunk_at u') 0"
    have "x \<in> held ?k (chunk_at t) 0 \<or> length (tr_chunks t) \<le> unat x \<and> unat x < length (tr_chunks u')" using I x by simp
    moreover have "length (tr_chunks t) \<le> length (tr_chunks u')" using I by simp
    ultimately show "unat x < length (tr_chunks u')" using T less_le_trans by blast
  qed
  then have "tree_ok t'" unfolding tree_ok_def n' using I T c by auto
  moreover have "named u' \<subseteq> named (naming t g R) \<union> {unat (group_at t p) | p. net_covers TYPE('a) n p}"
    using I by (simp add: group_at_def net_covers_def)
  moreover have "extends (naming t g R) u'" using I by (simp add: extends_def)
  moreover have "group_at t' p = (if net_covers TYPE('a) n p then new_name u' (group_at t p) else group_at t p) \<and>
        (net_covers TYPE('a) n p \<longrightarrow> has_name u' (group_at t p))" for p
    unfolding group_at_def net_covers_def n' using I by blast
  moreover have "names_ok u'" "length (tr_chunks u') \<le> length (tr_chunks t) + ?k" using I by simp_all
  ultimately show ?thesis
    by (intro exI [of _ t'] exI [of _ "in_group_id u'"] exI [of _ "in_remap u'"], unfold n'(1)) (simp add: n'(3,4))
qed

text \<open>
  While the networks of a filter are inserted, an address that one of them covers has the new name of the
  group it had before.
\<close>

definition filter_state :: "'a::len word tree \<Rightarrow> nat \<Rightarrow> net_filter \<Rightarrow> 'a word tree \<times> u32 \<times> u32 list \<Rightarrow> bool" where
  "filter_state t0 G ns s \<longleftrightarrow> (case s of (t, g, R) \<Rightarrow> tree_ok t \<and> length (tr_chunks t) \<le> length (tr_chunks t0) + depth TYPE('a) * length ns \<and>
     arena.more t = arena.more t0 \<and> names_ok (naming t g R) \<and> length R = G \<and>
     named (naming t g R) \<subseteq> {unat (group_at t0 p) | p. filter_covers TYPE('a) ns p} \<and>
     (\<forall>p. group_at t p = (if filter_covers TYPE('a) ns p then R ! unat (group_at t0 p) else group_at t0 p) \<and>
        (filter_covers TYPE('a) ns p \<longrightarrow> R ! unat (group_at t0 p) \<noteq> 0)))"

lemma names_range: "names_ok u \<Longrightarrow> k < length (in_remap u) \<Longrightarrow> in_remap u ! k \<noteq> 0 \<Longrightarrow> length (in_remap u) \<le> unat (in_remap u ! k) \<and> unat (in_remap u ! k) < unat (in_group_id u)"
  unfolding names_ok_def by blast

lemma filter_covers_snoc: "filter_covers T (ns @ [n]) p \<longleftrightarrow> filter_covers T ns p \<or> net_covers T n p"
  by (auto simp: filter_covers_def)

lemma filter_state_step:
  fixes t0 :: "'a::len word tree"
  assumes w: "whole_bytes TYPE('a)" and gf: "gap_free TYPE('a) n" and G: "\<And>p. unat (group_at t0 p) < G"
    and s: "filter_state t0 G ns s" and room: "length (tr_chunks t0) + depth TYPE('a) * Suc (length ns) \<le> 2 ^ 31"
  shows "\<exists>s'. insert_network n s = Some s' \<and> filter_state t0 G (ns @ [n]) s'"
proof -
  obtain t g R where s': "s = (t, g, R)" by (cases s)
  note S = s [unfolded filter_state_def s' prod.case]
  have "length (tr_chunks t) + depth TYPE('a) \<le> 2 ^ 31" using S room by simp
  then obtain t' g' R' where ins: "insert_network n (t, g, R) = Some (t', g', R')" and ok: "tree_ok t'"
    and len: "length (tr_chunks t') \<le> length (tr_chunks t) + depth TYPE('a)" and more: "arena.more t' = arena.more t"
    and nm: "names_ok (naming t' g' R')" and ext: "extends (naming t g R) (naming t' g' R')"
    and new: "named (naming t' g' R') \<subseteq> named (naming t g R) \<union> {unat (group_at t p) | p. net_covers TYPE('a) n p}"
    and grp: "\<And>p. group_at t' p = (if net_covers TYPE('a) n p then new_name (naming t' g' R') (group_at t p) else group_at t p)"
    and has: "\<And>p. net_covers TYPE('a) n p \<Longrightarrow> has_name (naming t' g' R') (group_at t p)"
    using insert_network_effect [OF w gf _ _ , of t g R] S by blast
  have R': "length R' = G" using ext S by (simp add: extends_def)
  have keep: "R' ! k = R ! k" if "k < G" "R ! k \<noteq> 0" for k using ext that S by (simp add: extends_def)
  have big: "G \<le> unat (R ! k)" if "k < G" "R ! k \<noteq> 0" for k
    using names_range [of "naming t g R" k] S that by simp
  have g0: "group_at t p = (if filter_covers TYPE('a) ns p then R ! unat (group_at t0 p) else group_at t0 p)" for p using S by blast
  have nz: "R ! unat (group_at t0 p) \<noteq> 0" if "filter_covers TYPE('a) ns p" for p using S that by blast
  have grp': "group_at t' p = (if filter_covers TYPE('a) (ns @ [n]) p then R' ! unat (group_at t0 p) else group_at t0 p) \<and>
        (filter_covers TYPE('a) (ns @ [n]) p \<longrightarrow> R' ! unat (group_at t0 p) \<noteq> 0)" for p
  proof (cases "filter_covers TYPE('a) ns p")
    case True
    then show ?thesis using grp [of p] g0 [of p] nz [OF True] keep [OF G] big [OF G, of p] R' by (simp add: filter_covers_snoc new_name_def)
  next
    case False
    then show ?thesis using grp [of p] has [of p] g0 [of p] G [of p] R' by (auto simp: filter_covers_snoc new_name_def has_name_def)
  qed
  have "named (naming t' g' R') \<subseteq> {unat (group_at t0 p) | p. filter_covers TYPE('a) (ns @ [n]) p}"
  proof
    fix k assume k: "k \<in> named (naming t' g' R')"
    then have kG: "k < G" using R' by simp
    consider "k \<in> named (naming t g R)" | p where "k = unat (group_at t p)" "net_covers TYPE('a) n p" using new k by blast
    then show "k \<in> {unat (group_at t0 p) | p. filter_covers TYPE('a) (ns @ [n]) p}"
    proof cases
      case 1
      then obtain p where "k = unat (group_at t0 p)" "filter_covers TYPE('a) ns p" using S by blast
      then show ?thesis by (auto simp: filter_covers_snoc)
    next
      case 2
      have "\<not> filter_covers TYPE('a) ns p" using g0 [of p] nz [of p] big [OF G, of p] kG 2(1) by auto
      then show ?thesis using g0 [of p] 2 by (auto simp: filter_covers_snoc)
    qed
  qed
  then have "filter_state t0 G (ns @ [n]) (t', g', R')" using ok len more nm R' grp' S by (simp add: filter_state_def)
  then show ?thesis using ins s' by blast
qed

lemma filter_state_fold:
  fixes t0 :: "'a::len word tree"
  assumes "whole_bytes TYPE('a)" and "\<And>p. unat (group_at t0 p) < G" and "list_all (gap_free TYPE('a)) xs"
    and "filter_state t0 G ns s" and "length (tr_chunks t0) + depth TYPE('a) * length (ns @ xs) \<le> 2 ^ 31"
  shows "\<exists>s'. fold (\<lambda>n os. Option.bind os (insert_network n)) xs (Some s) = Some s' \<and> filter_state t0 G (ns @ xs) s'"
  using assms(3-)
proof (induction xs arbitrary: ns s)
  case (Cons n xs)
  have "length (tr_chunks t0) + depth TYPE('a) * Suc (length ns) \<le> 2 ^ 31"
  proof -
    have "depth TYPE('a) * Suc (length ns) \<le> depth TYPE('a) * length (ns @ n # xs)" by (intro mult_le_mono2) simp
    then show ?thesis using Cons.prems(3) by linarith
  qed
  moreover have "gap_free TYPE('a) n" using Cons.prems(1) by simp
  ultimately obtain s1 where "insert_network n s = Some s1" "filter_state t0 G (ns @ [n]) s1"
    using filter_state_step [OF assms(1) _ assms(2) Cons.prems(2)] by blast
  then show ?case using Cons.IH [of "ns @ [n]" s1] Cons.prems(1,3) by auto
qed auto

text \<open>A whole filter: the groups before it are split by the filter.\<close>

lemma insert_filter_effect:
  fixes t :: "'a::len word tree"
  assumes w: "whole_bytes TYPE('a)" and gf: "list_all (gap_free TYPE('a)) flt" and ok: "tree_ok t"
    and lt: "\<And>p. unat (group_at t p) < unat g" and g: "unat g \<le> 2 ^ 30"
    and room: "length (tr_chunks t) + depth TYPE('a) * length flt \<le> 2 ^ 31"
  shows "\<exists>t' g' R'. insert_filter flt (t, g, R) = Some (t', g', R') \<and> tree_ok t' \<and> arena.more t' = arena.more t \<and>
     length (tr_chunks t') \<le> length (tr_chunks t) + depth TYPE('a) * length flt \<and> unat g \<le> unat g' \<and>
     unat g' \<le> unat g + card {unat (group_at t p) | p. filter_covers TYPE('a) flt p} \<and> (\<forall>p. unat (group_at t' p) < unat g') \<and>
     (\<forall>p q. group_at t' p = group_at t' q \<longleftrightarrow> (filter_covers TYPE('a) flt p = filter_covers TYPE('a) flt q \<and> group_at t p = group_at t q)) \<and>
     (\<forall>p. group_at t' p = 0 \<longleftrightarrow> \<not> filter_covers TYPE('a) flt p \<and> group_at t p = 0)"
proof -
  let ?R = "replicate (unat g) 0 :: u32 list"
  have pos: "0 < unat g" using lt [of "[]"] by simp
  have e: "named (naming t g ?R) = {}" by auto
  have "names_ok (naming t g ?R)" unfolding names_ok_def e using pos g by simp
  then have "filter_state t (unat g) [] (t, g, ?R)" using ok by (auto simp: filter_state_def filter_covers_def)
  then obtain t' g' R' where ins: "insert_filter flt (t, g, R) = Some (t', g', R')" and st: "filter_state t (unat g) flt (t', g', R')"
    using filter_state_fold [of t "unat g" flt "[]" "(t, g, ?R)"] w lt gf room by (auto simp: insert_filter_def)
  note S = st [unfolded filter_state_def prod.case]
  let ?F = "filter_covers TYPE('a) flt" let ?n = "naming t' g' R'"
  have nm: "names_ok ?n" and len: "length R' = unat g" and sub: "named ?n \<subseteq> {unat (group_at t p) | p. ?F p}" using S by blast+
  have grp: "group_at t' p = (if ?F p then R' ! unat (group_at t p) else group_at t p)" for p using S by blast
  have in_named: "unat (group_at t p) \<in> named ?n" if "?F p" for p using S that lt len by simp
  have range: "unat g \<le> unat (R' ! unat (group_at t p)) \<and> unat (R' ! unat (group_at t p)) < unat g'" if "?F p" for p
    using names_range [OF nm, of "unat (group_at t p)"] in_named [OF that] len by simp
  have count: "unat g' = unat g + card (named ?n)" using nm len by (simp add: names_ok_def)
  have fin: "finite {unat (group_at t p) | p. ?F p}" using lt by (blast intro: finite_subset [of _ "{..< unat g}"])
  have inj: "R' ! unat (group_at t p) = R' ! unat (group_at t q) \<longleftrightarrow> group_at t p = group_at t q" if "?F p" "?F q" for p q
  proof -
    have "inj_on (\<lambda>k. R' ! k) (named ?n)" using nm by (simp add: names_ok_def)
    then show ?thesis using inj_onD [of "\<lambda>k. R' ! k" "named ?n"] in_named that by (auto simp: word_unat_eq_iff)
  qed
  have eq: "group_at t' p = group_at t' q \<longleftrightarrow> (?F p = ?F q \<and> group_at t p = group_at t q)" for p q
  proof (cases "?F p = ?F q")
    case True
    then show ?thesis using inj [of p q] grp [of p] grp [of q] by auto
  next
    case False
    then show ?thesis using range [of p] range [of q] lt [of p] lt [of q] grp [of p] grp [of q] by auto
  qed
  have "unat (group_at t' p) < unat g'" for p using range [of p] lt [of p] grp [of p] count by (cases "?F p") auto
  moreover have "group_at t' p = 0 \<longleftrightarrow> \<not> ?F p \<and> group_at t p = 0" for p using range [of p] pos grp [of p] by (cases "?F p") auto
  moreover have "unat g' \<le> unat g + card {unat (group_at t p) | p. ?F p}" using count card_mono [OF fin sub] by simp
  ultimately show ?thesis using ins S eq count by auto
qed

section \<open>Groups and filters\<close>

definition filter_match :: "net_filter \<Rightarrow> 'a::len word \<Rightarrow> bool" where
  "filter_match flt x = list_ex (\<lambda>n. x AND ucast (net_mask n) = ucast (net_addr n) AND ucast (net_mask n)) flt"

definition path_of :: "'a::len word \<Rightarrow> u8 list" where
  "path_of x = path (Suc (depth TYPE('a))) x"

lemma filter_covers_path:
  fixes x :: "'a::len word"
  assumes "whole_bytes TYPE('a)" and "list_all (gap_free TYPE('a)) flt"
  shows "filter_covers TYPE('a) flt (path_of x) \<longleftrightarrow> filter_match flt x"
proof -
  have "net_covers TYPE('a) n (path_of x) \<longleftrightarrow> x AND ucast (net_mask n) = ucast (net_addr n) AND ucast (net_mask n)" if "n \<in> set flt" for n
  proof -
    have "\<not> is_mask_gapped (ucast (net_mask n) :: 'a word)" using assms(2) that by (simp add: list_all_iff gap_free_def)
    then show ?thesis unfolding net_covers_def path_of_def by (rule covers_match) (rule whole_bytesD [OF assms(1)])+
  qed
  then show ?thesis by (auto simp: filter_covers_def filter_match_def list_ex_iff)
qed

lemma path_exists:
  assumes w: "whole_bytes TYPE('a::len)"
  shows "\<exists>x :: 'a word. (\<forall>t :: 'a word tree. group_at t p = group_at t (path_of x)) \<and>
    (\<forall>flt. filter_covers TYPE('a) flt p = filter_covers TYPE('a) flt (path_of x))"
proof -
  have "8 * Suc (depth TYPE('a)) \<le> LENGTH('a)" using w by (simp add: whole_bytes_def)
  then obtain x :: "'a word" where x: "path_of x = pad (Suc (depth TYPE('a))) p" using path_onto unfolding path_of_def by blast
  have "group_at t (path_of x) = group_at t p" for t :: "'a word tree" unfolding group_at_def x by (rule chunk_walk_pad)
  moreover have "filter_covers TYPE('a) flt (path_of x) = filter_covers TYPE('a) flt p" for flt
    unfolding filter_covers_def net_covers_def x using covers_pad [OF whole_bytesD(3) [OF w]] by blast
  ultimately show ?thesis by (intro exI [of _ x]) auto
qed

text \<open>
  The number of groups that the compiler uses: each filter makes a group for every set of earlier filters
  that one of its addresses matches.
\<close>

definition signature :: "net_filter list \<Rightarrow> 'a::len word \<Rightarrow> net_filter set" where
  "signature fs x = {flt \<in> set fs. filter_match flt x}"

definition class_count :: "'a::len itself \<Rightarrow> net_filter list \<Rightarrow> nat" where
  "class_count T fs = 1 + (\<Sum>j < length fs. card (signature (take j fs) ` {x :: 'a word. filter_match (fs ! j) x}))"

lemma class_count_snoc: "class_count TYPE('a::len) (fs @ [flt]) = class_count TYPE('a) fs + card (signature fs ` {x :: 'a word. filter_match flt x})"
  by (simp add: class_count_def nth_append)

lemma card_image_factor:
  assumes "finite A" and "\<And>x y. x \<in> A \<Longrightarrow> y \<in> A \<Longrightarrow> h x = h y \<Longrightarrow> f x = f y"
  shows "card (f ` A) \<le> card (h ` A)"
proof -
  have "f x = f (inv_into A h (h x))" if "x \<in> A" for x
    using that by (intro assms(2)) (auto simp: inv_into_into f_inv_into_f)
  then have "f ` A = (\<lambda>z. f (inv_into A h z)) ` h ` A" by (auto simp: image_image)
  then show ?thesis using assms(1) by (metis card_image_le finite_imageI)
qed

definition compile_state :: "'a::len word tree \<Rightarrow> net_filter list \<Rightarrow> 'a word tree \<times> u32 \<times> u32 list \<Rightarrow> bool" where
  "compile_state t0 fs s \<longleftrightarrow> (case s of (t, g, R) \<Rightarrow> tree_ok t \<and> arena.more t = arena.more t0 \<and>
     length (tr_chunks t) \<le> length (tr_chunks t0) + depth TYPE('a) * sum_list (map length fs) \<and>
     0 < unat g \<and> unat g \<le> class_count TYPE('a) fs \<and> (\<forall>p. unat (group_at t p) < unat g) \<and>
     (\<forall>p q. group_at t p = group_at t q \<longleftrightarrow> (\<forall>flt \<in> set fs. filter_covers TYPE('a) flt p = filter_covers TYPE('a) flt q)) \<and>
     (\<forall>p. group_at t p = 0 \<longleftrightarrow> (\<forall>flt \<in> set fs. \<not> filter_covers TYPE('a) flt p)))"

lemma compile_state_step:
  fixes t0 :: "'a::len word tree"
  assumes w: "whole_bytes TYPE('a)" and gfs: "\<forall>flt \<in> set fs. list_all (gap_free TYPE('a)) flt" and gf: "list_all (gap_free TYPE('a)) flt"
    and s: "compile_state t0 fs s" and count: "class_count TYPE('a) fs \<le> 2 ^ 30"
    and room: "length (tr_chunks t0) + depth TYPE('a) * sum_list (map length (fs @ [flt])) \<le> 2 ^ 31"
  shows "\<exists>s'. insert_filter flt s = Some s' \<and> compile_state t0 (fs @ [flt]) s'"
proof -
  obtain t g R where s': "s = (t, g, R)" by (cases s)
  note S = s [unfolded compile_state_def s' prod.case]
  let ?F = "filter_covers TYPE('a) flt"
  have "length (tr_chunks t) + depth TYPE('a) * length flt \<le> 2 ^ 31" using S room by (simp add: distrib_left)
  then obtain t' g' R' where ins: "insert_filter flt (t, g, R) = Some (t', g', R')" and I: "tree_ok t'" "arena.more t' = arena.more t"
     "length (tr_chunks t') \<le> length (tr_chunks t) + depth TYPE('a) * length flt" "unat g \<le> unat g'"
     "unat g' \<le> unat g + card {unat (group_at t p) | p. ?F p}" "\<forall>p. unat (group_at t' p) < unat g'"
     "\<forall>p q. group_at t' p = group_at t' q \<longleftrightarrow> (?F p = ?F q \<and> group_at t p = group_at t q)"
     "\<forall>p. group_at t' p = 0 \<longleftrightarrow> \<not> ?F p \<and> group_at t p = 0"
    using insert_filter_effect [OF w gf, of t g R] S count by auto
  let ?A = "{x :: 'a word. filter_match flt x}"
  have "{unat (group_at t p) | p. ?F p} = (\<lambda>x. unat (group_at t (path_of x))) ` ?A"
  proof (intro equalityI subsetI)
    fix k assume "k \<in> {unat (group_at t p) | p. ?F p}"
    then obtain p where p: "k = unat (group_at t p)" "?F p" by blast
    obtain x :: "'a word" where "group_at t p = group_at t (path_of x)" "?F p = ?F (path_of x)" using path_exists [OF w, of p] by blast
    then show "k \<in> (\<lambda>x. unat (group_at t (path_of x))) ` ?A" using p filter_covers_path [OF w gf] by auto
  qed (use filter_covers_path [OF w gf] in auto)
  moreover have "card ((\<lambda>x. unat (group_at t (path_of x))) ` ?A) \<le> card (signature fs ` ?A)"
  proof (rule card_image_factor)
    fix x y :: "'a word" assume "signature fs x = signature fs y"
    then have "filter_match h x = filter_match h y" if "h \<in> set fs" for h using that by (auto simp: signature_def)
    then have "\<forall>h \<in> set fs. filter_covers TYPE('a) h (path_of x) = filter_covers TYPE('a) h (path_of y)" using gfs filter_covers_path [OF w] by blast
    then have "group_at t (path_of x) = group_at t (path_of y)" using S by blast
    then show "unat (group_at t (path_of x)) = unat (group_at t (path_of y))" by simp
  qed simp
  ultimately have "unat g' \<le> class_count TYPE('a) (fs @ [flt])" using I(5) S unfolding class_count_snoc by simp
  moreover have "\<forall>p q. group_at t' p = group_at t' q \<longleftrightarrow> (\<forall>flt \<in> set (fs @ [flt]). filter_covers TYPE('a) flt p = filter_covers TYPE('a) flt q)"
    using I(7) S by auto
  moreover have "\<forall>p. group_at t' p = 0 \<longleftrightarrow> (\<forall>flt \<in> set (fs @ [flt]). \<not> filter_covers TYPE('a) flt p)" using I(8) S by auto
  ultimately have "compile_state t0 (fs @ [flt]) (t', g', R')"
    using I(1-4,6) S by (simp add: compile_state_def distrib_left)
  then show ?thesis using ins s' by blast
qed

lemma class_count_mono: "class_count TYPE('a::len) fs \<le> class_count TYPE('a) (fs @ gs)"
proof (induction gs rule: rev_induct)
  case (snoc g gs)
  then show ?case using class_count_snoc [where ?'a = 'a, of "fs @ gs" g] by simp
qed simp

lemma compile_state_fold:
  fixes t0 :: "'a::len word tree"
  assumes w: "whole_bytes TYPE('a)" and "\<forall>flt \<in> set (fs @ gs). list_all (gap_free TYPE('a)) flt"
    and "compile_state t0 fs s" and "class_count TYPE('a) (fs @ gs) \<le> 2 ^ 30"
    and "length (tr_chunks t0) + depth TYPE('a) * sum_list (map length (fs @ gs)) \<le> 2 ^ 31"
  shows "\<exists>s'. fold (\<lambda>flt os. Option.bind os (insert_filter flt)) gs (Some s) = Some s' \<and> compile_state t0 (fs @ gs) s'"
  using assms(2-)
proof (induction gs arbitrary: fs s)
  case (Cons flt gs)
  have "class_count TYPE('a) fs \<le> 2 ^ 30" using Cons.prems(3) class_count_mono [of fs "flt # gs"] by (rule order_trans [rotated])
  moreover have "length (tr_chunks t0) + depth TYPE('a) * sum_list (map length (fs @ [flt])) \<le> 2 ^ 31"
  proof -
    have "depth TYPE('a) * sum_list (map length (fs @ [flt])) \<le> depth TYPE('a) * sum_list (map length (fs @ flt # gs))" by (intro mult_le_mono2) simp
    then show ?thesis using Cons.prems(4) by linarith
  qed
  moreover have "\<forall>flt \<in> set fs. list_all (gap_free TYPE('a)) flt" "list_all (gap_free TYPE('a)) flt" using Cons.prems(1) by simp_all
  ultimately obtain s1 where "insert_filter flt s = Some s1" "compile_state t0 (fs @ [flt]) s1"
    using compile_state_step [OF w _ _ Cons.prems(2)] by blast
  then show ?case using Cons.IH [of "fs @ [flt]" s1] Cons.prems(1,3,4) by auto
qed auto

end
