(* ===== verification/AclNetworkCorrect.thy ===== *)
theory AclNetworkCorrect
  imports AclNetworkGroups
begin

text \<open>
  The whole compilation of the network filters: after it, the group of an address is one of the groups of a
  filter exactly if the address matches the filter.
\<close>

section \<open>The groups of a filter\<close>

lemma or_bitmask_effect:
  assumes "length a = length b"
  shows "length (or_bitmask a b) = length b" "bits (or_bitmask a b) = bits a \<union> bits b"
  using assms by (auto simp: or_bitmask_def bits_def or_eq_0_iff)

definition covered_groups :: "'a::len word tree \<Rightarrow> 'a word \<Rightarrow> 'a word \<Rightarrow> nat set" where
  "covered_groups t a m = {unat (group_at t p) | p. covers a m p}"

definition cache_ok :: "'a::len word tree \<Rightarrow> nat \<Rightarrow> bool" where
  "cache_ok t G \<longleftrightarrow> map_ok (saved_group_ids t) \<and> (\<forall>a m b. map_of (saved_group_ids t) (a, m) = Some b \<longrightarrow> length b = G \<and> bits b = covered_groups t a m)"

lemma saved_simps [simp]:
  "chunk_at (t\<lparr>saved_group_ids := c\<rparr>) = chunk_at t" "group_at (t\<lparr>saved_group_ids := c\<rparr>) = group_at (t :: 'a::len word tree)"
  "tree_ok (t\<lparr>saved_group_ids := c\<rparr>) = tree_ok (t :: 'a::len word tree)" "covered_groups (t\<lparr>saved_group_ids := c\<rparr>) = covered_groups (t :: 'a::len word tree)"
proof -
  show c: "chunk_at (t\<lparr>saved_group_ids := c\<rparr>) = chunk_at t" for t :: "'b tree" and c by (simp add: chunk_at_def fun_eq_iff)
  show g: "group_at (t\<lparr>saved_group_ids := c\<rparr>) = group_at t" for t :: "'a word tree" and c by (simp add: group_at_def fun_eq_iff c)
  show "tree_ok (t\<lparr>saved_group_ids := c\<rparr>) = tree_ok t" for t :: "'a word tree" by (simp add: tree_ok_def c)
  show "covered_groups (t\<lparr>saved_group_ids := c\<rparr>) = covered_groups t" for t :: "'a word tree" by (simp add: covered_groups_def fun_eq_iff g)
qed

lemma tree_get_effect:
  fixes t :: "'a::len word tree"
  assumes w: "whole_bytes TYPE('a)" and m: "\<not> is_mask_gapped m" and ok: "tree_ok t" and c: "cache_ok t (length b)" and fit: "\<And>p. unat (group_at t p) < length b"
  shows "\<exists>c' b'. tree_get a m (t, b) = Some (t\<lparr>saved_group_ids := c'\<rparr>, b') \<and> length b' = length b \<and> bits b' = bits b \<union> covered_groups t a m \<and>
     cache_ok (t\<lparr>saved_group_ids := c'\<rparr>) (length b)"
proof (cases "map_of (saved_group_ids t) (a, m)")
  case (Some d)
  then have d: "length d = length b" "bits d = covered_groups t a m" using c by (auto simp: cache_ok_def)
  show ?thesis
    using Some c d or_bitmask_effect [of b d] by (intro exI [of _ "saved_group_ids t"] exI [of _ "or_bitmask b d"]) (simp add: tree_get.simps)
next
  case None
  have ord: "orderly (depth TYPE('a)) (chunk_at t) 0" using ok by (simp add: tree_ok_def)
  let ?e = "replicate (length b) 0 :: u8 list"
  have e: "bits ?e = {}" by (auto simp: bits_def)
  obtain d where d: "get_step a m t 0 ?e = Some d" "length d = length b" "bits d = covered_groups t a m"
    using get_step_effect [OF m ord whole_bytesD(2) [OF w], of ?e a] fit e by (auto simp: group_at_def covered_groups_def)
  let ?c = "map_emplace (a, m) d (saved_group_ids t)"
  have "cache_ok (t\<lparr>saved_group_ids := ?c\<rparr>) (length b)" using c None d by (auto simp: cache_ok_def map_of_emplace)
  moreover have "tree_get a m (t, b) = Some (t\<lparr>saved_group_ids := ?c\<rparr>, or_bitmask b d)" using None m d by (simp add: tree_get.simps)
  ultimately show ?thesis using d or_bitmask_effect [of b d] by (intro exI [of _ ?c] exI [of _ "or_bitmask b d"]) simp
qed

lemma get_networks_effect:
  fixes t :: "'a::len word tree"
  assumes w: "whole_bytes TYPE('a)" and "list_all (gap_free TYPE('a)) ns" and "tree_ok t" and "cache_ok t (length b)" and "\<And>p. unat (group_at t p) < length b"
  shows "\<exists>c' b'. get_networks ns (t, b) = Some (t\<lparr>saved_group_ids := c'\<rparr>, b') \<and> length b' = length b \<and>
     bits b' = bits b \<union> {unat (group_at t p) | p. filter_covers TYPE('a) ns p} \<and> cache_ok (t\<lparr>saved_group_ids := c'\<rparr>) (length b)"
  using assms(2-)
proof (induction ns arbitrary: t b)
  case Nil
  then show ?case by (intro exI [of _ "saved_group_ids t"] exI [of _ b]) (simp add: get_networks_def filter_covers_def)
next
  case (Cons n ns)
  let ?a = "ucast (net_addr n) :: 'a word" let ?m = "ucast (net_mask n) :: 'a word"
  have "\<not> is_mask_gapped ?m" using Cons.prems(1) by (simp add: gap_free_def)
  then obtain c1 b1 where g: "tree_get ?a ?m (t, b) = Some (t\<lparr>saved_group_ids := c1\<rparr>, b1)" and b1: "length b1 = length b" "bits b1 = bits b \<union> covered_groups t ?a ?m"
    and k1: "cache_ok (t\<lparr>saved_group_ids := c1\<rparr>) (length b)"
    using tree_get_effect [OF w _ Cons.prems(2,3,4)] by blast
  obtain c' b' where "get_networks ns (t\<lparr>saved_group_ids := c1\<rparr>, b1) = Some (t\<lparr>saved_group_ids := c'\<rparr>, b')" "length b' = length b"
     "bits b' = bits b1 \<union> {unat (group_at t p) | p. filter_covers TYPE('a) ns p}" "cache_ok (t\<lparr>saved_group_ids := c'\<rparr>) (length b)"
    using Cons.IH [of "t\<lparr>saved_group_ids := c1\<rparr>" b1] Cons.prems k1 b1(1) by auto
  moreover have "covered_groups t ?a ?m \<union> {unat (group_at t p) | p. filter_covers TYPE('a) ns p} = {unat (group_at t p) | p. filter_covers TYPE('a) (n # ns) p}"
    by (auto simp: covered_groups_def filter_covers_def net_covers_def)
  ultimately show ?case using g b1(2) by (intro exI [of _ c'] exI [of _ b']) (auto simp: get_networks_def Un_assoc)
qed

lemma set_bitmask_groups:
  assumes "length b \<le> 2 ^ 32"
  shows "set (bitmask_groups b) = {g. unat g \<in> bits b}"
proof (intro equalityI subsetI)
  fix g assume "g \<in> set (bitmask_groups b)"
  then obtain i where "i < length b" "b ! i \<noteq> 0" "g = of_nat i" by (auto simp: bitmask_groups_def)
  then show "g \<in> {g. unat g \<in> bits b}" using assms by (auto simp: bits_def unat_of_nat_small)
next
  fix g :: u32 assume "g \<in> {g. unat g \<in> bits b}"
  then have "unat g \<in> set (filter (\<lambda>i. b ! i \<noteq> 0) [0..<length b])" by (auto simp: bits_def)
  then have "of_nat (unat g) \<in> set (bitmask_groups b)" unfolding bitmask_groups_def set_map by (rule imageI)
  then show "g \<in> set (bitmask_groups b)" by simp
qed

lemma fold_emplace_once:
  assumes "map_ok m"
  shows "map_ok (fold (\<lambda>g. map_emplace g v) gs m)" "map_of (fold (\<lambda>g. map_emplace g v) gs m) g = (case map_of m g of Some b \<Rightarrow> Some b | None \<Rightarrow> if g \<in> set gs then Some v else None)"
  using assms by (induction gs arbitrary: m) (auto simp: map_of_emplace split: option.splits)

text \<open>
  The state after the first \<open>j\<close> filters have been populated: each has its groups, and the groups have
  empty sets of filters in the reverse map.
\<close>

definition filter_groups :: "'a::len word tree \<Rightarrow> net_filter \<Rightarrow> u32 set" where
  "filter_groups t flt = {group_at t p | p. filter_covers TYPE('a) flt p}"

definition populated :: "nat \<Rightarrow> 'a::len word acl_network \<Rightarrow> 'a word acl_network \<Rightarrow> bool" where
  "populated j s0 s \<longleftrightarrow>
     nc_filters s = nc_filters s0 \<and> nc_filter_ids s = nc_filter_ids s0 \<and> nc_group_id s = nc_group_id s0 \<and> nc_map s = nc_map s0 \<and>
     nc_reverse_map_next s = nc_reverse_map_next s0 \<and>
     nc_tree s = (nc_tree s0)\<lparr>saved_group_ids := saved_group_ids (nc_tree s)\<rparr> \<and> cache_ok (nc_tree s) (unat (nc_group_id s0)) \<and>
     length (nc_filter_group_ids s) = length (nc_filters s0) \<and>
     (\<forall>i < length (nc_filters s0). set (nc_filter_group_ids s ! i) = (if i < j then filter_groups (nc_tree s0) (nc_filters s0 ! i) else {})) \<and>
     map_ok (nc_reverse_map s) \<and>
     (\<forall>g. map_of (nc_reverse_map s) g = (if \<exists>i < j. g \<in> filter_groups (nc_tree s0) (nc_filters s0 ! i) then Some (bitset_new (length (nc_filters s0))) else None))"

definition compiled_net :: "'a::len word acl_network \<Rightarrow> bool" where
  "compiled_net s \<longleftrightarrow> whole_bytes TYPE('a) \<and> tree_ok (nc_tree s) \<and> (\<forall>flt \<in> set (nc_filters s). list_all (gap_free TYPE('a)) flt) \<and>
     0 < unat (nc_group_id s) \<and> (\<forall>p. unat (group_at (nc_tree s) p) < unat (nc_group_id s)) \<and>
     (\<forall>p q. group_at (nc_tree s) p = group_at (nc_tree s) q \<longleftrightarrow> (\<forall>flt \<in> set (nc_filters s). filter_covers TYPE('a) flt p = filter_covers TYPE('a) flt q)) \<and>
     (\<forall>p. group_at (nc_tree s) p = 0 \<longleftrightarrow> (\<forall>flt \<in> set (nc_filters s). \<not> filter_covers TYPE('a) flt p))"

lemma populate_filter_effect:
  fixes s0 :: "'a::len word acl_network"
  assumes c: "compiled_net s0" and s: "populated j s0 s" and j: "j < length (nc_filters s0)"
  shows "\<exists>s'. populate_filter j s = Some s' \<and> populated (Suc j) s0 s'"
proof -
  let ?t0 = "nc_tree s0" let ?G = "unat (nc_group_id s0)" let ?F = "nc_filters s0 ! j" let ?n = "length (nc_filters s0)"
  note S = s [unfolded populated_def]
  have fields: "nc_filters s = nc_filters s0" "nc_group_id s = nc_group_id s0" using S by blast+
  obtain c0 where t0: "nc_tree s = ?t0\<lparr>saved_group_ids := c0\<rparr>" using S by blast
  have t: "tree_ok (nc_tree s)" "group_at (nc_tree s) = group_at ?t0" using c by (simp_all add: t0 compiled_net_def)
  have "list_all (gap_free TYPE('a)) ?F" "whole_bytes TYPE('a)" using c j by (auto simp: compiled_net_def)
  then obtain c' b' where g: "get_networks ?F (nc_tree s, replicate ?G 0) = Some ((nc_tree s)\<lparr>saved_group_ids := c'\<rparr>, b')" and b': "length b' = ?G"
     "bits b' = bits (replicate ?G 0) \<union> {unat (group_at ?t0 p) | p. filter_covers TYPE('a) ?F p}" and c': "cache_ok ((nc_tree s)\<lparr>saved_group_ids := c'\<rparr>) ?G"
    using get_networks_effect [of ?F "nc_tree s" "replicate ?G 0"] S c t by (auto simp: compiled_net_def)
  have "length b' \<le> 2 ^ 32" using unsigned_less [of "nc_group_id s0", where ?'a = nat] b'(1) by simp
  then have gs: "set (bitmask_groups b') = filter_groups ?t0 ?F"
    using b'(2) by (auto simp: set_bitmask_groups filter_groups_def bits_def word_unat_eq_iff)
  let ?gs = "bitmask_groups b'" and ?v = "bitset_new ?n"
  define s' where "s' = s\<lparr>nc_tree := (nc_tree s)\<lparr>saved_group_ids := c'\<rparr>, nc_bitmask := b',
     nc_filter_group_ids := (nc_filter_group_ids s)[j := nc_filter_group_ids s ! j @ ?gs], nc_reverse_map := fold (\<lambda>g. map_emplace g ?v) ?gs (nc_reverse_map s)\<rparr>"
  have "populate_filter j s = Some s'" using g j S by (simp add: populate_filter_def fields s'_def)
  moreover have "nc_tree s' = ?t0\<lparr>saved_group_ids := saved_group_ids (nc_tree s')\<rparr>"
    by (simp add: s'_def t0)
  moreover have "set (nc_filter_group_ids s' ! i) = (if i < Suc j then filter_groups ?t0 (nc_filters s0 ! i) else {})" if "i < ?n" for i
    using S that gs j by (auto simp: s'_def nth_list_update less_Suc_eq)
  moreover have "map_ok (nc_reverse_map s')" using fold_emplace_once(1) [of "nc_reverse_map s"] S by (simp add: s'_def)
  moreover have "map_of (nc_reverse_map s') g = (if \<exists>i < Suc j. g \<in> filter_groups ?t0 (nc_filters s0 ! i) then Some ?v else None)" for g
    using fold_emplace_once(2) [of "nc_reverse_map s" ?v ?gs g] S gs by (auto simp: s'_def less_Suc_eq)
  ultimately show ?thesis using c' S by (auto simp: populated_def s'_def)
qed

lemma network_populate_effect:
  fixes s0 :: "'a::len word acl_network"
  assumes c: "compiled_net s0" and "saved_group_ids (nc_tree s0) = []" and "nc_filter_group_ids s0 = replicate (length (nc_filters s0)) []" and "nc_reverse_map s0 = []"
  shows "\<exists>s. network_populate s0 = Some s \<and> populated (length (nc_filters s0)) s0 s"
proof -
  have "populated 0 s0 s0" using assms by (auto simp: populated_def cache_ok_def)
  then have "\<exists>s. fold (\<lambda>filter_id os. Option.bind os (populate_filter filter_id)) [0..<j] (Some s0) = Some s \<and> populated j s0 s" if "j \<le> length (nc_filters s0)" for j
    using that
  proof (induction j)
    case (Suc j)
    then obtain s where "fold (\<lambda>filter_id os. Option.bind os (populate_filter filter_id)) [0..<j] (Some s0) = Some s" "populated j s0 s" by auto
    then show ?case using populate_filter_effect [OF c, of j s] Suc.prems(2) by auto
  qed auto
  then show ?thesis unfolding network_populate_def by blast
qed

section \<open>The filters of a group\<close>

definition rev_ok :: "nat \<Rightarrow> (u32 \<Rightarrow> nat set) \<Rightarrow> (u32, bitset) std_map \<Rightarrow> bool" where
  "rev_ok n f m \<longleftrightarrow> map_ok m \<and> (\<forall>g b. map_of m g = Some b \<longrightarrow> bitset_ok b \<and> bs_size b = (n + 63) div 64 \<and> members b = f g)"

lemma reverse_insert_effect:
  assumes m: "rev_ok n f m" and g: "g \<in> dom (map_of m)" and i: "i < n"
  shows "\<exists>m'. reverse_insert i g m = Some m' \<and> rev_ok n (f(g := insert i (f g))) m' \<and> dom (map_of m') = dom (map_of m)"
proof -
  obtain b where b: "map_of m g = Some b" using g by blast
  then have bo: "bitset_ok b" "bs_size b = (n + 63) div 64" "members b = f g" and mo: "map_ok m" using m by (auto simp: rev_ok_def)
  have "i div 64 < bs_size b" unfolding bo(2) using i by simp
  then obtain b' where b': "bitset_insert i b = Some b'" "bitset_ok b'" "bs_size b' = bs_size b" "members b' = insert i (members b)"
    using bitset_insert_effect [OF bo(1)] by blast
  have mp: "map_of (map_assign g b' m) = (map_of m)(g \<mapsto> b')" using mo by (rule map_of_assign)
  have "rev_ok n (f(g := insert i (f g))) (map_assign g b' m)" using m b' bo mo unfolding rev_ok_def mp by auto
  moreover have "dom (map_of (map_assign g b' m)) = dom (map_of m)" unfolding mp using g by auto
  ultimately show ?thesis using b b'(1) by (simp add: reverse_insert_def)
qed

lemma reverse_fold_effect:
  assumes "rev_ok n f m" and "set groups \<subseteq> dom (map_of m)" and "i < n"
  shows "\<exists>m'. fold (\<lambda>g om. Option.bind om (reverse_insert i g)) groups (Some m) = Some m' \<and>
     rev_ok n (\<lambda>g. f g \<union> (if g \<in> set groups then {i} else {})) m' \<and> dom (map_of m') = dom (map_of m)"
  using assms(1,2)
proof (induction groups arbitrary: f m)
  case (Cons g groups)
  obtain m1 where m1: "reverse_insert i g m = Some m1" "rev_ok n (f(g := insert i (f g))) m1" "dom (map_of m1) = dom (map_of m)"
    using reverse_insert_effect [OF Cons.prems(1) _ assms(3), of g] Cons.prems(2) by auto
  obtain m' where m': "fold (\<lambda>g om. Option.bind om (reverse_insert i g)) groups (Some m1) = Some m'"
     "rev_ok n (\<lambda>h. (f(g := insert i (f g))) h \<union> (if h \<in> set groups then {i} else {})) m'" "dom (map_of m') = dom (map_of m1)"
    using Cons.IH [OF m1(2)] m1(3) Cons.prems(2) by auto
  have "(\<lambda>h. (f(g := insert i (f g))) h \<union> (if h \<in> set groups then {i} else {})) = (\<lambda>h. f h \<union> (if h \<in> set (g # groups) then {i} else {}))"
    by (auto simp: fun_eq_iff)
  then show ?case using m1 m' by (intro exI [of _ m']) simp
qed auto

lemma reverse_groups_effect:
  assumes "rev_ok n f m" and "\<forall>groups \<in> set gs. set groups \<subseteq> dom (map_of m)" and "k + length gs \<le> n"
  shows "\<exists>m'. fold (\<lambda>(filter_id, groups) om. Option.bind om (\<lambda>m. fold (\<lambda>g om. Option.bind om (reverse_insert filter_id g)) groups (Some m)))
       (enumerate k gs) (Some m) = Some m' \<and>
     rev_ok n (\<lambda>g. f g \<union> {k + i | i. i < length gs \<and> g \<in> set (gs ! i)}) m' \<and> dom (map_of m') = dom (map_of m)"
  using assms
proof (induction gs arbitrary: k f m)
  case (Cons groups gs)
  obtain m1 where m1: "fold (\<lambda>g om. Option.bind om (reverse_insert k g)) groups (Some m) = Some m1"
     "rev_ok n (\<lambda>g. f g \<union> (if g \<in> set groups then {k} else {})) m1" "dom (map_of m1) = dom (map_of m)"
    using reverse_fold_effect [OF Cons.prems(1), of groups k] Cons.prems(2,3) by auto
  obtain m' where m': "fold (\<lambda>(filter_id, groups) om. Option.bind om (\<lambda>m. fold (\<lambda>g om. Option.bind om (reverse_insert filter_id g)) groups (Some m)))
       (enumerate (Suc k) gs) (Some m1) = Some m'"
     "rev_ok n (\<lambda>g. (f g \<union> (if g \<in> set groups then {k} else {})) \<union> {Suc k + i | i. i < length gs \<and> g \<in> set (gs ! i)}) m'" "dom (map_of m') = dom (map_of m1)"
    using Cons.IH [OF m1(2), of "Suc k"] m1(3) Cons.prems(2,3) by auto
  have "{k + i | i. i < length (groups # gs) \<and> g \<in> set ((groups # gs) ! i)} =
      (if g \<in> set groups then {k} else {}) \<union> {Suc k + i | i. i < length gs \<and> g \<in> set (gs ! i)}" for g
  proof (intro set_eqI iffI)
    fix x assume "x \<in> {k + i | i. i < length (groups # gs) \<and> g \<in> set ((groups # gs) ! i)}"
    then obtain i where i: "x = k + i" "i < length (groups # gs)" "g \<in> set ((groups # gs) ! i)" by blast
    then show "x \<in> (if g \<in> set groups then {k} else {}) \<union> {Suc k + i | i. i < length gs \<and> g \<in> set (gs ! i)}" by (cases i) auto
  next
    fix x assume "x \<in> (if g \<in> set groups then {k} else {}) \<union> {Suc k + i | i. i < length gs \<and> g \<in> set (gs ! i)}"
    then consider "x = k + 0" "g \<in> set ((groups # gs) ! 0)" | i where "x = k + Suc i" "Suc i < length (groups # gs)" "g \<in> set ((groups # gs) ! Suc i)"
      by (auto split: if_splits)
    then show "x \<in> {k + i | i. i < length (groups # gs) \<and> g \<in> set ((groups # gs) ! i)}" by cases (blast intro: exI [of _ 0], blast)
  qed
  then show ?case using m1 m' by (intro exI [of _ m']) (simp add: Un_assoc)
qed (auto simp: rev_ok_def)

section \<open>The new groups\<close>

text \<open>After the entries \<open>E\<close> of the reverse map: equal sets of filters have equal new groups.\<close>

definition assigned :: "nat \<Rightarrow> u32 \<Rightarrow> (u32 \<times> bitset) set \<Rightarrow> assign_state \<Rightarrow> bool" where
  "assigned G shared E s \<longleftrightarrow> (case s of (R, known, next_id, collisions) \<Rightarrow>
     length R = G \<and> unat shared \<le> unat next_id \<and> unat next_id \<le> unat shared + card E \<and> (\<forall>b g. (b, g) \<in> set known \<longrightarrow> (g, b) \<in> E) \<and>
     (\<forall>g b. (g, b) \<in> E \<longrightarrow> (\<exists>c h. (c, h) \<in> set known \<and> members c = members b)) \<and>
     (\<forall>g b. (g, b) \<in> E \<longrightarrow> unat shared \<le> unat (R ! unat g) \<and> unat (R ! unat g) < unat next_id) \<and>
     (\<forall>g b h c. (g, b) \<in> E \<longrightarrow> (h, c) \<in> E \<longrightarrow> (R ! unat g = R ! unat h \<longleftrightarrow> members b = members c)) \<and>
     (\<forall>k < G. (\<forall>g b. (g, b) \<in> E \<longrightarrow> unat g \<noteq> k) \<longrightarrow> R ! k = 0) \<and> (E \<noteq> {} \<longrightarrow> (\<exists>g b. (g, b) \<in> E \<and> R ! unat g = shared)))"

lemma assignedI:
  assumes "length R = G" and "unat shared \<le> unat next_id" and "unat next_id \<le> unat shared + card E"
    and "\<And>b g. (b, g) \<in> set known \<Longrightarrow> (g, b) \<in> E" and "\<And>g b. (g, b) \<in> E \<Longrightarrow> \<exists>c h. (c, h) \<in> set known \<and> members c = members b"
    and "\<And>g b. (g, b) \<in> E \<Longrightarrow> unat shared \<le> unat (R ! unat g) \<and> unat (R ! unat g) < unat next_id"
    and "\<And>g b h c. (g, b) \<in> E \<Longrightarrow> (h, c) \<in> E \<Longrightarrow> R ! unat g = R ! unat h \<longleftrightarrow> members b = members c"
    and "\<And>k. k < G \<Longrightarrow> (\<And>g b. (g, b) \<in> E \<Longrightarrow> unat g \<noteq> k) \<Longrightarrow> R ! k = 0"
    and "E \<noteq> {} \<Longrightarrow> \<exists>g b. (g, b) \<in> E \<and> R ! unat g = shared"
  shows "assigned G shared E (R, known, next_id, collisions)"
  unfolding assigned_def prod.case using assms by (intro conjI allI impI) blast+

lemma assign_group_step:
  assumes s: "assigned G shared E s" and fin: "finite E" and g: "unat g < G" and fresh: "\<And>h c. (h, c) \<in> E \<Longrightarrow> h \<noteq> g"
    and E: "\<And>h c. (h, c) \<in> E \<Longrightarrow> unat h < G \<and> bitset_ok c \<and> bs_size c = N" and b: "bitset_ok b" "bs_size b = N"
    and room: "unat shared + card E < 2 ^ 32 - 1"
  shows "\<exists>s'. assign_group (g, b) s = Some s' \<and> assigned G shared (insert (g, b) E) s'"
proof -
  obtain R known next_id collisions where s': "s = (R, known, next_id, collisions)" by (cases s)
  note A = s [unfolded assigned_def s' prod.case]
  have len: "length R = G" and nid: "unat shared \<le> unat next_id" "unat next_id \<le> unat shared + card E" using A by blast+
  have kn: "(h, c) \<in> E" if "(c, h) \<in> set known" for c h using A that by blast
  have kn': "\<exists>c h. (c, h) \<in> set known \<and> members c = members d" if "(k, d) \<in> E" for k d using A that by blast
  have rng: "unat shared \<le> unat (R ! unat h) \<and> unat (R ! unat h) < unat next_id" if "(h, c) \<in> E" for h c using A that by blast
  have eqv: "R ! unat h = R ! unat k \<longleftrightarrow> members c = members d" if "(h, c) \<in> E" "(k, d) \<in> E" for h c k d using A that by blast
  have zero: "R ! k = 0" if "k < G" "\<And>h c. (h, c) \<in> E \<Longrightarrow> unat h \<noteq> k" for k using A that by blast
  have fst: "\<exists>h c. (h, c) \<in> E \<and> R ! unat h = shared" if "E \<noteq> {}" using A that by blast
  have new: "(g, b) \<notin> E" using fresh by blast
  have card: "card (insert (g, b) E) = Suc (card E)" using new fin by simp
  have upd: "(R[unat g := v]) ! unat h = R ! unat h" if "(h, c) \<in> E" for h c v using fresh [OF that] by (simp add: word_unat_eq_iff)
  have cmp: "bitset_eq c b \<longleftrightarrow> members c = members b" if "(c, h) \<in> set known" for c h
    using E [OF kn [OF that]] b by (intro bitset_eq_correct) auto
  show ?thesis
  proof (cases "List.find (\<lambda>(c, _). bitset_eq c b) known")
    case None
    then have "\<not> bitset_eq c b" if "(c, h) \<in> set known" for c h using that by (auto simp: find_None_iff)
    then have diff: "members c \<noteq> members b" if "(h, c) \<in> E" for h c using kn' [OF that] cmp by metis
    let ?R = "R[unat g := next_id]"
    have nw: "?R ! unat g = next_id" using g len by simp
    have u: "unat (next_id + 1) = Suc (unat next_id)" using nid(2) room by (simp add: unat_word_ariths)
    have st: "assign_group (g, b) s = Some (?R, (b, g) # known, next_id + 1, collisions)" using None g len by (simp add: assign_group_def s')
    have "assigned G shared (insert (g, b) E) (?R, (b, g) # known, next_id + 1, collisions)"
    proof (rule assignedI)
      fix k d assume "(k, d) \<in> insert (g, b) E"
      then show "\<exists>c h. (c, h) \<in> set ((b, g) # known) \<and> members c = members d" using kn' [of k d] by auto
      show "unat shared \<le> unat (?R ! unat k) \<and> unat (?R ! unat k) < unat (next_id + 1)"
        using \<open>(k, d) \<in> insert (g, b) E\<close> nw u nid(1) upd rng [of k d] by auto
      fix h c assume "(h, c) \<in> insert (g, b) E"
      have out: "next_id \<noteq> R ! unat x" if "(x, y) \<in> E" for x y using rng [OF that] by auto
      show "?R ! unat k = ?R ! unat h \<longleftrightarrow> members d = members c"
        using \<open>(k, d) \<in> insert (g, b) E\<close> \<open>(h, c) \<in> insert (g, b) E\<close> nw upd eqv diff out by (metis insert_iff prod.inject)
    next
      show "\<exists>h c. (h, c) \<in> insert (g, b) E \<and> ?R ! unat h = shared"
      proof (cases "E = {}")
        case True
        then have "next_id = shared" using nid by (simp add: word_unat_eq_iff)
        then show ?thesis using nw by blast
      qed (use fst upd in blast)
    next
      fix k assume "k < G" and none: "\<And>h c. (h, c) \<in> insert (g, b) E \<Longrightarrow> unat h \<noteq> k"
      then have "R ! k = 0" by (intro zero) auto
      then show "?R ! k = 0" using none [of g b] by simp
    qed (use len nid u card kn in auto)
    then show ?thesis using st by blast
  next
    case (Some ch)
    obtain c h where ch: "ch = (c, h)" by (cases ch)
    have k: "(c, h) \<in> set known" and "bitset_eq c b" using Some by (auto simp: find_Some_iff ch) (metis nth_mem)
    then have mem: "members c = members b" using cmp by blast
    have hE: "(h, c) \<in> E" using kn [OF k] .
    let ?R = "R[unat g := R ! unat h]"
    have nw: "?R ! unat g = R ! unat h" using g len by simp
    have st: "assign_group (g, b) s = Some (?R, known, next_id, collisions + 1)" using Some g len E [OF hE] by (simp add: assign_group_def s' ch)
    have "assigned G shared (insert (g, b) E) (?R, known, next_id, collisions + 1)"
    proof (rule assignedI)
      fix k d assume "(k, d) \<in> insert (g, b) E"
      then show "\<exists>c h. (c, h) \<in> set known \<and> members c = members d" using kn' [of k d] k mem by auto
      show "unat shared \<le> unat (?R ! unat k) \<and> unat (?R ! unat k) < unat next_id"
        using \<open>(k, d) \<in> insert (g, b) E\<close> nw upd rng [of k d] rng [OF hE] by auto
      fix j e assume "(j, e) \<in> insert (g, b) E"
      then show "?R ! unat k = ?R ! unat j \<longleftrightarrow> members d = members e"
        using \<open>(k, d) \<in> insert (g, b) E\<close> nw upd eqv hE mem by (metis insert_iff prod.inject)
    next
      show "\<exists>j e. (j, e) \<in> insert (g, b) E \<and> ?R ! unat j = shared" using fst upd hE by blast
    next
      fix k assume "k < G" and none: "\<And>h c. (h, c) \<in> insert (g, b) E \<Longrightarrow> unat h \<noteq> k"
      then have "R ! k = 0" by (intro zero) auto
      then show "?R ! k = 0" using none [of g b] by simp
    qed (use len nid card kn in auto)
    then show ?thesis using st by blast
  qed
qed

lemma assign_groups_fold:
  assumes "assigned G shared E s" and "finite E" and "map_ok es" and "\<And>h c g b. (h, c) \<in> E \<Longrightarrow> (g, b) \<in> set es \<Longrightarrow> h \<noteq> g"
    and "\<And>h c. (h, c) \<in> E \<union> set es \<Longrightarrow> unat h < G \<and> bitset_ok c \<and> bs_size c = N" and "unat shared + card E + length es < 2 ^ 32 - 1"
  shows "\<exists>s'. fold (\<lambda>e os. Option.bind os (assign_group e)) es (Some s) = Some s' \<and> assigned G shared (E \<union> set es) s'"
  using assms
proof (induction es arbitrary: E s)
  case (Cons e es)
  obtain g b where e: "e = (g, b)" by (cases e)
  have "\<exists>s1. assign_group (g, b) s = Some s1 \<and> assigned G shared (insert (g, b) E) s1"
  proof (rule assign_group_step [OF Cons.prems(1,2)])
    show "unat g < G" "bitset_ok b" "bs_size b = N" using Cons.prems(5) [of g b] e by auto
    show "unat shared + card E < 2 ^ 32 - 1" using Cons.prems(6) by simp
    show "h \<noteq> g" if "(h, c) \<in> E" for h c using Cons.prems(4) [OF that, of g b] e by simp
    show "unat h < G \<and> bitset_ok c \<and> bs_size c = N" if "(h, c) \<in> E" for h c using Cons.prems(5) [of h c] that by simp
  qed
  then obtain s1 where s1: "assign_group (g, b) s = Some s1" "assigned G shared (insert (g, b) E) s1" by blast
  have "card (insert (g, b) E) \<le> Suc (card E)" by (rule card_insert_le_m1) auto
  then have "unat shared + card (insert (g, b) E) + length es < 2 ^ 32 - 1" using Cons.prems(6) by simp
  moreover have "h \<noteq> k" if "(h, c) \<in> insert (g, b) E" "(k, d) \<in> set es" for h c k d
    using that Cons.prems(3) Cons.prems(4) [of h c k d] e by auto
  ultimately have "\<exists>s'. fold (\<lambda>e os. Option.bind os (assign_group e)) es (Some s1) = Some s' \<and> assigned G shared (insert (g, b) E \<union> set es) s'"
  proof (intro Cons.IH [OF s1(2)])
    show "finite (insert (g, b) E)" "map_ok es" using Cons.prems(2,3) by simp_all
    show "unat h < G \<and> bitset_ok c \<and> bs_size c = N" if "(h, c) \<in> insert (g, b) E \<union> set es" for h c
      using Cons.prems(5) [of h c] that e by auto
  qed blast+
  then show ?case using s1(1) e by simp
qed auto

definition same_filters :: "'a::len itself \<Rightarrow> net_filter list \<Rightarrow> u8 list \<Rightarrow> u8 list \<Rightarrow> bool" where
  "same_filters T fs p q \<longleftrightarrow> (\<forall>flt \<in> set fs. filter_covers T flt p = filter_covers T flt q)"

definition covered :: "'a::len itself \<Rightarrow> net_filter list \<Rightarrow> u8 list \<Rightarrow> bool" where
  "covered T fs p \<longleftrightarrow> (\<exists>flt \<in> set fs. filter_covers T flt p)"

lemma covered_nth: "covered T fs p \<longleftrightarrow> (\<exists>i < length fs. filter_covers T (fs ! i) p)"
  unfolding covered_def by (metis in_set_conv_nth)

lemma same_filters_nth: "same_filters T fs p q \<longleftrightarrow> {i. i < length fs \<and> filter_covers T (fs ! i) p} = {i. i < length fs \<and> filter_covers T (fs ! i) q}"
  unfolding same_filters_def set_eq_iff mem_Collect_eq by (metis in_set_conv_nth)

text \<open>The reverse map of a populated network holds the filters of each group.\<close>

lemma reverse_map_entries:
  fixes s0 :: "'a::len word acl_network"
  assumes c: "compiled_net s0" and s: "populated (length (nc_filters s0)) s0 s"
  shows "\<exists>m. reverse_groups (nc_filter_group_ids s) (nc_reverse_map s) = Some m \<and> map_ok m \<and>
     (\<forall>g b. (g, b) \<in> set m \<longrightarrow> bitset_ok b \<and> bs_size b = (length (nc_filters s0) + 63) div 64 \<and>
        (\<exists>p. covered TYPE('a) (nc_filters s0) p \<and> g = group_at (nc_tree s0) p)) \<and>
     (\<forall>p. covered TYPE('a) (nc_filters s0) p \<longrightarrow> (\<exists>b. (group_at (nc_tree s0) p, b) \<in> set m)) \<and>
     (\<forall>p b. (group_at (nc_tree s0) p, b) \<in> set m \<longrightarrow> members b = {i. i < length (nc_filters s0) \<and> filter_covers TYPE('a) (nc_filters s0 ! i) p})"
proof -
  let ?fs = "nc_filters s0" let ?n = "length ?fs" let ?t = "nc_tree s0" let ?gs = "nc_filter_group_ids s" let ?m0 = "nc_reverse_map s"
  note S = s [unfolded populated_def]
  have gs: "length ?gs = ?n" "\<And>i. i < ?n \<Longrightarrow> set (?gs ! i) = filter_groups ?t (?fs ! i)" using S by auto
  have keys: "dom (map_of ?m0) = {g. \<exists>i < ?n. g \<in> filter_groups ?t (?fs ! i)}" using S by (auto split: if_splits)
  also have "\<dots> = {group_at ?t p | p. covered TYPE('a) ?fs p}"
    unfolding covered_nth filter_groups_def by blast
  finally have keys': "dom (map_of ?m0) = {group_at ?t p | p. covered TYPE('a) ?fs p}" .
  have "rev_ok ?n (\<lambda>_. {}) ?m0" using S by (auto simp: rev_ok_def split: if_splits)
  moreover have "set groups \<subseteq> dom (map_of ?m0)" if "groups \<in> set ?gs" for groups
    using that gs unfolding keys by (auto simp: in_set_conv_nth)
  ultimately obtain m where m: "reverse_groups ?gs ?m0 = Some m" "rev_ok ?n (\<lambda>g. {i. i < ?n \<and> g \<in> set (?gs ! i)}) m" "dom (map_of m) = dom (map_of ?m0)"
    using reverse_groups_effect [of ?n "\<lambda>_. {}" ?m0 ?gs 0] gs(1) unfolding reverse_groups_def by auto
  have mo: "map_ok m" using m(2) by (simp add: rev_ok_def)
  have ent: "(g, b) \<in> set m \<longleftrightarrow> map_of m g = Some b" for g b using map_of_mem [OF mo] by simp
  have "members b = {i. i < ?n \<and> filter_covers TYPE('a) (?fs ! i) p}" if "(group_at ?t p, b) \<in> set m" for p b
  proof -
    have "members b = {i. i < ?n \<and> group_at ?t p \<in> set (?gs ! i)}" using that m(2) unfolding ent by (simp add: rev_ok_def)
    moreover have "group_at ?t p \<in> filter_groups ?t (?fs ! i) \<longleftrightarrow> filter_covers TYPE('a) (?fs ! i) p" if "i < ?n" for i
      using that c by (auto simp: filter_groups_def compiled_net_def)
    ultimately show ?thesis using gs(2) by auto
  qed
  moreover have "bitset_ok b \<and> bs_size b = (?n + 63) div 64 \<and> (\<exists>p. covered TYPE('a) ?fs p \<and> g = group_at ?t p)" if "(g, b) \<in> set m" for g b
  proof -
    have "g \<in> dom (map_of m)" using that unfolding ent by blast
    then show ?thesis using that m(2) unfolding ent m(3) keys' by (auto simp: rev_ok_def)
  qed
  moreover have "\<exists>b. (group_at ?t p, b) \<in> set m" if "covered TYPE('a) ?fs p" for p
  proof -
    have "group_at ?t p \<in> dom (map_of m)" unfolding m(3) keys' using that by blast
    then show ?thesis unfolding ent by blast
  qed
  ultimately show ?thesis using m(1) mo by blast
qed

definition remapped_net :: "u32 \<Rightarrow> 'a::len word acl_network \<Rightarrow> u32 \<Rightarrow> 'a word acl_network \<Rightarrow> bool" where
  "remapped_net shared s0 shared' s' \<longleftrightarrow> nc_filter_ids s' = nc_filter_ids s0 \<and> tree_ok (nc_tree s') \<and>
     length (nc_filter_group_ids s') = length (nc_filters s0) \<and> unat shared \<le> unat shared' \<and> unat shared' \<le> unat shared + unat (nc_group_id s0) \<and>
     (\<forall>i < length (nc_filters s0). set (nc_filter_group_ids s' ! i) = filter_groups (nc_tree s') (nc_filters s0 ! i)) \<and>
     (\<forall>p. covered TYPE('a) (nc_filters s0) p \<longrightarrow> unat shared \<le> unat (group_at (nc_tree s') p) \<and> unat (group_at (nc_tree s') p) < unat shared') \<and>
     (\<forall>p. \<not> covered TYPE('a) (nc_filters s0) p \<longrightarrow> group_at (nc_tree s') p = 0) \<and>
     (\<forall>p q. covered TYPE('a) (nc_filters s0) p \<longrightarrow> covered TYPE('a) (nc_filters s0) q \<longrightarrow>
        (group_at (nc_tree s') p = group_at (nc_tree s') q \<longleftrightarrow> same_filters TYPE('a) (nc_filters s0) p q)) \<and>
     ((\<exists>p. covered TYPE('a) (nc_filters s0) p) \<longrightarrow> (\<exists>p. covered TYPE('a) (nc_filters s0) p \<and> group_at (nc_tree s') p = shared))"

lemma tree_remap_effect:
  fixes t :: "'a::len word tree"
  assumes w: "whole_bytes TYPE('a)" and ok: "tree_ok t" and fit: "\<And>p. unat (group_at t p) < length R" and R: "\<forall>g \<in> set R. \<not> is_chunk_id g"
  shows "\<exists>t'. tree_remap R t = Some t' \<and> tree_ok t' \<and> (\<forall>p. group_at t' p = R ! unat (group_at t p))"
proof -
  let ?k = "depth TYPE('a)"
  have "remappable ?k R t [] 0" using ok fit by (auto simp: remappable_def tree_ok_def group_at_def)
  then obtain t' prev' where t': "remap_chunk (Suc ?k) R 0 (t, []) = Some (t', prev')" "same_fields t t'" "remapped ?k R t t' 0"
    using remap_spec_holds [OF R, of ?k "Suc ?k"] unfolding remap_spec_def by blast
  have more: "arena.more t' = arena.more t" using t'(2) by (simp add: same_fields_def)
  have "chunks_bucket_size t' = chunks_bucket_size t" using more by (cases t; cases t') simp
  then have "tree_ok t'" using t' ok by (auto simp: remapped_def tree_ok_def same_fields_def)
  moreover have "group_at t' p = R ! unat (group_at t p)" for p using t'(3) by (simp add: remapped_def group_at_def)
  moreover have "tree_remap R t = Some t'" using t'(1) by (simp add: tree_remap_def whole_bytesD(4) [OF w])
  ultimately show ?thesis by blast
qed

lemma those_remap_groups:
  assumes "\<And>groups g. groups \<in> set gs \<Longrightarrow> g \<in> set groups \<Longrightarrow> unat g < length R"
  shows "those (map (remap_groups R) gs) = Some (map (map (\<lambda>g. R ! unat g)) gs)"
  using assms by (induction gs) (auto simp: remap_groups_def list_all_iff)

definition remap_table :: "u32 \<Rightarrow> 'a::len word acl_network \<Rightarrow> u32 \<Rightarrow> u32 list \<Rightarrow> bool" where
  "remap_table shared s0 shared' R \<longleftrightarrow> length R = unat (nc_group_id s0) \<and> (\<forall>g \<in> set R. \<not> is_chunk_id g) \<and>
     unat shared \<le> unat shared' \<and> unat shared' \<le> unat shared + unat (nc_group_id s0) \<and>
     (\<forall>p. covered TYPE('a) (nc_filters s0) p \<longrightarrow>
        unat shared \<le> unat (R ! unat (group_at (nc_tree s0) p)) \<and> unat (R ! unat (group_at (nc_tree s0) p)) < unat shared') \<and>
     (\<forall>p. \<not> covered TYPE('a) (nc_filters s0) p \<longrightarrow> R ! unat (group_at (nc_tree s0) p) = 0) \<and>
     (\<forall>p q. covered TYPE('a) (nc_filters s0) p \<longrightarrow> covered TYPE('a) (nc_filters s0) q \<longrightarrow>
        (R ! unat (group_at (nc_tree s0) p) = R ! unat (group_at (nc_tree s0) q) \<longleftrightarrow> same_filters TYPE('a) (nc_filters s0) p q)) \<and>
     ((\<exists>p. covered TYPE('a) (nc_filters s0) p) \<longrightarrow> (\<exists>p. covered TYPE('a) (nc_filters s0) p \<and> R ! unat (group_at (nc_tree s0) p) = shared))"

lemma remap_table_effect:
  fixes s0 :: "'a::len word acl_network"
  assumes c: "compiled_net s0" and s: "populated (length (nc_filters s0)) s0 s"
    and G: "unat (nc_group_id s0) \<le> 2 ^ 30" and sh: "unat shared \<le> 2 ^ 30"
  shows "\<exists>m R known shared' col. reverse_groups (nc_filter_group_ids s) (nc_reverse_map s) = Some m \<and>
     fold (\<lambda>e os. Option.bind os (assign_group e)) m (Some (replicate (unat (nc_group_id s0)) 0, [], shared, nc_collisions s)) = Some (R, known, shared', col) \<and>
     remap_table shared s0 shared' R"
proof -
  let ?fs = "nc_filters s0" let ?n = "length ?fs" let ?t = "nc_tree s0" let ?G = "unat (nc_group_id s0)"
  have lt: "unat (group_at ?t p) < ?G" for p using c by (simp add: compiled_net_def)
  obtain m where m: "reverse_groups (nc_filter_group_ids s) (nc_reverse_map s) = Some m" and mo: "map_ok m"
    and ent: "\<And>g b. (g, b) \<in> set m \<Longrightarrow> bitset_ok b \<and> bs_size b = (?n + 63) div 64 \<and> (\<exists>p. covered TYPE('a) ?fs p \<and> g = group_at ?t p)"
    and key: "\<And>p. covered TYPE('a) ?fs p \<Longrightarrow> \<exists>b. (group_at ?t p, b) \<in> set m"
    and mem: "\<And>p b. (group_at ?t p, b) \<in> set m \<Longrightarrow> members b = {i. i < ?n \<and> filter_covers TYPE('a) (?fs ! i) p}"
    using reverse_map_entries [OF c s] by blast
  have small: "unat g < ?G" if "(g, b) \<in> set m" for g b using ent [OF that] lt by blast
  have "card (fst ` set m) \<le> card {g :: u32. unat g < ?G}" using small by (intro card_mono) auto
  moreover have "card {g :: u32. unat g < ?G} = ?G" using card_words_below [of "nc_group_id s0"] by (simp add: word_less_nat_alt)
  moreover have "card (fst ` set m) = length m" using distinct_card [OF map_ok_distinct [OF mo]] by simp
  ultimately have lm: "length m \<le> ?G" by simp
  have "assigned ?G shared {} (replicate ?G 0, [], shared, nc_collisions s)" by (auto simp: assigned_def)
  then obtain R known shared' col where as: "fold (\<lambda>e os. Option.bind os (assign_group e)) m (Some (replicate ?G 0, [], shared, nc_collisions s)) = Some (R, known, shared', col)"
    and A: "assigned ?G shared (set m) (R, known, shared', col)"
    using assign_groups_fold [of ?G shared "{}" "(replicate ?G 0, [], shared, nc_collisions s)" m "(?n + 63) div 64"] mo ent small lm G sh by auto
  note A = A [unfolded assigned_def prod.case]
  have len: "length R = ?G" and nid: "unat shared \<le> unat shared'" "unat shared' \<le> unat shared + card (set m)" using A by blast+
  have rng: "unat shared \<le> unat (R ! unat g) \<and> unat (R ! unat g) < unat shared'" if "(g, b) \<in> set m" for g b using A that by blast
  have eqv: "R ! unat h = R ! unat k \<longleftrightarrow> members c = members d" if "(h, c) \<in> set m" "(k, d) \<in> set m" for h c k d using A that by blast
  have zero: "R ! k = 0" if "k < ?G" "\<And>h c. (h, c) \<in> set m \<Longrightarrow> unat h \<noteq> k" for k using A that by blast
  have sh': "unat shared' \<le> unat shared + ?G" using nid(2) card_length [of m] lm by simp
  have "\<not> is_chunk_id (R ! k)" if "k < ?G" for k
  proof (cases "\<exists>g b. (g, b) \<in> set m \<and> unat g = k")
    case True
    then have "unat (R ! k) < unat shared'" using rng by blast
    then show ?thesis using sh' sh G by (simp add: is_chunk_id_iff)
  next
    case False
    then have "R ! k = 0" using that by (intro zero) blast+
    then show ?thesis by (simp add: is_chunk_id_iff)
  qed
  then have "\<forall>g \<in> set R. \<not> is_chunk_id g" using len by (auto simp: in_set_conv_nth)
  moreover have "R ! unat (group_at ?t p) = 0" if "\<not> covered TYPE('a) ?fs p" for p
  proof (rule zero [OF lt])
    fix h b assume "(h, b) \<in> set m"
    then obtain q where q: "covered TYPE('a) ?fs q" "h = group_at ?t q" using ent by blast
    have "group_at ?t p = 0" "group_at ?t q \<noteq> 0" using that q(1) c by (auto simp: compiled_net_def covered_def)
    then show "unat h \<noteq> unat (group_at ?t p)" using q(2) by (simp add: unat_eq_0)
  qed
  moreover have "R ! unat (group_at ?t p) = R ! unat (group_at ?t q) \<longleftrightarrow> same_filters TYPE('a) ?fs p q"
    if "covered TYPE('a) ?fs p" "covered TYPE('a) ?fs q" for p q
  proof -
    from key [OF that(1)] key [OF that(2)] obtain b d where bd: "(group_at ?t p, b) \<in> set m" "(group_at ?t q, d) \<in> set m" by blast
    show ?thesis using eqv [OF bd] mem [OF bd(1)] mem [OF bd(2)] by (simp add: same_filters_nth)
  qed
  moreover have "\<exists>p. covered TYPE('a) ?fs p \<and> R ! unat (group_at ?t p) = shared" if "covered TYPE('a) ?fs q" for q
  proof -
    have "set m \<noteq> {}" using key [OF that] by auto
    then obtain g b where "(g, b) \<in> set m" "R ! unat g = shared" using A by blast
    then show ?thesis using ent [of g b] by blast
  qed
  moreover have "unat shared \<le> unat (R ! unat (group_at ?t p)) \<and> unat (R ! unat (group_at ?t p)) < unat shared'" if "covered TYPE('a) ?fs p" for p
    using key [OF that] rng by blast
  ultimately have "remap_table shared s0 shared' R" unfolding remap_table_def using len nid(1) sh' by (intro conjI) blast+
  then show ?thesis using m as by blast
qed

lemma network_remap_effect:
  fixes s0 :: "'a::len word acl_network"
  assumes c: "compiled_net s0" and s: "populated (length (nc_filters s0)) s0 s" and m0: "nc_map s0 = []"
    and G: "unat (nc_group_id s0) \<le> 2 ^ 30" and sh: "unat shared \<le> 2 ^ 30"
  shows "\<exists>shared' s'. network_remap shared s = Some (shared', s') \<and> remapped_net shared s0 shared' s'"
proof -
  let ?fs = "nc_filters s0" let ?n = "length ?fs" let ?t = "nc_tree s0"
  note S = s [unfolded populated_def]
  obtain m R known shared' col where m: "reverse_groups (nc_filter_group_ids s) (nc_reverse_map s) = Some m"
    and as: "fold (\<lambda>e os. Option.bind os (assign_group e)) m (Some (replicate (unat (nc_group_id s0)) 0, [], shared, nc_collisions s)) = Some (R, known, shared', col)"
    and T: "remap_table shared s0 shared' R" using remap_table_effect [OF c s G sh] by blast
  note T = T [unfolded remap_table_def]
  have lt: "unat (group_at ?t p) < length R" for p using c T by (simp add: compiled_net_def)
  obtain c0 where t0: "nc_tree s = ?t\<lparr>saved_group_ids := c0\<rparr>" using S by blast
  obtain t' where t': "tree_remap R (nc_tree s) = Some t'" "tree_ok t'" and g': "\<And>p. group_at t' p = R ! unat (group_at ?t p)"
    using tree_remap_effect [of "nc_tree s" R] c T lt by (auto simp: t0 compiled_net_def)
  have gs: "set (nc_filter_group_ids s ! i) = filter_groups ?t (?fs ! i)" if "i < ?n" for i using S that by simp
  have fg: "those (map (remap_groups R) (nc_filter_group_ids s)) = Some (map (map (\<lambda>g. R ! unat g)) (nc_filter_group_ids s))"
  proof (rule those_remap_groups)
    fix groups g assume "groups \<in> set (nc_filter_group_ids s)" and g: "g \<in> set groups"
    then obtain i where "i < ?n" "groups = nc_filter_group_ids s ! i" using S by (metis in_set_conv_nth)
    then have "g \<in> filter_groups ?t (?fs ! i)" using g gs by blast
    then show "unat g < length R" using lt by (auto simp: filter_groups_def)
  qed
  define s' where "s' = s\<lparr>nc_tree := t'\<lparr>saved_group_ids := []\<rparr>, nc_remap_group_ids := R, nc_filter_group_ids := map (map (\<lambda>g. R ! unat g)) (nc_filter_group_ids s),
     nc_map := known, nc_reverse_map := fold (\<lambda>(g, b). map_emplace (R ! unat g) b) m (nc_reverse_map_next s), nc_reverse_map_next := m,
     nc_group_id := shared', nc_collisions := col\<rparr>"
  have "network_remap shared s = Some (shared', s')" using m as t' fg S m0 by (simp add: network_remap_def s'_def)
  moreover have "set (nc_filter_group_ids s' ! i) = filter_groups (nc_tree s') (?fs ! i)" if "i < ?n" for i
    using gs [OF that] that S by (auto simp: s'_def filter_groups_def g')
  then have "remapped_net shared s0 shared' s'" unfolding remapped_net_def using T S t'(2) by (simp add: s'_def g')
  ultimately show ?thesis by blast
qed

section \<open>From the filters to the groups\<close>

text \<open>A tree whose prefixes have no gap needs no preparation but room for chunks.\<close>

lemma prepare_loop:
  fixes t :: "'a::len word tree"
  assumes "\<forall>(k, a, m) \<in> set ps. \<not> is_mask_gapped m" and "warp_chunk_ids t = []" and "length (tr_chunks t) \<le> tr_capacity t"
  shows "fold (\<lambda>(_, a, m) ot. Option.bind ot (\<lambda>t. if is_mask_gapped m then prepare_gapped a m (reserve_chunks (chunks_bucket_size t) t) else Some t)) ps (Some t) = Some t"
    "\<exists>c. fold (\<lambda>(_, a, m) ot. Option.bind ot (\<lambda>t. if \<not> is_mask_gapped m then prepare_simple a m (reserve_chunks (chunks_bucket_size t) t) else Some t)) ps (Some t) =
       Some (t\<lparr>tr_capacity := c\<rparr>) \<and> length (tr_chunks t) \<le> c"
proof -
  show "fold (\<lambda>(_, a, m) ot. Option.bind ot (\<lambda>t. if is_mask_gapped m then prepare_gapped a m (reserve_chunks (chunks_bucket_size t) t) else Some t)) ps (Some t) = Some t"
    using assms(1) by (induction ps) auto
  show "\<exists>c. fold (\<lambda>(_, a, m) ot. Option.bind ot (\<lambda>t. if \<not> is_mask_gapped m then prepare_simple a m (reserve_chunks (chunks_bucket_size t) t) else Some t)) ps (Some t) =
       Some (t\<lparr>tr_capacity := c\<rparr>) \<and> length (tr_chunks t) \<le> c"
    using assms
  proof (induction ps arbitrary: t)
    case Nil
    then show ?case by (intro exI [of _ "tr_capacity t"]) simp
  next
    case (Cons p ps)
    obtain k a m where p: "p = (k, a, m)" by (cases p)
    obtain c where c: "reserve_chunks (chunks_bucket_size t) t = t\<lparr>tr_capacity := c\<rparr>" "length (tr_chunks t) + chunks_bucket_size t \<le> c"
      using reserve_effect [OF Cons.prems(3)] by blast
    have "prepare_simple a m (t\<lparr>tr_capacity := c\<rparr>) = Some (t\<lparr>tr_capacity := c\<rparr>)" using Cons.prems(2) by (simp add: prepare_simple_def)
    then show ?case using Cons.IH [of "t\<lparr>tr_capacity := c\<rparr>"] Cons.prems c by (simp add: p)
  qed
qed

definition collected :: "net_filter list \<Rightarrow> 'a::len word acl_network \<Rightarrow> bool" where
  "collected fs s \<longleftrightarrow> nc_filters s = fs \<and> distinct fs \<and> map_ok (nc_filter_ids s) \<and> length (nc_filter_ids s) = length fs \<and>
     (\<forall>flt i. map_of (nc_filter_ids s) flt = Some i \<longleftrightarrow> i < length fs \<and> fs ! i = flt) \<and>
     nc_group_id s = 1 \<and> nc_filter_group_ids s = [] \<and> nc_reverse_map s = [] \<and> nc_map s = [] \<and> tr_chunks (nc_tree s) = [new_chunk] \<and>
     0 < tr_capacity (nc_tree s) \<and> warp_chunk_ids (nc_tree s) = [] \<and> saved_group_ids (nc_tree s) = [] \<and> depth TYPE('a) \<le> chunks_bucket_size (nc_tree s) \<and>
     (\<forall>(k, a, m) \<in> set (prefixes (nc_tree s)). \<exists>flt \<in> set fs. \<exists>n \<in> set flt. m = ucast (net_mask n))"

definition network_build :: "u32 \<Rightarrow> 'a::len word acl_network \<Rightarrow> (u32 \<times> 'a word acl_network) option" where
  "network_build shared s = Option.bind (network_prepare s) (\<lambda>s. Option.bind (network_compile s) (\<lambda>s. Option.bind (network_populate s) (network_remap shared)))"

definition add_filter :: "net_filter \<Rightarrow> net_filter list \<Rightarrow> net_filter list" where
  "add_filter flt fs = (if flt \<in> set fs then fs else fs @ [flt])"

definition collect_all :: "net_filter list \<Rightarrow> 'a::len word acl_network \<Rightarrow> 'a word acl_network" where
  "collect_all fs s = fold (\<lambda>flt s. snd (network_collect flt s)) fs s"

lemma collect_tree:
  "tr_chunks (fold (\<lambda>n. tree_collect (ucast (net_addr n)) (ucast (net_mask n))) flt t) = tr_chunks (t :: 'a::len word tree)"
  "tr_capacity (fold (\<lambda>n. tree_collect (ucast (net_addr n)) (ucast (net_mask n))) flt t) = tr_capacity t"
  "warp_chunk_ids (fold (\<lambda>n. tree_collect (ucast (net_addr n)) (ucast (net_mask n))) flt t) = warp_chunk_ids t"
  "saved_group_ids (fold (\<lambda>n. tree_collect (ucast (net_addr n)) (ucast (net_mask n))) flt t) = saved_group_ids t"
  "chunks_bucket_size (fold (\<lambda>n. tree_collect (ucast (net_addr n)) (ucast (net_mask n))) flt t) = chunks_bucket_size t"
  by (induction flt arbitrary: t) (simp_all add: tree_collect_def Let_def)

lemma collect_prefixes:
  fixes t :: "'a::len word tree"
  assumes "(k, a, m) \<in> set (prefixes (fold (\<lambda>n. tree_collect (ucast (net_addr n)) (ucast (net_mask n))) flt t))"
  shows "(k, a, m) \<in> set (prefixes t) \<or> (\<exists>n \<in> set flt. m = ucast (net_mask n))"
  using assms
proof (induction flt arbitrary: t)
  case (Cons n flt)
  then have "(k, a, m) \<in> set (prefixes (tree_collect (ucast (net_addr n)) (ucast (net_mask n)) t)) \<or> (\<exists>n \<in> set flt. m = ucast (net_mask n))" by simp
  then show ?case by (auto simp: tree_collect_def Let_def set_insort_insert)
qed simp

lemma collected_clear:
  fixes s :: "'a::len word acl_network"
  assumes "depth TYPE('a) \<le> chunks_bucket_size (nc_tree s)" and "0 < chunks_bucket_size (nc_tree s)"
  shows "collected [] (network_clear s)"
  using assms by (simp add: collected_def network_clear_def tree_clear_def)

lemma collected_step:
  assumes "collected fs s"
  shows "collected (add_filter flt fs) (snd (network_collect flt s))"
    "fst (network_collect flt s) < length (add_filter flt fs)" "add_filter flt fs ! fst (network_collect flt s) = flt"
proof -
  note C = assms [unfolded collected_def]
  have "collected (add_filter flt fs) (snd (network_collect flt s)) \<and> fst (network_collect flt s) < length (add_filter flt fs) \<and>
      add_filter flt fs ! fst (network_collect flt s) = flt"
  proof (cases "map_of (nc_filter_ids s) flt")
    case (Some i)
    then have "i < length fs" "fs ! i = flt" using C by auto
    then have "flt \<in> set fs" by auto
    then show ?thesis using Some assms \<open>i < length fs\<close> \<open>fs ! i = flt\<close> by (simp add: network_collect_def add_filter_def)
  next
    case None
    have new: "flt \<notin> set fs" using None C by (metis in_set_conv_nth option.distinct(1))
    let ?m = "map_emplace flt (length fs) (nc_filter_ids s)"
    have ids: "map_of ?m = (map_of (nc_filter_ids s))(flt \<mapsto> length fs)" using C None by (auto simp: map_of_emplace fun_eq_iff)
    have "map_of ?m h = Some i \<longleftrightarrow> i < length (fs @ [flt]) \<and> (fs @ [flt]) ! i = h" for h i
    proof (cases "h = flt")
      case True
      have "fs ! i \<noteq> flt" if "i < length fs" for i using new that by (metis nth_mem)
      then show ?thesis using True by (auto simp: ids nth_append less_Suc_eq)
    next
      case False
      then show ?thesis using C by (auto simp: ids nth_append less_Suc_eq)
    qed
    moreover have "\<forall>(k, a, m) \<in> set (prefixes (fold (\<lambda>n. tree_collect (ucast (net_addr n)) (ucast (net_mask n))) flt (nc_tree s))).
        \<exists>h \<in> set (fs @ [flt]). \<exists>n \<in> set h. m = ucast (net_mask n)"
      using C collect_prefixes by fastforce
    ultimately have "collected (fs @ [flt]) (snd (network_collect flt s))"
      using C None new length_emplace [OF None] by (simp add: collected_def network_collect_def collect_tree)
    then show ?thesis using C None new by (simp add: network_collect_def add_filter_def)
  qed
  then show "collected (add_filter flt fs) (snd (network_collect flt s))" "fst (network_collect flt s) < length (add_filter flt fs)"
    "add_filter flt fs ! fst (network_collect flt s) = flt" by blast+
qed

lemma set_add_filters: "set (fold add_filter gs fs) = set fs \<union> set gs"
  by (induction gs arbitrary: fs) (auto simp: add_filter_def)

lemma collected_all: "collected fs s \<Longrightarrow> collected (fold add_filter gs fs) (collect_all gs s)"
  by (induction gs arbitrary: fs s) (simp_all add: collect_all_def collected_step(1))

lemma empty_tree:
  fixes t :: "'a::len word tree"
  assumes "tr_chunks t = [new_chunk]" and "0 < tr_capacity t" and "depth TYPE('a) \<le> chunks_bucket_size t"
  shows "tree_ok t" "group_at t p = 0"
proof -
  have v: "chunk_at t 0 = new_chunk" using assms(1) by (simp add: chunk_at_def)
  have "\<not> is_chunk_id 0" by (simp add: is_chunk_id_iff)
  note l = leaf_value [OF this, of "depth TYPE('a)" "chunk_at t"]
  show "group_at t p = 0" using l by (simp add: group_at_def chunk_walk_def v new_chunk_def)
  have "orderly (depth TYPE('a)) (chunk_at t) 0" "held (depth TYPE('a)) (chunk_at t) 0 = {}"
    using l by (simp_all add: orderly_def held_def v new_chunk_def)
  then show "tree_ok t" using assms by (simp add: tree_ok_def)
qed

definition fits_net :: "'a::len itself \<Rightarrow> net_filter list \<Rightarrow> bool" where
  "fits_net T fs \<longleftrightarrow> (\<forall>flt \<in> set fs. list_all (gap_free T) flt) \<and> class_count T fs \<le> 2 ^ 30 \<and> 1 + depth T * sum_list (map length fs) \<le> 2 ^ 31"

lemma network_compile_effect:
  fixes s :: "'a::len word acl_network"
  assumes w: "whole_bytes TYPE('a)" and col: "collected fs s" and fit: "fits_net TYPE('a) fs"
  shows "\<exists>s1 s2. network_prepare s = Some s1 \<and> network_compile s1 = Some s2 \<and> compiled_net s2 \<and> nc_filters s2 = fs \<and> nc_filter_ids s2 = nc_filter_ids s \<and>
     unat (nc_group_id s2) \<le> class_count TYPE('a) fs \<and> saved_group_ids (nc_tree s2) = [] \<and> nc_filter_group_ids s2 = replicate (length fs) [] \<and>
     nc_reverse_map s2 = [] \<and> nc_map s2 = []"
proof -
  note C = col [unfolded collected_def] and F = fit [unfolded fits_net_def]
  let ?t = "nc_tree s"
  have gf: "\<forall>(k, a, m) \<in> set (prefixes ?t). \<not> is_mask_gapped m" using C F by (fastforce simp: list_all_iff gap_free_def)
  have cap: "length (tr_chunks ?t) \<le> tr_capacity ?t" using C by simp
  obtain c where c: "tree_prepare ?t = Some (?t\<lparr>tr_capacity := c\<rparr>)" "1 \<le> c"
    using prepare_loop [OF gf _ cap] C by (auto simp: tree_prepare_def)
  let ?t1 = "?t\<lparr>tr_capacity := c\<rparr>"
  define s1 where "s1 = s\<lparr>nc_tree := ?t1, nc_filter_group_ids := replicate (length fs) []\<rparr>"
  have p: "network_prepare s = Some s1" using c C by (simp add: network_prepare_def s1_def resize_groups_def)
  have e: "tree_ok ?t1" "\<And>p. group_at ?t1 p = 0" using empty_tree [of ?t1] C c by auto
  have "compile_state ?t1 [] (?t1, 1, nc_remap_group_ids s)" using e by (simp add: compile_state_def class_count_def)
  then obtain t g R where f: "fold (\<lambda>flt os. Option.bind os (insert_filter flt)) fs (Some (?t1, 1, nc_remap_group_ids s)) = Some (t, g, R)"
    and st: "compile_state ?t1 fs (t, g, R)"
    using compile_state_fold [OF w, of "[]" fs ?t1 "(?t1, 1, nc_remap_group_ids s)"] F C by auto
  note S = st [unfolded compile_state_def prod.case]
  have more: "arena.more t = arena.more ?t1" using S by blast
  have wc: "warp_chunk_ids t = []" "saved_group_ids t = []" using more C by (cases t; cases ?t; simp)+
  define s2 where "s2 = s1\<lparr>nc_tree := t, nc_group_id := g, nc_remap_group_ids := R\<rparr>"
  have "network_compile s1 = Some s2" using f C wc by (simp add: network_compile_def s1_def s2_def tree_merge_def)
  moreover have "compiled_net s2" using S w F C by (simp add: compiled_net_def s2_def s1_def)
  ultimately show ?thesis using p C S wc by (intro exI [of _ s1] exI [of _ s2]) (simp add: s1_def s2_def)
qed

text \<open>The whole chain, for the filters of a network.\<close>

lemma network_build_effect:
  fixes s :: "'a::len word acl_network"
  assumes w: "whole_bytes TYPE('a)" and col: "collected fs s" and fit: "fits_net TYPE('a) fs" and sh: "unat shared \<le> 2 ^ 30"
  shows "\<exists>shared' s' s2. network_build shared s = Some (shared', s') \<and> remapped_net shared s2 shared' s' \<and> nc_filters s2 = fs \<and>
     nc_filter_ids s2 = nc_filter_ids s \<and> unat (nc_group_id s2) \<le> class_count TYPE('a) fs"
proof -
  obtain s1 s2 where p: "network_prepare s = Some s1" "network_compile s1 = Some s2" and c: "compiled_net s2" and fs: "nc_filters s2 = fs"
     "nc_filter_ids s2 = nc_filter_ids s" "unat (nc_group_id s2) \<le> class_count TYPE('a) fs" and e: "saved_group_ids (nc_tree s2) = []"
     "nc_filter_group_ids s2 = replicate (length fs) []" "nc_reverse_map s2 = []" "nc_map s2 = []"
    using network_compile_effect [OF w col fit] by blast
  obtain s3 where s3: "network_populate s2 = Some s3" "populated (length (nc_filters s2)) s2 s3"
    using network_populate_effect [OF c] e fs by auto
  have "unat (nc_group_id s2) \<le> 2 ^ 30" using fs(3) fit by (simp add: fits_net_def)
  then obtain shared' s' where "network_remap shared s3 = Some (shared', s')" "remapped_net shared s2 shared' s'"
    using network_remap_effect [OF c s3(2) e(4) _ sh] by blast
  then show ?thesis using p s3(1) fs by (auto simp: network_build_def)
qed

section \<open>The groups of addresses\<close>

text \<open>
  A built network: an address that matches some filter has one of the new groups, and its group is among
  the groups of a filter exactly if it matches the filter.
\<close>

definition address_group :: "'a::len word acl_network \<Rightarrow> 'a word \<Rightarrow> u32" where
  "address_group s x = group_at (nc_tree s) (path_of x)"

definition built :: "net_filter list \<Rightarrow> u32 \<Rightarrow> u32 \<Rightarrow> 'a::len word acl_network \<Rightarrow> bool" where
  "built fs shared shared' s \<longleftrightarrow>
     (\<forall>x :: 'a word. get_group_ids_by_address x s = Some (address_group s x)) \<and>
     (\<forall>flt \<in> set fs. \<exists>groups. get_group_ids_by_filter flt s = Some groups \<and>
        (\<forall>x :: 'a word. filter_match flt x \<longrightarrow> address_group s x \<in> set groups) \<and>
        (\<forall>g \<in> set groups. \<exists>x :: 'a word. filter_match flt x \<and> address_group s x = g)) \<and>
     (\<forall>x :: 'a word. (\<exists>flt \<in> set fs. filter_match flt x) \<longrightarrow> unat shared \<le> unat (address_group s x) \<and> unat (address_group s x) < unat shared') \<and>
     (\<forall>x :: 'a word. (\<forall>flt \<in> set fs. \<not> filter_match flt x) \<longrightarrow> address_group s x = 0) \<and>
     (\<forall>x y :: 'a word. (\<exists>flt \<in> set fs. filter_match flt x) \<longrightarrow> (\<exists>flt \<in> set fs. filter_match flt y) \<longrightarrow>
        (address_group s x = address_group s y \<longleftrightarrow> (\<forall>flt \<in> set fs. filter_match flt x = filter_match flt y))) \<and>
     ((\<exists>flt \<in> set fs. \<exists>x :: 'a word. filter_match flt x) \<longrightarrow> (\<exists>flt \<in> set fs. \<exists>x :: 'a word. filter_match flt x \<and> address_group s x = shared))"

lemma remapped_built:
  fixes s :: "'a::len word acl_network"
  assumes w: "whole_bytes TYPE('a)" and gf: "\<forall>flt \<in> set fs. list_all (gap_free TYPE('a)) flt"
    and ids: "\<And>flt i. map_of (nc_filter_ids s0) flt = Some i \<longleftrightarrow> i < length fs \<and> fs ! i = flt"
    and r: "remapped_net shared s0 shared' s" and fs: "nc_filters s0 = fs"
  shows "built fs shared shared' s"
proof -
  note M = r [unfolded remapped_net_def fs]
  have ok: "orderly (depth TYPE('a)) (chunk_at (nc_tree s)) 0" using M by (simp add: tree_ok_def)
  have look: "get_group_ids_by_address x s = Some (address_group s x)" for x :: "'a word"
    using lookup_step_walk [OF ok, of "Suc (depth TYPE('a))" x]
    by (simp add: get_group_ids_by_address_def tree_lookup_def whole_bytesD(4) [OF w] address_group_def group_at_def path_of_def)
  have cov: "filter_covers TYPE('a) flt (path_of x) \<longleftrightarrow> filter_match flt x" if "flt \<in> set fs" for flt and x :: "'a word"
    using filter_covers_path [OF w] gf that by blast
  have cv: "covered TYPE('a) fs (path_of x) \<longleftrightarrow> (\<exists>flt \<in> set fs. filter_match flt x)" for x :: "'a word" using cov by (auto simp: covered_def)
  have onto: "\<exists>x :: 'a word. group_at (nc_tree s) p = address_group s x \<and> (\<forall>flt \<in> set fs. filter_covers TYPE('a) flt p = filter_match flt x)" for p
    using path_exists [OF w, of p] cov unfolding address_group_def by metis
  have "\<exists>groups. get_group_ids_by_filter flt s = Some groups \<and> (\<forall>x :: 'a word. filter_match flt x \<longrightarrow> address_group s x \<in> set groups) \<and>
        (\<forall>g \<in> set groups. \<exists>x :: 'a word. filter_match flt x \<and> address_group s x = g)" if flt: "flt \<in> set fs" for flt
  proof -
    obtain i where i: "i < length fs" "fs ! i = flt" using flt by (metis in_set_conv_nth)
    have m: "map_of (nc_filter_ids s) flt = Some i" using ids i M by simp
    have g: "set (nc_filter_group_ids s ! i) = filter_groups (nc_tree s) flt" using M i by simp
    have "address_group s x \<in> filter_groups (nc_tree s) flt" if "filter_match flt x" for x :: "'a word"
      unfolding filter_groups_def address_group_def using cov [OF flt, of x] that by blast
    moreover have "\<exists>x :: 'a word. filter_match flt x \<and> address_group s x = h" if "h \<in> filter_groups (nc_tree s) flt" for h
    proof -
      from that obtain p where "h = group_at (nc_tree s) p" "filter_covers TYPE('a) flt p" by (auto simp: filter_groups_def)
      then show ?thesis using onto [of p] flt by metis
    qed
    ultimately show ?thesis using m M i(1) g by (intro exI [of _ "nc_filter_group_ids s ! i"]) (simp add: get_group_ids_by_filter_def)
  qed
  moreover have "(\<exists>flt \<in> set fs. \<exists>x :: 'a word. filter_match flt x) \<longrightarrow> (\<exists>flt \<in> set fs. \<exists>x :: 'a word. filter_match flt x \<and> address_group s x = shared)"
  proof (intro impI)
    assume "\<exists>flt \<in> set fs. \<exists>x :: 'a word. filter_match flt x"
    then have "\<exists>p. covered TYPE('a) fs p" using cv by blast
    then obtain p where p: "covered TYPE('a) fs p" "group_at (nc_tree s) p = shared" using M by blast
    then show "\<exists>flt \<in> set fs. \<exists>x :: 'a word. filter_match flt x \<and> address_group s x = shared" using onto [of p] by (metis covered_def)
  qed
  moreover have "address_group s x = address_group s y \<longleftrightarrow> (\<forall>flt \<in> set fs. filter_match flt x = filter_match flt y)"
    if "\<exists>flt \<in> set fs. filter_match flt x" "\<exists>flt \<in> set fs. filter_match flt y" for x y :: "'a word"
  proof -
    have "covered TYPE('a) fs (path_of x)" "covered TYPE('a) fs (path_of y)" using that cv by blast+
    then have "address_group s x = address_group s y \<longleftrightarrow> same_filters TYPE('a) fs (path_of x) (path_of y)" unfolding address_group_def using M by blast
    then show ?thesis using cov by (simp add: same_filters_def)
  qed
  moreover have "unat shared \<le> unat (address_group s x) \<and> unat (address_group s x) < unat shared'" if "\<exists>flt \<in> set fs. filter_match flt x" for x :: "'a word"
    using M cv [of x] that unfolding address_group_def by blast
  moreover have "address_group s x = 0" if "\<forall>flt \<in> set fs. \<not> filter_match flt x" for x :: "'a word"
    using M cv [of x] that unfolding address_group_def by blast
  ultimately show ?thesis unfolding built_def using look by (intro conjI allI impI ballI) blast+
qed

lemma network_built:
  fixes s :: "'a::len word acl_network"
  assumes w: "whole_bytes TYPE('a)" and col: "collected fs s" and fit: "fits_net TYPE('a) fs" and sh: "unat shared \<le> 2 ^ 30"
  shows "\<exists>shared' s'. network_build shared s = Some (shared', s') \<and> built fs shared shared' s' \<and> nc_filter_ids s' = nc_filter_ids s \<and>
     unat shared \<le> unat shared' \<and> unat shared' \<le> unat shared + class_count TYPE('a) fs"
proof -
  obtain shared' s' s2 where b: "network_build shared s = Some (shared', s')" and r: "remapped_net shared s2 shared' s'" and fs: "nc_filters s2 = fs"
     "nc_filter_ids s2 = nc_filter_ids s" "unat (nc_group_id s2) \<le> class_count TYPE('a) fs"
    using network_build_effect [OF assms] by blast
  have "map_of (nc_filter_ids s2) flt = Some i \<longleftrightarrow> i < length fs \<and> fs ! i = flt" for flt i using col fs(2) by (simp add: collected_def)
  moreover have "\<forall>flt \<in> set fs. list_all (gap_free TYPE('a)) flt" using fit by (simp add: fits_net_def)
  ultimately have "built fs shared shared' s'" using remapped_built [OF w] r fs(1) by blast
  then show ?thesis using b r fs(2,3) by (auto simp: remapped_net_def)
qed

text \<open>The groups decide the filters, for addresses that match some filter or if group 0 is not handed out.\<close>

lemma built_exact:
  assumes b: "built fs shared shared' s" and flt: "flt \<in> set fs" and x: "0 < shared \<or> (\<exists>h \<in> set fs. filter_match h x)"
    and g: "get_group_ids_by_filter flt s = Some groups"
  shows "address_group s x \<in> set groups \<longleftrightarrow> filter_match flt x"
proof
  note B = b [unfolded built_def]
  assume "address_group s x \<in> set groups"
  then obtain y where y: "filter_match flt y" "address_group s y = address_group s x" using B flt g by fastforce
  have le: "unat shared \<le> unat (address_group s y)" using B y(1) flt by blast
  have "\<exists>h \<in> set fs. filter_match h x"
  proof (rule ccontr)
    assume none: "\<not> (\<exists>h \<in> set fs. filter_match h x)"
    then have "address_group s x = 0" using B by blast
    then have "shared = 0" using le y(2) by (simp add: unat_eq_0)
    then show False using x none by simp
  qed
  then have "\<forall>h \<in> set fs. filter_match h y = filter_match h x" using B y flt by blast
  then show "filter_match flt x" using y(1) flt by blast
next
  assume "filter_match flt x"
  then show "address_group s x \<in> set groups" using b flt g unfolding built_def by fastforce
qed

text \<open>At most \<open>2 ^ n\<close> groups for \<open>n\<close> filters.\<close>

lemma class_count_le: "class_count TYPE('a::len) fs \<le> 2 ^ length fs"
proof (induction fs rule: rev_induct)
  case Nil
  then show ?case by (simp add: class_count_def)
next
  case (snoc flt fs)
  have "signature fs ` {x :: 'a word. filter_match flt x} \<subseteq> Pow (set fs)" by (auto simp: signature_def)
  then have "card (signature fs ` {x :: 'a word. filter_match flt x}) \<le> card (Pow (set fs))" by (intro card_mono) simp_all
  also have "\<dots> = 2 ^ card (set fs)" by (simp add: card_Pow)
  also have "\<dots> \<le> 2 ^ length fs" using card_length [of fs] by (intro power_increasing) simp_all
  finally show ?case using snoc class_count_snoc [where ?'a = 'a, of fs flt] by simp
qed

end
