(* ===== verification/AclCompiler.thy ===== *)
theory AclCompiler
  imports AclNetworkCorrect
begin

text \<open>
  The network part of the ACL compiler, \<^verbatim>\<open>compiler_t\<close> of \<^verbatim>\<open>src/controlplane/acl_compiler.cpp\<close>: the filters of
  each rule are collected per address family and direction, and the four networks are compiled with group
  numbers that the two families share.
\<close>

section \<open>Definitions\<close>

text \<open>The networks of a rule; a missing list stands for a null pointer.\<close>

record rule_networks =
  rn_src :: "network list option"
  rn_dst :: "network list option"

record rule_filters =
  network_ipv4_source_filter_id :: nat
  network_ipv4_destination_filter_id :: nat
  network_ipv6_source_filter_id :: nat
  network_ipv6_destination_filter_id :: nat

record acl_compiler =
  network_ipv4_source :: "u32 acl_network"
  network_ipv4_destination :: "u32 acl_network"
  network_ipv6_source :: "u128 acl_network"
  network_ipv6_destination :: "u128 acl_network"
  network_ipv6_destination_hosts :: "u128 list"
  source_group_id :: u32
  destination_group_id :: u32
  compiler_rules :: "rule_filters list"

definition compiler_new :: "nat \<Rightarrow> acl_compiler" where
  "compiler_new bucket =
     \<lparr>network_ipv4_source = network_new bucket, network_ipv4_destination = network_new bucket,
      network_ipv6_source = network_new bucket, network_ipv6_destination = network_new bucket,
      network_ipv6_destination_hosts = [], source_group_id = 0, destination_group_id = 0, compiler_rules = []\<rparr>"

definition compiler_clear :: "acl_compiler \<Rightarrow> acl_compiler" where
  "compiler_clear c =
     \<lparr>network_ipv4_source = network_clear (network_ipv4_source c), network_ipv4_destination = network_clear (network_ipv4_destination c),
      network_ipv6_source = network_clear (network_ipv6_source c), network_ipv6_destination = network_clear (network_ipv6_destination c),
      network_ipv6_destination_hosts = [], source_group_id = 0, destination_group_id = 0, compiler_rules = []\<rparr>"

text \<open>
  One side of a rule: the IPv4 filter, the IPv6 filter, and which families the side has.  A side without
  networks stands for every address.
\<close>

definition side_filters :: "network list option \<Rightarrow> net_filter \<times> net_filter \<times> bool \<times> bool" where
  "side_filters nets =
     (case nets of
        Some (n # ns) \<Rightarrow>
          (fold (\<lambda>n. insort_insert (network_normalize n)) (filter (\<lambda>n. net_family n = 4) (n # ns)) [],
           fold (\<lambda>n. insort_insert (network_normalize n)) (filter (\<lambda>n. net_family n \<noteq> 4) (n # ns)) [],
           list_ex (\<lambda>n. net_family n = 4) (n # ns), list_ex (\<lambda>n. net_family n = 6) (n # ns))
      | _ \<Rightarrow> ([Network 4 0 0], [Network 6 0 0], True, True))"

text \<open>The four filters of a rule: a family that one side lacks is dropped from both.\<close>

definition rule_net_filters :: "rule_networks \<Rightarrow> net_filter \<times> net_filter \<times> net_filter \<times> net_filter" where
  "rule_net_filters r =
     (let (s4, s6, sf4, sf6) = side_filters (rn_src r); (d4, d6, df4, df6) = side_filters (rn_dst r);
          (s4, d4) = (if \<not> (sf4 \<and> df4) then ([], []) else (s4, d4));
          (s6, d6) = (if \<not> (sf6 \<and> df6) then ([], []) else (s6, d6))
      in (s4, d4, s6, d6))"

definition collect_hosts :: "net_filter \<Rightarrow> u128 list \<Rightarrow> u128 list" where
  "collect_hosts flt hosts = fold (\<lambda>n hosts. if net_mask n + 1 = 0 then insort_insert (net_addr n) hosts else hosts) flt hosts"

definition collect_rule :: "rule_networks \<Rightarrow> acl_compiler \<Rightarrow> acl_compiler" where
  "collect_rule r c =
     (let (s4, d4, s6, d6) = rule_net_filters r;
          (i1, n1) = network_collect s4 (network_ipv4_source c);
          (i2, n2) = network_collect d4 (network_ipv4_destination c);
          (i3, n3) = network_collect s6 (network_ipv6_source c);
          (i4, n4) = network_collect d6 (network_ipv6_destination c)
      in c\<lparr>network_ipv4_source := n1, network_ipv4_destination := n2, network_ipv6_source := n3, network_ipv6_destination := n4,
           network_ipv6_destination_hosts := collect_hosts d6 (network_ipv6_destination_hosts c),
           compiler_rules := compiler_rules c @ [\<lparr>network_ipv4_source_filter_id = i1, network_ipv4_destination_filter_id = i2,
             network_ipv6_source_filter_id = i3, network_ipv6_destination_filter_id = i4\<rparr>]\<rparr>)"

definition collect_rules :: "rule_networks list \<Rightarrow> acl_compiler \<Rightarrow> acl_compiler" where
  "collect_rules rs c = fold collect_rule rs c"

text \<open>\<^verbatim>\<open>network_compile\<close>: every stage is run for the four networks before the next stage.\<close>

definition compile_networks :: "acl_compiler \<Rightarrow> acl_compiler option" where
  "compile_networks c =
     Option.bind (network_prepare (network_ipv4_source c)) (\<lambda>s4.
     Option.bind (network_prepare (network_ipv4_destination c)) (\<lambda>d4.
     Option.bind (network_prepare (network_ipv6_source c)) (\<lambda>s6.
     Option.bind (network_prepare (network_ipv6_destination c)) (\<lambda>d6.
     Option.bind (network_compile s4) (\<lambda>s4.
     Option.bind (network_compile d4) (\<lambda>d4.
     Option.bind (network_compile s6) (\<lambda>s6.
     Option.bind (network_compile d6) (\<lambda>d6.
     Option.bind (network_populate s4) (\<lambda>s4.
     Option.bind (network_populate d4) (\<lambda>d4.
     Option.bind (network_populate s6) (\<lambda>s6.
     Option.bind (network_populate d6) (\<lambda>d6.
     Option.bind (network_remap (source_group_id c) s4) (\<lambda>(source_id, s4).
     Option.bind (network_remap (destination_group_id c) d4) (\<lambda>(destination_id, d4).
     Option.bind (network_remap source_id s6) (\<lambda>(source_id, s6).
     Option.bind (network_remap destination_id d6) (\<lambda>(destination_id, d6).
     Some (c\<lparr>network_ipv4_source := s4, network_ipv4_destination := d4, network_ipv6_source := s6, network_ipv6_destination := d6,
             source_group_id := source_id, destination_group_id := destination_id\<rparr>)))))))))))))))))"

definition compile_rules :: "rule_networks list \<Rightarrow> acl_compiler \<Rightarrow> acl_compiler option" where
  "compile_rules rs c = compile_networks (collect_rules rs (compiler_clear c))"

section \<open>The stages of a network\<close>

lemma network_build_stages:
  assumes "network_build shared s = Some (shared', s')"
  shows "\<exists>s1 s2 s3. network_prepare s = Some s1 \<and> network_compile s1 = Some s2 \<and> network_populate s2 = Some s3 \<and> network_remap shared s3 = Some (shared', s')"
  using assms by (auto simp: network_build_def bind_eq_Some_conv)

lemma compile_networks_builds:
  assumes "network_build (source_group_id c) (network_ipv4_source c) = Some (i1, s4)" and "network_build (destination_group_id c) (network_ipv4_destination c) = Some (i2, d4)"
    and "network_build i1 (network_ipv6_source c) = Some (i3, s6)" and "network_build i2 (network_ipv6_destination c) = Some (i4, d6)"
  shows "compile_networks c = Some (c\<lparr>network_ipv4_source := s4, network_ipv4_destination := d4, network_ipv6_source := s6, network_ipv6_destination := d6,
             source_group_id := i3, destination_group_id := i4\<rparr>)"
  using network_build_stages [OF assms(1)] network_build_stages [OF assms(2)] network_build_stages [OF assms(3)] network_build_stages [OF assms(4)]
  by (elim exE conjE) (simp add: compile_networks_def)

section \<open>What a rule means\<close>

text \<open>Whether a rule accepts a pair of addresses of a family, by its networks.\<close>

definition side_match :: "u8 \<Rightarrow> network list option \<Rightarrow> 'a::len word \<Rightarrow> bool" where
  "side_match family nets x =
     (case nets of
        Some (n # ns) \<Rightarrow> list_ex (\<lambda>n. net_family n = family \<and> x AND ucast (net_mask n) = ucast (net_addr n) AND ucast (net_mask n)) (n # ns)
      | _ \<Rightarrow> True)"

definition rule_match :: "u8 \<Rightarrow> rule_networks \<Rightarrow> 'a::len word \<Rightarrow> 'a word \<Rightarrow> bool" where
  "rule_match family r x y = (side_match family (rn_src r) x \<and> side_match family (rn_dst r) y)"

definition families_ok :: "network list option \<Rightarrow> bool" where
  "families_ok nets = (case nets of Some ns \<Rightarrow> list_all (\<lambda>n. net_family n = 4 \<or> net_family n = 6) ns | None \<Rightarrow> True)"

definition any_side :: "network list option \<Rightarrow> bool" where
  "any_side nets = (nets = None \<or> nets = Some [])"

lemma set_insort_fold: "set (fold (\<lambda>n. insort_insert (f n)) ns xs) = f ` set ns \<union> set xs"
  by (induction ns arbitrary: xs) (auto simp: set_insort_insert)

lemma ucast_and: "(ucast (a AND b) :: 'b::len word) = ucast a AND ucast b" for a b :: "'a::len word"
  by (intro bit_word_eqI) (auto simp: bit_ucast_iff bit_and_iff)

lemma normalize_match:
  "(x AND ucast (net_mask (network_normalize n)) = ucast (net_addr (network_normalize n)) AND ucast (net_mask (network_normalize n))) \<longleftrightarrow>
   (x AND ucast (net_mask n) = ucast (net_addr n) AND ucast (net_mask n))" for x :: "'a::len word"
  by (simp add: network_normalize_def ucast_and and.assoc)

lemma filter_match_normalized:
  "filter_match (fold (\<lambda>n. insort_insert (network_normalize n)) ns []) x \<longleftrightarrow>
     list_ex (\<lambda>n. x AND ucast (net_mask n) = ucast (net_addr n) AND ucast (net_mask n)) ns" for x :: "'a::len word"
  by (simp add: filter_match_def list_ex_iff set_insort_fold normalize_match)

text \<open>The filters of the sides, and the families.\<close>

lemma side_filters_match:
  fixes x :: "'a::len word"
  assumes "side_filters nets = (f4, f6, has4, has6)" and "families_ok nets"
  shows "has4 \<and> filter_match f4 x \<longleftrightarrow> side_match 4 nets x" "has6 \<and> filter_match f6 x \<longleftrightarrow> side_match 6 nets x"
    "side_match 4 nets x \<Longrightarrow> has4" "side_match 6 nets x \<Longrightarrow> has6"
proof -
  have "(has4 \<and> filter_match f4 x \<longleftrightarrow> side_match 4 nets x) \<and> (has6 \<and> filter_match f6 x \<longleftrightarrow> side_match 6 nets x)"
  proof (cases "any_side nets")
    case True
    then have "nets = None \<or> nets = Some []" by (simp add: any_side_def)
    then show ?thesis using assms by (auto simp: side_filters_def side_match_def filter_match_def)
  next
    case False
    then obtain n ns where nets: "nets = Some (n # ns)" by (cases nets; cases "the nets") (auto simp: any_side_def)
    let ?ns = "n # ns"
    have f: "f4 = fold (\<lambda>n. insort_insert (network_normalize n)) (filter (\<lambda>n. net_family n = 4) ?ns) []"
      "f6 = fold (\<lambda>n. insort_insert (network_normalize n)) (filter (\<lambda>n. net_family n \<noteq> 4) ?ns) []"
      "has4 = list_ex (\<lambda>n. net_family n = 4) ?ns" "has6 = list_ex (\<lambda>n. net_family n = 6) ?ns"
      using assms(1) unfolding nets side_filters_def by (simp_all only: option.case list.case prod.inject)
    have "net_family n \<noteq> 4 \<longleftrightarrow> net_family n = 6" if "n \<in> set ?ns" for n
      using assms(2) that unfolding nets families_ok_def by (auto simp: list_all_iff)
    then show ?thesis unfolding f filter_match_normalized using nets by (auto simp: side_match_def list_ex_iff)
  qed
  then show "has4 \<and> filter_match f4 x \<longleftrightarrow> side_match 4 nets x" "has6 \<and> filter_match f6 x \<longleftrightarrow> side_match 6 nets x"
    "side_match 4 nets x \<Longrightarrow> has4" "side_match 6 nets x \<Longrightarrow> has6" by blast+
qed

lemma rule_filters_match:
  assumes "rule_net_filters r = (s4, d4, s6, d6)" and "families_ok (rn_src r)" and "families_ok (rn_dst r)"
  shows "filter_match s4 x \<and> filter_match d4 y \<longleftrightarrow> rule_match 4 r x y" "filter_match s6 v \<and> filter_match d6 w \<longleftrightarrow> rule_match 6 r v w"
proof -
  obtain a4 a6 f4 f6 where a: "side_filters (rn_src r) = (a4, a6, f4, f6)" by (cases "side_filters (rn_src r)")
  obtain b4 b6 g4 g6 where b: "side_filters (rn_dst r) = (b4, b6, g4, g6)" by (cases "side_filters (rn_dst r)")
  have e: "\<not> filter_match [] z" for z :: "'c::len word" by (simp add: filter_match_def)
  have r: "s4 = (if f4 \<and> g4 then a4 else [])" "d4 = (if f4 \<and> g4 then b4 else [])" "s6 = (if f6 \<and> g6 then a6 else [])" "d6 = (if f6 \<and> g6 then b6 else [])"
    using assms(1) a b by (auto simp: rule_net_filters_def Let_def split: if_splits)
  show "filter_match s4 x \<and> filter_match d4 y \<longleftrightarrow> rule_match 4 r x y"
    using side_filters_match(1,3) [OF a assms(2), of x] side_filters_match(1,3) [OF b assms(3), of y] e unfolding r rule_match_def by auto
  show "filter_match s6 v \<and> filter_match d6 w \<longleftrightarrow> rule_match 6 r v w"
    using side_filters_match(2,4) [OF a assms(2), of v] side_filters_match(2,4) [OF b assms(3), of w] e unfolding r rule_match_def by auto
qed

section \<open>Collecting the rules\<close>

abbreviation src4 :: "rule_networks \<Rightarrow> net_filter" where "src4 r \<equiv> fst (rule_net_filters r)"
abbreviation dst4 :: "rule_networks \<Rightarrow> net_filter" where "dst4 r \<equiv> fst (snd (rule_net_filters r))"
abbreviation src6 :: "rule_networks \<Rightarrow> net_filter" where "src6 r \<equiv> fst (snd (snd (rule_net_filters r)))"
abbreviation dst6 :: "rule_networks \<Rightarrow> net_filter" where "dst6 r \<equiv> snd (snd (snd (rule_net_filters r)))"

definition filters_of :: "(rule_networks \<Rightarrow> net_filter) \<Rightarrow> rule_networks list \<Rightarrow> net_filter list" where
  "filters_of sel rs = fold add_filter (map sel rs) []"

text \<open>A network and the filter numbers of the rules that have been collected into it.\<close>

definition collected_ids :: "(rule_networks \<Rightarrow> net_filter) \<Rightarrow> rule_networks list \<Rightarrow> 'a::len word acl_network \<Rightarrow> nat list \<Rightarrow> bool" where
  "collected_ids sel rs n ids \<longleftrightarrow> collected (filters_of sel rs) n \<and> length ids = length rs \<and>
     (\<forall>k < length rs. ids ! k < length (filters_of sel rs) \<and> filters_of sel rs ! (ids ! k) = sel (rs ! k))"

lemma collected_ids_step:
  assumes "collected_ids sel rs n ids"
  shows "collected_ids sel (rs @ [r]) (snd (network_collect (sel r) n)) (ids @ [fst (network_collect (sel r) n)])"
proof -
  let ?fs = "filters_of sel rs"
  have c: "collected ?fs n" using assms by (simp add: collected_ids_def)
  have fs: "filters_of sel (rs @ [r]) = add_filter (sel r) ?fs" by (simp add: filters_of_def)
  have "i < length (add_filter (sel r) ?fs) \<and> add_filter (sel r) ?fs ! i = ?fs ! i" if "i < length ?fs" for i
    using that by (simp add: add_filter_def nth_append)
  then show ?thesis using assms collected_step [OF c, of "sel r"] unfolding collected_ids_def fs by (auto simp: nth_append less_Suc_eq)
qed

definition rules_collected :: "rule_networks list \<Rightarrow> acl_compiler \<Rightarrow> bool" where
  "rules_collected rs c \<longleftrightarrow>
     collected_ids src4 rs (network_ipv4_source c) (map network_ipv4_source_filter_id (compiler_rules c)) \<and>
     collected_ids dst4 rs (network_ipv4_destination c) (map network_ipv4_destination_filter_id (compiler_rules c)) \<and>
     collected_ids src6 rs (network_ipv6_source c) (map network_ipv6_source_filter_id (compiler_rules c)) \<and>
     collected_ids dst6 rs (network_ipv6_destination c) (map network_ipv6_destination_filter_id (compiler_rules c)) \<and>
     source_group_id c = 0 \<and> destination_group_id c = 0"

lemma rules_collected_step: "rules_collected rs c \<Longrightarrow> rules_collected (rs @ [r]) (collect_rule r c)"
  by (simp add: rules_collected_def collect_rule_def Let_def split_beta collected_ids_step [where sel = src4 and r = r]
    collected_ids_step [where sel = dst4 and r = r] collected_ids_step [where sel = src6 and r = r] collected_ids_step [where sel = dst6 and r = r])

lemma rules_collected_all: "rules_collected rs c \<Longrightarrow> rules_collected (rs @ rs') (collect_rules rs' c)"
proof (induction rs' arbitrary: rs c)
  case (Cons r rs')
  then show ?case using rules_collected_step [of rs c r] Cons.IH [of "rs @ [r]" "collect_rule r c"] by (simp add: collect_rules_def)
qed (simp add: collect_rules_def)

definition has_room :: "acl_compiler \<Rightarrow> bool" where
  "has_room c = (3 \<le> chunks_bucket_size (nc_tree (network_ipv4_source c)) \<and> 3 \<le> chunks_bucket_size (nc_tree (network_ipv4_destination c)) \<and>
     15 \<le> chunks_bucket_size (nc_tree (network_ipv6_source c)) \<and> 15 \<le> chunks_bucket_size (nc_tree (network_ipv6_destination c)))"

lemma depths: "depth TYPE(32) = 3" "depth TYPE(128) = 15" "whole_bytes TYPE(32)" "whole_bytes TYPE(128)"
  by (simp_all add: depth_def whole_bytes_def)

lemma rules_collected_clear: "has_room c \<Longrightarrow> rules_collected [] (compiler_clear c)"
  using collected_clear [of "network_ipv4_source c"] collected_clear [of "network_ipv4_destination c"]
    collected_clear [of "network_ipv6_source c"] collected_clear [of "network_ipv6_destination c"]
  by (simp add: rules_collected_def collected_ids_def filters_of_def compiler_clear_def has_room_def depths)

section \<open>The groups decide the rules\<close>

definition net_accepts :: "'a::len word acl_network \<Rightarrow> nat \<Rightarrow> 'a word \<Rightarrow> bool" where
  "net_accepts n filter_id x =
     (case get_group_ids_by_address x n of
        Some g \<Rightarrow> filter_id < length (nc_filter_group_ids n) \<and> g \<in> set (nc_filter_group_ids n ! filter_id)
      | None \<Rightarrow> False)"

text \<open>A compiled network, and the numbers of the rules' filters in it.\<close>

definition net_ready :: "(rule_networks \<Rightarrow> net_filter) \<Rightarrow> rule_networks list \<Rightarrow> u32 \<Rightarrow> u32 \<Rightarrow> 'a::len word acl_network \<Rightarrow> nat list \<Rightarrow> bool" where
  "net_ready sel rs shared shared' n ids \<longleftrightarrow> built (filters_of sel rs) shared shared' n \<and> unat shared \<le> unat shared' \<and> length ids = length rs \<and>
     (\<forall>k < length rs. map_of (nc_filter_ids n) (sel (rs ! k)) = Some (ids ! k) \<and> sel (rs ! k) \<in> set (filters_of sel rs))"

lemma collected_ids_built:
  fixes n :: "'a::len word acl_network"
  assumes "whole_bytes TYPE('a)" and col: "collected_ids sel rs n ids" and "fits_net TYPE('a) (filters_of sel rs)" and "unat shared \<le> 2 ^ 30"
  shows "\<exists>shared' n'. network_build shared n = Some (shared', n') \<and> net_ready sel rs shared shared' n' ids \<and>
     unat shared' \<le> unat shared + class_count TYPE('a) (filters_of sel rs)"
proof -
  let ?fs = "filters_of sel rs"
  have c: "collected ?fs n" using col by (simp add: collected_ids_def)
  have "map_of (nc_filter_ids n) (sel (rs ! k)) = Some (ids ! k) \<and> sel (rs ! k) \<in> set ?fs" if "k < length rs" for k
    using col that nth_mem [of "ids ! k" ?fs] by (simp add: collected_ids_def collected_def)
  moreover have "length ids = length rs" using col by (simp add: collected_ids_def)
  ultimately show ?thesis using network_built [OF assms(1) c assms(3,4)] unfolding net_ready_def by metis
qed

lemma ready_accepts:
  fixes x :: "'a::len word"
  assumes rd: "net_ready sel rs shared shared' n ids" and k: "k < length rs" and x: "\<exists>flt \<in> set (filters_of sel rs). filter_match flt x"
  shows "net_accepts n (ids ! k) x \<longleftrightarrow> filter_match (sel (rs ! k)) x"
proof -
  let ?fs = "filters_of sel rs"
  have b: "built ?fs shared shared' n" and m: "map_of (nc_filter_ids n) (sel (rs ! k)) = Some (ids ! k)" and mem: "sel (rs ! k) \<in> set ?fs"
    using rd k by (auto simp: net_ready_def)
  obtain groups where g: "get_group_ids_by_filter (sel (rs ! k)) n = Some groups" using b mem by (auto simp: built_def)
  then have gs: "ids ! k < length (nc_filter_group_ids n)" "groups = nc_filter_group_ids n ! (ids ! k)"
    using m by (auto simp: get_group_ids_by_filter_def split: if_splits)
  have "get_group_ids_by_address x n = Some (address_group n x)" using b by (simp add: built_def)
  then show ?thesis using built_exact [OF b mem _ g, of x] x gs by (simp add: net_accepts_def)
qed

lemma set_filters_of: "set (filters_of sel rs) = sel ` set rs"
proof -
  have "set (fold add_filter fs gs) = set fs \<union> set gs" for fs gs by (induction fs arbitrary: gs) (auto simp: add_filter_def)
  then show ?thesis by (simp add: filters_of_def)
qed

lemma any_rule_match:
  assumes "families_ok (rn_src r)" and "families_ok (rn_dst r)" and "any_side (rn_src r)" and "any_side (rn_dst r)"
  shows "filter_match (src4 r) (x :: u32) \<and> filter_match (dst4 r) (x :: u32) \<and> filter_match (src6 r) (v :: u128) \<and> filter_match (dst6 r) (v :: u128)"
proof -
  obtain s4 d4 s6 d6 where r: "rule_net_filters r = (s4, d4, s6, d6)" by (cases "rule_net_filters r")
  show ?thesis using rule_filters_match(1) [OF r assms(1,2), of x x] rule_filters_match(2) [OF r assms(1,2), of v v] assms(3,4) r
    by (auto simp: any_side_def rule_match_def side_match_def)
qed

definition rules_fit :: "rule_networks list \<Rightarrow> bool" where
  "rules_fit rs \<longleftrightarrow> (\<forall>r \<in> set rs. families_ok (rn_src r) \<and> families_ok (rn_dst r)) \<and>
     fits_net TYPE(32) (filters_of src4 rs) \<and> fits_net TYPE(32) (filters_of dst4 rs) \<and>
     fits_net TYPE(128) (filters_of src6 rs) \<and> fits_net TYPE(128) (filters_of dst6 rs)"

definition rules_ok :: "rule_networks list \<Rightarrow> bool" where
  "rules_ok rs \<longleftrightarrow> rules_fit rs \<and> (\<exists>r \<in> set rs. any_side (rn_src r) \<and> any_side (rn_dst r))"

lemma rules_any_match:
  assumes "rules_ok rs"
  shows "\<exists>flt \<in> set (filters_of src4 rs). filter_match flt (x :: u32)" "\<exists>flt \<in> set (filters_of dst4 rs). filter_match flt (x :: u32)"
    "\<exists>flt \<in> set (filters_of src6 rs). filter_match flt (v :: u128)" "\<exists>flt \<in> set (filters_of dst6 rs). filter_match flt (v :: u128)"
proof -
  obtain r where r: "r \<in> set rs" "families_ok (rn_src r)" "families_ok (rn_dst r)" "any_side (rn_src r)" "any_side (rn_dst r)"
    using assms by (auto simp: rules_ok_def rules_fit_def)
  show "\<exists>flt \<in> set (filters_of src4 rs). filter_match flt (x :: u32)" "\<exists>flt \<in> set (filters_of dst4 rs). filter_match flt (x :: u32)"
    "\<exists>flt \<in> set (filters_of src6 rs). filter_match flt (v :: u128)" "\<exists>flt \<in> set (filters_of dst6 rs). filter_match flt (v :: u128)"
    using any_rule_match [OF r(2-5), of x v] r(1) by (auto simp: set_filters_of)
qed

text \<open>The four networks after the compilation, and the group numbers each of them starts from.\<close>

definition compiled_rules :: "rule_networks list \<Rightarrow> acl_compiler \<Rightarrow> bool" where
  "compiled_rules rs c \<longleftrightarrow> length (compiler_rules c) = length rs \<and> unat (source_group_id c) \<le> 2 ^ 31 \<and> unat (destination_group_id c) \<le> 2 ^ 31 \<and> (\<exists>i j.
     net_ready src4 rs 0 i (network_ipv4_source c) (map network_ipv4_source_filter_id (compiler_rules c)) \<and>
     net_ready dst4 rs 0 j (network_ipv4_destination c) (map network_ipv4_destination_filter_id (compiler_rules c)) \<and>
     net_ready src6 rs i (source_group_id c) (network_ipv6_source c) (map network_ipv6_source_filter_id (compiler_rules c)) \<and>
     net_ready dst6 rs j (destination_group_id c) (network_ipv6_destination c) (map network_ipv6_destination_filter_id (compiler_rules c)))"

lemma compile_rules_effect:
  assumes ok: "rules_fit rs" and room: "has_room c"
  shows "\<exists>c'. compile_rules rs c = Some c' \<and> compiled_rules rs c'"
proof -
  let ?c = "collect_rules rs (compiler_clear c)"
  have col: "rules_collected rs ?c" using rules_collected_all [OF rules_collected_clear [OF room], of rs] by simp
  note C = col [unfolded rules_collected_def] and F = ok [unfolded rules_fit_def]
  have fit: "class_count TYPE(32) (filters_of src4 rs) \<le> 2 ^ 30" "class_count TYPE(32) (filters_of dst4 rs) \<le> 2 ^ 30"
    "class_count TYPE(128) (filters_of src6 rs) \<le> 2 ^ 30" "class_count TYPE(128) (filters_of dst6 rs) \<le> 2 ^ 30" using F by (simp_all add: fits_net_def)
  obtain i s4 where s4: "network_build 0 (network_ipv4_source ?c) = Some (i, s4)" and s4r: "net_ready src4 rs 0 i s4 (map network_ipv4_source_filter_id (compiler_rules ?c))"
      and i: "unat i \<le> 2 ^ 30"
    using collected_ids_built [of src4 rs "network_ipv4_source ?c" "map network_ipv4_source_filter_id (compiler_rules ?c)" 0] C F depths(3) fit(1) by fastforce
  obtain j d4 where d4: "network_build 0 (network_ipv4_destination ?c) = Some (j, d4)" and d4r: "net_ready dst4 rs 0 j d4 (map network_ipv4_destination_filter_id (compiler_rules ?c))"
      and j: "unat j \<le> 2 ^ 30"
    using collected_ids_built [of dst4 rs "network_ipv4_destination ?c" "map network_ipv4_destination_filter_id (compiler_rules ?c)" 0] C F depths(3) fit(2) by fastforce
  obtain i' s6 where s6: "network_build i (network_ipv6_source ?c) = Some (i', s6)" and s6r: "net_ready src6 rs i i' s6 (map network_ipv6_source_filter_id (compiler_rules ?c))"
      and i': "unat i' \<le> 2 ^ 31"
    using collected_ids_built [of src6 rs "network_ipv6_source ?c" "map network_ipv6_source_filter_id (compiler_rules ?c)" i] C F depths(4) i fit(3) by fastforce
  obtain j' d6 where d6: "network_build j (network_ipv6_destination ?c) = Some (j', d6)" and d6r: "net_ready dst6 rs j j' d6 (map network_ipv6_destination_filter_id (compiler_rules ?c))"
      and j': "unat j' \<le> 2 ^ 31"
    using collected_ids_built [of dst6 rs "network_ipv6_destination ?c" "map network_ipv6_destination_filter_id (compiler_rules ?c)" j] C F depths(4) j fit(4) by fastforce
  have z: "source_group_id ?c = 0" "destination_group_id ?c = 0" using C by simp_all
  have "length (compiler_rules ?c) = length rs" using C by (simp add: collected_ids_def)
  then show ?thesis
    using compile_networks_builds [of ?c i s4 j d4 i' s6 j' d6] s4 d4 s6 d6 s4r d4r s6r d6r i' j' unfolding z compile_rules_def compiled_rules_def by auto
qed

definition accepts4 :: "acl_compiler \<Rightarrow> nat \<Rightarrow> u32 \<Rightarrow> u32 \<Rightarrow> bool" where
  "accepts4 c k x y = (net_accepts (network_ipv4_source c) (network_ipv4_source_filter_id (compiler_rules c ! k)) x \<and>
     net_accepts (network_ipv4_destination c) (network_ipv4_destination_filter_id (compiler_rules c ! k)) y)"

definition accepts6 :: "acl_compiler \<Rightarrow> nat \<Rightarrow> u128 \<Rightarrow> u128 \<Rightarrow> bool" where
  "accepts6 c k x y = (net_accepts (network_ipv6_source c) (network_ipv6_source_filter_id (compiler_rules c ! k)) x \<and>
     net_accepts (network_ipv6_destination c) (network_ipv6_destination_filter_id (compiler_rules c ! k)) y)"

lemma compiled_accepts:
  assumes ok: "rules_ok rs" and c: "compiled_rules rs c" and k: "k < length rs"
  shows "accepts4 c k x y \<longleftrightarrow> rule_match 4 (rs ! k) x y" "accepts6 c k v w \<longleftrightarrow> rule_match 6 (rs ! k) v w"
proof -
  obtain s4 d4 s6 d6 where r: "rule_net_filters (rs ! k) = (s4, d4, s6, d6)" by (cases "rule_net_filters (rs ! k)")
  have fam: "families_ok (rn_src (rs ! k))" "families_ok (rn_dst (rs ! k))" using ok k by (auto simp: rules_ok_def rules_fit_def)
  have len: "k < length (compiler_rules c)" using c k by (simp add: compiled_rules_def)
  obtain i j where R: "net_ready src4 rs 0 i (network_ipv4_source c) (map network_ipv4_source_filter_id (compiler_rules c))"
     "net_ready dst4 rs 0 j (network_ipv4_destination c) (map network_ipv4_destination_filter_id (compiler_rules c))"
     "net_ready src6 rs i (source_group_id c) (network_ipv6_source c) (map network_ipv6_source_filter_id (compiler_rules c))"
     "net_ready dst6 rs j (destination_group_id c) (network_ipv6_destination c) (map network_ipv6_destination_filter_id (compiler_rules c))"
    using c by (auto simp: compiled_rules_def)
  show "accepts4 c k x y \<longleftrightarrow> rule_match 4 (rs ! k) x y"
    using ready_accepts [OF R(1) k rules_any_match(1) [OF ok], of x] ready_accepts [OF R(2) k rules_any_match(2) [OF ok], of y]
      rule_filters_match(1) [OF r fam, of x y] r len by (simp add: accepts4_def)
  show "accepts6 c k v w \<longleftrightarrow> rule_match 6 (rs ! k) v w"
    using ready_accepts [OF R(3) k rules_any_match(3) [OF ok], of v] ready_accepts [OF R(4) k rules_any_match(4) [OF ok], of w]
      rule_filters_match(2) [OF r fam, of v w] r len by (simp add: accepts6_def)
qed

section \<open>Properties\<close>

text \<open>
  C4: compiling a rule list returns, and the compiled groups decide every rule exactly.  For a list in which
  every network is IPv4 or IPv6, some rule is for any source and destination, and whose masks have no gap and
  whose group and chunk numbers stay in range, \<^verbatim>\<open>compile_rules\<close> succeeds; and for every rule and every pair of addresses
  of either family, the pair's source and destination groups are both among the groups of the rule's filters if and only
  if the addresses are in the networks the rule was written with.
\<close>

theorem compiled_rules_decide:
  assumes "rules_ok rs" and "has_room c"
  shows "\<exists>c'. compile_rules rs c = Some c' \<and>
     (\<forall>k < length rs. (\<forall>x y. accepts4 c' k x y = rule_match 4 (rs ! k) x y) \<and> (\<forall>v w. accepts6 c' k v w = rule_match 6 (rs ! k) v w))"
  using compile_rules_effect [OF _ assms(2), of rs] compiled_accepts [OF assms(1)] assms(1) unfolding rules_ok_def by blast

definition sample_rules :: "rule_networks list" where
  "sample_rules = [\<lparr>rn_src = Some [Network 4 0x0A000000 0xFF000000], rn_dst = None\<rparr>, \<lparr>rn_src = None, rn_dst = None\<rparr>]"

lemma sample_filters:
  "filters_of src4 sample_rules = [[Network 4 0x0A000000 0xFF000000], [Network 4 0 0]]" "filters_of dst4 sample_rules = [[Network 4 0 0]]"
  "filters_of src6 sample_rules = [[], [Network 6 0 0]]" "filters_of dst6 sample_rules = [[], [Network 6 0 0]]"
  by (simp_all add: filters_of_def sample_rules_def rule_net_filters_def side_filters_def network_normalize_def add_filter_def insort_insert_key_def)

lemma sample_rules_ok: "rules_ok sample_rules"
  using class_count_le [where ?'a = 32, of "filters_of src4 sample_rules"] class_count_le [where ?'a = 32, of "filters_of dst4 sample_rules"]
    class_count_le [where ?'a = 128, of "filters_of src6 sample_rules"] class_count_le [where ?'a = 128, of "filters_of dst6 sample_rules"]
  unfolding rules_ok_def rules_fit_def fits_net_def sample_filters
  by (simp add: depths gap_free_def is_mask_gapped_def) (simp add: sample_rules_def families_ok_def any_side_def)

theorem compiled_rules_decide_witness:
  "\<exists>c'. compile_rules sample_rules (compiler_new 65536) = Some c' \<and> accepts4 c' 0 0x0A010203 7 \<and> \<not> accepts4 c' 0 0x0B010203 7 \<and> \<not> accepts6 c' 0 1 2 \<and> accepts6 c' 1 1 2"
proof -
  have room: "has_room (compiler_new 65536)" by (simp add: has_room_def compiler_new_def network_new_def network_clear_def tree_new_def tree_clear_def)
  have m: "rule_match 4 (sample_rules ! 0) (0x0A010203 :: u32) 7" "\<not> rule_match 4 (sample_rules ! 0) (0x0B010203 :: u32) 7"
    "\<not> rule_match 6 (sample_rules ! 0) (1 :: u128) 2" "rule_match 6 (sample_rules ! 1) (1 :: u128) 2"
    by (simp_all add: rule_match_def side_match_def sample_rules_def)
  have "length sample_rules = 2" by (simp add: sample_rules_def)
  then show ?thesis using compiled_rules_decide [OF sample_rules_ok room] m by auto
qed

text \<open>An address in no filter shares its group with an address of some filter.\<close>

lemma ready_uncovered:
  fixes x y :: "'a::len word"
  assumes rd: "net_ready sel rs 0 shared' n ids" and x: "\<forall>r \<in> set rs. \<not> filter_match (sel r) x" and y: "\<exists>r \<in> set rs. filter_match (sel r) y"
  shows "\<exists>k < length rs. net_accepts n (ids ! k) x"
proof -
  let ?fs = "filters_of sel rs"
  note b = rd [unfolded net_ready_def, THEN conjunct1, unfolded built_def set_filters_of]
  have gx: "get_group_ids_by_address x n = Some 0" using b x by auto
  obtain r z where r: "r \<in> set rs" "filter_match (sel r) z" "address_group n z = 0" using b y by blast
  obtain k where k: "k < length rs" "r = rs ! k" using r(1) by (auto simp: in_set_conv_nth)
  have m: "map_of (nc_filter_ids n) (sel r) = Some (ids ! k)" using rd k by (simp add: net_ready_def)
  obtain groups where g: "get_group_ids_by_filter (sel r) n = Some groups" "0 \<in> set groups" using b r by (metis image_eqI)
  then have "ids ! k < length (nc_filter_group_ids n)" "0 \<in> set (nc_filter_group_ids n ! (ids ! k))"
    using m by (auto simp: get_group_ids_by_filter_def split: if_splits)
  then show ?thesis using gx k(1) by (auto simp: net_accepts_def)
qed

text \<open>
  C33: the numbering starts at group 0, which is also the group of addresses that no filter names.  For every rule list that
  compiles and has an address in some IPv4 source filter, an address that is in none of them is nevertheless in a group
  of some rule's source filter: without a rule for any address, the compiled table matches packets no rule names.
\<close>

theorem uncovered_address_accepted:
  fixes x y :: u32
  assumes "rules_fit rs" and "has_room c" and "\<forall>r \<in> set rs. \<not> filter_match (src4 r) x" and "\<exists>r \<in> set rs. filter_match (src4 r) y"
  shows "\<exists>c'. compile_rules rs c = Some c' \<and>
     (\<exists>k < length rs. net_accepts (network_ipv4_source c') (network_ipv4_source_filter_id (compiler_rules c' ! k)) x)"
proof -
  obtain c' where c: "compile_rules rs c = Some c'" "compiled_rules rs c'" using compile_rules_effect [OF assms(1,2)] by blast
  then obtain i where "net_ready src4 rs 0 i (network_ipv4_source c') (map network_ipv4_source_filter_id (compiler_rules c'))" "length (compiler_rules c') = length rs"
    by (auto simp: compiled_rules_def)
  then show ?thesis using ready_uncovered [of src4 rs i "network_ipv4_source c'" _ x y] assms(3,4) c(1) by fastforce
qed

theorem uncovered_address_accepted_witness:
  "\<exists>c'. compile_rules (take 1 sample_rules) (compiler_new 65536) = Some c' \<and>
     net_accepts (network_ipv4_source c') (network_ipv4_source_filter_id (compiler_rules c' ! 0)) 0x0B010203 \<and>
     \<not> rule_match 4 (sample_rules ! 0) (0x0B010203 :: u32) 7"
proof -
  let ?rs = "take 1 sample_rules"
  have fs: "filters_of src4 ?rs = [[Network 4 0x0A000000 0xFF000000]]" "filters_of dst4 ?rs = [[Network 4 0 0]]" "filters_of src6 ?rs = [[]]" "filters_of dst6 ?rs = [[]]"
    by (simp_all add: filters_of_def sample_rules_def rule_net_filters_def side_filters_def network_normalize_def add_filter_def insort_insert_key_def)
  have fit: "rules_fit ?rs"
    using class_count_le [where ?'a = 32, of "filters_of src4 ?rs"] class_count_le [where ?'a = 32, of "filters_of dst4 ?rs"]
      class_count_le [where ?'a = 128, of "filters_of src6 ?rs"] class_count_le [where ?'a = 128, of "filters_of dst6 ?rs"]
    unfolding rules_fit_def fits_net_def fs by (simp add: depths gap_free_def is_mask_gapped_def) (simp add: sample_rules_def families_ok_def)
  have room: "has_room (compiler_new 65536)" by (simp add: has_room_def compiler_new_def network_new_def network_clear_def tree_new_def tree_clear_def)
  have r: "\<forall>r \<in> set ?rs. \<not> filter_match (src4 r) (0x0B010203 :: u32)" "\<exists>r \<in> set ?rs. filter_match (src4 r) (0x0A010203 :: u32)"
    using fs(1) by (simp_all add: sample_rules_def filters_of_def add_filter_def filter_match_def)
  have "\<not> rule_match 4 (sample_rules ! 0) (0x0B010203 :: u32) 7" "length ?rs = 1" by (simp_all add: rule_match_def side_match_def sample_rules_def)
  then show ?thesis using uncovered_address_accepted [OF fit room r] by auto
qed

end
