(* ===== verification/AclNdarray.thy ===== *)
theory AclNdarray
  imports AclClasses
begin

text \<open>
  Tables with several dimensions, \<^verbatim>\<open>NDArray\<close> of \<^verbatim>\<open>src/controlplane/ndarray.h\<close>, for group numbers: one vector in
  row-major order.  Sizes and indices are 64-bit, as \<^verbatim>\<open>std::size_t\<close>; an index out of range is \<open>None\<close>.  Also the
  numbering of the cells of such a table by \<^verbatim>\<open>table_insert\<close>, against the contract of a table of cells.
\<close>

section \<open>Definitions\<close>

record nd_array =
  nd_values :: "u32 list"
  nd_sizes :: "u64 list"
  nd_strides :: "u64 list"

fun flatten_index :: "u64 list \<Rightarrow> u64 list \<Rightarrow> u64 list \<Rightarrow> u64 \<Rightarrow> u64 option" where
  "flatten_index (i # idx) (n # sizes) (s # strides) flat = (if n \<le> i then None else flatten_index idx sizes strides (flat + i * s))"
| "flatten_index _ _ _ flat = Some flat"

text \<open>The loop runs from the last dimension to the first.\<close>

primrec unflatten_steps :: "u64 list \<Rightarrow> u64 \<Rightarrow> u64 list \<times> u64" where
  "unflatten_steps [] flat = ([], flat)"
| "unflatten_steps (n # sizes) flat = (let (keys, flat) = unflatten_steps sizes flat in (flat mod n # keys, flat div n))"

definition unflatten_index :: "u64 list \<Rightarrow> u64 \<Rightarrow> u64 list" where
  "unflatten_index sizes flat = fst (unflatten_steps sizes flat)"

fun compute_strides :: "u64 list \<Rightarrow> u64 list" where
  "compute_strides [] = []"
| "compute_strides [n] = [1]"
| "compute_strides (n # m # sizes) = (let strides = compute_strides (m # sizes) in hd strides * m # strides)"

definition nd_clear :: "nd_array \<Rightarrow> nd_array" where
  "nd_clear a = \<lparr>nd_values = [], nd_sizes = map (\<lambda>_. 0) (nd_sizes a), nd_strides = map (\<lambda>_. 0) (nd_strides a)\<rparr>"

definition nd_prepare :: "u64 list \<Rightarrow> nd_array" where
  "nd_prepare sizes = \<lparr>nd_values = replicate (unat (fold (\<lambda>n total. total * n) sizes 1)) 0, nd_sizes = sizes, nd_strides = compute_strides sizes\<rparr>"

definition nd_fill :: "u32 \<Rightarrow> nd_array \<Rightarrow> nd_array" where
  "nd_fill v a = a\<lparr>nd_values := map (\<lambda>_. v) (nd_values a)\<rparr>"

definition nd_index :: "nd_array \<Rightarrow> u64 list \<Rightarrow> nat option" where
  "nd_index a idx =
     (case flatten_index idx (nd_sizes a) (nd_strides a) 0 of
        Some i \<Rightarrow> if unat i < length (nd_values a) then Some (unat i) else None
      | None \<Rightarrow> None)"

definition nd_get :: "nd_array \<Rightarrow> u64 list \<Rightarrow> u32 option" where
  "nd_get a idx = map_option (\<lambda>i. nd_values a ! i) (nd_index a idx)"

definition nd_set :: "u64 list \<Rightarrow> u32 \<Rightarrow> nd_array \<Rightarrow> nd_array" where
  "nd_set idx v a = (case nd_index a idx of Some i \<Rightarrow> a\<lparr>nd_values := (nd_values a)[i := v]\<rparr> | None \<Rightarrow> a)"

text \<open>The calls that \<^verbatim>\<open>for_each\<close> makes.\<close>

definition nd_for_each :: "nd_array \<Rightarrow> (u64 list \<times> u32) list" where
  "nd_for_each a =
     map (\<lambda>i. (unflatten_index (nd_sizes a) (of_nat i), nd_values a ! i)) (filter (\<lambda>i. nd_values a ! i \<noteq> 0) [0..<length (nd_values a)])"

section \<open>Row-major order\<close>

primrec row_major :: "nat list \<Rightarrow> nat list \<Rightarrow> nat" where
  "row_major [] sizes = 0"
| "row_major (i # idx) sizes = i * prod_list (tl sizes) + row_major idx (tl sizes)"

definition in_box :: "u64 list \<Rightarrow> u64 list \<Rightarrow> bool" where
  "in_box idx sizes \<longleftrightarrow> list_all2 (<) idx sizes"

definition box_size :: "u64 list \<Rightarrow> nat" where
  "box_size sizes = prod_list (map unat sizes)"

abbreviation flat_of :: "u64 list \<Rightarrow> u64 list \<Rightarrow> nat" where
  "flat_of idx sizes \<equiv> row_major (map unat idx) (map unat sizes)"

lemma total_size: "fold (\<lambda>n total. total * n) sizes t = t * of_nat (box_size sizes)" for t :: u64
  by (induction sizes arbitrary: t) (simp_all add: box_size_def mult.assoc)

lemma strides_step: "compute_strides (n # sizes) = of_nat (box_size sizes) # compute_strides sizes"
  by (induction sizes arbitrary: n) (simp_all add: box_size_def Let_def mult.commute)

lemma flatten_row_major: "in_box idx sizes \<Longrightarrow> flatten_index idx sizes (compute_strides sizes) flat = Some (flat + of_nat (flat_of idx sizes))"
proof (induction idx arbitrary: sizes flat)
  case (Cons i idx)
  then obtain n ns where s: "sizes = n # ns" "i < n" "in_box idx ns" by (auto simp: in_box_def list_all2_Cons1)
  then show ?case using Cons.IH [OF s(3)] by (simp add: strides_step box_size_def algebra_simps)
qed (simp add: in_box_def)

lemma flatten_outside: "length idx = length sizes \<Longrightarrow> \<not> in_box idx sizes \<Longrightarrow> flatten_index idx sizes (compute_strides sizes) flat = None"
  by (induction idx sizes arbitrary: flat rule: list_induct2) (auto simp: in_box_def strides_step)

lemma row_major_bound: "in_box idx sizes \<Longrightarrow> flat_of idx sizes < box_size sizes"
proof (induction idx arbitrary: sizes)
  case (Cons i idx)
  then obtain n ns where s: "sizes = n # ns" "i < n" "in_box idx ns" by (auto simp: in_box_def list_all2_Cons1)
  then have "unat i * box_size ns + flat_of idx ns < Suc (unat i) * box_size ns" using Cons.IH [OF s(3)] by simp
  also have "\<dots> \<le> unat n * box_size ns" using s(2) by (intro mult_le_mono1) (simp add: word_less_nat_alt)
  finally show ?case by (simp add: s(1) box_size_def)
qed (simp add: in_box_def box_size_def)

lemma unflatten_row_major:
  assumes "in_box idx sizes" and "q * box_size sizes + flat_of idx sizes < 2 ^ 64"
  shows "unflatten_steps sizes (of_nat (q * box_size sizes + flat_of idx sizes)) = (idx, of_nat q)"
  using assms
proof (induction idx arbitrary: sizes q)
  case (Cons i idx)
  then obtain n ns where s: "sizes = n # ns" "i < n" "in_box idx ns" by (auto simp: in_box_def list_all2_Cons1)
  let ?q = "q * unat n + unat i"
  have e: "q * box_size sizes + flat_of (i # idx) sizes = ?q * box_size ns + flat_of idx ns" by (simp add: s(1) box_size_def algebra_simps)
  have IH: "unflatten_steps ns (of_nat (?q * box_size ns + flat_of idx ns)) = (idx, of_nat ?q)" using Cons.IH [OF s(3), of ?q] Cons.prems(2) e by simp
  have pos: "0 < box_size ns" using row_major_bound [OF s(3)] by simp
  then have "?q \<le> ?q * box_size ns" by simp
  then have q: "?q < 2 ^ 64" using Cons.prems(2) e by linarith
  then have u: "unat (of_nat ?q :: u64) = ?q" by (intro unat_of_nat_small) simp
  have i: "unat i < unat n" using s(2) by (simp add: word_less_nat_alt)
  then have "q * 1 \<le> q * unat n" by (intro mult_le_mono2) simp
  then have "q < 2 ^ 64" using q by linarith
  then have uq: "unat (of_nat q :: u64) = q" by (intro unat_of_nat_small) simp
  have "unat (of_nat ?q mod n) = unat i" "unat (of_nat ?q div n) = unat (of_nat q :: u64)" unfolding unat_mod unat_div u uq using i by simp_all
  then have "of_nat ?q mod n = i" "of_nat ?q div n = (of_nat q :: u64)" by (simp_all add: word_unat_eq_iff)
  then show ?case unfolding e by (simp add: s(1) IH del: of_nat_add of_nat_mult)
qed (simp add: in_box_def box_size_def)

lemma flat_of_inj:
  assumes "in_box idx sizes" and "in_box idx' sizes" and "box_size sizes \<le> 2 ^ 64" and "flat_of idx sizes = flat_of idx' sizes"
  shows "idx = idx'"
proof -
  have "flat_of idx sizes < 2 ^ 64" using row_major_bound [OF assms(1)] assms(3) by linarith
  then show ?thesis using unflatten_row_major [OF assms(1), of 0] unflatten_row_major [OF assms(2), of 0] assms(4) by simp
qed

section \<open>The contract of a table\<close>

definition nd_ok :: "u64 list \<Rightarrow> nd_array \<Rightarrow> bool" where
  "nd_ok sizes a \<longleftrightarrow> nd_sizes a = sizes \<and> nd_strides a = compute_strides sizes \<and> length (nd_values a) = box_size sizes \<and> box_size sizes < 2 ^ 64"

lemma nd_prepare_ok: "box_size sizes < 2 ^ 64 \<Longrightarrow> nd_ok sizes (nd_prepare sizes)"
  by (simp add: nd_ok_def nd_prepare_def total_size unat_of_nat_small)

lemma nd_index_ok: "nd_ok sizes a \<Longrightarrow> in_box idx sizes \<Longrightarrow> nd_index a idx = Some (flat_of idx sizes)"
  using row_major_bound [of idx sizes] by (simp add: nd_ok_def nd_index_def flatten_row_major unat_of_nat_small)

lemma nd_set_ok: "nd_ok sizes a \<Longrightarrow> nd_ok sizes (nd_set idx v a)"
  by (simp add: nd_set_def nd_ok_def split: option.split)

lemma nd_get_set:
  assumes "nd_ok sizes a" and "in_box idx sizes" and "in_box idx' sizes"
  shows "nd_get (nd_set idx v a) idx' = (if idx' = idx then Some v else nd_get a idx')"
proof -
  have i: "nd_index a idx = Some (flat_of idx sizes)" using assms(1,2) by (rule nd_index_ok)
  have "nd_index (nd_set idx v a) idx' = Some (flat_of idx' sizes)" "nd_index a idx' = Some (flat_of idx' sizes)"
    using assms(3) nd_set_ok [OF assms(1)] assms(1) by (simp_all add: nd_index_ok)
  moreover have "nd_values (nd_set idx v a) = (nd_values a)[flat_of idx sizes := v]" by (simp add: nd_set_def i)
  moreover have "flat_of idx sizes = flat_of idx' sizes \<longleftrightarrow> idx' = idx" using flat_of_inj [OF assms(3,2)] assms(1) by (auto simp: nd_ok_def)
  moreover have "flat_of idx sizes < length (nd_values a)" using row_major_bound [OF assms(2)] assms(1) by (simp add: nd_ok_def)
  ultimately show ?thesis by (simp add: nd_get_def nth_list_update)
qed

lemma nd_get_prepared: "box_size sizes < 2 ^ 64 \<Longrightarrow> in_box idx sizes \<Longrightarrow> nd_get (nd_prepare sizes) idx = Some 0"
  using row_major_bound [of idx sizes] nd_index_ok [OF nd_prepare_ok, of sizes idx]
  by (simp add: nd_get_def) (simp add: nd_prepare_def total_size unat_of_nat_small)

section \<open>Numbering the cells\<close>

text \<open>
  \<^verbatim>\<open>table_insert\<close> of the network table and of the transport table: the cell takes the new group that the filter
  has for its old one.  Reading and writing a cell are arguments.
\<close>

definition table_insert ::
  "('s \<Rightarrow> 'k \<Rightarrow> u32 option) \<Rightarrow> ('k \<Rightarrow> u32 \<Rightarrow> 's \<Rightarrow> 's) \<Rightarrow> u32 \<Rightarrow> 'k \<Rightarrow> 's \<times> (u32 \<Rightarrow> u32 option) \<times> u32 \<Rightarrow>
     ('s \<times> (u32 \<Rightarrow> u32 option) \<times> u32) option" where
  "table_insert read store initial_group_id keys s =
     (let (table, remap_group_ids, group_id) = s in
      Option.bind (read table keys) (\<lambda>v.
        if initial_group_id \<le> v then Some s
        else case remap_group_ids v of
            None \<Rightarrow> Some (store keys group_id table, remap_group_ids(v \<mapsto> group_id), group_id + 1)
          | Some g \<Rightarrow> Some (store keys g table, remap_group_ids, group_id)))"

locale cell_table =
  fixes read :: "'s \<Rightarrow> 'k \<Rightarrow> u32 option" and store :: "'k \<Rightarrow> u32 \<Rightarrow> 's \<Rightarrow> 's" and ok :: "'s \<Rightarrow> bool" and key :: "'k \<Rightarrow> bool"
  assumes store_ok: "ok s \<Longrightarrow> ok (store k v s)"
    and read_store: "ok s \<Longrightarrow> key k \<Longrightarrow> key k' \<Longrightarrow> read (store k v s) k' = (if k' = k then Some v else read s k')"
begin

definition follows :: "nat \<Rightarrow> 'k classes \<Rightarrow> 's \<times> (u32 \<Rightarrow> u32 option) \<times> u32 \<Rightarrow> bool" where
  "follows n\<^sub>0 c s \<longleftrightarrow>
     (let (T, names, nxt) = c; (table, remap, group_id) = s in
      ok table \<and> (\<forall>k. T k < nxt) \<and> (\<forall>k. key k \<longrightarrow> read table k = Some (of_nat (T k))) \<and> n\<^sub>0 \<le> nxt \<and> nxt < 2 ^ 32 \<and> group_id = of_nat nxt \<and>
      (\<forall>v < n\<^sub>0. remap (of_nat v) = map_option of_nat (names v)) \<and> (\<forall>v g. names v = Some g \<longrightarrow> g < nxt))"

lemma insert_follows:
  assumes f: "follows n\<^sub>0 c s" and k: "key k" and room: "snd (snd (visit n\<^sub>0 k c)) < 2 ^ 32"
  shows "\<exists>s'. table_insert read store (of_nat n\<^sub>0) k s = Some s' \<and> follows n\<^sub>0 (visit n\<^sub>0 k c) s'"
proof -
  obtain T names nxt table remap group_id where s: "c = (T, names, nxt)" "s = (table, remap, group_id)" by (cases c, cases s)
  note F = f [unfolded follows_def s, simplified]
  have rd: "read table k = Some (of_nat (T k))" using F k by blast
  have u: "unat (of_nat v :: u32) = v" if "v \<le> nxt" for v using that F by (intro unat_of_nat_small) simp
  have lt: "T k < nxt" using F by blast
  have le: "(of_nat n\<^sub>0 :: u32) \<le> of_nat (T k) \<longleftrightarrow> n\<^sub>0 \<le> T k" using F u [OF less_imp_le [OF lt]] u [of n\<^sub>0] by (simp add: word_le_nat_alt)
  have upd: "read (store k g table) k' = (if k' = k then Some g else read table k')" if "key k'" for k' g using F k that by (simp add: read_store)
  show ?thesis
  proof (cases "n\<^sub>0 \<le> T k")
    case True
    then show ?thesis using f rd le by (simp add: s table_insert_def visit_def)
  next
    case False
    then have rm: "remap (of_nat (T k)) = map_option of_nat (names (T k))" using F by simp
    show ?thesis
    proof (cases "names (T k)")
      case None
      then have more: "Suc nxt < 2 ^ 32" using room False by (simp add: s visit_def)
      have "(remap(of_nat (T k) \<mapsto> group_id)) (of_nat v) = map_option of_nat ((names(T k \<mapsto> nxt)) v)" if "v < n\<^sub>0" for v
        using that F u [of v] u [OF less_imp_le [OF lt]] by (cases "v = T k") auto
      moreover have "\<forall>v g. (names(T k \<mapsto> nxt)) v = Some g \<longrightarrow> g < Suc nxt" using F by (auto simp: less_SucI)
      ultimately have "follows n\<^sub>0 (T(k := nxt), names(T k \<mapsto> nxt), Suc nxt) (store k group_id table, remap(of_nat (T k) \<mapsto> group_id), group_id + 1)"
        unfolding follows_def prod.case Let_def using F upd more by (auto simp: store_ok less_SucI)
      then show ?thesis using rd le False rm None by (simp add: s table_insert_def visit_def)
    next
      case (Some g)
      then have "g < nxt" using F by blast
      then have "follows n\<^sub>0 (T(k := g), names, nxt) (store k (of_nat g) table, remap, group_id)"
        unfolding follows_def prod.case Let_def using F upd by (auto simp: store_ok)
      then show ?thesis using rd le False rm Some by (simp add: s table_insert_def visit_def)
    qed
  qed
qed

lemma inserts_follow:
  assumes "follows n\<^sub>0 c s" and "list_all key ks" and "snd (snd (fold (visit n\<^sub>0) ks c)) < 2 ^ 32"
  shows "\<exists>s'. fold (\<lambda>k os. Option.bind os (table_insert read store (of_nat n\<^sub>0) k)) ks (Some s) = Some s' \<and> follows n\<^sub>0 (fold (visit n\<^sub>0) ks c) s'"
  using assms
proof (induction ks arbitrary: c s)
  case (Cons k ks)
  have "snd (snd (visit n\<^sub>0 k c)) < 2 ^ 32" using Cons.prems(3) visits_grow [of "visit n\<^sub>0 k c" n\<^sub>0 ks] by simp
  then obtain s' where s: "table_insert read store (of_nat n\<^sub>0) k s = Some s'" "follows n\<^sub>0 (visit n\<^sub>0 k c) s'"
    using insert_follows [OF Cons.prems(1), of k] Cons.prems(2) by auto
  then show ?case using Cons.IH [OF s(2)] Cons.prems(2,3) by simp
qed simp

definition holds_classes :: "('k \<Rightarrow> nat) \<times> nat \<Rightarrow> 's \<Rightarrow> u32 \<Rightarrow> bool" where
  "holds_classes c table group_id \<longleftrightarrow> ok table \<and> (\<forall>k. fst c k < snd c) \<and> (\<forall>k. key k \<longrightarrow> read table k = Some (of_nat (fst c k))) \<and>
     snd c < 2 ^ 32 \<and> group_id = of_nat (snd c)"

lemma filter_follows:
  assumes h: "holds_classes c table group_id" and ks: "list_all key ks" and room: "snd (insert_class ks c) < 2 ^ 32"
  shows "\<exists>table' remap' group_id'. fold (\<lambda>k os. Option.bind os (table_insert read store group_id k)) ks (Some (table, Map.empty, group_id)) =
      Some (table', remap', group_id') \<and> holds_classes (insert_class ks c) table' group_id'"
proof -
  obtain T n where c: "c = (T, n)" by (cases c)
  note H = h [unfolded holds_classes_def c, simplified]
  have "follows n (T, Map.empty, n) (table, Map.empty, group_id)" using H by (simp add: follows_def)
  from inserts_follow [OF this ks] show ?thesis using room H
    by (auto simp: c insert_class_def visit_all_def follows_def holds_classes_def split: prod.splits)
qed

end

text \<open>The cells of a prepared table are such a table.\<close>

interpretation nd: cell_table nd_get nd_set "nd_ok sizes" "\<lambda>idx. in_box idx sizes" for sizes
  by unfold_locales (auto simp: nd_set_ok nd_get_set)

section \<open>Properties\<close>

text \<open>
  C31: indices and positions of a table determine each other.  For sizes whose product is below 2 to the 64th,
  every index within the sizes has a position inside the vector, and computing the index of that position
  gives the index back; an index outside the sizes is refused.
\<close>

theorem nd_index_round_trip:
  assumes "box_size sizes < 2 ^ 64" and "length idx = length sizes"
  shows "case nd_index (nd_prepare sizes) idx of
      Some i \<Rightarrow> in_box idx sizes \<and> i < length (nd_values (nd_prepare sizes)) \<and> unflatten_index sizes (of_nat i) = idx
    | None \<Rightarrow> \<not> in_box idx sizes"
proof (cases "in_box idx sizes")
  case True
  have b: "flat_of idx sizes < box_size sizes" using True by (rule row_major_bound)
  then have "unflatten_steps sizes (of_nat (flat_of idx sizes)) = (idx, 0)" using unflatten_row_major [OF True, of 0] assms(1) by simp
  then show ?thesis using True b nd_index_ok [OF nd_prepare_ok [OF assms(1)] True] nd_prepare_ok [OF assms(1)] by (simp add: unflatten_index_def nd_ok_def)
next
  case False
  have "nd_index (nd_prepare sizes) idx = None"
    using flatten_outside [OF assms(2) False, of 0] by (simp add: nd_index_def nd_prepare_def)
  then show ?thesis using False by simp
qed

theorem nd_index_round_trip_witness:
  "nd_index (nd_prepare [3, 4]) [2, 1] = Some 9 \<and> unflatten_index [3, 4] 9 = [2, 1]"
proof -
  have "nd_index (nd_prepare [3, 4]) [2, 1] = Some 9"
    by (simp add: nd_index_def nd_prepare_def word_le_nat_alt)
  then show ?thesis using nd_index_round_trip [of "[3, 4]" "[2, 1]"] by (simp add: box_size_def)
qed

end
