(* ===== verification/AclNetworkTable.thy ===== *)
theory AclNetworkTable
  imports AclCompiler AclNdarray
begin

text \<open>
  The table of pairs of address groups, \<^verbatim>\<open>network_table_t\<close> of \<^verbatim>\<open>src/controlplane/acl_network_table.cpp\<close>, and its
  place in the compiler: a rule's filter is the four filters of its networks, and the table gives a group
  to every pair of a source group and a destination group.  \<open>None\<close> is an exception, an access outside a
  vector, or a loop that does not end.
\<close>

section \<open>Definitions\<close>

type_synonym nt_filter = "nat \<times> nat \<times> nat \<times> nat"

record network_table =
  nt_width :: u32
  nt_table :: nd_array
  nt_group_id :: u32
  nt_initial_group_id :: u32
  nt_remap_group_ids :: "u32 \<Rightarrow> u32 option"
  nt_filters :: "nt_filter list"
  nt_filter_ids :: "(nt_filter, nat) std_map"
  nt_filter_id_rule_ids :: "nat list list"
  nt_filter_id_group_ids :: "u32 list list"
  nt_filter_id_group_ids_next :: "u32 list list"

definition nt_clear :: "network_table \<Rightarrow> network_table" where
  "nt_clear s =
     \<lparr>nt_width = 0, nt_table = nd_clear (nt_table s), nt_group_id = 1, nt_initial_group_id = nt_initial_group_id s, nt_remap_group_ids = Map.empty,
      nt_filters = [], nt_filter_ids = [], nt_filter_id_rule_ids = [], nt_filter_id_group_ids = [], nt_filter_id_group_ids_next = []\<rparr>"

definition nt_new :: network_table where
  "nt_new = nt_clear
     \<lparr>nt_width = 0, nt_table = \<lparr>nd_values = [], nd_sizes = [0, 0], nd_strides = [0, 0]\<rparr>, nt_group_id = 0, nt_initial_group_id = 0, nt_remap_group_ids = Map.empty,
      nt_filters = [], nt_filter_ids = [], nt_filter_id_rule_ids = [], nt_filter_id_group_ids = [], nt_filter_id_group_ids_next = []\<rparr>"

definition nt_collect :: "nat \<Rightarrow> nt_filter \<Rightarrow> network_table \<Rightarrow> nat \<times> network_table" where
  "nt_collect rule_id flt s =
     (let (filter_id, filters, filter_ids) = collect_filter flt (nt_filters s, nt_filter_ids s);
          rule_ids = nt_filter_id_rule_ids s @ replicate (length filters - length (nt_filters s)) []
      in (filter_id, s\<lparr>nt_filters := filters, nt_filter_ids := filter_ids,
                       nt_filter_id_rule_ids := rule_ids[filter_id := rule_ids ! filter_id @ [rule_id]]\<rparr>))"

text \<open>The width of the table is the next power of two; the loop does not end if there is none.\<close>

partial_function (option) round_width :: "u32 \<Rightarrow> u32 \<Rightarrow> u32 option" where
  "round_width w width = (if w < width then round_width (push_bit 1 w) width else Some w)"

definition resize_lists :: "nat \<Rightarrow> u32 list list \<Rightarrow> u32 list list" where
  "resize_lists n xs = take n xs @ replicate (n - length xs) []"

definition nt_prepare :: "u32 \<Rightarrow> u32 \<Rightarrow> network_table \<Rightarrow> network_table option" where
  "nt_prepare height width s =
     (if height = 0 \<or> width = 0 then Some s
      else map_option (\<lambda>w. s\<lparr>nt_width := w, nt_table := nd_prepare [ucast height, ucast w],
               nt_filter_id_group_ids := resize_lists (length (nt_filter_ids s)) (nt_filter_id_group_ids s),
               nt_filter_id_group_ids_next := resize_lists (length (nt_filter_ids s)) (nt_filter_id_group_ids_next s)\<rparr>)
             (round_width 1 width))"

text \<open>The cells that the loops of \<^verbatim>\<open>compile\<close> and \<^verbatim>\<open>populate\<close> visit for a filter.\<close>

definition group_pairs :: "u32 list \<Rightarrow> u32 list \<Rightarrow> u64 list list" where
  "group_pairs source destination = concat (map (\<lambda>k1. map (\<lambda>k2. [ucast k1, ucast k2]) destination) source)"

definition groups_of :: "'a::len word acl_network \<Rightarrow> nat \<Rightarrow> u32 list option" where
  "groups_of n filter_id = (if filter_id < length (nc_filter_group_ids n) then Some (nc_filter_group_ids n ! filter_id) else None)"

definition filter_cells :: "acl_compiler \<Rightarrow> nt_filter \<Rightarrow> u64 list list option" where
  "filter_cells c flt =
     (let (s4, d4, s6, d6) = flt in
      Option.bind (groups_of (network_ipv4_source c) s4) (\<lambda>s4.
      Option.bind (groups_of (network_ipv4_destination c) d4) (\<lambda>d4.
      Option.bind (groups_of (network_ipv6_source c) s6) (\<lambda>s6.
      Option.bind (groups_of (network_ipv6_destination c) d6) (\<lambda>d6.
      Some (group_pairs s4 d4 @ group_pairs s6 d6))))))"

definition nt_compile_filter :: "acl_compiler \<Rightarrow> nt_filter \<Rightarrow> network_table \<Rightarrow> network_table option" where
  "nt_compile_filter c flt s =
     Option.bind (filter_cells c flt) (\<lambda>cells.
       map_option (\<lambda>(table, remap, group_id). s\<lparr>nt_table := table, nt_remap_group_ids := remap, nt_group_id := group_id, nt_initial_group_id := nt_group_id s\<rparr>)
         (fold (\<lambda>keys os. Option.bind os (table_insert nd_get nd_set (nt_group_id s) keys)) cells (Some (nt_table s, Map.empty, nt_group_id s))))"

definition nt_compile :: "acl_compiler \<Rightarrow> network_table \<Rightarrow> network_table option" where
  "nt_compile c s = fold (\<lambda>flt os. Option.bind os (nt_compile_filter c flt)) (nt_filters s) (Some s)"

definition nt_table_get :: "nat \<Rightarrow> u64 list \<Rightarrow> network_table \<Rightarrow> network_table option" where
  "nt_table_get filter_id keys s =
     (let gs = nt_filter_id_group_ids s in
      Option.bind (nd_get (nt_table s) keys) (\<lambda>v.
        if filter_id < length gs then Some (s\<lparr>nt_filter_id_group_ids := gs[filter_id := add_new v (gs ! filter_id)]\<rparr>) else None))"

definition nt_populate :: "acl_compiler \<Rightarrow> network_table \<Rightarrow> network_table option" where
  "nt_populate c s =
     fold (\<lambda>filter_id os. Option.bind os (\<lambda>s.
         Option.bind (filter_cells c (nt_filters s ! filter_id))
           (\<lambda>cells. fold (\<lambda>keys os. Option.bind os (nt_table_get filter_id keys)) cells (Some s))))
       [0..<length (nt_filters s)] (Some s)"

text \<open>
  \<^verbatim>\<open>remap\<close>, after the groups have been distributed over the transport layers: the number of a group gets the
  number of its layer in the low bits.  The argument is the vector of groups of each layer.
\<close>

definition nt_assign_layer :: "nat \<Rightarrow> nat \<Rightarrow> u32 \<Rightarrow> (u32 \<Rightarrow> u32 option) \<Rightarrow> (u32 \<Rightarrow> u32 option) option" where
  "nt_assign_layer shift layer_id g remap =
     (if remap g = None then Some (remap(g \<mapsto> push_bit shift g OR of_nat layer_id)) else None)"

definition nt_assign_layers :: "nat \<Rightarrow> u32 list list \<Rightarrow> (u32 \<Rightarrow> u32 option) option" where
  "nt_assign_layers shift layers =
     fold (\<lambda>(layer_id, g) om. Option.bind om (nt_assign_layer shift layer_id g))
       (concat (map (\<lambda>(layer_id, gs). map (Pair layer_id) gs) (enumerate 0 layers))) (Some Map.empty)"

definition remap_or_0 :: "(u32 \<Rightarrow> u32 option) \<Rightarrow> u32 \<Rightarrow> u32" where
  "remap_or_0 remap g = (case remap g of Some g' \<Rightarrow> g' | None \<Rightarrow> 0)"

definition nt_remap :: "(u32 list \<Rightarrow> u32 list) \<Rightarrow> nat \<Rightarrow> u32 list list \<Rightarrow> network_table \<Rightarrow> (u32 list list \<times> network_table) option" where
  "nt_remap order shift layers s =
     map_option (\<lambda>remap.
         (map (map (remap_or_0 remap)) layers,
          s\<lparr>nt_remap_group_ids := remap, nt_table := (nt_table s)\<lparr>nd_values := map (remap_or_0 remap) (nd_values (nt_table s))\<rparr>,
            nt_filter_id_group_ids := map2 (\<lambda>gs next. fold (\<lambda>g. add_new (remap_or_0 remap g)) (order gs) next)
              (nt_filter_id_group_ids s) (nt_filter_id_group_ids_next s),
            nt_filter_id_group_ids_next := nt_filter_id_group_ids s\<rparr>))
       (nt_assign_layers shift layers)"

text \<open>The part of the compiler: every rule's filter is collected, then the table is built.\<close>

definition nt_filter_of :: "rule_filters \<Rightarrow> nt_filter" where
  "nt_filter_of r = (network_ipv4_source_filter_id r, network_ipv4_destination_filter_id r, network_ipv6_source_filter_id r, network_ipv6_destination_filter_id r)"

definition collect_tables :: "rule_filters list \<Rightarrow> network_table \<Rightarrow> nat list \<times> network_table" where
  "collect_tables rules s =
     fold (\<lambda>(rule_id, r) (ids, s). let (i, s) = nt_collect rule_id (nt_filter_of r) s in (ids @ [i], s)) (enumerate 0 rules) ([], s)"

definition network_table_compile :: "acl_compiler \<Rightarrow> network_table \<Rightarrow> network_table option" where
  "network_table_compile c s =
     Option.bind (nt_prepare (source_group_id c) (destination_group_id c) s) (\<lambda>s. Option.bind (nt_compile c s) (nt_populate c))"

section \<open>Collecting and preparing\<close>

definition nt_collected :: "nt_filter list \<Rightarrow> nat list \<Rightarrow> network_table \<Rightarrow> bool" where
  "nt_collected fs ids s \<longleftrightarrow> numbered (nt_filters s, nt_filter_ids s) \<and> filters_in (nt_filters s) ids fs \<and> nt_group_id s = 1 \<and>
     nt_filter_id_group_ids s = [] \<and> nt_filter_id_group_ids_next s = []"

lemma nt_collected_step:
  assumes "nt_collected fs ids s" and "nt_collect rule_id flt s = (i, s')"
  shows "nt_collected (fs @ [flt]) (ids @ [i]) s'"
proof -
  obtain filters filter_ids where c: "collect_filter flt (nt_filters s, nt_filter_ids s) = (i, filters, filter_ids)"
      "nt_filters s' = filters" "nt_filter_ids s' = filter_ids" and same: "nt_group_id s' = nt_group_id s"
      "nt_filter_id_group_ids s' = nt_filter_id_group_ids s" "nt_filter_id_group_ids_next s' = nt_filter_id_group_ids_next s"
    using assms(2) by (cases "collect_filter flt (nt_filters s, nt_filter_ids s)") (auto simp: nt_collect_def Let_def)
  have "numbered (nt_filters s, nt_filter_ids s)" using assms(1) by (simp add: nt_collected_def)
  note E = collect_filter_effect [OF this c(1), simplified]
  have "filters_in (add_new flt (nt_filters s)) (ids @ [i]) (fs @ [flt])"
    using assms(1) E(2-4) by (intro filters_in_step) (simp_all add: nt_collected_def)
  then show ?thesis using assms(1) E(1,2) c(2,3) same by (simp add: nt_collected_def)
qed

lemma collect_tables_collected: "\<exists>ids s'. collect_tables rules (nt_clear s) = (ids, s') \<and> nt_collected (map nt_filter_of rules) ids s'"
proof -
  have "\<exists>ids' s'. fold (\<lambda>(rule_id, r) (ids, s). let (i, s) = nt_collect rule_id (nt_filter_of r) s in (ids @ [i], s)) (enumerate n rules) (ids, s) = (ids', s') \<and>
      nt_collected (fs @ map nt_filter_of rules) ids' s'" if "nt_collected fs ids s" for n fs ids s
    using that
  proof (induction rules arbitrary: n fs ids s)
    case (Cons r rules)
    obtain i s' where c: "nt_collect n (nt_filter_of r) s = (i, s')" by (cases "nt_collect n (nt_filter_of r) s")
    show ?case using Cons.IH [OF nt_collected_step [OF Cons.prems c], of "Suc n"] c by simp
  qed simp
  from this [of "[]" "[]" "nt_clear s"] show ?thesis by (simp add: collect_tables_def nt_collected_def nt_clear_def)
qed

lemma round_width_returns:
  assumes "w = 2 ^ k" and "k \<le> 31" and "unat width \<le> 2 ^ 31"
  shows "\<exists>w'. round_width w width = Some w' \<and> width \<le> w' \<and> unat w' \<le> 2 ^ 31 \<and> w \<le> w'"
  using assms
proof (induction "31 - k" arbitrary: k w)
  case 0
  then have w: "w = 2 ^ 31" by simp
  then have nl: "\<not> w < width" using 0 by (simp add: word_less_nat_alt)
  then have "round_width w width = Some w" by (subst round_width.simps) (simp only: if_False)
  then show ?case using nl by (simp add: w not_less)
next
  case (Suc d)
  have u: "unat ((2 :: u32) ^ j) = 2 ^ j" if "j \<le> 31" for j using that unat_of_nat_small [where ?'a = 32, of "2 ^ j"] power_strict_increasing [of j 32 "2 :: nat"] by simp
  show ?case
  proof (cases "w < width")
    case True
    have p: "push_bit 1 w = 2 ^ Suc k" using Suc.prems by (simp add: push_bit_eq_mult)
    have k: "d = 31 - Suc k" "Suc k \<le> 31" using Suc.hyps(2) by simp_all
    obtain w' where w': "round_width (push_bit 1 w) width = Some w'" "width \<le> w'" "unat w' \<le> 2 ^ 31" "push_bit 1 w \<le> w'"
      using Suc.hyps(1) [OF k(1) p k(2) Suc.prems(3)] by blast
    have "w \<le> w'" using True w'(2) by (simp add: order.trans less_imp_le)
    then show ?thesis using True w' by (subst round_width.simps) simp
  next
    case False
    have "unat w \<le> 2 ^ 31" using Suc.prems u [of k] power_increasing [of k 31 "2 :: nat"] by simp
    moreover have "round_width w width = Some w" using False by (subst round_width.simps) (simp only: if_False)
    ultimately show ?thesis using False by (simp add: not_less)
  qed
qed

section \<open>Compiling the table\<close>

text \<open>The cells of the filters, and the number of groups they need.\<close>

definition cells_of :: "acl_compiler \<Rightarrow> nt_filter \<Rightarrow> u64 list list" where
  "cells_of c flt = (case filter_cells c flt of Some cells \<Rightarrow> cells | None \<Rightarrow> [])"

definition table_classes :: "acl_compiler \<Rightarrow> nt_filter list \<Rightarrow> nat" where
  "table_classes c fs = snd (insert_classes (map (cells_of c) (fold add_new fs [])))"

definition cells_in :: "u64 list \<Rightarrow> acl_compiler \<Rightarrow> nt_filter \<Rightarrow> bool" where
  "cells_in sizes c flt \<longleftrightarrow> filter_cells c flt = Some (cells_of c flt) \<and> list_all (\<lambda>idx. in_box idx sizes) (cells_of c flt)"

lemma nt_compile_effect:
  assumes h: "nd.holds_classes sizes cl (nt_table s) (nt_group_id s)" and fs: "list_all (cells_in sizes c) fs"
    and room: "snd (fold insert_class (map (cells_of c) fs) cl) < 2 ^ 32"
  shows "\<exists>table remap group_id initial. fold (\<lambda>flt os. Option.bind os (nt_compile_filter c flt)) fs (Some s) =
      Some (s\<lparr>nt_table := table, nt_remap_group_ids := remap, nt_group_id := group_id, nt_initial_group_id := initial\<rparr>) \<and>
     nd.holds_classes sizes (fold insert_class (map (cells_of c) fs) cl) table group_id"
  using assms
proof (induction fs arbitrary: s cl)
  case Nil
  then show ?case by (intro exI [of _ "nt_table s"] exI [of _ "nt_remap_group_ids s"] exI [of _ "nt_group_id s"] exI [of _ "nt_initial_group_id s"]) simp
next
  case (Cons flt fs)
  let ?cl = "insert_class (cells_of c flt) cl"
  have "snd ?cl < 2 ^ 32" using Cons.prems(3) classes_grow [of ?cl "map (cells_of c) fs"] by simp
  then obtain table remap group_id where t: "fold (\<lambda>k os. Option.bind os (table_insert nd_get nd_set (nt_group_id s) k)) (cells_of c flt)
      (Some (nt_table s, Map.empty, nt_group_id s)) = Some (table, remap, group_id)" "nd.holds_classes sizes ?cl table group_id"
    using nd.filter_follows [OF Cons.prems(1), of "cells_of c flt"] Cons.prems(2) by (auto simp: cells_in_def)
  let ?s = "s\<lparr>nt_table := table, nt_remap_group_ids := remap, nt_group_id := group_id, nt_initial_group_id := nt_group_id s\<rparr>"
  have "nt_compile_filter c flt s = Some ?s" using t(1) Cons.prems(2) by (simp add: nt_compile_filter_def cells_in_def)
  moreover have "nd.holds_classes sizes ?cl (nt_table ?s) (nt_group_id ?s)" using t(2) by simp
  ultimately show ?case using Cons.IH [of ?cl ?s] Cons.prems(2,3) by auto
qed

lemma nt_populate_effect:
  assumes empty: "nt_filter_id_group_ids s = replicate (length (nt_filters s)) []" and cells: "list_all (cells_in sizes c) (nt_filters s)"
    and read: "\<And>k. in_box k sizes \<Longrightarrow> nd_get (nt_table s) k = Some (val k)"
  shows "nt_populate c s = Some (s\<lparr>nt_filter_id_group_ids := map (\<lambda>flt. fold (\<lambda>k. add_new (val k)) (cells_of c flt) []) (nt_filters s)\<rparr>)"
proof -
  let ?g = "\<lambda>flt. fold (\<lambda>k. add_new (val k)) (cells_of c flt) []"
  have one: "fold (\<lambda>keys os. Option.bind os (nt_table_get i keys)) ks (Some (s\<lparr>nt_filter_id_group_ids := gs\<rparr>)) =
      Some (s\<lparr>nt_filter_id_group_ids := gs[i := fold (\<lambda>k. add_new (val k)) ks (gs ! i)]\<rparr>)"
    if "i < length gs" "list_all (\<lambda>k. in_box k sizes) ks" for i gs ks
    using that by (induction ks arbitrary: gs) (simp_all add: nt_table_get_def read)
  have "fold (\<lambda>filter_id os. Option.bind os (\<lambda>s. Option.bind (filter_cells c (nt_filters s ! filter_id))
           (\<lambda>cells. fold (\<lambda>keys os. Option.bind os (nt_table_get filter_id keys)) cells (Some s)))) [0..<n] (Some s) =
      Some (s\<lparr>nt_filter_id_group_ids := map ?g (take n (nt_filters s)) @ replicate (length (nt_filters s) - n) []\<rparr>)"
    if "n \<le> length (nt_filters s)" for n
    using that
  proof (induction n)
    case 0
    then show ?case using empty by simp
  next
    case (Suc n)
    then have n: "n < length (nt_filters s)" by simp
    then have r: "replicate (length (nt_filters s) - n) ([] :: u32 list) = [] # replicate (length (nt_filters s) - Suc n) []"
      by (metis Suc_diff_Suc replicate_Suc)
    have "cells_in sizes c (nt_filters s ! n)" using cells n by (simp add: list_all_length)
    then show ?case using Suc.IH n one [of n "map ?g (take n (nt_filters s)) @ replicate (length (nt_filters s) - n) []" "cells_of c (nt_filters s ! n)"]
      by (simp add: cells_in_def r nth_append list_update_append take_Suc_conv_app_nth)
  qed
  from this [of "length (nt_filters s)"] show ?thesis by (simp add: nt_populate_def)
qed

text \<open>After both stages the group of a cell is a group of a filter if and only if the cell is one of the filter's.\<close>

definition table_decides :: "u64 list \<Rightarrow> acl_compiler \<Rightarrow> network_table \<Rightarrow> bool" where
  "table_decides sizes c s \<longleftrightarrow> length (nt_filter_id_group_ids s) = length (nt_filters s) \<and>
     (\<forall>k. in_box k sizes \<longrightarrow> (\<exists>v. nd_get (nt_table s) k = Some v \<and>
        (\<forall>i < length (nt_filters s). v \<in> set (nt_filter_id_group_ids s ! i) \<longleftrightarrow> k \<in> set (cells_of c (nt_filters s ! i)))))"

lemma set_add_cells: "set (fold (\<lambda>k. add_new (val k)) ks gs) = val ` set ks \<union> set gs"
  by (induction ks arbitrary: gs) auto

lemma network_table_decides:
  assumes col: "nt_collected fs ids s" and sizes: "0 < height" "0 < width" "unat height \<le> 2 ^ 31" "unat width \<le> 2 ^ 31"
    and cells: "\<And>w flt. width \<le> w \<Longrightarrow> flt \<in> set fs \<Longrightarrow> cells_in [ucast height, ucast w] c flt"
    and hw: "source_group_id c = height" "destination_group_id c = width" and room: "table_classes c fs < 2 ^ 32"
  shows "\<exists>w s'. network_table_compile c s = Some s' \<and> width \<le> w \<and> table_decides [ucast height, ucast w] c s' \<and> nt_filters s' = nt_filters s"
proof -
  obtain w where w: "round_width 1 width = Some w" "width \<le> w" "unat w \<le> 2 ^ 31"
    using round_width_returns [of 1 0 width] sizes(4) by auto
  let ?sz = "[ucast height, ucast w] :: u64 list" let ?fs = "nt_filters s"
  have fs: "?fs = fold add_new fs []" "length (nt_filter_ids s) = length ?fs" using col by (simp_all add: nt_collected_def filters_in_def numbered_def)
  have "unat height * unat w \<le> 2 ^ 31 * 2 ^ 31" using sizes(3) w(3) by (rule mult_le_mono)
  then have box: "box_size ?sz < 2 ^ 64" by (simp add: box_size_def unat_ucast_up)
  have in_fs: "list_all (cells_in ?sz c) ?fs" using cells [OF w(2)] fs(1) by (simp add: list_all_iff)
  let ?p = "s\<lparr>nt_width := w, nt_table := nd_prepare ?sz, nt_filter_id_group_ids := replicate (length ?fs) [], nt_filter_id_group_ids_next := replicate (length ?fs) []\<rparr>"
  have p: "nt_prepare height width s = Some ?p" using col sizes(1,2) w(1) fs(2) by (simp add: nt_prepare_def resize_lists_def nt_collected_def)
  have "nd.holds_classes ?sz ((\<lambda>_. 0), 1) (nt_table ?p) (nt_group_id ?p)"
    using col box by (simp add: nd.holds_classes_def nd_prepare_ok nd_get_prepared nt_collected_def)
  from nt_compile_effect [OF this, of c ?fs] obtain table remap group_id initial where
      t: "nt_compile c ?p = Some (?p\<lparr>nt_table := table, nt_remap_group_ids := remap, nt_group_id := group_id, nt_initial_group_id := initial\<rparr>)"
      and hc: "nd.holds_classes ?sz (insert_classes (map (cells_of c) ?fs)) table group_id"
    using in_fs room fs(1) by (auto simp: nt_compile_def insert_classes_def table_classes_def)
  let ?cl = "insert_classes (map (cells_of c) ?fs)" let ?val = "\<lambda>k. of_nat (fst ?cl k) :: u32"
  let ?t = "?p\<lparr>nt_table := table, nt_remap_group_ids := remap, nt_group_id := group_id, nt_initial_group_id := initial\<rparr>"
  have read: "nd_get (nt_table ?t) k = Some (?val k)" if "in_box k ?sz" for k using hc that by (simp add: nd.holds_classes_def)
  have inj: "?val k = ?val k' \<longleftrightarrow> fst ?cl k = fst ?cl k'" for k k'
  proof -
    have "unat (?val k) = fst ?cl k" for k using hc less_trans [of "fst ?cl k" "snd ?cl"] by (intro unat_of_nat_small) (auto simp: nd.holds_classes_def)
    then show ?thesis by metis
  qed
  have mem: "?val k \<in> ?val ` set ks \<longleftrightarrow> k \<in> set ks" if "ks \<in> set (map (cells_of c) ?fs)" for k ks
    using classified_member [OF insert_classes_classified that, of k] inj by (auto simp: image_iff)
  have pop: "nt_populate c ?t = Some (?t\<lparr>nt_filter_id_group_ids := map (\<lambda>flt. fold (\<lambda>k. add_new (?val k)) (cells_of c flt) []) ?fs\<rparr>)"
    using nt_populate_effect [of ?t ?sz c ?val] in_fs read by simp
  have dec: "table_decides ?sz c (?t\<lparr>nt_filter_id_group_ids := map (\<lambda>flt. fold (\<lambda>k. add_new (?val k)) (cells_of c flt) []) ?fs\<rparr>)"
    unfolding table_decides_def using read mem by (simp add: set_add_cells)
  then show ?thesis using p t pop w(2) by (intro exI [of _ w] exI) (auto simp: network_table_compile_def hw)
qed

section \<open>The table and the rules\<close>

definition table_accepts4 :: "acl_compiler \<Rightarrow> network_table \<Rightarrow> nat \<Rightarrow> u32 \<Rightarrow> u32 \<Rightarrow> bool" where
  "table_accepts4 c s filter_id x y =
     (case (get_group_ids_by_address x (network_ipv4_source c), get_group_ids_by_address y (network_ipv4_destination c)) of
        (Some k1, Some k2) \<Rightarrow> (case nd_get (nt_table s) [ucast k1, ucast k2] of
            Some v \<Rightarrow> filter_id < length (nt_filter_id_group_ids s) \<and> v \<in> set (nt_filter_id_group_ids s ! filter_id)
          | None \<Rightarrow> False)
      | _ \<Rightarrow> False)"

definition table_accepts6 :: "acl_compiler \<Rightarrow> network_table \<Rightarrow> nat \<Rightarrow> u128 \<Rightarrow> u128 \<Rightarrow> bool" where
  "table_accepts6 c s filter_id x y =
     (case (get_group_ids_by_address x (network_ipv6_source c), get_group_ids_by_address y (network_ipv6_destination c)) of
        (Some k1, Some k2) \<Rightarrow> (case nd_get (nt_table s) [ucast k1, ucast k2] of
            Some v \<Rightarrow> filter_id < length (nt_filter_id_group_ids s) \<and> v \<in> set (nt_filter_id_group_ids s ! filter_id)
          | None \<Rightarrow> False)
      | _ \<Rightarrow> False)"

lemma group_pairs_mem: "[ucast (a :: u32), ucast (b :: u32)] \<in> set (group_pairs S D) \<longleftrightarrow> a \<in> set S \<and> b \<in> set D"
proof -
  have "ucast x = (ucast y :: u64) \<longleftrightarrow> x = y" for x y :: u32 by (metis ucast_32_64_32)
  then show ?thesis by (auto simp: group_pairs_def)
qed

lemma address_group_range:
  assumes "net_ready sel rs sh sh' n ids" and "\<exists>flt \<in> set (filters_of sel rs). filter_match flt x"
  shows "unat sh \<le> unat (address_group n x) \<and> unat (address_group n x) < unat sh'"
  using assms unfolding net_ready_def built_def by blast

lemma ready_address: "net_ready sel rs sh sh' n ids \<Longrightarrow> get_group_ids_by_address x n = Some (address_group n x)"
  unfolding net_ready_def built_def by blast

lemma ready_groups:
  assumes rd: "net_ready sel rs sh sh' n ids" and k: "k < length rs"
  shows "\<exists>gs. groups_of n (ids ! k) = Some gs \<and> (\<forall>g \<in> set gs. unat sh \<le> unat g \<and> unat g < unat sh') \<and>
     (\<forall>x. net_accepts n (ids ! k) x \<longleftrightarrow> address_group n x \<in> set gs)"
proof -
  let ?fs = "filters_of sel rs"
  have b: "built ?fs sh sh' n" and m: "map_of (nc_filter_ids n) (sel (rs ! k)) = Some (ids ! k)" and mem: "sel (rs ! k) \<in> set ?fs"
    using rd k by (auto simp: net_ready_def)
  obtain gs where g: "get_group_ids_by_filter (sel (rs ! k)) n = Some gs" "\<forall>g \<in> set gs. \<exists>x. filter_match (sel (rs ! k)) x \<and> address_group n x = g"
    using b [unfolded built_def] mem by meson
  have gs: "ids ! k < length (nc_filter_group_ids n)" "gs = nc_filter_group_ids n ! (ids ! k)"
    using g(1) m by (auto simp: get_group_ids_by_filter_def split: if_splits)
  have "unat sh \<le> unat g \<and> unat g < unat sh'" if "g \<in> set gs" for g using g(2) that address_group_range [OF rd] mem by metis
  then show ?thesis using gs ready_address [OF rd] by (simp add: groups_of_def net_accepts_def)
qed

text \<open>The cells of a rule's filter, for the groups of addresses.\<close>

lemma rule_cells:
  assumes ok: "rules_ok rs" and c: "compiled_rules rs c" and k: "k < length rs"
  shows "destination_group_id c \<le> w \<Longrightarrow> cells_in [ucast (source_group_id c), ucast w] c (nt_filter_of (compiler_rules c ! k))"
    "[ucast (address_group (network_ipv4_source c) x), ucast (address_group (network_ipv4_destination c) y)] \<in> set (cells_of c (nt_filter_of (compiler_rules c ! k))) \<longleftrightarrow> accepts4 c k x y"
    "[ucast (address_group (network_ipv6_source c) u), ucast (address_group (network_ipv6_destination c) v)] \<in> set (cells_of c (nt_filter_of (compiler_rules c ! k))) \<longleftrightarrow> accepts6 c k u v"
proof -
  have len: "k < length (compiler_rules c)" using c k by (simp add: compiled_rules_def)
  obtain i j where R: "net_ready src4 rs 0 i (network_ipv4_source c) (map network_ipv4_source_filter_id (compiler_rules c))"
     "net_ready dst4 rs 0 j (network_ipv4_destination c) (map network_ipv4_destination_filter_id (compiler_rules c))"
     "net_ready src6 rs i (source_group_id c) (network_ipv6_source c) (map network_ipv6_source_filter_id (compiler_rules c))"
     "net_ready dst6 rs j (destination_group_id c) (network_ipv6_destination c) (map network_ipv6_destination_filter_id (compiler_rules c))"
    using c by (auto simp: compiled_rules_def)
  obtain S4 where S4: "groups_of (network_ipv4_source c) (network_ipv4_source_filter_id (compiler_rules c ! k)) = Some S4" "\<And>g. g \<in> set S4 \<Longrightarrow> unat g < unat i"
      "\<And>x. net_accepts (network_ipv4_source c) (network_ipv4_source_filter_id (compiler_rules c ! k)) x \<longleftrightarrow> address_group (network_ipv4_source c) x \<in> set S4"
    using ready_groups [OF R(1) k, unfolded nth_map [OF len]] by auto
  obtain D4 where D4: "groups_of (network_ipv4_destination c) (network_ipv4_destination_filter_id (compiler_rules c ! k)) = Some D4" "\<And>g. g \<in> set D4 \<Longrightarrow> unat g < unat j"
      "\<And>x. net_accepts (network_ipv4_destination c) (network_ipv4_destination_filter_id (compiler_rules c ! k)) x \<longleftrightarrow> address_group (network_ipv4_destination c) x \<in> set D4"
    using ready_groups [OF R(2) k, unfolded nth_map [OF len]] by auto
  obtain S6 where S6: "groups_of (network_ipv6_source c) (network_ipv6_source_filter_id (compiler_rules c ! k)) = Some S6"
      "\<And>g. g \<in> set S6 \<Longrightarrow> unat i \<le> unat g \<and> unat g < unat (source_group_id c)"
      "\<And>x. net_accepts (network_ipv6_source c) (network_ipv6_source_filter_id (compiler_rules c ! k)) x \<longleftrightarrow> address_group (network_ipv6_source c) x \<in> set S6"
    using ready_groups [OF R(3) k, unfolded nth_map [OF len]] by auto
  obtain D6 where D6: "groups_of (network_ipv6_destination c) (network_ipv6_destination_filter_id (compiler_rules c ! k)) = Some D6"
      "\<And>g. g \<in> set D6 \<Longrightarrow> unat j \<le> unat g \<and> unat g < unat (destination_group_id c)"
      "\<And>x. net_accepts (network_ipv6_destination c) (network_ipv6_destination_filter_id (compiler_rules c ! k)) x \<longleftrightarrow> address_group (network_ipv6_destination c) x \<in> set D6"
    using ready_groups [OF R(4) k, unfolded nth_map [OF len]] by auto
  have cells: "filter_cells c (nt_filter_of (compiler_rules c ! k)) = Some (group_pairs S4 D4 @ group_pairs S6 D6)"
    using S4(1) D4(1) S6(1) D6(1) by (simp add: filter_cells_def nt_filter_of_def)
  then have co: "cells_of c (nt_filter_of (compiler_rules c ! k)) = group_pairs S4 D4 @ group_pairs S6 D6" by (simp add: cells_of_def)
  have ij: "unat i \<le> unat (source_group_id c)" "unat j \<le> unat (destination_group_id c)" using R(3,4) by (simp_all add: net_ready_def)
  show "cells_in [ucast (source_group_id c), ucast w] c (nt_filter_of (compiler_rules c ! k))" if "destination_group_id c \<le> w"
  proof -
    have "in_box [ucast a, ucast b] [ucast (source_group_id c), ucast w]" if "unat a < unat (source_group_id c)" "unat b < unat (destination_group_id c)" for a b :: u32
      using that \<open>destination_group_id c \<le> w\<close> by (simp add: in_box_def word_less_nat_alt word_le_nat_alt unat_ucast_up)
    then show ?thesis unfolding cells_in_def using cells co S4(2) D4(2) S6(2) D6(2) ij by (fastforce simp: list_all_iff group_pairs_def)
  qed
  have g4: "unat (address_group (network_ipv4_source c) x) < unat i" using address_group_range [OF R(1) rules_any_match(1) [OF ok]] by simp
  have g6: "unat i \<le> unat (address_group (network_ipv6_source c) u)" using address_group_range [OF R(3) rules_any_match(3) [OF ok]] by simp
  show "[ucast (address_group (network_ipv4_source c) x), ucast (address_group (network_ipv4_destination c) y)] \<in> set (cells_of c (nt_filter_of (compiler_rules c ! k))) \<longleftrightarrow> accepts4 c k x y"
    unfolding co accepts4_def S4(3) D4(3) using group_pairs_mem S6(2) g4 by fastforce
  show "[ucast (address_group (network_ipv6_source c) u), ucast (address_group (network_ipv6_destination c) v)] \<in> set (cells_of c (nt_filter_of (compiler_rules c ! k))) \<longleftrightarrow> accepts6 c k u v"
    unfolding co accepts6_def S6(3) D6(3) using group_pairs_mem S4(2) g6 by fastforce
qed

lemma source_groups_positive:
  assumes "rules_ok rs" and "compiled_rules rs c"
  shows "0 < source_group_id c" "0 < destination_group_id c"
proof -
  obtain i j where R: "net_ready src6 rs i (source_group_id c) (network_ipv6_source c) (map network_ipv6_source_filter_id (compiler_rules c))"
     "net_ready dst6 rs j (destination_group_id c) (network_ipv6_destination c) (map network_ipv6_destination_filter_id (compiler_rules c))"
    using assms(2) by (auto simp: compiled_rules_def)
  show "0 < source_group_id c" "0 < destination_group_id c"
    using address_group_range [OF R(1) rules_any_match(3) [OF assms(1)], of 0] address_group_range [OF R(2) rules_any_match(4) [OF assms(1)], of 0]
    by (simp_all add: word_less_nat_alt)
qed

lemma table_accepts_rule:
  assumes ok: "rules_ok rs" and c: "compiled_rules rs c" and w: "destination_group_id c \<le> w" and dec: "table_decides [ucast (source_group_id c), ucast w] c s"
    and f: "filters_in (nt_filters s) ids (map nt_filter_of (compiler_rules c))" and k: "k < length rs"
  shows "table_accepts4 c s (ids ! k) x y \<longleftrightarrow> rule_match 4 (rs ! k) x y" "table_accepts6 c s (ids ! k) u v \<longleftrightarrow> rule_match 6 (rs ! k) u v"
proof -
  have len: "k < length (compiler_rules c)" using c k by (simp add: compiled_rules_def)
  have id: "ids ! k < length (nt_filters s)" "nt_filters s ! (ids ! k) = nt_filter_of (compiler_rules c ! k)" using f len by (auto simp: filters_in_def)
  obtain i j where R: "net_ready src4 rs 0 i (network_ipv4_source c) (map network_ipv4_source_filter_id (compiler_rules c))"
     "net_ready dst4 rs 0 j (network_ipv4_destination c) (map network_ipv4_destination_filter_id (compiler_rules c))"
     "net_ready src6 rs i (source_group_id c) (network_ipv6_source c) (map network_ipv6_source_filter_id (compiler_rules c))"
     "net_ready dst6 rs j (destination_group_id c) (network_ipv6_destination c) (map network_ipv6_destination_filter_id (compiler_rules c))"
    using c by (auto simp: compiled_rules_def)
  have ij: "unat i \<le> unat (source_group_id c)" "unat j \<le> unat (destination_group_id c)" using R(3,4) by (simp_all add: net_ready_def)
  have cell: "\<exists>v. nd_get (nt_table s) [ucast a, ucast b] = Some v \<and>
      (v \<in> set (nt_filter_id_group_ids s ! (ids ! k)) \<longleftrightarrow> [ucast a, ucast b] \<in> set (cells_of c (nt_filter_of (compiler_rules c ! k))))"
    if "unat a < unat (source_group_id c)" "unat b < unat (destination_group_id c)" for a b :: u32
  proof -
    have "in_box [ucast a, ucast b] [ucast (source_group_id c), ucast w]"
      using that w by (simp add: in_box_def word_less_nat_alt word_le_nat_alt unat_ucast_up)
    then show ?thesis using dec id unfolding table_decides_def by metis
  qed
  have n: "length (nt_filter_id_group_ids s) = length (nt_filters s)" using dec by (simp add: table_decides_def)
  have g: "unat (address_group (network_ipv4_source c) x) < unat (source_group_id c)" "unat (address_group (network_ipv4_destination c) y) < unat (destination_group_id c)"
      "unat (address_group (network_ipv6_source c) u) < unat (source_group_id c)" "unat (address_group (network_ipv6_destination c) v) < unat (destination_group_id c)"
    using address_group_range [OF R(1) rules_any_match(1) [OF ok], of x] address_group_range [OF R(2) rules_any_match(2) [OF ok], of y]
      address_group_range [OF R(3) rules_any_match(3) [OF ok], of u] address_group_range [OF R(4) rules_any_match(4) [OF ok], of v] ij by simp_all
  show "table_accepts4 c s (ids ! k) x y \<longleftrightarrow> rule_match 4 (rs ! k) x y"
    using cell [OF g(1,2)] rule_cells(2) [OF ok c k, of x y] compiled_accepts(1) [OF ok c k, of x y] id(1) n
    by (auto simp: table_accepts4_def ready_address [OF R(1)] ready_address [OF R(2)])
  show "table_accepts6 c s (ids ! k) u v \<longleftrightarrow> rule_match 6 (rs ! k) u v"
    using cell [OF g(3,4)] rule_cells(3) [OF ok c k, of u v] compiled_accepts(2) [OF ok c k, of u v] id(1) n
    by (auto simp: table_accepts6_def ready_address [OF R(3)] ready_address [OF R(4)])
qed

section \<open>Layers in the group numbers\<close>

lemma assign_fold_layers:
  "fold (\<lambda>(layer_id, g) om. Option.bind om (nt_assign_layer shift layer_id g)) ps (Some m) =
     (if distinct (map snd ps) \<and> (\<forall>p \<in> set ps. m (snd p) = None) then Some (m ++ map_of (rev (map (\<lambda>(l, g). (g, push_bit shift g OR of_nat l)) ps))) else None)"
proof (induction ps arbitrary: m)
  case (Cons p ps)
  have n: "fold (\<lambda>(layer_id, g) om. Option.bind om (nt_assign_layer shift layer_id g)) ps None = None" by (induction ps) auto
  obtain l g where p: "p = (l, g)" by (cases p)
  show ?case
  proof (cases "m g = None")
    case True
    let ?m = "m(g \<mapsto> push_bit shift g OR of_nat l)"
    have "nt_assign_layer shift l g m = Some ?m" using True by (simp add: nt_assign_layer_def)
    then have a: "fold (\<lambda>(layer_id, g) om. Option.bind om (nt_assign_layer shift layer_id g)) (p # ps) (Some m) =
        fold (\<lambda>(layer_id, g) om. Option.bind om (nt_assign_layer shift layer_id g)) ps (Some ?m)" by (simp add: p)
    have b: "(distinct (map snd ps) \<and> (\<forall>q \<in> set ps. ?m (snd q) = None)) \<longleftrightarrow> (distinct (map snd (p # ps)) \<and> (\<forall>q \<in> set (p # ps). m (snd q) = None))"
      using True by (auto simp: p)
    have c: "m ++ map_of (rev (map (\<lambda>(l, g). (g, push_bit shift g OR of_nat l)) (p # ps))) = ?m ++ map_of (rev (map (\<lambda>(l, g). (g, push_bit shift g OR of_nat l)) ps))"
      by (simp add: p)
    show ?thesis by (simp only: a b c Cons.IH)
  next
    case False
    then have "nt_assign_layer shift l g m = None" by (simp add: nt_assign_layer_def)
    then show ?thesis using False n by (simp add: p)
  qed
qed simp

text \<open>The low bits of a new number are the layer, the others the old number.\<close>

lemma layer_number:
  fixes g :: u32
  assumes "shift < 32" and "unat g < 2 ^ (32 - shift)" and "l < 2 ^ shift"
  shows "drop_bit shift (push_bit shift g OR of_nat l) = g" "unat (take_bit shift (push_bit shift g OR of_nat l)) = l"
proof -
  define w where "w = (of_nat l :: u32)"
  have "l < 2 ^ 32" using assms(1,3) power_strict_increasing [of shift 32 "2 :: nat"] by simp
  then have w: "unat w = l" by (simp add: w_def unat_of_nat_small)
  have tw: "take_bit shift w = w" using assms(3) w by (simp add: word_unat_eq_iff unat_take_bit)
  then have lb: "\<not> bit w n" if "shift \<le> n" for n using that by (metis bit_take_bit_iff not_le)
  have lw: "n < shift" if "bit w n" for n using lb [of n] that by (cases "shift \<le> n") auto
  have "take_bit (32 - shift) g = g" using assms(2) by (simp add: word_unat_eq_iff unat_take_bit)
  then have gb: "\<not> bit g n" if "32 - shift \<le> n" for n using that by (metis bit_take_bit_iff not_le)
  have gs: "shift + n < 32" if "bit g n" for n using gb [of n] that by (cases "32 - shift \<le> n") auto
  show "drop_bit shift (push_bit shift g OR of_nat l) = g" unfolding w_def [symmetric]
    by (rule bit_word_eqI) (auto simp: bit_drop_bit_eq bit_or_iff bit_push_bit_iff lb gs)
  have "take_bit shift (push_bit shift g OR w) = w"
    by (rule bit_word_eqI) (auto simp: bit_take_bit_iff bit_or_iff bit_push_bit_iff dest: lw)
  then show "unat (take_bit shift (push_bit shift g OR of_nat l)) = l" using w unfolding w_def [symmetric] by simp
qed

definition layer_pairs :: "nat \<Rightarrow> u32 list list \<Rightarrow> (nat \<times> u32) list" where
  "layer_pairs n layers = concat (map (\<lambda>(layer_id, gs). map (Pair layer_id) gs) (enumerate n layers))"

lemma layer_pairs_groups: "map snd (layer_pairs n layers) = concat layers"
  by (induction layers arbitrary: n) (simp_all add: layer_pairs_def o_def)

lemma layer_pairs_mem: "(l, g) \<in> set (layer_pairs n layers) \<longleftrightarrow> n \<le> l \<and> l < n + length layers \<and> g \<in> set (layers ! (l - n))"
proof -
  have "(l, gs) \<in> set (enumerate n layers) \<longleftrightarrow> n \<le> l \<and> l < n + length layers \<and> gs = layers ! (l - n)" for gs
    by (auto simp: in_set_enumerate_eq)
  moreover have "(l, g) \<in> set (layer_pairs n layers) \<longleftrightarrow> (\<exists>gs. (l, gs) \<in> set (enumerate n layers) \<and> g \<in> set gs)"
    by (auto simp: layer_pairs_def simp del: in_set_enumerate_eq)
  ultimately show ?thesis by metis
qed

lemma nt_assign_layers_effect:
  assumes "shift < 32" and "\<forall>g \<in> set (concat layers). unat g < 2 ^ (32 - shift)" and "length layers \<le> 2 ^ shift"
  shows "if distinct (concat layers)
     then \<exists>remap. nt_assign_layers shift layers = Some remap \<and> dom remap = set (concat layers) \<and>
       (\<forall>l < length layers. \<forall>g \<in> set (layers ! l). \<exists>g'. remap g = Some g' \<and> drop_bit shift g' = g \<and> unat (take_bit shift g') = l)
     else nt_assign_layers shift layers = None"
proof (cases "distinct (concat layers)")
  case True
  let ?ps = "layer_pairs 0 layers"
  let ?qs = "rev (map (\<lambda>(l, g). (g, push_bit shift g OR of_nat l)) ?ps) :: (u32 \<times> u32) list"
  have keys: "map fst ?qs = rev (concat layers)" unfolding layer_pairs_groups [of 0, symmetric] by (simp add: rev_map o_def split_beta)
  have r: "nt_assign_layers shift layers = Some (map_of ?qs)"
    using True unfolding nt_assign_layers_def layer_pairs_def [symmetric] assign_fold_layers layer_pairs_groups by simp
  have "\<exists>g'. map_of ?qs g = Some g' \<and> drop_bit shift g' = g \<and> unat (take_bit shift g') = l" if "l < length layers" "g \<in> set (layers ! l)" for l g
  proof -
    have "(g, push_bit shift g OR of_nat l) \<in> set ?qs" using that layer_pairs_mem [of l g 0 layers] by force
    then have "map_of ?qs g = Some (push_bit shift g OR of_nat l)" using keys True by (intro map_of_is_SomeI) simp_all
    moreover have "unat g < 2 ^ (32 - shift)" using assms(2) that by (auto intro: nth_mem)
    ultimately show ?thesis using layer_number [OF assms(1), of g l] assms(3) that(1) by auto
  qed
  moreover have "dom (map_of ?qs) = set (concat layers)" unfolding dom_map_of_conv_image_fst by (metis keys set_map set_rev)
  ultimately show ?thesis using True r by auto
next
  case False
  then show ?thesis unfolding nt_assign_layers_def layer_pairs_def [symmetric] assign_fold_layers layer_pairs_groups by simp
qed

section \<open>Properties\<close>

text \<open>
  C3: the table of address pairs decides the rules.  After the networks of an accepted rule list have been
  compiled, and if the groups of pairs fit in 32 bits, collecting the rules' filters and building the table
  returns; and for every rule and every pair of addresses of either family, the group that the table has for the
  pair is among the groups of the rule's filter if and only if the rule's networks match the pair.
\<close>

theorem network_table_decides_rules:
  assumes "rules_ok rs" and "has_room c" and "compile_rules rs c = Some c'" and "table_classes c' (map nt_filter_of (compiler_rules c')) < 2 ^ 32"
  shows "\<exists>ids s s'. collect_tables (compiler_rules c') (nt_clear s0) = (ids, s) \<and> network_table_compile c' s = Some s' \<and>
     (\<forall>k < length rs. (\<forall>x y. table_accepts4 c' s' (ids ! k) x y = rule_match 4 (rs ! k) x y) \<and>
        (\<forall>u v. table_accepts6 c' s' (ids ! k) u v = rule_match 6 (rs ! k) u v))"
proof -
  have c: "compiled_rules rs c'" using compile_rules_effect [of rs c] assms(1-3) by (auto simp: rules_ok_def)
  obtain ids s where col: "collect_tables (compiler_rules c') (nt_clear s0) = (ids, s)" "nt_collected (map nt_filter_of (compiler_rules c')) ids s"
    using collect_tables_collected by blast
  have bounds: "unat (source_group_id c') \<le> 2 ^ 31" "unat (destination_group_id c') \<le> 2 ^ 31" using c by (simp_all add: compiled_rules_def)
  have "cells_in [ucast (source_group_id c'), ucast w] c' flt" if "destination_group_id c' \<le> w" "flt \<in> set (map nt_filter_of (compiler_rules c'))" for w flt
    using that rule_cells(1) [OF assms(1) c _ that(1)] c by (auto simp: in_set_conv_nth compiled_rules_def)
  from network_table_decides [OF col(2) source_groups_positive [OF assms(1) c] bounds this refl refl assms(4)]
  obtain w s' where s': "network_table_compile c' s = Some s'" "destination_group_id c' \<le> w"
      "table_decides [ucast (source_group_id c'), ucast w] c' s'" "nt_filters s' = nt_filters s" by blast
  have "filters_in (nt_filters s') ids (map nt_filter_of (compiler_rules c'))" using col(2) s'(4) by (simp add: nt_collected_def)
  then show ?thesis using col(1) s'(1) table_accepts_rule [OF assms(1) c s'(2,3)] by blast
qed

lemma table_classes_count: "table_classes c fs \<le> 2 ^ length fs"
proof -
  have "length (fold add_new fs []) \<le> length fs" using sum_add_new [of "\<lambda>_. 1" fs "[]"] by (simp add: sum_list_triv)
  then have p: "(2::nat) ^ length (fold add_new fs []) \<le> 2 ^ length fs" by (intro power_increasing) simp_all
  have "table_classes c fs \<le> 2 ^ length (fold add_new fs [])" using insert_classes_count [of "map (cells_of c) (fold add_new fs [])"] by (simp add: table_classes_def)
  then show ?thesis using p by (rule order.trans)
qed

theorem network_table_decides_rules_witness:
  "\<exists>c' ids s s'. compile_rules sample_rules (compiler_new 65536) = Some c' \<and>
     collect_tables (compiler_rules c') (nt_clear nt_new) = (ids, s) \<and>
     network_table_compile c' s = Some s' \<and> table_accepts4 c' s' (ids ! 0) 0x0A010203 7 \<and> \<not> table_accepts4 c' s' (ids ! 0) 0x0B010203 7 \<and>
     \<not> table_accepts6 c' s' (ids ! 0) 1 2 \<and> table_accepts6 c' s' (ids ! 1) 1 2"
proof -
  have room: "has_room (compiler_new 65536)" by (simp add: has_room_def compiler_new_def network_new_def network_clear_def tree_new_def tree_clear_def)
  obtain c' where c': "compile_rules sample_rules (compiler_new 65536) = Some c'" "compiled_rules sample_rules c'"
    using compile_rules_effect [OF _ room, of sample_rules] sample_rules_ok by (auto simp: rules_ok_def)
  have len: "length sample_rules = 2" by (simp add: sample_rules_def)
  have "table_classes c' (map nt_filter_of (compiler_rules c')) < 2 ^ 32"
    using table_classes_count [of c' "map nt_filter_of (compiler_rules c')"] c'(2) len by (simp add: compiled_rules_def)
  then obtain ids s s' where D: "collect_tables (compiler_rules c') (nt_clear nt_new) = (ids, s)"
      "network_table_compile c' s = Some s'"
      "\<And>k x y. k < 2 \<Longrightarrow> table_accepts4 c' s' (ids ! k) x y = rule_match 4 (sample_rules ! k) x y"
      "\<And>k u v. k < 2 \<Longrightarrow> table_accepts6 c' s' (ids ! k) u v = rule_match 6 (sample_rules ! k) u v"
    using network_table_decides_rules [OF sample_rules_ok room c'(1), of nt_new] unfolding len by auto
  have m: "rule_match 4 (sample_rules ! 0) (0x0A010203 :: u32) 7" "\<not> rule_match 4 (sample_rules ! 0) (0x0B010203 :: u32) 7"
    "\<not> rule_match 6 (sample_rules ! 0) (1 :: u128) 2" "rule_match 6 (sample_rules ! 1) (1 :: u128) 2"
    by (simp_all add: rule_match_def side_match_def sample_rules_def)
  show ?thesis using D(1,2) D(3,4) [of 0] D(4) [of 1] m c'(1) by auto
qed

end
