(* ===== verification/Spec2Isabelle.thy ===== *)
theory Spec2Isabelle
  imports Checksum BtreeIp VrfLpm AclGc Id32Updater DynamicTable Weight Counter Lpm6 AclFlat AclNetworkTable
begin

text \<open>
  A verification library for YANET, a software router and firewall on top of DPDK.

  \<^bold>\<open>The program.\<close>  A control plane reads the configuration and the routes, compiles them and sends the
  result as requests to the data plane.  The data plane keeps its configuration in two generations
  (\<^verbatim>\<open>src/common/generation.h\<close>), applies every request to both and switches between them; its workers read
  the current one for every burst of packets: forwarding tables for the routes
  (\<^verbatim>\<open>src/dataplane/lpm.h\<close>, \<^verbatim>\<open>vrf.h\<close>), read-only hash tables and two-dimensional tables for the compiled access
  lists (\<^verbatim>\<open>hashtable_mod_id32_dynamic.h\<close>, \<^verbatim>\<open>dynamic_table.h\<close>), all owned by updaters (\<^verbatim>\<open>updater.h\<close>) that
  allocate from one memory manager (\<^verbatim>\<open>memory_manager.cpp\<close>).  Connection states live in hash tables with
  one lock per chunk (\<^verbatim>\<open>hashtable.h\<close>) that workers and the garbage collector (\<^verbatim>\<open>worker_gc.cpp\<close>) share.
  Address translation updates the checksums of packets incrementally (\<^verbatim>\<open>checksum.h\<close>).  The control plane
  stores prefixes in binary trees (\<^verbatim>\<open>src/common/btree.h\<close>) and weighted choices in one array
  (\<^verbatim>\<open>weight.h\<close>, \<^verbatim>\<open>refarray.h\<close>).

  \<^bold>\<open>How the code is represented.\<close>  The model is a shallow embedding.  Integers are words of the width the
  source declares, so that wrap-around is that of the machine; a class is a record of its members and
  every member function a function that returns the new record; an array is a function of its index, a
  list where its length matters, and the loops over it are recursive functions or folds over the list
  of their counters.  Error codes are the values of \<open>eResult\<close>.  A call that does not come back or has
  undefined behaviour (an abort, a dereferenced null pointer, a shift beyond the width, a mutex locked
  twice, a spin lock that is held) is the value \<open>None\<close>.  Template parameters, hash functions, the bit
  access of a key class, the allocator and the contents of fresh memory are arguments; what is assumed of
  DPDK's allocator is the predicate \<open>malloc_ok\<close>.  Definitions have the names of the source, with a prefix
  for the class where two classes use the same name.

  \<^bold>\<open>The theories.\<close>
  \<^descr> \<open>Prelude\<close>: words, result codes, the contracts \<open>override_table\<close> (tables updated range by range),
    \<open>put_map\<close> and \<open>bounded_map\<close> (hash tables), and \<open>doublings\<close>, the measure of the loops that double a size.
  \<^descr> \<open>Checksum\<close>: \<^verbatim>\<open>src/dataplane/checksum.h\<close>.  The unrolled sum equals the sum of 16-bit halves modulo
    65535 for every length; the incremental updates keep valid checksums valid.
  \<^descr> \<open>Address\<close>: the address and prefix classes of \<^verbatim>\<open>src/common/type.h\<close>.  Masks, membership, splitting and
    conversions, and the contract \<open>bit_address\<close> of a key of the trees, interpreted for both versions.
  \<^descr> \<open>Btree\<close>, \<open>BtreeIp\<close>: \<^verbatim>\<open>src/common/btree.h\<close> and its specialisation for addresses.  Lookup is longest prefix
    match; the contract \<open>prefix_store\<close> relates the other queries to point access.
  \<^descr> \<open>Lpm4\<close>, \<open>LpmUpdater\<close>, \<open>VrfLpm\<close>: the IPv4 forwarding table with its pool of chunks and free list, the
    updater that grows it, and one table per routing instance with the burst lookup of the workers.
    Each level refines the one below to the same statement: the last update that covers an address
    decides its lookup.
  \<^descr> \<open>StaticVector\<close>: \<^verbatim>\<open>src/common/static_vector.h\<close>.
  \<^descr> \<open>MemoryManager\<close>: \<^verbatim>\<open>src/dataplane/memory_manager.{h,cpp}\<close> with the memory groups of
    \<^verbatim>\<open>src/common/memory_manager.h\<close>.  The visit of the groups decides the sum condition; allocation and
    release change the set of live addresses by one address.
  \<^descr> \<open>HashtableId32\<close>, \<open>Id32Updater\<close>, \<open>DynamicTable\<close>: the tables of the compiled access lists and their
    updaters on the state of the memory manager.  A filled table is the map of the list; every access is
    within the allocated chunks; an update always returns and leaks nothing on any path.
  \<^descr> \<open>HashtableMod\<close>, \<open>HashtableGc\<close>: the bucketed hash table of the neighbours as a bounded map, and the
    incremental walk with its statistics.
  \<^descr> \<open>Generation\<close>: the double buffer with its queue of requests.
  \<^descr> \<open>HashtableSpinlock\<close>, \<open>HashtableConcurrent\<close>: the table of connection states.  Its operations refine
    those of \<open>HashtableMod\<close>; threads are interleaved between the steps of a call, and an invariant over
    the step relation shows that calls serialise and that some thread can always proceed.
  \<^descr> \<open>AclGc\<close>: the collector of firewall states over these tables.
  \<^descr> \<open>Refarray\<close>, \<open>Weight\<close>: reference-counted values with small numbers, and the array of weighted choices.
  \<^descr> \<open>Lpm6\<close>: the IPv6 forwarding table with 16-bit steps.  An ownership predicate says that the chunks in use
    are a tree below the root and all others are on the free list; every operation keeps it.
  \<^descr> \<open>StdMap\<close>: sorted maps as association lists, as \<^verbatim>\<open>std::map\<close> iterates over them.
  \<^descr> \<open>SegmentAllocator\<close>, \<open>Counter\<close>: \<^verbatim>\<open>src/controlplane/segment_allocator.h\<close> and \<^verbatim>\<open>counter.h\<close>.  Segments are disjoint
    while releases keep the lists of blocks right, and the counters hold exactly the reserved segments.
  \<^descr> \<open>AclTree\<close>, \<open>AclTreeInsert\<close>, \<open>AclTreeQuery\<close>: the tree that classifies addresses for the access lists
    (\<^verbatim>\<open>src/controlplane/acl_tree.h\<close>).  The chunks below the root form a tree; inserting a prefix renames the
    groups of exactly the addresses it covers, and the queries return the groups of the addresses covered.
  \<^descr> \<open>AclBitset\<close>, \<open>AclNetwork\<close>, \<open>AclNetworkGroups\<close>, \<open>AclNetworkCorrect\<close>: \<^verbatim>\<open>acl/bitset.h\<close>, \<^verbatim>\<open>acl/network.h\<close> and
    \<^verbatim>\<open>acl_network.h\<close>.  After its four stages a network gives two addresses the same group if and only if the
    same filters match them.
  \<^descr> \<open>AclCompiler\<close>: the network stage of \<^verbatim>\<open>acl_compiler.cpp\<close> for both address families and directions.
  \<^descr> \<open>AclClasses\<close>: the numbering of classes that the stages of the compiler share, as a reference definition:
    two keys end in the same class if and only if the same filters visit them.
  \<^descr> \<open>AclFlat\<close>: \<^verbatim>\<open>acl_flat.h\<close>, the arrays for protocols, ports and flags.  \<open>AclNdarray\<close>: \<^verbatim>\<open>ndarray.h\<close>, with the
    contract \<open>cell_table\<close> under which \<^verbatim>\<open>table_insert\<close> follows the numbering.  \<open>AclNetworkTable\<close>:
    \<^verbatim>\<open>acl_network_table.cpp\<close>, the table of pairs of address groups, which decides the rules.

  \<^bold>\<open>Termination and bounds.\<close>  Loops over arrays are structural.  The walks over the chunks of the IPv6 table
  and of the access list tree carry the number of levels left, 8 and one per byte of an address; a walk that
  is deeper is \<open>None\<close>, and the theorems show that the operations return.  The retry loops
  of the updaters double a 32-bit size and end when it wraps around to zero, because the size of the
  request is then zero, which the memory manager refuses; the measure is \<open>doublings\<close>.  \<open>destroy\<close> recurses
  only with the mutex held, which ends the recursion.  Statements on lookups after updates assume
  prefixes without host bits and values below \<open>2 ^ 24\<close>, as the callers pass them; they hold for all
  sizes of the tables.

  \<^bold>\<open>Defects.\<close>  Some theorems state what the code does where it differs from what it means to do: the pool
  of a forwarding table is never shrunk, \<^verbatim>\<open>pop_back\<close> of the static vector always aborts, clearing the VRF
  updater locks a mutex twice, the first allocation of an object escapes its memory limit, a wrong width
  is reported as a lack of memory, a state refreshed while the collector looks at it is removed, the
  operators' view loses live states, the segments of the counter allocator can overlap and released
  segments become unusable, weights overflow, group 0 of the access lists has two meanings, time stamps from the future count as expired, and the mask of an
  IPv6 prefix is computed with a shift beyond the width.

  \<^bold>\<open>Not modelled.\<close>  Packet processing (\<^verbatim>\<open>worker.cpp\<close>, \<^verbatim>\<open>slow_worker.cpp\<close>, ICMP, fragments, direct egress) works in
  place on DPDK packet buffers and needs a model of that memory.  Configuration parsing, sockets,
  netlink, shared memory, start-up, the command line and reports are input and output.  The firewall
  parser is generated.  The read-only prefix tables and the older static hash
  tables, the collectors of NAT64 and balancer states, the transport and total tables of the access list
  compiler and the routing information base are pure enough to follow the same method and are not covered yet; of the templates
  over the address type the IPv4 instances are covered.
\<close>

end
